(* ===== verification/Omni_Prelude.thy ===== *)
theory Omni_Prelude
  imports Complex_Main "HOL-Library.AList" "HOL-Library.Multiset" "HOL-Library.Sublist"
begin

text \<open>
  Shared vocabulary of the development.

  JavaScript \<open>number\<close>s that hold counts, limits, costs and timestamps are \<open>int\<close>;
  those that hold ratios are \<open>rat\<close> (exact, so the rounding of doubles is not modelled).
  \<open>null\<close> and \<open>undefined\<close> are \<open>None\<close>. A \<open>Map\<close> keeps its keys in insertion order:
  it is an association list, with \<open>set\<close> updating in place or appending.
  \<open>Date.now()\<close> is an argument of every handler: one synchronous handler reads one clock value.

  The two locales here are the interfaces every stateful component is built on: a keyed
  store, and an event-driven machine with an invariant.
\<close>

named_theorems jsmap_simps \<open>laws of the insertion-ordered map\<close>

section \<open>Insertion-ordered maps\<close>

type_synonym ('k, 'v) jsmap = "('k \<times> 'v) list"

definition jm_get :: "('k, 'v) jsmap \<Rightarrow> 'k \<Rightarrow> 'v option" where
  "jm_get m k = map_of m k"

definition jm_set :: "'k \<Rightarrow> 'v \<Rightarrow> ('k, 'v) jsmap \<Rightarrow> ('k, 'v) jsmap" where
  "jm_set k v m = AList.update k v m"

definition jm_del :: "'k \<Rightarrow> ('k, 'v) jsmap \<Rightarrow> ('k, 'v) jsmap" where
  "jm_del k m = filter (\<lambda>p. fst p \<noteq> k) m"

definition jm_has :: "('k, 'v) jsmap \<Rightarrow> 'k \<Rightarrow> bool" where
  "jm_has m k = (jm_get m k \<noteq> None)"

definition jm_ok :: "('k, 'v) jsmap \<Rightarrow> bool" where
  "jm_ok m = distinct (map fst m)"

abbreviation jm_keys :: "('k, 'v) jsmap \<Rightarrow> 'k list" where
  "jm_keys m \<equiv> map fst m"

lemma jm_get_Nil [simp, jsmap_simps]: "jm_get [] k = None"
  by (simp add: jm_get_def)

lemma jm_get_set [simp, jsmap_simps]:
  "jm_get (jm_set k v m) k' = (if k' = k then Some v else jm_get m k')"
  by (simp add: jm_get_def jm_set_def update_conv')

lemma jm_get_del [simp, jsmap_simps]:
  "jm_get (jm_del k m) k' = (if k' = k then None else jm_get m k')"
  by (induction m) (auto simp: jm_get_def jm_del_def)

lemma jm_ok_Nil [simp, jsmap_simps]: "jm_ok []"
  by (simp add: jm_ok_def)

lemma jm_ok_set [simp, jsmap_simps]: "jm_ok m \<Longrightarrow> jm_ok (jm_set k v m)"
  by (simp add: jm_ok_def jm_set_def distinct_update)

lemma jm_ok_del [simp, jsmap_simps]: "jm_ok m \<Longrightarrow> jm_ok (jm_del k m)"
  by (induction m) (auto simp: jm_ok_def jm_del_def)

lemma set_jm_keys: "set (jm_keys m) = {k. jm_get m k \<noteq> None}"
  unfolding jm_get_def by (induction m) auto

lemma jm_has_keys: "jm_has m k \<longleftrightarrow> k \<in> set (jm_keys m)"
  by (simp only: set_jm_keys) (simp add: jm_has_def)

lemma jm_get_mem: "jm_ok m \<Longrightarrow> (k, v) \<in> set m \<longleftrightarrow> jm_get m k = Some v"
  by (simp add: jm_ok_def jm_get_def)

lemma jm_get_SomeD: "jm_get m k = Some v \<Longrightarrow> (k, v) \<in> set m"
  by (simp add: jm_get_def map_of_SomeD)

lemma jm_del_id: "\<not> jm_has m k \<Longrightarrow> jm_del k m = m"
  by (induction m) (auto simp: jm_has_def jm_get_def jm_del_def split: if_splits)

lemma jm_set_new: "\<not> jm_has m k \<Longrightarrow> jm_set k v m = m @ [(k, v)]"
  by (induction m) (auto simp: jm_has_def jm_get_def jm_set_def split: if_splits)

lemma jm_set_same: "jm_get m k = Some v \<Longrightarrow> jm_set k v m = m"
  by (induction m) (auto simp: jm_get_def jm_set_def split: if_splits)

lemma jm_set_set: "jm_set k v (jm_set k w m) = jm_set k v m"
  by (induction m) (auto simp: jm_set_def)

lemma length_jm_set:
  "length (jm_set k v m) = (if jm_has m k then length m else Suc (length m))"
  by (induction m) (auto simp: jm_set_def jm_has_def jm_get_def)

lemma length_jm_del_le: "length (jm_del k m) \<le> length m"
  by (simp add: jm_del_def)

lemma length_jm_del:
  "jm_ok m \<Longrightarrow> jm_has m k \<Longrightarrow> Suc (length (jm_del k m)) = length m"
proof (induction m)
  case Nil
  then show ?case by (simp add: jm_has_def)
next
  case (Cons p m)
  show ?case
  proof (cases "fst p = k")
    case True
    with Cons.prems have "\<not> jm_has m k"
      by (auto simp: jm_ok_def jm_has_keys)
    then have "jm_del k m = m" by (rule jm_del_id)
    with True show ?thesis by (simp add: jm_del_def)
  next
    case False
    with Cons show ?thesis
      by (auto simp: jm_ok_def jm_has_def jm_get_def jm_del_def split: if_splits)
  qed
qed

lemma jm_get_filter:
  assumes "jm_ok m"
  shows "jm_get (filter (\<lambda>(_, e). P e) m) k = (case jm_get m k of None \<Rightarrow> None | Some e \<Rightarrow> if P e then Some e else None)"
  using assms
proof (induction m)
  case (Cons x m)
  obtain k' e' where x: "x = (k', e')" by (cases x)
  have "jm_get m k' = None" using Cons.prems x by (auto simp: jm_ok_def jm_get_def map_of_eq_None_iff)
  then show ?case using Cons x by (auto simp: jm_ok_def jm_get_def split: option.splits)
qed simp

lemma jm_ok_filter: "jm_ok m \<Longrightarrow> jm_ok (filter P m)"
  by (simp add: jm_ok_def distinct_map_filter)

subsection \<open>Sums over the values\<close>

definition jm_sum :: "('v \<Rightarrow> 'a::cancel_comm_monoid_add) \<Rightarrow> ('k, 'v) jsmap \<Rightarrow> 'a" where
  "jm_sum f m = sum_list (map (\<lambda>p. f (snd p)) m)"

lemma jm_sum_simps [simp]: "jm_sum f [] = 0" "jm_sum f (p # m) = f (snd p) + jm_sum f m"
  "jm_sum f (m @ m') = jm_sum f m + jm_sum f m'"
  by (simp_all add: jm_sum_def)

lemma jm_sum_set_new: "jm_get m k = None \<Longrightarrow> jm_sum f (jm_set k v m) = jm_sum f m + f v"
  by (simp add: jm_set_new jm_has_def)

lemma jm_sum_set_old:
  "jm_get m k = Some w \<Longrightarrow> jm_sum f (jm_set k v m) + f w = jm_sum f m + f v"
  by (induction m) (auto simp: jm_get_def jm_set_def ac_simps split: if_splits)

lemma jm_sum_del:
  assumes "jm_ok m" and "jm_get m k = Some w"
  shows "jm_sum f (jm_del k m) + f w = jm_sum f m"
  using assms
proof (induction m)
  case (Cons p m)
  show ?case
  proof (cases "fst p = k")
    case True
    with Cons.prems have "\<not> jm_has m k" by (auto simp: jm_ok_def jm_has_keys)
    then have "jm_del k m = m" by (rule jm_del_id)
    with True Cons.prems show ?thesis by (simp add: jm_del_def jm_get_def ac_simps split: prod.splits)
  next
    case False
    with Cons have "jm_sum f m = jm_sum f (jm_del k m) + f w"
      by (auto simp: jm_ok_def jm_get_def split: prod.splits)
    with False show ?thesis by (simp add: jm_del_def ac_simps)
  qed
qed (simp add: jm_get_def)

lemma jm_set_values: "p \<in> set (jm_set k v m) \<Longrightarrow> p = (k, v) \<or> p \<in> set m"
  by (induction m) (auto simp: jm_set_def split: if_splits)

lemma jm_del_values: "p \<in> set (jm_del k m) \<Longrightarrow> p \<in> set m \<and> fst p \<noteq> k"
  by (auto simp: jm_del_def)

section \<open>The keyed-store interface\<close>

text \<open>
  What the registries, gates and limiters use of a \<open>Map\<close>: lookup, store, remove, and the
  list of keys in insertion order.
\<close>

locale keyed_store =
  fixes get :: "'m \<Rightarrow> 'k \<Rightarrow> 'v option"
    and put :: "'k \<Rightarrow> 'v \<Rightarrow> 'm \<Rightarrow> 'm"
    and del :: "'k \<Rightarrow> 'm \<Rightarrow> 'm"
    and keys :: "'m \<Rightarrow> 'k list"
    and ok :: "'m \<Rightarrow> bool"
  assumes get_put: "get (put k v m) k' = (if k' = k then Some v else get m k')"
    and get_del: "get (del k m) k' = (if k' = k then None else get m k')"
    and keys_get: "set (keys m) = {k. get m k \<noteq> None}"
    and ok_put: "ok m \<Longrightarrow> ok (put k v m)"
    and ok_del: "ok m \<Longrightarrow> ok (del k m)"
    and ok_distinct: "ok m \<Longrightarrow> distinct (keys m)"
begin

text \<open>Removing a list of keys, as the sweeps and evictions do.\<close>

lemma get_fold_del:
  "get (fold del ks m) k = (if k \<in> set ks then None else get m k)"
  by (induction ks arbitrary: m) (auto simp: get_del)

lemma ok_fold_del: "ok m \<Longrightarrow> ok (fold del ks m)"
  by (induction ks arbitrary: m) (auto intro: ok_del)

lemma length_keys_fold_del:
  assumes "ok m" and "distinct ks" and "set ks \<subseteq> set (keys m)"
  shows "length (keys (fold del ks m)) + length ks = length (keys m)"
proof -
  have "ok (fold del ks m)" using assms(1) by (rule ok_fold_del)
  then have "length (keys (fold del ks m)) = card (set (keys (fold del ks m)))"
    by (simp add: ok_distinct distinct_card)
  also have "set (keys (fold del ks m)) = set (keys m) - set ks"
    by (auto simp: keys_get get_fold_del)
  also have "card \<dots> = card (set (keys m)) - card (set ks)"
    using assms(3) by (simp add: card_Diff_subset)
  finally have "length (keys (fold del ks m)) = length (keys m) - length ks"
    using assms by (simp add: ok_distinct distinct_card)
  moreover have "length ks \<le> length (keys m)"
    using assms card_mono [of "set (keys m)" "set ks"]
    by (simp add: ok_distinct distinct_card)
  ultimately show ?thesis by simp
qed

text \<open>A property of all stored values survives a store of a good value and any removal.\<close>

lemma all_values_put:
  "\<forall>k v. get m k = Some v \<longrightarrow> P k v \<Longrightarrow> P k0 v0 \<Longrightarrow>
   \<forall>k v. get (put k0 v0 m) k = Some v \<longrightarrow> P k v"
  by (auto simp: get_put)

lemma all_values_del:
  "\<forall>k v. get m k = Some v \<longrightarrow> P k v \<Longrightarrow>
   \<forall>k v. get (del k0 m) k = Some v \<longrightarrow> P k v"
  by (auto simp: get_del)

end

interpretation jsmap: keyed_store jm_get jm_set jm_del jm_keys jm_ok
proof unfold_locales
  show "set (jm_keys m) = {k. jm_get m k \<noteq> None}" for m :: "('a \<times> 'b) list"
    by (rule set_jm_keys)
  show "distinct (jm_keys m)" if "jm_ok m" for m :: "('a \<times> 'b) list"
    using that by (simp add: jm_ok_def)
qed simp_all

section \<open>Event-driven machines\<close>

text \<open>
  Each stateful component is a step function over its events; a run folds it over a
  list of events. An invariant of one step holds along every run.
\<close>

fun run :: "('s \<Rightarrow> 'e \<Rightarrow> 's) \<Rightarrow> 's \<Rightarrow> 'e list \<Rightarrow> 's" where
  "run step s [] = s"
| "run step s (e # es) = run step (step s e) es"

lemma run_append: "run step s (xs @ ys) = run step (run step s xs) ys"
  by (induction xs arbitrary: s) auto

locale machine =
  fixes step :: "'s \<Rightarrow> 'e \<Rightarrow> 's"
    and inv :: "'s \<Rightarrow> bool"
  assumes step_inv: "inv s \<Longrightarrow> inv (step s e)"
begin

lemma run_inv: "inv s \<Longrightarrow> inv (run step s es)"
  by (induction es arbitrary: s) (auto intro: step_inv)

lemma run_prefix_inv: "inv s \<Longrightarrow> es = xs @ ys \<Longrightarrow> inv (run step s xs)"
  by (rule run_inv)

end

text \<open>A machine with a quantity that no step increases.\<close>

locale measured_machine = machine +
  fixes m :: "'s \<Rightarrow> 'a::order"
  assumes step_mono: "inv s \<Longrightarrow> m (step s e) \<le> m s"
begin

lemma run_mono: "inv s \<Longrightarrow> m (run step s es) \<le> m s"
proof (induction es arbitrary: s)
  case Nil
  then show ?case by simp
next
  case (Cons e es)
  then have "m (run step (step s e) es) \<le> m (step s e)" by (simp add: step_inv)
  also have "\<dots> \<le> m s" using Cons.prems by (rule step_mono)
  finally show ?case by simp
qed

end

section \<open>Small facts\<close>

text \<open>\<open>if (x)\<close> on an optional number: \<open>null\<close> and \<open>0\<close> are both false.\<close>

definition truthy :: "int option \<Rightarrow> bool" where
  "truthy t = (case t of None \<Rightarrow> False | Some x \<Rightarrow> x \<noteq> 0)"

lemma truthy_simps [simp]: "\<not> truthy None" "truthy (Some x) \<longleftrightarrow> x \<noteq> 0"
  by (simp_all add: truthy_def)

text \<open>
  \<open>String.prototype.toLowerCase\<close> and \<open>includes\<close>, on strings of ASCII characters.
\<close>

definition lower_char :: "char \<Rightarrow> char" where
  "lower_char c = (let n = of_char c :: nat in if 65 \<le> n \<and> n \<le> 90 then char_of (n + 32) else c)"

definition toLowerCase :: "string \<Rightarrow> string" where
  "toLowerCase s = map lower_char s"

primrec str_includes :: "string \<Rightarrow> string \<Rightarrow> bool" where
  "str_includes [] p = (p = [])"
| "str_includes (c # s) p = (prefix p (c # s) \<or> str_includes s p)"

lemma str_includes_sublist: "str_includes s p \<longleftrightarrow> sublist p s"
  by (induction s) (auto simp: sublist_Cons_right)

text \<open>\<open>Number.MAX_SAFE_INTEGER\<close>\<close>

definition MAX_SAFE_INTEGER :: int where
  "MAX_SAFE_INTEGER = 9007199254740991"

lemma MAX_SAFE_pos [simp]: "0 < MAX_SAFE_INTEGER" "0 \<le> MAX_SAFE_INTEGER"
  by (simp_all add: MAX_SAFE_INTEGER_def)

lemma sum_list_map_remove1:
  fixes f :: "'a \<Rightarrow> int"
  shows "x \<in> set xs \<Longrightarrow> sum_list (map f (remove1 x xs)) = sum_list (map f xs) - f x"
  by (induction xs) auto

lemma sum_list_nonneg_int: "(\<And>x. x \<in> set xs \<Longrightarrow> 0 \<le> f x) \<Longrightarrow> (0::int) \<le> sum_list (map f xs)"
  by (induction xs) auto


text \<open>Numbered tokens: looking one up, and the count of the others with its tag.\<close>

lemma find_by_key:
  assumes "find (\<lambda>p. fst p = t) xs = Some p"
  shows "p \<in> set xs \<and> fst p = t"
  using assms by (auto simp: find_Some_iff)

lemma count_without:
  fixes xs :: "(nat \<times> 'k) list"
  assumes "distinct (map fst xs)" and "(t, k) \<in> set xs"
  shows "int (length (filter (\<lambda>p. snd p = k') (filter (\<lambda>p. fst p \<noteq> t) xs))) =
    int (length (filter (\<lambda>p. snd p = k') xs)) - (if k' = k then 1 else 0)"
  using assms
proof (induction xs)
  case (Cons p xs)
  show ?case
  proof (cases "fst p = t")
    case True
    then have t: "filter (\<lambda>p. fst p \<noteq> t) xs = xs" using Cons.prems by (auto simp: filter_id_conv image_iff)
    have "p = (t, k)" using True Cons.prems by (auto simp: image_iff)
    with True show ?thesis by (simp add: t)
  next
    case False
    then show ?thesis using Cons by (cases p) auto
  qed
qed simp

text \<open>A \<open>Set\<close> keeps its members in insertion order: a list without duplicates.\<close>

definition set_add :: "'a \<Rightarrow> 'a list \<Rightarrow> 'a list" where
  "set_add x xs = (if x \<in> set xs then xs else xs @ [x])"

lemma set_set_add [simp]: "set (set_add x xs) = insert x (set xs)"
  by (auto simp: set_add_def)

section \<open>Errors as values\<close>

text \<open>A function that may throw returns \<open>Inl\<close> the error or \<open>Inr\<close> its result.\<close>

definition bindE :: "'e + 'a \<Rightarrow> ('a \<Rightarrow> 'e + 'b) \<Rightarrow> 'e + 'b" where
  "bindE m k = (case m of Inl e \<Rightarrow> Inl e | Inr x \<Rightarrow> k x)"

lemma bindE_simps [simp]: "bindE (Inl e) k = Inl e" "bindE (Inr x) k = k x"
  by (simp_all add: bindE_def)

lemma bindE_Inr: "bindE m k = Inr y \<longleftrightarrow> (\<exists>x. m = Inr x \<and> k x = Inr y)"
  by (cases m) simp_all

text \<open>A validator that returned ran through every check.\<close>

lemma bindE_InrE: "bindE m k = Inr y \<Longrightarrow> (\<And>x. m = Inr x \<Longrightarrow> k x = Inr y \<Longrightarrow> P) \<Longrightarrow> P"
  by (cases m) simp_all

lemma throw_ifE: "(if c then Inl e else m) = Inr y \<Longrightarrow> (\<not> c \<Longrightarrow> m = Inr y \<Longrightarrow> P) \<Longrightarrow> P"
  by (cases c) simp_all

section \<open>Values of unknown type\<close>

text \<open>
  What a validator can see of a JavaScript value: \<open>NonFinite\<close> is \<open>NaN\<close> or an infinity, \<open>OtherVal\<close>
  an object, symbol or function.
\<close>

datatype jsval = Undefined | Null | Num rat | NonFinite | Str string | JBool bool | OtherVal

text \<open>\<open>x ?? y\<close>\<close>

definition nullish_or :: "jsval \<Rightarrow> jsval \<Rightarrow> jsval" where
  "nullish_or x y = (case x of Undefined \<Rightarrow> y | Null \<Rightarrow> y | _ \<Rightarrow> x)"

text \<open>\<open>typeof v === "number" && Number.isSafeInteger(v)\<close>, with its value\<close>

definition safe_integer :: "jsval \<Rightarrow> int option" where
  "safe_integer v = (case v of
     Num r \<Rightarrow> if of_int \<lfloor>r\<rfloor> = r \<and> \<bar>\<lfloor>r\<rfloor>\<bar> \<le> MAX_SAFE_INTEGER then Some \<lfloor>r\<rfloor> else None
   | _ \<Rightarrow> None)"

lemma safe_integer_bound: "safe_integer v = Some n \<Longrightarrow> \<bar>n\<bar> \<le> MAX_SAFE_INTEGER"
  by (auto simp: safe_integer_def split: jsval.splits if_splits)

lemma safe_integer_of_int [simp]:
  "safe_integer (Num (of_int n)) = (if \<bar>n\<bar> \<le> MAX_SAFE_INTEGER then Some n else None)"
  by (simp add: safe_integer_def)

end
