(* ===== verification/CircuitBreaker.thy ===== *)
theory CircuitBreaker
  imports Omni_Prelude
begin

text \<open>
  The provider circuit breaker, \<open>src/shared/utils/circuitBreaker.ts\<close>, with its rows in the
  table \<open>domain_circuit_breakers\<close> (\<open>src/lib/db/domainState.ts\<close>).

  A \<open>CircuitBreaker\<close> object is the record \<open>breaker\<close>. The table is a partial map from names
  to rows; \<open>None\<close> stands for a database that is not ready, whose calls throw and are
  swallowed by the class. \<open>execute\<close> is split where it awaits: \<open>execute_begin\<close> runs up to the
  call of \<open>fn\<close>, \<open>execute_end\<close> is the continuation with the outcome of \<open>fn\<close>, so any
  interleaving of concurrent calls is a list of events.
\<close>

section \<open>Errors that are not failures\<close>

text \<open>A thrown value: \<open>null\<close>, a string, or an object with an optional name and message.\<close>

datatype js_error = ErrNull | ErrString string | ErrObj "string option" "string option"

definition isLocalStreamLifecycleError :: "js_error \<Rightarrow> bool" where
  "isLocalStreamLifecycleError e =
     (let errName = (case e of ErrObj (Some n) _ \<Rightarrow> n | _ \<Rightarrow> []);
          message = (case e of ErrString s \<Rightarrow> s | ErrObj _ (Some m) \<Rightarrow> m | _ \<Rightarrow> []);
          msg = toLowerCase message
      in if e = ErrNull \<or> e = ErrString [] then False
         else if errName = ''AbortError'' then True
         else if message = [] then False
         else str_includes msg ''controller is already closed''
            \<or> str_includes msg ''request_signal_aborted''
            \<or> str_includes msg ''client disconnected''
            \<or> str_includes msg ''operation was aborted'')"

section \<open>State\<close>

datatype cb_state = CLOSED | DEGRADED | OPEN | HALF_OPEN

datatype failure_kind = RateLimit | QuotaExhausted | Transient

text \<open>The template strings of the transition reasons, one constructor per template.\<close>

datatype cb_reason = ManualReset | SuccessRecovery | ProbeSuccess | Recovery
  | KindReason failure_kind | ProbeFailed int | ElevatedFailures int int
  | TimeoutElapsed | NoReason

record kind_thresholds =
  kt_threshold :: "int option"
  kt_immediateOpen :: bool

record transition_record =
  tr_from :: cb_state
  tr_to :: cb_state
  tr_timestamp :: int
  tr_failureCount :: int
  tr_reason :: cb_reason

record saved_breaker =
  s_state :: cb_state
  s_failureCount :: int
  s_lastFailureTime :: "int option"
  s_lastFailureKind :: "failure_kind option"
  s_openCycleCount :: int
  s_kindFailureCounts :: "failure_kind \<rightharpoonup> int"

type_synonym cb_db = "(string \<rightharpoonup> saved_breaker) option"

text \<open>
  \<open>b_classifyError\<close> is the optional classifier; \<open>Inl ()\<close> is a classifier that throws.
  \<open>b_onStateChange\<close> says whether a listener is installed and \<open>b_notified\<close> logs its calls.
\<close>

record 'e breaker =
  b_name :: string
  b_failureThreshold :: int
  b_resetTimeout :: int
  b_halfOpenRequests :: int
  b_onStateChange :: bool
  b_notified :: "(cb_state \<times> cb_state) list"
  b_isFailure :: "'e \<Rightarrow> bool"
  b_state :: cb_state
  b_failureCount :: int
  b_successCount :: int
  b_lastFailureTime :: "int option"
  b_halfOpenAllowed :: int
  b_cooldownByKind :: "failure_kind \<rightharpoonup> int"
  b_classifyError :: "('e \<Rightarrow> unit + failure_kind option) option"
  b_lastFailureKind :: "failure_kind option"
  b_kindThresholds :: "failure_kind \<rightharpoonup> kind_thresholds"
  b_degradationThreshold :: int
  b_maxBackoffMultiplier :: int
  b_backoffEscalationCount :: int
  b_kindFailureCounts :: "failure_kind \<rightharpoonup> int"
  b_openCycleCount :: int
  b_transitionHistory :: "transition_record list"
  b_maxTransitionHistory :: int

text \<open>\<open>CircuitBreakerOptions\<close>: every field optional.\<close>

record 'e cb_options =
  o_failureThreshold :: "int option"
  o_resetTimeout :: "int option"
  o_halfOpenRequests :: "int option"
  o_onStateChange :: bool
  o_isFailure :: "('e \<Rightarrow> bool) option"
  o_cooldownByKind :: "failure_kind \<rightharpoonup> int"
  o_classifyError :: "('e \<Rightarrow> unit + failure_kind option) option"
  o_kindThresholds :: "failure_kind \<rightharpoonup> kind_thresholds"
  o_degradationThreshold :: "int option"
  o_maxBackoffMultiplier :: "int option"
  o_backoffEscalationCount :: "int option"

definition no_options :: "'e cb_options" where
  "no_options = \<lparr>o_failureThreshold = None, o_resetTimeout = None, o_halfOpenRequests = None,
     o_onStateChange = False, o_isFailure = None, o_cooldownByKind = Map.empty,
     o_classifyError = None, o_kindThresholds = Map.empty, o_degradationThreshold = None,
     o_maxBackoffMultiplier = None, o_backoffEscalationCount = None\<rparr>"

definition or_else :: "'a option \<Rightarrow> 'a \<Rightarrow> 'a" where
  "or_else x d = (case x of None \<Rightarrow> d | Some v \<Rightarrow> v)"

lemma or_else_simps [simp]: "or_else None d = d" "or_else (Some v) d = v"
  by (simp_all add: or_else_def)

text \<open>\<open>Math.ceil((n * 60) / 100)\<close>, exact on integers.\<close>

definition ceil_div :: "int \<Rightarrow> int \<Rightarrow> int" where
  "ceil_div a b = - ((- a) div b)"

section \<open>Persistence\<close>

definition cb_snapshot :: "'e breaker \<Rightarrow> saved_breaker" where
  "cb_snapshot b = \<lparr>s_state = b_state b, s_failureCount = b_failureCount b,
     s_lastFailureTime = b_lastFailureTime b, s_lastFailureKind = b_lastFailureKind b,
     s_openCycleCount = b_openCycleCount b, s_kindFailureCounts = b_kindFailureCounts b\<rparr>"

definition saveCircuitBreakerState :: "string \<Rightarrow> saved_breaker \<Rightarrow> cb_db \<Rightarrow> cb_db" where
  "saveCircuitBreakerState n row db = map_option (\<lambda>m. m(n \<mapsto> row)) db"

text \<open>A stored time of 0 reads back as \<open>null\<close>.\<close>

definition loadCircuitBreakerState :: "string \<Rightarrow> cb_db \<Rightarrow> saved_breaker option" where
  "loadCircuitBreakerState n db =
     (case db of None \<Rightarrow> None
      | Some m \<Rightarrow> map_option (\<lambda>row. if truthy (s_lastFailureTime row) then row
                                     else row\<lparr>s_lastFailureTime := None\<rparr>) (m n))"

definition deleteCircuitBreakerState :: "string \<Rightarrow> cb_db \<Rightarrow> cb_db" where
  "deleteCircuitBreakerState n db = map_option (\<lambda>m. m(n := None)) db"

definition deleteAllCircuitBreakerStates :: "cb_db \<Rightarrow> cb_db" where
  "deleteAllCircuitBreakerStates db = map_option (\<lambda>m. Map.empty) db"

definition persistToDb :: "'e breaker \<Rightarrow> cb_db \<Rightarrow> cb_db" where
  "persistToDb b db = saveCircuitBreakerState (b_name b) (cb_snapshot b) db"

definition restoreFromDb :: "cb_db \<Rightarrow> 'e breaker \<Rightarrow> 'e breaker" where
  "restoreFromDb db b =
     (case loadCircuitBreakerState (b_name b) db of
        None \<Rightarrow> b
      | Some saved \<Rightarrow>
          (let b1 = b\<lparr>b_state := s_state saved,
                      b_failureCount := s_failureCount saved,
                      b_lastFailureTime := s_lastFailureTime saved,
                      b_lastFailureKind := (case s_lastFailureKind saved of
                                              None \<Rightarrow> b_lastFailureKind b | Some k \<Rightarrow> Some k),
                      b_openCycleCount := s_openCycleCount saved,
                      b_kindFailureCounts := s_kindFailureCounts saved\<rparr>
           in if b_state b1 = HALF_OPEN then b1\<lparr>b_halfOpenAllowed := b_halfOpenRequests b1\<rparr>
              else b1))"

definition fresh_breaker :: "string \<Rightarrow> 'e cb_options \<Rightarrow> 'e breaker" where
  "fresh_breaker n opts =
     (let ft = or_else (o_failureThreshold opts) 5
      in \<lparr>b_name = n, b_failureThreshold = ft,
          b_resetTimeout = or_else (o_resetTimeout opts) 30000,
          b_halfOpenRequests = or_else (o_halfOpenRequests opts) 1,
          b_onStateChange = o_onStateChange opts, b_notified = [],
          b_isFailure = or_else (o_isFailure opts) (\<lambda>_. True),
          b_state = CLOSED, b_failureCount = 0, b_successCount = 0,
          b_lastFailureTime = None, b_halfOpenAllowed = 0,
          b_cooldownByKind = o_cooldownByKind opts,
          b_classifyError = o_classifyError opts, b_lastFailureKind = None,
          b_kindThresholds = o_kindThresholds opts,
          b_degradationThreshold =
            or_else (o_degradationThreshold opts) (ceil_div (ft * 60) 100),
          b_maxBackoffMultiplier = or_else (o_maxBackoffMultiplier opts) 16,
          b_backoffEscalationCount = or_else (o_backoffEscalationCount opts) 3,
          b_kindFailureCounts = Map.empty, b_openCycleCount = 0,
          b_transitionHistory = [], b_maxTransitionHistory = 20\<rparr>)"

definition new_CircuitBreaker :: "string \<Rightarrow> 'e cb_options \<Rightarrow> cb_db \<Rightarrow> 'e breaker" where
  "new_CircuitBreaker n opts db = restoreFromDb db (fresh_breaker n opts)"

section \<open>Transitions and cooldowns\<close>

definition cb_transition :: "int \<Rightarrow> cb_state \<Rightarrow> cb_reason \<Rightarrow> 'e breaker \<Rightarrow> 'e breaker" where
  "cb_transition now new reason b =
     (let old = b_state b;
          b1 = b\<lparr>b_state := new\<rparr>;
          b2 = (if new = HALF_OPEN then b1\<lparr>b_halfOpenAllowed := b_halfOpenRequests b1\<rparr> else b1);
          h = b_transitionHistory b2 @
                [\<lparr>tr_from = old, tr_to = new, tr_timestamp = now,
                  tr_failureCount = b_failureCount b2, tr_reason = reason\<rparr>];
          b3 = b2\<lparr>b_transitionHistory :=
                     (if int (length h) > b_maxTransitionHistory b2 then tl h else h)\<rparr>
      in if b_onStateChange b3 \<and> old \<noteq> new
         then b3\<lparr>b_notified := b_notified b3 @ [(old, new)]\<rparr> else b3)"

definition openCircuit :: "int \<Rightarrow> failure_kind option \<Rightarrow> 'e breaker \<Rightarrow> 'e breaker" where
  "openCircuit now kind b =
     cb_transition now OPEN (case kind of None \<Rightarrow> NoReason | Some k \<Rightarrow> KindReason k) b"

definition effectiveResetTimeout :: "'e breaker \<Rightarrow> int" where
  "effectiveResetTimeout b =
     (if b_openCycleCount b \<le> b_backoffEscalationCount b then b_resetTimeout b
      else min (b_resetTimeout b * 2 ^ nat (b_openCycleCount b - b_backoffEscalationCount b))
               (b_resetTimeout b * b_maxBackoffMultiplier b))"

definition effectiveCooldown :: "'e breaker \<Rightarrow> int" where
  "effectiveCooldown b =
     (case b_lastFailureKind b of
        None \<Rightarrow> effectiveResetTimeout b
      | Some k \<Rightarrow> (case b_cooldownByKind b k of
                     Some c \<Rightarrow> if c \<ge> 0 then c else effectiveResetTimeout b
                   | None \<Rightarrow> effectiveResetTimeout b))"

definition shouldAttemptReset :: "int \<Rightarrow> 'e breaker \<Rightarrow> bool" where
  "shouldAttemptReset now b =
     (if \<not> truthy (b_lastFailureTime b) then True
      else now - the (b_lastFailureTime b) \<ge> effectiveCooldown b)"

definition timeUntilReset :: "int \<Rightarrow> 'e breaker \<Rightarrow> int" where
  "timeUntilReset now b =
     (if \<not> truthy (b_lastFailureTime b) then 0
      else max 0 (effectiveCooldown b - (now - the (b_lastFailureTime b))))"

type_synonym 'e cbs = "'e breaker \<times> cb_db"

definition refreshOpenState :: "int \<Rightarrow> 'e cbs \<Rightarrow> 'e cbs" where
  "refreshOpenState now s =
     (case s of (b, db) \<Rightarrow>
        if b_state b = OPEN \<and> shouldAttemptReset now b
        then (let b' = cb_transition now HALF_OPEN TimeoutElapsed b in (b', persistToDb b' db))
        else (b, db))"

section \<open>Operations\<close>

definition onSuccess :: "int \<Rightarrow> 'e cbs \<Rightarrow> 'e cbs" where
  "onSuccess now s =
     (case s of (b, db) \<Rightarrow>
       let b' =
         (if b_state b = OPEN then
            (cb_transition now CLOSED SuccessRecovery b)
              \<lparr>b_failureCount := 0, b_successCount := 0, b_lastFailureTime := None,
               b_lastFailureKind := None, b_openCycleCount := 0,
               b_kindFailureCounts := Map.empty\<rparr>
          else if b_state b = HALF_OPEN then
            (cb_transition now CLOSED ProbeSuccess
               (b\<lparr>b_successCount := b_successCount b + 1\<rparr>))
              \<lparr>b_failureCount := 0, b_lastFailureKind := None, b_openCycleCount := 0,
               b_kindFailureCounts := Map.empty\<rparr>
          else
            (let b1 = b\<lparr>b_failureCount := max 0 (b_failureCount b - 1)\<rparr>
             in if b_state b1 = DEGRADED \<and> b_failureCount b1 \<le> b_degradationThreshold b1
                then cb_transition now CLOSED Recovery b1 else b1))
       in (b', persistToDb b' db))"

text \<open>\<open>kindFailureCounts[k] || 0\<close>\<close>

definition kind_count :: "'e breaker \<Rightarrow> failure_kind \<Rightarrow> int" where
  "kind_count b k = or_else (b_kindFailureCounts b k) 0"

text \<open>\<open>kindConfig.threshold || d\<close>: an absent or zero threshold falls back to \<open>d\<close>.\<close>

definition kt_or :: "kind_thresholds \<Rightarrow> int \<Rightarrow> int" where
  "kt_or c d = (if truthy (kt_threshold c) then the (kt_threshold c) else d)"

definition record_failure :: "int \<Rightarrow> failure_kind option \<Rightarrow> 'e breaker \<Rightarrow> 'e breaker" where
  "record_failure now kind b =
     (let b1 = b\<lparr>b_failureCount := b_failureCount b + 1, b_lastFailureTime := Some now,
                 b_lastFailureKind := kind\<rparr>
      in case kind of None \<Rightarrow> b1
         | Some k \<Rightarrow> b1\<lparr>b_kindFailureCounts :=
                          (b_kindFailureCounts b1)(k \<mapsto> kind_count b1 k + 1)\<rparr>)"

text \<open>Whether the kind-specific thresholds open the circuit (either early return).\<close>

definition kind_trips :: "failure_kind option \<Rightarrow> 'e breaker \<Rightarrow> bool" where
  "kind_trips kind b =
     (case kind of None \<Rightarrow> False
      | Some k \<Rightarrow> (case b_kindThresholds b k of None \<Rightarrow> False
          | Some c \<Rightarrow> (kt_immediateOpen c \<and> kind_count b k \<ge> kt_or c 1)
                    \<or> kind_count b k \<ge> kt_or c (b_failureThreshold b)))"

definition onFailure :: "int \<Rightarrow> failure_kind option \<Rightarrow> 'e cbs \<Rightarrow> 'e cbs" where
  "onFailure now kind s =
     (case s of (b0, db) \<Rightarrow>
       let b = record_failure now kind b0
       in if kind_trips kind b then (openCircuit now kind b, db)
          else
            (let b' =
               (case b_state b of
                  OPEN \<Rightarrow> b
                | HALF_OPEN \<Rightarrow>
                    (let b1 = b\<lparr>b_openCycleCount := b_openCycleCount b + 1\<rparr>
                     in cb_transition now OPEN (ProbeFailed (b_openCycleCount b1)) b1)
                | DEGRADED \<Rightarrow>
                    (if b_failureCount b \<ge> b_failureThreshold b then openCircuit now kind b else b)
                | CLOSED \<Rightarrow>
                    (if b_failureCount b \<ge> b_failureThreshold b then openCircuit now kind b
                     else if b_failureCount b \<ge> b_degradationThreshold b
                     then cb_transition now DEGRADED
                            (ElevatedFailures (b_failureCount b) (b_failureThreshold b)) b
                     else b))
             in (b', persistToDb b' db)))"

datatype cb_reply = Rejected cb_state int | Started

definition execute_begin :: "int \<Rightarrow> 'e cbs \<Rightarrow> cb_reply \<times> 'e cbs" where
  "execute_begin now s0 =
     (let s = refreshOpenState now s0; b = fst s
      in if b_state b = OPEN then (Rejected OPEN (timeUntilReset now b), s)
         else if b_state b = HALF_OPEN \<and> b_halfOpenAllowed b \<le> 0
         then (Rejected HALF_OPEN (timeUntilReset now b), s)
         else if b_state b = HALF_OPEN
         then (Started, (b\<lparr>b_halfOpenAllowed := b_halfOpenAllowed b - 1\<rparr>, snd s))
         else (Started, s))"

text \<open>The continuation of \<open>execute\<close>: \<open>None\<close> for a returned value, \<open>Some e\<close> for a throw.\<close>

definition execute_end :: "int \<Rightarrow> 'e option \<Rightarrow> 'e cbs \<Rightarrow> 'e cbs" where
  "execute_end now outcome s =
     (case outcome of
        None \<Rightarrow> onSuccess now s
      | Some e \<Rightarrow>
          if b_isFailure (fst s) e
          then onFailure now
                 (case b_classifyError (fst s) of None \<Rightarrow> None
                  | Some f \<Rightarrow> (case f e of Inl _ \<Rightarrow> None | Inr k \<Rightarrow> k)) s
          else s)"

definition canExecute :: "int \<Rightarrow> 'e cbs \<Rightarrow> bool \<times> 'e cbs" where
  "canExecute now s0 =
     (let s = refreshOpenState now s0; b = fst s
      in ((case b_state b of CLOSED \<Rightarrow> True | DEGRADED \<Rightarrow> True | OPEN \<Rightarrow> False
           | HALF_OPEN \<Rightarrow> b_halfOpenAllowed b > 0), s))"

definition getRetryAfterMs :: "int \<Rightarrow> 'e cbs \<Rightarrow> int \<times> 'e cbs" where
  "getRetryAfterMs now s0 =
     (let s = refreshOpenState now s0; b = fst s
      in (if b_state b = CLOSED \<or> b_state b = DEGRADED then 0 else timeUntilReset now b, s))"

record cb_status =
  st_name :: string
  st_state :: cb_state
  st_failureCount :: int
  st_lastFailureTime :: "int option"
  st_retryAfterMs :: int
  st_lastFailureKind :: "failure_kind option"
  st_openCycleCount :: int
  st_kindFailureCounts :: "failure_kind \<rightharpoonup> int"
  st_degradationThreshold :: int
  st_effectiveResetTimeout :: int
  st_transitionHistory :: "transition_record list"

definition getStatus :: "int \<Rightarrow> 'e cbs \<Rightarrow> cb_status \<times> 'e cbs" where
  "getStatus now s0 =
     (let s1 = refreshOpenState now s0; (r, s) = getRetryAfterMs now s1; b = fst s
      in (\<lparr>st_name = b_name b, st_state = b_state b, st_failureCount = b_failureCount b,
           st_lastFailureTime = b_lastFailureTime b, st_retryAfterMs = r,
           st_lastFailureKind = b_lastFailureKind b, st_openCycleCount = b_openCycleCount b,
           st_kindFailureCounts = b_kindFailureCounts b,
           st_degradationThreshold = b_degradationThreshold b,
           st_effectiveResetTimeout = effectiveResetTimeout b,
           st_transitionHistory = b_transitionHistory b\<rparr>, s))"

definition cb_reset :: "int \<Rightarrow> 'e cbs \<Rightarrow> 'e cbs" where
  "cb_reset now s =
     (case s of (b, db) \<Rightarrow>
       let b' = (cb_transition now CLOSED ManualReset b)
                  \<lparr>b_failureCount := 0, b_successCount := 0, b_lastFailureTime := None,
                   b_lastFailureKind := None, b_openCycleCount := 0,
                   b_kindFailureCounts := Map.empty\<rparr>
       in (b', persistToDb b' db))"

section \<open>The breaker as a machine\<close>

datatype 'e cb_event = ExecBegin | ExecEnd "'e option" | CanExecute | GetRetryAfter
  | GetStatus | Reset | ReportFailure "failure_kind option" | ReportSuccess

text \<open>
  \<open>ReportFailure\<close> and \<open>ReportSuccess\<close> are the direct calls of \<open>_onFailure\<close> and
  \<open>_onSuccess\<close> from the routing code. Every event carries its clock reading.
\<close>

fun cb_step :: "'e cbs \<Rightarrow> int \<times> 'e cb_event \<Rightarrow> 'e cbs" where
  "cb_step s (t, ExecBegin) = snd (execute_begin t s)"
| "cb_step s (t, ExecEnd r) = execute_end t r s"
| "cb_step s (t, CanExecute) = snd (canExecute t s)"
| "cb_step s (t, GetRetryAfter) = snd (getRetryAfterMs t s)"
| "cb_step s (t, GetStatus) = snd (getStatus t s)"
| "cb_step s (t, Reset) = cb_reset t s"
| "cb_step s (t, ReportFailure k) = onFailure t k s"
| "cb_step s (t, ReportSuccess) = onSuccess t s"

section \<open>What a transition leaves alone\<close>

named_theorems cb_sel \<open>fields after a transition\<close>

lemma cb_transition_fields [simp, cb_sel]:
  "b_state (cb_transition t n r b) = n"
  "b_name (cb_transition t n r b) = b_name b"
  "b_failureThreshold (cb_transition t n r b) = b_failureThreshold b"
  "b_resetTimeout (cb_transition t n r b) = b_resetTimeout b"
  "b_halfOpenRequests (cb_transition t n r b) = b_halfOpenRequests b"
  "b_isFailure (cb_transition t n r b) = b_isFailure b"
  "b_failureCount (cb_transition t n r b) = b_failureCount b"
  "b_lastFailureTime (cb_transition t n r b) = b_lastFailureTime b"
  "b_cooldownByKind (cb_transition t n r b) = b_cooldownByKind b"
  "b_classifyError (cb_transition t n r b) = b_classifyError b"
  "b_lastFailureKind (cb_transition t n r b) = b_lastFailureKind b"
  "b_kindThresholds (cb_transition t n r b) = b_kindThresholds b"
  "b_degradationThreshold (cb_transition t n r b) = b_degradationThreshold b"
  "b_maxBackoffMultiplier (cb_transition t n r b) = b_maxBackoffMultiplier b"
  "b_backoffEscalationCount (cb_transition t n r b) = b_backoffEscalationCount b"
  "b_kindFailureCounts (cb_transition t n r b) = b_kindFailureCounts b"
  "b_openCycleCount (cb_transition t n r b) = b_openCycleCount b"
  "b_maxTransitionHistory (cb_transition t n r b) = b_maxTransitionHistory b"
  "b_halfOpenAllowed (cb_transition t n r b) =
     (if n = HALF_OPEN then b_halfOpenRequests b else b_halfOpenAllowed b)"
  by (simp_all add: cb_transition_def Let_def)

lemma cb_transition_history [cb_sel]:
  "b_transitionHistory (cb_transition t n r b) =
     (let h = b_transitionHistory b @
                [\<lparr>tr_from = b_state b, tr_to = n, tr_timestamp = t,
                  tr_failureCount = b_failureCount b, tr_reason = r\<rparr>]
      in if int (length h) > b_maxTransitionHistory b then tl h else h)"
  by (simp add: cb_transition_def Let_def)

lemma openCircuit_fields [simp, cb_sel]:
  "b_state (openCircuit t k b) = OPEN"
  "b_failureCount (openCircuit t k b) = b_failureCount b"
  "b_lastFailureTime (openCircuit t k b) = b_lastFailureTime b"
  "b_lastFailureKind (openCircuit t k b) = b_lastFailureKind b"
  "b_openCycleCount (openCircuit t k b) = b_openCycleCount b"
  "b_halfOpenAllowed (openCircuit t k b) = b_halfOpenAllowed b"
  by (simp_all add: openCircuit_def)

lemma record_failure_fields [simp, cb_sel]:
  "b_state (record_failure t k b) = b_state b"
  "b_name (record_failure t k b) = b_name b"
  "b_failureCount (record_failure t k b) = b_failureCount b + 1"
  "b_lastFailureTime (record_failure t k b) = Some t"
  "b_lastFailureKind (record_failure t k b) = k"
  "b_openCycleCount (record_failure t k b) = b_openCycleCount b"
  "b_halfOpenAllowed (record_failure t k b) = b_halfOpenAllowed b"
  "b_halfOpenRequests (record_failure t k b) = b_halfOpenRequests b"
  "b_transitionHistory (record_failure t k b) = b_transitionHistory b"
  "b_maxTransitionHistory (record_failure t k b) = b_maxTransitionHistory b"
  "b_failureThreshold (record_failure t k b) = b_failureThreshold b"
  "b_degradationThreshold (record_failure t k b) = b_degradationThreshold b"
  "b_kindThresholds (record_failure t k b) = b_kindThresholds b"
  "b_isFailure (record_failure t k b) = b_isFailure b"
  "b_classifyError (record_failure t k b) = b_classifyError b"
  by (simp_all add: record_failure_def Let_def split: option.splits)

lemma kind_trips_None [simp]: "\<not> kind_trips None b"
  by (simp add: kind_trips_def)

lemma kind_trips_empty [simp]: "b_kindThresholds b = Map.empty \<Longrightarrow> \<not> kind_trips k b"
  by (simp add: kind_trips_def split: option.splits)

text \<open>Observers only refresh.\<close>

lemma snd_canExecute [simp]: "snd (canExecute t s) = refreshOpenState t s"
  by (simp add: canExecute_def Let_def)

lemma snd_getRetryAfterMs [simp]: "snd (getRetryAfterMs t s) = refreshOpenState t s"
  by (simp add: getRetryAfterMs_def Let_def)

lemma refresh_idem [simp]: "refreshOpenState t (refreshOpenState t s) = refreshOpenState t s"
  by (cases s) (simp add: refreshOpenState_def Let_def)

lemma snd_getStatus [simp]: "snd (getStatus t s) = refreshOpenState t s"
  by (simp add: getStatus_def Let_def case_prod_unfold)

section \<open>Invariant\<close>

text \<open>
  The history is a chain of at most \<open>maxTransitionHistory\<close> records ending in the current
  state; the failure count stays in the band its state allows; the probe budget stays in
  its range. The configuration assumptions are the ones of the default profiles.
\<close>

definition cb_config_ok :: "'e breaker \<Rightarrow> bool" where
  "cb_config_ok b \<longleftrightarrow> 0 \<le> b_halfOpenRequests b \<and> 0 \<le> b_degradationThreshold b
     \<and> b_degradationThreshold b < b_failureThreshold b \<and> 1 \<le> b_maxTransitionHistory b"

fun chained :: "transition_record list \<Rightarrow> bool" where
  "chained (r # r' # rs) = (tr_to r = tr_from r' \<and> chained (r' # rs))"
| "chained _ = True"

lemma chained_snoc:
  "chained (h @ [r]) \<longleftrightarrow> chained h \<and> (h = [] \<or> tr_to (last h) = tr_from r)"
  by (induction h rule: chained.induct) auto

lemma chained_tl: "chained h \<Longrightarrow> chained (tl h)"
  by (induction h rule: chained.induct) auto

definition cb_history_ok :: "'e breaker \<Rightarrow> bool" where
  "cb_history_ok b \<longleftrightarrow> int (length (b_transitionHistory b)) \<le> b_maxTransitionHistory b
     \<and> chained (b_transitionHistory b)
     \<and> (b_transitionHistory b \<noteq> [] \<longrightarrow> tr_to (last (b_transitionHistory b)) = b_state b)"

definition cb_counts_ok :: "'e breaker \<Rightarrow> bool" where
  "cb_counts_ok b \<longleftrightarrow> 0 \<le> b_failureCount b \<and> 0 \<le> b_halfOpenAllowed b
     \<and> b_halfOpenAllowed b \<le> b_halfOpenRequests b
     \<and> (b_state b = CLOSED \<longrightarrow> b_failureCount b \<le> b_degradationThreshold b)
     \<and> (b_state b = DEGRADED \<longrightarrow> b_degradationThreshold b \<le> b_failureCount b
                                \<and> b_failureCount b < b_failureThreshold b)"

definition cb_inv :: "'e breaker \<Rightarrow> bool" where
  "cb_inv b \<longleftrightarrow> cb_config_ok b \<and> cb_history_ok b \<and> cb_counts_ok b"

lemma cb_history_transition:
  assumes "cb_history_ok b" and "1 \<le> b_maxTransitionHistory b"
  shows "cb_history_ok (cb_transition t n r b)"
  using assms
  by (auto simp: cb_history_ok_def cb_transition_history Let_def chained_snoc last_tl
           intro: chained_tl)

lemma cb_history_update:
  "b_transitionHistory b' = b_transitionHistory b \<Longrightarrow> b_state b' = b_state b \<Longrightarrow>
   b_maxTransitionHistory b' = b_maxTransitionHistory b \<Longrightarrow> cb_history_ok b' = cb_history_ok b"
  by (simp add: cb_history_ok_def)


lemma cb_inv_refresh: "cb_inv (fst s) \<Longrightarrow> cb_inv (fst (refreshOpenState t s))"
  by (cases s)
     (auto simp: cb_inv_def refreshOpenState_def Let_def cb_history_transition cb_config_ok_def
                 cb_counts_ok_def)

lemma cb_inv_onSuccess: "cb_inv (fst s) \<Longrightarrow> cb_inv (fst (onSuccess t s))"
proof (cases s)
  case (Pair b db)
  assume inv: "cb_inv (fst s)"
  then have h: "cb_history_ok b" and c: "cb_config_ok b" and n: "cb_counts_ok b"
    by (simp_all add: Pair cb_inv_def)
  have *: "cb_history_ok (cb_transition t CLOSED r b')" if "cb_history_ok b'"
    and "b_maxTransitionHistory b' = b_maxTransitionHistory b" for r and b' :: "'a breaker"
    using that c by (simp add: cb_history_transition cb_config_ok_def)
  let ?s1 = "b\<lparr>b_successCount := b_successCount b + 1\<rparr>"
  let ?d1 = "b\<lparr>b_failureCount := max 0 (b_failureCount b - 1)\<rparr>"
  have h1: "cb_history_ok ?s1" "cb_history_ok ?d1"
    using h by (simp_all add: cb_history_ok_def)
  have H: "cb_history_ok (fst (onSuccess t s))"
    using h * [OF h] * [OF h1(1)] * [OF h1(2)]
    by (simp add: Pair onSuccess_def Let_def cb_history_ok_def)
  have C: "cb_config_ok (fst (onSuccess t s))"
    using c by (simp add: Pair onSuccess_def Let_def cb_config_ok_def)
  have N: "cb_counts_ok (fst (onSuccess t s))"
    using n c by (cases "b_state b") (auto simp: Pair onSuccess_def Let_def cb_config_ok_def cb_counts_ok_def)
  from H C N show ?thesis by (simp add: cb_inv_def)
qed

lemma cb_inv_openCircuit:
  assumes "cb_config_ok b" "cb_history_ok b" "0 \<le> b_failureCount b" "0 \<le> b_halfOpenAllowed b"
    "b_halfOpenAllowed b \<le> b_halfOpenRequests b"
  shows "cb_inv (openCircuit t k b)"
proof -
  have "cb_history_ok (openCircuit t k b)"
    using assms by (simp add: openCircuit_def cb_history_transition cb_config_ok_def)
  then show ?thesis
    using assms by (simp add: cb_inv_def cb_config_ok_def cb_counts_ok_def openCircuit_def)
qed

lemma cb_inv_onFailure: "cb_inv (fst s) \<Longrightarrow> cb_inv (fst (onFailure t k s))"
proof (cases s)
  case (Pair b0 db)
  assume inv: "cb_inv (fst s)"
  define b where "b = record_failure t k b0"
  have base: "cb_config_ok b" "cb_history_ok b" "0 \<le> b_failureCount b" "0 \<le> b_halfOpenAllowed b"
    "b_halfOpenAllowed b \<le> b_halfOpenRequests b"
    using inv by (auto simp: Pair b_def cb_inv_def cb_config_ok_def cb_history_ok_def cb_counts_ok_def)
  note op = cb_inv_openCircuit [OF base]
  have H: "cb_history_ok (cb_transition t n r b')" if "cb_history_ok b'"
    "b_maxTransitionHistory b' = b_maxTransitionHistory b" for n r and b' :: "'a breaker"
    using that base(1) by (simp add: cb_history_transition cb_config_ok_def)
  have hc: "cb_history_ok (b\<lparr>b_openCycleCount := x\<rparr>)" for x
    using base(2) by (simp add: cb_history_ok_def)
  show ?thesis
  proof (cases "kind_trips k b")
    case True
    then show ?thesis using op by (simp add: Pair onFailure_def b_def [symmetric])
  next
    case False
    have "cb_inv (fst (onFailure t k s))" if st: "b_state b = OPEN"
      using False st base by (simp add: Pair onFailure_def b_def [symmetric] cb_inv_def cb_counts_ok_def)
    moreover have "cb_inv (fst (onFailure t k s))" if st: "b_state b = HALF_OPEN"
      using False st base H [OF hc]
      by (auto simp: Pair onFailure_def b_def [symmetric] Let_def cb_inv_def cb_counts_ok_def
                     cb_config_ok_def)
    moreover have "cb_inv (fst (onFailure t k s))" if st: "b_state b = DEGRADED"
    proof (cases "b_failureCount b \<ge> b_failureThreshold b")
      case True
      then show ?thesis
        using False st op by (simp add: Pair onFailure_def Let_def b_def [symmetric])
    next
      case small: False
      have "b_degradationThreshold b \<le> b_failureCount b"
        using inv st by (simp add: Pair b_def cb_inv_def cb_counts_ok_def)
      then show ?thesis
        using False st small base
        by (simp add: Pair onFailure_def Let_def b_def [symmetric] cb_inv_def cb_counts_ok_def)
    qed
    moreover have "cb_inv (fst (onFailure t k s))" if st: "b_state b = CLOSED"
    proof (cases "b_failureCount b \<ge> b_failureThreshold b")
      case True
      then show ?thesis
        using False st op by (simp add: Pair onFailure_def Let_def b_def [symmetric])
    next
      case small: False
      then show ?thesis
        using False st base H [OF base(2)]
        by (simp add: Pair onFailure_def Let_def b_def [symmetric] cb_inv_def cb_counts_ok_def
                      cb_config_ok_def)
    qed
    ultimately show ?thesis by (cases "b_state b") blast+
  qed
qed

lemma cb_inv_reset: "cb_inv (fst s) \<Longrightarrow> cb_inv (fst (cb_reset t s))"
proof (cases s)
  case (Pair b db)
  assume inv: "cb_inv (fst s)"
  then have "cb_history_ok (cb_transition t CLOSED ManualReset b)"
    by (simp add: Pair cb_inv_def cb_history_transition cb_config_ok_def)
  then show ?thesis
    using inv by (auto simp: Pair cb_reset_def Let_def cb_inv_def cb_history_ok_def cb_config_ok_def
                             cb_counts_ok_def)
qed

lemma cb_inv_execute_begin: "cb_inv (fst s) \<Longrightarrow> cb_inv (fst (snd (execute_begin t s)))"
  using cb_inv_refresh [of s t]
  by (auto simp: execute_begin_def Let_def cb_inv_def cb_history_ok_def cb_config_ok_def
                 cb_counts_ok_def)

lemma cb_step_inv: "cb_inv (fst s) \<Longrightarrow> cb_inv (fst (cb_step s e))"
  by (cases e; cases "snd e")
     (auto simp: execute_end_def cb_inv_refresh cb_inv_onSuccess cb_inv_onFailure
        cb_inv_reset cb_inv_execute_begin split: option.splits)

interpretation cb: machine cb_step "\<lambda>s. cb_inv (fst s)"
  by unfold_locales (rule cb_step_inv)

lemma cb_inv_fresh: "cb_config_ok (fresh_breaker n opts) \<Longrightarrow> cb_inv (fresh_breaker n opts)"
  by (auto simp: cb_inv_def cb_history_ok_def cb_counts_ok_def cb_config_ok_def fresh_breaker_def Let_def)


section \<open>Half-open probing\<close>

lemma refresh_not_open: "b_state (fst s) \<noteq> OPEN \<Longrightarrow> refreshOpenState t s = s"
  by (cases s) (simp add: refreshOpenState_def)

definition starts :: "'e cbs \<Rightarrow> int \<times> 'e cb_event \<Rightarrow> bool" where
  "starts s e = (snd e = ExecBegin \<and> fst (execute_begin (fst e) s) = Started)"

text \<open>How many calls of \<open>fn\<close> a run admits, and whether it stays in \<open>HALF_OPEN\<close>.\<close>

fun started_count :: "'e cbs \<Rightarrow> (int \<times> 'e cb_event) list \<Rightarrow> int" where
  "started_count s [] = 0"
| "started_count s (e # es) = (if starts s e then 1 else 0) + started_count (cb_step s e) es"

fun stays_half_open :: "'e cbs \<Rightarrow> (int \<times> 'e cb_event) list \<Rightarrow> bool" where
  "stays_half_open s [] = (b_state (fst s) = HALF_OPEN)"
| "stays_half_open s (e # es) =
     (b_state (fst s) = HALF_OPEN \<and> stays_half_open (cb_step s e) es)"

lemma stays_half_open_hd: "stays_half_open s es \<Longrightarrow> b_state (fst s) = HALF_OPEN"
  by (cases es) auto

lemma onFailure_half_open_opens:
  "b_state (fst s) = HALF_OPEN \<Longrightarrow> b_state (fst (onFailure t k s)) = OPEN"
  by (cases s) (simp add: onFailure_def Let_def)

lemma onSuccess_half_open_closes:
  "b_state (fst s) = HALF_OPEN \<Longrightarrow> b_state (fst (onSuccess t s)) = CLOSED"
  by (cases s) (simp add: onSuccess_def Let_def)

lemma reset_closes: "b_state (fst (cb_reset t s)) = CLOSED"
  by (cases s) (simp add: cb_reset_def Let_def)

lemma half_open_step:
  assumes "b_state (fst s) = HALF_OPEN" and "b_state (fst (cb_step s e)) = HALF_OPEN"
  shows "b_halfOpenAllowed (fst (cb_step s e)) =
           b_halfOpenAllowed (fst s) - (if starts s e then 1 else 0)
         \<and> (starts s e \<longrightarrow> 0 < b_halfOpenAllowed (fst s))"
proof -
  obtain t ev where e: "e = (t, ev)" by force
  have r: "refreshOpenState t s = s" using assms(1) by (simp add: refresh_not_open)
  show ?thesis
    using assms
    by (cases ev)
       (auto simp: e r starts_def execute_begin_def execute_end_def Let_def
          onFailure_half_open_opens onSuccess_half_open_closes reset_closes
          split: option.splits if_splits)
qed

text \<open>While the breaker stays in HALF_OPEN, the calls of the protected function it
  admits never exceed its remaining probe budget, whatever the interleaving of concurrent
  calls, their settlements that are not failures, and status queries.\<close>

theorem probe_budget:
  assumes "stays_half_open s es" and "0 \<le> b_halfOpenAllowed (fst s)"
  shows "started_count s es \<le> b_halfOpenAllowed (fst s)"
  using assms
proof (induction es arbitrary: s)
  case Nil
  then show ?case by simp
next
  case (Cons e es)
  then have "b_state (fst s) = HALF_OPEN" and st: "stays_half_open (cb_step s e) es" by auto
  from half_open_step [OF this(1) stays_half_open_hd [OF st]] Cons.IH [OF st] Cons.prems(2)
  show ?case by (cases "starts s e") auto
qed

text \<open>
  Once the budget is spent and no probe is left to settle as a failure or a success, nothing
  but a reset, or a result reported from outside, moves the breaker on: HALF_OPEN has no timeout.
\<close>

fun harmless :: "'e breaker \<Rightarrow> int \<times> 'e cb_event \<Rightarrow> bool" where
  "harmless b (t, ExecBegin) = True"
| "harmless b (t, CanExecute) = True"
| "harmless b (t, GetRetryAfter) = True"
| "harmless b (t, GetStatus) = True"
| "harmless b (t, ExecEnd (Some e)) = (\<not> b_isFailure b e)"
| "harmless b _ = False"

lemma wedged_step:
  assumes "b_state (fst s) = HALF_OPEN" "b_halfOpenAllowed (fst s) \<le> 0" "harmless (fst s) e"
  shows "cb_step s e = s"
proof -
  obtain t ev where e: "e = (t, ev)" by force
  show ?thesis
    using assms by (cases "(fst s, e)" rule: harmless.cases)
      (auto simp: refresh_not_open execute_begin_def execute_end_def Let_def)
qed

text \<open>A probe that ends in an error the breaker does not count as a failure (a client
  abort during the half-open probe) leaves the breaker with no budget in HALF_OPEN for ever:
  at every later time \<open>canExecute\<close> is false and \<open>execute\<close> rejects, however many calls and
  status queries are made.\<close>

theorem half_open_wedge:
  assumes "b_state b = HALF_OPEN" and "b_halfOpenAllowed b = 1" and "\<not> b_isFailure b err"
    and "list_all (harmless b) es"
  shows "let s = run cb_step (b, db) ([(t0, ExecBegin), (t1, ExecEnd (Some err))] @ es)
         in \<not> fst (canExecute t s)
            \<and> fst (execute_begin t s) = Rejected HALF_OPEN (timeUntilReset t (fst s))"
proof -
  let ?b = "b\<lparr>b_halfOpenAllowed := 0\<rparr>"
  have 1: "run cb_step (b, db) [(t0, ExecBegin), (t1, ExecEnd (Some err))] = (?b, db)"
    using assms(1-3) by (simp add: execute_begin_def execute_end_def Let_def refresh_not_open)
  have h: "list_all (harmless ?b) es"
    using assms(4)
  proof (induction es)
    case (Cons e es)
    then show ?case by (cases "(b, e)" rule: harmless.cases) auto
  qed simp
  have "run cb_step (?b, db) es = (?b, db)"
    using h
  proof (induction es)
    case (Cons e es)
    then show ?case using wedged_step [of "(?b, db)" e] assms(1) by simp
  qed simp
  with 1 have "run cb_step (b, db) ([(t0, ExecBegin), (t1, ExecEnd (Some err))] @ es) = (?b, db)"
    by (simp only: run_append)
  then show ?thesis
    using assms(1) by (simp add: Let_def canExecute_def execute_begin_def refresh_not_open)
qed


text \<open>The breaker of a provider as the chat handler configures it, with a threshold of 2.\<close>

definition chat_breaker :: "js_error breaker" where
  "chat_breaker = fresh_breaker ''codex''
     (no_options\<lparr>o_failureThreshold := Some 2,
        o_isFailure := Some (\<lambda>e. \<not> isLocalStreamLifecycleError e)\<rparr>)"

lemmas cb_exec_defs = chat_breaker_def fresh_breaker_def no_options_def ceil_div_def Let_def
  execute_begin_def execute_end_def canExecute_def onSuccess_def onFailure_def record_failure_def
  refreshOpenState_def shouldAttemptReset_def effectiveCooldown_def effectiveResetTimeout_def
  cb_transition_def openCircuit_def persistToDb_def saveCircuitBreakerState_def

definition half_open_chat_breaker :: "js_error breaker" where
  "half_open_chat_breaker =
     fst (run cb_step (chat_breaker, None)
            [(1000, ReportFailure None), (2000, ReportFailure None), (40000, CanExecute)])"

lemma half_open_chat_breaker_fields:
  "b_state half_open_chat_breaker = HALF_OPEN"
  "b_halfOpenAllowed half_open_chat_breaker = 1"
  "b_isFailure half_open_chat_breaker e = (\<not> isLocalStreamLifecycleError e)"
  by (simp_all add: half_open_chat_breaker_def cb_exec_defs)

theorem half_open_wedge_witness:
  "let s = run cb_step (half_open_chat_breaker, None)
             ([(40000, ExecBegin), (40500, ExecEnd (Some (ErrObj (Some ''AbortError'') None)))]
              @ [(90000, GetStatus), (3600000, ExecBegin)])
   in \<not> fst (canExecute 86400000 s)
      \<and> fst (execute_begin 86400000 s) = Rejected HALF_OPEN (timeUntilReset 86400000 (fst s))"
  by (rule half_open_wedge)
     (simp_all add: half_open_chat_breaker_fields isLocalStreamLifecycleError_def)

theorem probe_budget_witness:
  "started_count (half_open_chat_breaker, None)
     [(40000, ExecBegin), (40001, ExecBegin), (40002, CanExecute)]
   \<le> b_halfOpenAllowed half_open_chat_breaker"
proof -
  have "stays_half_open (half_open_chat_breaker, None)
          [(40000, ExecBegin), (40001, ExecBegin), (40002, CanExecute)]"
    by (simp add: half_open_chat_breaker_fields execute_begin_def refresh_not_open Let_def)
  from probe_budget [OF this] show ?thesis by (simp add: half_open_chat_breaker_fields)
qed

section \<open>Opening, backing off, recovering\<close>

text \<open>Every run of a fresh breaker keeps its invariant: the transition history is a chain
  of at most its bound that ends in the current state, the failure count stays in the band of
  the current state, and the probe budget stays between 0 and \<open>halfOpenRequests\<close>.\<close>

theorem cb_run_invariant:
  assumes "cb_config_ok (fresh_breaker n opts)"
  shows "cb_inv (fst (run cb_step (fresh_breaker n opts, db) es))"
  using cb.run_inv [of "(fresh_breaker n opts, db)"] cb_inv_fresh [OF assms] by simp

theorem cb_run_invariant_witness:
  "cb_inv (fst (run cb_step (fresh_breaker ''openai'' no_options, None)
     [(5, ReportFailure (Some RateLimit)), (9, ReportSuccess)]))"
  by (rule cb_run_invariant) (simp add: cb_config_ok_def cb_exec_defs)

text \<open>An OPEN breaker whose cooldown has not elapsed never runs the protected function:
  \<open>execute\<close> rejects with the positive remaining time and changes nothing.\<close>

theorem open_short_circuits:
  assumes "b_state b = OPEN" and "b_lastFailureTime b = Some f" and "f \<noteq> 0"
    and "now - f < effectiveCooldown b"
  shows "execute_begin now (b, db) =
           (Rejected OPEN (effectiveCooldown b - (now - f)), (b, db))
         \<and> 0 < effectiveCooldown b - (now - f)"
  using assms
  by (simp add: execute_begin_def refreshOpenState_def shouldAttemptReset_def timeUntilReset_def Let_def)

theorem open_short_circuits_witness:
  "execute_begin 5000 (chat_breaker\<lparr>b_state := OPEN, b_lastFailureTime := Some 1000\<rparr>, None) =
     (Rejected OPEN 26000, (chat_breaker\<lparr>b_state := OPEN, b_lastFailureTime := Some 1000\<rparr>, None))"
  using open_short_circuits [of "chat_breaker\<lparr>b_state := OPEN, b_lastFailureTime := Some 1000\<rparr>"
      1000 5000 None]
  by (simp add: cb_exec_defs)

text \<open>A breaker that only sees unclassified failures opens exactly at its failure
  threshold, and is DEGRADED from the degradation threshold on until then.\<close>

theorem opens_exactly_at_threshold:
  assumes "cb_config_ok (fresh_breaker n opts)"
  shows "b_state (fst (run cb_step (fresh_breaker n opts, db)
                       (map (\<lambda>t. (t, ReportFailure None)) ts)))
         = (if int (length ts) \<ge> b_failureThreshold (fresh_breaker n opts) then OPEN
            else if ts \<noteq> [] \<and> int (length ts) \<ge> b_degradationThreshold (fresh_breaker n opts)
            then DEGRADED else CLOSED)"
proof -
  let ?f = "fresh_breaker n opts"
  let ?r = "\<lambda>ts. fst (run cb_step (?f, db) (map (\<lambda>t. (t, ReportFailure None)) ts))"
  have "b_failureCount (?r ts) = int (length ts)
      \<and> b_failureThreshold (?r ts) = b_failureThreshold ?f
      \<and> b_degradationThreshold (?r ts) = b_degradationThreshold ?f
      \<and> b_state (?r ts) = (if int (length ts) \<ge> b_failureThreshold ?f then OPEN
            else if ts \<noteq> [] \<and> int (length ts) \<ge> b_degradationThreshold ?f
            then DEGRADED else CLOSED)"
  proof (induction ts rule: rev_induct)
    case Nil
    show ?case using assms by (simp add: cb_config_ok_def) (simp add: fresh_breaker_def Let_def)
  next
    case (snoc t ts)
    have st: "?r (ts @ [t]) = fst (onFailure t None
        (run cb_step (?f, db) (map (\<lambda>t. (t, ReportFailure None)) ts)))"
      by (simp add: run_append)
    show ?case
      using snoc.IH assms unfolding st cb_config_ok_def
      by (auto simp: onFailure_def Let_def openCircuit_def split: prod.splits)
  qed
  then show ?thesis by blast
qed

theorem opens_exactly_at_threshold_witness:
  "b_state (fst (run cb_step (fresh_breaker ''glm'' (no_options :: js_error cb_options), None)
                 (map (\<lambda>t. (t, ReportFailure None)) [1, 2, 3, 4, 5]))) = OPEN"
  by (subst opens_exactly_at_threshold) (simp_all add: cb_config_ok_def cb_exec_defs)

text \<open>The adaptive reset timeout never falls below the configured one, never exceeds it
  by more than the maximal multiplier, and grows with the number of open cycles.\<close>

theorem backoff_bounded_and_monotone:
  assumes "0 \<le> b_resetTimeout b" and "1 \<le> b_maxBackoffMultiplier b"
    and "b_openCycleCount b \<le> c"
  shows "b_resetTimeout b \<le> effectiveResetTimeout b
       \<and> effectiveResetTimeout b \<le> b_resetTimeout b * b_maxBackoffMultiplier b
       \<and> effectiveResetTimeout b \<le> effectiveResetTimeout (b\<lparr>b_openCycleCount := c\<rparr>)"
proof -
  have p: "1 \<le> (2::int) ^ k" for k by simp
  have lo: "b_resetTimeout b \<le> b_resetTimeout b * x" if "1 \<le> x" for x
    using mult_left_mono [OF that assms(1)] by simp
  have mono: "b_resetTimeout b * 2 ^ nat (b_openCycleCount b - d)
      \<le> b_resetTimeout b * 2 ^ nat (c - d)" for d
    using assms(1,3) by (intro mult_left_mono power_increasing) auto
  show ?thesis
    using lo [OF p] lo [OF assms(2)] mono assms
    by (auto simp: effectiveResetTimeout_def min_le_iff_disj)
qed

theorem backoff_bounded_and_monotone_witness:
  "effectiveResetTimeout (chat_breaker\<lparr>b_openCycleCount := 9\<rparr>) \<le> 480000"
  using backoff_bounded_and_monotone [of "chat_breaker\<lparr>b_openCycleCount := 9\<rparr>" 9]
  by (simp add: cb_exec_defs)


text \<open>Recovery: once the cooldown of an OPEN breaker has elapsed the next call is admitted
  as a probe, and its success closes the breaker with a clean failure count, no open cycles
  and no failure kind.\<close>

theorem recovers_after_cooldown:
  assumes "b_state b = OPEN" and "b_lastFailureTime b = Some f"
    and "f + effectiveCooldown b \<le> now" and "0 < b_halfOpenRequests b"
  shows "fst (execute_begin now (b, db)) = Started
       \<and> (let b' = fst (execute_end later None (snd (execute_begin now (b, db))))
          in b_state b' = CLOSED \<and> b_failureCount b' = 0 \<and> b_openCycleCount b' = 0
             \<and> b_lastFailureKind b' = None \<and> b_kindFailureCounts b' = Map.empty)"
  using assms
  by (simp add: execute_begin_def execute_end_def refreshOpenState_def shouldAttemptReset_def
                onSuccess_def Let_def)

theorem recovers_after_cooldown_witness:
  "fst (execute_begin 31000 (chat_breaker\<lparr>b_state := OPEN, b_lastFailureTime := Some 1000\<rparr>, None))
     = Started"
  using recovers_after_cooldown
    [of "chat_breaker\<lparr>b_state := OPEN, b_lastFailureTime := Some 1000\<rparr>" 1000 31000 None 32000]
  by (simp add: cb_exec_defs)

section \<open>Persistence and restart\<close>

text \<open>A failure that trips a kind-specific threshold opens the breaker in memory but
  writes nothing to the database, so a restart restores the state from before it opened.\<close>

theorem kind_open_is_not_persisted:
  assumes "kind_trips k (record_failure now k b)"
  shows "b_state (fst (onFailure now k (b, db))) = OPEN \<and> snd (onFailure now k (b, db)) = db"
  using assms by (simp add: onFailure_def Let_def)

definition quota_breaker :: "js_error breaker" where
  "quota_breaker = fresh_breaker ''glm'' (no_options\<lparr>o_kindThresholds :=
     [QuotaExhausted \<mapsto> \<lparr>kt_threshold = Some 1, kt_immediateOpen = True\<rparr>]\<rparr>)"

theorem kind_open_is_not_persisted_witness:
  "b_state (fst (onFailure 7 (Some QuotaExhausted) (quota_breaker, Some Map.empty))) = OPEN
   \<and> snd (onFailure 7 (Some QuotaExhausted) (quota_breaker, Some Map.empty)) = Some Map.empty"
  by (rule kind_open_is_not_persisted)
     (simp add: quota_breaker_def kind_trips_def kind_count_def kt_or_def cb_exec_defs)

text \<open>A failed probe that trips a kind-specific threshold re-opens the breaker without
  counting an open cycle, so the reset timeout never escalates for that kind; every other
  failed probe counts one.\<close>

theorem failed_probe_escalation:
  assumes "b_state b = HALF_OPEN"
  shows "b_state (fst (onFailure now k (b, db))) = OPEN
       \<and> b_openCycleCount (fst (onFailure now k (b, db))) =
           b_openCycleCount b + (if kind_trips k (record_failure now k b) then 0 else 1)"
  using assms by (simp add: onFailure_def Let_def)

theorem failed_probe_escalation_witness:
  "b_openCycleCount (fst (onFailure 9 (Some QuotaExhausted)
      (quota_breaker\<lparr>b_state := HALF_OPEN\<rparr>, None))) = 0"
  using failed_probe_escalation [of "quota_breaker\<lparr>b_state := HALF_OPEN\<rparr>" 9 "Some QuotaExhausted" None]
  by (simp add: quota_breaker_def kind_trips_def kind_count_def kt_or_def cb_exec_defs)

text \<open>
  What the row of a breaker holds, compared with the breaker: the row is the snapshot, or
  there is none and the breaker has only its initial values.
\<close>

definition db_in_sync :: "string \<Rightarrow> 'e cbs \<Rightarrow> bool" where
  "db_in_sync n s \<longleftrightarrow> b_name (fst s) = n \<and> b_kindThresholds (fst s) = Map.empty
     \<and> b_lastFailureTime (fst s) \<noteq> Some 0
     \<and> (\<exists>m. snd s = Some m
          \<and> (m n = Some (cb_snapshot (fst s))
              \<or> m n = None \<and> cb_snapshot (fst s) =
                   \<lparr>s_state = CLOSED, s_failureCount = 0, s_lastFailureTime = None,
                    s_lastFailureKind = None, s_openCycleCount = 0,
                    s_kindFailureCounts = Map.empty\<rparr>))"

lemma db_in_sync_persist:
  "db_in_sync n (b, db) \<Longrightarrow> b_name b' = b_name b \<Longrightarrow> b_kindThresholds b' = b_kindThresholds b \<Longrightarrow>
   b_lastFailureTime b' \<noteq> Some 0 \<Longrightarrow> db_in_sync n (b', persistToDb b' db)"
  by (auto simp: db_in_sync_def persistToDb_def saveCircuitBreakerState_def)

lemma db_in_sync_D:
  "db_in_sync n (b, db) \<Longrightarrow> b_lastFailureTime b \<noteq> Some 0"
  "db_in_sync n (b, db) \<Longrightarrow> b_kindThresholds b = Map.empty"
  by (auto simp: db_in_sync_def)

lemma db_in_sync_allowed:
  "db_in_sync n (b, db) \<Longrightarrow> db_in_sync n (b\<lparr>b_halfOpenAllowed := a\<rparr>, db)"
  by (auto simp: db_in_sync_def cb_snapshot_def)

lemma db_in_sync_refresh: "db_in_sync n s \<Longrightarrow> db_in_sync n (refreshOpenState t s)"
  by (cases s) (auto simp: refreshOpenState_def Let_def dest: db_in_sync_D
                     intro!: db_in_sync_persist)

lemma db_in_sync_onSuccess: "db_in_sync n s \<Longrightarrow> db_in_sync n (onSuccess t s)"
  by (cases s) (auto simp: onSuccess_def Let_def dest: db_in_sync_D intro!: db_in_sync_persist)

lemma db_in_sync_reset: "db_in_sync n s \<Longrightarrow> db_in_sync n (cb_reset t s)"
  by (cases s) (auto simp: cb_reset_def Let_def dest: db_in_sync_D intro!: db_in_sync_persist)

lemma db_in_sync_onFailure:
  assumes "db_in_sync n s" and "t \<noteq> 0" shows "db_in_sync n (onFailure t k s)"
proof (cases s)
  case (Pair b db)
  with assms have "\<not> kind_trips k (record_failure t k b)" by (simp add: db_in_sync_D)
  then show ?thesis
    using assms Pair
    by (auto simp: onFailure_def Let_def openCircuit_def dest: db_in_sync_D
             intro!: db_in_sync_persist split: cb_state.splits)
qed

lemma db_in_sync_step:
  assumes "db_in_sync n s" and "fst e \<noteq> 0" shows "db_in_sync n (cb_step s e)"
proof -
  obtain t ev where e: "e = (t, ev)" by force
  have r: "db_in_sync n (fst (refreshOpenState t s), snd (refreshOpenState t s))"
    using assms(1) by (simp add: db_in_sync_refresh)
  show ?thesis
    using assms r db_in_sync_allowed [OF r]
    by (cases ev) (auto simp: e db_in_sync_refresh db_in_sync_onSuccess db_in_sync_onFailure
        db_in_sync_reset execute_begin_def execute_end_def Let_def split: option.splits)
qed

lemma db_in_sync_run:
  "db_in_sync n s \<Longrightarrow> \<forall>e\<in>set es. fst e \<noteq> 0 \<Longrightarrow> db_in_sync n (run cb_step s es)"
proof (induction es arbitrary: s)
  case (Cons e es)
  have "db_in_sync n (cb_step s e)" using Cons.prems by (intro db_in_sync_step) auto
  with Cons show ?case by simp
qed simp

lemma restore_in_sync:
  assumes "db_in_sync n (b, db)"
  shows "cb_snapshot (new_CircuitBreaker n opts db) = cb_snapshot b"
proof -
  have t: "\<not> truthy (b_lastFailureTime b) \<Longrightarrow> b_lastFailureTime b = None"
    using assms by (cases "b_lastFailureTime b") (auto simp: db_in_sync_def)
  show ?thesis
    using assms t
    by (auto simp: db_in_sync_def new_CircuitBreaker_def restoreFromDb_def loadCircuitBreakerState_def
        fresh_breaker_def cb_snapshot_def Let_def split: option.splits)
qed

text \<open>C27. Crash consistency: with no kind-specific thresholds, a breaker restarted after any
  run of events (at non-zero clock readings) restores the state, failure count, last failure
  and backoff cycle the running breaker had.\<close>

theorem restart_restores_breaker:
  assumes "o_kindThresholds opts = Map.empty" and "m n = None" and "\<forall>e\<in>set es. fst e \<noteq> 0"
  shows "let (b, db) = run cb_step (fresh_breaker n opts, Some m) es
         in cb_snapshot (new_CircuitBreaker n opts db) = cb_snapshot b"
proof -
  have "db_in_sync n (fresh_breaker n opts, Some m)"
    using assms(1,2) by (simp add: db_in_sync_def fresh_breaker_def Let_def cb_snapshot_def)
  from db_in_sync_run [OF this assms(3)]
  have sync: "db_in_sync n (run cb_step (fresh_breaker n opts, Some m) es)" .
  obtain b db where r: "run cb_step (fresh_breaker n opts, Some m) es = (b, db)" by force
  from sync show ?thesis unfolding r by (simp add: restore_in_sync)
qed

theorem restart_restores_breaker_witness:
  "let (b, db) = run cb_step (fresh_breaker ''glm'' (no_options :: js_error cb_options), Some Map.empty)
                   [(10, ReportFailure (Some Transient)), (11, ReportFailure None)]
   in cb_snapshot (new_CircuitBreaker ''glm'' (no_options :: js_error cb_options) db) = cb_snapshot b"
  by (rule restart_restores_breaker) (simp_all add: no_options_def)

end
