(* ===== verification/CircuitRegistry.thy ===== *)
theory CircuitRegistry
  imports CircuitBreaker
begin

text \<open>
  The process-wide registry of circuit breakers (second half of
  \<open>src/shared/utils/circuitBreaker.ts\<close>): lookup with creation, re-configuration, the
  eviction of cold breakers, the periodic sweep, and the reset of everything. The state is
  the registry \<open>Map\<close> and the table.
\<close>

definition MAX_REGISTRY_SIZE :: nat where
  "MAX_REGISTRY_SIZE = 500"

type_synonym 'e cb_registry = "(string, 'e breaker) jsmap"

section \<open>Operations\<close>

fun registry_statuses ::
  "int \<Rightarrow> 'e cb_registry \<Rightarrow> cb_db \<Rightarrow> (string \<times> cb_status) list \<times> 'e cb_registry \<times> cb_db" where
  "registry_statuses now [] db = ([], [], db)"
| "registry_statuses now ((n, b) # r) db =
     (let (st, b', db1) = getStatus now (b, db);
          (sts, r', db2) = registry_statuses now r db1
      in ((n, st) # sts, (n, b') # r', db2))"

definition cold :: "cb_status \<Rightarrow> bool" where
  "cold st = (st_state st = CLOSED \<and> st_failureCount st = 0)"

fun registrySweep :: "int \<Rightarrow> 'e cb_registry \<Rightarrow> cb_db \<Rightarrow> 'e cb_registry \<times> cb_db" where
  "registrySweep now [] db = ([], db)"
| "registrySweep now ((n, b) # r) db =
     (let (st, b', db1) = getStatus now (b, db)
      in if cold st \<and> (\<not> truthy (st_lastFailureTime st)
                        \<or> now - the (st_lastFailureTime st) > 30 * 60 * 1000)
         then registrySweep now r (deleteCircuitBreakerState n db1)
         else (let (r', db2) = registrySweep now r db1 in ((n, b') # r', db2)))"

definition evict_victims :: "(string \<times> cb_status) list \<Rightarrow> nat \<Rightarrow> string list" where
  "evict_victims sts sz =
     map fst (take (sz - MAX_REGISTRY_SIZE + 1)
       (sort_key (\<lambda>c. or_else (st_lastFailureTime (snd c)) 0) (filter (\<lambda>c. cold (snd c)) sts)))"

definition evictColdBreakersIfNeeded ::
  "int \<Rightarrow> 'e cb_registry \<times> cb_db \<Rightarrow> 'e cb_registry \<times> cb_db" where
  "evictColdBreakersIfNeeded now s =
     (case s of (reg, db) \<Rightarrow>
        if length reg < MAX_REGISTRY_SIZE then (reg, db)
        else (let (sts, reg', db') = registry_statuses now reg db;
                  victims = evict_victims sts (length reg')
              in (fold jm_del victims reg', fold deleteCircuitBreakerState victims db')))"

definition apply_options :: "'e cb_options \<Rightarrow> 'e breaker \<Rightarrow> 'e breaker" where
  "apply_options opts b =
     (let b1 = b\<lparr>b_failureThreshold := or_else (o_failureThreshold opts) (b_failureThreshold b),
                 b_resetTimeout := or_else (o_resetTimeout opts) (b_resetTimeout b)\<rparr>;
          b2 = (case o_halfOpenRequests opts of None \<Rightarrow> b1
                | Some h \<Rightarrow>
                   (let b' = b1\<lparr>b_halfOpenRequests := h\<rparr>
                    in if b_state b' = HALF_OPEN
                       then b'\<lparr>b_halfOpenAllowed := min (b_halfOpenAllowed b') (b_halfOpenRequests b')\<rparr>
                       else b'));
          b3 = b2\<lparr>b_onStateChange := (o_onStateChange opts \<or> b_onStateChange b2),
                  b_isFailure := or_else (o_isFailure opts) (b_isFailure b2),
                  b_cooldownByKind := b_cooldownByKind b2 ++ o_cooldownByKind opts,
                  b_classifyError := (case o_classifyError opts of
                                        None \<Rightarrow> b_classifyError b2 | Some f \<Rightarrow> Some f),
                  b_kindThresholds := b_kindThresholds b2 ++ o_kindThresholds opts\<rparr>
      in b3\<lparr>b_degradationThreshold := or_else (o_degradationThreshold opts) (b_degradationThreshold b3),
            b_maxBackoffMultiplier := or_else (o_maxBackoffMultiplier opts) (b_maxBackoffMultiplier b3),
            b_backoffEscalationCount :=
              or_else (o_backoffEscalationCount opts) (b_backoffEscalationCount b3)\<rparr>)"

definition getCircuitBreaker ::
  "int \<Rightarrow> string \<Rightarrow> 'e cb_options option \<Rightarrow> 'e cb_registry \<times> cb_db
   \<Rightarrow> 'e breaker \<times> 'e cb_registry \<times> cb_db" where
  "getCircuitBreaker now n opts s0 =
     (let (reg, db) = (if jm_has (fst s0) n then s0
                       else (let (r1, db1) = evictColdBreakersIfNeeded now s0
                             in (jm_set n (new_CircuitBreaker n (or_else opts no_options) db1) r1, db1)));
          b = the (jm_get reg n)
      in case opts of
           None \<Rightarrow> (b, reg, db)
         | Some ops \<Rightarrow> (let b' = apply_options ops b in (b', jm_set n b' reg, persistToDb b' db)))"

text \<open>\<open>persisted\<close>: the names the query returns, \<open>None\<close> when it throws.\<close>

definition getAllCircuitBreakerStatuses ::
  "int \<Rightarrow> string list option \<Rightarrow> 'e cb_registry \<times> cb_db
   \<Rightarrow> cb_status list \<times> 'e cb_registry \<times> cb_db" where
  "getAllCircuitBreakerStatuses now persisted s =
     (let s1 = fold (\<lambda>n s. if jm_has (fst s) n then s
                            else snd (getCircuitBreaker now n None s))
                    (or_else persisted []) s;
          (sts, reg, db) = registry_statuses now (fst s1) (snd s1)
      in (map snd sts, reg, db))"

definition resetAllCircuitBreakers ::
  "int \<Rightarrow> 'e cb_registry \<times> cb_db \<Rightarrow> 'e cb_registry \<times> cb_db" where
  "resetAllCircuitBreakers now s =
     (let db' = fold (\<lambda>p db. snd (cb_reset now (snd p, db))) (fst s) (snd s)
      in ([], deleteAllCircuitBreakerStates db'))"

section \<open>Lemmas\<close>

lemma getStatus_fields [simp]:
  "st_state (fst (getStatus t s)) = b_state (fst (refreshOpenState t s))"
  "st_failureCount (fst (getStatus t s)) = b_failureCount (fst (refreshOpenState t s))"
  "st_lastFailureTime (fst (getStatus t s)) = b_lastFailureTime (fst (refreshOpenState t s))"
  by (simp_all add: getStatus_def Let_def case_prod_unfold)

lemma refresh_cold_iff:
  "b_state (fst (refreshOpenState t (b, db))) = CLOSED \<longleftrightarrow> b_state b = CLOSED"
  "b_failureCount (fst (refreshOpenState t (b, db))) = b_failureCount b"
  "b_lastFailureTime (fst (refreshOpenState t (b, db))) = b_lastFailureTime b"
  by (auto simp: refreshOpenState_def Let_def)

lemma registry_statuses_keys:
  "map fst (fst (registry_statuses t r db)) = map fst r"
  "map fst (fst (snd (registry_statuses t r db))) = map fst r"
  by (induction r arbitrary: db) (auto simp: Let_def case_prod_unfold)

lemma registry_statuses_cold:
  assumes "(n, st) \<in> set (fst (registry_statuses t r db))"
  shows "\<exists>b. (n, b) \<in> set r \<and> (cold st \<longleftrightarrow> b_state b = CLOSED \<and> b_failureCount b = 0)"
  using assms
proof (induction r arbitrary: db)
  case (Cons p r)
  obtain m b where p: "p = (m, b)" by force
  show ?case
  proof (cases "(n, st) = (m, fst (getStatus t (b, db)))")
    case True
    then show ?thesis by (auto simp: p cold_def refresh_cold_iff)
  next
    case False
    with Cons.prems have "(n, st) \<in> set (fst (registry_statuses t r (snd (refreshOpenState t (b, db)))))"
      by (auto simp: p Let_def case_prod_unfold)
    from Cons.IH [OF this] show ?thesis by auto
  qed
qed simp

lemma evict_victims_distinct:
  assumes "distinct (map fst sts)"
  shows "distinct (evict_victims sts k)"
proof -
  have d: "distinct sts" using assms by (simp add: distinct_map)
  have "inj_on fst (set sts)" using assms by (simp add: distinct_map)
  then show ?thesis
    using d unfolding evict_victims_def distinct_map
    by (auto intro!: distinct_take inj_on_subset [of fst "set sts"] dest: in_set_takeD)
qed

lemma evict_victims_cold:
  "n \<in> set (evict_victims sts k) \<Longrightarrow> \<exists>st. (n, st) \<in> set sts \<and> cold st"
  unfolding evict_victims_def by (auto dest!: in_set_takeD)

lemma length_evict_victims:
  "length (evict_victims sts k) =
     min (length (filter (\<lambda>c. cold (snd c)) sts)) (k - MAX_REGISTRY_SIZE + 1)"
  by (simp add: evict_victims_def)

lemma evict_fst:
  assumes "jm_ok reg"
  shows "length (fst (evictColdBreakersIfNeeded t (reg, db))) =
           (if length reg < MAX_REGISTRY_SIZE then length reg
            else length reg - min (length (filter (\<lambda>c. cold (snd c)) (fst (registry_statuses t reg db))))
                                  (length reg - MAX_REGISTRY_SIZE + 1))"
proof -
  obtain sts reg' db' where r: "registry_statuses t reg db = (sts, reg', db')"
    by (cases "registry_statuses t reg db") auto
  have k: "map fst sts = map fst reg" "map fst reg' = map fst reg"
    using registry_statuses_keys [of t reg db] by (simp_all add: r)
  have len: "length reg' = length reg" using k(2) by (metis length_map)
  have ok: "jm_ok reg'" using assms k by (simp add: jm_ok_def)
  have "distinct (map fst sts)" using assms k by (simp add: jm_ok_def)
  note d = evict_victims_distinct [OF this, of "length reg'"]
  have sub: "set (evict_victims sts (length reg')) \<subseteq> set (jm_keys reg')"
    using k by (auto dest!: evict_victims_cold) (metis fst_conv image_eqI list.set_map)
  have "length (fold jm_del (evict_victims sts (length reg')) reg')
        + length (evict_victims sts (length reg')) = length reg'"
    using jsmap.length_keys_fold_del [OF ok d sub] by simp
  then show ?thesis
    by (auto simp: evictColdBreakersIfNeeded_def r Let_def len length_evict_victims)
qed


lemma refresh_fst_db: "fst (refreshOpenState t (b, db)) = fst (refreshOpenState t (b, db'))"
  by (simp add: refreshOpenState_def Let_def)

lemma registry_statuses_get:
  "jm_get (fst (snd (registry_statuses t r db))) n =
     map_option (\<lambda>b. fst (refreshOpenState t (b, None))) (jm_get r n)"
proof (induction r arbitrary: db)
  case (Cons p r)
  obtain m b where p: "p = (m, b)" by force
  have e: "fst (refreshOpenState t (b, db)) = fst (refreshOpenState t (b, None))"
    by (rule refresh_fst_db)
  from Cons show ?case by (auto simp: p e Let_def case_prod_unfold jm_get_def)
qed simp

lemma registry_statuses_cold_count:
  "length (filter (\<lambda>c. cold (snd c)) (fst (registry_statuses t r db))) =
     length (filter (\<lambda>p. b_state (snd p) = CLOSED \<and> b_failureCount (snd p) = 0) r)"
proof (induction r arbitrary: db)
  case (Cons p r)
  then show ?case
    by (cases p) (auto simp: Let_def case_prod_unfold cold_def refresh_cold_iff)
qed simp

section \<open>Properties\<close>

text \<open>Eviction never removes a breaker that carries state: a registered breaker that is
  not CLOSED with zero failures is still registered afterwards, at most refreshed from OPEN
  to HALF_OPEN by the status query.\<close>

theorem eviction_spares_stateful:
  assumes "jm_ok reg" and "jm_get reg n = Some b" and "\<not> (b_state b = CLOSED \<and> b_failureCount b = 0)"
  shows "jm_get (fst (evictColdBreakersIfNeeded t (reg, db))) n
           \<in> {Some b, Some (fst (refreshOpenState t (b, None)))}"
proof (cases "length reg < MAX_REGISTRY_SIZE")
  case True
  then show ?thesis using assms by (simp add: evictColdBreakersIfNeeded_def)
next
  case False
  obtain sts reg' db' where r: "registry_statuses t reg db = (sts, reg', db')"
    by (cases "registry_statuses t reg db") auto
  have "n \<notin> set (evict_victims sts (length reg'))"
  proof
    assume "n \<in> set (evict_victims sts (length reg'))"
    then obtain st where "(n, st) \<in> set sts" "cold st" by (auto dest: evict_victims_cold)
    then obtain b' where "(n, b') \<in> set reg" "b_state b' = CLOSED \<and> b_failureCount b' = 0"
      using registry_statuses_cold [of n st t reg db] by (auto simp: r)
    moreover have "b' = b" using calculation(1) assms(1,2) by (simp add: jm_get_mem)
    ultimately show False using assms(3) by simp
  qed
  then have "jm_get (fst (evictColdBreakersIfNeeded t (reg, db))) n = jm_get reg' n"
    using False by (simp add: evictColdBreakersIfNeeded_def r Let_def jsmap.get_fold_del)
  also have "\<dots> = Some (fst (refreshOpenState t (b, None)))"
    using registry_statuses_get [of t reg db n] assms(2) by (simp add: r)
  finally show ?thesis by simp
qed

theorem eviction_spares_stateful_witness:
  "jm_get (fst (evictColdBreakersIfNeeded 5
      ([(''glm'', chat_breaker\<lparr>b_failureCount := 1\<rparr>)], None))) ''glm''
   \<in> {Some (chat_breaker\<lparr>b_failureCount := 1\<rparr>),
      Some (fst (refreshOpenState 5 (chat_breaker\<lparr>b_failureCount := 1\<rparr>, None)))}"
  by (rule eviction_spares_stateful) (simp_all add: jm_ok_def jm_get_def)

text \<open>The registry bound: registering a new breaker leaves at most
  \<open>MAX_REGISTRY_SIZE\<close> of them, or one more than the breakers that carry state when those
  alone exceed the bound.\<close>

theorem registry_bounded:
  assumes "jm_ok reg" and "\<not> jm_has reg n" and "length reg \<le> MAX_REGISTRY_SIZE"
  shows "length (fst (snd (getCircuitBreaker t n opts (reg, db))))
         \<le> max MAX_REGISTRY_SIZE
             (Suc (length (filter (\<lambda>p. \<not> (b_state (snd p) = CLOSED \<and> b_failureCount (snd p) = 0)) reg)))"
proof -
  define c where "c = length (filter (\<lambda>p. b_state (snd p) = CLOSED \<and> b_failureCount (snd p) = 0) reg)"
  let ?ev = "evictColdBreakersIfNeeded t (reg, db)"
  have "length (fst ?ev) = (if length reg < MAX_REGISTRY_SIZE then length reg
          else length reg - min c (length reg - MAX_REGISTRY_SIZE + 1))"
    using evict_fst [OF assms(1), of t db] by (simp add: registry_statuses_cold_count c_def)
  moreover have "length reg = c + length (filter
      (\<lambda>p. \<not> (b_state (snd p) = CLOSED \<and> b_failureCount (snd p) = 0)) reg)"
    unfolding c_def by (rule sum_length_filter_compl [symmetric])
  ultimately have *: "Suc (length (fst ?ev)) \<le> max MAX_REGISTRY_SIZE
      (Suc (length (filter (\<lambda>p. \<not> (b_state (snd p) = CLOSED \<and> b_failureCount (snd p) = 0)) reg)))"
    using assms(3) by auto
  have 1: "length (jm_set k v m) \<le> Suc (length m)" for k :: string and v and m :: "'a cb_registry"
    by (simp add: length_jm_set)
  have 2: "length (jm_set n v' (jm_set n v m)) = length (jm_set n v m)"
    for v v' and m :: "'a cb_registry"
    by (simp add: length_jm_set [of n v'] jm_has_def)
  have "length (fst (snd (getCircuitBreaker t n opts (reg, db)))) \<le> Suc (length (fst ?ev))"
    using assms(2) 1
    by (auto simp: getCircuitBreaker_def Let_def case_prod_unfold 2 split: option.splits)
  with * show ?thesis by linarith
qed

theorem registry_bounded_witness:
  "length (fst (snd (getCircuitBreaker 0 ''glm'' None ([] :: js_error cb_registry, None)))) \<le> max 500 1"
  using registry_bounded [of "[] :: js_error cb_registry" "''glm''" 0 None None]
  by (simp add: jm_has_def MAX_REGISTRY_SIZE_def)

definition kind_opts :: "js_error cb_options" where
  "kind_opts = no_options\<lparr>o_kindThresholds :=
     [RateLimit \<mapsto> \<lparr>kt_threshold = Some 3, kt_immediateOpen = False\<rparr>]\<rparr>"

definition decayed_breaker :: "js_error breaker" where
  "decayed_breaker = fst (run cb_step (fresh_breaker ''glm'' kind_opts, None)
     [(1, ReportFailure (Some RateLimit)), (2, ReportFailure (Some RateLimit)),
      (3, ReportSuccess), (4, ReportSuccess)])"

text \<open>A cold breaker is not always equivalent to a fresh one: after failures of a kind
  and as many successes it is CLOSED with zero failures, but its kind counts survive, and the
  next failure of that kind opens it while a fresh breaker stays closed.\<close>

theorem cold_breaker_differs_from_fresh:
  "cold (fst (getStatus 5 (decayed_breaker, None)))
   \<and> b_state (fst (onFailure 6 (Some RateLimit) (decayed_breaker, None))) = OPEN
   \<and> b_state (fst (onFailure 6 (Some RateLimit) (fresh_breaker ''glm'' kind_opts, None))) = CLOSED"
  by (simp add: cold_def refresh_cold_iff refresh_not_open decayed_breaker_def kind_opts_def
      kind_trips_def kind_count_def kt_or_def cb_exec_defs)

text \<open>Resetting all breakers empties the registry and a ready table, so every breaker
  looked up afterwards is a fresh one.\<close>

theorem reset_all_gives_fresh:
  "fst (getCircuitBreaker t' n None (resetAllCircuitBreakers t (reg, db))) = fresh_breaker n no_options"
proof -
  have "loadCircuitBreakerState n (deleteAllCircuitBreakerStates d) = None" for d
    by (cases d) (simp_all add: loadCircuitBreakerState_def deleteAllCircuitBreakerStates_def)
  moreover have "b_name (fresh_breaker n o1) = n" for o1 :: "'a cb_options"
    by (simp add: fresh_breaker_def Let_def)
  ultimately show ?thesis
    by (simp add: resetAllCircuitBreakers_def getCircuitBreaker_def Let_def jm_has_def
        evictColdBreakersIfNeeded_def MAX_REGISTRY_SIZE_def new_CircuitBreaker_def restoreFromDb_def)
qed

end
