(* ===== verification/AdmissionCost.thy ===== *)
theory AdmissionCost
  imports Omni_Prelude
begin

text \<open>
  Cost estimation and configuration of the adaptive admission controller:
  \<open>open-sse/services/admission/cost.ts\<close>, \<open>config.ts\<close> and the constants of \<open>types.ts\<close>.

  Inputs are values of unknown type (\<open>jsval\<close>), since every one is checked at run time. A
  \<open>RangeError\<close> is a value of \<open>range_error\<close>. Amounts divided by quanta are exact rationals.
\<close>

definition MAX_ADMISSION_WINDOW_MS :: int where
  "MAX_ADMISSION_WINDOW_MS = 86400000"

definition MAX_ADMISSION_COST_OR_LIMIT :: int where
  "MAX_ADMISSION_COST_OR_LIMIT = MAX_SAFE_INTEGER div MAX_ADMISSION_WINDOW_MS"

datatype range_error = NotPositiveSafeInteger string | ExceedsMax string int
  | NotInInterval string | BadMode | BadRelation string string

section \<open>Cost quanta\<close>

datatype cost_key = BaseCost | BodyBytesPerUnit | TokensPerUnit | MessagesPerUnit | ToolsPerUnit
  | FanoutPerUnit | StreamingClassCost | NonStreamingClassCost | MaxRequestCost

fun key_name :: "cost_key \<Rightarrow> string" where
  "key_name BaseCost = ''baseCost''"
| "key_name BodyBytesPerUnit = ''bodyBytesPerUnit''"
| "key_name TokensPerUnit = ''tokensPerUnit''"
| "key_name MessagesPerUnit = ''messagesPerUnit''"
| "key_name ToolsPerUnit = ''toolsPerUnit''"
| "key_name FanoutPerUnit = ''fanoutPerUnit''"
| "key_name StreamingClassCost = ''streamingClassCost''"
| "key_name NonStreamingClassCost = ''nonStreamingClassCost''"
| "key_name MaxRequestCost = ''maxRequestCost''"

type_synonym cost_config = "cost_key \<Rightarrow> int"

fun DEFAULT_ADMISSION_COST_CONFIG :: cost_config where
  "DEFAULT_ADMISSION_COST_CONFIG BaseCost = 1"
| "DEFAULT_ADMISSION_COST_CONFIG BodyBytesPerUnit = 16384"
| "DEFAULT_ADMISSION_COST_CONFIG TokensPerUnit = 1024"
| "DEFAULT_ADMISSION_COST_CONFIG MessagesPerUnit = 32"
| "DEFAULT_ADMISSION_COST_CONFIG ToolsPerUnit = 8"
| "DEFAULT_ADMISSION_COST_CONFIG FanoutPerUnit = 1"
| "DEFAULT_ADMISSION_COST_CONFIG StreamingClassCost = 1"
| "DEFAULT_ADMISSION_COST_CONFIG NonStreamingClassCost = 2"
| "DEFAULT_ADMISSION_COST_CONFIG MaxRequestCost = 1000"

definition COST_CONFIG_KEYS :: "cost_key list" where
  "COST_CONFIG_KEYS = [BaseCost, BodyBytesPerUnit, TokensPerUnit, MessagesPerUnit, ToolsPerUnit,
     FanoutPerUnit, StreamingClassCost, NonStreamingClassCost, MaxRequestCost]"

definition finiteNonNegative :: "jsval \<Rightarrow> rat" where
  "finiteNonNegative v = (case v of
     Num r \<Rightarrow> if r < 0 then 0 else min r (of_int MAX_SAFE_INTEGER)
   | _ \<Rightarrow> 0)"

definition requirePositiveSafeInteger :: "string \<Rightarrow> jsval \<Rightarrow> int \<Rightarrow> range_error + int" where
  "requirePositiveSafeInteger name v mx = (case safe_integer v of
     None \<Rightarrow> Inl (NotPositiveSafeInteger name)
   | Some n \<Rightarrow> if n \<le> 0 then Inl (NotPositiveSafeInteger name)
               else if n > mx then Inl (ExceedsMax name mx)
               else Inr n)"

text \<open>The loop over the keys, assigning \<open>resolved[key]\<close>; the first bad key throws.\<close>

fun resolve_keys :: "(cost_key \<Rightarrow> jsval) \<Rightarrow> cost_key list \<Rightarrow> cost_config \<Rightarrow> range_error + cost_config" where
  "resolve_keys partial [] resolved = Inr resolved"
| "resolve_keys partial (k # ks) resolved =
     bindE (requirePositiveSafeInteger (key_name k)
              (nullish_or (partial k) (Num (of_int (DEFAULT_ADMISSION_COST_CONFIG k))))
              MAX_ADMISSION_COST_OR_LIMIT)
       (\<lambda>n. resolve_keys partial ks (resolved(k := n)))"

definition resolveCostConfig :: "(cost_key \<Rightarrow> jsval) \<Rightarrow> range_error + cost_config" where
  "resolveCostConfig partial = resolve_keys partial COST_CONFIG_KEYS (\<lambda>_. 0)"

definition unitsFrom :: "rat \<Rightarrow> int \<Rightarrow> int" where
  "unitsFrom amount quantum = (if amount \<le> 0 then 0 else \<lceil>amount / of_int quantum\<rceil>)"

definition addBounded :: "int \<Rightarrow> int \<Rightarrow> int \<Rightarrow> int" where
  "addBounded tot contribution maximum =
     (if contribution \<ge> maximum - tot then maximum else tot + contribution)"

record cost_features =
  f_bodyBytes :: jsval
  f_estimatedInputTokens :: jsval
  f_messageCount :: jsval
  f_toolCount :: jsval
  f_requestedFanout :: jsval
  f_streaming :: jsval

definition contributions :: "cost_features \<Rightarrow> cost_config \<Rightarrow> int list" where
  "contributions f cfg =
     (let body = finiteNonNegative (f_bodyBytes f);
          tokens = finiteNonNegative (f_estimatedInputTokens f);
          messages = finiteNonNegative (f_messageCount f);
          tools = finiteNonNegative (f_toolCount f);
          fanout = max 1 (finiteNonNegative (f_requestedFanout f))
      in [unitsFrom body (cfg BodyBytesPerUnit), unitsFrom tokens (cfg TokensPerUnit),
          unitsFrom messages (cfg MessagesPerUnit), unitsFrom tools (cfg ToolsPerUnit),
          unitsFrom fanout (cfg FanoutPerUnit),
          (if f_streaming f \<noteq> JBool False then cfg StreamingClassCost else cfg NonStreamingClassCost)])"

fun add_contributions :: "int \<Rightarrow> int list \<Rightarrow> int \<Rightarrow> int" where
  "add_contributions tot [] maximum = tot"
| "add_contributions tot (c # cs) maximum =
     (let tot = addBounded tot c maximum
      in if tot = maximum then tot else add_contributions tot cs maximum)"

definition estimateAdmissionCost :: "cost_features \<Rightarrow> (cost_key \<Rightarrow> jsval) \<Rightarrow> range_error + int" where
  "estimateAdmissionCost f config =
     bindE (resolveCostConfig config)
       (\<lambda>cfg. Inr (add_contributions (min (cfg BaseCost) (cfg MaxRequestCost)) (contributions f cfg)
                     (cfg MaxRequestCost)))"

definition normalizeRequestCost :: "jsval \<Rightarrow> jsval \<Rightarrow> range_error + int" where
  "normalizeRequestCost cost maxRequestCost =
     bindE (requirePositiveSafeInteger ''maxRequestCost'' maxRequestCost MAX_ADMISSION_COST_OR_LIMIT)
       (\<lambda>mx. bindE (requirePositiveSafeInteger ''request cost'' cost MAX_ADMISSION_COST_OR_LIMIT)
         (\<lambda>v. Inr (min v mx)))"

section \<open>Configuration\<close>

datatype admission_mode = ModeOff | ModeShadow | ModeEnforce

record adaptation_params =
  ap_minLimit :: int
  ap_maxLimit :: int
  ap_windowMs :: int
  ap_shortLatencyAlpha :: rat
  ap_longLatencyAlpha :: rat
  ap_increaseStep :: int
  ap_decreaseFactor :: rat
  ap_criticalDecreaseFactor :: rat
  ap_highUtilizationThreshold :: rat
  ap_lowUtilizationThreshold :: rat
  ap_latencyGradientThreshold :: rat
  ap_maxIncreasePerWindow :: int

record validated_config =
  v_mode :: admission_mode
  v_minLimit :: int
  v_maxLimit :: int
  v_initialLimit :: int
  v_maxQueueCount :: int
  v_maxQueueCost :: int
  v_defaultMaxWaitMs :: int
  v_windowMs :: int
  v_adaptation :: adaptation_params
  v_maxRequestCost :: int
  v_costConfig :: cost_config
  v_virtualLanes :: bool

record admission_input =
  i_mode :: jsval
  i_minLimit :: jsval
  i_maxLimit :: jsval
  i_initialLimit :: jsval
  i_maxQueueCount :: jsval
  i_maxQueueCost :: jsval
  i_defaultMaxWaitMs :: jsval
  i_windowMs :: jsval
  i_shortLatencyAlpha :: jsval
  i_longLatencyAlpha :: jsval
  i_increaseStep :: jsval
  i_decreaseFactor :: jsval
  i_criticalDecreaseFactor :: jsval
  i_highUtilizationThreshold :: jsval
  i_lowUtilizationThreshold :: jsval
  i_latencyGradientThreshold :: jsval
  i_maxIncreasePerWindow :: jsval
  i_cost :: "cost_key \<Rightarrow> jsval"
  i_virtualLanes :: jsval

text \<open>\<open>config.ts\<close> has its own copy of the integer check, with the same tests.\<close>

definition requirePositiveInt :: "string \<Rightarrow> jsval \<Rightarrow> int \<Rightarrow> range_error + int" where
  "requirePositiveInt name v mx = (case safe_integer v of
     None \<Rightarrow> Inl (NotPositiveSafeInteger name)
   | Some n \<Rightarrow> if n \<le> 0 then Inl (NotPositiveSafeInteger name)
               else if n > mx then Inl (ExceedsMax name mx)
               else Inr n)"

definition requireUnitInterval :: "string \<Rightarrow> jsval \<Rightarrow> rat \<Rightarrow> range_error + rat" where
  "requireUnitInterval name v fallback = (case v of
     Undefined \<Rightarrow> Inr fallback
   | Num r \<Rightarrow> if r \<le> 0 \<or> r > 1 then Inl (NotInInterval name) else Inr r
   | _ \<Rightarrow> Inl (NotInInterval name))"

definition requireDecreaseFactor :: "string \<Rightarrow> jsval \<Rightarrow> rat \<Rightarrow> range_error + rat" where
  "requireDecreaseFactor name v fallback = (case v of
     Undefined \<Rightarrow> Inr fallback
   | Num r \<Rightarrow> if r \<le> 0 \<or> r \<ge> 1 then Inl (NotInInterval name) else Inr r
   | _ \<Rightarrow> Inl (NotInInterval name))"

definition resolveMode :: "jsval \<Rightarrow> range_error + admission_mode" where
  "resolveMode m = (case m of
     Undefined \<Rightarrow> Inr ModeShadow
   | Str s \<Rightarrow> if s = ''off'' then Inr ModeOff else if s = ''shadow'' then Inr ModeShadow
              else if s = ''enforce'' then Inr ModeEnforce else Inl BadMode
   | _ \<Rightarrow> Inl BadMode)"

definition resolveAdaptationParams ::
  "admission_input \<Rightarrow> int \<Rightarrow> int \<Rightarrow> int \<Rightarrow> range_error + adaptation_params" where
  "resolveAdaptationParams input minLimit maxLimit windowMs =
     bindE (requireDecreaseFactor ''decreaseFactor'' (i_decreaseFactor input) (4 / 5)) (\<lambda>decrease.
     bindE (requireDecreaseFactor ''criticalDecreaseFactor'' (i_criticalDecreaseFactor input) (1 / 2)) (\<lambda>critical.
     bindE (if i_increaseStep input = Undefined then Inr 1
            else requirePositiveInt ''increaseStep'' (i_increaseStep input) MAX_ADMISSION_COST_OR_LIMIT) (\<lambda>step.
     bindE (if i_maxIncreasePerWindow input = Undefined then Inr step
            else requirePositiveInt ''maxIncreasePerWindow'' (i_maxIncreasePerWindow input)
                   MAX_ADMISSION_COST_OR_LIMIT) (\<lambda>mxinc.
     bindE (requireUnitInterval ''shortLatencyAlpha'' (i_shortLatencyAlpha input) (1 / 2)) (\<lambda>short.
     bindE (requireUnitInterval ''longLatencyAlpha'' (i_longLatencyAlpha input) (1 / 10)) (\<lambda>long.
     bindE (requireUnitInterval ''highUtilizationThreshold'' (i_highUtilizationThreshold input) (7 / 10)) (\<lambda>high.
     bindE (requireUnitInterval ''lowUtilizationThreshold'' (i_lowUtilizationThreshold input) (3 / 10)) (\<lambda>low.
       if critical > decrease then Inl (BadRelation ''criticalDecreaseFactor'' ''decreaseFactor'')
       else if low \<ge> high then Inl (BadRelation ''lowUtilizationThreshold'' ''highUtilizationThreshold'')
       else if short \<le> long then Inl (BadRelation ''shortLatencyAlpha'' ''longLatencyAlpha'')
       else
     bindE (requireUnitInterval ''latencyGradientThreshold'' (i_latencyGradientThreshold input) (1 / 4)) (\<lambda>grad.
       Inr \<lparr>ap_minLimit = minLimit, ap_maxLimit = maxLimit, ap_windowMs = windowMs,
            ap_shortLatencyAlpha = short, ap_longLatencyAlpha = long, ap_increaseStep = step,
            ap_decreaseFactor = decrease, ap_criticalDecreaseFactor = critical,
            ap_highUtilizationThreshold = high, ap_lowUtilizationThreshold = low,
            ap_latencyGradientThreshold = grad, ap_maxIncreasePerWindow = mxinc\<rparr>)))))))))"

definition validateConfig :: "admission_input \<Rightarrow> range_error + validated_config" where
  "validateConfig input =
     bindE (requirePositiveInt ''minLimit'' (i_minLimit input) MAX_ADMISSION_COST_OR_LIMIT) (\<lambda>minLimit.
     bindE (requirePositiveInt ''maxLimit'' (i_maxLimit input) MAX_ADMISSION_COST_OR_LIMIT) (\<lambda>maxLimit.
       if minLimit > maxLimit then Inl (BadRelation ''minLimit'' ''maxLimit'')
       else
     bindE (requirePositiveInt ''initialLimit'' (i_initialLimit input) MAX_ADMISSION_COST_OR_LIMIT) (\<lambda>initialLimit.
     bindE (requirePositiveInt ''maxQueueCount'' (i_maxQueueCount input) MAX_SAFE_INTEGER) (\<lambda>maxQueueCount.
     bindE (requirePositiveInt ''maxQueueCost'' (i_maxQueueCost input) MAX_ADMISSION_COST_OR_LIMIT) (\<lambda>maxQueueCost.
     bindE (if i_windowMs input = Undefined then Inr 1000
            else requirePositiveInt ''windowMs'' (i_windowMs input) MAX_ADMISSION_WINDOW_MS) (\<lambda>windowMs.
     bindE (if i_defaultMaxWaitMs input = Undefined then Inr 5000
            else requirePositiveInt ''defaultMaxWaitMs'' (i_defaultMaxWaitMs input) MAX_ADMISSION_WINDOW_MS) (\<lambda>wait.
     bindE (resolveCostConfig (i_cost input)) (\<lambda>cost.
     bindE (resolveMode (i_mode input)) (\<lambda>mode.
     bindE (resolveAdaptationParams input minLimit maxLimit windowMs) (\<lambda>ap.
       Inr \<lparr>v_mode = mode, v_minLimit = minLimit, v_maxLimit = maxLimit, v_initialLimit = initialLimit,
            v_maxQueueCount = maxQueueCount, v_maxQueueCost = maxQueueCost, v_defaultMaxWaitMs = wait,
            v_windowMs = windowMs, v_adaptation = ap, v_maxRequestCost = cost MaxRequestCost,
            v_costConfig = cost, v_virtualLanes = (i_virtualLanes input = JBool True)\<rparr>))))))))))"


section \<open>The checks\<close>

lemma requirePositive_Inr:
  "requirePositiveSafeInteger name v mx = Inr n \<longleftrightarrow> safe_integer v = Some n \<and> 0 < n \<and> n \<le> mx"
  by (auto simp: requirePositiveSafeInteger_def split: option.splits)

text \<open>The two copies of the check agree.\<close>

lemma requirePositiveInt_eq: "requirePositiveInt = requirePositiveSafeInteger"
  by (intro ext) (simp add: requirePositiveInt_def requirePositiveSafeInteger_def)

lemma requireUnitInterval_Inr:
  "requireUnitInterval name v d = Inr r \<longleftrightarrow> v = Undefined \<and> r = d \<or> v = Num r \<and> 0 < r \<and> r \<le> 1"
  by (auto simp: requireUnitInterval_def split: jsval.splits)

lemma requireDecreaseFactor_Inr:
  "requireDecreaseFactor name v d = Inr r \<longleftrightarrow> v = Undefined \<and> r = d \<or> v = Num r \<and> 0 < r \<and> r < 1"
  by (auto simp: requireDecreaseFactor_def split: jsval.splits)

lemma limit_bound_value: "MAX_ADMISSION_COST_OR_LIMIT = 104249991"
  by (simp add: MAX_ADMISSION_COST_OR_LIMIT_def MAX_SAFE_INTEGER_def MAX_ADMISSION_WINDOW_MS_def)

lemma resolve_keys_Inr:
  assumes "resolve_keys p ks c = Inr cfg"
  shows "(k \<in> set ks \<longrightarrow> 0 < cfg k \<and> cfg k \<le> MAX_ADMISSION_COST_OR_LIMIT
            \<and> safe_integer (nullish_or (p k) (Num (of_int (DEFAULT_ADMISSION_COST_CONFIG k)))) = Some (cfg k))
     \<and> (k \<notin> set ks \<longrightarrow> cfg k = c k)"
  using assms
proof (induction ks arbitrary: c)
  case (Cons k' ks)
  then obtain n where n: "requirePositiveSafeInteger (key_name k')
      (nullish_or (p k') (Num (of_int (DEFAULT_ADMISSION_COST_CONFIG k')))) MAX_ADMISSION_COST_OR_LIMIT = Inr n"
    and r: "resolve_keys p ks (c(k' := n)) = Inr cfg" by (auto simp: bindE_Inr)
  from n have n': "0 < n" "n \<le> MAX_ADMISSION_COST_OR_LIMIT"
    "safe_integer (nullish_or (p k') (Num (of_int (DEFAULT_ADMISSION_COST_CONFIG k')))) = Some n"
    by (simp_all add: requirePositive_Inr)
  show ?case using Cons.IH [OF r] n' by auto
qed simp

lemma all_cost_keys: "k \<in> set COST_CONFIG_KEYS"
  by (cases k) (simp_all add: COST_CONFIG_KEYS_def)

lemma resolveCostConfig_Inr:
  assumes "resolveCostConfig p = Inr cfg"
  shows "0 < cfg k" "cfg k \<le> MAX_ADMISSION_COST_OR_LIMIT"
    "safe_integer (nullish_or (p k) (Num (of_int (DEFAULT_ADMISSION_COST_CONFIG k)))) = Some (cfg k)"
  using resolve_keys_Inr [OF assms [unfolded resolveCostConfig_def], of k] all_cost_keys by auto

section \<open>The estimate in closed form\<close>

lemma add_contributions_closed:
  assumes "tot \<le> mx" and "\<forall>c\<in>set cs. 0 \<le> c"
  shows "add_contributions tot cs mx = (if cs = [] then tot else min mx (tot + sum_list cs))"
  using assms
proof (induction tot cs mx rule: add_contributions.induct)
  case (2 tot c cs mx)
  have nn: "0 \<le> sum_list cs" using "2.prems"(2) by (simp add: sum_list_nonneg)
  show ?case
  proof (cases "addBounded tot c mx = mx")
    case True
    then show ?thesis using nn by (auto simp: addBounded_def min_def split: if_splits)
  next
    case False
    then have a: "addBounded tot c mx = tot + c" "tot + c < mx" by (auto simp: addBounded_def split: if_splits)
    have "add_contributions (tot + c) cs mx = (if cs = [] then tot + c else min mx (tot + c + sum_list cs))"
      using "2.IH" [OF refl] False a "2.prems" by simp
    then show ?thesis using False a by (auto simp: Let_def)
  qed
qed simp

lemma unitsFrom_nonneg: "0 < q \<Longrightarrow> 0 \<le> unitsFrom a q"
  by (auto simp: unitsFrom_def not_le intro: order.strict_trans [of _ "0::rat"])

lemma unitsFrom_mono:
  assumes "0 < q" and "a \<le> b"
  shows "unitsFrom a q \<le> unitsFrom b q"
proof (cases "a \<le> 0")
  case True
  then show ?thesis using unitsFrom_nonneg [OF assms(1), of b] by (simp add: unitsFrom_def)
next
  case False
  then show ?thesis using assms by (auto simp: unitsFrom_def intro!: ceiling_mono divide_right_mono)
qed

lemma contributions_nonneg: "(\<And>k. 0 < cfg k) \<Longrightarrow> c \<in> set (contributions f cfg) \<Longrightarrow> 0 \<le> c"
  by (auto simp: contributions_def Let_def intro: unitsFrom_nonneg less_imp_le)

lemma contributions_not_Nil: "contributions f cfg \<noteq> []"
  by (simp add: contributions_def Let_def)

definition cost_le :: "cost_features \<Rightarrow> cost_features \<Rightarrow> bool" where
  "cost_le f g \<longleftrightarrow> finiteNonNegative (f_bodyBytes f) \<le> finiteNonNegative (f_bodyBytes g)
     \<and> finiteNonNegative (f_estimatedInputTokens f) \<le> finiteNonNegative (f_estimatedInputTokens g)
     \<and> finiteNonNegative (f_messageCount f) \<le> finiteNonNegative (f_messageCount g)
     \<and> finiteNonNegative (f_toolCount f) \<le> finiteNonNegative (f_toolCount g)
     \<and> finiteNonNegative (f_requestedFanout f) \<le> finiteNonNegative (f_requestedFanout g)
     \<and> f_streaming f = f_streaming g"

lemma contributions_mono:
  assumes "\<And>k. 0 < cfg k" and "cost_le f g"
  shows "sum_list (contributions f cfg) \<le> sum_list (contributions g cfg)"
  using assms by (auto simp: contributions_def Let_def cost_le_def intro!: add_mono unitsFrom_mono)

lemma estimate_closed:
  assumes "resolveCostConfig p = Inr cfg"
  shows "estimateAdmissionCost f p =
    Inr (min (cfg MaxRequestCost) (min (cfg BaseCost) (cfg MaxRequestCost) + sum_list (contributions f cfg)))"
  using add_contributions_closed [of "min (cfg BaseCost) (cfg MaxRequestCost)" "cfg MaxRequestCost"
      "contributions f cfg"] contributions_nonneg [of cfg _ f] resolveCostConfig_Inr(1) [OF assms]
    contributions_not_Nil [of f cfg]
  by (simp add: estimateAdmissionCost_def assms)

section \<open>Properties\<close>

text \<open>The estimator, with its early exit and its bounded additions, computes the base cost
  plus the units of every feature, capped at \<open>maxRequestCost\<close>; the result is a positive cost
  within the cap and never decreases when a request grows.\<close>

theorem estimate_is_bounded_sum:
  assumes "resolveCostConfig p = Inr cfg"
  shows "\<exists>c. estimateAdmissionCost f p = Inr c
     \<and> c = min (cfg MaxRequestCost) (cfg BaseCost + sum_list (contributions f cfg))
     \<and> 0 < c \<and> c \<le> cfg MaxRequestCost
     \<and> (\<forall>g d. cost_le f g \<longrightarrow> estimateAdmissionCost g p = Inr d \<longrightarrow> c \<le> d)"
proof -
  have pos: "\<And>k. 0 < cfg k" using resolveCostConfig_Inr(1) [OF assms] .
  have nn: "0 \<le> sum_list (contributions f cfg)"
    using contributions_nonneg [OF pos] by (intro sum_list_nonneg) auto
  have c: "min (cfg MaxRequestCost) (min (cfg BaseCost) (cfg MaxRequestCost) + sum_list (contributions f cfg))
      = min (cfg MaxRequestCost) (cfg BaseCost + sum_list (contributions f cfg))"
    using nn by (auto simp: min_def)
  have "0 < min (cfg MaxRequestCost) (cfg BaseCost + sum_list (contributions f cfg))"
    using nn pos by (simp add: add_pos_nonneg)
  moreover have "min (cfg MaxRequestCost) (cfg BaseCost + sum_list (contributions f cfg)) \<le> d"
    if le: "cost_le f g" and d: "estimateAdmissionCost g p = Inr d" for g d
  proof -
    have "sum_list (contributions f cfg) \<le> sum_list (contributions g cfg)"
      using pos le by (rule contributions_mono)
    moreover have "d = min (cfg MaxRequestCost) (min (cfg BaseCost) (cfg MaxRequestCost) + sum_list (contributions g cfg))"
      using estimate_closed [OF assms, of g] d by simp
    ultimately show ?thesis using c by linarith
  qed
  ultimately show ?thesis using estimate_closed [OF assms, of f] c by auto
qed

definition ex_features :: cost_features where
  "ex_features = \<lparr>f_bodyBytes = Num 20000, f_estimatedInputTokens = Num 5000, f_messageCount = Num 3,
     f_toolCount = Null, f_requestedFanout = Undefined, f_streaming = JBool True\<rparr>"

lemma default_config_resolves:
  "\<exists>cfg. resolveCostConfig (\<lambda>_. Undefined) = Inr cfg \<and> (\<forall>k. cfg k = DEFAULT_ADMISSION_COST_CONFIG k)"
proof -
  have "\<exists>cfg. resolveCostConfig (\<lambda>_. Undefined) = Inr cfg"
    by (simp add: resolveCostConfig_def COST_CONFIG_KEYS_def nullish_or_def requirePositiveSafeInteger_def
        limit_bound_value safe_integer_def MAX_SAFE_INTEGER_def)
  then obtain cfg where c: "resolveCostConfig (\<lambda>_. Undefined) = Inr cfg" ..
  have "cfg k = DEFAULT_ADMISSION_COST_CONFIG k" for k
    using resolveCostConfig_Inr(3) [OF c, of k]
    by (cases k) (simp_all add: nullish_or_def safe_integer_def MAX_SAFE_INTEGER_def)
  with c show ?thesis by blast
qed

lemma estimate_is_bounded_sum_witness:
  "estimateAdmissionCost ex_features (\<lambda>_. Undefined) = Inr 11"
proof -
  obtain cfg where c: "resolveCostConfig (\<lambda>_. Undefined) = Inr cfg"
    and d: "\<forall>k. cfg k = DEFAULT_ADMISSION_COST_CONFIG k" using default_config_resolves by blast
  have "cfg = DEFAULT_ADMISSION_COST_CONFIG" using d by (intro ext) simp
  moreover have "contributions ex_features DEFAULT_ADMISSION_COST_CONFIG = [2, 5, 1, 0, 1, 1]"
    by code_simp
  ultimately show ?thesis using estimate_is_bounded_sum [OF c, of ex_features] d by simp
qed


section \<open>Accepted configurations\<close>

definition adaptation_ok :: "adaptation_params \<Rightarrow> bool" where
  "adaptation_ok a \<longleftrightarrow> 0 < ap_criticalDecreaseFactor a \<and> ap_criticalDecreaseFactor a \<le> ap_decreaseFactor a
     \<and> ap_decreaseFactor a < 1
     \<and> 0 < ap_increaseStep a \<and> ap_increaseStep a \<le> MAX_ADMISSION_COST_OR_LIMIT
     \<and> 0 < ap_maxIncreasePerWindow a \<and> ap_maxIncreasePerWindow a \<le> MAX_ADMISSION_COST_OR_LIMIT
     \<and> 0 < ap_longLatencyAlpha a \<and> ap_longLatencyAlpha a < ap_shortLatencyAlpha a \<and> ap_shortLatencyAlpha a \<le> 1
     \<and> 0 < ap_lowUtilizationThreshold a \<and> ap_lowUtilizationThreshold a < ap_highUtilizationThreshold a
     \<and> ap_highUtilizationThreshold a \<le> 1
     \<and> 0 < ap_latencyGradientThreshold a \<and> ap_latencyGradientThreshold a \<le> 1"

definition limits_ok :: "adaptation_params \<Rightarrow> bool" where
  "limits_ok a \<longleftrightarrow> 0 < ap_minLimit a \<and> ap_minLimit a \<le> ap_maxLimit a \<and> ap_maxLimit a \<le> MAX_ADMISSION_COST_OR_LIMIT
     \<and> 0 < ap_windowMs a \<and> ap_windowMs a \<le> MAX_ADMISSION_WINDOW_MS"

definition config_ok :: "validated_config \<Rightarrow> bool" where
  "config_ok v \<longleftrightarrow> limits_ok (v_adaptation v) \<and> adaptation_ok (v_adaptation v)
     \<and> v_minLimit v = ap_minLimit (v_adaptation v) \<and> v_maxLimit v = ap_maxLimit (v_adaptation v)
     \<and> v_windowMs v = ap_windowMs (v_adaptation v)
     \<and> 0 < v_initialLimit v \<and> v_initialLimit v \<le> MAX_ADMISSION_COST_OR_LIMIT
     \<and> 0 < v_maxQueueCount v \<and> v_maxQueueCount v \<le> MAX_SAFE_INTEGER
     \<and> 0 < v_maxQueueCost v \<and> v_maxQueueCost v \<le> MAX_ADMISSION_COST_OR_LIMIT
     \<and> 0 < v_defaultMaxWaitMs v \<and> v_defaultMaxWaitMs v \<le> MAX_ADMISSION_WINDOW_MS
     \<and> (\<forall>k. 0 < v_costConfig v k \<and> v_costConfig v k \<le> MAX_ADMISSION_COST_OR_LIMIT)
     \<and> v_maxRequestCost v = v_costConfig v MaxRequestCost"

text \<open>The input that spells out every field of a configuration.\<close>

definition config_input :: "validated_config \<Rightarrow> admission_input" where
  "config_input v = (let a = v_adaptation v; n = (\<lambda>x. Num (of_int x)) in
     \<lparr>i_mode = Str (case v_mode v of ModeOff \<Rightarrow> ''off'' | ModeShadow \<Rightarrow> ''shadow'' | ModeEnforce \<Rightarrow> ''enforce''),
      i_minLimit = n (v_minLimit v), i_maxLimit = n (v_maxLimit v), i_initialLimit = n (v_initialLimit v),
      i_maxQueueCount = n (v_maxQueueCount v), i_maxQueueCost = n (v_maxQueueCost v),
      i_defaultMaxWaitMs = n (v_defaultMaxWaitMs v), i_windowMs = n (v_windowMs v),
      i_shortLatencyAlpha = Num (ap_shortLatencyAlpha a), i_longLatencyAlpha = Num (ap_longLatencyAlpha a),
      i_increaseStep = n (ap_increaseStep a), i_decreaseFactor = Num (ap_decreaseFactor a),
      i_criticalDecreaseFactor = Num (ap_criticalDecreaseFactor a),
      i_highUtilizationThreshold = Num (ap_highUtilizationThreshold a),
      i_lowUtilizationThreshold = Num (ap_lowUtilizationThreshold a),
      i_latencyGradientThreshold = Num (ap_latencyGradientThreshold a),
      i_maxIncreasePerWindow = n (ap_maxIncreasePerWindow a),
      i_cost = (\<lambda>k. n (v_costConfig v k)), i_virtualLanes = JBool (v_virtualLanes v)\<rparr>)"

lemma resolveAdaptationParams_ok:
  assumes "resolveAdaptationParams i mn mx w = Inr a"
  shows "adaptation_ok a" "ap_minLimit a = mn" "ap_maxLimit a = mx" "ap_windowMs a = w"
proof -
  have opt: "0 < n \<and> n \<le> MAX_ADMISSION_COST_OR_LIMIT"
    if "(if v = Undefined then Inr d else requirePositiveInt nm v MAX_ADMISSION_COST_OR_LIMIT) = Inr n"
      "0 < d" "d \<le> MAX_ADMISSION_COST_OR_LIMIT" for v :: jsval and d n nm
    using that by (auto simp: requirePositiveInt_eq requirePositive_Inr split: if_splits)
  have fac: "0 < r \<and> r < 1" if "requireDecreaseFactor nm v d = Inr r" "0 < d" "d < 1" for nm v d r
    using that by (auto simp: requireDecreaseFactor_Inr)
  have unit: "0 < r \<and> r \<le> 1" if "requireUnitInterval nm v d = Inr r" "0 < d" "d < 1" for nm v d r
    using that by (auto simp: requireUnitInterval_Inr)
  from assms obtain decr critical st mxinc short long high low grad where
    s: "requireDecreaseFactor ''decreaseFactor'' (i_decreaseFactor i) (4 / 5) = Inr decr"
      "requireDecreaseFactor ''criticalDecreaseFactor'' (i_criticalDecreaseFactor i) (1 / 2) = Inr critical"
      "(if i_increaseStep i = Undefined then Inr 1
        else requirePositiveInt ''increaseStep'' (i_increaseStep i) MAX_ADMISSION_COST_OR_LIMIT) = Inr st"
      "(if i_maxIncreasePerWindow i = Undefined then Inr st
        else requirePositiveInt ''maxIncreasePerWindow'' (i_maxIncreasePerWindow i)
                   MAX_ADMISSION_COST_OR_LIMIT) = Inr mxinc"
      "requireUnitInterval ''shortLatencyAlpha'' (i_shortLatencyAlpha i) (1 / 2) = Inr short"
      "requireUnitInterval ''longLatencyAlpha'' (i_longLatencyAlpha i) (1 / 10) = Inr long"
      "requireUnitInterval ''highUtilizationThreshold'' (i_highUtilizationThreshold i) (7 / 10) = Inr high"
      "requireUnitInterval ''lowUtilizationThreshold'' (i_lowUtilizationThreshold i) (3 / 10) = Inr low"
      "requireUnitInterval ''latencyGradientThreshold'' (i_latencyGradientThreshold i) (1 / 4) = Inr grad"
    and r: "\<not> critical > decr" "\<not> low \<ge> high" "\<not> short \<le> long"
    and a: "a = \<lparr>ap_minLimit = mn, ap_maxLimit = mx, ap_windowMs = w,
            ap_shortLatencyAlpha = short, ap_longLatencyAlpha = long, ap_increaseStep = st,
            ap_decreaseFactor = decr, ap_criticalDecreaseFactor = critical,
            ap_highUtilizationThreshold = high, ap_lowUtilizationThreshold = low,
            ap_latencyGradientThreshold = grad, ap_maxIncreasePerWindow = mxinc\<rparr>"
    unfolding resolveAdaptationParams_def
    by (elim bindE_InrE throw_ifE) (rule that, assumption+, drule sum.inject(2) [THEN iffD1], erule sym)
  have st: "0 < st \<and> st \<le> MAX_ADMISSION_COST_OR_LIMIT"
    using opt [OF s(3)] by (simp add: limit_bound_value)
  have mi: "0 < mxinc \<and> mxinc \<le> MAX_ADMISSION_COST_OR_LIMIT" using opt [OF s(4)] st by simp
  show "adaptation_ok a" "ap_minLimit a = mn" "ap_maxLimit a = mx" "ap_windowMs a = w"
    using fac [OF s(1)] fac [OF s(2)] unit [OF s(5)] unit [OF s(6)] unit [OF s(7)] unit [OF s(8)] unit [OF s(9)]
      st mi r by (simp_all add: a adaptation_ok_def)
qed


lemma validateConfig_ok:
  assumes "validateConfig i = Inr v"
  shows "config_ok v"
proof -
  have opt: "0 < n \<and> n \<le> MAX_ADMISSION_WINDOW_MS"
    if "(if v = Undefined then Inr d else requirePositiveInt nm v MAX_ADMISSION_WINDOW_MS) = Inr n"
      "0 < d" "d \<le> MAX_ADMISSION_WINDOW_MS" for v :: jsval and d n nm
    using that by (auto simp: requirePositiveInt_eq requirePositive_Inr split: if_splits)
  from assms obtain mn mx ini qc qk w wt cost m ap where
    s: "requirePositiveInt ''minLimit'' (i_minLimit i) MAX_ADMISSION_COST_OR_LIMIT = Inr mn"
      "requirePositiveInt ''maxLimit'' (i_maxLimit i) MAX_ADMISSION_COST_OR_LIMIT = Inr mx"
      "requirePositiveInt ''initialLimit'' (i_initialLimit i) MAX_ADMISSION_COST_OR_LIMIT = Inr ini"
      "requirePositiveInt ''maxQueueCount'' (i_maxQueueCount i) MAX_SAFE_INTEGER = Inr qc"
      "requirePositiveInt ''maxQueueCost'' (i_maxQueueCost i) MAX_ADMISSION_COST_OR_LIMIT = Inr qk"
      "(if i_windowMs i = Undefined then Inr 1000
            else requirePositiveInt ''windowMs'' (i_windowMs i) MAX_ADMISSION_WINDOW_MS) = Inr w"
      "(if i_defaultMaxWaitMs i = Undefined then Inr 5000
            else requirePositiveInt ''defaultMaxWaitMs'' (i_defaultMaxWaitMs i) MAX_ADMISSION_WINDOW_MS) = Inr wt"
      "resolveCostConfig (i_cost i) = Inr cost"
      "resolveAdaptationParams i mn mx w = Inr ap"
    and le: "\<not> mn > mx"
    and v: "v = \<lparr>v_mode = m, v_minLimit = mn, v_maxLimit = mx, v_initialLimit = ini,
            v_maxQueueCount = qc, v_maxQueueCost = qk, v_defaultMaxWaitMs = wt,
            v_windowMs = w, v_adaptation = ap, v_maxRequestCost = cost MaxRequestCost,
            v_costConfig = cost, v_virtualLanes = (i_virtualLanes i = JBool True)\<rparr>"
    unfolding validateConfig_def
    by (elim bindE_InrE throw_ifE) (rule that, assumption+, drule sum.inject(2) [THEN iffD1], erule sym)
  note A = resolveAdaptationParams_ok [OF s(9)]
  have p: "0 < mn" "mn \<le> MAX_ADMISSION_COST_OR_LIMIT" "0 < mx" "mx \<le> MAX_ADMISSION_COST_OR_LIMIT"
    "0 < ini" "ini \<le> MAX_ADMISSION_COST_OR_LIMIT" "0 < qc" "qc \<le> MAX_SAFE_INTEGER"
    "0 < qk" "qk \<le> MAX_ADMISSION_COST_OR_LIMIT"
    using s(1-5) by (simp_all add: requirePositiveInt_eq requirePositive_Inr)
  have w: "0 < w \<and> w \<le> MAX_ADMISSION_WINDOW_MS" "0 < wt \<and> wt \<le> MAX_ADMISSION_WINDOW_MS"
    using opt [OF s(6)] opt [OF s(7)] by (simp_all add: MAX_ADMISSION_WINDOW_MS_def)
  show ?thesis using A p w le resolveCostConfig_Inr(1,2) [OF s(8)]
    by (simp add: config_ok_def v limits_ok_def)
qed

lemma resolveCost_explicit:
  assumes "\<And>k. 0 < c k" "\<And>k. c k \<le> MAX_ADMISSION_COST_OR_LIMIT"
  shows "resolveCostConfig (\<lambda>k. Num (of_int (c k))) = Inr c"
proof -
  have safe: "safe_integer (Num (of_int (c k))) = Some (c k)" for k
    using assms [of k] by (simp add: limit_bound_value MAX_SAFE_INTEGER_def)
  have one: "requirePositiveSafeInteger nm (nullish_or (Num (of_int (c k))) d) MAX_ADMISSION_COST_OR_LIMIT = Inr (c k)"
    for nm k d using assms [of k] safe [of k] by (simp add: requirePositive_Inr nullish_or_def)
  have "resolve_keys (\<lambda>k. Num (of_int (c k))) ks c0 = Inr (\<lambda>k. if k \<in> set ks then c k else c0 k)" for ks c0
    by (induction ks arbitrary: c0) (auto simp: one)
  then show ?thesis by (simp add: resolveCostConfig_def all_cost_keys)
qed

text \<open>C40. A configuration accepted by the validator satisfies every relation the controller
  relies on, so that a full window at the highest limit stays an exact integer; and the
  validator accepts every such configuration, unchanged.\<close>

theorem validation_is_exact:
  "(\<forall>i v. validateConfig i = Inr v \<longrightarrow> config_ok v \<and> v_maxLimit v * v_windowMs v \<le> MAX_SAFE_INTEGER)
   \<and> (\<forall>v. config_ok v \<longrightarrow> validateConfig (config_input v) = Inr v)"
proof (intro conjI allI impI)
  fix i v assume "validateConfig i = Inr v"
  then show ok: "config_ok v" by (rule validateConfig_ok)
  have "v_maxLimit v * v_windowMs v \<le> MAX_ADMISSION_COST_OR_LIMIT * MAX_ADMISSION_WINDOW_MS"
    using ok by (intro mult_mono) (auto simp: config_ok_def limits_ok_def)
  then show "v_maxLimit v * v_windowMs v \<le> MAX_SAFE_INTEGER"
    by (simp add: limit_bound_value MAX_ADMISSION_WINDOW_MS_def MAX_SAFE_INTEGER_def)
next
  fix v assume ok: "config_ok v"
  have c: "resolveCostConfig (\<lambda>k. Num (of_int (v_costConfig v k))) = Inr (v_costConfig v)"
    using ok by (intro resolveCost_explicit) (simp_all add: config_ok_def)
  have i: "requirePositiveInt nm (Num (of_int n)) mx = Inr n" if "0 < n" "n \<le> mx" "mx \<le> MAX_SAFE_INTEGER" for nm n mx
    using that by (simp add: requirePositiveInt_eq requirePositive_Inr)
  have b: "MAX_ADMISSION_COST_OR_LIMIT \<le> MAX_SAFE_INTEGER" "MAX_ADMISSION_WINDOW_MS \<le> MAX_SAFE_INTEGER"
    by (simp_all add: limit_bound_value MAX_SAFE_INTEGER_def MAX_ADMISSION_WINDOW_MS_def)
  have a: "resolveAdaptationParams (config_input v) (v_minLimit v) (v_maxLimit v) (v_windowMs v) = Inr (v_adaptation v)"
    using ok b by (simp add: resolveAdaptationParams_def config_input_def Let_def config_ok_def adaptation_ok_def
        i requireDecreaseFactor_def requireUnitInterval_def)
  have m: "resolveMode (i_mode (config_input v)) = Inr (v_mode v)"
    by (cases "v_mode v") (simp_all add: config_input_def Let_def resolveMode_def)
  let ?i = "config_input v"
  have f: "i_windowMs ?i \<noteq> Undefined" "i_defaultMaxWaitMs ?i \<noteq> Undefined"
    "i_virtualLanes ?i = JBool (v_virtualLanes v)" by (simp_all add: config_input_def Let_def)
  have r: "requirePositiveInt nm (i_minLimit ?i) MAX_ADMISSION_COST_OR_LIMIT = Inr (v_minLimit v)"
    "requirePositiveInt nm (i_maxLimit ?i) MAX_ADMISSION_COST_OR_LIMIT = Inr (v_maxLimit v)"
    "requirePositiveInt nm (i_initialLimit ?i) MAX_ADMISSION_COST_OR_LIMIT = Inr (v_initialLimit v)"
    "requirePositiveInt nm (i_maxQueueCount ?i) MAX_SAFE_INTEGER = Inr (v_maxQueueCount v)"
    "requirePositiveInt nm (i_maxQueueCost ?i) MAX_ADMISSION_COST_OR_LIMIT = Inr (v_maxQueueCost v)"
    "requirePositiveInt nm (i_windowMs ?i) MAX_ADMISSION_WINDOW_MS = Inr (v_windowMs v)"
    "requirePositiveInt nm (i_defaultMaxWaitMs ?i) MAX_ADMISSION_WINDOW_MS = Inr (v_defaultMaxWaitMs v)"
    "resolveCostConfig (i_cost ?i) = Inr (v_costConfig v)" for nm
    using ok b by (simp_all add: config_ok_def limits_ok_def config_input_def Let_def i c)
  have le: "\<not> v_minLimit v > v_maxLimit v" and mc: "v_maxRequestCost v = v_costConfig v MaxRequestCost"
    using ok by (simp_all add: config_ok_def limits_ok_def)
  show "validateConfig ?i = Inr v"
    unfolding validateConfig_def r a m bindE_simps if_not_P [OF le] if_not_P [OF f(1)] if_not_P [OF f(2)] f(3)
    by (simp add: mc [symmetric])
qed

definition ex_config :: validated_config where
  "ex_config = \<lparr>v_mode = ModeEnforce, v_minLimit = 2, v_maxLimit = 10, v_initialLimit = 6, v_maxQueueCount = 4,
     v_maxQueueCost = 20, v_defaultMaxWaitMs = 5000, v_windowMs = 1000,
     v_adaptation = \<lparr>ap_minLimit = 2, ap_maxLimit = 10, ap_windowMs = 1000, ap_shortLatencyAlpha = 1 / 2,
        ap_longLatencyAlpha = 1 / 10, ap_increaseStep = 1, ap_decreaseFactor = 4 / 5,
        ap_criticalDecreaseFactor = 1 / 2, ap_highUtilizationThreshold = 7 / 10,
        ap_lowUtilizationThreshold = 3 / 10, ap_latencyGradientThreshold = 1 / 4, ap_maxIncreasePerWindow = 1\<rparr>,
     v_maxRequestCost = 1000, v_costConfig = DEFAULT_ADMISSION_COST_CONFIG, v_virtualLanes = False\<rparr>"

lemma ex_config_ok: "config_ok ex_config"
proof -
  have "0 < DEFAULT_ADMISSION_COST_CONFIG k \<and> DEFAULT_ADMISSION_COST_CONFIG k \<le> 104249991" for k
    by (cases k) simp_all
  then show ?thesis
    by (simp add: ex_config_def config_ok_def limits_ok_def adaptation_ok_def limit_bound_value
        MAX_ADMISSION_WINDOW_MS_def MAX_SAFE_INTEGER_def)
qed

lemma validation_is_exact_witness:
  "validateConfig (config_input ex_config) = Inr ex_config"
  using validation_is_exact ex_config_ok by blast

end
