(* ===== verification/AdmissionAdaptation.thy ===== *)
theory AdmissionAdaptation
  imports AdmissionCost
begin

text \<open>
  The feedback loop that adjusts the aggregate concurrency limit,
  \<open>open-sse/services/admission/adaptation.ts\<close>.

  Limits, counts and the cost-time integral are integers; averages, factors and utilization are
  exact rationals. The state object is updated functionally.
\<close>

datatype pressure = PNormal | PHigh | PCritical

fun severity :: "pressure \<Rightarrow> nat" where
  "severity PNormal = 0"
| "severity PHigh = 1"
| "severity PCritical = 2"

text \<open>Pressures are ordered by severity.\<close>

instantiation pressure :: linorder
begin

definition less_eq_pressure :: "pressure \<Rightarrow> pressure \<Rightarrow> bool" where
  "less_eq_pressure p q \<longleftrightarrow> severity p \<le> severity q"

definition less_pressure :: "pressure \<Rightarrow> pressure \<Rightarrow> bool" where
  "less_pressure p q \<longleftrightarrow> severity p < severity q"

instance
proof
  fix x y :: pressure
  show "x \<le> y \<Longrightarrow> y \<le> x \<Longrightarrow> x = y"
    by (cases x; cases y) (simp_all add: less_eq_pressure_def)
qed (auto simp: less_eq_pressure_def less_pressure_def)

end

datatype release_outcome = OSuccess | OUpstreamError | OTimeout | OLocalReject | OCancelled

record adaptation_state =
  s_currentLimit :: int
  s_recoveryCeiling :: int
  s_shortLatencyEwma :: rat
  s_longLatencyEwma :: rat
  s_pressure :: pressure
  s_windowActiveCostIntegral :: int
  s_windowCompleted :: int
  s_windowLatencySamples :: int
  s_windowStartMs :: int
  s_freezeGrowth :: bool
  s_criticalDecreaseConsumed :: bool
  s_utilization :: rat

section \<open>Operations\<close>

definition clampLimit :: "rat \<Rightarrow> int \<Rightarrow> int \<Rightarrow> int" where
  "clampLimit v minLimit maxLimit = min maxLimit (max minLimit \<lfloor>v\<rfloor>)"

definition createAdaptationState :: "int \<Rightarrow> int \<Rightarrow> int \<Rightarrow> int \<Rightarrow> adaptation_state" where
  "createAdaptationState initialLimit minLimit maxLimit nowMs =
     \<lparr>s_currentLimit = clampLimit (of_int initialLimit) minLimit maxLimit,
      s_recoveryCeiling = clampLimit (of_int initialLimit) minLimit maxLimit,
      s_shortLatencyEwma = 0, s_longLatencyEwma = 0, s_pressure = PNormal,
      s_windowActiveCostIntegral = 0, s_windowCompleted = 0, s_windowLatencySamples = 0,
      s_windowStartMs = nowMs, s_freezeGrowth = False, s_criticalDecreaseConsumed = False,
      s_utilization = 0\<rparr>"

definition noteLatency :: "adaptation_params \<Rightarrow> jsval \<Rightarrow> adaptation_state \<Rightarrow> adaptation_state" where
  "noteLatency params latencyMs s0 =
     (let sample = (case latencyMs of Num r \<Rightarrow> if r \<ge> 0 then r else 0 | _ \<Rightarrow> 0);
          s = s0\<lparr>s_windowLatencySamples := s_windowLatencySamples s0 + 1\<rparr>;
          sa = ap_shortLatencyAlpha params;
          la = ap_longLatencyAlpha params
      in if s_shortLatencyEwma s \<le> 0 \<and> s_longLatencyEwma s \<le> 0
         then s\<lparr>s_shortLatencyEwma := sample, s_longLatencyEwma := sample\<rparr>
         else s\<lparr>s_shortLatencyEwma := sa * sample + (1 - sa) * s_shortLatencyEwma s,
                s_longLatencyEwma := la * sample + (1 - la) * s_longLatencyEwma s\<rparr>)"

definition noteOutcome :: "release_outcome \<Rightarrow> adaptation_state \<Rightarrow> adaptation_state" where
  "noteOutcome oc s =
     (if oc = OUpstreamError then s\<lparr>s_freezeGrowth := True\<rparr>
      else if oc = OTimeout then s\<lparr>s_freezeGrowth := True\<rparr>
      else s)"

definition setPressure :: "pressure \<Rightarrow> adaptation_state \<Rightarrow> adaptation_state" where
  "setPressure p s = (if severity p > severity (s_pressure s) then s\<lparr>s_pressure := p\<rparr> else s)"

definition applyIdleRecovery :: "adaptation_params \<Rightarrow> int \<Rightarrow> adaptation_state \<Rightarrow> int" where
  "applyIdleRecovery params nxt s =
     (if s_pressure s \<noteq> PCritical \<and> \<not> s_freezeGrowth s \<and> s_windowCompleted s = 0
         \<and> s_currentLimit s < s_recoveryCeiling s
      then min (s_recoveryCeiling s) (nxt + min (ap_increaseStep params) (ap_maxIncreasePerWindow params))
      else nxt)"

definition window_utilization :: "adaptation_params \<Rightarrow> int \<Rightarrow> adaptation_state \<Rightarrow> rat" where
  "window_utilization params nowMs s =
     (let elapsed = max 1 (min (ap_windowMs params) (nowMs - s_windowStartMs s));
          avgActive = of_int (s_windowActiveCostIntegral s) / of_int elapsed;
          util = (if s_currentLimit s > 0 then avgActive / of_int (s_currentLimit s) else 0)
      in max 0 (min 1 util))"

definition latency_gradient :: "adaptation_state \<Rightarrow> rat" where
  "latency_gradient s = (if s_longLatencyEwma s > 0
     then (s_shortLatencyEwma s - s_longLatencyEwma s) / s_longLatencyEwma s else 0)"

text \<open>The branch on pressure, gradient and utilization.\<close>

definition next_limit :: "adaptation_params \<Rightarrow> adaptation_state \<Rightarrow> int" where
  "next_limit params s =
     (if s_pressure s = PCritical
      then (if \<not> s_criticalDecreaseConsumed s
            then \<lfloor>of_int (s_currentLimit s) * ap_criticalDecreaseFactor params\<rfloor>
            else s_currentLimit s)
      else if s_pressure s = PHigh
              \<or> s_windowLatencySamples s > 0 \<and> latency_gradient s \<ge> ap_latencyGradientThreshold params
      then \<lfloor>of_int (s_currentLimit s) * ap_decreaseFactor params\<rfloor>
      else if \<not> s_freezeGrowth s \<and> s_pressure s = PNormal
              \<and> s_utilization s \<ge> ap_highUtilizationThreshold params \<and> s_windowCompleted s > 0
      then s_currentLimit s + min (ap_increaseStep params) (ap_maxIncreasePerWindow params)
      else s_currentLimit s)"

definition closeAdaptationWindow :: "adaptation_params \<Rightarrow> int \<Rightarrow> adaptation_state \<Rightarrow> adaptation_state" where
  "closeAdaptationWindow params nowMs s0 =
     (let s1 = s0\<lparr>s_utilization := window_utilization params nowMs s0\<rparr>;
          nxt = next_limit params s1;
          (s2, nxt2) =
            (if s_utilization s1 \<le> ap_lowUtilizationThreshold params
             then (let s = s1\<lparr>s_shortLatencyEwma := s_longLatencyEwma s1\<rparr>
                   in (s, applyIdleRecovery params nxt s))
             else (s1, nxt))
      in s2\<lparr>s_currentLimit := clampLimit (of_int nxt2) (ap_minLimit params) (ap_maxLimit params),
            s_windowActiveCostIntegral := 0, s_windowCompleted := 0, s_windowLatencySamples := 0,
            s_windowStartMs := nowMs, s_freezeGrowth := False, s_criticalDecreaseConsumed := False,
            s_pressure := PNormal\<rparr>)"

definition sampleActiveIntegral :: "int \<Rightarrow> int \<Rightarrow> adaptation_state \<Rightarrow> adaptation_state" where
  "sampleActiveIntegral activeCost dtMs s =
     (if dtMs \<le> 0 \<or> activeCost \<le> 0 then s
      else (let bounded = min activeCost (s_currentLimit s);
                contribution = (if dtMs > MAX_SAFE_INTEGER div bounded then MAX_SAFE_INTEGER
                                else bounded * dtMs)
            in s\<lparr>s_windowActiveCostIntegral :=
                   (if contribution \<ge> MAX_SAFE_INTEGER - s_windowActiveCostIntegral s then MAX_SAFE_INTEGER
                    else s_windowActiveCostIntegral s + contribution)\<rparr>))"

section \<open>The invariant\<close>

lemma setPressure_max: "s_pressure (setPressure p s) = max p (s_pressure s)"
  by (simp add: setPressure_def max_def less_eq_pressure_def)

lemma clampLimit_range: "mn \<le> mx \<Longrightarrow> mn \<le> clampLimit v mn mx \<and> clampLimit v mn mx \<le> mx"
  by (simp add: clampLimit_def)

lemma clampLimit_int: "clampLimit (of_int n) mn mx = min mx (max mn n)"
  by (simp add: clampLimit_def)

definition adapt_inv :: "adaptation_params \<Rightarrow> adaptation_state \<Rightarrow> bool" where
  "adapt_inv params s \<longleftrightarrow> ap_minLimit params \<le> s_currentLimit s \<and> s_currentLimit s \<le> ap_maxLimit params
     \<and> ap_minLimit params \<le> s_recoveryCeiling s \<and> s_recoveryCeiling s \<le> ap_maxLimit params
     \<and> 0 \<le> s_shortLatencyEwma s \<and> 0 \<le> s_longLatencyEwma s
     \<and> 0 \<le> s_windowActiveCostIntegral s \<and> s_windowActiveCostIntegral s \<le> MAX_SAFE_INTEGER
     \<and> 0 \<le> s_windowCompleted s \<and> 0 \<le> s_windowLatencySamples s
     \<and> 0 \<le> s_utilization s \<and> s_utilization s \<le> 1"

datatype adapt_event = ELatency jsval | EOutcome release_outcome | EPressure pressure
  | ECompleted | EClose int | ESample int int

fun adapt_step :: "adaptation_params \<Rightarrow> adaptation_state \<Rightarrow> adapt_event \<Rightarrow> adaptation_state" where
  "adapt_step ps s (ELatency l) = noteLatency ps l s"
| "adapt_step ps s (EOutcome oc) = noteOutcome oc s"
| "adapt_step ps s (EPressure p) = setPressure p s"
| "adapt_step ps s ECompleted = s\<lparr>s_windowCompleted := s_windowCompleted s + 1\<rparr>"
| "adapt_step ps s (EClose now) = closeAdaptationWindow ps now s"
| "adapt_step ps s (ESample c dt) = sampleActiveIntegral c dt s"

definition params_ok :: "adaptation_params \<Rightarrow> bool" where
  "params_ok a \<longleftrightarrow> limits_ok a \<and> adaptation_ok a"

lemma create_inv:
  "params_ok ps \<Longrightarrow> adapt_inv ps (createAdaptationState i (ap_minLimit ps) (ap_maxLimit ps) now)"
  by (simp add: adapt_inv_def createAdaptationState_def clampLimit_range params_ok_def limits_ok_def)

lemma noteLatency_inv: "params_ok ps \<Longrightarrow> adapt_inv ps s \<Longrightarrow> adapt_inv ps (noteLatency ps l s)"
  by (auto simp: adapt_inv_def noteLatency_def Let_def params_ok_def adaptation_ok_def
      split: jsval.splits intro!: add_nonneg_nonneg mult_nonneg_nonneg)

lemma window_utilization_range: "0 \<le> window_utilization ps now s \<and> window_utilization ps now s \<le> 1"
  by (simp add: window_utilization_def Let_def)

lemma closeAdaptationWindow_fields:
  "s_recoveryCeiling (closeAdaptationWindow ps now s) = s_recoveryCeiling s"
  "s_longLatencyEwma (closeAdaptationWindow ps now s) = s_longLatencyEwma s"
  "s_shortLatencyEwma (closeAdaptationWindow ps now s) \<in> {s_shortLatencyEwma s, s_longLatencyEwma s}"
  "s_windowActiveCostIntegral (closeAdaptationWindow ps now s) = 0"
  "s_windowCompleted (closeAdaptationWindow ps now s) = 0"
  "s_windowLatencySamples (closeAdaptationWindow ps now s) = 0"
  "s_windowStartMs (closeAdaptationWindow ps now s) = now"
  "\<not> s_freezeGrowth (closeAdaptationWindow ps now s)"
  "s_pressure (closeAdaptationWindow ps now s) = PNormal"
  "s_utilization (closeAdaptationWindow ps now s) = window_utilization ps now s"
  by (simp_all add: closeAdaptationWindow_def Let_def)

lemma closeAdaptationWindow_limit_range:
  "ap_minLimit ps \<le> ap_maxLimit ps \<Longrightarrow>
   ap_minLimit ps \<le> s_currentLimit (closeAdaptationWindow ps now s)
   \<and> s_currentLimit (closeAdaptationWindow ps now s) \<le> ap_maxLimit ps"
  by (simp add: closeAdaptationWindow_def Let_def clampLimit_range)

lemma closeAdaptationWindow_inv:
  "params_ok ps \<Longrightarrow> adapt_inv ps s \<Longrightarrow> adapt_inv ps (closeAdaptationWindow ps now s)"
  using closeAdaptationWindow_limit_range [of ps now s] closeAdaptationWindow_fields(3) [of ps now s]
  by (auto simp: adapt_inv_def closeAdaptationWindow_fields window_utilization_range params_ok_def limits_ok_def)

lemma sampleActiveIntegral_inv:
  assumes "params_ok ps" and "adapt_inv ps s"
  shows "adapt_inv ps (sampleActiveIntegral c dt s)"
  using assms by (auto simp: adapt_inv_def sampleActiveIntegral_def Let_def params_ok_def limits_ok_def)

lemma adapt_step_inv: "params_ok ps \<Longrightarrow> adapt_inv ps s \<Longrightarrow> adapt_inv ps (adapt_step ps s e)"
  by (cases e)
     (simp_all add: noteLatency_inv closeAdaptationWindow_inv sampleActiveIntegral_inv,
      simp_all add: adapt_inv_def noteOutcome_def setPressure_def)

interpretation adapt: machine "adapt_step ps" "\<lambda>s. params_ok ps \<and> adapt_inv ps s" for ps
  by unfold_locales (simp add: adapt_step_inv)


section \<open>One window\<close>

abbreviation grow_step :: "adaptation_params \<Rightarrow> int" where
  "grow_step ps \<equiv> min (ap_increaseStep ps) (ap_maxIncreasePerWindow ps)"

lemma close_limit:
  "s_currentLimit (closeAdaptationWindow ps now s) =
     (let s1 = s\<lparr>s_utilization := window_utilization ps now s\<rparr>;
          n = next_limit ps s1
      in min (ap_maxLimit ps) (max (ap_minLimit ps)
           (if window_utilization ps now s \<le> ap_lowUtilizationThreshold ps
            then applyIdleRecovery ps n s1 else n)))"
  by (simp add: closeAdaptationWindow_def Let_def clampLimit_int applyIdleRecovery_def)

lemma floor_factor:
  assumes "0 \<le> L" and "0 < r" and "(r::rat) < 1"
  shows "\<lfloor>of_int L * r\<rfloor> \<le> (L::int)"
proof -
  have "of_int L * r \<le> (of_int L :: rat)" using assms by (simp add: mult_left_le)
  then show ?thesis by (simp add: floor_le_iff)
qed

lemma floor_factor_mono:
  assumes "0 \<le> (L::int)" and "(r::rat) \<le> r'"
  shows "\<lfloor>of_int L * r\<rfloor> \<le> \<lfloor>of_int L * r'\<rfloor>"
  using assms by (intro floor_mono mult_left_mono) auto

lemma next_limit_bounds:
  assumes "params_ok ps" and "adapt_inv ps s"
  shows "\<lfloor>of_int (s_currentLimit s) * ap_criticalDecreaseFactor ps\<rfloor> \<le> next_limit ps s"
    "next_limit ps s \<le> s_currentLimit s + grow_step ps"
    "next_limit ps s < s_currentLimit s \<Longrightarrow> s_pressure s \<noteq> PNormal
        \<or> s_windowLatencySamples s > 0 \<and> latency_gradient s \<ge> ap_latencyGradientThreshold ps"
    "s_currentLimit s < next_limit ps s \<Longrightarrow> s_pressure s = PNormal \<and> \<not> s_freezeGrowth s
        \<and> s_utilization s \<ge> ap_highUtilizationThreshold ps \<and> s_windowCompleted s > 0"
    "s_pressure s \<noteq> PNormal \<Longrightarrow> next_limit ps s \<le> s_currentLimit s"
proof -
  have L: "0 \<le> s_currentLimit s" using assms by (simp add: adapt_inv_def params_ok_def limits_ok_def)
  have a: "0 < ap_criticalDecreaseFactor ps" "ap_criticalDecreaseFactor ps \<le> ap_decreaseFactor ps"
    "ap_decreaseFactor ps < 1" "0 < grow_step ps"
    using assms by (simp_all add: params_ok_def adaptation_ok_def)
  note f = floor_factor [OF L, of "ap_criticalDecreaseFactor ps"] floor_factor [OF L, of "ap_decreaseFactor ps"]
    floor_factor_mono [OF L a(2)]
  show "\<lfloor>of_int (s_currentLimit s) * ap_criticalDecreaseFactor ps\<rfloor> \<le> next_limit ps s"
    "next_limit ps s \<le> s_currentLimit s + grow_step ps"
    "next_limit ps s < s_currentLimit s \<Longrightarrow> s_pressure s \<noteq> PNormal
        \<or> s_windowLatencySamples s > 0 \<and> latency_gradient s \<ge> ap_latencyGradientThreshold ps"
    "s_currentLimit s < next_limit ps s \<Longrightarrow> s_pressure s = PNormal \<and> \<not> s_freezeGrowth s
        \<and> s_utilization s \<ge> ap_highUtilizationThreshold ps \<and> s_windowCompleted s > 0"
    "s_pressure s \<noteq> PNormal \<Longrightarrow> next_limit ps s \<le> s_currentLimit s"
    using f a L by (auto simp: next_limit_def split: if_splits)
qed

lemma adapt_inv_util: "adapt_inv ps s \<Longrightarrow> adapt_inv ps (s\<lparr>s_utilization := window_utilization ps now s\<rparr>)"
  by (simp add: adapt_inv_def window_utilization_range)

section \<open>Properties\<close>

text \<open>Whatever latencies, outcomes, pressures, samples and window closings arrive, the limit
  and its recovery target stay within the configured range, the cost-time integral within the
  exact integers and the utilization within the unit interval.\<close>

theorem adaptation_stays_in_range:
  assumes "params_ok ps"
  shows "adapt_inv ps (run (adapt_step ps) (createAdaptationState i (ap_minLimit ps) (ap_maxLimit ps) now) es)"
  using adapt.run_inv [of ps] create_inv [OF assms] assms by blast

lemma ex_params_ok: "params_ok (v_adaptation ex_config)"
  using ex_config_ok by (simp add: params_ok_def config_ok_def)

lemma adaptation_stays_in_range_witness:
  "s_currentLimit (run (adapt_step (v_adaptation ex_config)) (createAdaptationState 6 2 10 0)
     [EPressure PCritical, ELatency (Num 30), EClose 1000, EClose 2000]) \<le> 10"
  using adaptation_stays_in_range [OF ex_params_ok, of 6 0 "[EPressure PCritical, ELatency (Num 30), EClose 1000, EClose 2000]"]
  by (simp only: adapt_inv_def) (simp add: ex_config_def)

text \<open>What closing a window may do to the limit: it never rises by more than one growth step
  and never falls below the critical factor; it falls only under pressure or a rising
  latency gradient; it rises only without freeze and critical pressure, either under load with
  completed work or, in an idle window without completions, towards the recovery ceiling.\<close>

theorem window_decision:
  assumes ok: "params_ok ps" and inv: "adapt_inv ps s"
    and L: "L = s_currentLimit s" and L': "L' = s_currentLimit (closeAdaptationWindow ps now s)"
    and u: "u = window_utilization ps now s"
  shows "L' \<le> L + grow_step ps \<and> \<lfloor>of_int L * ap_criticalDecreaseFactor ps\<rfloor> \<le> L'
    \<and> (L' < L \<longrightarrow> s_pressure s \<noteq> PNormal
          \<or> s_windowLatencySamples s > 0 \<and> latency_gradient s \<ge> ap_latencyGradientThreshold ps)
    \<and> (L < L' \<longrightarrow> s_pressure s \<noteq> PCritical \<and> \<not> s_freezeGrowth s
          \<and> (u \<ge> ap_highUtilizationThreshold ps \<and> s_windowCompleted s > 0
             \<or> u \<le> ap_lowUtilizationThreshold ps \<and> s_windowCompleted s = 0 \<and> L' \<le> s_recoveryCeiling s))"
proof -
  let ?s = "s\<lparr>s_utilization := u\<rparr>"
  let ?n = "next_limit ps ?s"
  have inv': "adapt_inv ps ?s" using adapt_inv_util [OF inv] by (simp add: u)
  note N = next_limit_bounds [OF ok inv']
  have g: "latency_gradient ?s = latency_gradient s" by (simp add: latency_gradient_def)
  have r: "ap_minLimit ps \<le> L" "L \<le> ap_maxLimit ps" "s_recoveryCeiling s \<le> ap_maxLimit ps" "0 < grow_step ps"
    "ap_minLimit ps \<le> s_recoveryCeiling s"
    using inv ok by (simp_all add: adapt_inv_def L params_ok_def adaptation_ok_def)
  define m where "m = (if u \<le> ap_lowUtilizationThreshold ps then applyIdleRecovery ps ?n ?s else ?n)"
  have L'': "L' = min (ap_maxLimit ps) (max (ap_minLimit ps) m)"
    by (simp add: L' close_limit Let_def m_def u)
  have m: "m = ?n \<or> m = min (s_recoveryCeiling s) (?n + grow_step ps) \<and> u \<le> ap_lowUtilizationThreshold ps
      \<and> s_pressure s \<noteq> PCritical \<and> \<not> s_freezeGrowth s \<and> s_windowCompleted s = 0 \<and> L < s_recoveryCeiling s"
    by (simp add: m_def applyIdleRecovery_def L)
  have nn: "?n \<le> L" if "s_windowCompleted s = 0"
    using N(4) that by (cases "L < ?n") (simp_all add: L)
  have cf: "\<lfloor>of_int L * ap_criticalDecreaseFactor ps\<rfloor> \<le> L"
    using ok r by (intro floor_factor) (simp_all add: params_ok_def adaptation_ok_def limits_ok_def)
  have N1: "\<lfloor>of_int L * ap_criticalDecreaseFactor ps\<rfloor> \<le> ?n" "?n \<le> L + grow_step ps"
    using N(1,2) by (simp_all add: L)
  have "L' \<le> L + grow_step ps" using m nn N1 r L'' by linarith
  moreover have "\<lfloor>of_int L * ap_criticalDecreaseFactor ps\<rfloor> \<le> L'" using m N1 r cf L'' by linarith
  moreover have "s_pressure s \<noteq> PNormal \<or> s_windowLatencySamples s > 0 \<and> latency_gradient s \<ge> ap_latencyGradientThreshold ps"
    if "L' < L"
  proof -
    have "?n < L" using that m r L'' by linarith
    then show ?thesis using N(3) g by (simp add: L)
  qed
  moreover have "s_pressure s \<noteq> PCritical \<and> \<not> s_freezeGrowth s
          \<and> (u \<ge> ap_highUtilizationThreshold ps \<and> s_windowCompleted s > 0
             \<or> u \<le> ap_lowUtilizationThreshold ps \<and> s_windowCompleted s = 0 \<and> L' \<le> s_recoveryCeiling s)"
    if "L < L'"
  proof (cases "m = ?n")
    case True
    then have "L < ?n" using that r L'' by linarith
    then show ?thesis using N(4) by (simp add: L)
  next
    case False
    then show ?thesis using m L'' r by auto
  qed
  ultimately show ?thesis by blast
qed

lemma window_decision_witness:
  "s_currentLimit (closeAdaptationWindow (v_adaptation ex_config) 1000
     (setPressure PHigh (createAdaptationState 10 2 10 0))) = 8 \<and> (8::int) \<le> 10 + 1"
proof -
  let ?s = "setPressure PHigh (createAdaptationState 10 2 10 0)"
  have "adapt_inv (v_adaptation ex_config) ?s"
    using adapt_step_inv [OF ex_params_ok create_inv [OF ex_params_ok, of 10 0], of "EPressure PHigh"]
    by (simp add: ex_config_def)
  from window_decision [OF ex_params_ok this refl refl refl, of 1000]
  show ?thesis by (simp add: closeAdaptationWindow_def createAdaptationState_def setPressure_def
      ex_config_def clampLimit_def next_limit_def window_utilization_def applyIdleRecovery_def)
qed

text \<open>The samples of one window, each with the cost active during its interval.\<close>

definition sample_all :: "(int \<times> int) list \<Rightarrow> adaptation_state \<Rightarrow> adaptation_state" where
  "sample_all xs s = fold (\<lambda>(c, dt). sampleActiveIntegral c dt) xs s"

lemma sample_limit [simp]: "s_currentLimit (sampleActiveIntegral c dt s) = s_currentLimit s"
  "s_windowStartMs (sampleActiveIntegral c dt s) = s_windowStartMs s"
  by (simp_all add: sampleActiveIntegral_def Let_def)

lemma sample_exact:
  assumes "0 < s_currentLimit s" and "0 \<le> c" and "0 \<le> dt" and "0 \<le> s_windowActiveCostIntegral s"
    and "s_windowActiveCostIntegral s + s_currentLimit s * dt \<le> MAX_SAFE_INTEGER"
  shows "s_windowActiveCostIntegral (sampleActiveIntegral c dt s)
       = s_windowActiveCostIntegral s + min c (s_currentLimit s) * dt"
proof (cases "dt = 0 \<or> c = 0")
  case True
  then show ?thesis using assms by (auto simp: sampleActiveIntegral_def)
next
  case False
  let ?b = "min c (s_currentLimit s)"
  have b: "0 < ?b" using assms False by simp
  have le: "?b * dt \<le> s_currentLimit s * dt" using assms by (intro mult_right_mono) auto
  then have "?b * dt \<le> MAX_SAFE_INTEGER" using assms by linarith
  then have "dt \<le> MAX_SAFE_INTEGER div ?b"
    using zdiv_mono1 [of "?b * dt" MAX_SAFE_INTEGER ?b] b by simp
  moreover have "s_windowActiveCostIntegral s + ?b * dt \<le> MAX_SAFE_INTEGER"
    using le assms(5) by linarith
  ultimately show ?thesis using assms(2,3) False b
    by (auto simp: sampleActiveIntegral_def Let_def)
qed


lemma sample_all_exact:
  assumes "0 < s_currentLimit s" and "\<forall>(c, dt)\<in>set xs. 0 \<le> c \<and> 0 \<le> dt"
    and "0 \<le> s_windowActiveCostIntegral s"
    and "s_windowActiveCostIntegral s + s_currentLimit s * sum_list (map snd xs) \<le> MAX_SAFE_INTEGER"
  shows "s_windowActiveCostIntegral (sample_all xs s)
       = s_windowActiveCostIntegral s + (\<Sum>(c, dt)\<leftarrow>xs. min c (s_currentLimit s) * dt)"
  using assms
proof (induction xs arbitrary: s)
  case Nil
  then show ?case by (simp add: sample_all_def)
next
  case (Cons x xs)
  obtain c dt where x: "x = (c, dt)" by (cases x)
  let ?L = "s_currentLimit s"
  have nn: "0 \<le> sum_list (map snd xs)" using Cons.prems(2) by (intro sum_list_nonneg) auto
  have cd: "0 \<le> c" "0 \<le> dt" using Cons.prems(2) x by auto
  have tot: "s_windowActiveCostIntegral s + (?L * dt + ?L * sum_list (map snd xs)) \<le> MAX_SAFE_INTEGER"
    using Cons.prems(4) x by (simp add: distrib_left)
  moreover have "0 \<le> ?L * sum_list (map snd xs)" using nn Cons.prems(1) by simp
  ultimately have e: "s_windowActiveCostIntegral (sampleActiveIntegral c dt s) = s_windowActiveCostIntegral s + min c ?L * dt"
    using cd Cons.prems(1,3) by (intro sample_exact) simp_all
  have "min c ?L * dt \<le> ?L * dt" using cd by (intro mult_right_mono) auto
  moreover have "0 \<le> min c ?L * dt" using cd Cons.prems(1) by simp
  ultimately have "s_windowActiveCostIntegral (sample_all xs (sampleActiveIntegral c dt s)) =
     s_windowActiveCostIntegral (sampleActiveIntegral c dt s) + (\<Sum>(c, dt)\<leftarrow>xs. min c ?L * dt)"
    using Cons.IH [of "sampleActiveIntegral c dt s"] Cons.prems tot e by simp
  then show ?case using e x by (simp add: sample_all_def)
qed

text \<open>The utilization integral is exact: with the validated bounds no sample of a window is
  saturated or rounded, so the closing utilization is the true time average of the active cost
  (bounded by the limit), divided by the limit.\<close>

theorem utilization_is_exact:
  assumes ok: "params_ok ps" and inv: "adapt_inv ps s" and i0: "s_windowActiveCostIntegral s = 0"
    and xs: "\<forall>(c, dt)\<in>set xs. 0 \<le> c \<and> 0 \<le> dt" and w: "sum_list (map snd xs) = ap_windowMs ps"
  shows "window_utilization ps (s_windowStartMs s + ap_windowMs ps) (sample_all xs s)
       = of_int (\<Sum>(c, dt)\<leftarrow>xs. min c (s_currentLimit s) * dt) / of_int (ap_windowMs ps * s_currentLimit s)"
proof -
  let ?L = "s_currentLimit s" and ?w = "ap_windowMs ps"
  let ?I = "\<Sum>(c, dt)\<leftarrow>xs. min c ?L * dt"
  have L: "0 < ?L" "?L \<le> MAX_ADMISSION_COST_OR_LIMIT" "0 < ?w" "?w \<le> MAX_ADMISSION_WINDOW_MS"
    using ok inv by (auto simp: params_ok_def limits_ok_def adapt_inv_def)
  then have "?L * ?w \<le> MAX_ADMISSION_COST_OR_LIMIT * MAX_ADMISSION_WINDOW_MS" by (intro mult_mono) auto
  then have le: "?L * ?w \<le> MAX_SAFE_INTEGER"
    by (simp add: limit_bound_value MAX_ADMISSION_WINDOW_MS_def MAX_SAFE_INTEGER_def)
  have e: "s_windowActiveCostIntegral (sample_all xs s) = ?I"
    using sample_all_exact [of s xs] L xs i0 w le by simp
  have f: "s_currentLimit (sample_all xs s) = ?L" "s_windowStartMs (sample_all xs s) = s_windowStartMs s"
    unfolding sample_all_def by (induction xs arbitrary: s) (auto simp: split_beta)
  have nn: "0 \<le> ?I" using xs L by (intro sum_list_nonneg) auto
  have "?I \<le> (\<Sum>(c, dt)\<leftarrow>xs. ?L * dt)"
    using xs by (intro sum_list_mono) (auto intro!: mult_right_mono)
  also have "\<dots> = ?L * ?w" unfolding w [symmetric] by (induction xs) (auto simp: distrib_left)
  finally have "?I \<le> ?w * ?L" by (simp only: mult.commute)
  then have "rat_of_int ?I \<le> rat_of_int (?w * ?L)" by (simp only: of_int_le_iff)
  then have "rat_of_int ?I / rat_of_int (?w * ?L) \<le> 1" using L by (simp add: divide_le_eq)
  moreover have "0 \<le> rat_of_int ?I / rat_of_int (?w * ?L)" using nn L by simp
  ultimately show ?thesis using L
    by (simp add: window_utilization_def Let_def e f field_simps)
qed

lemma utilization_is_exact_witness:
  "window_utilization (v_adaptation ex_config) 1000 (sample_all [(3, 500), (12, 500)] (createAdaptationState 6 2 10 0))
     = 3 / 4"
proof -
  have i: "adapt_inv (v_adaptation ex_config) (createAdaptationState 6 2 10 0)"
    using create_inv [OF ex_params_ok, of 6 0] by (simp add: ex_config_def)
  have x: "\<forall>(c, dt)\<in>set [(3::int, 500::int), (12, 500)]. 0 \<le> c \<and> 0 \<le> dt" by simp
  have w: "sum_list (map snd [(3::int, 500::int), (12, 500)]) = ap_windowMs (v_adaptation ex_config)"
    by (simp add: ex_config_def)
  from utilization_is_exact [OF ex_params_ok i _ x w] show ?thesis
    by (simp add: createAdaptationState_def clampLimit_def ex_config_def)
qed


text \<open>Idle windows: nothing completed, sampled or pressed since the last close.\<close>

definition idle :: "adaptation_state \<Rightarrow> bool" where
  "idle s \<longleftrightarrow> s_windowActiveCostIntegral s = 0 \<and> s_windowCompleted s = 0 \<and> s_windowLatencySamples s = 0
     \<and> \<not> s_freezeGrowth s \<and> s_pressure s = PNormal"

lemma idle_close:
  assumes ok: "params_ok ps" and inv: "adapt_inv ps s" and idle: "idle s"
  shows "s_currentLimit (closeAdaptationWindow ps now s) = max (s_currentLimit s)
      (min (s_recoveryCeiling s) (s_currentLimit s + grow_step ps))"
    and "idle (closeAdaptationWindow ps now s)"
proof -
  have u: "window_utilization ps now s = 0" using idle by (simp add: idle_def window_utilization_def)
  have n: "next_limit ps (s\<lparr>s_utilization := window_utilization ps now s\<rparr>) = s_currentLimit s"
    using idle by (simp add: next_limit_def idle_def)
  have "0 < ap_lowUtilizationThreshold ps" "0 < grow_step ps"
    using ok by (simp_all add: params_ok_def adaptation_ok_def)
  then show "s_currentLimit (closeAdaptationWindow ps now s) = max (s_currentLimit s)
      (min (s_recoveryCeiling s) (s_currentLimit s + grow_step ps))"
    using n u idle inv by (auto simp: close_limit Let_def applyIdleRecovery_def idle_def adapt_inv_def)
  show "idle (closeAdaptationWindow ps now s)" by (simp add: idle_def closeAdaptationWindow_fields)
qed

lemma climb:
  "0 < (g::int) \<Longrightarrow> 0 \<le> x \<Longrightarrow>
   max (max l (min c (l + g))) (min c (max l (min c (l + g)) + x)) = max l (min c (l + (g + x)))"
  by (auto simp: max_def min_def)

definition close_n :: "adaptation_params \<Rightarrow> int list \<Rightarrow> adaptation_state \<Rightarrow> adaptation_state" where
  "close_n ps ts s = run (adapt_step ps) s (map EClose ts)"

text \<open>Idle recovery: a limit that collapsed under pressure climbs back. After \<open>n\<close> idle windows
  it has risen by \<open>n\<close> growth steps or reached the recovery ceiling, and it never overshoots.\<close>

theorem idle_windows_restore_the_limit:
  assumes "params_ok ps" and "adapt_inv ps s" and "idle s"
  shows "s_currentLimit (close_n ps ts s) = max (s_currentLimit s)
      (min (s_recoveryCeiling s) (s_currentLimit s + int (length ts) * grow_step ps))"
  using assms(2,3)
proof (induction ts arbitrary: s)
  case Nil
  then show ?case by (simp add: close_n_def)
next
  case (Cons t ts)
  let ?s = "closeAdaptationWindow ps t s"
  have g: "0 < grow_step ps" using assms(1) by (simp add: params_ok_def adaptation_ok_def)
  have i: "adapt_inv ps ?s" "idle ?s"
    using closeAdaptationWindow_inv idle_close(2) Cons.prems assms(1) by simp_all
  define d where "d = grow_step ps"
  let ?X = "int (length ts) * d"
  have d: "0 < d" "0 \<le> ?X" using g by (simp_all add: d_def)
  have one: "s_currentLimit ?s = max (s_currentLimit s) (min (s_recoveryCeiling s) (s_currentLimit s + d))"
    using idle_close(1) [OF assms(1) Cons.prems, of t] unfolding d_def .
  have "s_currentLimit (close_n ps ts ?s) = max (s_currentLimit ?s)
      (min (s_recoveryCeiling ?s) (s_currentLimit ?s + ?X))"
    using Cons.IH [OF i] unfolding d_def .
  then have "s_currentLimit (close_n ps (t # ts) s) = max (s_currentLimit ?s)
      (min (s_recoveryCeiling s) (s_currentLimit ?s + ?X))"
    by (simp only: close_n_def closeAdaptationWindow_fields list.map run.simps adapt_step.simps)
  also have "\<dots> = max (s_currentLimit s) (min (s_recoveryCeiling s) (s_currentLimit s + (d + ?X)))"
    unfolding one by (rule climb [OF d])
  also have "d + ?X = int (length (t # ts)) * d" by (simp add: distrib_right)
  finally show ?case unfolding d_def .
qed

lemma idle_windows_restore_the_limit_witness:
  "s_currentLimit (close_n (v_adaptation ex_config) [2000, 3000, 4000]
     (closeAdaptationWindow (v_adaptation ex_config) 1000 (setPressure PCritical (createAdaptationState 6 2 10 0)))) = 6"
proof -
  let ?s = "closeAdaptationWindow (v_adaptation ex_config) 1000 (setPressure PCritical (createAdaptationState 6 2 10 0))"
  have "adapt_inv (v_adaptation ex_config) (createAdaptationState 6 2 10 0)"
    using create_inv [OF ex_params_ok, of 6 0] by (simp add: ex_config_def)
  then have i: "adapt_inv (v_adaptation ex_config) ?s"
    using adapt_step_inv [OF ex_params_ok, of _ "EPressure PCritical"]
      closeAdaptationWindow_inv [OF ex_params_ok] by simp
  have l: "s_currentLimit ?s = 3" "s_recoveryCeiling ?s = 6" "idle ?s"
    by (simp_all add: closeAdaptationWindow_def createAdaptationState_def setPressure_def idle_def
      ex_config_def clampLimit_def next_limit_def window_utilization_def applyIdleRecovery_def)
  have "grow_step (v_adaptation ex_config) = 1" by (simp add: ex_config_def)
  then show ?thesis
    using idle_windows_restore_the_limit [OF ex_params_ok i l(3), of "[2000, 3000, 4000]"] l(1,2) by simp
qed

text \<open>The idle-recovery branch is meant for normal pressure, but it only excludes the critical
  one: closing an idle window under sustained high pressure with the default factors leaves a
  limit of at most five units where it was, below the recovery ceiling.\<close>

theorem recovery_cancels_high_pressure_decrease:
  assumes "params_ok ps" and "adapt_inv ps s" and "s_pressure s = PHigh"
    and "s_windowActiveCostIntegral s = 0" and "s_windowCompleted s = 0" and "\<not> s_freezeGrowth s"
    and "ap_decreaseFactor ps = 4 / 5" and "s_currentLimit s \<le> 5" and "s_currentLimit s < s_recoveryCeiling s"
  shows "s_currentLimit s \<le> s_currentLimit (closeAdaptationWindow ps now s)"
proof -
  have g: "0 < ap_lowUtilizationThreshold ps" "1 \<le> grow_step ps"
    using assms(1) by (simp_all add: params_ok_def adaptation_ok_def)
  have u: "window_utilization ps now s = 0" using assms(4) by (simp add: window_utilization_def)
  have "s_currentLimit s - 1 \<le> \<lfloor>rat_of_int (s_currentLimit s) * (4 / 5)\<rfloor>"
    using assms(8) by (simp add: le_floor_iff)
  moreover have "next_limit ps (s\<lparr>s_utilization := 0\<rparr>) = \<lfloor>rat_of_int (s_currentLimit s) * ap_decreaseFactor ps\<rfloor>"
    using assms(3) by (simp add: next_limit_def)
  ultimately have "s_currentLimit s \<le> next_limit ps (s\<lparr>s_utilization := 0\<rparr>) + grow_step ps"
    using g(2) unfolding assms(7) by linarith
  then show ?thesis using assms u g
    by (auto simp: close_limit Let_def applyIdleRecovery_def adapt_inv_def)
qed

lemma recovery_cancels_high_pressure_decrease_witness:
  "(4::int) \<le> s_currentLimit (closeAdaptationWindow (v_adaptation ex_config) 1000
     (setPressure PHigh ((createAdaptationState 6 2 10 0)\<lparr>s_currentLimit := 4\<rparr>)))"
proof -
  let ?s = "setPressure PHigh ((createAdaptationState 6 2 10 0)\<lparr>s_currentLimit := 4\<rparr>)"
  have f: "adapt_inv (v_adaptation ex_config) ?s" "s_pressure ?s = PHigh" "s_windowActiveCostIntegral ?s = 0"
    "s_windowCompleted ?s = 0" "\<not> s_freezeGrowth ?s" "ap_decreaseFactor (v_adaptation ex_config) = 4 / 5"
    "s_currentLimit ?s \<le> 5" "s_currentLimit ?s < s_recoveryCeiling ?s" "s_currentLimit ?s = 4"
    by (simp_all add: createAdaptationState_def setPressure_def adapt_inv_def ex_config_def clampLimit_def)
  show ?thesis using recovery_cancels_high_pressure_decrease [OF ex_params_ok f(1-8), of 1000] f(9) by simp
qed

end
