(* ===== verification/FairCostQueue.thy ===== *)
theory FairCostQueue
  imports Omni_Prelude
begin

text \<open>
  The bounded multi-tenant fair queue of the admission controller,
  \<open>open-sse/services/admission/queue.ts\<close>: one FIFO bucket per tenant, a rotation order with
  a cursor, caps on the number of entries and on their total cost, and a reservation for a
  head that was passed over \<open>MAX_UNFITTABLE_SKIPS\<close> times.

  Buckets are a partial map; the entry objects in them are values, and the in-place update of
  \<open>skipCount\<close> on bypassed heads is an update of the heads in the map. \<open>timerId\<close> belongs to
  the controller's timers and is not part of the queue.
\<close>

definition MAX_UNFITTABLE_SKIPS :: nat where
  "MAX_UNFITTABLE_SKIPS = 2"

record 'p qentry =
  e_id :: nat
  e_tenantKey :: string
  e_cost :: int
  e_enqueuedAtMs :: int
  e_deadlineMs :: int
  e_payload :: 'p
  e_skipCount :: nat

record 'p fcq =
  q_maxCount :: int
  q_maxCost :: int
  q_buckets :: "string \<rightharpoonup> 'p qentry list"
  q_order :: "string list"
  q_cursor :: nat
  q_count :: int
  q_cost :: int

section \<open>Operations\<close>

definition new_FairCostQueue :: "int \<Rightarrow> int \<Rightarrow> 'p fcq" where
  "new_FairCostQueue mc mk = \<lparr>q_maxCount = mc, q_maxCost = mk, q_buckets = Map.empty,
     q_order = [], q_cursor = 0, q_count = 0, q_cost = 0\<rparr>"

definition q_size :: "'p fcq \<Rightarrow> int" where
  "q_size q = q_count q"

definition q_totalCost :: "'p fcq \<Rightarrow> int" where
  "q_totalCost q = q_cost q"

definition canAccept :: "'p fcq \<Rightarrow> int \<Rightarrow> bool" where
  "canAccept q c =
     (if \<not> (c \<le> MAX_SAFE_INTEGER \<and> c \<ge> - MAX_SAFE_INTEGER) \<or> c \<le> 0 then False
      else if q_count q \<ge> q_maxCount q then False
      else if c > q_maxCost q - q_cost q then False
      else True)"

definition enqueue :: "'p qentry \<Rightarrow> 'p fcq \<Rightarrow> bool \<times> 'p fcq" where
  "enqueue e q =
     (if \<not> canAccept q (e_cost e) then (False, q)
      else (let t = e_tenantKey e;
                q1 = (case q_buckets q t of
                        None \<Rightarrow> q\<lparr>q_buckets := (q_buckets q)(t \<mapsto> []), q_order := q_order q @ [t]\<rparr>
                      | Some _ \<Rightarrow> q)
            in (True, q1\<lparr>q_buckets := (q_buckets q1)(t \<mapsto> the (q_buckets q1 t) @ [e]),
                         q_count := q_count q1 + 1, q_cost := q_cost q1 + e_cost e\<rparr>)))"

text \<open>\<open>this.buckets.get(tenant)?.[0]\<close>\<close>

definition bucket_head :: "'p fcq \<Rightarrow> string \<Rightarrow> 'p qentry option" where
  "bucket_head q t = (case q_buckets q t of Some (e # _) \<Rightarrow> Some e | _ \<Rightarrow> None)"

text \<open>The indices \<open>(cursor + i) % n\<close> in the order the loops visit them.\<close>

definition rotation :: "nat \<Rightarrow> nat \<Rightarrow> nat list" where
  "rotation c n = map (\<lambda>i. (c + i) mod n) [0..<n]"

fun scan_reserved ::
  "'p fcq \<Rightarrow> nat list \<Rightarrow> (nat \<times> 'p qentry) option \<Rightarrow> (nat \<times> 'p qentry) option" where
  "scan_reserved q [] r = r"
| "scan_reserved q (idx # is) r =
     (case bucket_head q (q_order q ! idx) of
        None \<Rightarrow> scan_reserved q is r
      | Some e \<Rightarrow>
          if e_skipCount e \<ge> MAX_UNFITTABLE_SKIPS
          then (case r of
                  None \<Rightarrow> scan_reserved q is (Some (idx, e))
                | Some (_, f) \<Rightarrow> if e_enqueuedAtMs e < e_enqueuedAtMs f
                                 then scan_reserved q is (Some (idx, e))
                                 else scan_reserved q is r)
          else scan_reserved q is r)"

text \<open>The first index whose head fits, with the tenants whose heads were bypassed.\<close>

fun scan_fit :: "'p fcq \<Rightarrow> int \<Rightarrow> nat list \<Rightarrow> string list \<Rightarrow> (nat \<times> string list) option" where
  "scan_fit q mx [] bypassed = None"
| "scan_fit q mx (idx # is) bypassed =
     (case bucket_head q (q_order q ! idx) of
        None \<Rightarrow> scan_fit q mx is bypassed
      | Some e \<Rightarrow> if e_cost e > mx then scan_fit q mx is (bypassed @ [q_order q ! idx])
                  else Some (idx, bypassed))"

definition bump_head :: "string \<Rightarrow> 'p fcq \<Rightarrow> 'p fcq" where
  "bump_head t q =
     (case q_buckets q t of
        Some (e # es) \<Rightarrow>
          q\<lparr>q_buckets := (q_buckets q)(t \<mapsto> e\<lparr>e_skipCount := Suc (e_skipCount e)\<rparr> # es)\<rparr>
      | _ \<Rightarrow> q)"

definition remove_nth :: "nat \<Rightarrow> 'a list \<Rightarrow> 'a list" where
  "remove_nth i xs = take i xs @ drop (Suc i) xs"

definition takeAt :: "nat \<Rightarrow> 'p fcq \<Rightarrow> 'p qentry option \<times> 'p fcq" where
  "takeAt idx q =
     (let t = q_order q ! idx
      in case q_buckets q t of
           Some (e # es) \<Rightarrow>
             (let q1 = q\<lparr>q_count := q_count q - 1, q_cost := q_cost q - e_cost e\<rparr>
              in (Some (e\<lparr>e_skipCount := 0\<rparr>),
                  if es = []
                  then (let ord = remove_nth idx (q_order q1)
                        in q1\<lparr>q_buckets := (q_buckets q1)(t := None), q_order := ord,
                              q_cursor := (if ord = [] then 0 else idx mod length ord)\<rparr>)
                  else q1\<lparr>q_buckets := (q_buckets q1)(t \<mapsto> es),
                          q_cursor := (idx + 1) mod length (q_order q1)\<rparr>))
         | _ \<Rightarrow> (None, q))"

definition dequeue :: "int \<Rightarrow> 'p fcq \<Rightarrow> 'p qentry option \<times> 'p fcq" where
  "dequeue mx q =
     (if q_count q = 0 then (None, q)
      else (let rot = rotation (q_cursor q) (length (q_order q))
            in case scan_reserved q rot None of
                 Some (idx, e) \<Rightarrow> if e_cost e > mx then (None, q) else takeAt idx q
               | None \<Rightarrow>
                   (case scan_fit q mx rot [] of
                      None \<Rightarrow> (None, q)
                    | Some (idx, bypassed) \<Rightarrow> takeAt idx (fold bump_head bypassed q))))"

fun first_head :: "'p fcq \<Rightarrow> nat list \<Rightarrow> 'p qentry option" where
  "first_head q [] = None"
| "first_head q (idx # is) =
     (case bucket_head q (q_order q ! idx) of Some e \<Rightarrow> Some e | None \<Rightarrow> first_head q is)"

definition q_peek :: "'p fcq \<Rightarrow> 'p qentry option" where
  "q_peek q = (if q_count q = 0 then None
               else first_head q (rotation (q_cursor q) (length (q_order q))))"

text \<open>\<open>bucket.findIndex\<close> and \<open>bucket.splice\<close>: split a bucket at the entry with this id.\<close>

fun split_id :: "nat \<Rightarrow> 'p qentry list \<Rightarrow> ('p qentry list \<times> 'p qentry \<times> 'p qentry list) option" where
  "split_id i [] = None"
| "split_id i (e # es) =
     (if e_id e = i then Some ([], e, es)
      else map_option (\<lambda>(xs, f, ys). (e # xs, f, ys)) (split_id i es))"

fun remove_scan :: "nat \<Rightarrow> nat list \<Rightarrow> 'p fcq \<Rightarrow> 'p qentry option \<times> 'p fcq" where
  "remove_scan i [] q = (None, q)"
| "remove_scan i (ti # tis) q =
     (let t = q_order q ! ti
      in case q_buckets q t of
           None \<Rightarrow> remove_scan i tis q
         | Some bucket \<Rightarrow>
             (case split_id i bucket of
                None \<Rightarrow> remove_scan i tis q
              | Some (xs, e, ys) \<Rightarrow>
                  (let q1 = q\<lparr>q_count := q_count q - 1, q_cost := q_cost q - e_cost e\<rparr>
                   in (Some e,
                       if xs @ ys = []
                       then (let ord = remove_nth ti (q_order q1)
                             in q1\<lparr>q_buckets := (q_buckets q1)(t := None), q_order := ord,
                                   q_cursor :=
                                     (if ord = [] then 0
                                      else if ti < q_cursor q1 then q_cursor q1 - 1
                                      else if q_cursor q1 \<ge> length ord then 0
                                      else q_cursor q1)\<rparr>)
                       else q1\<lparr>q_buckets := (q_buckets q1)(t \<mapsto> xs @ ys)\<rparr>))))"

definition removeById :: "nat \<Rightarrow> 'p fcq \<Rightarrow> 'p qentry option \<times> 'p fcq" where
  "removeById i q = remove_scan i [0..<length (q_order q)] q"

section \<open>Contents\<close>

definition q_bucket :: "'p fcq \<Rightarrow> string \<Rightarrow> 'p qentry list" where
  "q_bucket q t = (case q_buckets q t of None \<Rightarrow> [] | Some b \<Rightarrow> b)"

definition q_entries :: "'p fcq \<Rightarrow> 'p qentry list" where
  "q_entries q = concat (map (q_bucket q) (q_order q))"

text \<open>An entry without its skip count: what a client put in.\<close>

definition strip :: "'p qentry \<Rightarrow> 'p qentry" where
  "strip e = e\<lparr>e_skipCount := 0\<rparr>"

lemma strip_simps [simp]:
  "e_id (strip e) = e_id e" "e_tenantKey (strip e) = e_tenantKey e" "e_cost (strip e) = e_cost e"
  "e_payload (strip e) = e_payload e" "e_deadlineMs (strip e) = e_deadlineMs e"
  "e_enqueuedAtMs (strip e) = e_enqueuedAtMs e" "e_skipCount (strip e) = 0"
  "strip (strip e) = strip e" "strip (e\<lparr>e_skipCount := n\<rparr>) = strip e"
  by (simp_all add: strip_def)


text \<open>The multiset of stripped entries: the abstract contents of the queue.\<close>

definition q_mset :: "'p fcq \<Rightarrow> 'p qentry multiset" where
  "q_mset q = (\<Sum>t\<in>set (q_order q). image_mset strip (mset (q_bucket q t)))"

definition fcq_shape :: "'p fcq \<Rightarrow> bool" where
  "fcq_shape q \<longleftrightarrow> distinct (q_order q) \<and> set (q_order q) = dom (q_buckets q)
     \<and> (q_cursor q < length (q_order q) \<or> q_order q = [] \<and> q_cursor q = 0)"

definition bucket_ok :: "string \<Rightarrow> 'p qentry list \<Rightarrow> bool" where
  "bucket_ok t b \<longleftrightarrow> b \<noteq> []
     \<and> (\<forall>e\<in>set b. e_tenantKey e = t \<and> 0 < e_cost e \<and> e_cost e \<le> MAX_SAFE_INTEGER)
     \<and> e_skipCount (hd b) \<le> MAX_UNFITTABLE_SKIPS \<and> (\<forall>e\<in>set (tl b). e_skipCount e = 0)"

definition fcq_counts :: "'p fcq \<Rightarrow> bool" where
  "fcq_counts q \<longleftrightarrow> q_count q = int (size (q_mset q))
     \<and> q_cost q = sum_mset (image_mset e_cost (q_mset q))"

definition fcq_inv :: "'p fcq \<Rightarrow> bool" where
  "fcq_inv q \<longleftrightarrow> fcq_shape q \<and> (\<forall>t b. q_buckets q t = Some b \<longrightarrow> bucket_ok t b) \<and> fcq_counts q"

definition fcq_caps :: "'p fcq \<Rightarrow> bool" where
  "fcq_caps q \<longleftrightarrow> q_count q \<le> q_maxCount q \<and> q_cost q \<le> q_maxCost q"

subsection \<open>Rotation and positions\<close>

lemma rotation_rotate: "rotation c n = rotate c [0..<n]"
  by (rule nth_equalityI) (auto simp: rotation_def nth_rotate)

lemma set_rotation [simp]: "set (rotation c n) = {0..<n}"
  by (simp add: rotation_rotate)

lemma distinct_rotation [simp]: "distinct (rotation c n)"
  by (simp add: rotation_rotate)

lemma remove_nth_props:
  assumes "distinct xs" and "i < length xs"
  shows "distinct (remove_nth i xs)" "set (remove_nth i xs) = set xs - {xs ! i}"
    "length (remove_nth i xs) = length xs - 1"
proof -
  have x: "xs = take i xs @ xs ! i # drop (Suc i) xs" using assms(2) by (rule id_take_nth_drop)
  with assms(1) have d: "distinct (take i xs @ xs ! i # drop (Suc i) xs)" by simp
  from d show "distinct (remove_nth i xs)" by (simp add: remove_nth_def)
  have "set xs = insert (xs ! i) (set (remove_nth i xs))"
    by (subst x) (simp add: remove_nth_def)
  moreover have "xs ! i \<notin> set (remove_nth i xs)" using d by (simp add: remove_nth_def)
  ultimately show "set (remove_nth i xs) = set xs - {xs ! i}" by auto
  show "length (remove_nth i xs) = length xs - 1" using assms(2) by (simp add: remove_nth_def)
qed

subsection \<open>Contents under updates of one bucket\<close>

lemma q_mset_split:
  assumes "t \<in> set (q_order q)"
  shows "q_mset q = image_mset strip (mset (q_bucket q t))
           + (\<Sum>t'\<in>set (q_order q) - {t}. image_mset strip (mset (q_bucket q t')))"
  unfolding q_mset_def using assms by (simp add: sum.remove)

lemma q_mset_cong:
  assumes "set (q_order q') = set (q_order q)"
    and "\<And>t. t \<in> set (q_order q) \<Longrightarrow> map strip (q_bucket q' t) = map strip (q_bucket q t)"
  shows "q_mset q' = q_mset q"
  unfolding q_mset_def assms(1)
proof (rule sum.cong)
  fix t assume "t \<in> set (q_order q)"
  then show "image_mset strip (mset (q_bucket q' t)) = image_mset strip (mset (q_bucket q t))"
    using assms(2) [of t] by (metis mset_map)
qed simp

text \<open>Replacing the bucket of \<open>t\<close>; an empty bucket leaves the order.\<close>

lemma q_mset_replace:
  assumes "t \<in> set (q_order q)"
    and "set (q_order q') = (if b = [] then set (q_order q) - {t} else set (q_order q))"
    and "\<And>t'. t' \<noteq> t \<Longrightarrow> q_buckets q' t' = q_buckets q t'"
    and "b \<noteq> [] \<Longrightarrow> q_buckets q' t = Some b"
  shows "q_mset q' = image_mset strip (mset b)
           + (\<Sum>t'\<in>set (q_order q) - {t}. image_mset strip (mset (q_bucket q t')))"
proof -
  have other: "q_bucket q' t' = q_bucket q t'" if "t' \<noteq> t" for t'
    using assms(3) [OF that] by (simp add: q_bucket_def)
  have rest: "(\<Sum>t'\<in>set (q_order q) - {t}. image_mset strip (mset (q_bucket q' t'))) =
        (\<Sum>t'\<in>set (q_order q) - {t}. image_mset strip (mset (q_bucket q t')))"
    by (rule sum.cong) (auto simp: other)
  show ?thesis
  proof (cases "b = []")
    case True
    then show ?thesis using assms(2) rest by (simp add: q_mset_def)
  next
    case False
    then have "t \<in> set (q_order q')" "set (q_order q') = set (q_order q)"
      "q_bucket q' t = b" using assms by (simp_all add: q_bucket_def)
    then show ?thesis using rest by (simp add: q_mset_split [of t q'])
  qed
qed

lemma q_bucket_Some [simp]: "q_buckets q t = Some b \<Longrightarrow> q_bucket q t = b"
  by (simp add: q_bucket_def)

lemma q_mset_empty_iff:
  assumes "fcq_inv q"
  shows "q_mset q = {#} \<longleftrightarrow> q_order q = []"
proof
  assume e: "q_mset q = {#}"
  show "q_order q = []"
  proof (rule ccontr)
    assume "q_order q \<noteq> []"
    then have t: "hd (q_order q) \<in> set (q_order q)" by simp
    then obtain b where b: "q_buckets q (hd (q_order q)) = Some b"
      using assms by (auto simp: fcq_inv_def fcq_shape_def)
    then have "b \<noteq> []" using assms by (auto simp: fcq_inv_def bucket_ok_def)
    then show False using e b by (simp add: q_mset_split [OF t])
  qed
qed (simp add: q_mset_def)


subsection \<open>Insertion\<close>

lemma canAccept_caps:
  "canAccept q c \<Longrightarrow> 0 < c \<and> c \<le> MAX_SAFE_INTEGER \<and> q_count q + 1 \<le> q_maxCount q
     \<and> q_cost q + c \<le> q_maxCost q"
  by (auto simp: canAccept_def split: if_splits)

lemma enqueue_reject: "\<not> canAccept q (e_cost e) \<Longrightarrow> enqueue e q = (False, q)"
  by (simp add: enqueue_def)

lemma enqueue_accept:
  assumes inv: "fcq_inv q" and acc: "canAccept q (e_cost e)" and sk: "e_skipCount e = 0"
  shows "fst (enqueue e q)" and "fcq_inv (snd (enqueue e q))"
    and "q_mset (snd (enqueue e q)) = add_mset (strip e) (q_mset q)"
    and "q_bucket (snd (enqueue e q)) (e_tenantKey e) = q_bucket q (e_tenantKey e) @ [e]"
proof -
  let ?t = "e_tenantKey e"
  let ?q = "snd (enqueue e q)"
  show "fst (enqueue e q)" using acc by (simp add: enqueue_def Let_def)
  have ord: "q_order ?q = (if ?t \<in> set (q_order q) then q_order q else q_order q @ [?t])"
    using acc inv by (auto simp: enqueue_def Let_def fcq_inv_def fcq_shape_def dom_def split: option.splits)
  have bk: "q_buckets ?q = (q_buckets q)(?t \<mapsto> q_bucket q ?t @ [e])"
    using acc by (auto simp: enqueue_def Let_def q_bucket_def split: option.splits)
  have cnt: "q_count ?q = q_count q + 1" "q_cost ?q = q_cost q + e_cost e" "q_cursor ?q = q_cursor q"
    using acc by (auto simp: enqueue_def Let_def split: option.splits)
  show qb: "q_bucket ?q ?t = q_bucket q ?t @ [e]" by (simp add: q_bucket_def bk)
  have other: "q_bucket ?q t' = q_bucket q t'" if "t' \<noteq> ?t" for t'
    using that by (simp add: q_bucket_def bk)
  have tin: "?t \<in> set (q_order ?q)" by (simp add: ord)
  have rest: "(\<Sum>t'\<in>set (q_order ?q) - {?t}. image_mset strip (mset (q_bucket ?q t'))) =
              (\<Sum>t'\<in>set (q_order q) - {?t}. image_mset strip (mset (q_bucket q t')))"
    using ord by (intro sum.cong) (auto simp: other)
  have old: "q_mset q = image_mset strip (mset (q_bucket q ?t)) +
      (\<Sum>t'\<in>set (q_order q) - {?t}. image_mset strip (mset (q_bucket q t')))"
  proof (cases "?t \<in> set (q_order q)")
    case True
    then show ?thesis by (rule q_mset_split)
  next
    case False
    then have "q_bucket q ?t = []"
      using inv by (auto simp: q_bucket_def fcq_inv_def fcq_shape_def dom_def split: option.splits)
    with False show ?thesis by (simp add: q_mset_def)
  qed
  show ms: "q_mset ?q = add_mset (strip e) (q_mset q)"
    using q_mset_split [OF tin] by (simp add: qb rest old)
  have "bucket_ok ?t (q_bucket q ?t @ [e])"
  proof (cases "q_buckets q ?t")
    case None
    then show ?thesis using canAccept_caps [OF acc] sk by (simp add: q_bucket_def bucket_ok_def)
  next
    case (Some b)
    then have "bucket_ok ?t b" using inv by (simp add: fcq_inv_def)
    then show ?thesis using Some canAccept_caps [OF acc] sk by (auto simp: bucket_ok_def)
  qed
  moreover have "fcq_shape ?q"
    using inv by (auto simp: fcq_inv_def fcq_shape_def ord bk cnt)
  ultimately show "fcq_inv ?q"
    using inv by (auto simp: fcq_inv_def fcq_counts_def ms cnt bk)
qed

lemma enqueue_caps: "fcq_caps q \<Longrightarrow> fcq_caps (snd (enqueue e q))"
proof (cases "canAccept q (e_cost e)")
  case True
  then show ?thesis using canAccept_caps [OF True]
    by (auto simp: fcq_caps_def enqueue_def Let_def split: option.splits)
qed (simp add: enqueue_reject)

subsection \<open>Removal at a position\<close>

lemma bucket_head_of_order:
  assumes "fcq_inv q" and "idx < length (q_order q)"
  obtains e es where "q_buckets q (q_order q ! idx) = Some (e # es)"
    and "bucket_ok (q_order q ! idx) (e # es)"
proof -
  have "q_order q ! idx \<in> dom (q_buckets q)"
    using assms by (auto simp: fcq_inv_def fcq_shape_def)
  then obtain b where b: "q_buckets q (q_order q ! idx) = Some b" by auto
  then have "bucket_ok (q_order q ! idx) b" using assms(1) by (simp add: fcq_inv_def)
  then show thesis using that b by (cases b) (auto simp: bucket_ok_def)
qed

text \<open>
  Removing one entry of the bucket at \<open>idx\<close>, leaving \<open>b'\<close>: what the two removals share.
\<close>

lemma removal_spec:
  assumes inv: "fcq_inv q" and idx: "idx < length (q_order q)"
    and b: "q_buckets q (q_order q ! idx) = Some b"
    and ms: "image_mset strip (mset b) = add_mset (strip e) (image_mset strip (mset b'))"
    and ok: "b' \<noteq> [] \<Longrightarrow> bucket_ok (q_order q ! idx) b'"
    and ord: "q_order q' = (if b' = [] then remove_nth idx (q_order q) else q_order q)"
    and bks: "q_buckets q' = (q_buckets q)(q_order q ! idx := (if b' = [] then None else Some b'))"
    and cnt: "q_count q' = q_count q - 1" "q_cost q' = q_cost q - e_cost e"
    and cur: "q_cursor q' < length (q_order q') \<or> q_order q' = [] \<and> q_cursor q' = 0"
  shows "fcq_inv q'" and "q_mset q = add_mset (strip e) (q_mset q')"
proof -
  let ?t = "q_order q ! idx"
  have d: "distinct (q_order q)" and dom: "set (q_order q) = dom (q_buckets q)"
    using inv by (auto simp: fcq_inv_def fcq_shape_def)
  have t: "?t \<in> set (q_order q)" using idx by simp
  have so: "set (q_order q') = (if b' = [] then set (q_order q) - {?t} else set (q_order q))"
    using remove_nth_props [OF d idx] by (simp add: ord)
  have "q_mset q' = image_mset strip (mset b')
      + (\<Sum>t'\<in>set (q_order q) - {?t}. image_mset strip (mset (q_bucket q t')))"
    by (rule q_mset_replace [OF t so]) (simp_all add: bks)
  then show mq: "q_mset q = add_mset (strip e) (q_mset q')"
    using q_mset_split [OF t] by (simp add: b ms)
  have "fcq_shape q'"
    using remove_nth_props [OF d idx] d dom cur so b by (auto simp: fcq_shape_def ord bks split: if_splits)
  moreover have "\<forall>t b. q_buckets q' t = Some b \<longrightarrow> bucket_ok t b"
    using inv ok by (auto simp: fcq_inv_def bks split: if_splits)
  moreover have "fcq_counts q'"
    using inv mq by (auto simp: fcq_inv_def fcq_counts_def cnt)
  ultimately show "fcq_inv q'" by (simp add: fcq_inv_def)
qed

lemma takeAt_spec:
  assumes inv: "fcq_inv q" and idx: "idx < length (q_order q)"
    and h: "bucket_head q (q_order q ! idx) = Some e"
  shows "fst (takeAt idx q) = Some (strip e)" and "fcq_inv (snd (takeAt idx q))"
    and "q_mset q = add_mset (strip e) (q_mset (snd (takeAt idx q)))"
proof -
  let ?t = "q_order q ! idx"
  obtain es where b: "q_buckets q ?t = Some (e # es)"
    using h by (auto simp: bucket_head_def split: option.splits list.splits)
  have ok: "bucket_ok ?t (e # es)" using inv b by (simp add: fcq_inv_def)
  show "fst (takeAt idx q) = Some (strip e)" by (simp add: takeAt_def b strip_def Let_def)
  have ok': "es \<noteq> [] \<Longrightarrow> bucket_ok ?t es"
    using ok by (cases es) (auto simp: bucket_ok_def)
  let ?q = "snd (takeAt idx q)"
  have f: "q_order ?q = (if es = [] then remove_nth idx (q_order q) else q_order q)"
    "q_buckets ?q = (q_buckets q)(?t := (if es = [] then None else Some es))"
    "q_count ?q = q_count q - 1" "q_cost ?q = q_cost q - e_cost e"
    "q_cursor ?q = (if es \<noteq> [] then (idx + 1) mod length (q_order q)
                    else if remove_nth idx (q_order q) = [] then 0
                    else idx mod length (remove_nth idx (q_order q)))"
    by (simp_all add: takeAt_def b Let_def)
  have c: "q_cursor ?q < length (q_order ?q) \<or> q_order ?q = [] \<and> q_cursor ?q = 0"
    using idx f(1,5) by (auto simp: length_greater_0_conv [symmetric] simp del: length_greater_0_conv)
  have "fcq_inv ?q \<and> q_mset q = add_mset (strip e) (q_mset ?q)"
    using removal_spec [OF inv idx b _ ok' f(1,2,3,4) c] by simp
  then show "fcq_inv (snd (takeAt idx q))"
    and "q_mset q = add_mset (strip e) (q_mset (snd (takeAt idx q)))" by auto
qed


subsection \<open>Bumping bypassed heads\<close>

definition bump_bucket :: "'p qentry list \<Rightarrow> 'p qentry list" where
  "bump_bucket b = (case b of [] \<Rightarrow> [] | e # es \<Rightarrow> e\<lparr>e_skipCount := Suc (e_skipCount e)\<rparr> # es)"

lemma bump_bucket_simps [simp]:
  "bump_bucket [] = []" "bump_bucket (e # es) = e\<lparr>e_skipCount := Suc (e_skipCount e)\<rparr> # es"
  "map strip (bump_bucket b) = map strip b" "bump_bucket b = [] \<longleftrightarrow> b = []"
  by (simp_all add: bump_bucket_def split: list.splits)

lemma bump_head_fields [simp]:
  "q_order (bump_head t q) = q_order q" "q_cursor (bump_head t q) = q_cursor q"
  "q_count (bump_head t q) = q_count q" "q_cost (bump_head t q) = q_cost q"
  "q_maxCount (bump_head t q) = q_maxCount q" "q_maxCost (bump_head t q) = q_maxCost q"
  "q_buckets (bump_head t q) = (q_buckets q)(t := map_option bump_bucket (q_buckets q t))"
  by (auto simp: bump_head_def fun_upd_idem_iff split: option.splits list.splits)

lemma fold_bump_fields [simp]:
  "q_order (fold bump_head ts q) = q_order q" "q_cursor (fold bump_head ts q) = q_cursor q"
  "q_count (fold bump_head ts q) = q_count q" "q_cost (fold bump_head ts q) = q_cost q"
  "q_maxCount (fold bump_head ts q) = q_maxCount q" "q_maxCost (fold bump_head ts q) = q_maxCost q"
  by (induction ts arbitrary: q) auto

lemma fold_bump_buckets:
  "distinct ts \<Longrightarrow> q_buckets (fold bump_head ts q) t =
     (if t \<in> set ts then map_option bump_bucket (q_buckets q t) else q_buckets q t)"
  by (induction ts arbitrary: q) auto

lemma fold_bump_mset:
  assumes "distinct ts" shows "q_mset (fold bump_head ts q) = q_mset q"
proof (rule q_mset_cong)
  show "map strip (q_bucket (fold bump_head ts q) t) = map strip (q_bucket q t)" for t
    using assms by (cases "q_buckets q t") (simp_all add: q_bucket_def fold_bump_buckets)
qed simp

lemma fold_bump_inv:
  assumes inv: "fcq_inv q" and d: "distinct ts"
    and low: "\<And>t e. t \<in> set ts \<Longrightarrow> bucket_head q t = Some e \<Longrightarrow> e_skipCount e < MAX_UNFITTABLE_SKIPS"
  shows "fcq_inv (fold bump_head ts q)"
proof -
  have "bucket_ok t (bump_bucket b)" if "q_buckets q t = Some b" "t \<in> set ts" for t b
  proof -
    have ok: "bucket_ok t b" using inv that(1) by (simp add: fcq_inv_def)
    then obtain e es where b: "b = e # es" by (cases b) (auto simp: bucket_ok_def)
    then have "e_skipCount e < MAX_UNFITTABLE_SKIPS"
      using low [OF that(2), of e] that(1) by (simp add: bucket_head_def)
    with ok b show ?thesis by (simp add: bucket_ok_def)
  qed
  then have "\<forall>t b. q_buckets (fold bump_head ts q) t = Some b \<longrightarrow> bucket_ok t b"
    using inv d by (auto simp: fold_bump_buckets fcq_inv_def)
  moreover have "dom (q_buckets (fold bump_head ts q)) = dom (q_buckets q)"
    using d by (auto simp: fold_bump_buckets dom_def split: if_splits)
  ultimately show ?thesis
    using inv d by (simp add: fcq_inv_def fcq_shape_def fcq_counts_def fold_bump_mset)
qed

subsection \<open>The two scans\<close>

definition aged :: "'p fcq \<Rightarrow> nat \<Rightarrow> bool" where
  "aged q i \<longleftrightarrow> (\<exists>e. bucket_head q (q_order q ! i) = Some e \<and> e_skipCount e \<ge> MAX_UNFITTABLE_SKIPS)"

lemma scan_reserved_None:
  "scan_reserved q is r = None \<longleftrightarrow> r = None \<and> (\<forall>i\<in>set is. \<not> aged q i)"
  by (induction q "is" r rule: scan_reserved.induct)
     (auto simp: aged_def split: option.splits if_splits)

lemma scan_reserved_Some:
  assumes "scan_reserved q is r = Some (i, e)"
    and "\<And>j f. r = Some (j, f) \<Longrightarrow> j < n \<and> bucket_head q (q_order q ! j) = Some f
                             \<and> MAX_UNFITTABLE_SKIPS \<le> e_skipCount f"
    and "\<forall>j\<in>set is. j < n"
  shows "i < n \<and> bucket_head q (q_order q ! i) = Some e \<and> MAX_UNFITTABLE_SKIPS \<le> e_skipCount e
       \<and> (\<forall>j f. r = Some (j, f) \<longrightarrow> e_enqueuedAtMs e \<le> e_enqueuedAtMs f)
       \<and> (\<forall>j f. j \<in> set is \<longrightarrow> bucket_head q (q_order q ! j) = Some f \<longrightarrow>
              MAX_UNFITTABLE_SKIPS \<le> e_skipCount f \<longrightarrow> e_enqueuedAtMs e \<le> e_enqueuedAtMs f)"
  using assms
proof (induction q "is" r rule: scan_reserved.induct)
  case (1 q r)
  then show ?case by auto
next
  case (2 q idx "is" r)
  consider (none) "bucket_head q (q_order q ! idx) = None"
    | (young) f where "bucket_head q (q_order q ! idx) = Some f" "e_skipCount f < MAX_UNFITTABLE_SKIPS"
    | (new) f where "bucket_head q (q_order q ! idx) = Some f" "MAX_UNFITTABLE_SKIPS \<le> e_skipCount f"
        "r = None \<or> (\<exists>j g. r = Some (j, g) \<and> e_enqueuedAtMs f < e_enqueuedAtMs g)"
    | (keep) f j g where "bucket_head q (q_order q ! idx) = Some f" "MAX_UNFITTABLE_SKIPS \<le> e_skipCount f"
        "r = Some (j, g)" "\<not> e_enqueuedAtMs f < e_enqueuedAtMs g"
    by (cases "bucket_head q (q_order q ! idx)"; cases r) (auto, (meson not_le)+)
  then show ?case
  proof cases
    case none
    with 2 show ?thesis by auto
  next
    case young
    with 2 show ?thesis by auto
  next
    case new
    from new(3) have s: "scan_reserved q is (Some (idx, f)) = Some (i, e)"
      using "2.prems"(1) new(1,2) by auto
    have h: "idx < n \<and> bucket_head q (q_order q ! idx) = Some f \<and> MAX_UNFITTABLE_SKIPS \<le> e_skipCount f"
      using new "2.prems"(3) by simp
    have "i < n \<and> bucket_head q (q_order q ! i) = Some e \<and> MAX_UNFITTABLE_SKIPS \<le> e_skipCount e
       \<and> e_enqueuedAtMs e \<le> e_enqueuedAtMs f
       \<and> (\<forall>j f. j \<in> set is \<longrightarrow> bucket_head q (q_order q ! j) = Some f \<longrightarrow>
              MAX_UNFITTABLE_SKIPS \<le> e_skipCount f \<longrightarrow> e_enqueuedAtMs e \<le> e_enqueuedAtMs f)"
      using "2.IH" new s h "2.prems"(3) by auto
    with new show ?thesis by force
  next
    case keep
    with 2 show ?thesis by force
  qed
qed

lemma scan_fit_None:
  "scan_fit q mx is bs = None \<longleftrightarrow> (\<forall>i\<in>set is. \<forall>e. bucket_head q (q_order q ! i) = Some e \<longrightarrow> mx < e_cost e)"
  by (induction q mx "is" bs rule: scan_fit.induct) (auto split: option.splits)

lemma scan_fit_Some:
  assumes "scan_fit q mx is bs = Some (idx, bs')"
    and "\<forall>i\<in>set is. bucket_head q (q_order q ! i) \<noteq> None"
  shows "\<exists>xs ys e. is = xs @ idx # ys \<and> bs' = bs @ map ((!) (q_order q)) xs
     \<and> bucket_head q (q_order q ! idx) = Some e \<and> e_cost e \<le> mx
     \<and> (\<forall>i\<in>set xs. \<forall>f. bucket_head q (q_order q ! i) = Some f \<longrightarrow> mx < e_cost f)"
  using assms
proof (induction q mx "is" bs rule: scan_fit.induct)
  case (2 q mx i "is" bs)
  then obtain e where e: "bucket_head q (q_order q ! i) = Some e" by auto
  show ?case
  proof (cases "e_cost e > mx")
    case True
    then obtain xs ys e' where "is = xs @ idx # ys" "bs' = (bs @ [q_order q ! i]) @ map ((!) (q_order q)) xs"
      "bucket_head q (q_order q ! idx) = Some e'" "e_cost e' \<le> mx"
      "\<forall>i\<in>set xs. \<forall>f. bucket_head q (q_order q ! i) = Some f \<longrightarrow> mx < e_cost f"
      using "2.IH"(2) [OF e True] "2.prems" e by auto
    then show ?thesis using True e
      by (intro exI [of _ "i # xs"] exI [of _ ys] exI [of _ e']) auto
  next
    case False
    then show ?thesis using "2.prems" e by (intro exI [of _ "[]"] exI [of _ "is"]) auto
  qed
qed simp


subsection \<open>Dequeue\<close>

text \<open>What every tenant sees of the queue: the list of its entries, skip counts aside.\<close>

definition lane :: "'p fcq \<Rightarrow> string \<Rightarrow> 'p qentry list" where
  "lane q t = map strip (q_bucket q t)"

lemma lane_fold_bump: "distinct ts \<Longrightarrow> lane (fold bump_head ts q) t = lane q t"
  by (cases "q_buckets q t") (simp_all add: lane_def q_bucket_def fold_bump_buckets)

lemma bucket_head_fold_bump:
  "distinct ts \<Longrightarrow> t \<notin> set ts \<Longrightarrow> bucket_head (fold bump_head ts q) t = bucket_head q t"
  by (simp add: bucket_head_def fold_bump_buckets)

lemma bucket_head_ok:
  assumes "fcq_inv q" and "bucket_head q t = Some e"
  shows "e_tenantKey e = t" "0 < e_cost e" "e_cost e \<le> MAX_SAFE_INTEGER"
    "e_skipCount e \<le> MAX_UNFITTABLE_SKIPS"
proof -
  obtain es where b: "q_buckets q t = Some (e # es)"
    using assms(2) by (auto simp: bucket_head_def split: option.splits list.splits)
  then have "bucket_ok t (e # es)" using assms(1) by (simp add: fcq_inv_def)
  then show "e_tenantKey e = t" "0 < e_cost e" "e_cost e \<le> MAX_SAFE_INTEGER"
    "e_skipCount e \<le> MAX_UNFITTABLE_SKIPS" by (simp_all add: bucket_ok_def)
qed

lemma takeAt_lanes:
  assumes "bucket_head q (q_order q ! idx) = Some e"
  shows "lane q (q_order q ! idx) = strip e # lane (snd (takeAt idx q)) (q_order q ! idx)"
    and "t \<noteq> q_order q ! idx \<Longrightarrow> q_buckets (snd (takeAt idx q)) t = q_buckets q t"
proof -
  obtain es where b: "q_buckets q (q_order q ! idx) = Some (e # es)"
    using assms by (auto simp: bucket_head_def split: option.splits list.splits)
  then show "lane q (q_order q ! idx) = strip e # lane (snd (takeAt idx q)) (q_order q ! idx)"
    by (simp add: lane_def takeAt_def Let_def q_bucket_def)
  show "t \<noteq> q_order q ! idx \<Longrightarrow> q_buckets (snd (takeAt idx q)) t = q_buckets q t"
    using b by (simp add: takeAt_def Let_def)
qed

text \<open>
  The outcomes of \<open>dequeue\<close>: nothing queued, an aged head that does not fit blocks, an aged
  head that fits goes, no head fits, or the first fitting head of the rotation goes and the
  heads before it are marked.
\<close>

lemma dequeue_cases:
  assumes inv: "fcq_inv q"
  obtains (empty) "q_order q = []" "dequeue mx q = (None, q)"
  | (blocked) i e where "i < length (q_order q)" "bucket_head q (q_order q ! i) = Some e"
      "MAX_UNFITTABLE_SKIPS \<le> e_skipCount e" "mx < e_cost e" "dequeue mx q = (None, q)"
  | (reserved) i e where "i < length (q_order q)" "bucket_head q (q_order q ! i) = Some e"
      "MAX_UNFITTABLE_SKIPS \<le> e_skipCount e" "e_cost e \<le> mx" "dequeue mx q = takeAt i q"
      "\<And>t f. bucket_head q t = Some f \<Longrightarrow> MAX_UNFITTABLE_SKIPS \<le> e_skipCount f \<Longrightarrow>
         t \<in> set (q_order q) \<Longrightarrow> e_enqueuedAtMs e \<le> e_enqueuedAtMs f"
  | (unfit) "q_order q \<noteq> []" "\<And>t f. t \<in> set (q_order q) \<Longrightarrow> bucket_head q t = Some f \<Longrightarrow> mx < e_cost f"
      "dequeue mx q = (None, q)"
  | (fit) i e xs ys where "i < length (q_order q)" "bucket_head q (q_order q ! i) = Some e"
      "e_cost e \<le> mx" "rotation (q_cursor q) (length (q_order q)) = xs @ i # ys"
      "\<And>j f. j \<in> set xs \<Longrightarrow> bucket_head q (q_order q ! j) = Some f \<Longrightarrow> mx < e_cost f"
      "\<forall>t\<in>set (q_order q). \<forall>f. bucket_head q t = Some f \<longrightarrow> e_skipCount f < MAX_UNFITTABLE_SKIPS"
      "dequeue mx q = takeAt i (fold bump_head (map ((!) (q_order q)) xs) q)"
proof (cases "q_order q = []")
  case True
  then have "q_count q = 0" using inv by (simp add: fcq_inv_def fcq_counts_def q_mset_def)
  with True show ?thesis by (intro empty) (simp_all add: dequeue_def)
next
  case ne: False
  let ?n = "length (q_order q)"
  let ?rot = "rotation (q_cursor q) ?n"
  have cnt: "q_count q \<noteq> 0" using inv ne q_mset_empty_iff [OF inv]
    by (auto simp: fcq_inv_def fcq_counts_def)
  have heads: "\<forall>i\<in>set ?rot. bucket_head q (q_order q ! i) \<noteq> None"
    using bucket_head_of_order [OF inv] by (fastforce simp: bucket_head_def)
  show ?thesis
  proof (cases "scan_reserved q ?rot None")
    case (Some p)
    obtain i e where p: "p = (i, e)" by (cases p)
    have s: "i < ?n" "bucket_head q (q_order q ! i) = Some e" "MAX_UNFITTABLE_SKIPS \<le> e_skipCount e"
      and old: "\<And>j f. j < ?n \<Longrightarrow> bucket_head q (q_order q ! j) = Some f \<Longrightarrow>
        MAX_UNFITTABLE_SKIPS \<le> e_skipCount f \<Longrightarrow> e_enqueuedAtMs e \<le> e_enqueuedAtMs f"
      using scan_reserved_Some [OF Some [unfolded p], of ?n] by auto
    show ?thesis
    proof (cases "e_cost e > mx")
      case True
      with s Some p cnt show ?thesis by (intro blocked [of i e]) (simp_all add: dequeue_def)
    next
      case False
      with s Some p cnt show ?thesis
        by (intro reserved [of i e]) (auto simp: dequeue_def in_set_conv_nth intro: old)
    qed
  next
    case None
    then have young: "e_skipCount f < MAX_UNFITTABLE_SKIPS"
      if "t \<in> set (q_order q)" "bucket_head q t = Some f" for t f
      using that by (force simp: scan_reserved_None aged_def in_set_conv_nth)
    show ?thesis
    proof (cases "scan_fit q mx ?rot []")
      case n2: None
      then have "mx < e_cost f" if "t \<in> set (q_order q)" "bucket_head q t = Some f" for t f
        using that by (force simp: scan_fit_None in_set_conv_nth)
      then show ?thesis using None n2 cnt ne by (intro unfit) (auto simp: dequeue_def)
    next
      case (Some p)
      obtain i bs where p: "p = (i, bs)" by (cases p)
      from scan_fit_Some [OF Some [unfolded p] heads] obtain xs ys e where
        f: "?rot = xs @ i # ys" "bs = map ((!) (q_order q)) xs" "bucket_head q (q_order q ! i) = Some e"
          "e_cost e \<le> mx" "\<forall>j\<in>set xs. \<forall>f. bucket_head q (q_order q ! j) = Some f \<longrightarrow> mx < e_cost f"
        by auto
      have "i \<in> set ?rot" unfolding f(1) by simp
      then have "i < ?n" by simp
      then show ?thesis using f None Some p cnt young
        by (intro fit [of i e xs ys]) (auto simp: dequeue_def)
    qed
  qed
qed


text \<open>The tenants marked as bypassed are distinct and exclude the one served.\<close>

lemma bypassed_tenants:
  assumes inv: "fcq_inv q" and rot: "rotation (q_cursor q) (length (q_order q)) = xs @ i # ys"
  shows "distinct (map ((!) (q_order q)) xs)" "q_order q ! i \<notin> set (map ((!) (q_order q)) xs)"
    "\<forall>j\<in>set xs. j < length (q_order q)"
proof -
  let ?n = "length (q_order q)"
  have d: "distinct (q_order q)" using inv by (simp add: fcq_inv_def fcq_shape_def)
  have dx: "distinct (xs @ i # ys)" using rot by (metis distinct_rotation)
  have s: "set (xs @ i # ys) = {0..<?n}" using rot by (metis set_rotation)
  then show lt: "\<forall>j\<in>set xs. j < ?n" by auto
  have i: "i < ?n" using s by auto
  have inj: "inj_on ((!) (q_order q)) (insert i (set xs))"
    using d lt i by (auto simp: inj_on_def nth_eq_iff_index_eq)
  then show "distinct (map ((!) (q_order q)) xs)" using dx by (simp add: distinct_map)
  show "q_order q ! i \<notin> set (map ((!) (q_order q)) xs)"
    using inj dx by (auto simp: inj_on_def)
qed

text \<open>The queue after marking the bypassed heads.\<close>

lemma bumped_queue:
  assumes inv: "fcq_inv q" and rot: "rotation (q_cursor q) (length (q_order q)) = xs @ i # ys"
    and low: "\<forall>t\<in>set (q_order q). \<forall>f. bucket_head q t = Some f \<longrightarrow> e_skipCount f < MAX_UNFITTABLE_SKIPS"
    and h: "bucket_head q (q_order q ! i) = Some e"
  defines "p \<equiv> fold bump_head (map ((!) (q_order q)) xs) q"
  shows "fcq_inv p" "bucket_head p (q_order q ! i) = Some e" "q_mset p = q_mset q" "lane p t = lane q t"
    "q_order p = q_order q"
proof -
  note b = bypassed_tenants [OF inv rot]
  have "e_skipCount f < MAX_UNFITTABLE_SKIPS"
    if "t \<in> set (map ((!) (q_order q)) xs)" "bucket_head q t = Some f" for t f
    using that b(3) low by auto
  then show "fcq_inv p" unfolding p_def by (rule fold_bump_inv [OF inv b(1)])
  show "bucket_head p (q_order q ! i) = Some e" "q_mset p = q_mset q" "lane p t = lane q t"
    "q_order p = q_order q"
    unfolding p_def using b(1,2) h
    by (simp_all add: bucket_head_fold_bump fold_bump_mset lane_fold_bump)
qed

lemma dequeue_None:
  assumes inv: "fcq_inv q" and none: "fst (dequeue mx q) = None"
  shows "snd (dequeue mx q) = q"
  using inv
proof (cases rule: dequeue_cases [of q mx])
  case (reserved i e)
  then show ?thesis using none takeAt_spec(1) [OF inv reserved(1,2)] by simp
next
  case (fit i e xs ys)
  note B = bumped_queue [OF inv fit(4,6,2)]
  show ?thesis using none fit takeAt_spec(1) [OF B(1), of i] B by simp
qed simp_all

lemma dequeue_Some:
  assumes inv: "fcq_inv q" and d: "dequeue mx q = (Some e, q')"
  shows "e_cost e \<le> mx" "0 < e_cost e" "fcq_inv q'" "q_mset q = add_mset e (q_mset q')"
    "lane q (e_tenantKey e) = e # lane q' (e_tenantKey e)"
    "t \<noteq> e_tenantKey e \<Longrightarrow> lane q' t = lane q t"
    "e_skipCount e = 0" "e_tenantKey e \<in> set (q_order q)"
proof -
  have "\<exists>p i f. fcq_inv p \<and> i < length (q_order p) \<and> bucket_head p (q_order p ! i) = Some f \<and> e_cost f \<le> mx
      \<and> takeAt i p = (Some e, q') \<and> q_mset p = q_mset q \<and> (\<forall>t. lane p t = lane q t) \<and> q_order p = q_order q"
    using inv
  proof (cases rule: dequeue_cases [of q mx])
    case (reserved i f)
    then show ?thesis using inv d by (intro exI [of _ q] exI [of _ i] exI [of _ f]) auto
  next
    case (fit i f xs ys)
    let ?p = "fold bump_head (map ((!) (q_order q)) xs) q"
    note B = bumped_queue [OF inv fit(4,6,2)]
    have "fcq_inv ?p" "bucket_head ?p (q_order q ! i) = Some f" "q_mset ?p = q_mset q" "\<forall>t. lane ?p t = lane q t"
      using fit(6) B by simp_all
    then show ?thesis using fit d
      by (intro exI [of _ ?p] exI [of _ i] exI [of _ f]) simp
  qed (use d in auto)
  then obtain p i f where p: "fcq_inv p" "i < length (q_order p)" "bucket_head p (q_order p ! i) = Some f"
    "e_cost f \<le> mx" "takeAt i p = (Some e, q')" "q_mset p = q_mset q" "\<And>t. lane p t = lane q t"
    "q_order p = q_order q" by blast
  note T = takeAt_spec [OF p(1,2,3)]
  have e: "e = strip f" using T(1) p(5) by simp
  have t: "e_tenantKey e = q_order p ! i" using bucket_head_ok [OF p(1,3)] e by simp
  show "e_cost e \<le> mx" "0 < e_cost e" "e_skipCount e = 0" using bucket_head_ok [OF p(1,3)] p(4) e by simp_all
  show "fcq_inv q'" "q_mset q = add_mset e (q_mset q')" using T p(5,6) e by auto
  show "lane q (e_tenantKey e) = e # lane q' (e_tenantKey e)"
    using takeAt_lanes(1) [OF p(3)] p(5,7) e t by simp
  show "t \<noteq> e_tenantKey e \<Longrightarrow> lane q' t = lane q t"
    using takeAt_lanes(2) [OF p(3), of t] p(5) p(7) [of t] t by (simp add: lane_def q_bucket_def)
  show "e_tenantKey e \<in> set (q_order q)" using t p(2,8) by simp
qed


subsection \<open>The service order\<close>

text \<open>The tenants in the order the next passes visit them.\<close>

definition q_rr :: "'p fcq \<Rightarrow> string list" where
  "q_rr q = drop (q_cursor q) (q_order q) @ take (q_cursor q) (q_order q)"

lemma set_q_rr [simp]: "set (q_rr q) = set (q_order q)"
  by (metis append_take_drop_id q_rr_def set_append sup_commute)


text \<open>Serving position \<open>idx\<close> makes its successor first; a tenant with more work goes last.\<close>

lemma takeAt_rr:
  assumes inv: "fcq_inv q" and idx: "idx < length (q_order q)"
    and b: "q_buckets q (q_order q ! idx) = Some (e # es)"
  shows "q_rr (snd (takeAt idx q)) =
    drop (Suc idx) (q_order q) @ take idx (q_order q) @ (if es = [] then [] else [q_order q ! idx])"
proof (cases "es = []")
  case True
  let ?o = "remove_nth idx (q_order q)"
  have f: "q_order (snd (takeAt idx q)) = ?o"
    "q_cursor (snd (takeAt idx q)) = (if ?o = [] then 0 else idx mod length ?o)"
    using b True by (simp_all add: takeAt_def Let_def)
  have l: "length ?o = length (q_order q) - 1" using idx by (simp add: remove_nth_def)
  show ?thesis
  proof (cases "idx = length (q_order q) - 1")
    case last: True
    then have "idx = length ?o" using l by simp
    then have "idx mod length ?o = 0" by (cases "?o = []") auto
    then show ?thesis using f idx last True by (auto simp: q_rr_def remove_nth_def)
  next
    case False
    then have "idx < length ?o" using l idx by simp
    then have "q_cursor (snd (takeAt idx q)) = idx" using f by (auto simp: mod_less)
    then show ?thesis using f idx True by (simp add: q_rr_def remove_nth_def)
  qed
next
  case False
  have f: "q_order (snd (takeAt idx q)) = q_order q"
    "q_cursor (snd (takeAt idx q)) = (idx + 1) mod length (q_order q)"
    using b False by (simp_all add: takeAt_def Let_def)
  show ?thesis
  proof (cases "Suc idx = length (q_order q)")
    case True
    have "q_order q = take (Suc idx) (q_order q)" using True by simp
    then show ?thesis using f False True idx take_Suc_conv_app_nth [OF idx]
      by (simp add: q_rr_def)
  next
    case ne: False
    then have "(idx + 1) mod length (q_order q) = Suc idx" using idx by simp
    then show ?thesis using f False take_Suc_conv_app_nth [OF idx] by (simp add: q_rr_def)
  qed
qed

lemma takeAt_cursor_rr:
  assumes inv: "fcq_inv q" and b: "q_buckets q (q_order q ! q_cursor q) = Some (e # es)"
    and ne: "q_order q \<noteq> []"
  shows "q_rr q = (q_order q ! q_cursor q) # tl (q_rr q)"
    and "q_rr (snd (takeAt (q_cursor q) q)) = tl (q_rr q) @ (if es = [] then [] else [hd (q_rr q)])"
proof -
  have c: "q_cursor q < length (q_order q)" using inv ne by (auto simp: fcq_inv_def fcq_shape_def)
  have d: "drop (q_cursor q) (q_order q) = q_order q ! q_cursor q # drop (Suc (q_cursor q)) (q_order q)"
    using c by (rule Cons_nth_drop_Suc [symmetric])
  show "q_rr q = (q_order q ! q_cursor q) # tl (q_rr q)" by (simp add: q_rr_def d)
  show "q_rr (snd (takeAt (q_cursor q) q)) = tl (q_rr q) @ (if es = [] then [] else [hd (q_rr q)])"
    using takeAt_rr [OF inv c b] by (simp add: q_rr_def d)
qed

text \<open>Withdrawing a tenant's last entry leaves the order of the others.\<close>

lemma rr_remove_nth:
  assumes "i < length xs" and "c < length xs"
  defines "ys \<equiv> remove_nth i xs"
  defines "d \<equiv> (if ys = [] then 0 else if i < c then c - 1 else if c \<ge> length ys then 0 else c)"
  assumes "distinct xs"
  shows "drop d ys @ take d ys = remove1 (xs ! i) (drop c xs @ take c xs)"
proof -
  have x: "xs = take i xs @ xs ! i # drop (Suc i) xs" using assms(1) by (rule id_take_nth_drop)
  have dx: "distinct (take i xs @ xs ! i # drop (Suc i) xs)" using assms(5) x by simp
  show ?thesis
  proof (cases "i < c")
    case True
    then have "ys \<noteq> []" using assms by (auto simp: ys_def remove_nth_def)
    then have d: "d = c - 1" using True by (simp add: d_def)
    have "take c xs = take i xs @ xs ! i # take (c - Suc i) (drop (Suc i) xs)"
      using True assms(1) by (subst x) (simp add: take_Cons' min_def)
    moreover have "xs ! i \<notin> set (take i xs)" "xs ! i \<notin> set (drop c xs)"
      using dx True set_drop_subset_set_drop [of "Suc i" c xs] by auto
    ultimately have "remove1 (xs ! i) (drop c xs @ take c xs)
        = drop c xs @ take i xs @ take (c - Suc i) (drop (Suc i) xs)"
      by (simp add: remove1_append)
    moreover have "drop (c - 1) ys = drop c xs"
      using True assms(1) by (simp add: ys_def remove_nth_def)
    moreover have "take (c - 1) ys = take i xs @ take (c - Suc i) (drop (Suc i) xs)"
      using True assms(1) by (auto simp: ys_def remove_nth_def min_def not_le dest: le_antisym)
    ultimately show ?thesis using d by simp
  next
    case False
    have "drop c xs = drop c (take i xs) @ xs ! i # drop (Suc i) xs"
      using False assms(1) by (subst x) simp
    moreover have "xs ! i \<notin> set (drop c (take i xs))" using dx by (auto dest: in_set_dropD)
    ultimately have r: "remove1 (xs ! i) (drop c xs @ take c xs)
        = drop c (take i xs) @ drop (Suc i) xs @ take c xs" by (simp add: remove1_append)
    have y: "drop c ys = drop c (take i xs) @ drop (Suc i) xs" "take c ys = take c xs"
      using False assms(1) by (simp_all add: ys_def remove_nth_def min_def)
    have l: "length ys = length xs - 1" using assms(1) by (simp add: ys_def remove_nth_def)
    show ?thesis
    proof (cases "c \<ge> length ys")
      case True
      then have "drop c ys = []" "take c ys = ys" by simp_all
      then show ?thesis using y r True False by (auto simp: d_def)
    next
      case nl: False
      then show ?thesis using y r False by (auto simp: d_def)
    qed
  qed
qed

subsection \<open>Removal by id\<close>

lemma split_id_Some:
  "split_id i b = Some (xs, e, ys) \<Longrightarrow> b = xs @ e # ys \<and> e_id e = i \<and> (\<forall>x\<in>set xs. e_id x \<noteq> i)"
  by (induction i b arbitrary: xs rule: split_id.induct) (auto split: if_splits)

lemma split_id_None: "split_id i b = None \<longleftrightarrow> (\<forall>e\<in>set b. e_id e \<noteq> i)"
  by (induction i b rule: split_id.induct) auto

lemma bucket_ok_delete:
  "bucket_ok t (xs @ e # ys) \<Longrightarrow> xs @ ys \<noteq> [] \<Longrightarrow> bucket_ok t (xs @ ys)"
  by (cases xs; cases ys) (auto simp: bucket_ok_def)

lemma remove_scan_cases:
  assumes "fcq_inv q" and "\<forall>ti\<in>set tis. ti < length (q_order q)"
  obtains (absent) "remove_scan i tis q = (None, q)"
      "\<And>ti e. ti \<in> set tis \<Longrightarrow> e \<in> set (q_bucket q (q_order q ! ti)) \<Longrightarrow> e_id e \<noteq> i"
  | (found) ti xs e ys b where "ti \<in> set tis" "q_buckets q (q_order q ! ti) = Some b"
      "split_id i b = Some (xs, e, ys)" "remove_scan i tis q = remove_scan i [ti] q"
proof -
  have "(remove_scan i tis q = (None, q) \<and>
      (\<forall>ti\<in>set tis. \<forall>e\<in>set (q_bucket q (q_order q ! ti)). e_id e \<noteq> i)) \<or>
    (\<exists>ti xs e ys b. ti \<in> set tis \<and> q_buckets q (q_order q ! ti) = Some b \<and>
      split_id i b = Some (xs, e, ys) \<and> remove_scan i tis q = remove_scan i [ti] q)"
    using assms(2)
  proof (induction tis)
    case (Cons ti tis)
    obtain b where b: "q_buckets q (q_order q ! ti) = Some b"
      using bucket_head_of_order [OF assms(1)] Cons.prems by (metis list.set_intros(1))
    show ?case
    proof (cases "split_id i b")
      case None
      then have "remove_scan i (ti # tis) q = remove_scan i tis q" using b by (simp add: Let_def)
      moreover have "\<forall>e\<in>set (q_bucket q (q_order q ! ti)). e_id e \<noteq> i"
        using None b by (simp add: split_id_None)
      ultimately show ?thesis using Cons by (simp del: remove_scan.simps) blast
    next
      case (Some p)
      obtain xs e ys where p: "p = (xs, e, ys)" by (cases p)
      with Some b have "remove_scan i (ti # tis) q = remove_scan i [ti] q" by (simp add: Let_def)
      with Some p b show ?thesis
        by (intro disjI2 exI [of _ ti] exI [of _ xs] exI [of _ e] exI [of _ ys] exI [of _ b])
          (simp del: remove_scan.simps)
    qed
  qed simp
  then show thesis using absent found by blast
qed

lemma removeById_absent:
  assumes inv: "fcq_inv q" and no: "\<And>e t. e \<in> set (lane q t) \<Longrightarrow> e_id e \<noteq> i"
  shows "removeById i q = (None, q)"
proof -
  have no': "e_id e \<noteq> i" if "e \<in> set (q_bucket q t)" for e t
    using no [of "strip e" t] that by (simp add: lane_def)
  have tis: "\<forall>ti\<in>set [0..<length (q_order q)]. ti < length (q_order q)" by simp
  show ?thesis using inv tis
  proof (cases rule: remove_scan_cases [where i = i])
    case (found ti xs e ys b)
    then show ?thesis using no' [of e "q_order q ! ti"] split_id_Some [OF found(3)] by simp
  next
    case absent
    then show ?thesis by (simp add: removeById_def)
  qed
qed

lemma removeById_spec:
  assumes inv: "fcq_inv q" and r: "removeById i q = (r, q')"
  shows "r = None \<Longrightarrow> q' = q \<and> (\<forall>t. \<forall>e\<in>set (lane q t). e_id e \<noteq> i)" and "fcq_inv q'"
    and "r = Some e \<Longrightarrow> e_id e = i \<and> e_tenantKey e \<in> set (q_order q) \<and> q_mset q = add_mset (strip e) (q_mset q')
        \<and> (\<exists>xs ys. lane q (e_tenantKey e) = xs @ strip e # ys \<and> lane q' (e_tenantKey e) = xs @ ys)
        \<and> (\<forall>t. t \<noteq> e_tenantKey e \<longrightarrow> lane q' t = lane q t)
        \<and> q_rr q' = (if lane q' (e_tenantKey e) = [] then remove1 (e_tenantKey e) (q_rr q) else q_rr q)"
proof -
  have tis: "\<forall>ti\<in>set [0..<length (q_order q)]. ti < length (q_order q)" by simp
  have "(r = None \<longrightarrow> q' = q \<and> (\<forall>t. \<forall>e\<in>set (lane q t). e_id e \<noteq> i)) \<and> fcq_inv q' \<and>
     (\<forall>e. r = Some e \<longrightarrow> e_id e = i \<and> e_tenantKey e \<in> set (q_order q) \<and> q_mset q = add_mset (strip e) (q_mset q')
        \<and> (\<exists>xs ys. lane q (e_tenantKey e) = xs @ strip e # ys \<and> lane q' (e_tenantKey e) = xs @ ys)
        \<and> (\<forall>t. t \<noteq> e_tenantKey e \<longrightarrow> lane q' t = lane q t)
        \<and> q_rr q' = (if lane q' (e_tenantKey e) = [] then remove1 (e_tenantKey e) (q_rr q) else q_rr q))"
    using inv tis
  proof (cases rule: remove_scan_cases [where i = i])
    case absent
    then have rq: "r = None" "q' = q" using r by (simp_all add: removeById_def)
    have "e_id e \<noteq> i" if e: "e \<in> set (lane q t)" for t e
    proof -
      from e have "q_buckets q t \<noteq> None" by (cases "q_buckets q t") (simp_all add: lane_def q_bucket_def)
      then have "t \<in> set (q_order q)" using inv by (auto simp: fcq_inv_def fcq_shape_def)
      then obtain ti where "ti < length (q_order q)" "q_order q ! ti = t" by (auto simp: in_set_conv_nth)
      moreover obtain x where "e = strip x" "x \<in> set (q_bucket q t)" using e by (auto simp: lane_def)
      ultimately show ?thesis using absent(2) [of ti x] by simp
    qed
    then show ?thesis using rq inv by simp
  next
    case (found ti xs e ys b)
    let ?t = "q_order q ! ti"
    have b: "b = xs @ e # ys" "e_id e = i" using split_id_Some [OF found(3)] by simp_all
    have ti: "ti < length (q_order q)" using found(1) by simp
    have ok: "bucket_ok ?t (xs @ e # ys)" using inv found(2) b by (simp add: fcq_inv_def)
    then have et: "e_tenantKey e = ?t" by (simp add: bucket_ok_def)
    have rq: "remove_scan i [ti] q = (r, q')" using r found(4) by (simp add: removeById_def)
    have re: "r = Some e" using rq found(2,3) by (simp add: Let_def)
    have f: "q_order q' = (if xs @ ys = [] then remove_nth ti (q_order q) else q_order q)"
      "q_buckets q' = (q_buckets q)(?t := (if xs @ ys = [] then None else Some (xs @ ys)))"
      "q_count q' = q_count q - 1" "q_cost q' = q_cost q - e_cost e"
      "q_cursor q' = (if xs @ ys \<noteq> [] then q_cursor q
                      else if remove_nth ti (q_order q) = [] then 0
                      else if ti < q_cursor q then q_cursor q - 1
                      else if q_cursor q \<ge> length (remove_nth ti (q_order q)) then 0 else q_cursor q)"
      using rq found(2,3) by (auto simp: Let_def)
    have "q_cursor q < length (q_order q)" "length (remove_nth ti (q_order q)) = length (q_order q) - 1"
      using inv ti by (auto simp: fcq_inv_def fcq_shape_def remove_nth_props)
    then have c: "q_cursor q' < length (q_order q') \<or> q_order q' = [] \<and> q_cursor q' = 0"
      using f(1,5) ti by (auto simp: length_greater_0_conv [symmetric] simp del: length_greater_0_conv)
    have m: "image_mset strip (mset b) = add_mset (strip e) (image_mset strip (mset (xs @ ys)))"
      using b by simp
    have ok': "xs @ ys \<noteq> [] \<Longrightarrow> bucket_ok ?t (xs @ ys)" using ok by (rule bucket_ok_delete)
    note R = removal_spec [OF inv ti found(2) m ok' f(1,2,3,4) c]
    have l: "lane q ?t = map strip xs @ strip e # map strip ys" "lane q' ?t = map strip xs @ map strip ys"
      using found(2) b f(2) by (auto simp: lane_def q_bucket_def)
    have "lane q' t = lane q t" if "t \<noteq> ?t" for t
      using that f(2) by (simp add: lane_def q_bucket_def)
    moreover have "q_rr q' = (if xs @ ys = [] then remove1 ?t (q_rr q) else q_rr q)"
    proof (cases "xs @ ys = []")
      case True
      then have "q_order q' = remove_nth ti (q_order q)"
        "q_cursor q' = (if remove_nth ti (q_order q) = [] then 0
                      else if ti < q_cursor q then q_cursor q - 1
                      else if q_cursor q \<ge> length (remove_nth ti (q_order q)) then 0 else q_cursor q)"
        using f by simp_all
      then show ?thesis
        using True rr_remove_nth [OF ti \<open>q_cursor q < length (q_order q)\<close>] inv
        by (simp add: q_rr_def fcq_inv_def fcq_shape_def)
    next
      case False
      have "q_order q' = q_order q" using f(1) unfolding if_not_P [OF False] .
      moreover have "q_cursor q' = q_cursor q" using f(5) unfolding if_P [OF False] .
      ultimately show ?thesis by (simp only: q_rr_def False if_False)
    qed
    ultimately show ?thesis using R re b et l ti by auto
  qed
  then show "r = None \<Longrightarrow> q' = q \<and> (\<forall>t. \<forall>e\<in>set (lane q t). e_id e \<noteq> i)" "fcq_inv q'"
    "r = Some e \<Longrightarrow> e_id e = i \<and> e_tenantKey e \<in> set (q_order q) \<and> q_mset q = add_mset (strip e) (q_mset q')
        \<and> (\<exists>xs ys. lane q (e_tenantKey e) = xs @ strip e # ys \<and> lane q' (e_tenantKey e) = xs @ ys)
        \<and> (\<forall>t. t \<noteq> e_tenantKey e \<longrightarrow> lane q' t = lane q t)
        \<and> q_rr q' = (if lane q' (e_tenantKey e) = [] then remove1 (e_tenantKey e) (q_rr q) else q_rr q)" by blast+
qed


subsection \<open>Drain\<close>

definition q_weight :: "'p fcq \<Rightarrow> nat" where
  "q_weight q = (\<Sum>t\<in>set (q_order q). length (q_bucket q t))"

lemma set_remove_nth_subset: "set (remove_nth i xs) \<subseteq> set xs"
  by (auto simp: remove_nth_def dest: in_set_takeD in_set_dropD)

lemma takeAt_weight:
  assumes "idx < length (q_order q)" and "takeAt idx q = (Some e, q')"
  shows "q_weight q' < q_weight q"
proof -
  let ?t = "q_order q ! idx"
  obtain f es where b: "q_buckets q ?t = Some (f # es)"
    using assms(2) by (auto simp: takeAt_def Let_def split: option.splits list.splits)
  have sub: "set (q_order q') \<subseteq> set (q_order q)"
    using assms(2) b set_remove_nth_subset [of idx "q_order q"]
    by (auto simp: takeAt_def Let_def split: if_splits)
  have t: "length (q_bucket q' ?t) < length (q_bucket q ?t)"
    and o: "t \<noteq> ?t \<Longrightarrow> length (q_bucket q' t) = length (q_bucket q t)" for t
    using assms(2) b by (auto simp: takeAt_def Let_def q_bucket_def split: if_splits)
  have "q_weight q' \<le> (\<Sum>t\<in>set (q_order q). length (q_bucket q' t))"
    unfolding q_weight_def using sub by (intro sum_mono2) auto
  also have "\<dots> < q_weight q" unfolding q_weight_def
  proof (rule sum_strict_mono_ex1)
    show "\<forall>x\<in>set (q_order q). length (q_bucket q' x) \<le> length (q_bucket q x)"
      using t o by (metis le_eq_less_or_eq)
    show "\<exists>a\<in>set (q_order q). length (q_bucket q' a) < length (q_bucket q a)"
      using t assms(1) by (intro bexI [of _ ?t]) auto
  qed simp
  finally show ?thesis .
qed

lemma bump_weight: "q_weight (fold bump_head ts q) = q_weight q"
proof -
  have one: "q_weight (bump_head t q) = q_weight q" for t and q :: "'a fcq"
    unfolding q_weight_def by (rule sum.cong)
      (auto simp: q_bucket_def bump_bucket_def split: option.splits list.splits)
  show ?thesis by (induction ts arbitrary: q) (simp_all add: one)
qed

lemma scan_reserved_index: "scan_reserved q is r = Some (i, e) \<Longrightarrow> r = Some (i, e) \<or> i \<in> set is"
proof (induction "is" arbitrary: r)
  case (Cons j "is")
  have "\<exists>r'. scan_reserved q (j # is) r = scan_reserved q is r' \<and> (r' = r \<or> (\<exists>f. r' = Some (j, f)))"
    by (cases "bucket_head q (q_order q ! j)") (auto split: option.splits)
  then obtain r' where "scan_reserved q (j # is) r = scan_reserved q is r'"
    "r' = r \<or> (\<exists>f. r' = Some (j, f))" by blast
  then show ?case using Cons.prems Cons.IH [of r'] by (auto simp del: scan_reserved.simps)
qed simp

lemma scan_fit_index: "scan_fit q mx is bs = Some (i, bs') \<Longrightarrow> i \<in> set is"
  by (induction q mx "is" bs rule: scan_fit.induct) (auto split: option.splits if_splits)

lemma dequeue_weight:
  assumes "dequeue mx q = (Some e, q')"
  shows "q_weight q' < q_weight q"
proof -
  let ?rot = "rotation (q_cursor q) (length (q_order q))"
  from assms consider (a) i f where "scan_reserved q ?rot None = Some (i, f)" "takeAt i q = (Some e, q')"
    | (b) i bs where "scan_fit q mx ?rot [] = Some (i, bs)" "takeAt i (fold bump_head bs q) = (Some e, q')"
    by (auto simp: dequeue_def Let_def split: if_splits option.splits)
  then show ?thesis
  proof cases
    case a
    then have "i < length (q_order q)" using scan_reserved_index [OF a(1)] by simp
    then show ?thesis using takeAt_weight a(2) by blast
  next
    case b
    then have "i < length (q_order (fold bump_head bs q))" using scan_fit_index [OF b(1)] by simp
    from takeAt_weight [OF this b(2)] show ?thesis by (simp add: bump_weight)
  qed
qed

function drain_loop :: "'p fcq \<Rightarrow> 'p qentry list \<times> 'p fcq" where
  "drain_loop q =
     (case dequeue MAX_SAFE_INTEGER q of
        (None, q') \<Rightarrow> ([], q')
      | (Some e, q') \<Rightarrow> (let (es, q'') = drain_loop q' in (e # es, q'')))"
  by pat_completeness auto

termination
  by (relation "measure q_weight") (auto dest: dequeue_weight [OF sym])

declare drain_loop.simps [simp del]

definition drain :: "'p fcq \<Rightarrow> 'p qentry list \<times> 'p fcq" where
  "drain q = (let (es, q') = drain_loop q in (es, q'\<lparr>q_cursor := 0\<rparr>))"

text \<open>With the whole budget only the empty queue yields nothing.\<close>

lemma dequeue_all_None:
  assumes inv: "fcq_inv q" and "fst (dequeue mx q) = None" and mx: "MAX_SAFE_INTEGER \<le> mx"
  shows "q_order q = []"
  using inv
proof (cases rule: dequeue_cases [of q mx])
  case (blocked i e)
  then show ?thesis using bucket_head_ok [OF inv blocked(2)] mx by simp
next
  case (reserved i e)
  then show ?thesis using assms(2) takeAt_spec(1) [OF inv reserved(1,2)] by simp
next
  case unfit
  show ?thesis
  proof (rule ccontr)
    assume "q_order q \<noteq> []"
    then have l: "0 < length (q_order q)" by simp
    obtain f es where f: "q_buckets q (q_order q ! 0) = Some (f # es)"
      by (rule bucket_head_of_order [OF inv l])
    then have h: "bucket_head q (q_order q ! 0) = Some f" by (simp add: bucket_head_def)
    have "mx < e_cost f" using unfit(2) [OF _ h] l by simp
    then show False using bucket_head_ok(3) [OF inv h] mx by simp
  qed
next
  case (fit i e xs ys)
  note B = bumped_queue [OF inv fit(4,6,2)]
  have "fst (dequeue mx q) = Some (strip e)"
    unfolding fit(7) by (rule takeAt_spec(1) [OF B(1)]) (use fit(1) B(2,5) in simp_all)
  then show ?thesis using assms(2) by simp
qed simp

lemma drain_loop_spec:
  assumes "fcq_inv q" and "drain_loop q = (es, q')"
  shows "mset es = q_mset q \<and> fcq_inv q' \<and> q_order q' = [] \<and> (\<forall>t. filter (\<lambda>e. e_tenantKey e = t) es = lane q t)"
  using assms
proof (induction q arbitrary: es rule: drain_loop.induct)
  case (1 q)
  obtain r p where d: "dequeue MAX_SAFE_INTEGER q = (r, p)" by (cases "dequeue MAX_SAFE_INTEGER q")
  show ?case
  proof (cases r)
    case None
    then have p: "p = q" "q_order q = []"
      using dequeue_None [OF "1.prems"(1), of MAX_SAFE_INTEGER] dequeue_all_None [OF "1.prems"(1), of MAX_SAFE_INTEGER] d
      by auto
    then have "es = []" "q' = q" using d None "1.prems"(2) by (simp_all add: drain_loop.simps [of q])
    moreover have "lane q t = []" for t
      using p "1.prems"(1) by (auto simp: lane_def q_bucket_def fcq_inv_def fcq_shape_def split: option.splits)
    ultimately show ?thesis using p "1.prems"(1) by (simp add: q_mset_def)
  next
    case (Some e)
    note D = dequeue_Some [OF "1.prems"(1) d [unfolded Some]]
    obtain fs where fs: "drain_loop p = (fs, q')" "es = e # fs"
      using "1.prems"(2) d Some by (auto simp: drain_loop.simps [of q] split: prod.splits)
    have IH: "mset fs = q_mset p \<and> fcq_inv q' \<and> q_order q' = [] \<and> (\<forall>t. filter (\<lambda>e. e_tenantKey e = t) fs = lane p t)"
      using "1.IH" [of r p, OF d [symmetric] Some D(3) fs(1)] by simp
    have "filter (\<lambda>e. e_tenantKey e = t) es = lane q t" for t
      using IH fs(2) D(5) D(6) [of t] by auto
    then show ?thesis using IH fs(2) D(4) by simp
  qed
qed




section \<open>Serving in turn\<close>

text \<open>While every head fits and none is reserved, a pass serves the tenant at the cursor.\<close>

definition all_fit :: "int \<Rightarrow> 'p fcq \<Rightarrow> bool" where
  "all_fit mx q \<longleftrightarrow> (\<forall>t\<in>set (q_order q). \<forall>e\<in>set (q_bucket q t). e_cost e \<le> mx \<and> e_skipCount e = 0)"

lemma dequeue_all_fit:
  assumes inv: "fcq_inv q" and fitq: "all_fit mx q" and ne: "q_order q \<noteq> []"
  obtains e es where "q_buckets q (hd (q_rr q)) = Some (e # es)" "q_rr q = hd (q_rr q) # tl (q_rr q)"
    "dequeue mx q = takeAt (q_cursor q) q" "fst (dequeue mx q) = Some (strip e)"
    "q_rr (snd (dequeue mx q)) = tl (q_rr q) @ (if es = [] then [] else [hd (q_rr q)])"
    "all_fit mx (snd (dequeue mx q))" "q_order q ! q_cursor q = hd (q_rr q)"
proof -
  have c: "q_cursor q < length (q_order q)" using inv ne by (auto simp: fcq_inv_def fcq_shape_def)
  let ?t = "q_order q ! q_cursor q"
  obtain e es where b: "q_buckets q ?t = Some (e # es)" using bucket_head_of_order [OF inv c] by blast
  have h: "bucket_head q ?t = Some e" using b by (simp add: bucket_head_def)
  note rr = takeAt_cursor_rr [OF inv b ne]
  have hd: "hd (q_rr q) = ?t" using rr(1) by (metis list.sel(1))
  have heads: "e_cost f \<le> mx \<and> e_skipCount f = 0" if "t \<in> set (q_order q)" "bucket_head q t = Some f" for t f
    using that fitq by (force simp: all_fit_def bucket_head_def q_bucket_def split: option.splits list.splits)
  have dq: "dequeue mx q = takeAt (q_cursor q) q"
    using inv
  proof (cases rule: dequeue_cases [of q mx])
    case (fit i f xs ys)
    have r: "rotation (q_cursor q) (length (q_order q)) = q_cursor q # tl (rotation (q_cursor q) (length (q_order q)))"
      using c by (auto simp: rotation_def upt_rec)
    have "xs = []"
    proof (cases xs)
      case (Cons j zs)
      then have "j = q_cursor q" using r fit(4) by (metis append_Cons list.inject)
      then have "mx < e_cost e" using fit(5) [of j e] h Cons by simp
      then show ?thesis using heads [of ?t e] h c by simp
    qed
    then have "i = q_cursor q" using r fit(4) by (metis append_Nil list.inject)
    then show ?thesis using fit(7) \<open>xs = []\<close> by simp
  next
    case (blocked i f)
    then show ?thesis using heads [of "q_order q ! i" f] by (simp add: MAX_UNFITTABLE_SKIPS_def)
  next
    case (reserved i f)
    then show ?thesis using heads [of "q_order q ! i" f] by (simp add: MAX_UNFITTABLE_SKIPS_def)
  next
    case unfit
    then show ?thesis using unfit(2) [of ?t e] heads [of ?t e] h c by simp
  qed (use ne in simp)
  have t: "takeAt (q_cursor q) q = (Some (strip e), snd (takeAt (q_cursor q) q))"
    using takeAt_spec(1) [OF inv c h] by (metis prod.collapse)
  have "all_fit mx (snd (takeAt (q_cursor q) q))"
    using fitq b c set_remove_nth_subset [of "q_cursor q" "q_order q"]
    by (auto simp: all_fit_def takeAt_def Let_def q_bucket_def split: if_splits)
  then show thesis using that [of e es] b rr hd dq t by (metis fst_conv)
qed

text \<open>\<open>k\<close> calls of \<open>dequeue\<close> with the same budget.\<close>

fun dequeue_n :: "nat \<Rightarrow> int \<Rightarrow> 'p fcq \<Rightarrow> 'p qentry option list \<times> 'p fcq" where
  "dequeue_n 0 mx q = ([], q)"
| "dequeue_n (Suc k) mx q =
     (let (r, q1) = dequeue mx q; (rs, q2) = dequeue_n k mx q1 in (r # rs, q2))"

lemma dequeue_n_rr:
  assumes "fcq_inv q" and "all_fit mx q" and "q_rr q = ts @ us" and "length ts = k"
  shows "fst (dequeue_n k mx q) = map (\<lambda>t. Some (hd (lane q t))) ts"
  using assms
proof (induction k arbitrary: q ts us)
  case (Suc k)
  then obtain t ts' where ts: "ts = t # ts'" by (cases ts) auto
  have ne: "q_order q \<noteq> []" using Suc.prems(3) ts by (auto simp: q_rr_def)
  obtain e es where D: "q_buckets q (hd (q_rr q)) = Some (e # es)"
    "fst (dequeue mx q) = Some (strip e)" "dequeue mx q = takeAt (q_cursor q) q"
    "q_rr (snd (dequeue mx q)) = tl (q_rr q) @ (if es = [] then [] else [hd (q_rr q)])"
    "all_fit mx (snd (dequeue mx q))" "q_order q ! q_cursor q = hd (q_rr q)"
    using dequeue_all_fit [OF Suc.prems(1,2) ne] by metis
  let ?q = "snd (dequeue mx q)"
  have hd: "hd (q_rr q) = t" using Suc.prems(3) ts by simp
  have dq: "dequeue mx q = (Some (strip e), ?q)" using D(2) by (metis prod.collapse)
  note S = dequeue_Some [OF Suc.prems(1) dq]
  have et: "e_tenantKey (strip e) = t"
    using bucket_head_ok(1) [OF Suc.prems(1), of t e] D(1) hd by (simp add: bucket_head_def)
  have "distinct (q_rr q)" using Suc.prems(1)
    by (metis append_take_drop_id distinct_append distinct_rotate fcq_inv_def fcq_shape_def
        inf_commute q_rr_def)
  then have nt: "t \<notin> set ts'" using Suc.prems(3) ts by simp
  have "fst (dequeue_n k mx ?q) = map (\<lambda>t. Some (hd (lane ?q t))) ts'"
    using Suc.IH [OF S(3) D(5), of ts' "us @ (if es = [] then [] else [t])"] D(4) Suc.prems(3,4) ts hd by simp
  also have "\<dots> = map (\<lambda>t. Some (hd (lane q t))) ts'"
    using nt by (intro map_cong refl) (metis S(6) et)
  finally show ?case
    using dq D(2) ts S(5) et by (cases "dequeue_n k mx ?q") (simp add: split_beta)
qed simp


section \<open>The interface of a tenant queue\<close>

datatype ('e, 'i) qop = Enq 'e | Deq int | Rem 'i

text \<open>
  A client's history: the queue, the entries it accepted, those it served, those withdrawn.
\<close>

fun hist_step ::
  "('e \<Rightarrow> 'q \<Rightarrow> bool \<times> 'q) \<Rightarrow> (int \<Rightarrow> 'q \<Rightarrow> 'e option \<times> 'q) \<Rightarrow> ('i \<Rightarrow> 'q \<Rightarrow> 'e option \<times> 'q) \<Rightarrow>
   'q \<times> 'e list \<times> 'e list \<times> 'e list \<Rightarrow> ('e, 'i) qop \<Rightarrow> 'q \<times> 'e list \<times> 'e list \<times> 'e list" where
  "hist_step enq deq rm (q, ins, outs, gone) (Enq e) =
     (case enq e q of (b, q') \<Rightarrow> (q', if b then ins @ [e] else ins, outs, gone))"
| "hist_step enq deq rm (q, ins, outs, gone) (Deq mx) =
     (case deq mx q of (None, q') \<Rightarrow> (q', ins, outs, gone) | (Some e, q') \<Rightarrow> (q', ins, outs @ [e], gone))"
| "hist_step enq deq rm (q, ins, outs, gone) (Rem i) =
     (case rm i q of (None, q') \<Rightarrow> (q', ins, outs, gone) | (Some e, q') \<Rightarrow> (q', ins, outs, gone @ [e]))"

fun op_fresh :: "('e \<Rightarrow> bool) \<Rightarrow> ('e, 'i) qop \<Rightarrow> bool" where
  "op_fresh fresh (Enq e) = fresh e"
| "op_fresh fresh _ = True"

locale tenant_queue =
  fixes inv :: "'q \<Rightarrow> bool"
    and contents :: "'q \<Rightarrow> 'e multiset"
    and lane :: "'q \<Rightarrow> 't \<Rightarrow> 'e list"
    and tenant :: "'e \<Rightarrow> 't"
    and fresh :: "'e \<Rightarrow> bool"
    and enq :: "'e \<Rightarrow> 'q \<Rightarrow> bool \<times> 'q"
    and deq :: "int \<Rightarrow> 'q \<Rightarrow> 'e option \<times> 'q"
    and rm :: "'i \<Rightarrow> 'q \<Rightarrow> 'e option \<times> 'q"
  assumes enq_no: "inv q \<Longrightarrow> enq e q = (False, q') \<Longrightarrow> q' = q"
    and enq_yes: "inv q \<Longrightarrow> fresh e \<Longrightarrow> enq e q = (True, q') \<Longrightarrow> inv q' \<and> contents q' = add_mset e (contents q)
        \<and> lane q' (tenant e) = lane q (tenant e) @ [e] \<and> (\<forall>t. t \<noteq> tenant e \<longrightarrow> lane q' t = lane q t)"
    and deq_none: "inv q \<Longrightarrow> deq mx q = (None, q') \<Longrightarrow> q' = q"
    and deq_some: "inv q \<Longrightarrow> deq mx q = (Some e, q') \<Longrightarrow> inv q' \<and> contents q = add_mset e (contents q')
        \<and> lane q (tenant e) = e # lane q' (tenant e) \<and> (\<forall>t. t \<noteq> tenant e \<longrightarrow> lane q' t = lane q t)"
    and rm_none: "inv q \<Longrightarrow> rm i q = (None, q') \<Longrightarrow> q' = q"
    and rm_some: "inv q \<Longrightarrow> rm i q = (Some e, q') \<Longrightarrow> inv q' \<and> contents q = add_mset e (contents q')
        \<and> (\<exists>xs ys. lane q (tenant e) = xs @ e # ys \<and> lane q' (tenant e) = xs @ ys)
        \<and> (\<forall>t. t \<noteq> tenant e \<longrightarrow> lane q' t = lane q t)"
begin

definition hist_ok :: "'q \<times> 'e list \<times> 'e list \<times> 'e list \<Rightarrow> bool" where
  "hist_ok = (\<lambda>(q, ins, outs, gone). inv q \<and> mset ins = contents q + mset outs + mset gone
     \<and> (\<forall>t. subseq (filter (\<lambda>e. tenant e = t) outs @ lane q t) (filter (\<lambda>e. tenant e = t) ins)))"

lemma hist_step_ok:
  assumes h: "hist_ok (q, ins, outs, gone)" and f: "op_fresh fresh x"
  shows "hist_ok (hist_step enq deq rm (q, ins, outs, gone) x)"
proof (cases x)
  case (Enq e)
  obtain b q' where e: "enq e q = (b, q')" by (cases "enq e q")
  show ?thesis
  proof (cases b)
    case True
    note E = enq_yes [of q e q'] and hh = h [unfolded hist_ok_def]
    have "subseq (filter (\<lambda>e. tenant e = t) outs @ lane q' t) (filter (\<lambda>e. tenant e = t) (ins @ [e]))" for t
      using hh E f Enq e True by (cases "tenant e = t") (auto simp: append_assoc [symmetric] simp del: append_assoc)
    then show ?thesis using hh E f Enq e True by (simp add: hist_ok_def)
  qed (use h Enq e enq_no [of q e q'] in \<open>simp add: hist_ok_def\<close>)
next
  case (Deq mx)
  obtain r q' where d: "deq mx q = (r, q')" by (cases "deq mx q")
  show ?thesis
  proof (cases r)
    case (Some e)
    note E = deq_some [of q mx e q'] and hh = h [unfolded hist_ok_def]
    have "subseq (filter (\<lambda>e. tenant e = t) (outs @ [e]) @ lane q' t) (filter (\<lambda>e. tenant e = t) ins)" for t
    proof -
      have "subseq (filter (\<lambda>e. tenant e = t) outs @ lane q t) (filter (\<lambda>e. tenant e = t) ins)"
        using hh by blast
      then show ?thesis using hh E Deq d Some by (cases "tenant e = t") auto
    qed
    then show ?thesis using hh E Deq d Some by (simp add: hist_ok_def)
  qed (use h Deq d deq_none [of q mx q'] in \<open>simp add: hist_ok_def\<close>)
next
  case (Rem i)
  obtain r q' where d: "rm i q = (r, q')" by (cases "rm i q")
  show ?thesis
  proof (cases r)
    case (Some e)
    note hh = h [unfolded hist_ok_def]
    have E: "inv q'" "contents q = add_mset e (contents q')" "\<And>t. t \<noteq> tenant e \<Longrightarrow> lane q' t = lane q t"
      using rm_some [of q i e q'] hh d Some by auto
    obtain xs ys where l: "lane q (tenant e) = xs @ e # ys" "lane q' (tenant e) = xs @ ys"
      using rm_some [of q i e q'] hh d Some by auto
    have drp: "subseq (us @ xs @ ys) (us @ xs @ e # ys)" for us
      by (intro list_emb_append_mono subseq_order.order_refl list_emb_Cons)
    have "subseq (filter (\<lambda>e. tenant e = t) outs @ lane q' t) (filter (\<lambda>e. tenant e = t) ins)" for t
    proof (cases "t = tenant e")
      case True
      have "subseq (filter (\<lambda>e. tenant e = t) outs @ lane q t) (filter (\<lambda>e. tenant e = t) ins)"
        using hh by blast
      then have "subseq (filter (\<lambda>e. tenant e = t) outs @ xs @ e # ys) (filter (\<lambda>e. tenant e = t) ins)"
        using l(1) True by simp
      with drp show ?thesis using l(2) True by (metis subseq_order.order_trans)
    qed (use hh E(3) in auto)
    then show ?thesis using hh E Rem d Some by (simp add: hist_ok_def)
  qed (use h Rem d rm_none [of q i q'] in \<open>simp add: hist_ok_def\<close>)
qed

lemma run_hist_ok:
  "hist_ok s \<Longrightarrow> list_all (op_fresh fresh) ops \<Longrightarrow> hist_ok (run (hist_step enq deq rm) s ops)"
proof (induction ops arbitrary: s)
  case (Cons x ops)
  obtain q ins outs gone where "s = (q, ins, outs, gone)" by (cases s)
  then have "hist_ok (hist_step enq deq rm s x)" using Cons.prems hist_step_ok by simp
  then show ?case using Cons by (simp del: hist_step.simps)
qed simp

end


section \<open>The queue provides it\<close>

definition fcq_within :: "int \<Rightarrow> int \<Rightarrow> 'p fcq \<Rightarrow> bool" where
  "fcq_within mc mk q \<longleftrightarrow> fcq_inv q \<and> q_maxCount q = mc \<and> q_maxCost q = mk \<and> fcq_caps q"

lemma takeAt_max [simp]:
  "q_maxCount (snd (takeAt i q)) = q_maxCount q" "q_maxCost (snd (takeAt i q)) = q_maxCost q"
  by (auto simp: takeAt_def Let_def split: option.splits list.splits)

lemma dequeue_max [simp]:
  "q_maxCount (snd (dequeue mx q)) = q_maxCount q" "q_maxCost (snd (dequeue mx q)) = q_maxCost q"
  by (auto simp: dequeue_def Let_def split: option.splits)

lemma remove_scan_max:
  "q_maxCount (snd (remove_scan i tis q)) = q_maxCount q \<and> q_maxCost (snd (remove_scan i tis q)) = q_maxCost q"
  by (induction i tis q rule: remove_scan.induct) (auto simp: Let_def split: option.splits)

lemma removeById_max [simp]:
  "q_maxCount (snd (removeById i q)) = q_maxCount q" "q_maxCost (snd (removeById i q)) = q_maxCost q"
  by (simp_all add: removeById_def remove_scan_max)

lemma enqueue_max [simp]:
  "q_maxCount (snd (enqueue e q)) = q_maxCount q" "q_maxCost (snd (enqueue e q)) = q_maxCost q"
  by (auto simp: enqueue_def Let_def split: option.splits)

lemma cost_nonneg:
  assumes inv: "fcq_inv q" and x: "x \<in># q_mset q"
  shows "0 < e_cost x"
proof -
  obtain t where t: "t \<in> set (q_order q)" "x \<in># image_mset strip (mset (q_bucket q t))"
    using x by (auto simp: q_mset_def set_mset_sum)
  then obtain y where y: "y \<in> set (q_bucket q t)" "x = strip y" by auto
  obtain b where b: "q_buckets q t = Some b" using t(1) inv by (auto simp: fcq_inv_def fcq_shape_def)
  then have "bucket_ok t b" using inv by (simp add: fcq_inv_def)
  then show ?thesis using y b by (simp add: bucket_ok_def)
qed

lemma cost_safe:
  assumes inv: "fcq_inv q" and x: "x \<in># q_mset q"
  shows "e_cost x \<le> MAX_SAFE_INTEGER"
proof -
  obtain t where t: "t \<in> set (q_order q)" "x \<in># image_mset strip (mset (q_bucket q t))"
    using x by (auto simp: q_mset_def set_mset_sum)
  then obtain y where y: "y \<in> set (q_bucket q t)" "x = strip y" by auto
  obtain b where b: "q_buckets q t = Some b" using t(1) inv by (auto simp: fcq_inv_def fcq_shape_def)
  then have "bucket_ok t b" using inv by (simp add: fcq_inv_def)
  then show ?thesis using y b by (simp add: bucket_ok_def)
qed

lemma sum_mset_nonneg_int: "(\<And>x. x \<in># M \<Longrightarrow> 0 \<le> f x) \<Longrightarrow> (0::int) \<le> sum_mset (image_mset f M)"
  by (induction M) auto

lemma fcq_counts_nonneg: "fcq_inv q \<Longrightarrow> 0 \<le> q_count q \<and> 0 \<le> q_cost q"
  using cost_nonneg [of q] by (force simp: fcq_inv_def fcq_counts_def intro: sum_mset_nonneg_int)

lemma within_less:
  assumes "fcq_within mc mk q" and "fcq_inv q'" and "q_mset q = add_mset e (q_mset q')" and "0 < e_cost e"
    and "q_maxCount q' = q_maxCount q" and "q_maxCost q' = q_maxCost q"
  shows "fcq_within mc mk q'"
  using assms by (simp add: fcq_within_def fcq_caps_def fcq_inv_def fcq_counts_def)

definition fresh_entry :: "'p qentry \<Rightarrow> bool" where
  "fresh_entry e \<longleftrightarrow> e_skipCount e = 0"

lemma fresh_strip: "fresh_entry e \<Longrightarrow> strip e = e"
  by (simp add: fresh_entry_def strip_def)

lemma enqueue_lane_other: "t \<noteq> e_tenantKey e \<Longrightarrow> lane (snd (enqueue e q)) t = lane q t"
  by (auto simp: enqueue_def Let_def lane_def q_bucket_def split: option.splits)

text \<open>\<open>removeById\<close> hands back the entry object; \<open>strip\<close> is what a client sees of it.\<close>

definition remove_client :: "nat \<Rightarrow> 'p fcq \<Rightarrow> 'p qentry option \<times> 'p fcq" where
  "remove_client i q = apfst (map_option strip) (removeById i q)"

interpretation fq: tenant_queue "fcq_within mc mk" q_mset lane e_tenantKey fresh_entry enqueue dequeue remove_client
  for mc mk
proof unfold_locales
  fix q q' :: "'b fcq" and e mx i
  assume w: "fcq_within mc mk q"
  then have inv: "fcq_inv q" by (simp add: fcq_within_def)
  show "q' = q" if "enqueue e q = (False, q')"
    using that enqueue_accept(1) by (auto simp: enqueue_def Let_def split: if_splits)
  show "fcq_within mc mk q' \<and> q_mset q' = add_mset e (q_mset q)
        \<and> lane q' (e_tenantKey e) = lane q (e_tenantKey e) @ [e] \<and> (\<forall>t. t \<noteq> e_tenantKey e \<longrightarrow> lane q' t = lane q t)"
    if f: "fresh_entry e" and e: "enqueue e q = (True, q')"
  proof -
    have acc: "canAccept q (e_cost e)" using e enqueue_reject [of q e] by auto
    note A = enqueue_accept [OF inv acc f [unfolded fresh_entry_def]]
    have q': "q' = snd (enqueue e q)" using e by simp
    have "fcq_within mc mk q'"
      using A(2) w enqueue_caps [of q e] by (simp add: fcq_within_def q')
    then show ?thesis using A f fresh_strip [OF f]
      by (simp add: q' lane_def enqueue_lane_other [unfolded lane_def])
  qed
  show "q' = q" if "dequeue mx q = (None, q')"
    using dequeue_None [OF inv, of mx] that by simp
  show "fcq_within mc mk q' \<and> q_mset q = add_mset e (q_mset q')
        \<and> lane q (e_tenantKey e) = e # lane q' (e_tenantKey e) \<and> (\<forall>t. t \<noteq> e_tenantKey e \<longrightarrow> lane q' t = lane q t)"
    if d: "dequeue mx q = (Some e, q')"
  proof -
    note D = dequeue_Some [OF inv d]
    have "q_maxCount q' = q_maxCount q" "q_maxCost q' = q_maxCost q"
      using dequeue_max [of mx q] d by simp_all
    then show ?thesis using D within_less [OF w D(3,4,2)] by simp
  qed
  show "q' = q" if "remove_client i q = (None, q')"
    using that removeById_spec(1) [OF inv, of i "fst (removeById i q)" "snd (removeById i q)"]
    by (cases "removeById i q") (auto simp: remove_client_def)
  show "fcq_within mc mk q' \<and> q_mset q = add_mset e (q_mset q')
        \<and> (\<exists>xs ys. lane q (e_tenantKey e) = xs @ e # ys \<and> lane q' (e_tenantKey e) = xs @ ys)
        \<and> (\<forall>t. t \<noteq> e_tenantKey e \<longrightarrow> lane q' t = lane q t)"
    if d: "remove_client i q = (Some e, q')"
  proof -
    obtain f where r: "removeById i q = (Some f, q')" "e = strip f"
      using d by (cases "removeById i q") (auto simp: remove_client_def)
    note R = removeById_spec(3) [OF inv r(1) refl]
    have m: "q_maxCount q' = q_maxCount q" "q_maxCost q' = q_maxCost q"
      using removeById_max [of i q] r(1) by simp_all
    have "e \<in># q_mset q" using R r(2) by simp
    then have "0 < e_cost e" using cost_nonneg [OF inv] by blast
    then show ?thesis
      using R r(2) within_less [OF w removeById_spec(2) [OF inv r(1)] _ _ m, of e] by simp
  qed
qed


section \<open>Properties\<close>

lemma new_within: "0 \<le> mc \<Longrightarrow> 0 \<le> mk \<Longrightarrow> fcq_within mc mk (new_FairCostQueue mc mk)"
  by (simp add: fcq_within_def fcq_inv_def fcq_shape_def fcq_counts_def fcq_caps_def q_mset_def new_FairCostQueue_def)

lemma q_mset_new [simp]: "q_mset (new_FairCostQueue mc mk) = {#}"
  by (simp add: q_mset_def new_FairCostQueue_def)

lemma new_hist_ok:
  "0 \<le> mc \<Longrightarrow> 0 \<le> mk \<Longrightarrow> fq.hist_ok mc mk (new_FairCostQueue mc mk, [], [], [])"
  by (simp add: fq.hist_ok_def new_within, simp add: q_mset_def lane_def q_bucket_def new_FairCostQueue_def)

text \<open>Whatever sequence of enqueues, dequeues and withdrawals a client performs on a new
  queue, the queue never exceeds its caps, its counters are the number and the total cost of
  what it holds, and no bypass count exceeds the bound after which capacity is reserved.\<close>

theorem queue_bounds_hold:
  assumes "0 \<le> mc" and "0 \<le> mk" and "list_all (op_fresh fresh_entry) ops"
    and "run (hist_step enqueue dequeue remove_client) (new_FairCostQueue mc mk, [], [], []) ops
           = (q, ins, outs, gone)"
  shows "0 \<le> q_size q \<and> q_size q \<le> mc \<and> 0 \<le> q_totalCost q \<and> q_totalCost q \<le> mk
    \<and> q_size q = int (size (q_mset q)) \<and> q_totalCost q = sum_mset (image_mset e_cost (q_mset q))
    \<and> (\<forall>t e. bucket_head q t = Some e \<longrightarrow> e_skipCount e \<le> MAX_UNFITTABLE_SKIPS)"
proof -
  have "fq.hist_ok mc mk (q, ins, outs, gone)"
    using fq.run_hist_ok [OF new_hist_ok [OF assms(1,2)] assms(3)] assms(4) by simp
  then have w: "fcq_within mc mk q" by (simp add: fq.hist_ok_def)
  then have i: "fcq_inv q" by (simp add: fcq_within_def)
  show ?thesis using w fcq_counts_nonneg [OF i] bucket_head_ok(4) [OF i] i
    by (auto simp: q_size_def q_totalCost_def fcq_within_def fcq_caps_def fcq_inv_def fcq_counts_def)
qed

text \<open>Evaluation of the operations on concrete queues.\<close>

lemmas fcq_eval = new_FairCostQueue_def enqueue_def canAccept_def MAX_SAFE_INTEGER_def Let_def
  dequeue_def rotation_def takeAt_def bucket_head_def MAX_UNFITTABLE_SKIPS_def remove_nth_def bump_head_def

definition ex_entry :: "nat \<Rightarrow> string \<Rightarrow> int \<Rightarrow> unit qentry" where
  "ex_entry i t c = \<lparr>e_id = i, e_tenantKey = t, e_cost = c, e_enqueuedAtMs = int i, e_deadlineMs = 1000,
     e_payload = (), e_skipCount = 0\<rparr>"

lemma queue_bounds_hold_witness:
  "q_totalCost (fst (run (hist_step enqueue dequeue remove_client) (new_FairCostQueue 2 10, [], [], [])
     [Enq (ex_entry 1 ''a'' 5), Enq (ex_entry 2 ''b'' 4), Enq (ex_entry 3 ''b'' 9), Deq 4])) \<le> 10"
proof -
  let ?ops = "[Enq (ex_entry 1 ''a'' 5), Enq (ex_entry 2 ''b'' 4), Enq (ex_entry 3 ''b'' 9), Deq 4] :: (unit qentry, nat) qop list"
  have f: "list_all (op_fresh fresh_entry) ?ops" by (simp add: fresh_entry_def ex_entry_def)
  obtain q ins outs gone where r: "run (hist_step enqueue dequeue remove_client)
      (new_FairCostQueue 2 10, [], [], []) ?ops = (q, ins, outs, gone)"
    using prod_cases4 by blast
  show ?thesis using queue_bounds_hold [OF _ _ f r] r by simp
qed

text \<open>C1. Nothing is lost, duplicated or reordered within a tenant: along any history the
  accepted entries are exactly those still queued, those served and those withdrawn, and per
  tenant the served ones followed by the queued ones keep the order of arrival.\<close>

theorem queue_conserves_and_keeps_fifo:
  assumes "0 \<le> mc" and "0 \<le> mk" and "list_all (op_fresh fresh_entry) ops"
    and "run (hist_step enqueue dequeue remove_client) (new_FairCostQueue mc mk, [], [], []) ops
           = (q, ins, outs, gone)"
  shows "mset ins = q_mset q + mset outs + mset gone
    \<and> (\<forall>t. subseq (filter (\<lambda>e. e_tenantKey e = t) outs @ lane q t) (filter (\<lambda>e. e_tenantKey e = t) ins))"
  using fq.run_hist_ok [OF new_hist_ok [OF assms(1,2)] assms(3)] assms(4)
  by (simp add: fq.hist_ok_def)

lemma queue_conserves_and_keeps_fifo_witness:
  "\<exists>q. run (hist_step enqueue dequeue remove_client) (new_FairCostQueue 5 10, [], [], [])
     [Enq (ex_entry 1 ''a'' 5), Enq (ex_entry 2 ''a'' 4), Deq 9] =
       (q, [ex_entry 1 ''a'' 5, ex_entry 2 ''a'' 4], [ex_entry 1 ''a'' 5], [])
     \<and> q_mset q = {# ex_entry 2 ''a'' 4 #}"
proof -
  let ?ops = "[Enq (ex_entry 1 ''a'' 5), Enq (ex_entry 2 ''a'' 4), Deq 9] :: (unit qentry, nat) qop list"
  have f: "list_all (op_fresh fresh_entry) ?ops" by (simp add: fresh_entry_def ex_entry_def)
  obtain q where r: "run (hist_step enqueue dequeue remove_client) (new_FairCostQueue 5 10, [], [], []) ?ops
      = (q, [ex_entry 1 ''a'' 5, ex_entry 2 ''a'' 4], [ex_entry 1 ''a'' 5], [])"
    by (simp add: fcq_eval ex_entry_def)
  show ?thesis using queue_conserves_and_keeps_fifo [OF _ _ f r] r by simp
qed

text \<open>\<open>dequeue\<close> serves within the budget, and it returns nothing only if the queue is empty,
  every tenant's head costs more than the budget, or a head already passed over
  \<open>MAX_UNFITTABLE_SKIPS\<close> times does not fit, for which capacity is then reserved.\<close>

theorem dequeue_budget_and_completeness:
  assumes "fcq_inv q"
  shows "(case fst (dequeue mx q) of
       Some e \<Rightarrow> 0 < e_cost e \<and> e_cost e \<le> mx \<and> e \<in># q_mset q
     | None \<Rightarrow> snd (dequeue mx q) = q \<and>
         (q_mset q = {#}
          \<or> (\<forall>t\<in>set (q_order q). \<forall>e. bucket_head q t = Some e \<longrightarrow> mx < e_cost e)
          \<or> (\<exists>t e. bucket_head q t = Some e \<and> MAX_UNFITTABLE_SKIPS \<le> e_skipCount e \<and> mx < e_cost e)))"
proof (cases "fst (dequeue mx q)")
  case None
  from assms have "q_mset q = {#}
          \<or> (\<forall>t\<in>set (q_order q). \<forall>e. bucket_head q t = Some e \<longrightarrow> mx < e_cost e)
          \<or> (\<exists>t e. bucket_head q t = Some e \<and> MAX_UNFITTABLE_SKIPS \<le> e_skipCount e \<and> mx < e_cost e)"
  proof (cases rule: dequeue_cases [of q mx])
    case (reserved i e)
    then show ?thesis using None takeAt_spec(1) [OF assms reserved(1,2)] by simp
  next
    case (fit i e xs ys)
    note B = bumped_queue [OF assms fit(4,6,2)]
    have "fst (dequeue mx q) = Some (strip e)"
      unfolding fit(7) by (rule takeAt_spec(1) [OF B(1)]) (use fit(1) B(2,5) in simp_all)
    then show ?thesis using None by simp
  qed (use q_mset_empty_iff [OF assms] in blast)+
  then show ?thesis using None dequeue_None [OF assms None] by simp
next
  case (Some e)
  then have d: "dequeue mx q = (Some e, snd (dequeue mx q))" by (metis prod.collapse)
  show ?thesis using dequeue_Some(1,2,4) [OF assms d] Some by simp
qed

definition ex_queue :: "unit fcq" where
  "ex_queue = snd (enqueue (ex_entry 3 ''b'' 2) (snd (enqueue (ex_entry 2 ''a'' 4)
     (snd (enqueue (ex_entry 1 ''a'' 5) (new_FairCostQueue 5 20))))))"

lemma ex_queue_inv: "fcq_inv ex_queue"
  unfolding ex_queue_def
  by (intro enqueue_accept(2) new_within [THEN iffD1 [OF fcq_within_def], THEN conjunct1]) (simp_all add: fcq_eval ex_entry_def)

lemma dequeue_budget_and_completeness_witness:
  "fst (dequeue 3 ex_queue) = Some (ex_entry 3 ''b'' 2) \<and> ex_entry 3 ''b'' 2 \<in># q_mset ex_queue"
proof -
  have "fst (dequeue 3 ex_queue) = Some (ex_entry 3 ''b'' 2)" by (simp add: ex_queue_def fcq_eval ex_entry_def)
  then show ?thesis using dequeue_budget_and_completeness [OF ex_queue_inv, of 3] by simp
qed





text \<open>Round robin: while the budget covers what is queued, one round of \<open>dequeue\<close> calls
  serves the first entry of every tenant once, in the order of the rotation.\<close>

theorem one_round_serves_every_tenant_once:
  assumes "fcq_inv q" and "all_fit mx q"
  shows "fst (dequeue_n (length (q_order q)) mx q) = map (\<lambda>t. Some (hd (lane q t))) (q_rr q)
    \<and> distinct (q_rr q) \<and> set (q_rr q) = dom (q_buckets q)"
proof -
  have c: "q_cursor q \<le> length (q_order q)" "distinct (q_order q)" "set (q_order q) = dom (q_buckets q)"
    using assms(1) by (auto simp: fcq_inv_def fcq_shape_def)
  then have "length (q_rr q) = length (q_order q)" by (simp add: q_rr_def)
  then have "fst (dequeue_n (length (q_order q)) mx q) = map (\<lambda>t. Some (hd (lane q t))) (q_rr q)"
    by (intro dequeue_n_rr [OF assms, of _ "[]"]) simp_all
  moreover have "distinct (q_rr q)" using c(2)
    by (metis append_take_drop_id distinct_append inf_commute q_rr_def)
  ultimately show ?thesis using c(3) by simp
qed

lemma one_round_serves_every_tenant_once_witness:
  "fst (dequeue_n 2 10 ex_queue) = [Some (ex_entry 1 ''a'' 5), Some (ex_entry 3 ''b'' 2)]"
proof -
  have "all_fit 10 ex_queue"
    by (simp add: all_fit_def ex_queue_def fcq_eval ex_entry_def q_bucket_def)
  from one_round_serves_every_tenant_once [OF ex_queue_inv this] show ?thesis
    by (simp add: ex_queue_def fcq_eval ex_entry_def q_bucket_def lane_def q_rr_def strip_def numeral_2_eq_2)
qed

text \<open>Withdrawing by id: an unknown id changes nothing; a known one leaves the queue with
  exactly that entry removed, every other lane as it was, and the rotation order of the
  other tenants unchanged.\<close>

theorem withdrawal_is_exact:
  assumes inv: "fcq_inv q"
  shows "(case removeById i q of
      (None, q') \<Rightarrow> q' = q \<and> (\<forall>t. \<forall>e\<in>set (lane q t). e_id e \<noteq> i)
    | (Some e, q') \<Rightarrow> fcq_inv q' \<and> e_id e = i \<and> q_mset q = add_mset (strip e) (q_mset q')
        \<and> (\<exists>xs ys. lane q (e_tenantKey e) = xs @ strip e # ys \<and> lane q' (e_tenantKey e) = xs @ ys)
        \<and> (\<forall>t. t \<noteq> e_tenantKey e \<longrightarrow> lane q' t = lane q t)
        \<and> q_rr q' = (if lane q' (e_tenantKey e) = [] then remove1 (e_tenantKey e) (q_rr q) else q_rr q))"
proof -
  obtain r q' where r: "removeById i q = (r, q')" by (cases "removeById i q")
  show ?thesis
  proof (cases r)
    case None
    then show ?thesis using removeById_spec(1) [OF inv r] r by simp
  next
    case (Some e)
    then show ?thesis using removeById_spec(2) [OF inv r] removeById_spec(3) [OF inv r Some] r by simp
  qed
qed

lemma withdrawal_is_exact_witness:
  "\<exists>q'. removeById 2 ex_queue = (Some (ex_entry 2 ''a'' 4), q') \<and> fcq_inv q'
     \<and> q_mset ex_queue = add_mset (strip (ex_entry 2 ''a'' 4)) (q_mset q')"
proof -
  have "fst (removeById 2 ex_queue) = Some (ex_entry 2 ''a'' 4)"
    by (simp add: ex_queue_def fcq_eval ex_entry_def removeById_def)
  then obtain q' where "removeById 2 ex_queue = (Some (ex_entry 2 ''a'' 4), q')" by (metis prod.collapse)
  then show ?thesis using withdrawal_is_exact [OF ex_queue_inv, of 2] by simp
qed

text \<open>\<open>drain\<close> terminates and returns everything that was queued, each tenant's entries in
  their order, leaving an empty queue ready for use.\<close>

theorem drain_returns_everything:
  assumes "fcq_inv q"
  shows "mset (fst (drain q)) = q_mset q \<and> (\<forall>t. filter (\<lambda>e. e_tenantKey e = t) (fst (drain q)) = lane q t)
    \<and> q_mset (snd (drain q)) = {#} \<and> q_size (snd (drain q)) = 0 \<and> fcq_inv (snd (drain q))"
proof -
  obtain es q' where l: "drain_loop q = (es, q')" by (cases "drain_loop q")
  have S: "mset es = q_mset q" "fcq_inv q'" "q_order q' = []"
    "\<And>t. filter (\<lambda>e. e_tenantKey e = t) es = lane q t"
    using drain_loop_spec [OF assms l] by auto
  have "q_cursor q' = 0" using S(2,3) by (simp add: fcq_inv_def fcq_shape_def)
  then have "q'\<lparr>q_cursor := 0\<rparr> = q'" by simp
  moreover have "q_mset q' = {#}" using S(3) by (simp add: q_mset_def)
  ultimately show ?thesis using l S by (simp add: drain_def q_size_def fcq_inv_def fcq_counts_def)
qed

lemma drain_returns_everything_witness:
  "filter (\<lambda>e. e_tenantKey e = ''a'') (fst (drain ex_queue)) = [ex_entry 1 ''a'' 5, ex_entry 2 ''a'' 4]"
proof -
  have "lane ex_queue ''a'' = [ex_entry 1 ''a'' 5, ex_entry 2 ''a'' 4]"
    by (simp add: ex_queue_def fcq_eval ex_entry_def lane_def q_bucket_def strip_def)
  then show ?thesis using drain_returns_everything [OF ex_queue_inv] by simp
qed

end
