(* ===== verification/AdmissionController.thy ===== *)
theory AdmissionController
  imports AdmissionAdaptation FairCostQueue
begin

text \<open>
  The adaptive admission controller, \<open>open-sse/services/admission/controller.ts\<close>: leases, the
  shared fair queue, per-tenant lanes, shadow accounting, and the handlers that move requests
  between them.

  Every handler takes the clock reading \<open>now\<close>. A promise is settled by an entry of \<open>c_settled\<close>:
  the id of the queued request with the lease it got or the code it was rejected with. Timers
  and abort listeners are events of the environment: a deadline timer or a listener of a queued
  request is \<open>expireEntry\<close> on its id, the window timer is \<open>ctl_tick\<close>, the lane timer is
  \<open>evictIdleLanes\<close>, so their handles are no part of the state. A lease object that has left
  \<open>c_active\<close> has been released: \<open>releaseLease\<close> is the only place that removes one. Ids are the
  numbers of \<open>nextId\<close>; both prefixes draw from one sequence.
\<close>

definition ADMISSION_LANE_TTL_MS :: int where
  "ADMISSION_LANE_TTL_MS = 60000"

definition ADMISSION_LANE_MAX_SESSIONS :: nat where
  "ADMISSION_LANE_MAX_SESSIONS = 1000"

datatype disposition = VActive | VQueued | VRejected | VNone

datatype reject_code = ADMISSION_OVERSIZED | ADMISSION_QUEUE_FULL | ADMISSION_DEADLINE
  | ADMISSION_ABORTED | ADMISSION_LANE_EVICTED | ADMISSION_SHUTDOWN

datatype shadow_decision = WouldAdmit | WouldQueue | WouldReject

datatype settlement = Resolved nat | RejectedWith reject_code

datatype acquire_result = RAdmitted nat "shadow_decision option" | RQueued nat
  | RRejected reject_code | RThrown range_error

definition saturateSnapshotNumber :: "int \<Rightarrow> int" where
  "saturateSnapshotNumber v = (if v \<le> 0 then 0 else if v \<ge> MAX_SAFE_INTEGER then MAX_SAFE_INTEGER else v)"

definition addSaturated :: "int \<Rightarrow> int \<Rightarrow> int" where
  "addSaturated tot delta = (if delta \<le> 0 then saturateSnapshotNumber tot
     else if tot \<ge> MAX_SAFE_INTEGER - delta then MAX_SAFE_INTEGER else tot + delta)"

record lease_record =
  l_cost :: int
  l_admittedAtMs :: int
  l_virtualDisposition :: disposition

text \<open>The payload of a queued request: its abort signal, if it has one.\<close>

type_synonym request_queue = "nat option fcq"

record admission_lane =
  ln_queue :: request_queue
  ln_lastUsedMs :: int

record controller =
  c_config :: validated_config
  c_adaptation :: adaptation_state
  c_queue :: request_queue
  c_virtualQueue :: "nat fcq"
  c_virtualLanes :: "(string, admission_lane) jsmap"
  c_active :: "(nat, lease_record) jsmap"
  c_activeCost :: int
  c_virtualActiveCost :: int
  c_virtualActiveCount :: int
  c_lastSampleMs :: int
  c_shutDown :: bool
  c_admittedCount :: int
  c_rejectedCount :: int
  c_wouldAdmitCount :: int
  c_wouldQueueCount :: int
  c_wouldRejectCount :: int
  c_leaseSeq :: nat
  c_aborted :: "nat list"
  c_settled :: "(nat \<times> settlement) list"

record admission_request =
  r_cost :: jsval
  r_features :: "cost_features option"
  r_tenantKey :: "string option"
  r_maxWaitMs :: jsval
  r_signal :: "nat option"
  r_pressure :: "pressure option"

section \<open>Leases\<close>

definition new_AdaptiveAdmissionController :: "validated_config \<Rightarrow> int \<Rightarrow> controller" where
  "new_AdaptiveAdmissionController cfg now =
     \<lparr>c_config = cfg,
      c_adaptation = createAdaptationState (v_initialLimit cfg) (v_minLimit cfg) (v_maxLimit cfg) now,
      c_queue = new_FairCostQueue (v_maxQueueCount cfg) (v_maxQueueCost cfg),
      c_virtualQueue = new_FairCostQueue (v_maxQueueCount cfg) (v_maxQueueCost cfg),
      c_virtualLanes = [], c_active = [], c_activeCost = 0, c_virtualActiveCost = 0,
      c_virtualActiveCount = 0, c_lastSampleMs = now, c_shutDown = False, c_admittedCount = 0,
      c_rejectedCount = 0, c_wouldAdmitCount = 0, c_wouldQueueCount = 0, c_wouldRejectCount = 0,
      c_leaseSeq = 0, c_aborted = [], c_settled = []\<rparr>"

abbreviation c_limit :: "controller \<Rightarrow> int" where
  "c_limit s \<equiv> s_currentLimit (c_adaptation s)"

definition sampleIntegral :: "int \<Rightarrow> controller \<Rightarrow> controller" where
  "sampleIntegral now s =
     (let dt = now - c_lastSampleMs s
      in if dt > 0
         then (let limit = c_limit s;
                   activeForIntegral = (if c_activeCost s \<ge> limit then limit else c_activeCost s)
               in s\<lparr>c_adaptation := sampleActiveIntegral activeForIntegral dt (c_adaptation s),
                    c_lastSampleMs := now\<rparr>)
         else s)"

definition nextId :: "controller \<Rightarrow> nat \<times> controller" where
  "nextId s = (let n = c_leaseSeq s + 1 in (n, s\<lparr>c_leaseSeq := n\<rparr>))"

definition admit :: "int \<Rightarrow> int \<Rightarrow> disposition \<Rightarrow> controller \<Rightarrow> nat \<times> controller" where
  "admit now cost d s0 =
     (let (i, s) = nextId (sampleIntegral now s0)
      in (i, s\<lparr>c_active := jm_set i \<lparr>l_cost = cost, l_admittedAtMs = now, l_virtualDisposition = d\<rparr> (c_active s),
               c_activeCost := c_activeCost s + cost,
               c_admittedCount := c_admittedCount s + 1\<rparr>))"

text \<open>Mode off: an id and a count, no accounting.\<close>

definition admitVirtual :: "controller \<Rightarrow> acquire_result \<times> controller" where
  "admitVirtual s0 = (let (i, s) = nextId s0 in (RAdmitted i None, s\<lparr>c_admittedCount := c_admittedCount s + 1\<rparr>))"

definition ctl_reject :: "reject_code \<Rightarrow> controller \<Rightarrow> acquire_result \<times> controller" where
  "ctl_reject code s = (RRejected code, s\<lparr>c_rejectedCount := c_rejectedCount s + 1\<rparr>)"

text \<open>\<open>entry.payload.reject(...)\<close> followed by \<open>this.rejectedCount += 1\<close>\<close>

definition failQueued :: "reject_code \<Rightarrow> nat option qentry \<Rightarrow> controller \<Rightarrow> controller" where
  "failQueued code e s =
     s\<lparr>c_settled := c_settled s @ [(e_id e, RejectedWith code)], c_rejectedCount := c_rejectedCount s + 1\<rparr>"

text \<open>\<open>entry.payload.resolve(this.admit(entry.cost))\<close>\<close>

definition resolve_admitted :: "int \<Rightarrow> nat option qentry \<Rightarrow> controller \<Rightarrow> controller" where
  "resolve_admitted now e s0 =
     (let (i, s) = admit now (e_cost e) VNone s0 in s\<lparr>c_settled := c_settled s @ [(e_id e, Resolved i)]\<rparr>)"

section \<open>Dispatch\<close>

definition entry_aborted :: "controller \<Rightarrow> nat option qentry \<Rightarrow> bool" where
  "entry_aborted s e = (case e_payload e of None \<Rightarrow> False | Some sg \<Rightarrow> sg \<in> set (c_aborted s))"

text \<open>What the loops do with an entry they took from a queue; \<open>True\<close> if it was admitted.\<close>

definition settle_dequeued :: "int \<Rightarrow> nat option qentry \<Rightarrow> controller \<Rightarrow> bool \<times> controller" where
  "settle_dequeued now e s =
     (if entry_aborted s e then (False, failQueued ADMISSION_ABORTED e s)
      else if now \<ge> e_deadlineMs e then (False, failQueued ADMISSION_DEADLINE e s)
      else (True, resolve_admitted now e s))"

lemma sampleIntegral_fields [simp]:
  "c_queue (sampleIntegral now s) = c_queue s" "c_virtualLanes (sampleIntegral now s) = c_virtualLanes s"
  "c_config (sampleIntegral now s) = c_config s" "c_active (sampleIntegral now s) = c_active s"
  "c_activeCost (sampleIntegral now s) = c_activeCost s" "c_shutDown (sampleIntegral now s) = c_shutDown s"
  "c_virtualQueue (sampleIntegral now s) = c_virtualQueue s" "c_leaseSeq (sampleIntegral now s) = c_leaseSeq s"
  "c_settled (sampleIntegral now s) = c_settled s" "c_limit (sampleIntegral now s) = c_limit s"
  "c_virtualActiveCost (sampleIntegral now s) = c_virtualActiveCost s"
  "c_virtualActiveCount (sampleIntegral now s) = c_virtualActiveCount s"
  "c_aborted (sampleIntegral now s) = c_aborted s" "c_rejectedCount (sampleIntegral now s) = c_rejectedCount s"
  "c_admittedCount (sampleIntegral now s) = c_admittedCount s"
  by (simp_all add: sampleIntegral_def Let_def)

lemma settle_dequeued_queues [simp]:
  "c_queue (snd (settle_dequeued now e s)) = c_queue s"
  "c_virtualLanes (snd (settle_dequeued now e s)) = c_virtualLanes s"
  "c_config (snd (settle_dequeued now e s)) = c_config s"
  "c_virtualQueue (snd (settle_dequeued now e s)) = c_virtualQueue s"
  "c_shutDown (snd (settle_dequeued now e s)) = c_shutDown s"
  "c_limit (snd (settle_dequeued now e s)) = c_limit s"
  "c_aborted (snd (settle_dequeued now e s)) = c_aborted s"
  by (simp_all add: settle_dequeued_def failQueued_def resolve_admitted_def admit_def nextId_def Let_def)

text \<open>The loop over the shared queue; \<open>True\<close> if it ran to the end, \<open>False\<close> if it returned early.\<close>

function dispatch_shared :: "int \<Rightarrow> controller \<Rightarrow> bool \<times> controller" where
  "dispatch_shared now s =
     (if \<not> q_size (c_queue s) > 0 then (True, s)
      else (let available = c_limit s - c_activeCost s
            in if available \<le> 0 then (False, s)
               else (case dequeue available (c_queue s) of
                       (None, q) \<Rightarrow> (False, s\<lparr>c_queue := q\<rparr>)
                     | (Some e, q) \<Rightarrow> dispatch_shared now (snd (settle_dequeued now e (s\<lparr>c_queue := q\<rparr>))))))"
  by pat_completeness auto

termination
  by (relation "measure (\<lambda>(now, s). q_weight (c_queue s))") (auto dest: dequeue_weight [OF sym])

declare dispatch_shared.simps [simp del]

definition lane_queue :: "string \<Rightarrow> controller \<Rightarrow> request_queue option" where
  "lane_queue k s = map_option ln_queue (jm_get (c_virtualLanes s) k)"

text \<open>The lane object is updated in place.\<close>

definition set_lane_queue :: "string \<Rightarrow> request_queue \<Rightarrow> controller \<Rightarrow> controller" where
  "set_lane_queue k q s = (case jm_get (c_virtualLanes s) k of
     None \<Rightarrow> s
   | Some lan \<Rightarrow> s\<lparr>c_virtualLanes := jm_set k (lan\<lparr>ln_queue := q\<rparr>) (c_virtualLanes s)\<rparr>)"

definition removeEmptyLane :: "string \<Rightarrow> controller \<Rightarrow> controller" where
  "removeEmptyLane k s = (case jm_get (c_virtualLanes s) k of
     Some lan \<Rightarrow> if q_size (ln_queue lan) = 0 then s\<lparr>c_virtualLanes := jm_del k (c_virtualLanes s)\<rparr> else s
   | None \<Rightarrow> s)"

lemma lane_queue_settle [simp]: "lane_queue k (snd (settle_dequeued now e s)) = lane_queue k s"
  by (simp add: lane_queue_def)

lemma lane_queue_set: "lane_queue k s \<noteq> None \<Longrightarrow> lane_queue k (set_lane_queue k q s) = Some q"
  by (auto simp: lane_queue_def set_lane_queue_def)

lemma lane_queue_after:
  "lane_queue k s = Some q0 \<Longrightarrow> (b, s') = settle_dequeued now e (set_lane_queue k q s) \<Longrightarrow> lane_queue k s' = Some q"
  using lane_queue_settle [of k now e "set_lane_queue k q s"] lane_queue_set [of k s q]
  by (metis option.distinct(1) snd_conv)

text \<open>One lane: \<open>True\<close> if no capacity was left, which ends the whole pass.\<close>

function dispatch_lane :: "int \<Rightarrow> string \<Rightarrow> controller \<Rightarrow> bool \<times> controller" where
  "dispatch_lane now k s =
     (case lane_queue k s of
        None \<Rightarrow> (False, s)
      | Some q0 \<Rightarrow>
          if \<not> q_size q0 > 0 then (False, s)
          else (let available = c_limit s - c_activeCost s
                in if available \<le> 0 then (True, s)
                   else (case dequeue available q0 of
                           (None, q) \<Rightarrow> (False, set_lane_queue k q s)
                         | (Some e, q) \<Rightarrow>
                             (case settle_dequeued now e (set_lane_queue k q s) of
                                (True, s') \<Rightarrow> (False, s')
                              | (False, s') \<Rightarrow> dispatch_lane now k s'))))"
  by pat_completeness auto

termination
  by (relation "measure (\<lambda>(now, k, s). case lane_queue k s of None \<Rightarrow> 0 | Some q \<Rightarrow> q_weight q)")
     (simp, frule (1) lane_queue_after, simp, drule sym, frule dequeue_weight, assumption)

declare dispatch_lane.simps [simp del]


fun dispatch_keys :: "int \<Rightarrow> string list \<Rightarrow> controller \<Rightarrow> controller" where
  "dispatch_keys now [] s = s"
| "dispatch_keys now (k # ks) s =
     (if jm_get (c_virtualLanes s) k = None then dispatch_keys now ks s
      else (case dispatch_lane now k s of
              (True, s') \<Rightarrow> s'
            | (False, s') \<Rightarrow> dispatch_keys now ks (removeEmptyLane k s')))"

definition dispatchLanes :: "int \<Rightarrow> controller \<Rightarrow> controller" where
  "dispatchLanes now s =
     (if c_shutDown s \<or> v_mode (c_config s) \<noteq> ModeEnforce then s
      else if length (c_virtualLanes s) = 0 then s
      else dispatch_keys now (jm_keys (c_virtualLanes s)) s)"

definition ctl_dispatch :: "int \<Rightarrow> controller \<Rightarrow> controller" where
  "ctl_dispatch now s =
     (if c_shutDown s \<or> v_mode (c_config s) \<noteq> ModeEnforce then s
      else (case dispatch_shared now s of
              (False, s') \<Rightarrow> s'
            | (True, s') \<Rightarrow> dispatchLanes now s'))"

section \<open>Shadow accounting\<close>

definition set_disposition :: "nat \<Rightarrow> disposition \<Rightarrow> controller \<Rightarrow> controller" where
  "set_disposition i d s = (case jm_get (c_active s) i of
     None \<Rightarrow> s
   | Some r \<Rightarrow> s\<lparr>c_active := jm_set i (r\<lparr>l_virtualDisposition := d\<rparr>) (c_active s)\<rparr>)"

definition add_virtual :: "int \<Rightarrow> controller \<Rightarrow> controller" where
  "add_virtual cost s = s\<lparr>c_virtualActiveCost := addSaturated (c_virtualActiveCost s) cost,
     c_virtualActiveCount := addSaturated (c_virtualActiveCount s) 1\<rparr>"

lemma virtual_fields [simp]:
  "c_virtualQueue (set_disposition i d s) = c_virtualQueue s" "c_virtualQueue (add_virtual c s) = c_virtualQueue s"
  by (auto simp: set_disposition_def add_virtual_def split: option.splits)

function dispatchVirtual :: "controller \<Rightarrow> controller" where
  "dispatchVirtual s =
     (if \<not> q_size (c_virtualQueue s) > 0 then s
      else (let available = c_limit s - c_virtualActiveCost s
            in if available \<le> 0 then s
               else (case dequeue available (c_virtualQueue s) of
                       (None, q) \<Rightarrow> s\<lparr>c_virtualQueue := q\<rparr>
                     | (Some e, q) \<Rightarrow>
                         (let s1 = s\<lparr>c_virtualQueue := q\<rparr>
                          in case jm_get (c_active s1) (e_payload e) of
                               None \<Rightarrow> dispatchVirtual s1
                             | Some r \<Rightarrow> dispatchVirtual (add_virtual (l_cost r) (set_disposition (e_payload e) VActive s1))))))"
  by pat_completeness auto

termination
  by (relation "measure (\<lambda>s. q_weight (c_virtualQueue s))") (auto dest: dequeue_weight [OF sym])

declare dispatchVirtual.simps [simp del]

definition releaseVirtual :: "nat \<Rightarrow> lease_record \<Rightarrow> controller \<Rightarrow> controller" where
  "releaseVirtual i r s =
     dispatchVirtual
       (case l_virtualDisposition r of
          VActive \<Rightarrow> s\<lparr>c_virtualActiveCost := c_virtualActiveCost s - l_cost r,
                      c_virtualActiveCount := c_virtualActiveCount s - 1\<rparr>
        | VQueued \<Rightarrow> s\<lparr>c_virtualQueue := snd (removeById i (c_virtualQueue s))\<rparr>
        | _ \<Rightarrow> s)"

fun rebuild_records :: "(nat \<times> lease_record) list \<Rightarrow> controller \<Rightarrow> controller" where
  "rebuild_records [] s = s"
| "rebuild_records ((i, r) # rs) s =
     rebuild_records rs
       (if l_cost r > c_limit s then set_disposition i VRejected s
        else if l_cost r \<le> c_limit s - c_virtualActiveCost s
        then add_virtual (l_cost r) (set_disposition i VActive s)
        else (case enqueue \<lparr>e_id = i, e_tenantKey = ''_existing'', e_cost = l_cost r,
                     e_enqueuedAtMs = l_admittedAtMs r, e_deadlineMs = MAX_SAFE_INTEGER,
                     e_payload = i, e_skipCount = 0\<rparr> (c_virtualQueue s) of
                (True, q) \<Rightarrow> set_disposition i VQueued (s\<lparr>c_virtualQueue := q\<rparr>)
              | (False, q) \<Rightarrow> set_disposition i VRejected s))"

definition rebuildVirtualState :: "bool \<Rightarrow> controller \<Rightarrow> controller" where
  "rebuildVirtualState enable s0 =
     (let s = s0\<lparr>c_virtualQueue := new_FairCostQueue (v_maxQueueCount (c_config s0)) (v_maxQueueCost (c_config s0)),
                  c_virtualActiveCost := 0, c_virtualActiveCount := 0,
                  c_active := map (\<lambda>(i, r). (i, r\<lparr>l_virtualDisposition := VNone\<rparr>)) (c_active s0)\<rparr>
      in if \<not> enable then s else rebuild_records (c_active s) s)"

section \<open>Lanes\<close>

definition deleteLane :: "string \<Rightarrow> controller \<Rightarrow> controller" where
  "deleteLane k s = (case jm_get (c_virtualLanes s) k of
     None \<Rightarrow> s
   | Some lan \<Rightarrow> (let s1 = fold (failQueued ADMISSION_LANE_EVICTED) (fst (drain (ln_queue lan))) s
                 in s1\<lparr>c_virtualLanes := jm_del k (c_virtualLanes s1)\<rparr>))"

text \<open>The last of the lanes with the smallest \<open>lastUsedMs\<close>; \<open>oldestMs\<close> starts at infinity.\<close>

fun oldest_scan :: "(string \<times> admission_lane) list \<Rightarrow> (string \<times> int) option \<Rightarrow> string option" where
  "oldest_scan [] best = map_option fst best"
| "oldest_scan ((k, lan) # ls) best =
     oldest_scan ls (case best of
        None \<Rightarrow> Some (k, ln_lastUsedMs lan)
      | Some (k', t) \<Rightarrow> if ln_lastUsedMs lan \<le> t then Some (k, ln_lastUsedMs lan) else best)"

definition oldestLaneKey :: "controller \<Rightarrow> string option" where
  "oldestLaneKey s = oldest_scan (c_virtualLanes s) None"

text \<open>\<open>if (oldestKey)\<close> is false on the empty string too.\<close>

definition getOrCreateLane :: "int \<Rightarrow> string \<Rightarrow> controller \<Rightarrow> controller" where
  "getOrCreateLane now k s =
     (case jm_get (c_virtualLanes s) k of
        Some lan \<Rightarrow> s\<lparr>c_virtualLanes := jm_set k (lan\<lparr>ln_lastUsedMs := now\<rparr>) (c_virtualLanes s)\<rparr>
      | None \<Rightarrow>
          (let s1 = (if length (c_virtualLanes s) \<ge> ADMISSION_LANE_MAX_SESSIONS
                     then (case oldestLaneKey s of
                             Some ok \<Rightarrow> if ok \<noteq> [] then deleteLane ok s else s
                           | None \<Rightarrow> s)
                     else s)
           in s1\<lparr>c_virtualLanes := jm_set k
                   \<lparr>ln_queue = new_FairCostQueue (v_maxQueueCount (c_config s1)) (v_maxQueueCost (c_config s1)),
                    ln_lastUsedMs = now\<rparr> (c_virtualLanes s1)\<rparr>))"

definition evictIdleLanes :: "int \<Rightarrow> controller \<Rightarrow> controller" where
  "evictIdleLanes now s =
     fold deleteLane (map fst (filter (\<lambda>(k, lan). now - ln_lastUsedMs lan \<ge> ADMISSION_LANE_TTL_MS) (c_virtualLanes s))) s"

definition laneTotalQueuedCost :: "controller \<Rightarrow> int" where
  "laneTotalQueuedCost s = fold (\<lambda>(k, lan) t. addSaturated t (q_totalCost (ln_queue lan))) (c_virtualLanes s) 0"

definition laneTotalQueuedCount :: "controller \<Rightarrow> int" where
  "laneTotalQueuedCount s = fold (\<lambda>(k, lan) t. addSaturated t (q_size (ln_queue lan))) (c_virtualLanes s) 0"

definition laneTenantSnapshot :: "controller \<Rightarrow> (string \<times> int \<times> int) list" where
  "laneTenantSnapshot s = map (\<lambda>(k, lan). (k, saturateSnapshotNumber (q_size (ln_queue lan)),
     saturateSnapshotNumber (q_totalCost (ln_queue lan)))) (c_virtualLanes s)"

section \<open>The handlers\<close>

text \<open>The deadline timer or the abort listener of a queued request.\<close>

fun remove_from_lanes :: "nat \<Rightarrow> (string \<times> admission_lane) list \<Rightarrow> (string \<times> nat option qentry \<times> request_queue) option" where
  "remove_from_lanes i [] = None"
| "remove_from_lanes i ((k, lan) # ls) =
     (case removeById i (ln_queue lan) of
        (Some e, q) \<Rightarrow> Some (k, e, q)
      | (None, _) \<Rightarrow> remove_from_lanes i ls)"

definition expireEntry :: "int \<Rightarrow> nat \<Rightarrow> reject_code \<Rightarrow> controller \<Rightarrow> controller" where
  "expireEntry now i code s =
     (case removeById i (c_queue s) of
        (Some e, q) \<Rightarrow> ctl_dispatch now (failQueued code e (s\<lparr>c_queue := q\<rparr>))
      | (None, _) \<Rightarrow>
          (case remove_from_lanes i (c_virtualLanes s) of
             None \<Rightarrow> s
           | Some (k, e, q) \<Rightarrow>
               ctl_dispatch now (failQueued code e (removeEmptyLane (e_tenantKey e) (set_lane_queue k q s)))))"

definition shouldAdmitSolo :: "int \<Rightarrow> controller \<Rightarrow> bool" where
  "shouldAdmitSolo cost s \<longleftrightarrow> cost \<le> v_maxLimit (c_config s) \<and> length (c_active s) = 0
     \<and> q_size (c_queue s) = 0 \<and> laneTotalQueuedCount s = 0 \<and> s_pressure (c_adaptation s) = PNormal"

definition resolveCost :: "admission_request \<Rightarrow> controller \<Rightarrow> range_error + int" where
  "resolveCost r s =
     (if r_cost r \<noteq> Undefined
      then normalizeRequestCost (r_cost r) (Num (of_int (v_maxRequestCost (c_config s))))
      else case r_features r of
             Some f \<Rightarrow> estimateAdmissionCost f (\<lambda>k. Num (of_int (v_costConfig (c_config s) k)))
           | None \<Rightarrow> Inr 1)"

text \<open>An absent or empty tenant key is the default tenant.\<close>

definition tenant_of :: "admission_request \<Rightarrow> string" where
  "tenant_of r = (case r_tenantKey r of None \<Rightarrow> ''_default'' | Some t \<Rightarrow> if t = [] then ''_default'' else t)"

definition acquireShadow :: "int \<Rightarrow> admission_request \<Rightarrow> int \<Rightarrow> int \<Rightarrow> controller \<Rightarrow> acquire_result \<times> controller" where
  "acquireShadow now r cost limit s =
     (let (decision, disp, s1) =
        (if cost > limit \<or> \<not> \<bar>cost\<bar> \<le> MAX_SAFE_INTEGER
         then (WouldReject, VRejected, s\<lparr>c_wouldRejectCount := c_wouldRejectCount s + 1\<rparr>)
         else if c_virtualActiveCost s + cost \<le> limit
         then (WouldAdmit, VActive,
               (add_virtual cost s)\<lparr>c_wouldAdmitCount := addSaturated (c_wouldAdmitCount s) 1\<rparr>)
         else if canAccept (c_virtualQueue s) cost
         then (WouldQueue, VQueued, s\<lparr>c_wouldQueueCount := c_wouldQueueCount s + 1\<rparr>)
         else (WouldReject, VRejected, s\<lparr>c_wouldRejectCount := c_wouldRejectCount s + 1\<rparr>));
          (i, s2) = admit now cost disp s1;
          s3 = (if disp = VQueued
                then s2\<lparr>c_virtualQueue := snd (enqueue \<lparr>e_id = i, e_tenantKey = tenant_of r, e_cost = cost,
                        e_enqueuedAtMs = now, e_deadlineMs = MAX_SAFE_INTEGER, e_payload = i, e_skipCount = 0\<rparr>
                        (c_virtualQueue s2))\<rparr>
                else s2)
      in (RAdmitted i (Some decision), s3))"

definition ctl_enqueue :: "int \<Rightarrow> admission_request \<Rightarrow> int \<Rightarrow> controller \<Rightarrow> acquire_result \<times> controller" where
  "ctl_enqueue now r cost s0 =
     (let (i, s) = nextId s0
      in case normalizeRequestCost
                (nullish_or (r_maxWaitMs r) (Num (of_int (v_defaultMaxWaitMs (c_config s)))))
                (Num (of_int MAX_ADMISSION_WINDOW_MS)) of
           Inl err \<Rightarrow> (RThrown err, s)
         | Inr maxWait \<Rightarrow>
             (let e = \<lparr>e_id = i, e_tenantKey = tenant_of r, e_cost = cost, e_enqueuedAtMs = now,
                      e_deadlineMs = min MAX_SAFE_INTEGER (now + maxWait), e_payload = r_signal r,
                      e_skipCount = 0\<rparr>
              in if e_tenantKey e \<noteq> ''_default'' \<and> v_virtualLanes (c_config s)
                 then (let s1 = getOrCreateLane now (e_tenantKey e) s
                       in case lane_queue (e_tenantKey e) s1 of
                            None \<Rightarrow> (RQueued i, s1)
                          | Some lq \<Rightarrow>
                              (case enqueue e lq of
                                 (False, _) \<Rightarrow> ctl_reject ADMISSION_QUEUE_FULL (removeEmptyLane (e_tenantKey e) s1)
                               | (True, q) \<Rightarrow>
                                   (RQueued i, ctl_dispatch now (ctl_dispatch now (set_lane_queue (e_tenantKey e) q s1)))))
                 else (case enqueue e (c_queue s) of
                         (False, _) \<Rightarrow> ctl_reject ADMISSION_QUEUE_FULL s
                       | (True, q) \<Rightarrow> (RQueued i, ctl_dispatch now (ctl_dispatch now (s\<lparr>c_queue := q\<rparr>))))))"

definition acquire :: "int \<Rightarrow> admission_request \<Rightarrow> controller \<Rightarrow> acquire_result \<times> controller" where
  "acquire now r s0 =
     (if c_shutDown s0 then ctl_reject ADMISSION_SHUTDOWN s0
      else if (case r_signal r of None \<Rightarrow> False | Some sg \<Rightarrow> sg \<in> set (c_aborted s0))
      then ctl_reject ADMISSION_ABORTED s0
      else (let s = (case r_pressure r of
                       None \<Rightarrow> s0
                     | Some p \<Rightarrow> s0\<lparr>c_adaptation := setPressure p (c_adaptation s0)\<rparr>)
            in case resolveCost r s of
                 Inl err \<Rightarrow> (RThrown err, s)
               | Inr cost \<Rightarrow>
                   (case v_mode (c_config s) of
                      ModeOff \<Rightarrow> admitVirtual s
                    | ModeShadow \<Rightarrow> acquireShadow now r cost (c_limit s) s
                    | ModeEnforce \<Rightarrow>
                        if cost > c_limit s
                        then (if shouldAdmitSolo cost s
                              then (case admit now cost VNone s of (i, s') \<Rightarrow> (RAdmitted i None, s'))
                              else ctl_reject ADMISSION_OVERSIZED s)
                        else if q_size (c_queue s) = 0 \<and> c_activeCost s + cost \<le> c_limit s
                        then (case admit now cost VNone s of (i, s') \<Rightarrow> (RAdmitted i None, s'))
                        else if \<not> canAccept (c_queue s) cost then ctl_reject ADMISSION_QUEUE_FULL s
                        else ctl_enqueue now r cost s)))"

definition releaseLease ::
  "int \<Rightarrow> nat \<Rightarrow> release_outcome \<Rightarrow> jsval \<Rightarrow> pressure option \<Rightarrow> controller \<Rightarrow> controller" where
  "releaseLease now i oc latencyMs p s0 =
     (case jm_get (c_active s0) i of
        None \<Rightarrow> s0
      | Some r \<Rightarrow>
          (let s1 = sampleIntegral now s0;
               s2 = s1\<lparr>c_active := jm_del i (c_active s1), c_activeCost := c_activeCost s1 - l_cost r\<rparr>;
               latency = (if latencyMs \<noteq> Undefined then latencyMs
                          else Num (of_int (max 0 (now - l_admittedAtMs r))));
               a1 = noteOutcome oc (noteLatency (v_adaptation (c_config s2)) latency (c_adaptation s2));
               a2 = a1\<lparr>s_windowCompleted := s_windowCompleted a1 + 1\<rparr>;
               a3 = (case p of None \<Rightarrow> a2 | Some pr \<Rightarrow> setPressure pr a2)
           in ctl_dispatch now (releaseVirtual i r (s2\<lparr>c_adaptation := a3\<rparr>))))"

definition observePressure :: "int \<Rightarrow> pressure \<Rightarrow> controller \<Rightarrow> controller" where
  "observePressure now p s0 =
     (let s = s0\<lparr>c_adaptation := setPressure p (c_adaptation s0)\<rparr>
      in if p = PCritical \<and> \<not> s_criticalDecreaseConsumed (c_adaptation s)
         then dispatchVirtual (ctl_dispatch now (s\<lparr>c_adaptation := (c_adaptation s)\<lparr>
                s_currentLimit := max (v_minLimit (c_config s))
                  \<lfloor>of_int (c_limit s) * ap_criticalDecreaseFactor (v_adaptation (c_config s))\<rfloor>,
                s_criticalDecreaseConsumed := True\<rparr>\<rparr>))
         else s)"

definition ctl_tick :: "int \<Rightarrow> controller \<Rightarrow> controller" where
  "ctl_tick now s0 =
     (let s = evictIdleLanes now (sampleIntegral now s0)
      in dispatchVirtual (ctl_dispatch now
           (s\<lparr>c_adaptation := closeAdaptationWindow (v_adaptation (c_config s)) now (c_adaptation s)\<rparr>)))"

text \<open>All queued entries, shared queue first, then the lanes in order.\<close>

definition drained_entries :: "controller \<Rightarrow> nat option qentry list" where
  "drained_entries s = fst (drain (c_queue s)) @ concat (map (\<lambda>(k, lan). fst (drain (ln_queue lan))) (c_virtualLanes s))"

definition ctl_shutdown :: "controller \<Rightarrow> controller" where
  "ctl_shutdown s =
     (if c_shutDown s then s
      else (let s1 = s\<lparr>c_shutDown := True, c_queue := snd (drain (c_queue s)), c_virtualLanes := []\<rparr>
            in fold (failQueued ADMISSION_SHUTDOWN) (drained_entries s) s1))"

definition requeue :: "int \<Rightarrow> nat option qentry \<Rightarrow> controller \<Rightarrow> controller" where
  "requeue now e s =
     (if v_mode (c_config s) \<noteq> ModeEnforce then resolve_admitted now e s
      else if e_cost e > c_limit s then failQueued ADMISSION_OVERSIZED e s
      else (case enqueue e (c_queue s) of
              (False, _) \<Rightarrow> failQueued ADMISSION_QUEUE_FULL e s
            | (True, q) \<Rightarrow> s\<lparr>c_queue := q\<rparr>))"

definition updateConfig :: "int \<Rightarrow> admission_input \<Rightarrow> controller \<Rightarrow> range_error + controller" where
  "updateConfig now input s0 =
     bindE (validateConfig input) (\<lambda>nxt.
       (let s1 = (sampleIntegral now s0)\<lparr>c_config := nxt\<rparr>;
            a = c_adaptation s1;
            s2 = s1\<lparr>c_adaptation := a\<lparr>
                     s_currentLimit := min (v_maxLimit nxt) (max (v_minLimit nxt) (s_currentLimit a)),
                     s_recoveryCeiling := clampLimit (of_int (v_initialLimit nxt)) (v_minLimit nxt) (v_maxLimit nxt),
                     s_windowStartMs := now, s_windowActiveCostIntegral := 0, s_windowCompleted := 0,
                     s_windowLatencySamples := 0, s_freezeGrowth := False,
                     s_criticalDecreaseConsumed := False, s_pressure := PNormal\<rparr>,
                   c_lastSampleMs := now\<rparr>;
            entries = drained_entries s2;
            s3 = s2\<lparr>c_queue := new_FairCostQueue (v_maxQueueCount nxt) (v_maxQueueCost nxt), c_virtualLanes := []\<rparr>;
            s4 = rebuildVirtualState (v_mode nxt = ModeShadow) (fold (requeue now) entries s3)
        in Inr (if v_mode nxt = ModeEnforce then ctl_dispatch now s4 else s4)))"


section \<open>The invariant\<close>

definition lanes_mset :: "(string, admission_lane) jsmap \<Rightarrow> nat option qentry multiset" where
  "lanes_mset ls = jm_sum (\<lambda>lan. q_mset (ln_queue lan)) ls"

text \<open>The requests waiting, and every request id that is waiting or settled.\<close>

definition pending :: "controller \<Rightarrow> nat option qentry multiset" where
  "pending s = q_mset (c_queue s) + lanes_mset (c_virtualLanes s)"

definition track :: "controller \<Rightarrow> nat multiset" where
  "track s = image_mset e_id (pending s) + mset (map fst (c_settled s))"

abbreviation c_mc :: "controller \<Rightarrow> int" where "c_mc s \<equiv> v_maxQueueCount (c_config s)"
abbreviation c_mk :: "controller \<Rightarrow> int" where "c_mk s \<equiv> v_maxQueueCost (c_config s)"

definition queues_ok :: "controller \<Rightarrow> bool" where
  "queues_ok s \<longleftrightarrow> fcq_within (c_mc s) (c_mk s) (c_queue s) \<and> fcq_within (c_mc s) (c_mk s) (c_virtualQueue s)
     \<and> jm_ok (c_virtualLanes s)
     \<and> (\<forall>p\<in>set (c_virtualLanes s). fcq_within (c_mc s) (c_mk s) (ln_queue (snd p)))"

definition active_ok :: "controller \<Rightarrow> bool" where
  "active_ok s \<longleftrightarrow> jm_ok (c_active s) \<and> c_activeCost s = jm_sum l_cost (c_active s)
     \<and> (\<forall>p\<in>set (c_active s). 0 < l_cost (snd p) \<and> l_cost (snd p) \<le> MAX_SAFE_INTEGER \<and> fst p \<le> c_leaseSeq s)"

definition ctl_inv :: "controller \<Rightarrow> bool" where
  "ctl_inv s \<longleftrightarrow> config_ok (c_config s) \<and> adapt_inv (v_adaptation (c_config s)) (c_adaptation s)
     \<and> queues_ok s \<and> active_ok s \<and> (c_shutDown s \<longrightarrow> pending s = {#})"

text \<open>
  What every internal step does: it keeps the invariant, loses no request, and takes the active
  cost no higher than the configured maximum unless it was there already.
\<close>

definition safe_step :: "controller \<Rightarrow> controller \<Rightarrow> bool" where
  "safe_step s s' \<longleftrightarrow> (ctl_inv s \<longrightarrow> ctl_inv s' \<and> track s' = track s \<and> c_config s' = c_config s
     \<and> c_activeCost s' \<le> max (c_activeCost s) (v_maxLimit (c_config s))
     \<and> c_shutDown s' = c_shutDown s \<and> c_leaseSeq s \<le> c_leaseSeq s' \<and> c_aborted s' = c_aborted s)"

lemma safe_refl [simp]: "safe_step s s"
  by (simp add: safe_step_def)

lemma safe_trans: "safe_step s s' \<Longrightarrow> safe_step s' s'' \<Longrightarrow> safe_step s s''"
  by (auto simp: safe_step_def)

lemma safe_fold: "(\<And>x s. safe_step s (f x s)) \<Longrightarrow> safe_step s (fold f xs s)"
  by (induction xs arbitrary: s) (auto intro: safe_trans)

lemma params_ok_of_config: "config_ok c \<Longrightarrow> params_ok (v_adaptation c)"
  by (simp add: config_ok_def params_ok_def)

lemma ctl_inv_limit:
  "ctl_inv s \<Longrightarrow> v_minLimit (c_config s) \<le> c_limit s \<and> c_limit s \<le> v_maxLimit (c_config s)
     \<and> v_maxLimit (c_config s) \<le> MAX_ADMISSION_COST_OR_LIMIT \<and> 0 < v_minLimit (c_config s)"
  by (auto simp: ctl_inv_def adapt_inv_def config_ok_def limits_ok_def)

lemma lanes_mset_set_old:
  "jm_get ls k = Some w \<Longrightarrow>
   lanes_mset (jm_set k lan ls) + q_mset (ln_queue w) = lanes_mset ls + q_mset (ln_queue lan)"
  unfolding lanes_mset_def by (rule jm_sum_set_old)

lemma lanes_mset_del:
  "jm_ok ls \<Longrightarrow> jm_get ls k = Some w \<Longrightarrow> lanes_mset (jm_del k ls) + q_mset (ln_queue w) = lanes_mset ls"
  unfolding lanes_mset_def by (rule jm_sum_del)

lemma queue_empty_mset: "fcq_inv q \<Longrightarrow> q_size q = 0 \<longleftrightarrow> q_mset q = {#}"
  by (simp add: q_size_def fcq_inv_def fcq_counts_def)

lemma lane_within:
  assumes "queues_ok s" and "jm_get (c_virtualLanes s) k = Some lan"
  shows "fcq_within (c_mc s) (c_mk s) (ln_queue lan)"
  using assms jm_get_SomeD [OF assms(2)] by (force simp: queues_ok_def)

section \<open>Internal steps are safe\<close>

lemma adapt_update_safe:
  assumes "ctl_inv s \<Longrightarrow> adapt_inv (v_adaptation (c_config s)) a"
  shows "safe_step s (s\<lparr>c_adaptation := a\<rparr>)"
  using assms by (auto simp: safe_step_def ctl_inv_def queues_ok_def active_ok_def track_def pending_def)

lemma sampleIntegral_safe: "safe_step s (sampleIntegral now s)"
proof -
  have "adapt_inv (v_adaptation (c_config s)) (sampleActiveIntegral c dt (c_adaptation s))" if "ctl_inv s" for c dt
    using that sampleActiveIntegral_inv params_ok_of_config by (simp add: ctl_inv_def)
  then show ?thesis
    by (auto simp: sampleIntegral_def Let_def safe_step_def ctl_inv_def queues_ok_def active_ok_def track_def pending_def)
qed

lemma reject_count_safe: "safe_step s (s\<lparr>c_rejectedCount := n\<rparr>)"
  by (simp add: safe_step_def ctl_inv_def queues_ok_def active_ok_def track_def pending_def)

text \<open>An admission within the limit, or within the maximum on an idle system.\<close>

lemma admit_inv:
  assumes inv: "ctl_inv s" and c: "0 < cost" "cost \<le> MAX_SAFE_INTEGER" and a: "admit now cost d s = (i, s')"
  shows "ctl_inv s'" "track s' = track s" "c_config s' = c_config s" "c_activeCost s' = c_activeCost s + cost"
    "c_shutDown s' = c_shutDown s" "c_leaseSeq s' = Suc (c_leaseSeq s)" "i = Suc (c_leaseSeq s)"
    "c_aborted s' = c_aborted s" "c_limit s' = c_limit s" "c_settled s' = c_settled s" "pending s' = pending s"
    "c_queue s' = c_queue s" "c_virtualLanes s' = c_virtualLanes s" "c_virtualQueue s' = c_virtualQueue s"
    "c_active s' = c_active s @ [(i, \<lparr>l_cost = cost, l_admittedAtMs = now, l_virtualDisposition = d\<rparr>)]"
proof -
  let ?t = "sampleIntegral now s"
  have inv': "ctl_inv ?t" using sampleIntegral_safe [of s now] inv by (simp add: safe_step_def)
  have s': "s' = ?t\<lparr>c_leaseSeq := Suc (c_leaseSeq s),
      c_active := jm_set (Suc (c_leaseSeq s)) \<lparr>l_cost = cost, l_admittedAtMs = now, l_virtualDisposition = d\<rparr> (c_active s),
      c_activeCost := c_activeCost s + cost, c_admittedCount := c_admittedCount ?t + 1\<rparr>" and i: "i = Suc (c_leaseSeq s)"
    using a by (auto simp: admit_def nextId_def Let_def)
  have new: "\<not> jm_has (c_active s) (Suc (c_leaseSeq s))"
    using inv by (force simp: jm_has_keys ctl_inv_def active_ok_def)
  note set_eq = jm_set_new [OF new]
  show "ctl_inv s'" using inv' c inv new
    by (auto simp: s' ctl_inv_def queues_ok_def active_ok_def pending_def set_eq jm_ok_def jm_has_keys)
  show "track s' = track s" "c_config s' = c_config s" "c_activeCost s' = c_activeCost s + cost"
    "c_shutDown s' = c_shutDown s" "c_leaseSeq s' = Suc (c_leaseSeq s)" "i = Suc (c_leaseSeq s)"
    "c_aborted s' = c_aborted s" "c_limit s' = c_limit s" "c_settled s' = c_settled s" "pending s' = pending s"
    "c_queue s' = c_queue s" "c_virtualLanes s' = c_virtualLanes s" "c_virtualQueue s' = c_virtualQueue s"
    "c_active s' = c_active s @ [(i, \<lparr>l_cost = cost, l_admittedAtMs = now, l_virtualDisposition = d\<rparr>)]"
    by (simp_all add: s' i track_def pending_def set_eq)
qed

lemma admit_safe:
  assumes "0 < cost" "cost \<le> MAX_SAFE_INTEGER"
    and "c_activeCost s + cost \<le> c_limit s \<or> c_activeCost s + cost \<le> v_maxLimit (c_config s)"
  shows "safe_step s (snd (admit now cost d s))"
proof (cases "admit now cost d s")
  case (Pair i s')
  then show ?thesis
    using admit_inv [OF _ assms(1,2) Pair] ctl_inv_limit [of s] assms(3) by (auto simp: safe_step_def)
qed

text \<open>Taking an entry out of a queue and settling it.\<close>

definition settle_mset :: "nat option qentry \<Rightarrow> controller \<Rightarrow> controller \<Rightarrow> bool" where
  "settle_mset e s s' \<longleftrightarrow> (ctl_inv s \<longrightarrow> ctl_inv s' \<and> track s' = add_mset (e_id e) (track s) \<and> c_config s' = c_config s
     \<and> c_activeCost s' \<le> max (c_activeCost s) (v_maxLimit (c_config s))
     \<and> c_shutDown s' = c_shutDown s \<and> c_leaseSeq s \<le> c_leaseSeq s' \<and> c_aborted s' = c_aborted s)"

lemma failQueued_settles: "settle_mset e s (failQueued code e s)"
  by (simp add: settle_mset_def failQueued_def ctl_inv_def queues_ok_def active_ok_def track_def pending_def)

lemma resolve_admitted_settles:
  assumes "0 < e_cost e" "e_cost e \<le> MAX_SAFE_INTEGER" "c_activeCost s + e_cost e \<le> c_limit s"
  shows "settle_mset e s (resolve_admitted now e s)"
proof (cases "admit now (e_cost e) VNone s")
  case (Pair i s')
  note A = admit_inv [OF _ assms(1,2) Pair]
  have "ctl_inv s \<Longrightarrow> ctl_inv (s'\<lparr>c_settled := c_settled s' @ [(e_id e, Resolved i)]\<rparr>)"
    using A(1) by (auto simp: ctl_inv_def queues_ok_def active_ok_def pending_def)
  then show ?thesis using A assms(3) ctl_inv_limit [of s] Pair
    by (auto simp: settle_mset_def resolve_admitted_def track_def pending_def)
qed

lemma settle_dequeued_settles:
  assumes "0 < e_cost e" "e_cost e \<le> MAX_SAFE_INTEGER" "c_activeCost s + e_cost e \<le> c_limit s"
  shows "settle_mset e s (snd (settle_dequeued now e s))"
  using failQueued_settles resolve_admitted_settles [OF assms] by (simp add: settle_dequeued_def)


text \<open>An entry leaves the shared queue or a lane.\<close>

definition taken :: "nat option qentry \<Rightarrow> controller \<Rightarrow> controller \<Rightarrow> bool" where
  "taken e s s1 \<longleftrightarrow> ctl_inv s1 \<and> pending s = add_mset e (pending s1) \<and> c_config s1 = c_config s
     \<and> c_activeCost s1 = c_activeCost s \<and> c_shutDown s1 = c_shutDown s \<and> c_leaseSeq s1 = c_leaseSeq s
     \<and> c_settled s1 = c_settled s \<and> c_aborted s1 = c_aborted s \<and> c_limit s1 = c_limit s"

lemma taken_settle_safe:
  assumes "ctl_inv s \<Longrightarrow> taken e s s1" and "settle_mset e s1 s'"
  shows "safe_step s s'"
  using assms by (auto simp: safe_step_def settle_mset_def taken_def track_def)

lemma taken_shared:
  assumes inv: "ctl_inv s" and w: "fcq_within (c_mc s) (c_mk s) q" and m: "q_mset (c_queue s) = add_mset e (q_mset q)"
  shows "taken e s (s\<lparr>c_queue := q\<rparr>)"
  using assms by (auto simp: taken_def ctl_inv_def queues_ok_def active_ok_def pending_def)

lemma taken_lane:
  assumes inv: "ctl_inv s" and l: "lane_queue k s = Some q0"
    and w: "fcq_within (c_mc s) (c_mk s) q" and m: "q_mset q0 = add_mset e (q_mset q)"
  shows "taken e s (set_lane_queue k q s)"
proof -
  obtain lan where lan: "jm_get (c_virtualLanes s) k = Some lan" "q0 = ln_queue lan"
    using l by (auto simp: lane_queue_def)
  let ?ls = "jm_set k (lan\<lparr>ln_queue := q\<rparr>) (c_virtualLanes s)"
  have "lanes_mset ?ls + q_mset (ln_queue lan) = lanes_mset (c_virtualLanes s) + q_mset q"
    using lanes_mset_set_old [OF lan(1), of "lan\<lparr>ln_queue := q\<rparr>"] by simp
  then have "add_mset e (lanes_mset ?ls) = lanes_mset (c_virtualLanes s)"
    using m lan(2) by simp
  moreover have "fcq_within (c_mc s) (c_mk s) (ln_queue (snd p))" if "p \<in> set ?ls" for p
    using that inv w jm_set_values [OF that] by (auto simp: ctl_inv_def queues_ok_def)
  ultimately show ?thesis using inv lan
    by (auto simp: taken_def set_lane_queue_def ctl_inv_def queues_ok_def active_ok_def pending_def)
qed

lemma dequeue_within:
  assumes w: "fcq_within mc mk q" and d: "dequeue mx q = (Some e, q')"
  shows "fcq_within mc mk q'" "q_mset q = add_mset e (q_mset q')" "0 < e_cost e" "e_cost e \<le> mx"
    "e_cost e \<le> MAX_SAFE_INTEGER"
proof -
  have i: "fcq_inv q" using w by (simp add: fcq_within_def)
  show q': "fcq_within mc mk q'" "q_mset q = add_mset e (q_mset q')"
    using fq.deq_some [OF w d] by simp_all
  show "0 < e_cost e" "e_cost e \<le> mx" using dequeue_Some(1,2) [OF i d] by simp_all
  show "e_cost e \<le> MAX_SAFE_INTEGER" using cost_safe [OF i, of e] q'(2) by simp
qed

lemma dequeue_None_same: "fcq_within mc mk q \<Longrightarrow> dequeue mx q = (None, q') \<Longrightarrow> q' = q"
  by (rule fq.deq_none)

subsection \<open>The dispatch loops\<close>

lemma dispatch_shared_cases:
  obtains (idle) "\<not> q_size (c_queue s) > 0" "dispatch_shared now s = (True, s)"
  | (full) "q_size (c_queue s) > 0" "c_limit s - c_activeCost s \<le> 0" "dispatch_shared now s = (False, s)"
  | (unfit) q where "q_size (c_queue s) > 0" "\<not> c_limit s - c_activeCost s \<le> 0"
      "dequeue (c_limit s - c_activeCost s) (c_queue s) = (None, q)" "dispatch_shared now s = (False, s\<lparr>c_queue := q\<rparr>)"
  | (some) e q where "q_size (c_queue s) > 0" "\<not> c_limit s - c_activeCost s \<le> 0"
      "dequeue (c_limit s - c_activeCost s) (c_queue s) = (Some e, q)"
      "dispatch_shared now s = dispatch_shared now (snd (settle_dequeued now e (s\<lparr>c_queue := q\<rparr>)))"
proof (cases "q_size (c_queue s) > 0")
  case False
  then show ?thesis by (intro idle) (simp_all add: dispatch_shared.simps [of now s])
next
  case True
  show ?thesis
  proof (cases "c_limit s - c_activeCost s \<le> 0")
    case f: True
    then show ?thesis using True by (intro full) (simp_all add: dispatch_shared.simps [of now s])
  next
    case False
    obtain r q where d: "dequeue (c_limit s - c_activeCost s) (c_queue s) = (r, q)"
      by (cases "dequeue (c_limit s - c_activeCost s) (c_queue s)")
    show ?thesis
    proof (cases r)
      case None
      then show ?thesis using True False d by (intro unfit [of q]) (simp_all add: dispatch_shared.simps [of now s])
    next
      case (Some e)
      have "dispatch_shared now s = dispatch_shared now (snd (settle_dequeued now e (s\<lparr>c_queue := q\<rparr>)))"
        using True False d Some by (subst dispatch_shared.simps) simp
      then show ?thesis using True False d Some by (intro some [of e q]) simp_all
    qed
  qed
qed

lemma settle_shared_safe:
  assumes "dequeue (c_limit s - c_activeCost s) (c_queue s) = (Some e, q)"
  shows "safe_step s (snd (settle_dequeued now e (s\<lparr>c_queue := q\<rparr>)))"
proof (cases "ctl_inv s")
  case True
  then have "fcq_within (c_mc s) (c_mk s) (c_queue s)" by (simp add: ctl_inv_def queues_ok_def)
  note D = dequeue_within [OF this assms]
  show ?thesis
    by (rule taken_settle_safe [OF taken_shared settle_dequeued_settles]) (use D in auto)
qed (simp add: safe_step_def)

lemma dispatch_shared_safe: "safe_step s (snd (dispatch_shared now s))"
proof (induction now s rule: dispatch_shared.induct)
  case (1 now s)
  show ?case
  proof (cases rule: dispatch_shared_cases [of s now])
    case (unfit q)
    then have "ctl_inv s \<Longrightarrow> q = c_queue s"
      using dequeue_None_same by (auto simp: ctl_inv_def queues_ok_def)
    then show ?thesis using unfit by (auto simp: safe_step_def)
  next
    case (some e q)
    have "safe_step (snd (settle_dequeued now e (s\<lparr>c_queue := q\<rparr>)))
        (snd (dispatch_shared now (snd (settle_dequeued now e (s\<lparr>c_queue := q\<rparr>)))))"
      using "1.IH" [OF _ refl _ some(3) [symmetric] refl] some(1,2) by simp
    with settle_shared_safe [OF some(3)] show ?thesis unfolding some(4) by (rule safe_trans)
  qed simp_all
qed

lemma dispatch_lane_cases:
  obtains (stay) b where "dispatch_lane now k s = (b, s)"
  | (unfit) q0 q where "lane_queue k s = Some q0" "dequeue (c_limit s - c_activeCost s) q0 = (None, q)"
      "dispatch_lane now k s = (False, set_lane_queue k q s)"
  | (admitted) q0 e q s' where "lane_queue k s = Some q0" "dequeue (c_limit s - c_activeCost s) q0 = (Some e, q)"
      "settle_dequeued now e (set_lane_queue k q s) = (True, s')" "dispatch_lane now k s = (False, s')"
  | (failed) q0 e q s' where "lane_queue k s = Some q0" "q_size q0 > 0" "\<not> c_limit s - c_activeCost s \<le> 0"
      "dequeue (c_limit s - c_activeCost s) q0 = (Some e, q)"
      "settle_dequeued now e (set_lane_queue k q s) = (False, s')" "dispatch_lane now k s = dispatch_lane now k s'"
proof (cases "lane_queue k s")
  case None
  then show ?thesis by (intro stay [of False]) (simp add: dispatch_lane.simps [of now k s])
next
  case (Some q0)
  let ?av = "c_limit s - c_activeCost s"
  show ?thesis
  proof (cases "q_size q0 > 0 \<and> \<not> ?av \<le> 0")
    case False
    then show ?thesis using Some
      by (intro stay [of "q_size q0 > 0"]) (auto simp: dispatch_lane.simps [of now k s])
  next
    case True
    obtain r q where d: "dequeue ?av q0 = (r, q)" by (cases "dequeue ?av q0")
    show ?thesis
    proof (cases r)
      case None
      then show ?thesis using True d Some by (intro unfit [of q0 q]) (simp_all add: dispatch_lane.simps [of now k s])
    next
      case r: (Some e)
      obtain b s' where st: "settle_dequeued now e (set_lane_queue k q s) = (b, s')"
        by (cases "settle_dequeued now e (set_lane_queue k q s)")
      have "dispatch_lane now k s = (if b then (False, s') else dispatch_lane now k s')"
        using True d Some r st by (subst dispatch_lane.simps) simp
      then show ?thesis using True d Some r st admitted failed by (cases b) auto
    qed
  qed
qed

lemma settle_lane_safe:
  assumes l: "lane_queue k s = Some q0" and d: "dequeue (c_limit s - c_activeCost s) q0 = (Some e, q)"
  shows "safe_step s (snd (settle_dequeued now e (set_lane_queue k q s)))"
proof (cases "ctl_inv s")
  case True
  have "fcq_within (c_mc s) (c_mk s) q0"
    using l lane_within True by (auto simp: lane_queue_def ctl_inv_def)
  note D = dequeue_within [OF this d]
  have t: "taken e s (set_lane_queue k q s)" using True l D(1,2) by (rule taken_lane)
  then have "c_activeCost (set_lane_queue k q s) + e_cost e \<le> c_limit (set_lane_queue k q s)"
    using D(4) by (simp add: taken_def)
  with D t show ?thesis
    by (intro taken_settle_safe [of s e "set_lane_queue k q s"] settle_dequeued_settles)
qed (simp add: safe_step_def)

lemma set_lane_same: "lane_queue k s = Some q \<Longrightarrow> set_lane_queue k q s = s"
  by (auto simp: lane_queue_def set_lane_queue_def jm_set_same)

lemma dispatch_lane_safe: "safe_step s (snd (dispatch_lane now k s))"
proof (induction now k s rule: dispatch_lane.induct)
  case (1 now k s)
  show ?case
  proof (cases rule: dispatch_lane_cases [of now k s])
    case (unfit q0 q)
    have "set_lane_queue k q s = s" if i: "ctl_inv s"
    proof -
      have "fcq_within (c_mc s) (c_mk s) q0"
        using unfit(1) lane_within i by (auto simp: lane_queue_def ctl_inv_def)
      then have "q = q0" using dequeue_None_same unfit(2) by blast
      then show ?thesis using set_lane_same unfit(1) by simp
    qed
    then show ?thesis using unfit by (auto simp: safe_step_def)
  next
    case (admitted q0 e q s')
    then show ?thesis using settle_lane_safe [OF admitted(1,2), of now] by simp
  next
    case (failed q0 e q s')
    have "safe_step s s'" using settle_lane_safe [OF failed(1,4), of now] failed(5) by simp
    moreover have "safe_step s' (snd (dispatch_lane now k s'))"
      using "1.IH" [OF failed(1) _ refl _ failed(4) [symmetric] refl failed(5) [symmetric] refl] failed(2,3) by simp
    ultimately show ?thesis unfolding failed(6) by (rule safe_trans)
  qed simp
qed


lemma removeEmptyLane_safe: "safe_step s (removeEmptyLane k s)"
proof (cases "jm_get (c_virtualLanes s) k")
  case (Some lan)
  show ?thesis
  proof (cases "q_size (ln_queue lan) = 0 \<and> ctl_inv s")
    case True
    then have "q_mset (ln_queue lan) = {#}"
      using lane_within [OF _ Some] queue_empty_mset by (auto simp: ctl_inv_def fcq_within_def)
    then have "lanes_mset (jm_del k (c_virtualLanes s)) = lanes_mset (c_virtualLanes s)"
      using True lanes_mset_del [OF _ Some] by (simp add: ctl_inv_def queues_ok_def)
    then show ?thesis using True Some
      by (auto simp: safe_step_def removeEmptyLane_def ctl_inv_def queues_ok_def active_ok_def pending_def track_def
          dest: jm_del_values)
  qed (auto simp: removeEmptyLane_def Some safe_step_def)
qed (simp add: removeEmptyLane_def)

lemma dispatch_keys_safe: "safe_step s (dispatch_keys now ks s)"
proof (induction now ks s rule: dispatch_keys.induct)
  case (2 now k ks s)
  obtain b s' where d: "dispatch_lane now k s = (b, s')" by (cases "dispatch_lane now k s")
  have "safe_step s s'" using dispatch_lane_safe [of s now k] d by simp
  moreover have "safe_step s' (removeEmptyLane k s')" by (rule removeEmptyLane_safe)
  ultimately show ?case using "2.IH" d by (cases b) (auto intro: safe_trans)
qed simp

lemma ctl_dispatch_safe: "safe_step s (ctl_dispatch now s)"
proof -
  obtain b s' where d: "dispatch_shared now s = (b, s')" by (cases "dispatch_shared now s")
  have "safe_step s s'" using dispatch_shared_safe [of s now] d by simp
  moreover have "safe_step s' (dispatchLanes now s')" by (simp add: dispatchLanes_def dispatch_keys_safe)
  ultimately show ?thesis using d by (cases b) (auto simp: ctl_dispatch_def intro: safe_trans)
qed

subsection \<open>Shadow accounting, lanes, timers\<close>

lemma set_disposition_safe: "safe_step s (set_disposition i d s)"
proof (cases "jm_get (c_active s) i")
  case (Some r)
  have "jm_sum l_cost (jm_set i (r\<lparr>l_virtualDisposition := d\<rparr>) (c_active s)) = jm_sum l_cost (c_active s)"
    using jm_sum_set_old [OF Some, of l_cost "r\<lparr>l_virtualDisposition := d\<rparr>"] by simp
  moreover have "0 < l_cost (snd p) \<and> l_cost (snd p) \<le> MAX_SAFE_INTEGER \<and> fst p \<le> c_leaseSeq s"
    if "p \<in> set (jm_set i (r\<lparr>l_virtualDisposition := d\<rparr>) (c_active s))" "active_ok s" for p
    using jm_set_values [OF that(1)] that(2) jm_get_SomeD [OF Some] by (auto simp: active_ok_def)
  ultimately show ?thesis using Some
    by (auto simp: safe_step_def set_disposition_def ctl_inv_def queues_ok_def active_ok_def pending_def track_def)
qed (simp add: set_disposition_def)

lemma virtual_counts_safe: "safe_step s (s\<lparr>c_virtualActiveCost := x, c_virtualActiveCount := y\<rparr>)"
  by (simp add: safe_step_def ctl_inv_def queues_ok_def active_ok_def pending_def track_def)

lemma add_virtual_safe: "safe_step s (add_virtual c s)"
  unfolding add_virtual_def by (rule virtual_counts_safe)

lemma virtual_queue_safe:
  "(ctl_inv s \<Longrightarrow> fcq_within (c_mc s) (c_mk s) q) \<Longrightarrow> safe_step s (s\<lparr>c_virtualQueue := q\<rparr>)"
  by (simp add: safe_step_def ctl_inv_def queues_ok_def active_ok_def pending_def track_def)

lemma dequeue_queue_within: "fcq_within mc mk q \<Longrightarrow> fcq_within mc mk (snd (dequeue mx q))"
  using fq.deq_none [of mc mk q mx] fq.deq_some [of mc mk q mx]
  by (cases "dequeue mx q"; cases "fst (dequeue mx q)") auto

lemma removeById_within: "fcq_within mc mk q \<Longrightarrow> fcq_within mc mk (snd (removeById i q))"
  using fq.rm_none [of mc mk q i] fq.rm_some [of mc mk q i]
  by (cases "removeById i q"; cases "fst (removeById i q)") (auto simp: remove_client_def)

lemma enqueue_within: "fresh_entry e \<Longrightarrow> fcq_within mc mk q \<Longrightarrow> fcq_within mc mk (snd (enqueue e q))"
  using fq.enq_no [of mc mk q e] fq.enq_yes [of mc mk q e]
  by (cases "enqueue e q"; cases "fst (enqueue e q)") auto

lemma dispatchVirtual_safe: "safe_step s (dispatchVirtual s)"
proof (induction s rule: dispatchVirtual.induct)
  case (1 s)
  let ?av = "c_limit s - c_virtualActiveCost s"
  show ?case
  proof (cases "q_size (c_virtualQueue s) > 0 \<and> \<not> ?av \<le> 0")
    case False
    then show ?thesis by (auto simp: dispatchVirtual.simps [of s])
  next
    case True
    obtain r q where d: "dequeue ?av (c_virtualQueue s) = (r, q)" by (cases "dequeue ?av (c_virtualQueue s)")
    have q: "safe_step s (s\<lparr>c_virtualQueue := q\<rparr>)"
    proof (rule virtual_queue_safe)
      assume "ctl_inv s"
      then show "fcq_within (c_mc s) (c_mk s) q"
        using dequeue_queue_within [of _ _ "c_virtualQueue s" ?av] d by (simp add: ctl_inv_def queues_ok_def)
    qed
    show ?thesis
    proof (cases r)
      case None
      then show ?thesis using True d q by (simp add: dispatchVirtual.simps [of s])
    next
      case (Some e)
      let ?s1 = "s\<lparr>c_virtualQueue := q\<rparr>"
      show ?thesis
      proof (cases "jm_get (c_active ?s1) (e_payload e)")
        case None
        have "safe_step ?s1 (dispatchVirtual ?s1)"
          using "1.IH"(1) [OF _ refl _ d [symmetric] Some refl None] True by simp
        with q have "safe_step s (dispatchVirtual ?s1)" by (rule safe_trans)
        then show ?thesis using True d Some None by (subst dispatchVirtual.simps) simp
      next
        case a: (Some rec)
        let ?s2 = "add_virtual (l_cost rec) (set_disposition (e_payload e) VActive ?s1)"
        have "safe_step ?s2 (dispatchVirtual ?s2)"
          using "1.IH"(2) [OF _ refl _ d [symmetric] Some refl a] True by simp
        moreover have "safe_step ?s1 ?s2"
          by (rule safe_trans [OF set_disposition_safe add_virtual_safe])
        ultimately have "safe_step s (dispatchVirtual ?s2)" using q by (blast intro: safe_trans)
        then show ?thesis using True d Some a by (subst dispatchVirtual.simps) simp
      qed
    qed
  qed
qed

lemma releaseVirtual_safe: "safe_step s (releaseVirtual i r s)"
proof -
  have "safe_step s (s\<lparr>c_virtualQueue := snd (removeById i (c_virtualQueue s))\<rparr>)"
    by (rule virtual_queue_safe) (simp add: ctl_inv_def queues_ok_def removeById_within)
  then show ?thesis unfolding releaseVirtual_def
    by (cases "l_virtualDisposition r") (auto intro: safe_trans dispatchVirtual_safe virtual_counts_safe)
qed

lemma rebuild_records_safe: "safe_step s (rebuild_records rs s)"
proof (induction rs s rule: rebuild_records.induct)
  case (2 i r rs s)
  let ?e = "\<lparr>e_id = i, e_tenantKey = ''_existing'', e_cost = l_cost r, e_enqueuedAtMs = l_admittedAtMs r,
     e_deadlineMs = MAX_SAFE_INTEGER, e_payload = i, e_skipCount = 0\<rparr>"
  obtain b q where e: "enqueue ?e (c_virtualQueue s) = (b, q)" by (cases "enqueue ?e (c_virtualQueue s)")
  have "safe_step s (s\<lparr>c_virtualQueue := q\<rparr>)"
    using enqueue_within [of ?e _ _ "c_virtualQueue s"] e
    by (intro virtual_queue_safe) (simp add: ctl_inv_def queues_ok_def fresh_entry_def)
  then have q: "safe_step s (set_disposition i VQueued (s\<lparr>c_virtualQueue := q\<rparr>))"
    by (rule safe_trans [OF _ set_disposition_safe])
  define t where "t = (if l_cost r > c_limit s then set_disposition i VRejected s
        else if l_cost r \<le> c_limit s - c_virtualActiveCost s
        then add_virtual (l_cost r) (set_disposition i VActive s)
        else (case (b, q) of
                (True, q) \<Rightarrow> set_disposition i VQueued (s\<lparr>c_virtualQueue := q\<rparr>)
              | (False, q) \<Rightarrow> set_disposition i VRejected s))"
  have "safe_step s t"
    using q set_disposition_safe safe_trans [OF set_disposition_safe add_virtual_safe]
    by (cases b) (auto simp: t_def)
  moreover have "rebuild_records ((i, r) # rs) s = rebuild_records rs t"
    by (simp add: t_def e)
  ultimately show ?case using "2.IH" e by (auto simp: t_def intro: safe_trans)
qed simp


lemma fold_failQueued:
  "fold (failQueued code) es s = s\<lparr>c_settled := c_settled s @ map (\<lambda>e. (e_id e, RejectedWith code)) es,
     c_rejectedCount := c_rejectedCount s + int (length es)\<rparr>"
  by (induction es arbitrary: s) (simp_all add: failQueued_def)

lemma drain_mset: "fcq_within mc mk q \<Longrightarrow> mset (fst (drain q)) = q_mset q"
proof -
  assume "fcq_within mc mk q"
  then have i: "fcq_inv q" by (simp add: fcq_within_def)
  obtain es q' where "drain_loop q = (es, q')" by (cases "drain_loop q")
  then show ?thesis using drain_loop_spec [OF i] by (simp add: drain_def)
qed

lemma deleteLane_safe: "safe_step s (deleteLane k s)"
proof (cases "jm_get (c_virtualLanes s) k")
  case (Some lan)
  show ?thesis
  proof (cases "ctl_inv s")
    case True
    have w: "fcq_within (c_mc s) (c_mk s) (ln_queue lan)"
      using True lane_within [OF _ Some] by (simp add: ctl_inv_def)
    have d: "lanes_mset (jm_del k (c_virtualLanes s)) + q_mset (ln_queue lan) = lanes_mset (c_virtualLanes s)"
      using True lanes_mset_del [OF _ Some] by (simp add: ctl_inv_def queues_ok_def)
    let ?s = "deleteLane k s"
    have s': "?s = s\<lparr>c_settled := c_settled s @ map (\<lambda>e. (e_id e, RejectedWith ADMISSION_LANE_EVICTED)) (fst (drain (ln_queue lan))),
        c_rejectedCount := c_rejectedCount s + int (length (fst (drain (ln_queue lan)))),
        c_virtualLanes := jm_del k (c_virtualLanes s)\<rparr>"
      by (simp add: deleteLane_def Some fold_failQueued Let_def)
    have ids: "image_mset e_id (mset (fst (drain (ln_queue lan)))) = image_mset e_id (q_mset (ln_queue lan))"
      using drain_mset [OF w] by simp
    have "track ?s = track s"
      using ids d [symmetric] by (simp add: s' track_def pending_def image_mset.compositionality [symmetric] comp_def)
    moreover have "pending s = {#} \<Longrightarrow> pending ?s = {#}"
      using d [symmetric] by (simp add: s' pending_def)
    ultimately show ?thesis using True d [symmetric]
      by (auto simp: safe_step_def s' ctl_inv_def queues_ok_def active_ok_def dest: jm_del_values)
  qed (simp add: safe_step_def)
qed (simp add: deleteLane_def)

lemma set_lane_used_safe:
  assumes "jm_get (c_virtualLanes s) k = Some lan"
  shows "safe_step s (s\<lparr>c_virtualLanes := jm_set k (lan\<lparr>ln_lastUsedMs := t\<rparr>) (c_virtualLanes s)\<rparr>)"
proof -
  have l: "lanes_mset (jm_set k (lan\<lparr>ln_lastUsedMs := t\<rparr>) (c_virtualLanes s)) = lanes_mset (c_virtualLanes s)"
    using lanes_mset_set_old [OF assms, of "lan\<lparr>ln_lastUsedMs := t\<rparr>"] by simp
  have "fcq_within (c_mc s) (c_mk s) (ln_queue (snd p))"
    if "p \<in> set (jm_set k (lan\<lparr>ln_lastUsedMs := t\<rparr>) (c_virtualLanes s))" "queues_ok s" for p
    using jm_set_values [OF that(1)] that(2) jm_get_SomeD [OF assms] by (auto simp: queues_ok_def)
  then show ?thesis using l
    by (auto simp: safe_step_def ctl_inv_def queues_ok_def active_ok_def pending_def track_def)
qed

lemma new_lane_safe:
  assumes "jm_get (c_virtualLanes s) k = None"
  shows "safe_step s (s\<lparr>c_virtualLanes := jm_set k \<lparr>ln_queue = new_FairCostQueue (c_mc s) (c_mk s),
                    ln_lastUsedMs = now\<rparr> (c_virtualLanes s)\<rparr>)"
proof -
  let ?lan = "\<lparr>ln_queue = new_FairCostQueue (c_mc s) (c_mk s), ln_lastUsedMs = now\<rparr> :: admission_lane"
  have e: "q_mset (new_FairCostQueue (c_mc s) (c_mk s) :: request_queue) = {#}"
    by (simp add: q_mset_def new_FairCostQueue_def)
  have l: "lanes_mset (jm_set k ?lan (c_virtualLanes s)) = lanes_mset (c_virtualLanes s)"
    using jm_sum_set_new [OF assms, of "\<lambda>lan. q_mset (ln_queue lan)" ?lan] e by (simp add: lanes_mset_def)
  have "fcq_within (c_mc s) (c_mk s) (ln_queue (snd p))"
    if "p \<in> set (jm_set k ?lan (c_virtualLanes s))" "ctl_inv s" for p
    using jm_set_values [OF that(1)] that(2)
    by (auto simp: ctl_inv_def queues_ok_def config_ok_def intro!: new_within)
  then show ?thesis using l
    by (auto simp: safe_step_def ctl_inv_def queues_ok_def active_ok_def pending_def track_def)
qed

lemma deleteLane_get:
  "jm_get (c_virtualLanes (deleteLane k' s)) k = (if k = k' then None else jm_get (c_virtualLanes s) k)"
  by (auto simp: deleteLane_def fold_failQueued Let_def split: option.splits)

lemma getOrCreateLane_safe: "safe_step s (getOrCreateLane now k s)"
proof (cases "jm_get (c_virtualLanes s) k")
  case None
  define s1 where "s1 = (if length (c_virtualLanes s) \<ge> ADMISSION_LANE_MAX_SESSIONS
                     then (case oldestLaneKey s of
                             Some ok \<Rightarrow> if ok \<noteq> [] then deleteLane ok s else s
                           | None \<Rightarrow> s)
                     else s)"
  have "safe_step s s1" by (auto simp: s1_def deleteLane_safe split: option.splits)
  moreover have "jm_get (c_virtualLanes s1) k = None"
    using None by (auto simp: s1_def deleteLane_get split: option.splits)
  ultimately have "safe_step s (s1\<lparr>c_virtualLanes := jm_set k \<lparr>ln_queue = new_FairCostQueue (c_mc s1) (c_mk s1),
                    ln_lastUsedMs = now\<rparr> (c_virtualLanes s1)\<rparr>)"
    using safe_trans new_lane_safe by blast
  then show ?thesis by (simp add: getOrCreateLane_def None Let_def s1_def [symmetric])
qed (simp add: getOrCreateLane_def set_lane_used_safe)

lemma evictIdleLanes_safe: "safe_step s (evictIdleLanes now s)"
  unfolding evictIdleLanes_def by (rule safe_fold) (rule deleteLane_safe)

subsection \<open>Timers and listeners\<close>

lemma remove_from_lanes_Some:
  "remove_from_lanes i ls = Some (k, e, q) \<Longrightarrow> jm_ok ls \<Longrightarrow>
   \<exists>lan. jm_get ls k = Some lan \<and> removeById i (ln_queue lan) = (Some e, q)"
proof (induction i ls rule: remove_from_lanes.induct)
  case (2 i k' lan ls)
  show ?case
  proof (cases "fst (removeById i (ln_queue lan))")
    case None
    then have r: "remove_from_lanes i ls = Some (k, e, q)" using "2.prems" by (auto split: prod.splits)
    have pr: "removeById i (ln_queue lan) = (None, snd (removeById i (ln_queue lan)))"
      using None by (metis prod.collapse)
    have "jm_ok ls" using "2.prems"(2) by (simp add: jm_ok_def)
    then obtain lan' where l: "jm_get ls k = Some lan'" "removeById i (ln_queue lan') = (Some e, q)"
      using "2.IH" pr pr [symmetric] r by blast
    then have "k \<in> set (jm_keys ls)" by (force dest: jm_get_SomeD)
    then have "k \<noteq> k'" using "2.prems"(2) by (auto simp: jm_ok_def)
    then show ?thesis using l by (auto simp: jm_get_def)
  next
    case (Some e')
    then show ?thesis using "2.prems" by (cases "removeById i (ln_queue lan)") (auto simp: jm_get_def)
  qed
qed simp

lemma removeById_taken:
  assumes w: "fcq_within mc mk q0" and r: "removeById i q0 = (Some e, q)"
  shows "fcq_within mc mk q" "q_mset q0 = add_mset (strip e) (q_mset q)" "e_id (strip e) = i" "e_id e = i"
proof -
  have "remove_client i q0 = (Some (strip e), q)" using r by (simp add: remove_client_def)
  from fq.rm_some [OF w this] show "fcq_within mc mk q" "q_mset q0 = add_mset (strip e) (q_mset q)" by auto
  have "fcq_inv q0" using w by (simp add: fcq_within_def)
  then show "e_id (strip e) = i" "e_id e = i" using removeById_spec(3) [OF _ r refl] by simp_all
qed

lemma failQueued_strip: "failQueued code e s = failQueued code (strip e) s"
  by (simp add: failQueued_def)

lemma settle_then_safe: "taken e s s1 \<Longrightarrow> settle_mset e s1 s' \<Longrightarrow> safe_step s s'"
  by (rule taken_settle_safe)

lemma expireEntry_safe: "safe_step s (expireEntry now i code s)"
proof (cases "ctl_inv s")
  case inv: True
  show ?thesis
  proof (cases "removeById i (c_queue s)")
    case (Pair r q)
    show ?thesis
    proof (cases r)
      case (Some e)
      have "fcq_within (c_mc s) (c_mk s) (c_queue s)" using inv by (simp add: ctl_inv_def queues_ok_def)
      from removeById_taken [OF this Pair [unfolded Some]]
      have "taken (strip e) s (s\<lparr>c_queue := q\<rparr>)" by (intro taken_shared [OF inv])
      then have "safe_step s (failQueued code e (s\<lparr>c_queue := q\<rparr>))"
        unfolding failQueued_strip [of code e] by (rule settle_then_safe) (rule failQueued_settles)
      then show ?thesis using Pair Some ctl_dispatch_safe by (auto simp: expireEntry_def intro: safe_trans)
    next
      case None
      show ?thesis
      proof (cases "remove_from_lanes i (c_virtualLanes s)")
        case (Some t)
        obtain k e q' where t: "t = (k, e, q')" by (cases t)
        then obtain lan where l: "jm_get (c_virtualLanes s) k = Some lan" "removeById i (ln_queue lan) = (Some e, q')"
          using remove_from_lanes_Some [of i "c_virtualLanes s" k e q'] Some inv
          by (auto simp: ctl_inv_def queues_ok_def)
        have "fcq_within (c_mc s) (c_mk s) (ln_queue lan)" using inv lane_within [OF _ l(1)] by (simp add: ctl_inv_def)
        note R = removeById_taken [OF this l(2)]
        have tk: "taken (strip e) s (set_lane_queue k q' s)"
          using l(1) R by (intro taken_lane [OF inv, of k "ln_queue lan"]) (simp_all add: lane_queue_def)
        let ?s1 = "set_lane_queue k q' s" and ?s2 = "removeEmptyLane (e_tenantKey e) (set_lane_queue k q' s)"
        have sm: "settle_mset (strip e) ?s1 (failQueued code (strip e) ?s2)"
          using removeEmptyLane_safe [of ?s1 "e_tenantKey e"] failQueued_settles [of "strip e" ?s2 code]
          by (auto simp: settle_mset_def safe_step_def)
        have "safe_step s (failQueued code e ?s2)"
          using tk sm unfolding failQueued_strip [of code e] by (rule settle_then_safe)
        then show ?thesis using Pair None Some t ctl_dispatch_safe by (auto simp: expireEntry_def intro: safe_trans)
      qed (simp add: expireEntry_def Pair None)
    qed
  qed
qed (simp add: safe_step_def)


subsection \<open>Acquiring\<close>

lemma normalize_range:
  "normalizeRequestCost v m = Inr c \<Longrightarrow> 0 < c \<and> c \<le> MAX_ADMISSION_COST_OR_LIMIT"
  by (auto simp: normalizeRequestCost_def bindE_Inr requirePositive_Inr)

lemma limit_le_safe: "MAX_ADMISSION_COST_OR_LIMIT \<le> MAX_SAFE_INTEGER"
  by (simp add: limit_bound_value MAX_SAFE_INTEGER_def)

lemma estimate_range:
  assumes "resolveCostConfig p = Inr cfg" and "estimateAdmissionCost f p = Inr c"
  shows "0 < c \<and> c \<le> cfg MaxRequestCost"
proof -
  have pos: "\<And>k. 0 < cfg k" using resolveCostConfig_Inr(1) [OF assms(1)] .
  have "0 \<le> sum_list (contributions f cfg)"
    using contributions_nonneg [OF pos] by (intro sum_list_nonneg) auto
  then show ?thesis using estimate_closed [OF assms(1), of f] assms(2) pos [of BaseCost] pos [of MaxRequestCost]
    by auto
qed

lemma resolveCost_range:
  assumes "config_ok (c_config s)" and "resolveCost r s = Inr c"
  shows "0 < c \<and> c \<le> MAX_SAFE_INTEGER"
proof -
  have "resolveCostConfig (\<lambda>k. Num (of_int (v_costConfig (c_config s) k))) = Inr (v_costConfig (c_config s))"
    using assms(1) by (intro resolveCost_explicit) (simp_all add: config_ok_def)
  from estimate_range [OF this] have "0 < c \<and> c \<le> MAX_ADMISSION_COST_OR_LIMIT"
    using assms normalize_range
    by (auto simp: resolveCost_def config_ok_def limit_bound_value split: if_splits option.splits) 
      (meson order_trans)+
  then show ?thesis using limit_le_safe by simp
qed

definition acq_ok :: "controller \<Rightarrow> acquire_result \<Rightarrow> controller \<Rightarrow> bool" where
  "acq_ok s res s' \<longleftrightarrow> (ctl_inv s \<longrightarrow> ctl_inv s'
     \<and> track s' = (case res of RQueued i \<Rightarrow> add_mset i (track s) | _ \<Rightarrow> track s)
     \<and> (\<forall>i. res = RQueued i \<longrightarrow> c_leaseSeq s < i \<and> i \<le> c_leaseSeq s')
     \<and> c_config s' = c_config s
     \<and> (v_mode (c_config s) = ModeEnforce \<longrightarrow> c_activeCost s' \<le> max (c_activeCost s) (v_maxLimit (c_config s)))
     \<and> c_shutDown s' = c_shutDown s \<and> c_leaseSeq s \<le> c_leaseSeq s')"

lemma safe_then_acq: "safe_step s s1 \<Longrightarrow> acq_ok s1 res s' \<Longrightarrow> acq_ok s res s'"
  by (auto simp: safe_step_def acq_ok_def split: acquire_result.splits)

lemma safe_acq: "safe_step s s' \<Longrightarrow> \<forall>i. res \<noteq> RQueued i \<Longrightarrow> acq_ok s res s'"
  by (auto simp: safe_step_def acq_ok_def split: acquire_result.splits)

lemma ctl_reject_acq: "acq_ok s (fst (ctl_reject code s)) (snd (ctl_reject code s))"
  by (rule safe_acq) (simp_all add: ctl_reject_def reject_count_safe)

lemma nextId_safe: "safe_step s (s\<lparr>c_leaseSeq := Suc (c_leaseSeq s)\<rparr>)"
  by (auto simp: safe_step_def ctl_inv_def queues_ok_def active_ok_def pending_def track_def)

lemma admit_acq:
  assumes "0 < cost" "cost \<le> MAX_SAFE_INTEGER"
    and "v_mode (c_config s) = ModeEnforce \<longrightarrow>
           c_activeCost s + cost \<le> c_limit s \<or> c_activeCost s + cost \<le> v_maxLimit (c_config s)"
    and "\<forall>i. res \<noteq> RQueued i"
  shows "acq_ok s res (snd (admit now cost d s))"
proof (cases "admit now cost d s")
  case (Pair i s')
  then show ?thesis
    using admit_inv [OF _ assms(1,2) Pair] ctl_inv_limit [of s] assms(3,4)
    by (auto simp: acq_ok_def split: acquire_result.splits)
qed

text \<open>A new request enters the shared queue or a lane.\<close>

definition entered :: "nat \<Rightarrow> controller \<Rightarrow> controller \<Rightarrow> bool" where
  "entered i s s' \<longleftrightarrow> (ctl_inv s \<longrightarrow> ctl_inv s' \<and> track s' = add_mset i (track s) \<and> c_config s' = c_config s
     \<and> c_activeCost s' = c_activeCost s \<and> c_shutDown s' = c_shutDown s \<and> c_leaseSeq s' = c_leaseSeq s)"

lemma enter_shared:
  assumes "enqueue e (c_queue s) = (True, q)" and "fresh_entry e" and "\<not> c_shutDown s"
  shows "entered (e_id e) s (s\<lparr>c_queue := q\<rparr>)"
  using assms fq.enq_yes [OF _ assms(2,1), of "c_mc s" "c_mk s"]
  by (auto simp: entered_def ctl_inv_def queues_ok_def active_ok_def pending_def track_def)

lemma enter_lane:
  assumes l: "lane_queue k s = Some lq" and e: "enqueue e lq = (True, q)" and f: "fresh_entry e" and "\<not> c_shutDown s"
  shows "entered (e_id e) s (set_lane_queue k q s)"
proof (cases "ctl_inv s")
  case True
  obtain lan where lan: "jm_get (c_virtualLanes s) k = Some lan" "lq = ln_queue lan"
    using l by (auto simp: lane_queue_def)
  have w: "fcq_within (c_mc s) (c_mk s) lq" using True lane_within [OF _ lan(1)] lan(2) by (simp add: ctl_inv_def)
  have q: "fcq_within (c_mc s) (c_mk s) q" "q_mset q = add_mset e (q_mset lq)"
    using fq.enq_yes [OF w f e] by simp_all
  let ?ls = "jm_set k (lan\<lparr>ln_queue := q\<rparr>) (c_virtualLanes s)"
  have ms: "lanes_mset ?ls = add_mset e (lanes_mset (c_virtualLanes s))"
    using lanes_mset_set_old [OF lan(1), of "lan\<lparr>ln_queue := q\<rparr>"] q(2) lan(2) by simp
  have "fcq_within (c_mc s) (c_mk s) (ln_queue (snd p))" if "p \<in> set ?ls" for p
    using that True q(1) jm_set_values [OF that] by (auto simp: ctl_inv_def queues_ok_def)
  then show ?thesis using True lan(1) ms assms(4)
    by (auto simp: entered_def set_lane_queue_def ctl_inv_def queues_ok_def active_ok_def pending_def track_def)
qed (simp add: entered_def)

lemma entered_acq:
  assumes "safe_step s s1" and "c_leaseSeq s < i" and "i \<le> c_leaseSeq s1" and "entered i s1 s2" and "safe_step s2 s'"
  shows "acq_ok s (RQueued i) s'"
  using assms by (auto simp: safe_step_def entered_def acq_ok_def)

lemma getOrCreateLane_exists: "lane_queue k (getOrCreateLane now k s) \<noteq> None"
  by (auto simp: lane_queue_def getOrCreateLane_def Let_def split: option.splits)

lemma safe_not_shutdown: "safe_step s s' \<Longrightarrow> ctl_inv s \<Longrightarrow> c_shutDown s' = c_shutDown s"
  by (simp add: safe_step_def)

lemma ctl_enqueue_acq:
  assumes "\<not> c_shutDown s0"
  shows "acq_ok s0 (fst (ctl_enqueue now r cost s0)) (snd (ctl_enqueue now r cost s0))"
proof (cases "ctl_inv s0")
  case inv: True
  let ?i = "Suc (c_leaseSeq s0)"
  let ?s = "s0\<lparr>c_leaseSeq := ?i\<rparr>"
  have s: "safe_step s0 ?s" by (rule nextId_safe)
  let ?norm = "normalizeRequestCost (nullish_or (r_maxWaitMs r) (Num (of_int (v_defaultMaxWaitMs (c_config s0)))))
                (Num (of_int MAX_ADMISSION_WINDOW_MS))"
  show ?thesis
  proof (cases ?norm)
    case (Inl err)
    then show ?thesis using safe_acq [OF s, of "RThrown err"]
      by (simp add: ctl_enqueue_def nextId_def Let_def)
  next
    case (Inr maxWait)
    let ?e = "\<lparr>e_id = ?i, e_tenantKey = tenant_of r, e_cost = cost, e_enqueuedAtMs = now,
         e_deadlineMs = min MAX_SAFE_INTEGER (now + maxWait), e_payload = r_signal r, e_skipCount = 0\<rparr>"
    have f: "fresh_entry ?e" by (simp add: fresh_entry_def)
    have d2: "safe_step t (ctl_dispatch now (ctl_dispatch now t))" for t
      using ctl_dispatch_safe safe_trans by blast
    have rj: "acq_ok s0 (fst (ctl_reject code t)) (snd (ctl_reject code t))" if "safe_step s0 t" for code t
      using that ctl_reject_acq by (rule safe_then_acq)
    show ?thesis
    proof (cases "tenant_of r \<noteq> ''_default'' \<and> v_virtualLanes (c_config s0)")
      case True
      let ?k = "tenant_of r"
      let ?s1 = "getOrCreateLane now ?k ?s"
      have s1: "safe_step s0 ?s1" using s getOrCreateLane_safe by (rule safe_trans)
      obtain lq where lq: "lane_queue ?k ?s1 = Some lq" using getOrCreateLane_exists by fastforce
      obtain b q where e: "enqueue ?e lq = (b, q)" by (cases "enqueue ?e lq")
      have sh: "\<not> c_shutDown ?s1" using safe_not_shutdown [OF s1 inv] assms by simp
      show ?thesis
      proof (cases b)
        case b: True
        have en: "entered ?i ?s1 (set_lane_queue ?k q ?s1)" using enter_lane [OF lq _ f sh, of q] e b by simp
        have "?i \<le> c_leaseSeq ?s1" using getOrCreateLane_safe [of ?s now ?k] s inv by (auto simp: safe_step_def)
        from entered_acq [OF s1 _ this en d2] show ?thesis
          using Inr True lq e b by (simp add: ctl_enqueue_def nextId_def Let_def)
      next
        case False
        have "safe_step s0 (removeEmptyLane ?k ?s1)" using s1 removeEmptyLane_safe by (rule safe_trans)
        from rj [OF this] show ?thesis
          using Inr True lq e False by (simp add: ctl_enqueue_def nextId_def Let_def)
      qed
    next
      case False
      obtain b q where e: "enqueue ?e (c_queue s0) = (b, q)" by (cases "enqueue ?e (c_queue s0)")
      show ?thesis
      proof (cases b)
        case True
        have en: "entered ?i ?s (?s\<lparr>c_queue := q\<rparr>)" using enter_shared [of ?e ?s q] e True f assms by simp
        from entered_acq [OF s _ _ en d2] show ?thesis
          using Inr False e True by (auto simp: ctl_enqueue_def nextId_def Let_def)
      next
        case b: False
        from rj [OF s] show ?thesis
          using Inr False e b by (auto simp: ctl_enqueue_def nextId_def Let_def)
      qed
    qed
  qed
qed (simp add: acq_ok_def)


text \<open>Counters other than those of the invariant are free.\<close>

lemma would_counts_safe:
  "safe_step s (s\<lparr>c_wouldRejectCount := n\<rparr>)" "safe_step s (s\<lparr>c_wouldQueueCount := n\<rparr>)"
  "safe_step s (s\<lparr>c_wouldAdmitCount := n\<rparr>)" "safe_step s (s\<lparr>c_admittedCount := m\<rparr>)"
  by (simp_all add: safe_step_def ctl_inv_def queues_ok_def active_ok_def pending_def track_def)

lemma acq_then_safe:
  "acq_ok s res s1 \<Longrightarrow> safe_step s1 s' \<Longrightarrow> acq_ok s res s'"
  by (auto simp: safe_step_def acq_ok_def split: acquire_result.splits)

lemma acquireShadow_acq:
  assumes c: "0 < cost" "cost \<le> MAX_SAFE_INTEGER" and m: "v_mode (c_config s) = ModeShadow"
  shows "acq_ok s (fst (acquireShadow now r cost limit s)) (snd (acquireShadow now r cost limit s))
       \<and> (\<exists>i d. fst (acquireShadow now r cost limit s) = RAdmitted i (Some d))"
proof -
  define dds where "dds = (if cost > limit \<or> \<not> \<bar>cost\<bar> \<le> MAX_SAFE_INTEGER
         then (WouldReject, VRejected, s\<lparr>c_wouldRejectCount := c_wouldRejectCount s + 1\<rparr>)
         else if c_virtualActiveCost s + cost \<le> limit
         then (WouldAdmit, VActive,
               (add_virtual cost s)\<lparr>c_wouldAdmitCount := addSaturated (c_wouldAdmitCount s) 1\<rparr>)
         else if canAccept (c_virtualQueue s) cost
         then (WouldQueue, VQueued, s\<lparr>c_wouldQueueCount := c_wouldQueueCount s + 1\<rparr>)
         else (WouldReject, VRejected, s\<lparr>c_wouldRejectCount := c_wouldRejectCount s + 1\<rparr>))"
  obtain dec disp s1 where d: "dds = (dec, disp, s1)" by (cases dds)
  have s1: "safe_step s s1" "c_config s1 = c_config s"
    using d would_counts_safe safe_trans [OF add_virtual_safe would_counts_safe(3)]
    by (auto simp: dds_def add_virtual_def split: if_splits)
  obtain i s2 where a: "admit now cost disp s1 = (i, s2)" by (cases "admit now cost disp s1")
  have a': "acq_ok s1 (RAdmitted i (Some dec)) s2"
    using admit_acq [OF c, of s1 "RAdmitted i (Some dec)" now disp] s1(2) m a by simp
  let ?e = "\<lparr>e_id = i, e_tenantKey = tenant_of r, e_cost = cost, e_enqueuedAtMs = now,
      e_deadlineMs = MAX_SAFE_INTEGER, e_payload = i, e_skipCount = 0\<rparr>"
  define s3 where "s3 = (if disp = VQueued then s2\<lparr>c_virtualQueue := snd (enqueue ?e (c_virtualQueue s2))\<rparr> else s2)"
  have "safe_step s2 (s2\<lparr>c_virtualQueue := snd (enqueue ?e (c_virtualQueue s2))\<rparr>)"
    by (rule virtual_queue_safe) (simp add: enqueue_within fresh_entry_def ctl_inv_def queues_ok_def)
  then have "safe_step s2 s3" by (simp add: s3_def)
  then have "acq_ok s (RAdmitted i (Some dec)) s3"
    using safe_then_acq [OF s1(1) acq_then_safe [OF a']] by blast
  moreover have "acquireShadow now r cost limit s = (RAdmitted i (Some dec), s3)"
    unfolding acquireShadow_def dds_def [symmetric] d s3_def using a by simp
  ultimately show ?thesis by simp
qed

lemma setPressure_safe: "safe_step s (s\<lparr>c_adaptation := setPressure p (c_adaptation s)\<rparr>)"
  by (rule adapt_update_safe) (simp add: ctl_inv_def adapt_inv_def setPressure_def)

lemma active_empty_cost: "ctl_inv s \<Longrightarrow> length (c_active s) = 0 \<Longrightarrow> c_activeCost s = 0"
  by (simp add: ctl_inv_def active_ok_def)

lemma admitVirtual_acq: "acq_ok s (fst (admitVirtual s)) (snd (admitVirtual s))"
proof -
  have "safe_step s (snd (admitVirtual s))"
    unfolding admitVirtual_def nextId_def Let_def
    using safe_trans [OF nextId_safe would_counts_safe(4)] by simp
  then show ?thesis by (rule safe_acq) (simp add: admitVirtual_def nextId_def Let_def)
qed

lemma acquire_acq: "acq_ok s0 (fst (acquire now r s0)) (snd (acquire now r s0))"
proof (cases "ctl_inv s0")
  case inv0: True
  let ?ab = "case r_signal r of None \<Rightarrow> False | Some sg \<Rightarrow> sg \<in> set (c_aborted s0)"
  define s where "s = (case r_pressure r of None \<Rightarrow> s0
                     | Some p \<Rightarrow> s0\<lparr>c_adaptation := setPressure p (c_adaptation s0)\<rparr>)"
  have s: "safe_step s0 s" by (auto simp: s_def setPressure_safe split: option.splits)
  have inv: "ctl_inv s" and sh: "c_shutDown s = c_shutDown s0" using s inv0 by (simp_all add: safe_step_def)
  show ?thesis
  proof (cases "c_shutDown s0 \<or> ?ab")
    case True
    then show ?thesis using ctl_reject_acq by (auto simp: acquire_def)
  next
    case False
    have eq: "acquire now r s0 = (case resolveCost r s of
                 Inl err \<Rightarrow> (RThrown err, s)
               | Inr cost \<Rightarrow>
                   (case v_mode (c_config s) of
                      ModeOff \<Rightarrow> admitVirtual s
                    | ModeShadow \<Rightarrow> acquireShadow now r cost (c_limit s) s
                    | ModeEnforce \<Rightarrow>
                        if cost > c_limit s
                        then (if shouldAdmitSolo cost s
                              then (case admit now cost VNone s of (i, s') \<Rightarrow> (RAdmitted i None, s'))
                              else ctl_reject ADMISSION_OVERSIZED s)
                        else if q_size (c_queue s) = 0 \<and> c_activeCost s + cost \<le> c_limit s
                        then (case admit now cost VNone s of (i, s') \<Rightarrow> (RAdmitted i None, s'))
                        else if \<not> canAccept (c_queue s) cost then ctl_reject ADMISSION_QUEUE_FULL s
                        else ctl_enqueue now r cost s))"
      unfolding acquire_def s_def [symmetric] Let_def using False by simp
    show ?thesis
    proof (cases "resolveCost r s")
      case (Inl err)
      then show ?thesis using safe_acq [OF s, of "RThrown err"] eq by simp
    next
      case (Inr cost)
      have c: "0 < cost" "cost \<le> MAX_SAFE_INTEGER"
        using resolveCost_range [OF _ Inr] inv by (simp_all add: ctl_inv_def)
      have ad: "acq_ok s (RAdmitted (fst (admit now cost VNone s)) None) (snd (admit now cost VNone s))"
        if "c_activeCost s + cost \<le> c_limit s \<or> c_activeCost s + cost \<le> v_maxLimit (c_config s)"
        using that by (intro admit_acq [OF c]) auto
      have solo: "shouldAdmitSolo cost s \<Longrightarrow> c_activeCost s + cost \<le> v_maxLimit (c_config s)"
        using active_empty_cost [OF inv] by (simp add: shouldAdmitSolo_def)
      have "acq_ok s (fst (acquire now r s0)) (snd (acquire now r s0))"
      proof (cases "v_mode (c_config s)")
        case ModeOff
        then show ?thesis using admitVirtual_acq by (simp add: eq Inr)
      next
        case ModeShadow
        then show ?thesis using acquireShadow_acq [OF c ModeShadow] by (simp add: eq Inr)
      next
        case ModeEnforce
        show ?thesis
          using ad solo ctl_reject_acq ctl_enqueue_acq [of s now r cost] sh False
          by (auto simp: eq Inr ModeEnforce split_beta)
      qed
      with s show ?thesis by (rule safe_then_acq)
    qed
  qed
qed (simp add: acq_ok_def)

subsection \<open>Releases and feedback\<close>

lemma release_removes:
  assumes "ctl_inv s" and "jm_get (c_active s) i = Some r"
  shows "safe_step s (s\<lparr>c_active := jm_del i (c_active s), c_activeCost := c_activeCost s - l_cost r\<rparr>)"
proof -
  have d: "jm_sum l_cost (jm_del i (c_active s)) + l_cost r = jm_sum l_cost (c_active s)"
    using assms by (intro jm_sum_del) (auto simp: ctl_inv_def active_ok_def)
  have "0 < l_cost r" using assms jm_get_SomeD [OF assms(2)] by (auto simp: ctl_inv_def active_ok_def)
  then show ?thesis using d assms
    by (auto simp: safe_step_def ctl_inv_def queues_ok_def active_ok_def pending_def track_def dest: jm_del_values)
qed

lemma releaseLease_safe: "safe_step s (releaseLease now i oc l p s)"
proof (cases "ctl_inv s \<and> jm_get (c_active s) i \<noteq> None")
  case False
  then show ?thesis by (auto simp: releaseLease_def safe_step_def)
next
  case True
  then obtain r where r: "jm_get (c_active s) i = Some r" by auto
  let ?s1 = "sampleIntegral now s"
  let ?s2 = "?s1\<lparr>c_active := jm_del i (c_active ?s1), c_activeCost := c_activeCost ?s1 - l_cost r\<rparr>"
  have s1: "safe_step s ?s1" by (rule sampleIntegral_safe)
  then have "ctl_inv ?s1" using True by (simp add: safe_step_def)
  then have "safe_step ?s1 ?s2" using release_removes [of ?s1 i r] r by simp
  with s1 have s2: "safe_step s ?s2" by (rule safe_trans)
  define a1 where "a1 = noteOutcome oc (noteLatency (v_adaptation (c_config ?s2))
      (if l \<noteq> Undefined then l else Num (of_int (max 0 (now - l_admittedAtMs r)))) (c_adaptation ?s2))"
  define a2 where "a2 = a1\<lparr>s_windowCompleted := s_windowCompleted a1 + 1\<rparr>"
  define a3 where "a3 = (case p of None \<Rightarrow> a2 | Some pr \<Rightarrow> setPressure pr a2)"
  have ai: "adapt_inv (v_adaptation (c_config ?s2)) a3" if i: "ctl_inv ?s2"
  proof -
    have ok: "params_ok (v_adaptation (c_config ?s2))" and ad: "adapt_inv (v_adaptation (c_config ?s2)) (c_adaptation ?s2)"
      using i params_ok_of_config by (auto simp: ctl_inv_def)
    have "adapt_inv (v_adaptation (c_config ?s2)) a1"
      unfolding a1_def using noteLatency_inv [OF ok ad] by (simp add: adapt_inv_def noteOutcome_def)
    then show ?thesis by (auto simp: a2_def a3_def adapt_inv_def setPressure_def split: option.splits)
  qed
  then have "safe_step ?s2 (?s2\<lparr>c_adaptation := a3\<rparr>)" by (rule adapt_update_safe)
  with s2 have s3: "safe_step s (?s2\<lparr>c_adaptation := a3\<rparr>)" by (rule safe_trans)
  have "safe_step s (ctl_dispatch now (releaseVirtual i r (?s2\<lparr>c_adaptation := a3\<rparr>)))"
    by (rule safe_trans [OF safe_trans [OF s3 releaseVirtual_safe] ctl_dispatch_safe])
  then show ?thesis
    unfolding releaseLease_def r option.case Let_def a1_def a2_def a3_def .
qed

lemma observePressure_safe: "safe_step s (observePressure now p s)"
proof -
  let ?s = "s\<lparr>c_adaptation := setPressure p (c_adaptation s)\<rparr>"
  let ?t = "?s\<lparr>c_adaptation := (c_adaptation ?s)\<lparr>
                s_currentLimit := max (v_minLimit (c_config ?s))
                  \<lfloor>of_int (c_limit ?s) * ap_criticalDecreaseFactor (v_adaptation (c_config ?s))\<rfloor>,
                s_criticalDecreaseConsumed := True\<rparr>\<rparr>"
  have s: "safe_step s ?s" by (rule setPressure_safe)
  have "safe_step ?s ?t"
  proof (rule adapt_update_safe)
    assume i: "ctl_inv ?s"
    have ok: "params_ok (v_adaptation (c_config ?s))" using i params_ok_of_config by (simp add: ctl_inv_def)
    have "\<lfloor>of_int (c_limit ?s) * ap_criticalDecreaseFactor (v_adaptation (c_config ?s))\<rfloor> \<le> c_limit ?s"
      using ok ctl_inv_limit [OF i] by (intro floor_factor) (simp_all add: params_ok_def adaptation_ok_def)
    then show "adapt_inv (v_adaptation (c_config ?s)) ((c_adaptation ?s)\<lparr>
                s_currentLimit := max (v_minLimit (c_config ?s))
                  \<lfloor>of_int (c_limit ?s) * ap_criticalDecreaseFactor (v_adaptation (c_config ?s))\<rfloor>,
                s_criticalDecreaseConsumed := True\<rparr>)"
      using i by (auto simp: ctl_inv_def adapt_inv_def config_ok_def limits_ok_def)
  qed
  with s have "safe_step s ?t" by (rule safe_trans)
  then have "safe_step s (dispatchVirtual (ctl_dispatch now ?t))"
    using ctl_dispatch_safe dispatchVirtual_safe safe_trans by blast
  with s show ?thesis unfolding observePressure_def Let_def by (simp only: if_split simp_thms)
qed

lemma ctl_tick_safe: "safe_step s (ctl_tick now s)"
proof -
  let ?s = "evictIdleLanes now (sampleIntegral now s)"
  have s: "safe_step s ?s" by (rule safe_trans [OF sampleIntegral_safe evictIdleLanes_safe])
  have "safe_step ?s (?s\<lparr>c_adaptation := closeAdaptationWindow (v_adaptation (c_config ?s)) now (c_adaptation ?s)\<rparr>)"
    by (rule adapt_update_safe) (simp add: ctl_inv_def closeAdaptationWindow_inv params_ok_of_config)
  with s have "safe_step s (?s\<lparr>c_adaptation := closeAdaptationWindow (v_adaptation (c_config ?s)) now (c_adaptation ?s)\<rparr>)"
    by (rule safe_trans)
  then show ?thesis unfolding ctl_tick_def Let_def
    by (rule safe_trans [OF safe_trans [OF _ ctl_dispatch_safe] dispatchVirtual_safe])
qed


subsection \<open>Shutdown and reconfiguration\<close>

lemma drained_entries_mset:
  assumes "queues_ok s"
  shows "mset (drained_entries s) = pending s"
proof -
  have "mset (concat (map (\<lambda>(k, lan). fst (drain (ln_queue lan))) ls)) = lanes_mset ls"
    if "\<forall>p\<in>set ls. fcq_within (c_mc s) (c_mk s) (ln_queue (snd p))" for ls
    using that by (induction ls) (auto simp: lanes_mset_def drain_mset split: prod.splits)
  then show ?thesis using assms drain_mset [of "c_mc s" "c_mk s" "c_queue s"]
    by (simp add: drained_entries_def pending_def queues_ok_def)
qed

lemma drain_queue:
  assumes "fcq_within mc mk q"
  shows "fcq_within mc mk (snd (drain q))" "q_mset (snd (drain q)) = {#}"
proof -
  have i: "fcq_inv q" using assms by (simp add: fcq_within_def)
  obtain es q' where l: "drain_loop q = (es, q')" by (cases "drain_loop q")
  have S: "fcq_inv q'" "q_order q' = []" using drain_loop_spec [OF i l] by auto
  have mx: "q_maxCount (snd (drain_loop p)) = q_maxCount p \<and> q_maxCost (snd (drain_loop p)) = q_maxCost p" for p :: "'a fcq"
  proof (induction p rule: drain_loop.induct)
    case (1 p)
    show ?case using "1.IH" dequeue_max [of MAX_SAFE_INTEGER p]
      by (subst (1 2) drain_loop.simps) (auto split: prod.splits option.splits simp del: dequeue_max)
  qed
  have "q_cursor q' = 0" using S by (simp add: fcq_inv_def fcq_shape_def)
  then have q: "snd (drain q) = q'" by (simp add: drain_def l)
  show "q_mset (snd (drain q)) = {#}" using q S by (simp add: q_mset_def)
  then have "q_count q' = 0" "q_cost q' = 0" using S(1) q by (simp_all add: fcq_inv_def fcq_counts_def)
  then show "fcq_within mc mk (snd (drain q))"
    using assms S(1) mx [of q] l fcq_counts_nonneg [OF i] by (simp add: q fcq_within_def fcq_caps_def)
qed

lemma ctl_shutdown_spec:
  assumes "ctl_inv s"
  shows "ctl_inv (ctl_shutdown s)" "track (ctl_shutdown s) = track s" "c_shutDown (ctl_shutdown s)"
    "pending (ctl_shutdown s) = {#}" "c_config (ctl_shutdown s) = c_config s"
    "c_activeCost (ctl_shutdown s) = c_activeCost s" "c_leaseSeq (ctl_shutdown s) = c_leaseSeq s"
proof -
  have "ctl_inv (ctl_shutdown s) \<and> track (ctl_shutdown s) = track s \<and> c_shutDown (ctl_shutdown s)
    \<and> pending (ctl_shutdown s) = {#} \<and> c_config (ctl_shutdown s) = c_config s
    \<and> c_activeCost (ctl_shutdown s) = c_activeCost s \<and> c_leaseSeq (ctl_shutdown s) = c_leaseSeq s"
  proof (cases "c_shutDown s")
    case True
    then show ?thesis using assms by (simp add: ctl_shutdown_def ctl_inv_def)
  next
    case False
    have qo: "queues_ok s" using assms by (simp add: ctl_inv_def)
    have dq: "fcq_within (c_mc s) (c_mk s) (snd (drain (c_queue s)))" "q_mset (snd (drain (c_queue s))) = {#}"
      using qo drain_queue by (auto simp: queues_ok_def)
    have "image_mset e_id (pending s) = mset (map e_id (drained_entries s))"
      using drained_entries_mset [OF qo] by simp
    then show ?thesis using assms False dq
      by (simp add: ctl_shutdown_def Let_def fold_failQueued ctl_inv_def queues_ok_def active_ok_def
          pending_def track_def lanes_mset_def comp_def)
  qed
  then show "ctl_inv (ctl_shutdown s)" "track (ctl_shutdown s) = track s" "c_shutDown (ctl_shutdown s)"
    "pending (ctl_shutdown s) = {#}" "c_config (ctl_shutdown s) = c_config s"
    "c_activeCost (ctl_shutdown s) = c_activeCost s" "c_leaseSeq (ctl_shutdown s) = c_leaseSeq s"
    by blast+
qed

text \<open>Requeueing one drained entry, after a configuration change.\<close>

definition requeued :: "nat option qentry \<Rightarrow> controller \<Rightarrow> controller \<Rightarrow> bool" where
  "requeued e s s' \<longleftrightarrow> (ctl_inv s \<and> \<not> c_shutDown s \<longrightarrow> ctl_inv s' \<and> track s' = add_mset (e_id e) (track s)
     \<and> c_config s' = c_config s \<and> \<not> c_shutDown s' \<and> c_leaseSeq s \<le> c_leaseSeq s')"

lemma resolve_admitted_requeues:
  assumes "0 < e_cost e" "e_cost e \<le> MAX_SAFE_INTEGER"
  shows "requeued e s (resolve_admitted now e s)"
proof (cases "admit now (e_cost e) VNone s")
  case (Pair i s')
  note A = admit_inv [OF _ assms(1,2) Pair]
  have "ctl_inv s \<Longrightarrow> ctl_inv (s'\<lparr>c_settled := c_settled s' @ [(e_id e, Resolved i)]\<rparr>)"
    using A(1) by (auto simp: ctl_inv_def queues_ok_def active_ok_def pending_def)
  then show ?thesis using A Pair
    by (auto simp: requeued_def resolve_admitted_def track_def pending_def)
qed

lemma requeue_requeues:
  assumes "0 < e_cost e" "e_cost e \<le> MAX_SAFE_INTEGER" and "fresh_entry e"
  shows "requeued e s (requeue now e s)"
proof -
  have f: "requeued e s (failQueued code e s)" for code
    using failQueued_settles [of e s code] by (auto simp: settle_mset_def requeued_def)
  show ?thesis
  proof (cases "v_mode (c_config s) \<noteq> ModeEnforce \<or> e_cost e > c_limit s")
    case True
    then show ?thesis using resolve_admitted_requeues [OF assms(1,2)] f by (auto simp: requeue_def)
  next
    case False
    obtain b q where e: "enqueue e (c_queue s) = (b, q)" by (cases "enqueue e (c_queue s)")
    show ?thesis
    proof (cases b)
      case True
      then have "\<not> c_shutDown s \<Longrightarrow> entered (e_id e) s (s\<lparr>c_queue := q\<rparr>)"
        using enter_shared [OF _ assms(3), of s q] e by simp
      then show ?thesis using False e True by (auto simp: requeue_def requeued_def entered_def)
    next
      case b: False
      then show ?thesis using False e f by (auto simp: requeue_def)
    qed
  qed
qed

lemma fold_requeue:
  assumes "ctl_inv s" and "\<not> c_shutDown s" and "\<forall>e\<in>set es. 0 < e_cost e \<and> e_cost e \<le> MAX_SAFE_INTEGER \<and> fresh_entry e"
  shows "ctl_inv (fold (requeue now) es s) \<and> track (fold (requeue now) es s) = mset (map e_id es) + track s
    \<and> c_config (fold (requeue now) es s) = c_config s \<and> \<not> c_shutDown (fold (requeue now) es s)
    \<and> c_leaseSeq s \<le> c_leaseSeq (fold (requeue now) es s)"
  using assms
proof (induction es arbitrary: s)
  case (Cons e es)
  have r: "requeued e s (requeue now e s)" using Cons.prems by (intro requeue_requeues) auto
  with Cons.prems have "ctl_inv (requeue now e s)" "\<not> c_shutDown (requeue now e s)"
    by (auto simp: requeued_def)
  from Cons.IH [OF this] r Cons.prems show ?case by (auto simp: requeued_def)
qed simp

lemma entries_fresh:
  assumes "fcq_inv q" and "e \<in># q_mset q"
  shows "fresh_entry e"
  using assms by (auto simp: q_mset_def set_mset_sum fresh_entry_def)


lemma lanes_mset_member: "e \<in># lanes_mset ls \<Longrightarrow> \<exists>p\<in>set ls. e \<in># q_mset (ln_queue (snd p))"
  by (induction ls) (auto simp: lanes_mset_def)

text \<open>Requeueing does not look at the shadow queue, which \<open>rebuildVirtualState\<close> replaces.\<close>

lemma requeue_virtual:
  "requeue now e (s\<lparr>c_virtualQueue := q\<rparr>) = (requeue now e s)\<lparr>c_virtualQueue := q\<rparr>"
  by (auto simp: requeue_def resolve_admitted_def admit_def nextId_def sampleIntegral_def failQueued_def Let_def
      split: prod.splits bool.splits)

lemma fold_requeue_virtual:
  "fold (requeue now) es (s\<lparr>c_virtualQueue := q\<rparr>) = (fold (requeue now) es s)\<lparr>c_virtualQueue := q\<rparr>"
  by (induction es arbitrary: s) (simp_all add: requeue_virtual)

lemma rebuild_virtual: "rebuildVirtualState en (s\<lparr>c_virtualQueue := q\<rparr>) = rebuildVirtualState en s"
  by (simp add: rebuildVirtualState_def Let_def)

lemma rebuildVirtualState_safe: "safe_step s (rebuildVirtualState en s)"
proof -
  let ?act = "map (\<lambda>(i, r). (i, r\<lparr>l_virtualDisposition := VNone\<rparr>)) (c_active s)"
  let ?s = "s\<lparr>c_virtualQueue := new_FairCostQueue (c_mc s) (c_mk s), c_virtualActiveCost := 0,
      c_virtualActiveCount := 0, c_active := ?act\<rparr>"
  have keys: "map fst ?act = map fst (c_active s)" by (simp add: comp_def split_beta)
  have k: "jm_ok ?act = jm_ok (c_active s)" by (simp only: jm_ok_def keys)
  have sm: "jm_sum l_cost ?act = jm_sum l_cost (c_active s)" by (simp add: jm_sum_def comp_def split_beta)
  have "safe_step s ?s"
    using k sm new_within [of "c_mc s" "c_mk s"]
    by (auto simp: safe_step_def ctl_inv_def queues_ok_def active_ok_def pending_def track_def config_ok_def)
  moreover have "safe_step ?s (rebuild_records (c_active ?s) ?s)" by (rule rebuild_records_safe)
  ultimately show ?thesis unfolding rebuildVirtualState_def Let_def by (auto intro: safe_trans)
qed

lemma updateConfig_spec:
  assumes inv: "ctl_inv s0" and u: "updateConfig now input s0 = Inr s'"
  shows "ctl_inv s' \<and> track s' = track s0 \<and> c_shutDown s' = c_shutDown s0 \<and> c_leaseSeq s0 \<le> c_leaseSeq s'"
proof -
  obtain nxt where nxt: "validateConfig input = Inr nxt" using u by (auto simp: updateConfig_def bindE_Inr)
  then have ok: "config_ok nxt" by (rule validateConfig_ok)
  define s1 where "s1 = (sampleIntegral now s0)\<lparr>c_config := nxt\<rparr>"
  define a where "a = (c_adaptation s1)\<lparr>
       s_currentLimit := min (v_maxLimit nxt) (max (v_minLimit nxt) (s_currentLimit (c_adaptation s1))),
       s_recoveryCeiling := clampLimit (of_int (v_initialLimit nxt)) (v_minLimit nxt) (v_maxLimit nxt),
       s_windowStartMs := now, s_windowActiveCostIntegral := 0, s_windowCompleted := 0,
       s_windowLatencySamples := 0, s_freezeGrowth := False,
       s_criticalDecreaseConsumed := False, s_pressure := PNormal\<rparr>"
  define s2 where "s2 = s1\<lparr>c_adaptation := a, c_lastSampleMs := now\<rparr>"
  define s3 where "s3 = s2\<lparr>c_queue := new_FairCostQueue (v_maxQueueCount nxt) (v_maxQueueCost nxt), c_virtualLanes := []\<rparr>"
  define es where "es = drained_entries s2"
  define s4 where "s4 = rebuildVirtualState (v_mode nxt = ModeShadow) (fold (requeue now) es s3)"
  have s': "s' = (if v_mode nxt = ModeEnforce then ctl_dispatch now s4 else s4)"
    using u unfolding updateConfig_def nxt bindE_simps Let_def s1_def [symmetric] a_def [symmetric] s2_def [symmetric]
      es_def [symmetric] s3_def [symmetric] s4_def [symmetric] by simp
  have i0: "ctl_inv (sampleIntegral now s0)" using sampleIntegral_safe inv by (simp add: safe_step_def)
  have qo: "queues_ok s0" using inv by (simp add: ctl_inv_def)
  have es: "mset es = pending s0"
    using drained_entries_mset [OF qo] by (simp add: es_def drained_entries_def s2_def s1_def)
  have good: "0 < e_cost e \<and> e_cost e \<le> MAX_SAFE_INTEGER \<and> fresh_entry e" if "e \<in> set es" for e
  proof -
    have "e \<in># pending s0" using that es by (metis set_mset_mset)
    then consider "e \<in># q_mset (c_queue s0)" | "e \<in># lanes_mset (c_virtualLanes s0)" by (auto simp: pending_def)
    then obtain q where "fcq_inv q" "e \<in># q_mset q"
    proof cases
      case 2
      then obtain p where "p \<in> set (c_virtualLanes s0)" "e \<in># q_mset (ln_queue (snd p))"
        using lanes_mset_member by blast
      then show ?thesis using qo that [of "ln_queue (snd p)"] by (auto simp: queues_ok_def fcq_within_def)
    qed (use qo in \<open>auto simp: queues_ok_def fcq_within_def intro!: that\<close>)
    then show ?thesis using cost_nonneg cost_safe entries_fresh by blast
  qed
  define q0 where "q0 = (new_FairCostQueue (v_maxQueueCount nxt) (v_maxQueueCost nxt) :: nat fcq)"
  let ?t = "s3\<lparr>c_virtualQueue := q0\<rparr>"
  have ad: "adapt_inv (v_adaptation nxt) a"
    using ok i0 by (auto simp: a_def s1_def adapt_inv_def config_ok_def limits_ok_def ctl_inv_def clampLimit_range)
  have nn: "0 \<le> v_maxQueueCount nxt" "0 \<le> v_maxQueueCost nxt" using ok by (simp_all add: config_ok_def)
  have t: "ctl_inv ?t"
    using i0 ok ad nn
    by (auto simp: ctl_inv_def s3_def s2_def s1_def q0_def queues_ok_def active_ok_def pending_def
        lanes_mset_def intro: new_within)
  have trk: "image_mset e_id (pending s0) + track ?t = track s0"
    by (simp add: track_def pending_def s3_def s2_def s1_def lanes_mset_def)
  have F: "ctl_inv (fold (requeue now) es ?t) \<and> track (fold (requeue now) es ?t) = track s0
      \<and> c_shutDown (fold (requeue now) es ?t) = c_shutDown s0 \<and> c_leaseSeq s0 \<le> c_leaseSeq (fold (requeue now) es ?t)"
  proof (cases "c_shutDown s0")
    case True
    then have "pending s0 = {#}" using inv by (simp add: ctl_inv_def)
    then show ?thesis using t trk es True by (simp add: s3_def s2_def s1_def)
  next
    case False
    then have "\<not> c_shutDown ?t" "c_leaseSeq ?t = c_leaseSeq s0" by (simp_all add: s3_def s2_def s1_def)
    then show ?thesis using fold_requeue [OF t _, of es now] good trk es False by simp
  qed
  have eq: "s4 = rebuildVirtualState (v_mode nxt = ModeShadow) (fold (requeue now) es ?t)"
    by (simp add: s4_def fold_requeue_virtual rebuild_virtual)
  have "safe_step (fold (requeue now) es ?t) s4" unfolding eq by (rule rebuildVirtualState_safe)
  then have "safe_step (fold (requeue now) es ?t) s'"
    using ctl_dispatch_safe by (auto simp: s' intro: safe_trans)
  then show ?thesis using F by (auto simp: safe_step_def)
qed


section \<open>Runs\<close>

datatype ctl_event = EvAcquire admission_request | EvRelease nat release_outcome jsval "pressure option"
  | EvExpire nat reject_code | EvAbortSignal nat | EvPressure pressure | EvTick | EvLaneTimer
  | EvShutdown | EvConfig admission_input

text \<open>The controller with the ids it answered \<open>queued\<close> with.\<close>

fun ctl_step :: "controller \<times> nat list \<Rightarrow> int \<times> ctl_event \<Rightarrow> controller \<times> nat list" where
  "ctl_step (s, ql) (now, EvAcquire r) =
     (case acquire now r s of (RQueued i, s') \<Rightarrow> (s', ql @ [i]) | (_, s') \<Rightarrow> (s', ql))"
| "ctl_step (s, ql) (now, EvRelease i oc l p) = (releaseLease now i oc l p s, ql)"
| "ctl_step (s, ql) (now, EvExpire i code) = (expireEntry now i code s, ql)"
| "ctl_step (s, ql) (now, EvAbortSignal sg) = (s\<lparr>c_aborted := sg # c_aborted s\<rparr>, ql)"
| "ctl_step (s, ql) (now, EvPressure p) = (observePressure now p s, ql)"
| "ctl_step (s, ql) (now, EvTick) = (ctl_tick now s, ql)"
| "ctl_step (s, ql) (now, EvLaneTimer) = (evictIdleLanes now s, ql)"
| "ctl_step (s, ql) (now, EvShutdown) = (ctl_shutdown s, ql)"
| "ctl_step (s, ql) (now, EvConfig input) =
     (case updateConfig now input s of Inl _ \<Rightarrow> (s, ql) | Inr s' \<Rightarrow> (s', ql))"

definition ctl_run_inv :: "controller \<times> nat list \<Rightarrow> bool" where
  "ctl_run_inv = (\<lambda>(s, ql). ctl_inv s \<and> mset ql = track s \<and> distinct ql \<and> (\<forall>i\<in>set ql. i \<le> c_leaseSeq s))"

lemma acquire_step:
  "ctl_step (s, ql) (now, EvAcquire r) = (snd (acquire now r s),
     case fst (acquire now r s) of RQueued i \<Rightarrow> ql @ [i] | _ \<Rightarrow> ql)"
  by (cases "acquire now r s"; cases "fst (acquire now r s)") auto

lemma ctl_run_inv_safe: "ctl_run_inv (s, ql) \<Longrightarrow> safe_step s s' \<Longrightarrow> ctl_run_inv (s', ql)"
  by (auto simp: ctl_run_inv_def safe_step_def)

lemma ctl_step_inv: "ctl_run_inv st \<Longrightarrow> ctl_run_inv (ctl_step st ev)"
proof -
  obtain s ql where st: "st = (s, ql)" by (cases st)
  obtain now e where ev: "ev = (now, e)" by (cases ev)
  assume inv: "ctl_run_inv st"
  then have i: "ctl_inv s" by (simp add: st ctl_run_inv_def)
  show ?thesis
  proof (cases e)
    case (EvAcquire r)
    have "acq_ok s (fst (acquire now r s)) (snd (acquire now r s))" by (rule acquire_acq)
    then show ?thesis using inv
      by (cases "fst (acquire now r s)")
         (fastforce simp: st ev EvAcquire acquire_step ctl_run_inv_def acq_ok_def simp del: ctl_step.simps)+
  next
    case (EvAbortSignal sg)
    then show ?thesis using inv
      by (simp add: st ev ctl_run_inv_def ctl_inv_def queues_ok_def active_ok_def track_def pending_def)
  next
    case EvShutdown
    then show ?thesis using inv ctl_shutdown_spec [OF i] by (simp add: st ev ctl_run_inv_def)
  next
    case (EvConfig input)
    then show ?thesis using inv updateConfig_spec [OF i, of now input]
      by (cases "updateConfig now input s") (auto simp: st ev ctl_run_inv_def)
  qed (use inv in \<open>auto simp: st ev intro: ctl_run_inv_safe releaseLease_safe expireEntry_safe observePressure_safe
      ctl_tick_safe evictIdleLanes_safe\<close>)
qed

interpretation ctl: machine ctl_step ctl_run_inv
  by unfold_locales (rule ctl_step_inv)

lemma new_controller_inv: "config_ok cfg \<Longrightarrow> ctl_run_inv (new_AdaptiveAdmissionController cfg now, [])"
proof -
  assume ok: "config_ok cfg"
  then have "adapt_inv (v_adaptation cfg) (createAdaptationState (v_initialLimit cfg) (v_minLimit cfg) (v_maxLimit cfg) now)"
    using create_inv [OF params_ok_of_config [OF ok]] by (simp add: config_ok_def)
  then show ?thesis using ok
    by (auto simp: ctl_run_inv_def new_AdaptiveAdmissionController_def ctl_inv_def queues_ok_def active_ok_def track_def
        pending_def lanes_mset_def config_ok_def intro: new_within)
qed


subsection \<open>Concrete runs\<close>

definition ex_request :: "rat \<Rightarrow> string option \<Rightarrow> admission_request" where
  "ex_request c t = \<lparr>r_cost = Num c, r_features = None, r_tenantKey = t, r_maxWaitMs = Undefined,
     r_signal = None, r_pressure = None\<rparr>"

text \<open>Three requests: the first is admitted, the second waits, the third passes it by.\<close>

definition ex_events :: "(int \<times> ctl_event) list" where
  "ex_events = [(0, EvAcquire (ex_request 5 None)), (1, EvAcquire (ex_request 4 None)),
     (2, EvAcquire (ex_request 1 (Some ''t'')))]"

definition ex_start :: "controller \<times> nat list" where
  "ex_start = (new_AdaptiveAdmissionController ex_config 0, [])"

section \<open>Properties\<close>

text \<open>C9. Exactly once: over any sequence of requests, releases, timers, aborts, pressure reports,
  ticks, reconfigurations and a shutdown, every request that was answered \<open>queued\<close> is either
  still waiting in exactly one queue or was settled exactly once, and nothing else is settled.\<close>

theorem every_queued_request_settles_once:
  assumes "config_ok cfg"
    and "run ctl_step (new_AdaptiveAdmissionController cfg t0, []) es = (s, ql)"
  shows "distinct ql \<and> set (map fst (c_settled s)) \<subseteq> set ql
    \<and> (\<forall>i\<in>set ql. count (image_mset e_id (pending s)) i + count (mset (map fst (c_settled s))) i = 1)"
proof -
  have "ctl_run_inv (s, ql)" using ctl.run_inv [OF new_controller_inv [OF assms(1)]] assms(2) by metis
  then have d: "distinct ql" and m: "mset ql = track s" by (auto simp: ctl_run_inv_def)
  have "count (track s) i = 1" if "i \<in> set ql" for i
    using d that unfolding m [symmetric] by (simp add: distinct_count_atmost_1)
  moreover have "set_mset (mset (map fst (c_settled s))) \<subseteq> set_mset (mset ql)"
    unfolding m track_def by simp
  ultimately show ?thesis using d by (auto simp: track_def)
qed

lemma every_queued_request_settles_once_witness:
  "snd (run ctl_step ex_start ex_events) = [2, 3]
   \<and> count (image_mset e_id (pending (fst (run ctl_step ex_start ex_events)))) 2
     + count (mset (map fst (c_settled (fst (run ctl_step ex_start ex_events))))) 2 = 1"
proof -
  let ?r = "run ctl_step (new_AdaptiveAdmissionController ex_config 0, []) ex_events"
  have l: "snd (run ctl_step ex_start ex_events) = [2, 3]" by code_simp
  have "?r = (fst ?r, snd ?r)" by simp
  from every_queued_request_settles_once [OF ex_config_ok this] show ?thesis
    using l by (simp add: ex_start_def)
qed

lemma safe_step_cost:
  "safe_step s s' \<Longrightarrow> ctl_inv s \<Longrightarrow> c_config s' = c_config s
     \<and> c_activeCost s' \<le> max (c_activeCost s) (v_maxLimit (c_config s))"
  by (simp add: safe_step_def)

definition not_config :: "int \<times> ctl_event \<Rightarrow> bool" where
  "not_config ev = (case snd ev of EvConfig _ \<Rightarrow> False | _ \<Rightarrow> True)"

lemma ctl_step_cost:
  assumes "ctl_run_inv (s, ql)" and "not_config ev"
    and st: "ctl_step (s, ql) ev = (s', ql')"
  shows "c_config s' = c_config s
    \<and> (v_mode (c_config s) = ModeEnforce \<longrightarrow> c_activeCost s' \<le> max (c_activeCost s) (v_maxLimit (c_config s)))"
proof -
  obtain now e where ev: "ev = (now, e)" by (cases ev)
  have i: "ctl_inv s" using assms(1) by (simp add: ctl_run_inv_def)
  show ?thesis
  proof (cases e)
    case (EvAcquire r)
    then have "s' = snd (acquire now r s)" using st by (simp add: ev acquire_step del: ctl_step.simps)
    then show ?thesis using acquire_acq [of s now r] i by (simp add: acq_ok_def)
  next
    case EvShutdown
    then show ?thesis using ctl_shutdown_spec [OF i] st by (auto simp: ev)
  next
    case (EvConfig input)
    then show ?thesis using assms(2) by (simp add: not_config_def ev)
  qed (use st i in \<open>auto simp: ev dest: safe_step_cost [OF releaseLease_safe] safe_step_cost [OF expireEntry_safe]
      safe_step_cost [OF observePressure_safe] safe_step_cost [OF ctl_tick_safe] safe_step_cost [OF evictIdleLanes_safe]\<close>)
qed

text \<open>A queue whose counters say what it holds, within the caps on entries and on cost.\<close>

definition within_caps :: "int \<Rightarrow> int \<Rightarrow> 'p fcq \<Rightarrow> bool" where
  "within_caps mc mk q \<longleftrightarrow>
     q_size q = int (size (q_mset q)) \<and> q_size q \<le> mc
     \<and> q_totalCost q = sum_mset (image_mset e_cost (q_mset q)) \<and> q_totalCost q \<le> mk"

lemma within_caps_queue: "fcq_within mc mk q \<Longrightarrow> within_caps mc mk q"
  by (auto simp: within_caps_def fcq_within_def fcq_caps_def fcq_inv_def fcq_counts_def q_size_def q_totalCost_def)

text \<open>C10. The bounds of the controller: in every mode, whatever happens short of a reconfiguration, the active cost is
  the sum of the costs of the unreleased leases, and the shared queue, the virtual queue and the lane of every
  tenant each stay within the caps on their number of entries and on their cost; in enforce mode the
  active cost never exceeds the configured maximum.\<close>

theorem enforced_cost_never_exceeds_maximum:
  assumes "config_ok cfg" and "list_all not_config es"
    and "run ctl_step (new_AdaptiveAdmissionController cfg t0, []) es = (s, ql)"
  shows "c_activeCost s = jm_sum l_cost (c_active s)
    \<and> (v_mode cfg = ModeEnforce \<longrightarrow> c_activeCost s \<le> v_maxLimit cfg)
    \<and> within_caps (v_maxQueueCount cfg) (v_maxQueueCost cfg) (c_queue s)
    \<and> within_caps (v_maxQueueCount cfg) (v_maxQueueCost cfg) (c_virtualQueue s)
    \<and> (\<forall>p\<in>set (c_virtualLanes s). within_caps (v_maxQueueCount cfg) (v_maxQueueCost cfg) (ln_queue (snd p)))"
proof -
  have "ctl_run_inv (run ctl_step st es) \<and> c_config (fst (run ctl_step st es)) = cfg
      \<and> (v_mode cfg = ModeEnforce \<longrightarrow> c_activeCost (fst (run ctl_step st es)) \<le> v_maxLimit cfg)"
    if "ctl_run_inv st" "c_config (fst st) = cfg" "v_mode cfg = ModeEnforce \<longrightarrow> c_activeCost (fst st) \<le> v_maxLimit cfg"
      "list_all not_config es" for st
    using that
  proof (induction es arbitrary: st)
    case (Cons e es)
    have i: "ctl_run_inv (ctl_step st e)" using Cons.prems(1) by (rule ctl_step_inv)
    have "c_config (fst (ctl_step st e)) = cfg \<and> (v_mode cfg = ModeEnforce \<longrightarrow> c_activeCost (fst (ctl_step st e)) \<le> v_maxLimit cfg)"
      using ctl_step_cost [of "fst st" "snd st" e "fst (ctl_step st e)" "snd (ctl_step st e)"] Cons.prems
      by (auto simp: max_def split: if_splits)
    then show ?case using Cons.IH [OF i] Cons.prems(4) by simp
  qed simp
  from this [OF new_controller_inv [OF assms(1), of t0]] have
    r: "ctl_run_inv (s, ql)" "c_config s = cfg" "v_mode cfg = ModeEnforce \<longrightarrow> c_activeCost s \<le> v_maxLimit cfg"
    using assms by (simp_all add: new_AdaptiveAdmissionController_def config_ok_def limits_ok_def)
  then show ?thesis
    by (auto simp: ctl_run_inv_def ctl_inv_def active_ok_def queues_ok_def intro: within_caps_queue)
qed

lemma enforced_cost_never_exceeds_maximum_witness:
  "c_activeCost (fst (run ctl_step ex_start ex_events)) = 6
   \<and> c_activeCost (fst (run ctl_step ex_start ex_events)) \<le> 10"
proof -
  let ?r = "run ctl_step (new_AdaptiveAdmissionController ex_config 0, []) ex_events"
  have l: "c_activeCost (fst (run ctl_step ex_start ex_events)) = 6" by code_simp
  have m: "v_mode ex_config = ModeEnforce" "v_maxLimit ex_config = 10" by (simp_all add: ex_config_def)
  have e: "list_all not_config ex_events" by (simp add: ex_events_def not_config_def)
  have "?r = (fst ?r, snd ?r)" by simp
  from enforced_cost_never_exceeds_maximum [OF ex_config_ok e this] show ?thesis
    using l m by (simp add: ex_start_def)
qed

text \<open>Shutdown is final: afterwards nothing waits, every request ever queued is settled, and
  whatever follows, every acquire is rejected with \<open>ADMISSION_SHUTDOWN\<close>.\<close>

theorem shutdown_settles_everything:
  assumes "config_ok cfg"
    and "run ctl_step (new_AdaptiveAdmissionController cfg t0, []) (es @ (t, EvShutdown) # es') = (s, ql)"
  shows "pending s = {#} \<and> mset (map fst (c_settled s)) = mset ql
    \<and> fst (acquire now r s) = RRejected ADMISSION_SHUTDOWN"
proof -
  let ?st0 = "run ctl_step (new_AdaptiveAdmissionController cfg t0, []) es"
  have i0: "ctl_run_inv ?st0" using ctl.run_inv [OF new_controller_inv [OF assms(1)]] .
  have keep: "c_shutDown (fst (run ctl_step st es'))" if "ctl_run_inv st" "c_shutDown (fst st)" for st es'
    using that
  proof (induction es' arbitrary: st)
    case (Cons ev es')
    obtain s ql where st: "st = (s, ql)" by (cases st)
    obtain n e where ev: "ev = (n, e)" by (cases ev)
    have i: "ctl_inv s" and sh: "c_shutDown s" using Cons.prems st by (auto simp: ctl_run_inv_def)
    have k: "\<And>s'. safe_step s s' \<Longrightarrow> c_shutDown s'" using i sh by (simp add: safe_step_def)
    have "c_shutDown (fst (ctl_step (s, ql) (n, e)))"
    proof (cases e)
      case (EvAcquire r)
      then show ?thesis using acquire_acq [of s n r] i sh by (simp add: acquire_step acq_ok_def del: ctl_step.simps)
    next
      case (EvConfig input)
      then show ?thesis using updateConfig_spec [OF i] sh by (cases "updateConfig n input s") auto
    next
      case EvShutdown
      then show ?thesis using ctl_shutdown_spec(3) [OF i] by simp
    qed (use sh in \<open>auto intro: k releaseLease_safe expireEntry_safe observePressure_safe ctl_tick_safe evictIdleLanes_safe\<close>)
    then show ?case using Cons.IH [OF ctl_step_inv [OF Cons.prems(1)]] st ev by simp
  qed simp
  obtain s1 ql1 where s1: "?st0 = (s1, ql1)" by (cases ?st0)
  have i1: "ctl_run_inv (ctl_step (s1, ql1) (t, EvShutdown))" using i0 s1 by (simp add: ctl_step_inv del: ctl_step.simps)
  have "c_shutDown (fst (ctl_step (s1, ql1) (t, EvShutdown)))"
    using ctl_shutdown_spec(3) i0 s1 by (simp add: ctl_run_inv_def)
  from keep [OF i1 this, of es'] have "c_shutDown s"
    using assms(2) s1 by (simp add: run_append del: ctl_step.simps)
  moreover have "ctl_run_inv (s, ql)" using ctl.run_inv [OF new_controller_inv [OF assms(1)]] assms(2) by metis
  ultimately show ?thesis
    by (auto simp: ctl_run_inv_def ctl_inv_def track_def acquire_def ctl_reject_def)
qed

lemma shutdown_settles_everything_witness:
  "mset (map fst (c_settled (fst (run ctl_step ex_start (ex_events @ (9, EvShutdown) # []))))) = {#2, 3#}"
proof -
  let ?es = "ex_events @ (9, EvShutdown) # []"
  let ?r = "run ctl_step (new_AdaptiveAdmissionController ex_config 0, []) ?es"
  have l: "snd (run ctl_step ex_start ?es) = [2, 3]" by code_simp
  have "?r = (fst ?r, snd ?r)" by simp
  from shutdown_settles_everything [OF ex_config_ok this] show ?thesis
    using l by (simp add: ex_start_def)
qed

text \<open>Work conservation: a dispatch pass over the shared queue ends only when the queue is
  empty, no capacity is left, or \<open>dequeue\<close> yields nothing for the capacity that is left.\<close>

theorem dispatch_is_work_conserving:
  assumes "ctl_inv s" and "\<not> c_shutDown s" and "v_mode (c_config s) = ModeEnforce" and "c_virtualLanes s = []"
    and s': "s' = ctl_dispatch now s"
  shows "q_size (c_queue s') \<le> 0 \<or> c_limit s' \<le> c_activeCost s'
    \<or> fst (dequeue (c_limit s' - c_activeCost s') (c_queue s')) = None"
proof -
  have main: "\<not> q_size (c_queue (snd (dispatch_shared now s))) > 0
     \<or> c_limit (snd (dispatch_shared now s)) \<le> c_activeCost (snd (dispatch_shared now s))
     \<or> fst (dequeue (c_limit (snd (dispatch_shared now s)) - c_activeCost (snd (dispatch_shared now s)))
            (c_queue (snd (dispatch_shared now s)))) = None" if "ctl_inv s" for s
    using that
  proof (induction now s rule: dispatch_shared.induct)
    case (1 now s)
    show ?case
    proof (cases rule: dispatch_shared_cases [of s now])
      case (unfit q)
      then have "q = c_queue s" using dequeue_None_same "1.prems" by (auto simp: ctl_inv_def queues_ok_def)
      then show ?thesis using unfit by simp
    next
      case (some e q)
      have "ctl_inv (snd (settle_dequeued now e (s\<lparr>c_queue := q\<rparr>)))"
        using settle_shared_safe [OF some(3)] "1.prems" by (simp add: safe_step_def)
      then show ?thesis unfolding some(4)
        using "1.IH" [OF _ refl _ some(3) [symmetric] refl] some(1,2) by simp
    qed simp_all
  qed
  have lanes: "c_virtualLanes (snd (dispatch_shared now s)) = c_virtualLanes s" for s
  proof (induction now s rule: dispatch_shared.induct)
    case (1 now s)
    show ?case
    proof (cases rule: dispatch_shared_cases [of s now])
      case (some e q)
      show ?thesis unfolding some(4)
        using "1.IH" [OF _ refl _ some(3) [symmetric] refl] some(1,2) by simp
    qed simp_all
  qed
  have "s' = snd (dispatch_shared now s)"
    using assms(2-4) lanes [of s] unfolding s' ctl_dispatch_def
    by (cases "dispatch_shared now s") (auto simp: dispatchLanes_def split: bool.splits)
  then show ?thesis using main [OF assms(1)] by (simp add: not_less)
qed


lemma dispatch_is_work_conserving_witness:
  "q_size (c_queue (ctl_dispatch 5 (fst (run ctl_step ex_start ex_events)))) \<le> 0
   \<or> c_limit (ctl_dispatch 5 (fst (run ctl_step ex_start ex_events)))
       \<le> c_activeCost (ctl_dispatch 5 (fst (run ctl_step ex_start ex_events)))
   \<or> fst (dequeue (c_limit (ctl_dispatch 5 (fst (run ctl_step ex_start ex_events)))
        - c_activeCost (ctl_dispatch 5 (fst (run ctl_step ex_start ex_events))))
        (c_queue (ctl_dispatch 5 (fst (run ctl_step ex_start ex_events))))) = None"
proof -
  have "ctl_run_inv (run ctl_step ex_start ex_events)"
    unfolding ex_start_def by (rule ctl.run_inv [OF new_controller_inv [OF ex_config_ok]])
  then have i: "ctl_inv (fst (run ctl_step ex_start ex_events))"
    by (cases "run ctl_step ex_start ex_events") (simp add: ctl_run_inv_def)
  have f: "\<not> c_shutDown (fst (run ctl_step ex_start ex_events))"
    "v_mode (c_config (fst (run ctl_step ex_start ex_events))) = ModeEnforce"
    "c_virtualLanes (fst (run ctl_step ex_start ex_events)) = []" by code_simp+
  show ?thesis by (rule dispatch_is_work_conserving [OF i f refl])
qed

text \<open>Direct admission: in enforce mode a request admitted on arrival leaves the active cost
  within the current limit, unless it runs alone: then nothing else is active or queued,
  the pressure is normal and its cost is within the configured maximum.\<close>

theorem direct_admission_respects_limit:
  assumes "ctl_inv s" and "v_mode (c_config s) = ModeEnforce" and "acquire now r s = (RAdmitted i d, s')"
  shows "c_activeCost s' \<le> c_limit s'
    \<or> c_active s = [] \<and> q_size (c_queue s) = 0 \<and> laneTotalQueuedCount s = 0
        \<and> s_pressure (c_adaptation s') = PNormal \<and> c_activeCost s' \<le> v_maxLimit (c_config s)"
proof -
  define t where "t = (case r_pressure r of None \<Rightarrow> s
                     | Some p \<Rightarrow> s\<lparr>c_adaptation := setPressure p (c_adaptation s)\<rparr>)"
  have t: "safe_step s t" by (auto simp: t_def setPressure_safe split: option.splits)
  have it: "ctl_inv t" using t assms(1) by (simp add: safe_step_def)
  have f: "c_config t = c_config s" "c_active t = c_active s" "c_queue t = c_queue s" "c_virtualLanes t = c_virtualLanes s"
    by (auto simp: t_def split: option.splits)
  obtain cost where c: "resolveCost r t = Inr cost"
    using assms(3) unfolding acquire_def t_def [symmetric] Let_def
    by (cases "resolveCost r t") (auto simp: ctl_reject_def split: if_splits)
  have cr: "0 < cost" "cost \<le> MAX_SAFE_INTEGER" using resolveCost_range [OF _ c] it by (simp_all add: ctl_inv_def)
  have nq: "fst (ctl_enqueue now r cost t) \<noteq> RAdmitted i d" for now cost t
    by (auto simp: ctl_enqueue_def ctl_reject_def Let_def split: prod.splits sum.splits option.splits bool.splits)
  have nq': "ctl_enqueue now r cost t \<noteq> (RAdmitted i d, s')" using nq [of now cost t] by auto
  obtain j u where a: "admit now cost VNone t = (j, u)" by (cases "admit now cost VNone t")
  have su: "s' = u" and cases: "c_activeCost t + cost \<le> c_limit t \<or> cost > c_limit t \<and> shouldAdmitSolo cost t"
    using assms(2,3) f(1) c a nq' unfolding acquire_def t_def [symmetric] Let_def
    by (auto simp: ctl_reject_def split: if_splits)
  note A = admit_inv [OF it cr a]
  have pr: "s_pressure (c_adaptation u) = s_pressure (c_adaptation t)"
    using a by (auto simp: admit_def nextId_def Let_def sampleIntegral_def sampleActiveIntegral_def)
  from cases show ?thesis
  proof
    assume "c_activeCost t + cost \<le> c_limit t"
    then show ?thesis using A(4,9) su by simp
  next
    assume solo: "cost > c_limit t \<and> shouldAdmitSolo cost t"
    then have "c_activeCost t = 0" using active_empty_cost [OF it] by (simp add: shouldAdmitSolo_def)
    then show ?thesis using solo A(4) su f pr
      by (simp add: shouldAdmitSolo_def laneTotalQueuedCount_def)
  qed
qed

lemma direct_admission_respects_limit_witness:
  "c_activeCost (snd (acquire 0 (ex_request 5 None) (fst ex_start))) \<le> 6"
proof -
  have i: "ctl_inv (fst ex_start)"
    using new_controller_inv [OF ex_config_ok, of 0] by (simp add: ex_start_def ctl_run_inv_def)
  have m: "v_mode (c_config (fst ex_start)) = ModeEnforce" by code_simp
  let ?a = "acquire 0 (ex_request 5 None) (fst ex_start)"
  have "fst ?a = RAdmitted 1 None" by code_simp
  then have a: "?a = (RAdmitted 1 None, snd ?a)" by (metis prod.collapse)
  have "c_limit (snd ?a) = 6" "c_activeCost (snd ?a) = 5" by code_simp+
  with direct_admission_respects_limit [OF i m a] show ?thesis by linarith
qed

text \<open>The rule that, once work is queued, every newer request joins the fair queue
  looks at the shared queue only: with per-tenant lanes, a request that fits is admitted at once
  although an older request waits in a lane, and the waiting one stays where it is.\<close>

theorem arrivals_bypass_lanes:
  assumes "ctl_inv s" and "v_mode (c_config s) = ModeEnforce" and "\<not> c_shutDown s"
    and "r_signal r = None" and "r_pressure r = None" and "resolveCost r s = Inr cost"
    and "q_size (c_queue s) = 0" and "c_activeCost s + cost \<le> c_limit s"
  shows "\<exists>i. fst (acquire now r s) = RAdmitted i None
     \<and> lanes_mset (c_virtualLanes (snd (acquire now r s))) = lanes_mset (c_virtualLanes s)"
proof -
  have c: "0 < cost" "cost \<le> MAX_SAFE_INTEGER" using resolveCost_range [OF _ assms(6)] assms(1) by (simp_all add: ctl_inv_def)
  obtain j u where a: "admit now cost VNone s = (j, u)" by (cases "admit now cost VNone s")
  note A = admit_inv [OF assms(1) c a]
  have "0 \<le> c_activeCost s" using assms(1) sum_list_nonneg_int [of "c_active s" "\<lambda>p. l_cost (snd p)"]
    by (force simp: ctl_inv_def active_ok_def jm_sum_def)
  then have "\<not> cost > c_limit s" using assms(8) by simp
  then have "acquire now r s = (RAdmitted j None, u)"
    using assms(2-8) a by (simp add: acquire_def Let_def)
  then show ?thesis using A(13) by simp
qed

definition ex_lane_start :: "controller \<times> nat list" where
  "ex_lane_start = (new_AdaptiveAdmissionController (ex_config\<lparr>v_virtualLanes := True\<rparr>) 0, [])"

definition ex_lane_state :: controller where
  "ex_lane_state = fst (run ctl_step ex_lane_start
     [(0, EvAcquire (ex_request 5 None)), (1, EvAcquire (ex_request 4 (Some ''t'')))])"

lemma ex_lane_inv: "ctl_inv ex_lane_state"
proof -
  have "config_ok (ex_config\<lparr>v_virtualLanes := True\<rparr>)" using ex_config_ok by (simp add: config_ok_def)
  from new_controller_inv [OF this] have "ctl_run_inv ex_lane_start" by (simp add: ex_lane_start_def)
  then have "ctl_run_inv (run ctl_step ex_lane_start es)" for es by (rule ctl.run_inv)
  then show ?thesis unfolding ex_lane_state_def ctl_run_inv_def by (metis (no_types, lifting) case_prod_unfold)
qed

lemma arrivals_bypass_lanes_witness:
  "laneTotalQueuedCount ex_lane_state = 1 \<and> (\<exists>i. fst (acquire 2 (ex_request 1 None) ex_lane_state) = RAdmitted i None)"
proof -
  note i = ex_lane_inv
  have f: "laneTotalQueuedCount ex_lane_state = 1" "v_mode (c_config ex_lane_state) = ModeEnforce"
    "\<not> c_shutDown ex_lane_state" "resolveCost (ex_request 1 None) ex_lane_state = Inr 1"
    "q_size (c_queue ex_lane_state) = 0" "c_activeCost ex_lane_state + 1 \<le> c_limit ex_lane_state" by code_simp+
  have r: "r_signal (ex_request 1 None) = None" "r_pressure (ex_request 1 None) = None" by (simp_all add: ex_request_def)
  from arrivals_bypass_lanes [OF i f(2,3) r f(4,5,6)] f(1) show ?thesis by blast
qed

text \<open>The per-target probe: a request with \<open>maxWaitMs\<close> zero is never queued. It is admitted
  at once, rejected, or fails validation where it would have had to wait, and no queue changes.\<close>

theorem zero_wait_never_queues:
  assumes "r_maxWaitMs r = Num 0" and "ctl_inv s"
  shows "(\<forall>i. fst (acquire now r s) \<noteq> RQueued i) \<and> pending (snd (acquire now r s)) = pending s"
proof -
  define t where "t = (case r_pressure r of None \<Rightarrow> s
                     | Some p \<Rightarrow> s\<lparr>c_adaptation := setPressure p (c_adaptation s)\<rparr>)"
  have t: "safe_step s t" "pending t = pending s" by (auto simp: t_def setPressure_safe pending_def split: option.splits)
  have it: "ctl_inv t" using t assms(2) by (simp add: safe_step_def)
  have "\<exists>e. normalizeRequestCost (nullish_or (Num 0) x) (Num (of_int MAX_ADMISSION_WINDOW_MS)) = Inl e" for x
    by (simp add: normalizeRequestCost_def nullish_or_def requirePositiveSafeInteger_def safe_integer_def
        limit_bound_value MAX_ADMISSION_WINDOW_MS_def MAX_SAFE_INTEGER_def)
  then have z: "\<exists>e. normalizeRequestCost (nullish_or (r_maxWaitMs r) x) (Num (of_int MAX_ADMISSION_WINDOW_MS)) = Inl e" for x
    using assms(1) by simp
  have q: "\<exists>e. ctl_enqueue now r cost u = (RThrown e, u\<lparr>c_leaseSeq := Suc (c_leaseSeq u)\<rparr>)" for cost u
  proof -
    obtain e where "normalizeRequestCost (nullish_or (r_maxWaitMs r) (Num (of_int (v_defaultMaxWaitMs (c_config u)))))
        (Num (of_int MAX_ADMISSION_WINDOW_MS)) = Inl e" using z by blast
    then show ?thesis by (simp add: ctl_enqueue_def nextId_def Let_def)
  qed
  have ad: "pending (snd (admit now cost d u)) = pending u" for cost d u
    by (simp add: admit_def nextId_def Let_def pending_def)
  have sh: "(\<forall>i. fst (acquireShadow now r cost l t) \<noteq> RQueued i) \<and> pending (snd (acquireShadow now r cost l t)) = pending t"
    for cost l
    by (auto simp: acquireShadow_def add_virtual_def admit_def nextId_def Let_def pending_def split: prod.splits)
  show ?thesis
  proof (cases "resolveCost r t")
    case (Inl err)
    then show ?thesis unfolding acquire_def t_def [symmetric] Let_def
      by (simp add: ctl_reject_def pending_def t(2) [unfolded pending_def])
  next
    case (Inr cost)
    have "(\<forall>i. fst (ctl_enqueue now r cost t) \<noteq> RQueued i) \<and> pending (snd (ctl_enqueue now r cost t)) = pending t"
      using q [of cost t] by (auto simp: pending_def)
    then show ?thesis unfolding acquire_def t_def [symmetric] Let_def using Inr sh [of cost "c_limit t"] ad [of cost VNone t] t(2)
      by (cases "v_mode (c_config t)")
         (auto simp: ctl_reject_def admitVirtual_def nextId_def Let_def pending_def split: prod.splits)
  qed
qed

lemma zero_wait_never_queues_witness:
  "fst (acquire 3 ((ex_request 4 None)\<lparr>r_maxWaitMs := Num 0\<rparr>) ex_lane_state) \<noteq> RQueued 4"
proof -
  note i = ex_lane_inv
  have "r_maxWaitMs ((ex_request 4 None)\<lparr>r_maxWaitMs := Num 0\<rparr>) = Num 0" by simp
  from zero_wait_never_queues [OF this i] show ?thesis by blast
qed

end
