(* ===== verification/WorkflowFSM.thy ===== *)
theory WorkflowFSM
  imports Omni_Prelude
begin

text \<open>
  The deterministic workflow state machine, \<open>open-sse/services/workflowFSM.ts\<close>: a transition
  table searched in order, with retry counters on backward transitions.

  ISO timestamps are the clock readings; the \<open>metadata\<close> bag, which nothing here reads, is left
  out. Task descriptions are ASCII strings.
\<close>

datatype phase = Classify | Plan | PlanReview | Execute | CodeReview | QualityReview | Security
  | TestPhase | OutputReview | DonePhase | FailedPhase | PausedPhase

datatype risk = RLow | RMedium | RHigh

datatype verdict = Approve | ApproveWithNotes | RequestChanges | VerdictReject | Block

record phase_record =
  p_phase :: phase
  p_enteredAt :: int
  p_exitedAt :: "int option"
  p_verdict :: "verdict option"
  p_provider :: "string option"
  p_model :: "string option"
  p_retryCount :: int
  p_notes :: "string option"

record workflow =
  w_id :: string
  w_currentPhase :: phase
  w_risk :: risk
  w_lastVerdict :: "verdict option"
  w_retries :: "(phase, int) jsmap"
  w_maxRetries :: int
  w_testsPass :: bool
  w_history :: "phase_record list"
  w_createdAt :: int

record transition =
  t_from :: phase
  t_to :: phase
  t_condition :: "workflow \<Rightarrow> bool"
  t_description :: string

definition HIGH_KEYWORDS :: "string list" where
  "HIGH_KEYWORDS = [''schema'', ''migration'', ''deploy'', ''delete'', ''drop'', ''env'', ''database'',
     ''refactor'', ''security'', ''auth'', ''production'', ''secrets'', ''credentials'', ''permission'']"

definition MED_KEYWORDS :: "string list" where
  "MED_KEYWORDS = [''endpoint'', ''feature'', ''service'', ''model'', ''api'', ''integration'', ''webhook'',
     ''middleware'', ''route'']"

definition classifyRisk :: "string \<Rightarrow> risk" where
  "classifyRisk desc = (let l = toLowerCase desc in
     if list_ex (str_includes l) HIGH_KEYWORDS then RHigh
     else if list_ex (str_includes l) MED_KEYWORDS then RMedium else RLow)"

definition PHASE_ORDER :: "phase list" where
  "PHASE_ORDER = [Classify, Plan, PlanReview, Execute, CodeReview, QualityReview, Security, TestPhase,
     OutputReview]"

text \<open>\<open>Array.prototype.indexOf\<close>\<close>

fun index_of :: "'a \<Rightarrow> 'a list \<Rightarrow> int" where
  "index_of x [] = -1"
| "index_of x (y # ys) = (if y = x then 0 else let i = index_of x ys in if i < 0 then -1 else i + 1)"

definition retries_of :: "phase \<Rightarrow> workflow \<Rightarrow> int" where
  "retries_of p c = (case jm_get (w_retries c) p of None \<Rightarrow> 0 | Some n \<Rightarrow> n)"

definition approved :: "workflow \<Rightarrow> bool" where
  "approved c \<longleftrightarrow> w_lastVerdict c = Some Approve \<or> w_lastVerdict c = Some ApproveWithNotes"

definition rejected :: "workflow \<Rightarrow> bool" where
  "rejected c \<longleftrightarrow> w_lastVerdict c = Some VerdictReject \<or> w_lastVerdict c = Some RequestChanges"

definition transition_table :: "transition list" where
  "transition_table =
   [\<lparr>t_from = Classify, t_to = Plan, t_condition = (\<lambda>c. w_risk c = RHigh),
     t_description = ''High risk -> full planning''\<rparr>,
    \<lparr>t_from = Classify, t_to = Execute, t_condition = (\<lambda>c. w_risk c = RMedium),
     t_description = ''Medium risk -> skip planner''\<rparr>,
    \<lparr>t_from = Classify, t_to = Execute, t_condition = (\<lambda>c. w_risk c = RLow),
     t_description = ''Low risk -> direct execute''\<rparr>,
    \<lparr>t_from = Plan, t_to = PlanReview, t_condition = (\<lambda>_. True), t_description = ''Plan -> review''\<rparr>,
    \<lparr>t_from = PlanReview, t_to = Execute, t_condition = approved, t_description = ''Plan approved -> execute''\<rparr>,
    \<lparr>t_from = PlanReview, t_to = Plan, t_condition = (\<lambda>c. rejected c \<and> retries_of Plan c < w_maxRetries c),
     t_description = ''Plan rejected -> retry''\<rparr>,
    \<lparr>t_from = PlanReview, t_to = FailedPhase,
     t_condition = (\<lambda>c. rejected c \<and> retries_of Plan c \<ge> w_maxRetries c),
     t_description = ''Plan rejected max retries''\<rparr>,
    \<lparr>t_from = Execute, t_to = CodeReview, t_condition = (\<lambda>c. w_risk c \<noteq> RLow),
     t_description = ''Non-low -> code review''\<rparr>,
    \<lparr>t_from = Execute, t_to = TestPhase, t_condition = (\<lambda>c. w_risk c = RLow),
     t_description = ''Low -> skip reviews''\<rparr>,
    \<lparr>t_from = CodeReview, t_to = QualityReview, t_condition = approved,
     t_description = ''Code approved -> quality''\<rparr>,
    \<lparr>t_from = CodeReview, t_to = Execute,
     t_condition = (\<lambda>c. rejected c \<and> retries_of Execute c < w_maxRetries c),
     t_description = ''Code rejected -> re-execute''\<rparr>,
    \<lparr>t_from = CodeReview, t_to = FailedPhase,
     t_condition = (\<lambda>c. rejected c \<and> retries_of Execute c \<ge> w_maxRetries c),
     t_description = ''Code rejected max retries''\<rparr>,
    \<lparr>t_from = QualityReview, t_to = Security, t_condition = (\<lambda>c. w_risk c = RHigh),
     t_description = ''High -> security audit''\<rparr>,
    \<lparr>t_from = QualityReview, t_to = TestPhase, t_condition = (\<lambda>c. w_risk c \<noteq> RHigh),
     t_description = ''Non-high -> skip security''\<rparr>,
    \<lparr>t_from = Security, t_to = FailedPhase, t_condition = (\<lambda>c. w_lastVerdict c = Some Block),
     t_description = ''Security BLOCK -> failed''\<rparr>,
    \<lparr>t_from = Security, t_to = TestPhase, t_condition = (\<lambda>c. w_lastVerdict c \<noteq> Some Block),
     t_description = ''Security passed -> test''\<rparr>,
    \<lparr>t_from = TestPhase, t_to = OutputReview, t_condition = w_testsPass,
     t_description = ''Tests pass -> output review''\<rparr>,
    \<lparr>t_from = TestPhase, t_to = Execute,
     t_condition = (\<lambda>c. \<not> w_testsPass c \<and> retries_of Execute c < w_maxRetries c),
     t_description = ''Tests fail -> re-execute''\<rparr>,
    \<lparr>t_from = TestPhase, t_to = FailedPhase,
     t_condition = (\<lambda>c. \<not> w_testsPass c \<and> retries_of Execute c \<ge> w_maxRetries c),
     t_description = ''Tests fail max retries''\<rparr>,
    \<lparr>t_from = OutputReview, t_to = DonePhase, t_condition = (\<lambda>_. True),
     t_description = ''Output reviewed -> done''\<rparr>]"

fun risk_name :: "risk \<Rightarrow> string" where
  "risk_name RLow = ''low''"
| "risk_name RMedium = ''medium''"
| "risk_name RHigh = ''high''"

definition createWorkflow :: "string \<Rightarrow> string \<Rightarrow> int option \<Rightarrow> int \<Rightarrow> workflow" where
  "createWorkflow i description maxRetries now =
     (let r = classifyRisk description in
      \<lparr>w_id = i, w_currentPhase = Classify, w_risk = r, w_lastVerdict = None, w_retries = [],
       w_maxRetries = (case maxRetries of None \<Rightarrow> 3 | Some n \<Rightarrow> n), w_testsPass = False,
       w_history = [\<lparr>p_phase = Classify, p_enteredAt = now, p_exitedAt = None, p_verdict = None,
          p_provider = None, p_model = None, p_retryCount = 0, p_notes = Some (''Risk: '' @ risk_name r)\<rparr>],
       w_createdAt = now\<rparr>)"

text \<open>The optional argument of \<open>advance\<close>; an absent one has all fields absent.\<close>

record advance_result =
  a_verdict :: "verdict option"
  a_testsPass :: "bool option"
  a_provider :: "string option"
  a_model :: "string option"
  a_notes :: "string option"

text \<open>Updating the last history record, if there is one.\<close>

definition update_last :: "('a \<Rightarrow> 'a) \<Rightarrow> 'a list \<Rightarrow> 'a list" where
  "update_last f xs = (if xs = [] then [] else butlast xs @ [f (last xs)])"

definition take_transition :: "int \<Rightarrow> transition \<Rightarrow> workflow \<Rightarrow> workflow" where
  "take_transition now t c =
     (let fi = index_of (t_from t) PHASE_ORDER; ti = index_of (t_to t) PHASE_ORDER;
          c1 = (if ti \<ge> 0 \<and> fi \<ge> 0 \<and> ti \<le> fi
                then c\<lparr>w_retries := jm_set (t_to t) (retries_of (t_to t) c + 1) (w_retries c)\<rparr> else c)
      in c1\<lparr>w_currentPhase := t_to t,
            w_history := w_history c1 @ [\<lparr>p_phase = t_to t, p_enteredAt = now, p_exitedAt = None,
              p_verdict = None, p_provider = None, p_model = None, p_retryCount = retries_of (t_to t) c1,
              p_notes = Some (t_description t)\<rparr>]\<rparr>)"

definition record_result :: "int \<Rightarrow> advance_result \<Rightarrow> workflow \<Rightarrow> workflow" where
  "record_result now r c =
     c\<lparr>w_lastVerdict := (if a_verdict r \<noteq> None then a_verdict r else w_lastVerdict c),
       w_testsPass := (case a_testsPass r of None \<Rightarrow> w_testsPass c | Some b \<Rightarrow> b),
       w_history := update_last (\<lambda>p. p\<lparr>p_exitedAt := Some now, p_verdict := a_verdict r,
          p_provider := a_provider r, p_model := a_model r, p_notes := a_notes r\<rparr>) (w_history c)\<rparr>"

definition advance :: "int \<Rightarrow> advance_result \<Rightarrow> workflow \<Rightarrow> phase option \<times> workflow" where
  "advance now r c0 =
     (let c = record_result now r c0
      in case find (\<lambda>t. t_from t = w_currentPhase c \<and> t_condition t c) transition_table of
           Some t \<Rightarrow> (Some (t_to t), take_transition now t c)
         | None \<Rightarrow> (None, c))"

definition wf_pause :: "int \<Rightarrow> string \<Rightarrow> workflow \<Rightarrow> workflow" where
  "wf_pause now reason c =
     c\<lparr>w_currentPhase := PausedPhase,
       w_history := w_history c @ [\<lparr>p_phase = PausedPhase, p_enteredAt = now, p_exitedAt = None,
         p_verdict = None, p_provider = None, p_model = None, p_retryCount = 0, p_notes = Some reason\<rparr>]\<rparr>"

definition wf_resume :: "int \<Rightarrow> phase \<Rightarrow> workflow \<Rightarrow> workflow" where
  "wf_resume now p c =
     c\<lparr>w_currentPhase := p,
       w_history := update_last (\<lambda>q. q\<lparr>p_exitedAt := Some now\<rparr>) (w_history c) @
         [\<lparr>p_phase = p, p_enteredAt = now, p_exitedAt = None, p_verdict = None, p_provider = None,
           p_model = None, p_retryCount = retries_of p c, p_notes = Some ''Resumed''\<rparr>]\<rparr>"

definition isTerminated :: "workflow \<Rightarrow> bool" where
  "isTerminated c \<longleftrightarrow> w_currentPhase c = DonePhase \<or> w_currentPhase c = FailedPhase"

definition getPhaseSequence :: "workflow \<Rightarrow> phase list" where
  "getPhaseSequence c = map p_phase (w_history c)"

definition getLLMCallCount :: "workflow \<Rightarrow> nat" where
  "getLLMCallCount c = length (filter (\<lambda>r. p_phase r \<notin> set [Classify, PausedPhase, DonePhase, FailedPhase]
     \<and> p_exitedAt r \<noteq> None) (w_history c))"

section \<open>The step in closed form\<close>

text \<open>What the table search finds, phase by phase.\<close>

definition next_phase :: "workflow \<Rightarrow> phase option" where
  "next_phase c = (case w_currentPhase c of
     Classify \<Rightarrow> Some (if w_risk c = RHigh then Plan else Execute)
   | Plan \<Rightarrow> Some PlanReview
   | PlanReview \<Rightarrow> if approved c then Some Execute
       else if rejected c then Some (if retries_of Plan c < w_maxRetries c then Plan else FailedPhase) else None
   | Execute \<Rightarrow> Some (if w_risk c = RLow then TestPhase else CodeReview)
   | CodeReview \<Rightarrow> if approved c then Some QualityReview
       else if rejected c then Some (if retries_of Execute c < w_maxRetries c then Execute else FailedPhase) else None
   | QualityReview \<Rightarrow> Some (if w_risk c = RHigh then Security else TestPhase)
   | Security \<Rightarrow> Some (if w_lastVerdict c = Some Block then FailedPhase else TestPhase)
   | TestPhase \<Rightarrow> Some (if w_testsPass c then OutputReview
       else if retries_of Execute c < w_maxRetries c then Execute else FailedPhase)
   | OutputReview \<Rightarrow> Some DonePhase
   | _ \<Rightarrow> None)"

lemma record_result_fields [simp]:
  "w_currentPhase (record_result now r c) = w_currentPhase c" "w_risk (record_result now r c) = w_risk c"
  "w_retries (record_result now r c) = w_retries c" "w_maxRetries (record_result now r c) = w_maxRetries c"
  "retries_of p (record_result now r c) = retries_of p c"
  by (simp_all add: record_result_def retries_of_def)

lemma find_conj: "find (\<lambda>x. P x \<and> Q x) xs = find Q (filter P xs)"
  by (induction xs) auto

lemma find_transition:
  "map_option t_to (find (\<lambda>t. t_from t = w_currentPhase c \<and> t_condition t c) transition_table) = next_phase c"
  unfolding find_conj
  by (cases "w_currentPhase c"; cases "w_risk c")
     (simp_all add: transition_table_def next_phase_def approved_def rejected_def)

lemma transition_found:
  "find (\<lambda>t. t_from t = w_currentPhase c \<and> t_condition t c) transition_table = Some t \<Longrightarrow>
     next_phase c = Some (t_to t) \<and> t_from t = w_currentPhase c"
proof
  assume f: "find (\<lambda>t. t_from t = w_currentPhase c \<and> t_condition t c) transition_table = Some t"
  then show "next_phase c = Some (t_to t)" using find_transition [of c] by simp
  from f show "t_from t = w_currentPhase c" by (auto simp: find_Some_iff)
qed

lemma advance_next: "fst (advance now r c) = next_phase (record_result now r c)"
  using find_transition [of "record_result now r c"]
  by (auto simp: advance_def Let_def split: option.splits)


definition backward :: "phase \<Rightarrow> phase \<Rightarrow> bool" where
  "backward f p \<longleftrightarrow> index_of p PHASE_ORDER \<ge> 0 \<and> index_of f PHASE_ORDER \<ge> 0
     \<and> index_of p PHASE_ORDER \<le> index_of f PHASE_ORDER"

lemma phases_update_last: "map p_phase (update_last (\<lambda>p. p\<lparr>p_exitedAt := a, p_verdict := b, p_provider := d,
    p_model := e, p_notes := f\<rparr>) xs) = map p_phase xs"
  by (cases xs rule: rev_cases) (simp_all add: update_last_def)

lemma advance_Some:
  assumes "advance now r c = (Some p, c')"
  shows "next_phase (record_result now r c) = Some p" "w_currentPhase c' = p" "w_risk c' = w_risk c"
    "w_maxRetries c' = w_maxRetries c" "getPhaseSequence c' = getPhaseSequence c @ [p]"
    "retries_of q c' = retries_of q c + (if backward (w_currentPhase c) p \<and> q = p then 1 else 0)"
    "w_lastVerdict c' = w_lastVerdict (record_result now r c)" "w_testsPass c' = w_testsPass (record_result now r c)"
proof -
  let ?c = "record_result now r c"
  obtain t where t: "find (\<lambda>t. t_from t = w_currentPhase ?c \<and> t_condition t ?c) transition_table = Some t"
    and p: "p = t_to t" and c': "c' = take_transition now t ?c"
    using assms by (auto simp: advance_def Let_def split: option.splits)
  note f = transition_found [OF t]
  show "next_phase ?c = Some p" using f p by simp
  show "w_currentPhase c' = p" "w_risk c' = w_risk c" "w_maxRetries c' = w_maxRetries c"
    "w_lastVerdict c' = w_lastVerdict ?c" "w_testsPass c' = w_testsPass ?c"
    by (simp_all add: c' p take_transition_def Let_def)
  show "getPhaseSequence c' = getPhaseSequence c @ [p]"
    by (simp add: c' p take_transition_def Let_def getPhaseSequence_def record_result_def phases_update_last)
  show "retries_of q c' = retries_of q c + (if backward (w_currentPhase c) p \<and> q = p then 1 else 0)"
    using f by (auto simp: c' p take_transition_def Let_def backward_def retries_of_def)
qed

lemma advance_None:
  "advance now r c = (None, c') \<Longrightarrow> c' = record_result now r c \<and> next_phase (record_result now r c) = None"
  using advance_next [of now r c] by (auto simp: advance_def Let_def split: option.splits)

section \<open>Invariants of a run\<close>

definition cap :: "workflow \<Rightarrow> int" where
  "cap c = max 0 (w_maxRetries c)"

definition order_rank :: "phase \<Rightarrow> int" where
  "order_rank p = (if index_of p PHASE_ORDER < 0 then 0 else 9 - index_of p PHASE_ORDER)"

definition retries_ok :: "workflow \<Rightarrow> bool" where
  "retries_ok c \<longleftrightarrow> 0 \<le> retries_of Plan c \<and> retries_of Plan c \<le> cap c
     \<and> 0 \<le> retries_of Execute c \<and> retries_of Execute c \<le> cap c"

text \<open>Five units per retry left, plus the phases ahead.\<close>

definition wf_measure :: "workflow \<Rightarrow> int" where
  "wf_measure c = 5 * (2 * cap c - retries_of Plan c - retries_of Execute c) + order_rank (w_currentPhase c)"

lemmas phase_eval = backward_def order_rank_def PHASE_ORDER_def index_of.simps Let_def

lemma next_phase_cases:
  assumes "next_phase c = Some p"
  obtains (forward) "\<not> backward (w_currentPhase c) p" "order_rank p < order_rank (w_currentPhase c)"
  | (replan) "w_currentPhase c = PlanReview" "p = Plan" "retries_of Plan c < w_maxRetries c" "rejected c"
  | (redo) "w_currentPhase c \<in> {CodeReview, TestPhase}" "p = Execute" "retries_of Execute c < w_maxRetries c"
  using assms
  by (cases "w_currentPhase c") (auto simp: next_phase_def phase_eval split: if_splits)

lemma advance_measure:
  assumes a: "advance now r c = (Some p, c')" and ok: "retries_ok c"
  shows "wf_measure c' < wf_measure c" "retries_ok c'"
proof -
  note A = advance_Some [OF a]
  have "wf_measure c' < wf_measure c \<and> retries_ok c'"
    using A(1)
  proof (cases rule: next_phase_cases)
    case forward
    then show ?thesis using A(2,4) A(6) [of Plan] A(6) [of Execute] ok
      by (simp add: wf_measure_def retries_ok_def cap_def)
  next
    case replan
    then have "backward (w_currentPhase c) p" "order_rank p = 8" "order_rank (w_currentPhase c) = 7"
      by (simp_all add: phase_eval)
    then show ?thesis using replan A(2,4) A(6) [of Plan] A(6) [of Execute] ok
      by (auto simp: wf_measure_def retries_ok_def cap_def max_def split: if_splits)
  next
    case redo
    then have "backward (w_currentPhase c) p" "order_rank p = 6" "order_rank (w_currentPhase c) \<ge> 2"
      by (auto simp: phase_eval)
    then show ?thesis using redo A(2,4) A(6) [of Plan] A(6) [of Execute] ok
      by (auto simp: wf_measure_def retries_ok_def cap_def max_def split: if_splits)
  qed
  then show "wf_measure c' < wf_measure c" "retries_ok c'" by simp_all
qed

fun adv_run :: "(int \<times> advance_result) list \<Rightarrow> workflow \<Rightarrow> phase option list \<times> workflow" where
  "adv_run [] c = ([], c)"
| "adv_run ((now, r) # rs) c =
     (let (p, c1) = advance now r c; (ps, c2) = adv_run rs c1 in (p # ps, c2))"

lemma measure_nonneg: "retries_ok c \<Longrightarrow> 0 \<le> wf_measure c"
  by (cases "w_currentPhase c") (simp_all add: wf_measure_def retries_ok_def phase_eval)

lemma record_result_ok:
  "retries_ok (record_result now r c) = retries_ok c" "wf_measure (record_result now r c) = wf_measure c"
  "getPhaseSequence (record_result now r c) = getPhaseSequence c"
  by (simp_all add: retries_ok_def wf_measure_def cap_def getPhaseSequence_def phases_update_last,
      simp add: record_result_def phases_update_last)

lemma adv_run_bound:
  assumes "adv_run rs c = (ps, c')" and "retries_ok c"
  shows "int (length (filter (\<lambda>p. p \<noteq> None) ps)) \<le> wf_measure c \<and> retries_ok c'
    \<and> getPhaseSequence c' = getPhaseSequence c @ map the (filter (\<lambda>p. p \<noteq> None) ps) \<and> w_maxRetries c' = w_maxRetries c"
proof -
  have "int (length (filter (\<lambda>p. p \<noteq> None) ps)) + wf_measure c' \<le> wf_measure c \<and> retries_ok c'
    \<and> getPhaseSequence c' = getPhaseSequence c @ map the (filter (\<lambda>p. p \<noteq> None) ps) \<and> w_maxRetries c' = w_maxRetries c"
    using assms
  proof (induction rs arbitrary: c ps)
    case (Cons x rs)
    obtain now r where x: "x = (now, r)" by (cases x)
    obtain p c1 where a: "advance now r c = (p, c1)" by (cases "advance now r c")
    obtain qs where q: "adv_run rs c1 = (qs, c')" "ps = p # qs"
      using Cons.prems(1) a x by (auto split: prod.splits)
    show ?case
    proof (cases p)
      case None
      then have "c1 = record_result now r c" using advance_None a by simp
      then show ?thesis using Cons.IH [OF q(1)] Cons.prems(2) None q(2) by (simp add: record_result_ok)
    next
      case (Some p')
      note A = advance_Some [OF a [unfolded Some]] and M = advance_measure [OF a [unfolded Some] Cons.prems(2)]
      show ?thesis using Cons.IH [OF q(1) M(2)] M(1) A(4,5) Some q(2) by simp
    qed
  qed simp
  then show ?thesis using measure_nonneg by force
qed

text \<open>Only planning and execution are ever retried.\<close>

definition others_untried :: "workflow \<Rightarrow> bool" where
  "others_untried c \<longleftrightarrow> (\<forall>p. p \<noteq> Plan \<and> p \<noteq> Execute \<longrightarrow> retries_of p c = 0)"

lemma advance_untried:
  assumes "advance now r c = (x, c')" and "others_untried c"
  shows "others_untried c'"
proof (cases x)
  case None
  then show ?thesis using advance_None [OF assms(1) [unfolded None]] assms(2) by (simp add: others_untried_def)
next
  case (Some p)
  note A = advance_Some [OF assms(1) [unfolded Some]]
  from A(1) have "backward (w_currentPhase c) p \<Longrightarrow> p = Plan \<or> p = Execute" by (cases rule: next_phase_cases) simp_all
  then show ?thesis using A(6) assms(2) by (auto simp: others_untried_def)
qed

text \<open>A review that has been given neither an approval nor a rejection.\<close>

definition awaits_verdict :: "workflow \<Rightarrow> bool" where
  "awaits_verdict c \<longleftrightarrow> w_currentPhase c \<in> set [PlanReview, CodeReview] \<and> \<not> approved c \<and> \<not> rejected c"

definition decisive :: "int \<times> advance_result \<Rightarrow> bool" where
  "decisive x \<longleftrightarrow> a_verdict (snd x) \<in> set (map Some [Approve, ApproveWithNotes, RequestChanges, VerdictReject])"

lemma next_phase_None: "next_phase c = None \<Longrightarrow> isTerminated c \<or> awaits_verdict c \<or> w_currentPhase c = PausedPhase"
  by (auto simp: next_phase_def isTerminated_def awaits_verdict_def split: phase.splits if_splits)

lemma next_phase_live: "next_phase c = Some p \<Longrightarrow> p \<noteq> PausedPhase"
  by (auto simp: next_phase_def split: phase.splits if_splits)

lemma decisive_decides: "decisive x \<Longrightarrow> \<not> awaits_verdict (record_result now (snd x) c)"
  by (auto simp: decisive_def awaits_verdict_def approved_def rejected_def record_result_def)

lemma advance_terminated: "isTerminated c \<Longrightarrow> advance now r c = (None, record_result now r c) \<and> isTerminated (record_result now r c)"
proof
  assume t: "isTerminated c"
  then have "next_phase (record_result now r c) = None" by (auto simp: isTerminated_def next_phase_def)
  then have "advance now r c = (None, snd (advance now r c))" using advance_next by (metis prod.collapse)
  with advance_None [OF this] show "advance now r c = (None, record_result now r c)" by simp
  show "isTerminated (record_result now r c)" using t by (simp add: isTerminated_def)
qed

lemma adv_run_terminated: "isTerminated c \<Longrightarrow> adv_run rs c = (ps, c') \<Longrightarrow> isTerminated c'"
proof (induction rs arbitrary: c ps)
  case (Cons x rs)
  obtain now r where x: "x = (now, r)" by (cases x)
  from advance_terminated [OF Cons.prems(1), of now r] Cons.prems(2) Cons.IH show ?case
    by (auto simp: x split: prod.splits)
qed simp

text \<open>How a run stands after its last call.\<close>

lemma adv_run_end:
  assumes "adv_run rs c = (ps, c')" and "others_untried c" and "w_currentPhase c \<noteq> PausedPhase"
  shows "others_untried c' \<and> length ps = length rs
    \<and> (ps \<noteq> [] \<and> last ps = None \<longrightarrow> isTerminated c' \<or> awaits_verdict c')
    \<and> (list_all decisive rs \<longrightarrow> isTerminated c' \<or> None \<notin> set ps)"
  using assms
proof (induction rs arbitrary: c ps)
  case (Cons x rs)
  obtain now r where x: "x = (now, r)" by (cases x)
  obtain p c1 where a: "advance now r c = (p, c1)" by (cases "advance now r c")
  obtain qs where q: "adv_run rs c1 = (qs, c')" "ps = p # qs"
    using Cons.prems(1) a x by (auto split: prod.splits)
  have u: "others_untried c1" using advance_untried [OF a Cons.prems(2)] .
  have live: "w_currentPhase c1 \<noteq> PausedPhase"
  proof (cases p)
    case None
    then show ?thesis using advance_None [OF a [unfolded None]] Cons.prems(3) by simp
  next
    case (Some p')
    then show ?thesis using advance_Some(1,2) [OF a [unfolded Some]] next_phase_live by blast
  qed
  note IH = Cons.IH [OF q(1) u live]
  show ?case
  proof (cases p)
    case None
    then have c1: "c1 = record_result now r c" "next_phase c1 = None" using advance_None a by auto
    then have e: "isTerminated c1 \<or> awaits_verdict c1" using next_phase_None live by blast
    have "isTerminated c'" if "decisive x"
      using e decisive_decides [OF that, of now c] adv_run_terminated [OF _ q(1)] by (auto simp: c1 x)
    moreover have "qs = [] \<Longrightarrow> c' = c1" using q(1) IH by (cases rs) auto
    ultimately show ?thesis using IH e None q(2) by auto
  next
    case (Some p')
    have "qs = [] \<Longrightarrow> rs = []" using IH by auto
    then show ?thesis using IH q(2) Some by auto
  qed
qed simp

text \<open>For a high-risk task every phase before the current one has been entered.\<close>

definition visited :: "workflow \<Rightarrow> bool" where
  "visited c \<longleftrightarrow> w_risk c = RHigh \<and>
     (case w_currentPhase c of
        FailedPhase \<Rightarrow> True
      | PausedPhase \<Rightarrow> False
      | DonePhase \<Rightarrow> set PHASE_ORDER \<subseteq> set (getPhaseSequence c)
      | p \<Rightarrow> set (take (nat (index_of p PHASE_ORDER) + 1) PHASE_ORDER) \<subseteq> set (getPhaseSequence c))"

lemma advance_visited:
  assumes v: "visited c" and a: "advance now r c = (Some p, c')"
  shows "visited c'"
proof -
  note A = advance_Some [OF a]
  have n: "next_phase (record_result now r c) = Some p" by (rule A(1))
  have hr: "w_risk c = RHigh" using v by (simp add: visited_def)
  show ?thesis using v n hr A(2,3,5)
    by (cases "w_currentPhase c")
       (auto simp: visited_def next_phase_def PHASE_ORDER_def Let_def split: if_splits)
qed


section \<open>Properties\<close>

lemma create_ok: "retries_ok (createWorkflow i d m now)" "wf_measure (createWorkflow i d m now) = 10 * cap (createWorkflow i d m now) + 9"
  "getPhaseSequence (createWorkflow i d m now) = [Classify]"
  by (simp_all add: createWorkflow_def Let_def retries_ok_def retries_of_def cap_def wf_measure_def phase_eval
      getPhaseSequence_def)

text \<open>C11. A workflow cannot go on for ever: however the results come in, \<open>advance\<close> takes at most \<open>10 * maxRetries + 9\<close>
  transitions, no phase is retried more than \<open>maxRetries\<close> times, and the history records exactly the phases it returned. When a
  call takes no transition, the workflow is done or failed, or it waits in a plan or code review for an approval or a rejection
  (a \<open>block\<close> is neither); and when every call brings an approval or a rejection, more calls than that bound end it.\<close>

theorem workflow_terminates:
  assumes "c0 = createWorkflow i d m now" and "adv_run rs c0 = (ps, c)"
  shows "int (length (filter (\<lambda>p. p \<noteq> None) ps)) \<le> 10 * max 0 (w_maxRetries c0) + 9
    \<and> (\<forall>p. retries_of p c \<le> max 0 (w_maxRetries c0))
    \<and> getPhaseSequence c = Classify # map the (filter (\<lambda>p. p \<noteq> None) ps)
    \<and> (ps \<noteq> [] \<and> last ps = None \<longrightarrow> isTerminated c \<or> awaits_verdict c)
    \<and> (list_all decisive rs \<and> 10 * max 0 (w_maxRetries c0) + 9 < int (length rs) \<longrightarrow> isTerminated c)"
proof -
  have B: "int (length (filter (\<lambda>p. p \<noteq> None) ps)) \<le> wf_measure c0" "retries_ok c"
    "getPhaseSequence c = getPhaseSequence c0 @ map the (filter (\<lambda>p. p \<noteq> None) ps)"
    "w_maxRetries c = w_maxRetries c0"
    using adv_run_bound [OF assms(2)] create_ok(1) [of i d m now] assms(1) by simp_all
  have "others_untried c0" "w_currentPhase c0 \<noteq> PausedPhase"
    using assms(1) by (simp_all add: others_untried_def retries_of_def createWorkflow_def Let_def)
  note E = adv_run_end [OF assms(2) this]
  have first: "int (length (filter (\<lambda>p. p \<noteq> None) ps)) \<le> 10 * max 0 (w_maxRetries c0) + 9"
    "getPhaseSequence c = Classify # map the (filter (\<lambda>p. p \<noteq> None) ps)"
    using B create_ok(2,3) [of i d m now] assms(1) by (simp_all only: cap_def append_Cons append_Nil)
  have "retries_of p c \<le> max 0 (w_maxRetries c0)" for p
    using B(2,4) E by (cases "p = Plan \<or> p = Execute") (auto simp: retries_ok_def cap_def others_untried_def)
  moreover have "None \<notin> set ps \<Longrightarrow> filter (\<lambda>p. p \<noteq> None) ps = ps" by (metis (mono_tags, lifting) filter_True)
  then have "None \<notin> set ps \<Longrightarrow> int (length rs) \<le> 10 * max 0 (w_maxRetries c0) + 9" using first(1) E by simp
  ultimately show ?thesis using first E by auto
qed

definition ok_result :: advance_result where
  "ok_result = \<lparr>a_verdict = Some Approve, a_testsPass = Some True, a_provider = None, a_model = None, a_notes = None\<rparr>"

definition no_result :: advance_result where
  "no_result = \<lparr>a_verdict = None, a_testsPass = None, a_provider = None, a_model = None, a_notes = None\<rparr>"

lemma workflow_terminates_witness:
  "getPhaseSequence (snd (adv_run (replicate 9 (1, ok_result)) (createWorkflow ''w'' ''Deploy it'' None 0)))
     = [Classify, Plan, PlanReview, Execute, CodeReview, QualityReview, Security, TestPhase, OutputReview, DonePhase]"
proof -
  let ?c0 = "createWorkflow ''w'' ''Deploy it'' None 0" and ?rs = "replicate 9 (1, ok_result)"
  have p: "fst (adv_run ?rs ?c0) = [Some Plan, Some PlanReview, Some Execute, Some CodeReview, Some QualityReview,
      Some Security, Some TestPhase, Some OutputReview, Some DonePhase]" by code_simp
  have "adv_run ?rs ?c0 = (fst (adv_run ?rs ?c0), snd (adv_run ?rs ?c0))" by simp
  from workflow_terminates [OF refl this] show ?thesis unfolding p by simp
qed

text \<open>C31. A high-risk task cannot reach \<open>done\<close> by \<open>advance\<close> without having entered planning, both
  reviews, the security audit, the tests and the output review.\<close>

theorem high_risk_done_visits_every_phase:
  assumes "w_risk c0 = RHigh" and "c0 = createWorkflow i d m now" and "adv_run rs c0 = (ps, c)"
    and "w_currentPhase c = DonePhase"
  shows "set PHASE_ORDER \<subseteq> set (getPhaseSequence c)"
proof -
  have "visited c0" using assms(1) unfolding assms(2)
    by (simp add: visited_def createWorkflow_def Let_def phase_eval getPhaseSequence_def)
  then have "visited c" using assms(3)
  proof (induction rs arbitrary: c0 ps)
    case (Cons x rs)
    obtain n r where x: "x = (n, r)" by (cases x)
    obtain p c1 where a: "advance n r c0 = (p, c1)" by (cases "advance n r c0")
    obtain qs where q: "adv_run rs c1 = (qs, c)" using Cons.prems(2) a x by (auto split: prod.splits)
    have "visited c1"
    proof (cases p)
      case None
      then have "c1 = record_result n r c0" using advance_None a by simp
      then have e: "w_risk c1 = w_risk c0" "w_currentPhase c1 = w_currentPhase c0"
        "getPhaseSequence c1 = getPhaseSequence c0" by (simp_all add: record_result_ok)
      show ?thesis using Cons.prems(1) unfolding visited_def e .
    next
      case (Some p')
      then show ?thesis using advance_visited [OF Cons.prems(1)] a by simp
    qed
    then show ?case using Cons.IH q by blast
  qed simp
  then show ?thesis using assms(4) by (simp add: visited_def)
qed

lemma high_risk_done_visits_every_phase_witness:
  "Security \<in> set (getPhaseSequence (snd (adv_run (replicate 9 (1, ok_result)) (createWorkflow ''w'' ''Deploy it'' None 0))))"
proof -
  let ?c0 = "createWorkflow ''w'' ''Deploy it'' None 0" and ?rs = "replicate 9 (1, ok_result)"
  have r: "w_risk ?c0 = RHigh" by code_simp
  have d: "w_currentPhase (snd (adv_run ?rs ?c0)) = DonePhase" by code_simp
  have "adv_run ?rs ?c0 = (fst (adv_run ?rs ?c0), snd (adv_run ?rs ?c0))" by simp
  from high_risk_done_visits_every_phase [OF r refl this d] show ?thesis by (auto simp: PHASE_ORDER_def)
qed

text \<open>When \<open>advance\<close> answers \<open>null\<close>: in the final and paused phases, and in the plan and code
  reviews while the last verdict is missing or \<open>block\<close>. A blocking verdict in a review so
  neither fails the workflow nor sends it back; it stays where it is.\<close>

theorem stuck_exactly_without_decision:
  "fst (advance now r c) = None \<longleftrightarrow>
     w_currentPhase c \<in> {DonePhase, FailedPhase, PausedPhase}
     \<or> w_currentPhase c \<in> {PlanReview, CodeReview}
        \<and> w_lastVerdict (record_result now r c) \<in> {None, Some Block}"
proof -
  have v: "\<not> approved d \<and> \<not> rejected d \<longleftrightarrow> w_lastVerdict d \<in> {None, Some Block}" for d
  proof (cases "w_lastVerdict d")
    case (Some x)
    then show ?thesis by (cases x) (simp_all add: approved_def rejected_def)
  qed (simp add: approved_def rejected_def)
  show ?thesis using v [of "record_result now r c"]
    by (cases "w_currentPhase c") (auto simp: advance_next next_phase_def)
qed

text \<open>The last verdict is carried from phase to phase: after an approved plan, calls of
  \<open>advance\<close> without any verdict take a high-risk task through execution, code review, quality
  review and the security audit to the tests.\<close>

theorem stale_verdict_passes_reviews:
  assumes "w_risk c = RHigh" and "w_currentPhase c = PlanReview" and "approved c"
  shows "fst (adv_run (replicate 5 (now, no_result)) c) =
    [Some Execute, Some CodeReview, Some QualityReview, Some Security, Some TestPhase]"
proof -
  have step: "\<exists>d'. advance now no_result d = (next_phase d, d') \<and> w_risk d' = w_risk d
      \<and> w_lastVerdict d' = w_lastVerdict d \<and> w_currentPhase d' = the (next_phase d)" if n: "next_phase d \<noteq> None" for d
  proof -
    have e: "next_phase (record_result now no_result d) = next_phase d"
      by (simp add: next_phase_def record_result_def no_result_def approved_def rejected_def retries_of_def split: phase.splits)
    obtain d' where d': "advance now no_result d = (next_phase d, d')"
      using advance_next [of now no_result d] e by (metis prod.collapse)
    obtain p where p: "next_phase d = Some p" using n by auto
    show ?thesis using advance_Some(2,3,7) [OF d' [unfolded p]] d' p
      by (auto simp: record_result_def no_result_def)
  qed
  have ap: "approved d \<longleftrightarrow> w_lastVerdict d \<in> {Some Approve, Some ApproveWithNotes}" for d
    by (auto simp: approved_def)
  obtain c1 where c1: "advance now no_result c = (Some Execute, c1)" "w_risk c1 = RHigh"
    "w_lastVerdict c1 = w_lastVerdict c" "w_currentPhase c1 = Execute"
    using step [of c] assms by (auto simp: next_phase_def)
  obtain c2 where c2: "advance now no_result c1 = (Some CodeReview, c2)" "w_risk c2 = RHigh"
    "w_lastVerdict c2 = w_lastVerdict c" "w_currentPhase c2 = CodeReview"
    using step [of c1] c1 by (auto simp: next_phase_def)
  obtain c3 where c3: "advance now no_result c2 = (Some QualityReview, c3)" "w_risk c3 = RHigh"
    "w_lastVerdict c3 = w_lastVerdict c" "w_currentPhase c3 = QualityReview"
    using step [of c2] c2 assms(3) by (auto simp: next_phase_def ap)
  obtain c4 where c4: "advance now no_result c3 = (Some Security, c4)" "w_risk c4 = RHigh"
    "w_lastVerdict c4 = w_lastVerdict c" "w_currentPhase c4 = Security"
    using step [of c3] c3 by (auto simp: next_phase_def)
  obtain c5 where c5: "advance now no_result c4 = (Some TestPhase, c5)"
    using step [of c4] c4 assms(3) by (auto simp: next_phase_def ap)
  show ?thesis by (simp add: numeral_eq_Suc c1(1) c2(1) c3(1) c4(1) c5)
qed

lemma stale_verdict_passes_reviews_witness:
  "fst (adv_run (replicate 5 (2, no_result))
     ((snd (adv_run [(1, no_result), (1, no_result)] (createWorkflow ''w'' ''Deploy it'' None 0)))\<lparr>w_lastVerdict := Some Approve\<rparr>)) =
    [Some Execute, Some CodeReview, Some QualityReview, Some Security, Some TestPhase]"
  by (rule stale_verdict_passes_reviews) code_simp+

end
