(* ===== verification/AccountSemaphore.thy ===== *)
theory AccountSemaphore
  imports Omni_Prelude
begin

text \<open>
  The per-account concurrency gates, \<open>open-sse/services/accountSemaphore.ts\<close>.

  A release function is a token: \<open>sm_tokens\<close> holds those not called yet, with the key they close
  over. A waiter is a number; its promise is settled by an entry of \<open>sm_settled\<close>. The deadline
  timer, the abort listener, the block timer and the cleanup timer are events. A waiter's timer and
  listener are cancelled when it is settled, so they act only while it is queued.
\<close>

record gate =
  g_running :: int
  g_max :: int
  g_queue :: "nat list"
  g_blockedUntil :: "int option"
  g_cleanup :: bool

datatype outcome = Granted nat | TimedOut | Aborted | ResetRejected

datatype sem_result = Bypassed | AbortedEarly | GrantedNow nat | Waiting nat | QueueFull

record sem =
  sm_gates :: "(string, gate) jsmap"
  sm_tokens :: "(nat \<times> string) list"
  sm_next :: nat
  sm_settled :: "(nat \<times> outcome) list"

definition new_sem :: sem where
  "new_sem = \<lparr>sm_gates = [], sm_tokens = [], sm_next = 0, sm_settled = []\<rparr>"

section \<open>Gates\<close>

definition buildAccountSemaphoreKey :: "string \<Rightarrow> string \<Rightarrow> string" where
  "buildAccountSemaphoreKey provider accountKey = provider @ '':'' @ accountKey"

definition isBypassed :: "int option \<Rightarrow> bool" where
  "isBypassed mc = (case mc of None \<Rightarrow> True | Some n \<Rightarrow> n \<le> 0)"

definition fresh_gate :: "int \<Rightarrow> gate" where
  "fresh_gate mc = \<lparr>g_running = 0, g_max = mc, g_queue = [], g_blockedUntil = None, g_cleanup = False\<rparr>"

definition ensureGate :: "string \<Rightarrow> int \<Rightarrow> sem \<Rightarrow> gate \<times> sem" where
  "ensureGate k mc s =
     (let g = (case jm_get (sm_gates s) k of Some g \<Rightarrow> g\<lparr>g_max := mc\<rparr> | None \<Rightarrow> fresh_gate mc)
      in (g, s\<lparr>sm_gates := jm_set k g (sm_gates s)\<rparr>))"

text \<open>\<open>isBlocked\<close> clears a block that has expired.\<close>

definition isBlocked :: "int \<Rightarrow> gate \<Rightarrow> bool \<times> gate" where
  "isBlocked now g =
     (if \<not> truthy (g_blockedUntil g) then (False, g)
      else if now \<ge> the (g_blockedUntil g) then (False, g\<lparr>g_blockedUntil := None\<rparr>)
      else (True, g))"

definition put_gate :: "string \<Rightarrow> gate \<Rightarrow> sem \<Rightarrow> sem" where
  "put_gate k g s = s\<lparr>sm_gates := jm_set k g (sm_gates s)\<rparr>"

definition cleanupGateIfIdle :: "int \<Rightarrow> string \<Rightarrow> sem \<Rightarrow> sem" where
  "cleanupGateIfIdle now k s =
     (case jm_get (sm_gates s) k of
        None \<Rightarrow> s
      | Some g \<Rightarrow>
          if g_running g > 0 \<or> g_queue g \<noteq> [] then s
          else (case isBlocked now g of
                  (True, g') \<Rightarrow> put_gate k g' s
                | (False, g') \<Rightarrow> s\<lparr>sm_gates := jm_del k (sm_gates s)\<rparr>))"

definition scheduleCleanup :: "string \<Rightarrow> sem \<Rightarrow> sem" where
  "scheduleCleanup k s =
     (case jm_get (sm_gates s) k of None \<Rightarrow> s | Some g \<Rightarrow> put_gate k (g\<lparr>g_cleanup := True\<rparr>) s)"

text \<open>The waiters the loop of \<open>drainQueue\<close> serves, and the gate it leaves.\<close>

fun gate_drain :: "int \<Rightarrow> nat list \<Rightarrow> gate \<Rightarrow> nat list \<times> gate" where
  "gate_drain now [] g = ([], g\<lparr>g_queue := []\<rparr>)"
| "gate_drain now (w # ws) g =
     (if g_running g < g_max g
      then (case isBlocked now g of
              (True, g') \<Rightarrow> ([], g'\<lparr>g_queue := w # ws\<rparr>)
            | (False, g') \<Rightarrow>
                (let (gs, g'') = gate_drain now ws (g'\<lparr>g_running := g_running g' + 1\<rparr>) in (w # gs, g'')))
      else ([], g\<lparr>g_queue := w # ws\<rparr>))"

text \<open>\<open>next.resolve(createReleaseFn(key))\<close>: a new token settles the waiter.\<close>

definition grant :: "string \<Rightarrow> nat \<Rightarrow> sem \<Rightarrow> sem" where
  "grant k w s = s\<lparr>sm_tokens := sm_tokens s @ [(sm_next s, k)],
     sm_settled := sm_settled s @ [(w, Granted (sm_next s))], sm_next := sm_next s + 1\<rparr>"

definition drainQueue :: "int \<Rightarrow> string \<Rightarrow> sem \<Rightarrow> sem" where
  "drainQueue now k s =
     (case jm_get (sm_gates s) k of
        None \<Rightarrow> s
      | Some g \<Rightarrow>
          (let (ws, g') = gate_drain now (g_queue g) g;
               s' = fold (grant k) ws (put_gate k g' s)
           in if g_running g' = 0 \<and> g_queue g' = [] then scheduleCleanup k s' else s'))"

definition sem_release :: "int \<Rightarrow> nat \<Rightarrow> sem \<Rightarrow> sem" where
  "sem_release now t s0 =
     (case find (\<lambda>p. fst p = t) (sm_tokens s0) of
        None \<Rightarrow> s0
      | Some (_, k) \<Rightarrow>
          (let s = s0\<lparr>sm_tokens := filter (\<lambda>p. fst p \<noteq> t) (sm_tokens s0)\<rparr>
           in case jm_get (sm_gates s) k of
                None \<Rightarrow> s
              | Some g \<Rightarrow>
                  (let g' = (if g_running g > 0 then g\<lparr>g_running := g_running g - 1\<rparr> else g);
                       s' = put_gate k g' s
                   in if g_queue g' \<noteq> [] then drainQueue now k s' else scheduleCleanup k s')))"

definition sem_acquire ::
  "int \<Rightarrow> string \<Rightarrow> int option \<Rightarrow> int \<Rightarrow> bool \<Rightarrow> sem \<Rightarrow> sem_result \<times> sem" where
  "sem_acquire now k mc maxQueueSize aborted s0 =
     (if isBypassed mc then (Bypassed, s0)
      else if aborted then (AbortedEarly, s0)
      else (let (g0, s1) = ensureGate k (the mc) s0;
                g1 = g0\<lparr>g_cleanup := False\<rparr>;
                (blocked, g2) = (if g_running g1 < g_max g1 then isBlocked now g1 else (True, g1))
            in if \<not> blocked
               then (GrantedNow (sm_next s1),
                     (put_gate k (g2\<lparr>g_running := g_running g2 + 1\<rparr>) s1)\<lparr>
                        sm_tokens := sm_tokens s1 @ [(sm_next s1, k)], sm_next := sm_next s1 + 1\<rparr>)
               else if int (length (g_queue g2)) \<ge> maxQueueSize then (QueueFull, put_gate k g2 s1)
               else (Waiting (sm_next s1),
                     (put_gate k (g2\<lparr>g_queue := g_queue g2 @ [sm_next s1]\<rparr>) s1)\<lparr>sm_next := sm_next s1 + 1\<rparr>)))"

text \<open>The deadline timer (\<open>TimedOut\<close>) and the abort listener (\<open>Aborted\<close>) of a waiter.\<close>

definition sem_expire :: "string \<Rightarrow> nat \<Rightarrow> outcome \<Rightarrow> sem \<Rightarrow> sem" where
  "sem_expire k w oc s =
     (case jm_get (sm_gates s) k of
        None \<Rightarrow> s
      | Some g \<Rightarrow>
          if w \<notin> set (g_queue g) then s
          else (let g' = g\<lparr>g_queue := remove1 w (g_queue g)\<rparr>;
                    s' = put_gate k g' s;
                    s'' = (if g_running g' = 0 \<and> g_queue g' = [] then scheduleCleanup k s' else s')
                in s''\<lparr>sm_settled := sm_settled s'' @ [(w, oc)]\<rparr>))"

definition markBlocked :: "int \<Rightarrow> string \<Rightarrow> jsval \<Rightarrow> sem \<Rightarrow> sem" where
  "markBlocked now k cooldownMs s =
     (case (case cooldownMs of Num r \<Rightarrow> if r > 0 then Some r else None | _ \<Rightarrow> None) of
        None \<Rightarrow> (case jm_get (sm_gates s) k of
                  None \<Rightarrow> s
                | Some g \<Rightarrow> drainQueue now k (put_gate k (g\<lparr>g_blockedUntil := None\<rparr>) s))
      | Some r \<Rightarrow>
          (let (g, s1) = (case jm_get (sm_gates s) k of Some g \<Rightarrow> (g, s) | None \<Rightarrow> ensureGate k 1 s)
           in put_gate k (g\<lparr>g_cleanup := False, g_blockedUntil := Some (now + \<lceil>r\<rceil>)\<rparr>) s1))"

definition block_timer :: "int \<Rightarrow> string \<Rightarrow> sem \<Rightarrow> sem" where
  "block_timer now k s =
     (case jm_get (sm_gates s) k of
        None \<Rightarrow> s
      | Some g \<Rightarrow>
          if truthy (g_blockedUntil g) \<and> now \<ge> the (g_blockedUntil g)
          then (let s1 = drainQueue now k (put_gate k (g\<lparr>g_blockedUntil := None\<rparr>) s)
                in case jm_get (sm_gates s1) k of
                     None \<Rightarrow> s1
                   | Some g' \<Rightarrow> if g_running g' = 0 \<and> g_queue g' = [] then scheduleCleanup k s1 else s1)
          else s)"

definition cleanup_timer :: "int \<Rightarrow> string \<Rightarrow> sem \<Rightarrow> sem" where
  "cleanup_timer now k s =
     (case jm_get (sm_gates s) k of
        None \<Rightarrow> s
      | Some g \<Rightarrow> if g_cleanup g then cleanupGateIfIdle now k (put_gate k (g\<lparr>g_cleanup := False\<rparr>) s) else s)"

record sem_stats =
  ss_running :: int
  ss_queued :: int
  ss_max :: int
  ss_blockedUntil :: "int option"

definition sem_getStats :: "sem \<Rightarrow> (string \<times> sem_stats) list" where
  "sem_getStats s = map (\<lambda>(k, g). (k, \<lparr>ss_running = g_running g, ss_queued = int (length (g_queue g)),
     ss_max = g_max g, ss_blockedUntil = (if truthy (g_blockedUntil g) then g_blockedUntil g else None)\<rparr>))
     (sm_gates s)"

text \<open>An effective cap of zero or less counts as no cap; the test also clears an expired block.\<close>

definition isAccountSemaphoreFull :: "int \<Rightarrow> string \<Rightarrow> string \<Rightarrow> int option \<Rightarrow> sem \<Rightarrow> bool \<times> sem" where
  "isAccountSemaphoreFull now provider accountKey mc s =
     (if isBypassed mc then (False, s)
      else (let k = buildAccountSemaphoreKey provider accountKey
            in case jm_get (sm_gates s) k of
                 None \<Rightarrow> (False, s)
               | Some g \<Rightarrow>
                   if g_running g \<ge> the mc then (True, s)
                   else (case isBlocked now g of (b, g') \<Rightarrow> (b, put_gate k g' s))))"

definition sem_reset :: "string \<Rightarrow> sem \<Rightarrow> sem" where
  "sem_reset k s =
     (case jm_get (sm_gates s) k of
        None \<Rightarrow> s
      | Some g \<Rightarrow> s\<lparr>sm_settled := sm_settled s @ map (\<lambda>w. (w, ResetRejected)) (g_queue g),
                      sm_gates := jm_del k (sm_gates s)\<rparr>)"

definition sem_resetAll :: "sem \<Rightarrow> sem" where
  "sem_resetAll s = fold sem_reset (jm_keys (sm_gates s)) s"

section \<open>Events\<close>

datatype sem_event =
    SemAcquire int string "int option" int bool
  | SemRelease int nat
  | SemTimeout string nat
  | SemAbort string nat
  | SemMark int string jsval
  | SemBlockTimer int string
  | SemCleanup int string
  | SemIsFull int string string "int option"

fun sem_step :: "sem \<Rightarrow> sem_event \<Rightarrow> sem" where
  "sem_step s (SemAcquire now k mc mq ab) = snd (sem_acquire now k mc mq ab s)"
| "sem_step s (SemRelease now t) = sem_release now t s"
| "sem_step s (SemTimeout k w) = sem_expire k w TimedOut s"
| "sem_step s (SemAbort k w) = sem_expire k w Aborted s"
| "sem_step s (SemMark now k c) = markBlocked now k c s"
| "sem_step s (SemBlockTimer now k) = block_timer now k s"
| "sem_step s (SemCleanup now k) = cleanup_timer now k s"
| "sem_step s (SemIsFull now p a mc) = snd (isAccountSemaphoreFull now p a mc s)"

text \<open>The waiters an event creates, and those of a run.\<close>

fun sem_new_waiter :: "sem \<Rightarrow> sem_event \<Rightarrow> nat multiset" where
  "sem_new_waiter s (SemAcquire now k mc mq ab) =
     (case fst (sem_acquire now k mc mq ab s) of Waiting w \<Rightarrow> {#w#} | _ \<Rightarrow> {#})"
| "sem_new_waiter s _ = {#}"

fun sem_issued :: "sem \<Rightarrow> sem_event list \<Rightarrow> nat multiset" where
  "sem_issued s [] = {#}"
| "sem_issued s (e # es) = sem_new_waiter s e + sem_issued (sem_step s e) es"

section \<open>The invariant\<close>

definition held :: "sem \<Rightarrow> string \<Rightarrow> int" where
  "held s k = int (length (filter (\<lambda>p. snd p = k) (sm_tokens s)))"

definition gate_running :: "sem \<Rightarrow> string \<Rightarrow> int" where
  "gate_running s k = (case jm_get (sm_gates s) k of None \<Rightarrow> 0 | Some g \<Rightarrow> g_running g)"

definition gate_max :: "sem \<Rightarrow> string \<Rightarrow> int" where
  "gate_max s k = (case jm_get (sm_gates s) k of None \<Rightarrow> 0 | Some g \<Rightarrow> g_max g)"

definition sem_track :: "sem \<Rightarrow> nat multiset" where
  "sem_track s = jm_sum (\<lambda>g. mset (g_queue g)) (sm_gates s) + mset (map fst (sm_settled s))"

definition sem_inv :: "sem \<Rightarrow> bool" where
  "sem_inv s \<longleftrightarrow> jm_ok (sm_gates s) \<and> distinct (map fst (sm_tokens s)) \<and>
     (\<forall>p\<in>set (sm_tokens s). fst p < sm_next s) \<and> (\<forall>k. held s k = gate_running s k) \<and>
     (\<forall>w. count (sem_track s) w \<le> 1) \<and> (\<forall>w\<in>#sem_track s. w < sm_next s)"

text \<open>
  Every operation replaces one gate, appends \<open>n\<close> tokens of its key, and settles some waiters. \<open>m\<close>
  counts the waiters it numbers.
\<close>

lemma jm_queue_track:
  assumes "jm_get m k = Some g"
  shows "jm_sum (\<lambda>g. mset (g_queue g)) (jm_set k g' m) + mset (g_queue g) =
     jm_sum (\<lambda>g. mset (g_queue g)) m + mset (g_queue g')"
  using jm_sum_set_old [OF assms, of "\<lambda>g. mset (g_queue g)" g'] .

lemma held_append:
  "sm_tokens s' = sm_tokens s @ map (\<lambda>i. (i, k)) xs \<Longrightarrow>
   held s' k' = held s k' + (if k' = k then int (length xs) else 0)"
  by (simp add: held_def filter_map o_def)

lemma token_effect:
  assumes inv: "sem_inv s" and gate: "jm_get (sm_gates s) k = Some g"
    and gates: "sm_gates s' = jm_set k g' (sm_gates s)"
    and tokens: "sm_tokens s' = sm_tokens s @ map (\<lambda>i. (i, k)) [sm_next s..<sm_next s + n]"
    and nxt: "sm_next s' = sm_next s + n + m"
    and running: "g_running g' = g_running g + int n"
  shows "jm_ok (sm_gates s') \<and> distinct (map fst (sm_tokens s')) \<and>
     (\<forall>p\<in>set (sm_tokens s'). fst p < sm_next s') \<and> (\<forall>k. held s' k = gate_running s' k)"
proof (intro conjI allI)
  show "jm_ok (sm_gates s')" using inv by (simp add: gates sem_inv_def)
  have fr: "\<forall>p\<in>set (sm_tokens s). fst p < sm_next s" using inv by (simp add: sem_inv_def)
  then show "distinct (map fst (sm_tokens s'))"
    using inv by (auto simp: tokens sem_inv_def o_def)
  show "\<forall>p\<in>set (sm_tokens s'). fst p < sm_next s'" using fr by (auto simp: tokens nxt)
  show "held s' k' = gate_running s' k'" for k'
  proof -
    have "held s k' = gate_running s k'" using inv by (simp add: sem_inv_def)
    then show ?thesis using gate
      by (simp add: held_append [OF tokens] gate_running_def gates running)
  qed
qed

lemma track_effect:
  assumes inv: "sem_inv s" and gate: "jm_get (sm_gates s) k = Some g"
    and gates: "sm_gates s' = jm_set k g' (sm_gates s)"
    and settled: "map fst (sm_settled s') = map fst (sm_settled s) @ ws"
    and queue: "mset ws + mset (g_queue g') = mset (g_queue g) + mset xs"
  shows "sem_track s' = sem_track s + mset xs"
proof -
  have q: "jm_sum (\<lambda>g. mset (g_queue g)) (sm_gates s') + mset (g_queue g) =
      jm_sum (\<lambda>g. mset (g_queue g)) (sm_gates s) + mset (g_queue g')"
    unfolding gates by (rule jm_queue_track [OF gate])
  have "sem_track s' + mset (g_queue g) =
      (jm_sum (\<lambda>g. mset (g_queue g)) (sm_gates s') + mset (g_queue g)) + mset (map fst (sm_settled s)) + mset ws"
    unfolding sem_track_def settled by (simp add: ac_simps)
  also have "\<dots> = jm_sum (\<lambda>g. mset (g_queue g)) (sm_gates s) + mset (map fst (sm_settled s)) +
      (mset ws + mset (g_queue g'))"
    unfolding q by (simp add: ac_simps)
  also have "\<dots> = sem_track s + mset xs + mset (g_queue g)"
    unfolding queue sem_track_def by (simp add: ac_simps)
  finally show ?thesis by simp
qed

lemma inv_effect:
  assumes inv: "sem_inv s" and gate: "jm_get (sm_gates s) k = Some g"
    and gates: "sm_gates s' = jm_set k g' (sm_gates s)"
    and tokens: "sm_tokens s' = sm_tokens s @ map (\<lambda>i. (i, k)) [sm_next s..<sm_next s + n]"
    and nxt: "sm_next s' = sm_next s + n + m"
    and running: "g_running g' = g_running g + int n"
    and settled: "map fst (sm_settled s') = map fst (sm_settled s) @ ws"
    and queue: "mset ws + mset (g_queue g') = mset (g_queue g) + mset [sm_next s + n..<sm_next s + n + m]"
  shows "sem_inv s' \<and> sem_track s' = sem_track s + mset [sm_next s + n..<sm_next s + n + m]"
proof -
  have t: "sem_track s' = sem_track s + mset [sm_next s + n..<sm_next s + n + m]"
    by (rule track_effect [OF inv gate gates settled queue])
  have old: "\<forall>w. count (sem_track s) w \<le> 1" "\<forall>w\<in>#sem_track s. w < sm_next s"
    using inv by (simp_all add: sem_inv_def)
  have c: "count (sem_track s') w \<le> 1" for w
  proof (cases "w < sm_next s")
    case True
    then show ?thesis using old(1) by (simp add: t count_mset_0_iff)
  next
    case False
    then have "count (sem_track s) w = 0" using old(2) by (auto simp: count_eq_zero_iff)
    moreover have "count (mset [sm_next s + n..<sm_next s + n + m]) w \<le> 1"
      by (simp only: distinct_count_atmost_1 [THEN iffD1, OF distinct_upt, rule_format]) simp
    ultimately show ?thesis by (simp only: t count_union add_0)
  qed
  have "\<forall>w\<in>#sem_track s'. w < sm_next s'"
    using old(2) by (auto simp: t nxt)
  then show ?thesis
    using token_effect [OF inv gate gates tokens nxt running] c t by (simp add: sem_inv_def)
qed

text \<open>What every operation but \<open>acquire\<close> keeps. \<open>c\<close> is any cap of at least one.\<close>

definition kept :: "sem \<Rightarrow> sem \<Rightarrow> bool" where
  "kept s s' \<longleftrightarrow> (sem_inv s \<longrightarrow> sem_inv s' \<and> sem_track s' = sem_track s \<and>
     (\<forall>c k. 1 \<le> c \<and> gate_max s k \<le> c \<and> held s k \<le> c \<longrightarrow> gate_max s' k \<le> c \<and> held s' k \<le> c))"

lemma kept_refl [simp]: "kept s s"
  by (simp add: kept_def)

lemma kept_trans: "kept s s' \<Longrightarrow> kept s' s'' \<Longrightarrow> kept s s''"
  by (auto simp: kept_def)

lemma gate_update_kept:
  assumes gate: "jm_get (sm_gates s) k = Some g"
    and gates: "sm_gates s' = jm_set k g' (sm_gates s)"
    and tokens: "sm_tokens s' = sm_tokens s @ map (\<lambda>i. (i, k)) [sm_next s..<sm_next s + n]"
    and nxt: "sm_next s' = sm_next s + n"
    and running: "g_running g' = g_running g + int n"
    and settled: "map fst (sm_settled s') = map fst (sm_settled s) @ ws"
    and queue: "mset ws + mset (g_queue g') = mset (g_queue g)"
    and cap: "g_max g' = g_max g" "n = 0 \<or> g_running g' \<le> g_max g"
  shows "kept s s'"
  unfolding kept_def
proof (intro impI conjI allI)
  assume inv: "sem_inv s"
  have e: "sem_inv s' \<and> sem_track s' = sem_track s + mset [sm_next s + n..<sm_next s + n + 0]"
    by (rule inv_effect [OF inv gate gates tokens _ running settled]) (simp_all add: nxt queue)
  then show "sem_inv s'" "sem_track s' = sem_track s" by simp_all
  have h: "held s k = g_running g" "held s' k = g_running g'"
    using inv e gate by (simp_all add: sem_inv_def gate_running_def gates)
  fix c k' assume c: "1 \<le> c \<and> gate_max s k' \<le> c \<and> held s k' \<le> c"
  then show "gate_max s' k' \<le> c" using gate cap by (auto simp: gate_max_def gates)
  show "held s' k' \<le> c"
  proof (cases "k' = k")
    case True
    then show ?thesis using c cap gate running h by (auto simp: gate_max_def)
  next
    case False
    then show ?thesis using c by (simp add: held_append [OF tokens])
  qed
qed

lemma put_gate_kept:
  assumes "jm_get (sm_gates s) k = Some g" and "g_running g' = g_running g" and "g_queue g' = g_queue g"
    and "g_max g' = g_max g"
  shows "kept s (put_gate k g' s)"
  by (rule gate_update_kept [OF assms(1), where g' = g' and n = 0 and ws = "[]"])
    (simp_all add: put_gate_def assms)

lemma isBlocked_fields [simp]:
  "g_running (snd (isBlocked now g)) = g_running g" "g_queue (snd (isBlocked now g)) = g_queue g"
  "g_max (snd (isBlocked now g)) = g_max g" "g_cleanup (snd (isBlocked now g)) = g_cleanup g"
  by (simp_all add: isBlocked_def)

lemma isBlocked_projections:
  assumes "isBlocked now g = (b, g')"
  shows "g_running g' = g_running g" "g_queue g' = g_queue g" "g_max g' = g_max g"
  using isBlocked_fields [of now g] assms by simp_all

lemma scheduleCleanup_kept: "kept s (scheduleCleanup k s)"
  by (auto simp: scheduleCleanup_def intro!: put_gate_kept split: option.split)

lemma gate_drain_spec:
  "gate_drain now q g = (ws, g') \<Longrightarrow>
   q = ws @ g_queue g' \<and> g_running g' = g_running g + int (length ws) \<and> g_max g' = g_max g \<and>
   (ws = [] \<or> g_running g' \<le> g_max g)"
proof (induction now q g arbitrary: ws g' rule: gate_drain.induct)
  case (2 now w q g)
  show ?case
  proof (cases "g_running g < g_max g \<and> \<not> fst (isBlocked now g)")
    case True
    define h where "h = snd (isBlocked now g)"
    then have b: "isBlocked now g = (False, h)" using True by (cases "isBlocked now g") simp
    obtain vs f where r: "gate_drain now q (h\<lparr>g_running := g_running h + 1\<rparr>) = (vs, f)"
      by (cases "gate_drain now q (h\<lparr>g_running := g_running h + 1\<rparr>)") auto
    have "ws = w # vs" "g' = f" using "2.prems" True b r by simp_all
    then show ?thesis
      using "2.IH" [OF _ b [symmetric] refl r] True isBlocked_projections [OF b] by auto
  next
    case False
    then show ?thesis using "2.prems" by (auto simp: split: if_splits prod.splits bool.splits dest: isBlocked_projections)
  qed
qed simp

lemma fold_grant:
  "sm_gates (fold (grant k) ws s) = sm_gates s"
  "sm_next (fold (grant k) ws s) = sm_next s + length ws"
  "sm_tokens (fold (grant k) ws s) = sm_tokens s @ map (\<lambda>i. (i, k)) [sm_next s..<sm_next s + length ws]"
  "map fst (sm_settled (fold (grant k) ws s)) = map fst (sm_settled s) @ ws"
  by (induction ws arbitrary: s) (simp_all add: grant_def upt_rec)

lemma drainQueue_kept: "kept s (drainQueue now k s)"
proof (cases "jm_get (sm_gates s) k")
  case (Some g)
  obtain ws g' where d: "gate_drain now (g_queue g) g = (ws, g')" by fastforce
  note G = gate_drain_spec [OF d]
  have "kept s (fold (grant k) ws (put_gate k g' s))"
    by (rule gate_update_kept [OF Some, where g' = g' and n = "length ws" and ws = ws])
      (use G in \<open>auto simp: fold_grant put_gate_def simp flip: mset_append\<close>)
  then show ?thesis
    unfolding drainQueue_def using Some d by (auto simp: Let_def intro: kept_trans scheduleCleanup_kept)
qed (simp add: drainQueue_def)

lemma cleanup_kept: "kept s (cleanupGateIfIdle now k s)"
proof (cases "jm_get (sm_gates s) k")
  case (Some g)
  have del: "kept s (s\<lparr>sm_gates := jm_del k (sm_gates s)\<rparr>)" if i: "\<not> g_running g > 0" "g_queue g = []"
    unfolding kept_def
  proof (intro impI conjI allI)
    assume inv: "sem_inv s"
    let ?s = "s\<lparr>sm_gates := jm_del k (sm_gates s)\<rparr>"
    have ok: "jm_ok (sm_gates s)" and h: "\<forall>k. held s k = gate_running s k"
      using inv by (simp_all add: sem_inv_def)
    have z: "g_running g = 0" using h [rule_format, of k] i Some by (simp add: gate_running_def held_def)
    have t: "sem_track ?s = sem_track s"
      using jm_sum_del [OF ok Some, of "\<lambda>g. mset (g_queue g)"] i by (simp add: sem_track_def)
    then show "sem_track ?s = sem_track s" .
    show "sem_inv ?s"
      using inv z Some h unfolding sem_inv_def t by (simp add: held_def gate_running_def)
    fix c k' assume "1 \<le> c \<and> gate_max s k' \<le> c \<and> held s k' \<le> c"
    then show "gate_max ?s k' \<le> c" "held ?s k' \<le> c" by (simp_all add: gate_max_def held_def)
  qed
  show ?thesis
  proof (cases "isBlocked now g")
    case (Pair b g')
    have "kept s (put_gate k g' s)" using isBlocked_projections [OF Pair] by (intro put_gate_kept [OF Some]) auto
    with del Pair Some show ?thesis by (auto simp: cleanupGateIfIdle_def split: bool.split)
  qed
qed (simp add: cleanupGateIfIdle_def)

text \<open>The first half of a release: the token is spent and its gate counts one less.\<close>

lemma spend_kept:
  assumes tok: "(t, k) \<in> set (sm_tokens s)" and gate: "jm_get (sm_gates s) k = Some g" and pos: "0 < g_running g"
    and s': "s' = put_gate k (g\<lparr>g_running := g_running g - 1\<rparr>)
      (s\<lparr>sm_tokens := filter (\<lambda>p. fst p \<noteq> t) (sm_tokens s)\<rparr>)"
  shows "kept s s'"
  unfolding kept_def
proof (intro impI conjI allI)
  assume inv: "sem_inv s"
  have h: "held s' k' = held s k' - (if k' = k then 1 else 0)" for k'
    using count_without [OF _ tok, of k'] inv by (simp add: s' put_gate_def held_def sem_inv_def)
  have q: "sem_track s' = sem_track s"
    using jm_queue_track [OF gate, of "g\<lparr>g_running := g_running g - 1\<rparr>"]
    by (simp add: sem_track_def s' put_gate_def)
  then show "sem_track s' = sem_track s" .
  have "distinct (map fst (filter (\<lambda>p. fst p \<noteq> t) (sm_tokens s)))"
    using inv by (simp add: sem_inv_def distinct_map_filter)
  then show "sem_inv s'"
    using inv h gate unfolding sem_inv_def q by (auto simp: s' put_gate_def gate_running_def)
  fix c k' assume c: "1 \<le> c \<and> gate_max s k' \<le> c \<and> held s k' \<le> c"
  then show "held s' k' \<le> c" using h [of k'] by (auto split: if_splits)
  show "gate_max s' k' \<le> c" using gate c by (auto simp: gate_max_def s' put_gate_def)
qed

lemma sem_release_kept: "kept s (sem_release now t s)"
proof (cases "sem_inv s")
  case inv: True
  show ?thesis
  proof (cases "find (\<lambda>p. fst p = t) (sm_tokens s)")
    case (Some p)
    obtain k where p: "p = (t, k)" and m: "(t, k) \<in> set (sm_tokens s)"
      using find_by_key [OF Some] by (cases p) auto
    have "0 < held s k" using m by (force simp: held_def filter_empty_conv)
    then have "0 < gate_running s k" using inv by (simp add: sem_inv_def)
    then obtain g where g: "jm_get (sm_gates s) k = Some g" "0 < g_running g"
      by (auto simp: gate_running_def split: option.splits)
    note k = spend_kept [OF m g refl]
    then show ?thesis
      using Some p g by (auto simp: sem_release_def Let_def
          intro: kept_trans drainQueue_kept scheduleCleanup_kept)
  qed (simp add: sem_release_def)
qed (simp add: kept_def)

lemma expire_kept: "kept s (sem_expire k w oc s)"
proof (cases "jm_get (sm_gates s) k")
  case (Some g)
  show ?thesis
  proof (cases "w \<in> set (g_queue g)")
    case w: True
    define g' where "g' = g\<lparr>g_queue := remove1 w (g_queue g)\<rparr>"
    define e where "e s' = s'\<lparr>sm_settled := sm_settled s' @ [(w, oc)]\<rparr>" for s' :: sem
    have q: "mset [w] + mset (g_queue g') = mset (g_queue g)" using w by (simp add: g'_def)
    have a: "kept s (e (put_gate k g' s))"
      by (rule gate_update_kept [OF Some, where g' = g' and n = 0 and ws = "[w]"])
        (use q in \<open>simp_all add: e_def put_gate_def g'_def\<close>)
    have b: "e (scheduleCleanup k s') = scheduleCleanup k (e s')" for s'
      by (simp add: e_def scheduleCleanup_def put_gate_def split: option.split)
    have c: "kept s (e (scheduleCleanup k (put_gate k g' s)))"
      unfolding b using a scheduleCleanup_kept by (rule kept_trans)
    show ?thesis using Some w a c by (auto simp: sem_expire_def Let_def e_def g'_def)
  qed (use Some in \<open>simp add: sem_expire_def\<close>)
qed (simp add: sem_expire_def)

text \<open>A new gate is empty.\<close>

lemma ensure_new:
  assumes inv: "sem_inv s" and none: "jm_get (sm_gates s) k = None"
    and s': "s' = s\<lparr>sm_gates := jm_set k (fresh_gate mc) (sm_gates s)\<rparr>"
  shows "sem_inv s'" "sem_track s' = sem_track s"
proof -
  have "jm_sum (\<lambda>g. mset (g_queue g)) (jm_set k (fresh_gate mc) (sm_gates s)) =
      jm_sum (\<lambda>g. mset (g_queue g)) (sm_gates s)"
    by (simp add: jm_sum_set_new [OF none] fresh_gate_def)
  then show t: "sem_track s' = sem_track s" by (simp add: sem_track_def s')
  have "gate_running s' k' = gate_running s k'" for k'
    using none by (simp add: gate_running_def s' fresh_gate_def)
  then show "sem_inv s'" using inv unfolding sem_inv_def t by (simp add: s' held_def)
qed

lemma markBlocked_kept: "kept s (markBlocked now k c s)"
proof -
  have blk: "kept s (put_gate k (g\<lparr>g_cleanup := False, g_blockedUntil := b\<rparr>) s)"
    if "jm_get (sm_gates s) k = Some g" for s g b
    by (rule put_gate_kept [OF that]) simp_all
  have new: "kept s (s\<lparr>sm_gates := jm_set k (fresh_gate 1) (sm_gates s)\<rparr>)" if none: "jm_get (sm_gates s) k = None"
    unfolding kept_def
  proof (intro impI conjI allI)
    let ?s = "s\<lparr>sm_gates := jm_set k (fresh_gate 1) (sm_gates s)\<rparr>"
    assume "sem_inv s"
    from ensure_new [OF this none refl] show "sem_inv ?s" "sem_track ?s = sem_track s" by simp_all
    fix c k' assume "1 \<le> c \<and> gate_max s k' \<le> c \<and> held s k' \<le> c"
    then show "gate_max ?s k' \<le> c" "held ?s k' \<le> c" by (auto simp: gate_max_def held_def fresh_gate_def)
  qed
  have drain: "kept s (drainQueue now k (put_gate k (g\<lparr>g_blockedUntil := None\<rparr>) s))"
    if "jm_get (sm_gates s) k = Some g" for g
    by (rule kept_trans [OF put_gate_kept [OF that] drainQueue_kept]) simp_all
  show ?thesis
  proof (cases "jm_get (sm_gates s) k")
    case None
    define s1 where "s1 = s\<lparr>sm_gates := jm_set k (fresh_gate 1) (sm_gates s)\<rparr>"
    have g1: "jm_get (sm_gates s1) k = Some (fresh_gate 1)" by (simp add: s1_def)
    have b: "kept s (put_gate k ((fresh_gate 1)\<lparr>g_cleanup := False, g_blockedUntil := b\<rparr>) s1)" for b
      by (rule kept_trans [OF new [OF None, folded s1_def] blk [OF g1]])
    have e: "ensureGate k 1 s = (fresh_gate 1, s1)" using None by (simp add: ensureGate_def s1_def Let_def)
    show ?thesis
      unfolding markBlocked_def using None b e
      by (auto simp: Let_def split: jsval.split option.split)
  next
    case (Some g)
    then show ?thesis
      unfolding markBlocked_def using blk [OF Some] drain [OF Some]
      by (auto simp: Let_def split: jsval.split option.split)
  qed
qed

lemma block_timer_kept: "kept s (block_timer now k s)"
proof (cases "jm_get (sm_gates s) k")
  case (Some g)
  have "kept s (drainQueue now k (put_gate k (g\<lparr>g_blockedUntil := None\<rparr>) s))"
    by (rule kept_trans [OF put_gate_kept [OF Some] drainQueue_kept]) simp_all
  then show ?thesis unfolding block_timer_def using Some
    by (auto simp: Let_def intro: kept_trans scheduleCleanup_kept split: option.split)
qed (simp add: block_timer_def)

lemma cleanup_timer_kept: "kept s (cleanup_timer now k s)"
proof (cases "jm_get (sm_gates s) k")
  case (Some g)
  have "kept s (cleanupGateIfIdle now k (put_gate k (g\<lparr>g_cleanup := False\<rparr>) s))"
    by (rule kept_trans [OF put_gate_kept [OF Some] cleanup_kept]) simp_all
  then show ?thesis using Some by (simp add: cleanup_timer_def)
qed (simp add: cleanup_timer_def)

lemma isFull_kept: "kept s (snd (isAccountSemaphoreFull now p a mc s))"
proof (cases "jm_get (sm_gates s) (buildAccountSemaphoreKey p a)")
  case (Some g)
  obtain b g' where b: "isBlocked now g = (b, g')" by fastforce
  have "kept s (put_gate (buildAccountSemaphoreKey p a) g' s)"
    using isBlocked_projections [OF b] by (intro put_gate_kept [OF Some])
  then show ?thesis using Some b by (simp add: isAccountSemaphoreFull_def)
qed (simp add: isAccountSemaphoreFull_def)

text \<open>\<open>acquire\<close> may set the cap of its own gate and numbers at most one waiter.\<close>

lemma ensureGate_spec:
  assumes inv: "sem_inv s" and e: "ensureGate k mc s = (g, s1)"
  shows "sem_inv s1" "sem_track s1 = sem_track s" "jm_get (sm_gates s1) k = Some g" "g_max g = mc"
    "sm_tokens s1 = sm_tokens s" "sm_next s1 = sm_next s"
    "\<And>k'. k' \<noteq> k \<Longrightarrow> jm_get (sm_gates s1) k' = jm_get (sm_gates s) k'"
proof -
  have "sem_inv s1 \<and> sem_track s1 = sem_track s"
  proof (cases "jm_get (sm_gates s) k")
    case None
    then show ?thesis using ensure_new [OF inv None refl, of mc] e by (auto simp: ensureGate_def Let_def)
  next
    case (Some g0)
    have "sem_inv s1 \<and> sem_track s1 = sem_track s + mset [sm_next s + 0..<sm_next s + 0 + 0]"
      by (rule inv_effect [OF inv Some, where g' = "g0\<lparr>g_max := mc\<rparr>" and ws = "[]"])
        (use e Some in \<open>auto simp: ensureGate_def Let_def\<close>)
    then show ?thesis by simp
  qed
  then show "sem_inv s1" "sem_track s1 = sem_track s" by simp_all
qed (use e in \<open>auto simp: ensureGate_def Let_def fresh_gate_def split: option.splits\<close>)

lemma acquire_spec:
  assumes inv: "sem_inv s" and a: "sem_acquire now k mc mq ab s = (r, s')"
  shows "sem_inv s' \<and> sem_track s' = sem_track s + (case r of Waiting w \<Rightarrow> {#w#} | _ \<Rightarrow> {#}) \<and>
     (\<forall>c k'. (k' = k \<longrightarrow> (case mc of Some n \<Rightarrow> n \<le> c | None \<Rightarrow> True)) \<and> gate_max s k' \<le> c \<and> held s k' \<le> c
        \<longrightarrow> gate_max s' k' \<le> c \<and> held s' k' \<le> c)"
proof (cases "isBypassed mc \<or> ab")
  case True
  then show ?thesis using a inv by (auto simp: sem_acquire_def split: if_splits)
next
  case False
  then obtain n where mc: "mc = Some n" and n: "n > 0" by (auto simp: isBypassed_def split: option.splits)
  obtain g0 s1 where e: "ensureGate k n s = (g0, s1)" by fastforce
  note E = ensureGate_spec [OF inv e]
  define g1 where "g1 = g0\<lparr>g_cleanup := False\<rparr>"
  obtain b g2 where b: "(if g_running g1 < g_max g1 then isBlocked now g1 else (True, g1)) = (b, g2)" by fastforce
  have g2: "g_running g2 = g_running g0" "g_queue g2 = g_queue g0" "g_max g2 = n"
    using b E(4) by (auto simp: g1_def split: if_splits dest: isBlocked_projections)
  have r0: "held s1 k = g_running g0" using E(1,3) by (simp add: sem_inv_def gate_running_def)
  have h1: "held s1 = held s" using E(5) by (simp add: held_def fun_eq_iff)
  have m1: "gate_max s1 k' = (if k' = k then n else gate_max s k')" for k'
    using E(3,4,7) by (auto simp: gate_max_def)
  have cap: ?thesis if
    "sem_inv s' \<and> sem_track s' = sem_track s1 + (case r of Waiting w \<Rightarrow> {#w#} | _ \<Rightarrow> {#})"
    "\<And>k'. gate_max s' k' = gate_max s1 k'"
    "\<And>k'. held s' k' = held s1 k' \<or> (k' = k \<and> held s' k \<le> n)"
  proof (intro conjI allI impI)
    show "sem_inv s'" using that(1) by simp
    show "sem_track s' = sem_track s + (case r of Waiting w \<Rightarrow> {#w#} | _ \<Rightarrow> {#})"
      using that(1) by (simp add: E(2))
    fix c k' assume c: "(k' = k \<longrightarrow> (case mc of Some n \<Rightarrow> n \<le> c | None \<Rightarrow> True)) \<and> gate_max s k' \<le> c \<and> held s k' \<le> c"
    show "gate_max s' k' \<le> c" using that(2) [of k'] m1 [of k'] c mc by (auto split: if_splits)
    show "held s' k' \<le> c" using that(3) [of k'] h1 c mc by auto
  qed
  consider (grant) "\<not> b" | (full) "b" "int (length (g_queue g2)) \<ge> mq" | (wait) "b" "\<not> int (length (g_queue g2)) \<ge> mq"
    by blast
  then show ?thesis
  proof cases
    case grant
    have lt: "g_running g0 < n" using b grant E(4) by (auto simp: g1_def split: if_splits)
    define g' where "g' = g2\<lparr>g_running := g_running g2 + 1\<rparr>"
    have r: "r = GrantedNow (sm_next s1)" and s': "s' = (put_gate k g' s1)\<lparr>
        sm_tokens := sm_tokens s1 @ [(sm_next s1, k)], sm_next := sm_next s1 + 1\<rparr>"
      using a False mc e b grant unfolding sem_acquire_def g'_def g1_def by simp_all
    have i: "sem_inv s' \<and> sem_track s' = sem_track s1 + mset [sm_next s1 + 1..<sm_next s1 + 1 + 0]"
      by (rule inv_effect [OF E(1,3), where g' = g' and ws = "[]"]) (simp_all add: s' put_gate_def g'_def g2)
    show ?thesis
    proof (rule cap)
      show "sem_inv s' \<and> sem_track s' = sem_track s1 + (case r of Waiting w \<Rightarrow> {#w#} | _ \<Rightarrow> {#})"
        using i by (simp add: r)
      show "gate_max s' k' = gate_max s1 k'" for k'
        using E(3,4) by (simp add: s' put_gate_def gate_max_def g'_def g2)
      show "held s' k' = held s1 k' \<or> (k' = k \<and> held s' k \<le> n)" for k'
        using lt r0 by (auto simp: s' held_def)
    qed
  next
    case full
    have r: "r = QueueFull" and s': "s' = put_gate k g2 s1"
      using a False mc e b full unfolding sem_acquire_def g1_def by simp_all
    have i: "sem_inv s' \<and> sem_track s' = sem_track s1 + mset [sm_next s1 + 0..<sm_next s1 + 0 + 0]"
      by (rule inv_effect [OF E(1,3), where g' = g2 and ws = "[]"]) (simp_all add: s' put_gate_def g2)
    show ?thesis
      by (rule cap) (use i E(3,4) in \<open>auto simp: r s' put_gate_def gate_max_def held_def g2\<close>)
  next
    case wait
    define g' where "g' = g2\<lparr>g_queue := g_queue g2 @ [sm_next s1]\<rparr>"
    have r: "r = Waiting (sm_next s1)" and s': "s' = (put_gate k g' s1)\<lparr>sm_next := sm_next s1 + 1\<rparr>"
      using a False mc e b wait unfolding sem_acquire_def g'_def g1_def by simp_all
    have i: "sem_inv s' \<and> sem_track s' = sem_track s1 + mset [sm_next s1 + 0..<sm_next s1 + 0 + 1]"
      by (rule inv_effect [OF E(1,3), where g' = g' and ws = "[]"]) (simp_all add: s' put_gate_def g'_def g2)
    show ?thesis
      by (rule cap) (use i E(3,4) in \<open>auto simp: r s' put_gate_def gate_max_def held_def g'_def g2\<close>)
  qed
qed

lemma sem_step_kept: "case e of SemAcquire now k mc mq ab \<Rightarrow> True | _ \<Rightarrow> kept s (sem_step s e)"
  by (cases e) (simp_all add: sem_release_kept expire_kept markBlocked_kept block_timer_kept cleanup_timer_kept isFull_kept)

lemma sem_step_track:
  assumes "sem_inv s"
  shows "sem_inv (sem_step s e) \<and> sem_track (sem_step s e) = sem_track s + sem_new_waiter s e"
proof (cases e)
  case (SemAcquire now k mc mq ab)
  then show ?thesis using acquire_spec [OF assms, of now k mc mq ab] by (cases "sem_acquire now k mc mq ab s") auto
qed (use sem_step_kept [where s = s and e = e] assms in \<open>auto simp: kept_def\<close>)

interpretation slots: machine sem_step sem_inv
  by unfold_locales (simp add: sem_step_track)

lemma new_sem_inv: "sem_inv new_sem" "sem_track new_sem = {#}"
  by (simp_all add: sem_inv_def new_sem_def held_def gate_running_def sem_track_def)

lemma run_track: "sem_inv s \<Longrightarrow> sem_track (run sem_step s es) = sem_track s + sem_issued s es"
proof (induction es arbitrary: s)
  case (Cons e es)
  have "sem_track (run sem_step s (e # es)) = sem_track (sem_step s e) + sem_issued (sem_step s e) es"
    using Cons sem_step_track by simp
  then show ?case using sem_step_track [OF Cons.prems, of e] by (simp add: ac_simps)
qed simp

section \<open>Properties\<close>

text \<open>C26. Slot accounting: along any run of acquires, releases, timeouts, aborts, blocks and timers, the running
  count of every gate is the number of its releases not called yet; every caller that was made to wait
  is either in exactly one queue or was settled exactly once, and nobody else is settled.\<close>

theorem semaphore_accounts_for_every_slot:
  "held (run sem_step new_sem es) k = gate_running (run sem_step new_sem es) k
   \<and> sem_track (run sem_step new_sem es) = sem_issued new_sem es
   \<and> count (sem_issued new_sem es) w \<le> 1"
  using slots.run_inv [OF new_sem_inv(1), of es] run_track [OF new_sem_inv(1), of es]
  by (simp add: sem_inv_def new_sem_inv(2))

definition caps_event :: "string \<Rightarrow> int \<Rightarrow> sem_event \<Rightarrow> bool" where
  "caps_event k c e = (case e of
     SemAcquire now k' mc mq ab \<Rightarrow> k' \<noteq> k \<or> (case mc of None \<Rightarrow> True | Some n \<Rightarrow> n \<le> c)
   | _ \<Rightarrow> True)"

text \<open>Mutual exclusion up to the cap: while every capped acquire of an account uses a limit of at most \<open>c\<close>, no more
  than \<open>c\<close> of its releases are outstanding at any time, whatever else happens, blocks and their expiry
  included.\<close>

theorem semaphore_never_exceeds_cap:
  assumes "1 \<le> c" and "\<forall>e\<in>set es. caps_event k c e"
  shows "held (run sem_step new_sem es) k \<le> c"
proof -
  have "sem_inv s \<and> gate_max s k \<le> c \<and> held s k \<le> c \<Longrightarrow> held (run sem_step s es) k \<le> c" for s
    using assms(2)
  proof (induction es arbitrary: s)
    case (Cons e es)
    have "gate_max (sem_step s e) k \<le> c \<and> held (sem_step s e) k \<le> c"
    proof (cases e)
      case (SemAcquire now k' mc mq ab)
      then show ?thesis
        using acquire_spec [of s now k' mc mq ab] Cons.prems
        by (cases "sem_acquire now k' mc mq ab s") (auto simp: caps_event_def)
    qed (use sem_step_kept [where s = s and e = e] Cons.prems assms(1) in \<open>auto simp: kept_def\<close>)
    then show ?case using Cons.prems sem_step_track by (auto intro!: Cons.IH)
  qed simp
  from this [of new_sem] show ?thesis
    using assms(1) new_sem_inv(1) by (simp add: new_sem_def gate_max_def held_def)
qed

definition ex_sem_events :: "sem_event list" where
  "ex_sem_events = [SemAcquire 1 ''a:1'' (Some 2) 20 False, SemMark 2 ''a:1'' (Num 100),
     SemAcquire 3 ''a:1'' (Some 2) 20 False, SemAcquire 4 ''a:1'' (Some 2) 20 False]"

lemma semaphore_never_exceeds_cap_witness:
  "held (run sem_step new_sem ex_sem_events) ''a:1'' \<le> 2"
  by (rule semaphore_never_exceeds_cap) (simp_all add: ex_sem_events_def caps_event_def)

text \<open>The wait queue is first-in-first-out only among the waiters: \<open>acquire\<close> looks at the slots and not at the
  queue. When a block has expired and its timer has not fired yet, or the cap was raised, a newcomer takes the free slot ahead of
  everyone who waits, and the queue stays as it was.\<close>

theorem newcomer_overtakes_waiters:
  assumes gate: "jm_get (sm_gates s) k = Some g" and free: "g_running g < n"
    and unblocked: "truthy (g_blockedUntil g) \<longrightarrow> the (g_blockedUntil g) \<le> now"
  shows "fst (sem_acquire now k (Some n) mq False s) = (if n \<le> 0 then Bypassed else GrantedNow (sm_next s))
     \<and> map_option g_queue (jm_get (sm_gates (snd (sem_acquire now k (Some n) mq False s))) k) = Some (g_queue g)
     \<and> sm_settled (snd (sem_acquire now k (Some n) mq False s)) = sm_settled s"
  using assms
  by (auto simp: sem_acquire_def isBypassed_def ensureGate_def isBlocked_def put_gate_def Let_def)

lemma newcomer_overtakes_waiters_witness:
  "fst (sem_acquire 110 ''a:1'' (Some 2) 20 False (run sem_step new_sem ex_sem_events)) = GrantedNow 3
   \<and> map_option g_queue (jm_get (sm_gates (snd (sem_acquire 110 ''a:1'' (Some 2) 20 False
        (run sem_step new_sem ex_sem_events)))) ''a:1'') = Some [1, 2]"
proof -
  have g: "jm_get (sm_gates (run sem_step new_sem ex_sem_events)) ''a:1'' =
      Some \<lparr>g_running = 1, g_max = 2, g_queue = [1, 2], g_blockedUntil = Some 102, g_cleanup = False\<rparr>"
    and n: "sm_next (run sem_step new_sem ex_sem_events) = 3" by code_simp+
  show ?thesis using newcomer_overtakes_waiters [OF g, of 2 110 20] n by simp
qed

end
