(* ===== verification/RateLimitSemaphore.thy ===== *)
theory RateLimitSemaphore
  imports Omni_Prelude
begin

text \<open>
  The per-model concurrency gates of round-robin combos, \<open>open-sse/services/rateLimitSemaphore.ts\<close>.

  As in the account semaphore a release function is a token and a waiter a number. A gate is an
  object with an identity: the timer of \<open>markRateLimited\<close> holds on to the object it marked, which may have
  left the map by then; \<open>r_detached\<close> keeps the block such an object still carries. A waiter is always in a gate of the map,
  because a gate leaves the map only with an empty queue or by the reset, which settles its waiters.
\<close>

record model_gate =
  mg_id :: nat
  mg_running :: int
  mg_max :: int
  mg_queue :: "nat list"
  mg_until :: "int option"

datatype rl_outcome = RlGranted nat | RlTimedOut | RlReset

datatype rl_result = RlNow nat | RlWaiting nat | RlQueueFull

record rl =
  r_gates :: "(string, model_gate) jsmap"
  r_detached :: "(nat, int option) jsmap"
  r_tokens :: "(nat \<times> string) list"
  r_next :: nat
  r_settled :: "(nat \<times> rl_outcome) list"

definition new_rl :: rl where
  "new_rl = \<lparr>r_gates = [], r_detached = [], r_tokens = [], r_next = 0, r_settled = []\<rparr>"

section \<open>Gates\<close>

definition store_gate :: "string \<Rightarrow> model_gate \<Rightarrow> rl \<Rightarrow> rl" where
  "store_gate m g s = s\<lparr>r_gates := jm_set m g (r_gates s)\<rparr>"

definition getGate :: "string \<Rightarrow> int \<Rightarrow> rl \<Rightarrow> model_gate \<times> rl" where
  "getGate m mc s =
     (let s1 = (if jm_has (r_gates s) m then s
                else (store_gate m \<lparr>mg_id = r_next s, mg_running = 0, mg_max = mc, mg_queue = [], mg_until = None\<rparr> s)
                  \<lparr>r_next := r_next s + 1\<rparr>);
          g = (the (jm_get (r_gates s1) m))\<lparr>mg_max := mc\<rparr>
      in (g, store_gate m g s1))"

definition isRateLimited :: "int \<Rightarrow> model_gate \<Rightarrow> bool \<times> model_gate" where
  "isRateLimited now g =
     (if \<not> truthy (mg_until g) then (False, g)
      else if now \<ge> the (mg_until g) then (False, g\<lparr>mg_until := None\<rparr>)
      else (True, g))"

text \<open>\<open>gates.delete(modelStr)\<close>\<close>

definition drop_gate :: "string \<Rightarrow> rl \<Rightarrow> rl" where
  "drop_gate m s =
     (case jm_get (r_gates s) m of
        None \<Rightarrow> s
      | Some g \<Rightarrow> s\<lparr>r_gates := jm_del m (r_gates s), r_detached := jm_set (mg_id g) (mg_until g) (r_detached s)\<rparr>)"

fun rl_gate_drain :: "int \<Rightarrow> nat list \<Rightarrow> model_gate \<Rightarrow> nat list \<times> model_gate" where
  "rl_gate_drain now [] g = ([], g\<lparr>mg_queue := []\<rparr>)"
| "rl_gate_drain now (w # ws) g =
     (if mg_running g < mg_max g
      then (case isRateLimited now g of
              (True, g') \<Rightarrow> ([], g'\<lparr>mg_queue := w # ws\<rparr>)
            | (False, g') \<Rightarrow>
                (let (gs, g'') = rl_gate_drain now ws (g'\<lparr>mg_running := mg_running g' + 1\<rparr>) in (w # gs, g'')))
      else ([], g\<lparr>mg_queue := w # ws\<rparr>))"

definition rl_grant :: "string \<Rightarrow> nat \<Rightarrow> rl \<Rightarrow> rl" where
  "rl_grant m w s = s\<lparr>r_tokens := r_tokens s @ [(r_next s, m)],
     r_settled := r_settled s @ [(w, RlGranted (r_next s))], r_next := r_next s + 1\<rparr>"

definition rl_drainQueue :: "int \<Rightarrow> string \<Rightarrow> rl \<Rightarrow> rl" where
  "rl_drainQueue now m s =
     (case jm_get (r_gates s) m of
        None \<Rightarrow> s
      | Some g \<Rightarrow>
          (let (ws, g') = rl_gate_drain now (mg_queue g) g;
               s' = fold (rl_grant m) ws (store_gate m g' s)
           in if mg_running g' = 0 \<and> mg_queue g' = [] then drop_gate m s' else s'))"

definition rl_release :: "int \<Rightarrow> nat \<Rightarrow> rl \<Rightarrow> rl" where
  "rl_release now t s0 =
     (case find (\<lambda>p. fst p = t) (r_tokens s0) of
        None \<Rightarrow> s0
      | Some (_, m) \<Rightarrow>
          (let s = s0\<lparr>r_tokens := filter (\<lambda>p. fst p \<noteq> t) (r_tokens s0)\<rparr>
           in case jm_get (r_gates s) m of
                None \<Rightarrow> s
              | Some g \<Rightarrow>
                  if mg_running g > 0
                  then (let g' = g\<lparr>mg_running := mg_running g - 1\<rparr>;
                            s' = store_gate m g' s
                        in if mg_running g' = 0 \<and> mg_queue g' = [] then drop_gate m s' else rl_drainQueue now m s')
                  else s))"

definition rl_acquire :: "int \<Rightarrow> string \<Rightarrow> int \<Rightarrow> int option \<Rightarrow> rl \<Rightarrow> rl_result \<times> rl" where
  "rl_acquire now m mc maxQueueSize s0 =
     (let (g0, s) = getGate m mc s0;
          (blocked, g) = (if mg_running g0 < mg_max g0 then isRateLimited now g0 else (True, g0))
      in if \<not> blocked
         then (RlNow (r_next s),
               (store_gate m (g\<lparr>mg_running := mg_running g + 1\<rparr>) s)\<lparr>
                  r_tokens := r_tokens s @ [(r_next s, m)], r_next := r_next s + 1\<rparr>)
         else if (case maxQueueSize of None \<Rightarrow> False | Some q \<Rightarrow> q \<ge> 0 \<and> int (length (mg_queue g)) \<ge> q)
         then (RlQueueFull,
               (let s' = store_gate m g s in if mg_running g = 0 \<and> mg_queue g = [] then drop_gate m s' else s'))
         else (RlWaiting (r_next s),
               (store_gate m (g\<lparr>mg_queue := mg_queue g @ [r_next s]\<rparr>) s)\<lparr>r_next := r_next s + 1\<rparr>))"

definition rl_timeout :: "string \<Rightarrow> nat \<Rightarrow> rl \<Rightarrow> rl" where
  "rl_timeout m w s =
     (case jm_get (r_gates s) m of
        None \<Rightarrow> s
      | Some g \<Rightarrow>
          if w \<notin> set (mg_queue g) then s
          else (store_gate m (g\<lparr>mg_queue := remove1 w (mg_queue g)\<rparr>) s)\<lparr>r_settled := r_settled s @ [(w, RlTimedOut)]\<rparr>)"

text \<open>\<open>markRateLimited\<close> looks the gate up with the default limit, which \<open>getGate\<close> stores.\<close>

definition markRateLimited :: "int \<Rightarrow> string \<Rightarrow> int \<Rightarrow> rl \<Rightarrow> rl" where
  "markRateLimited now m cooldownMs s =
     (let (g, s1) = getGate m 3 s in store_gate m (g\<lparr>mg_until := Some (now + cooldownMs)\<rparr>) s1)"

text \<open>The timer of a block, with the identity of the gate that was marked.\<close>

definition rl_block_timer :: "int \<Rightarrow> string \<Rightarrow> nat \<Rightarrow> rl \<Rightarrow> rl" where
  "rl_block_timer now m i s =
     (case jm_get (r_gates s) m of
        Some g \<Rightarrow>
          if mg_id g = i
          then (if truthy (mg_until g) \<and> now \<ge> the (mg_until g)
                then rl_drainQueue now m (store_gate m (g\<lparr>mg_until := None\<rparr>) s) else s)
          else (case jm_get (r_detached s) i of
                  Some u \<Rightarrow> if truthy u \<and> now \<ge> the u
                            then rl_drainQueue now m (s\<lparr>r_detached := jm_set i None (r_detached s)\<rparr>) else s
                | None \<Rightarrow> s)
      | None \<Rightarrow> s)"

record rl_stats =
  rs_running :: int
  rs_queued :: int
  rs_max :: int
  rs_until :: "int option"

definition rl_getStats :: "rl \<Rightarrow> (string \<times> rl_stats) list" where
  "rl_getStats s = map (\<lambda>(m, g). (m, \<lparr>rs_running = mg_running g, rs_queued = int (length (mg_queue g)),
     rs_max = mg_max g, rs_until = (if truthy (mg_until g) then mg_until g else None)\<rparr>)) (r_gates s)"

definition rl_resetAll :: "rl \<Rightarrow> rl" where
  "rl_resetAll s = s\<lparr>r_gates := [],
     r_settled := r_settled s @ concat (map (\<lambda>(m, g). map (\<lambda>w. (w, RlReset)) (mg_queue g)) (r_gates s))\<rparr>"

section \<open>Events and the invariant\<close>

datatype rl_event =
    RlAcquire int string int "int option"
  | RlRelease int nat
  | RlTimeout string nat
  | RlMark int string int
  | RlBlockTimer int string nat

fun rl_step :: "rl \<Rightarrow> rl_event \<Rightarrow> rl" where
  "rl_step s (RlAcquire now m mc mq) = snd (rl_acquire now m mc mq s)"
| "rl_step s (RlRelease now t) = rl_release now t s"
| "rl_step s (RlTimeout m w) = rl_timeout m w s"
| "rl_step s (RlMark now m c) = markRateLimited now m c s"
| "rl_step s (RlBlockTimer now m i) = rl_block_timer now m i s"

definition rl_held :: "rl \<Rightarrow> string \<Rightarrow> int" where
  "rl_held s m = int (length (filter (\<lambda>p. snd p = m) (r_tokens s)))"

definition rl_running :: "rl \<Rightarrow> string \<Rightarrow> int" where
  "rl_running s m = (case jm_get (r_gates s) m of None \<Rightarrow> 0 | Some g \<Rightarrow> mg_running g)"

definition rl_max :: "rl \<Rightarrow> string \<Rightarrow> int" where
  "rl_max s m = (case jm_get (r_gates s) m of None \<Rightarrow> 0 | Some g \<Rightarrow> mg_max g)"

definition rl_inv :: "rl \<Rightarrow> bool" where
  "rl_inv s \<longleftrightarrow> jm_ok (r_gates s) \<and> distinct (map fst (r_tokens s)) \<and>
     (\<forall>p\<in>set (r_tokens s). fst p < r_next s) \<and> (\<forall>m. rl_held s m = rl_running s m)"

text \<open>An operation on one gate that hands out \<open>n\<close> tokens.\<close>

lemma rl_update:
  assumes inv: "rl_inv s" and r: "rl_running s m + int n = mg_running g'"
    and gates: "r_gates s' = jm_set m g' (r_gates s)"
    and tokens: "r_tokens s' = r_tokens s @ map (\<lambda>i. (i, m)) [j..<j + n]"
    and j: "r_next s \<le> j" "j + n \<le> r_next s'"
  shows "rl_inv s'"
proof -
  have fr: "\<forall>p\<in>set (r_tokens s). fst p < r_next s" using inv by (simp add: rl_inv_def)
  then have "distinct (map fst (r_tokens s'))" "\<forall>p\<in>set (r_tokens s'). fst p < r_next s'"
    using inv j by (fastforce simp: rl_inv_def tokens o_def)+
  moreover have "rl_held s' k = rl_held s k + (if k = m then int n else 0)" for k
    by (simp add: rl_held_def tokens filter_map o_def)
  ultimately show ?thesis using inv r by (auto simp: rl_inv_def gates rl_running_def)
qed

lemma rl_drop:
  assumes inv: "rl_inv s" and z: "rl_running s m = 0"
  shows "rl_inv (drop_gate m s)"
proof (cases "jm_get (r_gates s) m")
  case (Some g)
  then show ?thesis using assms by (auto simp: rl_inv_def drop_gate_def rl_running_def rl_held_def)
qed (simp add: drop_gate_def inv)

text \<open>What every operation keeps, for a cap \<open>c\<close> of at least the default limit; \<open>P\<close> restricts an acquire.\<close>

definition rl_kept :: "(string \<Rightarrow> int \<Rightarrow> bool) \<Rightarrow> rl \<Rightarrow> rl \<Rightarrow> bool" where
  "rl_kept P s s' \<longleftrightarrow> (rl_inv s \<longrightarrow> rl_inv s' \<and>
     (\<forall>c m. P m c \<and> rl_max s m \<le> c \<and> rl_held s m \<le> c \<longrightarrow> rl_max s' m \<le> c \<and> rl_held s' m \<le> c))"

lemma rl_kept_refl [simp]: "rl_kept P s s"
  by (simp add: rl_kept_def)

lemma rl_kept_trans: "rl_kept P s s' \<Longrightarrow> rl_kept P s' s'' \<Longrightarrow> rl_kept P s s''"
  by (auto simp: rl_kept_def)

lemma rl_update_kept:
  assumes gate: "jm_get (r_gates s) m = Some g"
    and r: "mg_running g' = mg_running g + int n"
    and gates: "r_gates s' = jm_set m g' (r_gates s)"
    and tokens: "r_tokens s' = r_tokens s @ map (\<lambda>i. (i, m)) [j..<j + n]"
    and j: "r_next s \<le> j" "j + n \<le> r_next s'"
    and cap: "mg_max g' = mg_max g" "n = 0 \<or> mg_running g' \<le> mg_max g"
  shows "rl_kept P s s'"
  unfolding rl_kept_def
proof (intro impI conjI allI)
  assume inv: "rl_inv s"
  have run: "rl_running s m = mg_running g" using gate by (simp add: rl_running_def)
  show i: "rl_inv s'" using rl_update [OF inv _ gates tokens j] r run by simp
  fix c k assume c: "P k c \<and> rl_max s k \<le> c \<and> rl_held s k \<le> c"
  show "rl_max s' k \<le> c" using c gate cap by (auto simp: rl_max_def gates)
  show "rl_held s' k \<le> c"
  proof (cases "k = m")
    case True
    then have "rl_held s k = mg_running g" "rl_held s' k = mg_running g'"
      using inv i run by (simp_all add: rl_inv_def rl_running_def gates)
    then show ?thesis using c cap r gate True by (auto simp: rl_max_def)
  next
    case False
    then show ?thesis using c by (simp add: rl_held_def tokens filter_map o_def)
  qed
qed

lemma store_gate_kept:
  assumes "jm_get (r_gates s) m = Some g" and "mg_running g' = mg_running g" and "mg_max g' = mg_max g"
  shows "rl_kept P s (store_gate m g' s)"
  by (rule rl_update_kept [OF assms(1), where g' = g' and n = 0 and j = "r_next s"])
    (simp_all add: store_gate_def assms)

lemma drop_gate_kept:
  assumes "jm_get (r_gates s) m = Some g" and "mg_running g = 0" and "\<And>m c. P m c \<Longrightarrow> 0 \<le> c"
  shows "rl_kept P s (drop_gate m s)"
  unfolding rl_kept_def
proof (intro impI conjI allI)
  assume inv: "rl_inv s"
  show "rl_inv (drop_gate m s)" using inv assms by (intro rl_drop) (simp_all add: rl_running_def)
  fix c k assume c: "P k c \<and> rl_max s k \<le> c \<and> rl_held s k \<le> c"
  then have "0 \<le> c" using assms(3) by blast
  then show "rl_max (drop_gate m s) k \<le> c" "rl_held (drop_gate m s) k \<le> c"
    using c assms(1) by (auto simp: rl_max_def rl_held_def drop_gate_def split: option.splits)
qed

lemma isRateLimited_projections:
  assumes "isRateLimited now g = (b, g')"
  shows "mg_running g' = mg_running g" "mg_queue g' = mg_queue g" "mg_max g' = mg_max g" "mg_id g' = mg_id g"
  using assms by (auto simp: isRateLimited_def split: if_splits)

lemma rl_gate_drain_spec:
  "rl_gate_drain now q g = (ws, g') \<Longrightarrow>
   q = ws @ mg_queue g' \<and> mg_running g' = mg_running g + int (length ws) \<and> mg_max g' = mg_max g \<and>
   (ws = [] \<or> mg_running g' \<le> mg_max g)"
proof (induction now q g arbitrary: ws g' rule: rl_gate_drain.induct)
  case (2 now w q g)
  obtain b h where b: "isRateLimited now g = (b, h)" by fastforce
  show ?case
  proof (cases "mg_running g < mg_max g \<and> \<not> b")
    case True
    obtain vs f where r: "rl_gate_drain now q (h\<lparr>mg_running := mg_running h + 1\<rparr>) = (vs, f)" by fastforce
    have "ws = w # vs" "g' = f" using "2.prems" True b r by simp_all
    then show ?thesis
      using "2.IH" [OF _ b [symmetric] _ r] True isRateLimited_projections [OF b] by auto
  next
    case False
    then show ?thesis using "2.prems" b isRateLimited_projections [OF b] by (auto split: if_splits bool.splits)
  qed
qed simp

lemma fold_rl_grant:
  "r_gates (fold (rl_grant m) ws s) = r_gates s"
  "r_next (fold (rl_grant m) ws s) = r_next s + length ws"
  "r_tokens (fold (rl_grant m) ws s) = r_tokens s @ map (\<lambda>i. (i, m)) [r_next s..<r_next s + length ws]"
  "map fst (r_settled (fold (rl_grant m) ws s)) = map fst (r_settled s) @ ws"
  by (induction ws arbitrary: s) (simp_all add: rl_grant_def upt_rec)

lemma rl_drainQueue_kept:
  assumes P: "\<And>m c. P m c \<Longrightarrow> 0 \<le> c"
  shows "rl_kept P s (rl_drainQueue now m s)"
proof (cases "jm_get (r_gates s) m")
  case (Some g)
  obtain ws g' where d: "rl_gate_drain now (mg_queue g) g = (ws, g')" by fastforce
  note G = rl_gate_drain_spec [OF d]
  let ?s = "fold (rl_grant m) ws (store_gate m g' s)"
  have k: "rl_kept P s ?s"
    by (rule rl_update_kept [OF Some, where g' = g' and n = "length ws" and j = "r_next s"])
      (use G in \<open>auto simp: fold_rl_grant store_gate_def\<close>)
  have "jm_get (r_gates ?s) m = Some g'" by (simp add: fold_rl_grant store_gate_def)
  then have "mg_running g' = 0 \<Longrightarrow> rl_kept P s (drop_gate m ?s)"
    using k drop_gate_kept P by (blast intro: rl_kept_trans)
  then show ?thesis unfolding rl_drainQueue_def using Some d k by (simp add: Let_def)
qed (simp add: rl_drainQueue_def)

lemma rl_spend_kept:
  assumes tok: "(t, m) \<in> set (r_tokens s)" and gate: "jm_get (r_gates s) m = Some g" and pos: "0 < mg_running g"
  shows "rl_kept P s (store_gate m (g\<lparr>mg_running := mg_running g - 1\<rparr>)
      (s\<lparr>r_tokens := filter (\<lambda>p. fst p \<noteq> t) (r_tokens s)\<rparr>))" (is "rl_kept P s ?s")
  unfolding rl_kept_def
proof (intro impI conjI allI)
  assume inv: "rl_inv s"
  have h: "rl_held ?s k = rl_held s k - (if k = m then 1 else 0)" for k
    using count_without [OF _ tok, of k] inv by (simp add: rl_inv_def rl_held_def store_gate_def)
  have "distinct (map fst (filter (\<lambda>p. fst p \<noteq> t) (r_tokens s)))"
    using inv by (simp add: rl_inv_def distinct_map_filter)
  then show "rl_inv ?s"
    using inv h gate unfolding rl_inv_def by (auto simp: store_gate_def rl_running_def)
  fix c k assume c: "P k c \<and> rl_max s k \<le> c \<and> rl_held s k \<le> c"
  show "rl_held ?s k \<le> c" using h [of k] c by (auto split: if_splits)
  show "rl_max ?s k \<le> c" using c gate by (auto simp: rl_max_def store_gate_def)
qed

lemma rl_release_kept:
  assumes P: "\<And>m c. P m c \<Longrightarrow> 0 \<le> c"
  shows "rl_kept P s (rl_release now t s)"
proof (cases "rl_inv s")
  case inv: True
  show ?thesis
  proof (cases "find (\<lambda>p. fst p = t) (r_tokens s)")
    case (Some p)
    obtain m where p: "p = (t, m)" and tm: "(t, m) \<in> set (r_tokens s)"
      using find_by_key [OF Some] by (cases p) auto
    have "0 < rl_held s m" using tm by (force simp: rl_held_def filter_empty_conv)
    then have "0 < rl_running s m" using inv by (simp add: rl_inv_def)
    then obtain g where g: "jm_get (r_gates s) m = Some g" "0 < mg_running g"
      by (auto simp: rl_running_def split: option.splits)
    let ?g = "g\<lparr>mg_running := mg_running g - 1\<rparr>"
    let ?s = "store_gate m ?g (s\<lparr>r_tokens := filter (\<lambda>p. fst p \<noteq> t) (r_tokens s)\<rparr>)"
    have k: "rl_kept P s ?s" by (rule rl_spend_kept [OF tm g])
    have "jm_get (r_gates ?s) m = Some ?g" by (simp add: store_gate_def)
    then have "mg_running ?g = 0 \<Longrightarrow> rl_kept P s (drop_gate m ?s)"
      using k drop_gate_kept P by (blast intro: rl_kept_trans)
    moreover have "rl_kept P s (rl_drainQueue now m ?s)" using k rl_drainQueue_kept P by (blast intro: rl_kept_trans)
    ultimately show ?thesis using Some p g by (simp add: rl_release_def Let_def)
  qed (simp add: rl_release_def)
qed (simp add: rl_kept_def)

lemma rl_timeout_kept: "rl_kept P s (rl_timeout m w s)"
proof (cases "jm_get (r_gates s) m")
  case (Some g)
  show ?thesis
  proof (cases "w \<in> set (mg_queue g)")
    case True
    show ?thesis
      by (rule rl_update_kept [OF Some, where g' = "g\<lparr>mg_queue := remove1 w (mg_queue g)\<rparr>" and n = 0 and j = "r_next s"])
        (use Some True in \<open>simp_all add: rl_timeout_def store_gate_def\<close>)
  qed (use Some in \<open>simp add: rl_timeout_def\<close>)
qed (simp add: rl_timeout_def)

text \<open>\<open>getGate\<close> stores the limit it is given.\<close>

lemma getGate_kept:
  assumes e: "getGate m mc s = (g, s1)" and P: "\<And>c. P m c \<Longrightarrow> mc \<le> c \<and> 0 \<le> c"
  shows "rl_kept P s s1" "jm_get (r_gates s1) m = Some g" "mg_max g = mc"
proof -
  show g: "jm_get (r_gates s1) m = Some g" "mg_max g = mc"
    using e by (auto simp: getGate_def store_gate_def Let_def split: if_splits)
  have other: "jm_get (r_gates s1) k = jm_get (r_gates s) k" if "k \<noteq> m" for k
    using e that by (auto simp: getGate_def store_gate_def Let_def split: if_splits)
  have tok: "r_tokens s1 = r_tokens s" "r_next s \<le> r_next s1"
    using e by (auto simp: getGate_def store_gate_def Let_def split: if_splits)
  have r: "rl_running s1 = rl_running s"
  proof
    show "rl_running s1 k = rl_running s k" for k
      using e by (cases "jm_get (r_gates s) m")
        (auto simp: getGate_def store_gate_def Let_def rl_running_def jm_has_def)
  qed
  have ok: "jm_ok (r_gates s) \<Longrightarrow> jm_ok (r_gates s1)"
    using e by (auto simp: getGate_def store_gate_def Let_def split: if_splits)
  show "rl_kept P s s1"
    unfolding rl_kept_def
  proof (intro impI conjI allI)
    assume inv: "rl_inv s"
    then show "rl_inv s1" using ok r tok by (fastforce simp: rl_inv_def rl_held_def)
    fix c k assume c: "P k c \<and> rl_max s k \<le> c \<and> rl_held s k \<le> c"
    then show "rl_held s1 k \<le> c" by (simp add: rl_held_def tok)
    show "rl_max s1 k \<le> c" using c P [of c] g other by (cases "k = m") (auto simp: rl_max_def)
  qed
qed

lemma rl_acquire_kept:
  assumes P: "\<And>m' c. P m' c \<Longrightarrow> 0 \<le> c" "\<And>c. P m c \<Longrightarrow> mc \<le> c"
  shows "rl_kept P s (snd (rl_acquire now m mc mq s))"
proof -
  obtain g0 s1 where e: "getGate m mc s = (g0, s1)" by fastforce
  have G: "rl_kept P s s1" "jm_get (r_gates s1) m = Some g0" "mg_max g0 = mc"
    using getGate_kept [OF e, of P] P by auto
  obtain b g where b: "(if mg_running g0 < mg_max g0 then isRateLimited now g0 else (True, g0)) = (b, g)" by fastforce
  have g: "mg_running g = mg_running g0" "mg_max g = mg_max g0" and lt: "\<not> b \<Longrightarrow> mg_running g0 < mg_max g0"
    using b by (auto split: if_splits dest: isRateLimited_projections)
  let ?now = "(store_gate m (g\<lparr>mg_running := mg_running g + 1\<rparr>) s1)\<lparr>
      r_tokens := r_tokens s1 @ [(r_next s1, m)], r_next := r_next s1 + 1\<rparr>"
  let ?full = "store_gate m g s1"
  let ?wait = "(store_gate m (g\<lparr>mg_queue := mg_queue g @ [r_next s1]\<rparr>) s1)\<lparr>r_next := r_next s1 + 1\<rparr>"
  have now: "rl_kept P s1 ?now" if "\<not> b"
    by (rule rl_update_kept [OF G(2), where g' = "g\<lparr>mg_running := mg_running g + 1\<rparr>" and n = 1 and j = "r_next s1"])
      (use g lt that in \<open>simp_all add: store_gate_def\<close>)
  have full: "rl_kept P s1 ?full" by (rule store_gate_kept [OF G(2) g])
  have drop: "rl_kept P s1 (drop_gate m ?full)" if "mg_running g = 0"
    using full drop_gate_kept [of ?full m g P] that P(1) by (auto simp: store_gate_def intro: rl_kept_trans)
  have wait: "rl_kept P s1 ?wait"
    by (rule rl_update_kept [OF G(2), where g' = "g\<lparr>mg_queue := mg_queue g @ [r_next s1]\<rparr>" and n = 0 and j = "r_next s1"])
      (use g in \<open>simp_all add: store_gate_def\<close>)
  have "rl_kept P s1 (snd (rl_acquire now m mc mq s))"
    unfolding rl_acquire_def using e b now full drop wait by (simp add: Let_def)
  with G(1) show ?thesis by (rule rl_kept_trans)
qed

lemma markRateLimited_kept:
  assumes P: "\<And>c. P m c \<Longrightarrow> 3 \<le> c"
  shows "rl_kept P s (markRateLimited now m cd s)"
proof -
  obtain g s1 where e: "getGate m 3 s = (g, s1)" by fastforce
  have G: "rl_kept P s s1" "jm_get (r_gates s1) m = Some g"
    using getGate_kept [OF e, of P] P by force+
  have "rl_kept P s1 (store_gate m (g\<lparr>mg_until := Some (now + cd)\<rparr>) s1)"
    by (rule store_gate_kept [OF G(2)]) simp_all
  with G(1) show ?thesis unfolding markRateLimited_def e by (simp add: rl_kept_trans)
qed

lemma rl_block_timer_kept:
  assumes P: "\<And>m c. P m c \<Longrightarrow> 0 \<le> c"
  shows "rl_kept P s (rl_block_timer now m i s)"
proof -
  have dr: "rl_kept P s (rl_drainQueue now m s')" if "rl_kept P s s'" for s'
    using that rl_drainQueue_kept [of P s' now m] P by (blast intro: rl_kept_trans)
  have d: "rl_kept P s (s\<lparr>r_detached := x\<rparr>)" for x
    by (auto simp: rl_kept_def rl_inv_def rl_held_def rl_running_def rl_max_def)
  show ?thesis
  proof (cases "jm_get (r_gates s) m")
    case (Some g)
    have "rl_kept P s (store_gate m (g\<lparr>mg_until := None\<rparr>) s)" by (rule store_gate_kept [OF Some]) simp_all
    then show ?thesis
      unfolding rl_block_timer_def using Some dr d by (simp split: option.split)
  qed (simp add: rl_block_timer_def)
qed

text \<open>The events a cap is compatible with.\<close>

definition rl_caps_event :: "string \<Rightarrow> int \<Rightarrow> rl_event \<Rightarrow> bool" where
  "rl_caps_event m c e = (case e of
     RlAcquire now m' mc mq \<Rightarrow> m' \<noteq> m \<or> mc \<le> c | RlMark now m' cd \<Rightarrow> m' \<noteq> m \<or> 3 \<le> c | _ \<Rightarrow> True)"

lemma rl_step_kept: "rl_kept (\<lambda>m c. 0 \<le> c \<and> rl_caps_event m c e) s (rl_step s e)"
proof (cases e)
  case (RlAcquire now m mc mq)
  show ?thesis unfolding RlAcquire rl_step.simps by (rule rl_acquire_kept) (simp_all add: rl_caps_event_def)
next
  case (RlMark now m cd)
  show ?thesis unfolding RlMark rl_step.simps by (rule markRateLimited_kept) (simp add: rl_caps_event_def)
qed (auto intro!: rl_release_kept rl_timeout_kept rl_block_timer_kept)

interpretation models: machine rl_step rl_inv
  by unfold_locales (use rl_step_kept in \<open>simp add: rl_kept_def\<close>)

lemma new_rl_inv: "rl_inv new_rl"
  by (simp add: rl_inv_def new_rl_def rl_held_def rl_running_def)

section \<open>Properties\<close>

text \<open>Along any run the running count of a model is the number of its releases not called yet, and it stays
  within every bound that covers the limits of the acquires and, for a model that is marked, the default
  limit of three.\<close>

theorem rl_cap_holds_from_default_up:
  assumes "0 \<le> c" and "\<forall>e\<in>set es. rl_caps_event m c e"
  shows "rl_held (run rl_step new_rl es) m = rl_running (run rl_step new_rl es) m
    \<and> rl_held (run rl_step new_rl es) m \<le> c"
proof -
  have "rl_inv s \<and> rl_max s m \<le> c \<and> rl_held s m \<le> c \<Longrightarrow> rl_held (run rl_step s es) m \<le> c" for s
    using assms(2)
  proof (induction es arbitrary: s)
    case (Cons e es)
    then have "rl_inv (rl_step s e) \<and> rl_max (rl_step s e) m \<le> c \<and> rl_held (rl_step s e) m \<le> c"
      using rl_step_kept [of e s] assms(1) by (simp add: rl_kept_def)
    then show ?case using Cons by simp
  qed simp
  from this [of new_rl] have "rl_held (run rl_step new_rl es) m \<le> c"
    using assms(1) new_rl_inv by (simp add: new_rl_def rl_max_def rl_held_def)
  then show ?thesis using models.run_inv [OF new_rl_inv, of es] by (simp add: rl_inv_def)
qed

lemma rl_cap_holds_from_default_up_witness:
  "rl_held (run rl_step new_rl [RlAcquire 1 ''gpt'' 2 None, RlMark 2 ''gpt'' 50, RlAcquire 3 ''gpt'' 3 (Some 4),
      RlBlockTimer 120 ''gpt'' 0]) ''gpt''
     = rl_running (run rl_step new_rl [RlAcquire 1 ''gpt'' 2 None, RlMark 2 ''gpt'' 50, RlAcquire 3 ''gpt'' 3 (Some 4),
      RlBlockTimer 120 ''gpt'' 0]) ''gpt''
   \<and> rl_held (run rl_step new_rl [RlAcquire 1 ''gpt'' 2 None, RlMark 2 ''gpt'' 50, RlAcquire 3 ''gpt'' 3 (Some 4),
      RlBlockTimer 120 ''gpt'' 0]) ''gpt'' \<le> 3"
  by (rule rl_cap_holds_from_default_up) (simp_all add: rl_caps_event_def)

text \<open>A pause does not survive the last running request: when the only running request of a rate-limited model
  ends and nobody waits, its gate is deleted with the block, and the next acquire is granted at once although
  the pause has not expired.\<close>

theorem pause_lost_with_last_release:
  assumes gate: "jm_get (r_gates s) m = Some g" and one: "mg_running g = 1" "mg_queue g = []"
    and tok: "find (\<lambda>p. fst p = t) (r_tokens s) = Some (t, m)" and mc: "0 < mc"
    and paused: "mg_until g = Some u" "now < u" "u \<noteq> 0"
  shows "fst (isRateLimited now g) \<and> fst (rl_acquire now m mc mq (rl_release now t s)) = RlNow (r_next s + 1)"
  using assms
  by (simp add: rl_release_def store_gate_def drop_gate_def rl_acquire_def getGate_def isRateLimited_def jm_has_def Let_def)

lemma pause_lost_with_last_release_witness:
  "fst (rl_acquire 30 ''gpt'' 1 None (rl_release 20 1 (run rl_step new_rl [RlAcquire 1 ''gpt'' 1 None, RlMark 10 ''gpt'' 60000])))
     = RlNow 3
   \<and> fst (rl_acquire 20 ''gpt'' 1 None (rl_release 20 1 (run rl_step new_rl [RlAcquire 1 ''gpt'' 1 None, RlMark 10 ''gpt'' 60000])))
     = RlNow 3"
proof -
  let ?s = "run rl_step new_rl [RlAcquire 1 ''gpt'' 1 None, RlMark 10 ''gpt'' 60000]"
  have g: "jm_get (r_gates ?s) ''gpt'' = Some \<lparr>mg_id = 0, mg_running = 1, mg_max = 3, mg_queue = [], mg_until = Some 60010\<rparr>"
    and t: "find (\<lambda>p. fst p = 1) (r_tokens ?s) = Some (1, ''gpt'')" and n: "r_next ?s = 2" by code_simp+
  have "fst (rl_acquire 20 ''gpt'' 1 None (rl_release 20 1 ?s)) = RlNow (r_next ?s + 1)"
    using pause_lost_with_last_release [OF g _ _ t, of 1 60010 20 None] by simp
  moreover have "fst (rl_acquire 30 ''gpt'' 1 None (rl_release 20 1 ?s)) = RlNow 3" by code_simp
  ultimately show ?thesis by (simp only: n) simp
qed

text \<open>Marking a model as rate-limited stores the default limit of three over its configured one, so the waiters
  that are let in when the pause ends may run beside as many requests as three, whatever limit every acquire of
  the model asked for.\<close>

theorem marking_overrides_the_limit:
  "(case jm_get (r_gates (markRateLimited now m cd s)) m of None \<Rightarrow> False | Some g \<Rightarrow> mg_max g = 3)
   \<and> rl_held (run rl_step new_rl [RlAcquire 1 ''gpt'' 1 None, RlAcquire 2 ''gpt'' 1 None, RlAcquire 3 ''gpt'' 1 None,
        RlMark 10 ''gpt'' 100, RlBlockTimer 160 ''gpt'' 0]) ''gpt'' = 3"
proof -
  have "rl_held (run rl_step new_rl [RlAcquire 1 ''gpt'' 1 None, RlAcquire 2 ''gpt'' 1 None, RlAcquire 3 ''gpt'' 1 None,
        RlMark 10 ''gpt'' 100, RlBlockTimer 160 ''gpt'' 0]) ''gpt'' = 3" by code_simp
  then show ?thesis by (simp add: markRateLimited_def getGate_def store_gate_def Let_def)
qed

end
