(* ===== verification/SlidingWindow.thy ===== *)
theory SlidingWindow
  imports Omni_Prelude
begin

text \<open>
  The sliding-window limiter, \<open>open-sse/services/slidingWindowLimiter.ts\<close>.

  A lease is the list of the keys and hit numbers it recorded. The arrays that \<open>tryAcquireMany\<close> filters are
  fresh copies which only the map refers to afterwards, so storing them is an update of the map.
\<close>

record rate_window =
  rw_requests :: int
  rw_windowMs :: int

record scope =
  sc_key :: string
  sc_window :: rate_window

record hit =
  h_id :: nat
  h_timestamp :: int

record limiter =
  sw_hits :: "(string, hit list) jsmap"
  sw_nextHitId :: nat

record acquire_many =
  am_allowed :: bool
  am_retryAfterMs :: int
  am_lease :: "(string \<times> nat) list option"

definition MAX_KEYS :: nat where
  "MAX_KEYS = 5000"

definition new_SlidingWindowLimiter :: limiter where
  "new_SlidingWindowLimiter = \<lparr>sw_hits = [], sw_nextHitId = 1\<rparr>"

definition sw_set :: "string \<Rightarrow> hit list \<Rightarrow> limiter \<Rightarrow> limiter" where
  "sw_set k live s =
     (if live = [] then s\<lparr>sw_hits := jm_del k (sw_hits s)\<rparr>
      else (let m = (if \<not> jm_has (sw_hits s) k \<and> length (sw_hits s) \<ge> MAX_KEYS
                     then jm_del (fst (hd (sw_hits s))) (sw_hits s) else sw_hits s)
            in s\<lparr>sw_hits := jm_set k live m\<rparr>))"

definition live_hits :: "int \<Rightarrow> scope \<Rightarrow> limiter \<Rightarrow> hit list" where
  "live_hits now sc s =
     (case jm_get (sw_hits s) (sc_key sc) of
        None \<Rightarrow> []
      | Some previous \<Rightarrow> filter (\<lambda>h. h_timestamp h > now - rw_windowMs (sc_window sc)) previous)"

definition scope_retry :: "int \<Rightarrow> scope \<Rightarrow> limiter \<Rightarrow> int" where
  "scope_retry now sc s =
     (let live = live_hits now sc s
      in if int (length live) \<ge> rw_requests (sc_window sc)
         then max 0 (h_timestamp (hd live) + rw_windowMs (sc_window sc) - now) else 0)"

text \<open>The second pass: one hit per scope, numbered in order.\<close>

fun record_hits :: "int \<Rightarrow> (string \<times> hit list) list \<Rightarrow> limiter \<Rightarrow> (string \<times> nat) list \<times> limiter" where
  "record_hits now [] s = ([], s)"
| "record_hits now ((k, live) # ps) s =
     (let h = \<lparr>h_id = sw_nextHitId s, h_timestamp = now\<rparr>;
          s1 = sw_set k (live @ [h]) (s\<lparr>sw_nextHitId := sw_nextHitId s + 1\<rparr>);
          (es, s2) = record_hits now ps s1
      in ((k, h_id h) # es, s2))"

definition tryAcquireMany :: "int \<Rightarrow> scope list \<Rightarrow> limiter \<Rightarrow> acquire_many \<times> limiter" where
  "tryAcquireMany now scopes s =
     (let active = filter (\<lambda>sc. rw_requests (sc_window sc) > 0 \<and> rw_windowMs (sc_window sc) > 0) scopes
      in if active = [] then (\<lparr>am_allowed = True, am_retryAfterMs = 0, am_lease = None\<rparr>, s)
         else (let prepared = map (\<lambda>sc. (sc_key sc, live_hits now sc s)) active;
                   retry = fold (\<lambda>sc m. max m (scope_retry now sc s)) active 0;
                   s1 = fold (\<lambda>(k, live). sw_set k live) prepared s
               in if retry > 0 then (\<lparr>am_allowed = False, am_retryAfterMs = retry, am_lease = None\<rparr>, s1)
                  else (let (es, s2) = record_hits now prepared s1
                        in (\<lparr>am_allowed = True, am_retryAfterMs = 0, am_lease = Some es\<rparr>, s2))))"

definition tryAcquire :: "int \<Rightarrow> string \<Rightarrow> rate_window \<Rightarrow> limiter \<Rightarrow> (bool \<times> int) \<times> limiter" where
  "tryAcquire now k w s =
     (let (r, s') = tryAcquireMany now [\<lparr>sc_key = k, sc_window = w\<rparr>] s in ((am_allowed r, am_retryAfterMs r), s'))"

text \<open>The body of the release function of a lease; it runs once.\<close>

definition release_entry :: "string \<times> nat \<Rightarrow> limiter \<Rightarrow> limiter" where
  "release_entry e s =
     (case jm_get (sw_hits s) (fst e) of
        None \<Rightarrow> s
      | Some live \<Rightarrow>
          (let remaining = filter (\<lambda>h. h_id h \<noteq> snd e) live
           in if remaining \<noteq> [] then s\<lparr>sw_hits := jm_set (fst e) remaining (sw_hits s)\<rparr>
              else s\<lparr>sw_hits := jm_del (fst e) (sw_hits s)\<rparr>))"

definition lease_release :: "(string \<times> nat) list \<Rightarrow> limiter \<Rightarrow> limiter" where
  "lease_release es s = fold release_entry es s"

definition sw_reset :: "string option \<Rightarrow> limiter \<Rightarrow> limiter" where
  "sw_reset k s = (case k of None \<Rightarrow> s\<lparr>sw_hits := []\<rparr> | Some x \<Rightarrow> s\<lparr>sw_hits := jm_del x (sw_hits s)\<rparr>)"

section \<open>The hits of a key\<close>

definition hits_of :: "string \<Rightarrow> limiter \<Rightarrow> hit list" where
  "hits_of k s = (case jm_get (sw_hits s) k of None \<Rightarrow> [] | Some hs \<Rightarrow> hs)"

text \<open>At most \<open>MAX_KEYS\<close> different keys are in use, so nothing is evicted.\<close>

definition few_keys :: "string set \<Rightarrow> limiter \<Rightarrow> bool" where
  "few_keys K s \<longleftrightarrow> finite K \<and> card K \<le> MAX_KEYS \<and> jm_ok (sw_hits s) \<and> set (jm_keys (sw_hits s)) \<subseteq> K"

lemma few_keys_room:
  assumes "few_keys K s" and "k \<in> K" and "\<not> jm_has (sw_hits s) k"
  shows "length (sw_hits s) < MAX_KEYS"
proof -
  have "set (jm_keys (sw_hits s)) \<subset> K" using assms by (auto simp: few_keys_def jm_has_keys)
  then have "card (set (jm_keys (sw_hits s))) < card K" using assms(1) by (auto simp: few_keys_def intro: psubset_card_mono)
  then show ?thesis using assms(1) by (simp add: few_keys_def jm_ok_def distinct_card del: set_map)
qed

lemma few_keys_subset:
  assumes "few_keys K s" and "jm_ok m" and "\<And>k. jm_get m k \<noteq> None \<Longrightarrow> k \<in> K"
  shows "few_keys K (s\<lparr>sw_hits := m\<rparr>)"
proof -
  have "set (jm_keys m) \<subseteq> K" by (simp only: set_jm_keys) (use assms(3) in auto)
  then show ?thesis using assms(1,2) by (simp add: few_keys_def)
qed

lemma few_keys_get: "few_keys K s \<Longrightarrow> jm_get (sw_hits s) k \<noteq> None \<Longrightarrow> k \<in> K"
  using set_jm_keys [of "sw_hits s"] by (auto simp: few_keys_def)

lemma sw_set_few:
  assumes "few_keys K s" and "k \<in> K"
  shows "few_keys K (sw_set k live s) \<and> hits_of k' (sw_set k live s) = (if k' = k then live else hits_of k' s)
    \<and> sw_nextHitId (sw_set k live s) = sw_nextHitId s"
proof -
  have ok: "jm_ok (sw_hits s)" using assms(1) by (simp add: few_keys_def)
  have e: "sw_set k live s = s\<lparr>sw_hits := (if live = [] then jm_del k (sw_hits s) else jm_set k live (sw_hits s))\<rparr>"
    using few_keys_room [OF assms] by (auto simp: sw_set_def Let_def)
  have "few_keys K (sw_set k live s)" unfolding e
    by (rule few_keys_subset [OF assms(1)]) (use ok assms(2) few_keys_get [OF assms(1)] in \<open>auto split: if_splits\<close>)
  then show ?thesis by (simp add: e hits_of_def)
qed

lemma fold_sw_set:
  assumes "few_keys K s" and "fst ` set ps \<subseteq> K" and "distinct (map fst ps)"
  shows "few_keys K (fold (\<lambda>(k, live). sw_set k live) ps s)"
    "hits_of k (fold (\<lambda>(k, live). sw_set k live) ps s) = (case map_of ps k of None \<Rightarrow> hits_of k s | Some live \<Rightarrow> live)"
    "sw_nextHitId (fold (\<lambda>(k, live). sw_set k live) ps s) = sw_nextHitId s"
  using assms
proof (induction ps arbitrary: s)
  case (Cons p ps)
  { case 1 show ?case using Cons.IH(1) 1 sw_set_few [of K s "fst p"] by (auto simp: case_prod_beta) }
  { case 2
    have "map_of ps (fst p) = None" using 2(3) by (simp add: map_of_eq_None_iff)
    then show ?case using Cons.IH(2) 2 sw_set_few [of K s "fst p"] by (auto simp: case_prod_beta split: option.split) }
  { case 3 show ?case using Cons.IH(3) 3 sw_set_few [of K s "fst p"] by (auto simp: case_prod_beta) }
qed simp_all

lemma record_hits_few:
  assumes "few_keys K s" and "fst ` set ps \<subseteq> K" and "distinct (map fst ps)" and "record_hits now ps s = (es, s')"
  shows "few_keys K s' \<and> map fst es = map fst ps \<and> map snd es = [sw_nextHitId s..<sw_nextHitId s + length ps]
    \<and> sw_nextHitId s' = sw_nextHitId s + length ps
    \<and> hits_of k s' = (case map_of ps k of
         None \<Rightarrow> hits_of k s
       | Some live \<Rightarrow> live @ [\<lparr>h_id = the (map_of es k), h_timestamp = now\<rparr>])"
  using assms
proof (induction ps arbitrary: s es s')
  case (Cons p ps)
  obtain k0 live where p: "p = (k0, live)" by (cases p)
  let ?h = "\<lparr>h_id = sw_nextHitId s, h_timestamp = now\<rparr>"
  let ?s1 = "sw_set k0 (live @ [?h]) (s\<lparr>sw_nextHitId := sw_nextHitId s + 1\<rparr>)"
  obtain fs s2 where r: "record_hits now ps ?s1 = (fs, s2)" by fastforce
  have e: "es = (k0, sw_nextHitId s) # fs" "s' = s2" using Cons.prems(4) p r by (simp_all add: Let_def)
  have few: "few_keys K (s\<lparr>sw_nextHitId := sw_nextHitId s + 1\<rparr>)" using Cons.prems(1) by (simp add: few_keys_def)
  have k0: "k0 \<in> K" using Cons.prems(2) p by simp
  note S = sw_set_few [OF few k0, of "live @ [?h]"]
  have none: "map_of ps k0 = None" using Cons.prems(3) p by (simp add: map_of_eq_None_iff)
  have IH: "few_keys K s2 \<and> map fst fs = map fst ps
    \<and> map snd fs = [sw_nextHitId ?s1..<sw_nextHitId ?s1 + length ps] \<and> sw_nextHitId s2 = sw_nextHitId ?s1 + length ps
    \<and> hits_of k s2 = (case map_of ps k of None \<Rightarrow> hits_of k ?s1
       | Some live \<Rightarrow> live @ [\<lparr>h_id = the (map_of fs k), h_timestamp = now\<rparr>])"
    by (rule Cons.IH [OF _ _ _ r]) (use Cons.prems S p in auto)
  have nx: "sw_nextHitId ?s1 = Suc (sw_nextHitId s)" using S by simp
  have h: "hits_of k ?s1 = (if k = k0 then live @ [?h] else hits_of k s)" using S by (simp add: hits_of_def)
  have u: "n # [Suc n..<Suc (n + l)] = [n..<Suc (n + l)]" for n l :: nat by (simp add: upt_conv_Cons del: upt_Suc)
  show ?case
    using IH none unfolding e nx h p by (auto simp: u simp del: upt_Suc split: option.split)
qed simp

text \<open>One attempt, seen from the hits of one key.\<close>

lemma scope_retry_pos:
  assumes "0 < rw_requests (sc_window sc)"
  shows "0 < scope_retry now sc s \<longleftrightarrow> rw_requests (sc_window sc) \<le> int (length (live_hits now sc s))"
proof -
  have "now - rw_windowMs (sc_window sc) < h_timestamp (hd (live_hits now sc s))" if "live_hits now sc s \<noteq> []"
  proof -
    have "hd (live_hits now sc s) \<in> set (live_hits now sc s)" using that by (rule hd_in_set)
    then show ?thesis by (auto simp: live_hits_def split: option.splits)
  qed
  moreover have "live_hits now sc s \<noteq> []" if "rw_requests (sc_window sc) \<le> int (length (live_hits now sc s))"
    using that assms by auto
  ultimately show ?thesis by (auto simp: scope_retry_def Let_def)
qed

lemma fold_max_pos: "0 < fold (\<lambda>x m. max m (f x)) xs (a::int) \<longleftrightarrow> 0 < a \<or> (\<exists>x\<in>set xs. 0 < f x)"
  by (induction xs arbitrary: a) auto

lemma live_hits_of: "live_hits now sc s = filter (\<lambda>h. h_timestamp h > now - rw_windowMs (sc_window sc)) (hits_of (sc_key sc) s)"
  by (simp add: live_hits_def hits_of_def split: option.split)

lemma map_of_scopes:
  assumes "distinct (map sc_key scs)" and "sc \<in> set scs"
  shows "map_of (map (\<lambda>sc. (sc_key sc, f sc)) scs) (sc_key sc) = Some (f sc)"
  using assms by (induction scs) (auto simp: image_iff)

abbreviation active_scopes :: "scope list \<Rightarrow> scope list" where
  "active_scopes \<equiv> filter (\<lambda>sc. rw_requests (sc_window sc) > 0 \<and> rw_windowMs (sc_window sc) > 0)"

lemma tryAcquireMany_spec:
  assumes few: "few_keys K s" and keys: "sc_key ` set scopes \<subseteq> K" and dist: "distinct (map sc_key (active_scopes scopes))"
    and t: "tryAcquireMany now scopes s = (r, s')"
  shows "few_keys K s'"
    and "am_allowed r \<longleftrightarrow> (\<forall>sc\<in>set (active_scopes scopes). int (length (live_hits now sc s)) < rw_requests (sc_window sc))"
    and "\<not> am_allowed r \<Longrightarrow> am_retryAfterMs r > 0 \<and> am_lease r = None"
    and "am_lease r = Some es \<Longrightarrow> am_allowed r \<and> map fst es = map sc_key (active_scopes scopes)"
    and "k \<notin> sc_key ` set (active_scopes scopes) \<Longrightarrow> hits_of k s' = hits_of k s"
    and "sc \<in> set (active_scopes scopes) \<Longrightarrow> hits_of (sc_key sc) s' = live_hits now sc s @
      (case am_lease r of None \<Rightarrow> [] | Some es \<Rightarrow> [\<lparr>h_id = the (map_of es (sc_key sc)), h_timestamp = now\<rparr>])"
    and "active_scopes scopes \<noteq> [] \<Longrightarrow> am_allowed r \<longleftrightarrow> am_lease r \<noteq> None"
proof -
  define act where "act = active_scopes scopes"
  define ps where "ps = map (\<lambda>sc. (sc_key sc, live_hits now sc s)) act"
  define s1 where "s1 = fold (\<lambda>(k, live). sw_set k live) ps s"
  define retry where "retry = fold (\<lambda>sc m. max m (scope_retry now sc s)) act 0"
  obtain fs s2 where rh: "record_hits now ps s1 = (fs, s2)" by fastforce
  have psK: "fst ` set ps \<subseteq> K" "distinct (map fst ps)" "map fst ps = map sc_key act"
    using keys dist by (auto simp: ps_def act_def o_def)
  note F = fold_sw_set [OF few psK(1,2), folded s1_def]
  note R = record_hits_few [OF F(1) psK(1,2) rh]
  have pos: "retry > 0 \<longleftrightarrow> \<not> (\<forall>sc\<in>set act. int (length (live_hits now sc s)) < rw_requests (sc_window sc))"
    unfolding retry_def fold_max_pos by (auto simp: act_def scope_retry_pos not_less)
  have mo: "sc \<in> set act \<Longrightarrow> map_of ps (sc_key sc) = Some (live_hits now sc s)" for sc
    using map_of_scopes dist unfolding ps_def act_def by fastforce
  have no: "k \<notin> sc_key ` set act \<Longrightarrow> map_of ps k = None" for k
    by (simp add: map_of_eq_None_iff ps_def image_image)
  have def: "tryAcquireMany now scopes s =
     (if act = [] then (\<lparr>am_allowed = True, am_retryAfterMs = 0, am_lease = None\<rparr>, s)
      else if retry > 0 then (\<lparr>am_allowed = False, am_retryAfterMs = retry, am_lease = None\<rparr>, s1)
      else (\<lparr>am_allowed = True, am_retryAfterMs = 0, am_lease = Some fs\<rparr>, s2))"
    using rh by (simp add: tryAcquireMany_def Let_def act_def ps_def s1_def retry_def)
  consider (none) "act = []" | (block) "act \<noteq> []" "retry > 0" | (allow) "act \<noteq> []" "\<not> retry > 0" by blast
  then have "few_keys K s'
    \<and> (am_allowed r \<longleftrightarrow> (\<forall>sc\<in>set act. int (length (live_hits now sc s)) < rw_requests (sc_window sc)))
    \<and> (\<not> am_allowed r \<longrightarrow> am_retryAfterMs r > 0 \<and> am_lease r = None)
    \<and> (\<forall>es. am_lease r = Some es \<longrightarrow> am_allowed r \<and> map fst es = map sc_key act)
    \<and> (\<forall>k. k \<notin> sc_key ` set act \<longrightarrow> hits_of k s' = hits_of k s)
    \<and> (\<forall>sc\<in>set act. hits_of (sc_key sc) s' = live_hits now sc s @
        (case am_lease r of None \<Rightarrow> [] | Some es \<Rightarrow> [\<lparr>h_id = the (map_of es (sc_key sc)), h_timestamp = now\<rparr>]))
    \<and> (act \<noteq> [] \<longrightarrow> (am_allowed r \<longleftrightarrow> am_lease r \<noteq> None))"
  proof cases
    case none
    then show ?thesis using def t few by auto
  next
    case block
    then have "r = \<lparr>am_allowed = False, am_retryAfterMs = retry, am_lease = None\<rparr>" "s' = s1" using def t by simp_all
    then show ?thesis using block pos F mo no by auto
  next
    case allow
    then have r: "r = \<lparr>am_allowed = True, am_retryAfterMs = 0, am_lease = Some fs\<rparr>" "s' = s2" using def t by simp_all
    have h: "hits_of k s2 = (case map_of ps k of None \<Rightarrow> hits_of k s1
        | Some live \<Rightarrow> live @ [\<lparr>h_id = the (map_of fs k), h_timestamp = now\<rparr>])" for k
      using record_hits_few [OF F(1) psK(1,2) rh, of k] by blast
    show ?thesis using allow pos F R mo no psK(3) unfolding r by (auto simp: h)
  qed
  then show "few_keys K s'"
    and "am_allowed r \<longleftrightarrow> (\<forall>sc\<in>set (active_scopes scopes). int (length (live_hits now sc s)) < rw_requests (sc_window sc))"
    and "\<not> am_allowed r \<Longrightarrow> am_retryAfterMs r > 0 \<and> am_lease r = None"
    and "am_lease r = Some es \<Longrightarrow> am_allowed r \<and> map fst es = map sc_key (active_scopes scopes)"
    and "k \<notin> sc_key ` set (active_scopes scopes) \<Longrightarrow> hits_of k s' = hits_of k s"
    and "sc \<in> set (active_scopes scopes) \<Longrightarrow> hits_of (sc_key sc) s' = live_hits now sc s @
      (case am_lease r of None \<Rightarrow> [] | Some es \<Rightarrow> [\<lparr>h_id = the (map_of es (sc_key sc)), h_timestamp = now\<rparr>])"
    and "active_scopes scopes \<noteq> [] \<Longrightarrow> am_allowed r \<longleftrightarrow> am_lease r \<noteq> None"
    by (auto simp only: act_def)
qed

lemma hits_of_release_entry:
  "hits_of k (release_entry e s) = (if fst e = k then filter (\<lambda>h. h_id h \<noteq> snd e) (hits_of k s) else hits_of k s)"
  by (auto simp: release_entry_def hits_of_def Let_def split: option.split)

lemma hits_of_release:
  "hits_of k (lease_release es s) = filter (\<lambda>h. (k, h_id h) \<notin> set es) (hits_of k s)"
  unfolding lease_release_def
proof (induction es arbitrary: s)
  case (Cons e es)
  have "filter (\<lambda>h. (k, h_id h) \<notin> set es) (hits_of k (release_entry e s)) = filter (\<lambda>h. (k, h_id h) \<notin> set (e # es)) (hits_of k s)"
    by (cases e) (auto simp: hits_of_release_entry intro!: filter_cong)
  then show ?case using Cons.IH by simp
qed simp

lemma release_entry_few:
  assumes "few_keys K s"
  shows "few_keys K (release_entry e s)"
proof (cases "jm_get (sw_hits s) (fst e)")
  case (Some live)
  have ok: "jm_ok (sw_hits s)" using assms by (simp add: few_keys_def)
  show ?thesis
    using few_keys_subset [OF assms, of "jm_set (fst e) (filter (\<lambda>h. h_id h \<noteq> snd e) live) (sw_hits s)"]
      few_keys_subset [OF assms, of "jm_del (fst e) (sw_hits s)"] few_keys_get [OF assms] ok Some
    by (auto simp: release_entry_def Let_def split: if_splits)
qed (simp add: release_entry_def assms)

lemma lease_release_few: "few_keys K s \<Longrightarrow> few_keys K (lease_release es s)"
  unfolding lease_release_def by (induction es arbitrary: s) (simp_all add: release_entry_few)

section \<open>Runs\<close>

text \<open>A run keeps the log of the allowed calls whose lease was not given back: what was dispatched upstream.\<close>

datatype sw_event = SwAcquire int "scope list" | SwRelease "(string \<times> nat) list"

definition lease_id :: "(string \<times> nat) list option \<Rightarrow> string \<Rightarrow> nat" where
  "lease_id l k = (case l of None \<Rightarrow> 0 | Some es \<Rightarrow> (case map_of es k of None \<Rightarrow> 0 | Some i \<Rightarrow> i))"

text \<open>Every allowed call is logged under every key it named, whether or not its lease records the key.\<close>

definition logged :: "int \<Rightarrow> scope list \<Rightarrow> acquire_many \<Rightarrow> (string \<times> hit) list" where
  "logged now scopes r =
     (if am_allowed r then map (\<lambda>sc. (sc_key sc, \<lparr>h_id = lease_id (am_lease r) (sc_key sc), h_timestamp = now\<rparr>)) scopes else [])"

fun sw_step :: "limiter \<times> (string \<times> hit) list \<Rightarrow> sw_event \<Rightarrow> limiter \<times> (string \<times> hit) list" where
  "sw_step (s, lg) (SwAcquire now scopes) = (let (r, s') = tryAcquireMany now scopes s in (s', lg @ logged now scopes r))"
| "sw_step (s, lg) (SwRelease es) = (lease_release es s, filter (\<lambda>(k, h). (k, h_id h) \<notin> set es) lg)"

definition log_of :: "string \<Rightarrow> (string \<times> hit) list \<Rightarrow> hit list" where
  "log_of k lg = map snd (filter (\<lambda>p. fst p = k) lg)"

text \<open>The clock does not run backwards, the keys come from \<open>K\<close>, no scope occurs twice in one call, and the key \<open>k\<close>
  always has the window \<open>w\<close>.\<close>

fun sw_events_ok :: "string list \<Rightarrow> string \<Rightarrow> rate_window \<Rightarrow> int \<Rightarrow> sw_event list \<Rightarrow> bool" where
  "sw_events_ok K k w t [] = True"
| "sw_events_ok K k w t (SwAcquire now scopes # es) =
     (t \<le> now \<and> list_all (\<lambda>sc. sc_key sc \<in> set K \<and> (sc_key sc = k \<longrightarrow> sc_window sc = w)) scopes
      \<and> distinct (map sc_key (active_scopes scopes)) \<and> sw_events_ok K k w now es)"
| "sw_events_ok K k w t (SwRelease _ # es) = sw_events_ok K k w t es"

definition window_inv :: "string set \<Rightarrow> string \<Rightarrow> rate_window \<Rightarrow> int \<Rightarrow> limiter \<times> (string \<times> hit) list \<Rightarrow> bool" where
  "window_inv K k w t st \<longleftrightarrow> few_keys K (fst st)
     \<and> (\<forall>now\<ge>t. filter (\<lambda>h. h_timestamp h > now - rw_windowMs w) (hits_of k (fst st)) =
          filter (\<lambda>h. h_timestamp h > now - rw_windowMs w) (log_of k (snd st)))
     \<and> (\<forall>h\<in>set (log_of k (snd st)). h_timestamp h \<le> t)
     \<and> (\<forall>u. int (length (filter (\<lambda>h. u - rw_windowMs w < h_timestamp h \<and> h_timestamp h \<le> u) (log_of k (snd st))))
          \<le> rw_requests w)"

lemma window_inv_release:
  assumes "window_inv K k w t (s, lg)"
  shows "window_inv K k w t (sw_step (s, lg) (SwRelease es))"
proof -
  let ?P = "\<lambda>h. (k, h_id h) \<notin> set es"
  have lg: "log_of k (filter (\<lambda>(k, h). (k, h_id h) \<notin> set es) lg) = filter ?P (log_of k lg)"
    unfolding log_of_def by (induction lg) auto
  have f: "filter Q (filter ?P hs) = filter ?P (filter Q hs)" for Q and hs :: "hit list"
    by (simp add: conj_commute)
  have c: "length (filter Q (filter ?P hs)) \<le> length (filter Q hs)" for Q and hs :: "hit list"
    unfolding f by (rule length_filter_le)
  show ?thesis
    unfolding window_inv_def
  proof (intro conjI allI impI)
    show "few_keys K (fst (sw_step (s, lg) (SwRelease es)))"
      using assms by (simp add: window_inv_def lease_release_few)
    fix now assume "t \<le> now"
    then have "filter (\<lambda>h. h_timestamp h > now - rw_windowMs w) (hits_of k s) =
        filter (\<lambda>h. h_timestamp h > now - rw_windowMs w) (log_of k lg)"
      using assms by (simp add: window_inv_def)
    then show "filter (\<lambda>h. h_timestamp h > now - rw_windowMs w) (hits_of k (fst (sw_step (s, lg) (SwRelease es)))) =
        filter (\<lambda>h. h_timestamp h > now - rw_windowMs w) (log_of k (snd (sw_step (s, lg) (SwRelease es))))"
      unfolding sw_step.simps fst_conv snd_conv hits_of_release lg f by simp
  next
    show "\<forall>h\<in>set (log_of k (snd (sw_step (s, lg) (SwRelease es)))). h_timestamp h \<le> t"
      using assms by (auto simp: window_inv_def lg)
    fix u
    have "int (length (filter (\<lambda>h. u - rw_windowMs w < h_timestamp h \<and> h_timestamp h \<le> u) (log_of k lg))) \<le> rw_requests w"
      using assms by (simp add: window_inv_def)
    then show "int (length (filter (\<lambda>h. u - rw_windowMs w < h_timestamp h \<and> h_timestamp h \<le> u)
        (log_of k (snd (sw_step (s, lg) (SwRelease es)))))) \<le> rw_requests w"
      using c [of "\<lambda>h. u - rw_windowMs w < h_timestamp h \<and> h_timestamp h \<le> u" "log_of k lg"]
      by (simp only: sw_step.simps snd_conv lg)
  qed
qed

lemma log_of_append [simp]: "log_of k (a @ b) = log_of k a @ log_of k b"
  by (simp add: log_of_def)

lemma filter_key:
  assumes "distinct (map f xs)" and "x \<in> set xs"
  shows "filter (\<lambda>y. f y = f x) xs = [x]"
  using assms
proof (induction xs)
  case (Cons a xs)
  then show ?case by (auto simp: filter_empty_conv image_iff)
qed simp

text \<open>What an allowed call adds to the log of a key whose scopes are all active.\<close>

lemma log_of_logged:
  assumes "distinct (map sc_key (active_scopes scopes))"
    and "\<forall>sc\<in>set scopes. sc_key sc = k \<longrightarrow> sc \<in> set (active_scopes scopes)"
  shows "log_of k (logged now scopes r) =
    (if am_allowed r \<and> k \<in> sc_key ` set (active_scopes scopes)
     then [\<lparr>h_id = lease_id (am_lease r) k, h_timestamp = now\<rparr>] else [])"
proof -
  have "filter (\<lambda>sc. sc_key sc = k) scopes = filter (\<lambda>sc. sc_key sc = k) (active_scopes scopes)"
    using assms(2) by (auto intro!: filter_cong)
  moreover have "k \<in> sc_key ` set (active_scopes scopes) \<Longrightarrow> \<exists>sc. filter (\<lambda>sc. sc_key sc = k) (active_scopes scopes) = [sc] \<and> sc_key sc = k"
    using filter_key [OF assms(1)] by fastforce
  moreover have "k \<notin> sc_key ` set (active_scopes scopes) \<Longrightarrow> filter (\<lambda>sc. sc_key sc = k) (active_scopes scopes) = []"
    by (auto simp: filter_empty_conv simp del: filter_filter)
  ultimately show ?thesis by (auto simp: log_of_def logged_def filter_map o_def)
qed

lemma window_cap_snoc:
  assumes cap: "\<forall>u. int (length (filter (\<lambda>h. u - W < h_timestamp h \<and> h_timestamp h \<le> u) L)) \<le> N"
    and old: "\<forall>h\<in>set L. h_timestamp h \<le> now" and room: "int (length (filter (\<lambda>h. h_timestamp h > now - W) L)) < N"
    and h: "h_timestamp h0 = now"
  shows "int (length (filter (\<lambda>h. u - W < h_timestamp h \<and> h_timestamp h \<le> u) (L @ [h0]))) \<le> N"
proof (cases "now \<le> u")
  case True
  have "filter (\<lambda>h. u - W < h_timestamp h \<and> h_timestamp h \<le> u) L
      = filter (\<lambda>h. u - W < h_timestamp h \<and> h_timestamp h \<le> u) (filter (\<lambda>h. h_timestamp h > now - W) L)"
    using True by (auto intro!: filter_cong)
  then have "length (filter (\<lambda>h. u - W < h_timestamp h \<and> h_timestamp h \<le> u) L)
      \<le> length (filter (\<lambda>h. h_timestamp h > now - W) L)"
    by (metis length_filter_le)
  then show ?thesis using room by simp
next
  case False
  then show ?thesis using cap h by simp
qed

lemma window_inv_acquire:
  assumes inv: "window_inv K k w t (s, lg)" and t: "t \<le> now"
    and scopes: "list_all (\<lambda>sc. sc_key sc \<in> K \<and> (sc_key sc = k \<longrightarrow> sc_window sc = w)) scopes"
    and dist: "distinct (map sc_key (active_scopes scopes))" and pos: "0 < rw_requests w" "0 < rw_windowMs w"
  shows "window_inv K k w now (sw_step (s, lg) (SwAcquire now scopes))"
proof -
  obtain r s' where a: "tryAcquireMany now scopes s = (r, s')" by fastforce
  have few: "few_keys K s" and keys: "sc_key ` set scopes \<subseteq> K"
    using inv scopes by (auto simp: window_inv_def list_all_iff)
  note T = tryAcquireMany_spec [OF few keys dist a]
  let ?P = "\<lambda>now h. h_timestamp h > now - rw_windowMs w"
  have live: "filter (?P n) (hits_of k s) = filter (?P n) (log_of k lg)" if "t \<le> n" for n
    using inv that by (simp add: window_inv_def)
  have old: "\<forall>h\<in>set (log_of k lg). h_timestamp h \<le> now" using inv t by (auto simp: window_inv_def)
  have cap: "\<forall>u. int (length (filter (\<lambda>h. u - rw_windowMs w < h_timestamp h \<and> h_timestamp h \<le> u) (log_of k lg))) \<le> rw_requests w"
    using inv by (simp add: window_inv_def)
  have lease: "am_lease r = Some es \<Longrightarrow> map fst es = map sc_key (active_scopes scopes)" for es using T(4) by blast
  have all_active: "\<forall>sc\<in>set scopes. sc_key sc = k \<longrightarrow> sc \<in> set (active_scopes scopes)"
    using scopes pos by (auto simp: list_all_iff)
  note log = log_of_logged [OF dist all_active, of now r]
  have "window_inv K k w now (s', lg @ logged now scopes r)"
  proof (cases "k \<in> sc_key ` set (active_scopes scopes)")
    case False
    then have "log_of k (logged now scopes r) = []" using log by (simp only: simp_thms if_False)
    then show ?thesis using T(1) T(5) [OF False] live t old cap by (auto simp: window_inv_def)
  next
    case True
    then obtain sc where sc: "sc \<in> set (active_scopes scopes)" "sc_key sc = k" by auto
    then have w: "sc_window sc = w" using scopes by (auto simp: list_all_iff)
    have lv: "live_hits now sc s = filter (?P now) (log_of k lg)"
      using live t by (simp add: live_hits_of sc w)
    have nest: "filter (?P n) (filter (?P now) (log_of k lg)) = filter (?P n) (log_of k lg)" if "now \<le> n" for n
      using that by (auto intro!: filter_cong)
    show ?thesis
    proof (cases "am_lease r")
      case None
      have "hits_of k s' = filter (?P now) (log_of k lg)" using T(6) [OF sc(1)] lv None sc(2) by simp
      moreover have "\<not> am_allowed r" using T(7) sc(1) None by (metis empty_iff empty_set)
      then have "log_of k (logged now scopes r) = []" using log by (simp only: simp_thms if_False)
      ultimately show ?thesis using T(1) nest old cap by (auto simp: window_inv_def)
    next
      case (Some es)
      define h where "h = \<lparr>h_id = the (map_of es k), h_timestamp = now\<rparr>"
      have hits: "hits_of k s' = filter (?P now) (log_of k lg) @ [h]"
        using T(6) [OF sc(1)] lv Some sc(2) by (simp add: h_def)
      have allowed: "am_allowed r" using T(4) [OF Some] by simp
      have "k \<in> set (map fst es)" using lease [OF Some] True by simp
      then obtain i where "map_of es k = Some i" using map_of_eq_None_iff [of es k] by auto
      then have "lease_id (am_lease r) k = the (map_of es k)" by (simp add: lease_id_def Some)
      then have log: "log_of k (logged now scopes r) = [h]"
        using log allowed True by (simp only: simp_thms if_True h_def)
      have room: "int (length (filter (?P now) (log_of k lg))) < rw_requests w"
        using allowed T(2) sc w lv by fastforce
      show ?thesis
        unfolding window_inv_def fst_conv snd_conv log_of_append log hits
        using T(1) nest old window_cap_snoc [OF cap old room, of h] by (auto simp: h_def)
    qed
  qed
  then show ?thesis using a by simp
qed

lemma window_inv_run:
  assumes "window_inv (set K) k w t st" and "sw_events_ok K k w t es" and "0 < rw_requests w" and "0 < rw_windowMs w"
  shows "\<exists>t'. window_inv (set K) k w t' (run sw_step st es)"
  using assms
proof (induction es arbitrary: t st)
  case (Cons e es)
  obtain s lg where st: "st = (s, lg)" by (cases st)
  show ?case
  proof (cases e)
    case (SwAcquire now scopes)
    then have "window_inv (set K) k w now (sw_step st e)"
      using window_inv_acquire [of "set K" k w t s lg now scopes] Cons.prems assms(3,4) st by simp
    then show ?thesis using Cons SwAcquire by simp
  next
    case (SwRelease rs)
    then have "window_inv (set K) k w t (sw_step st e)"
      using window_inv_release [of "set K" k w t s lg rs] Cons.prems st by simp
    then show ?thesis using Cons SwRelease by simp
  qed
qed auto

section \<open>Properties\<close>

text \<open>C14. The cap of a sliding window: let a key be used with one and the same window, with a positive number of requests and a
  positive length, let no call name a key twice, the clock not run backwards and at most \<open>MAX_KEYS\<close> keys be in use. Then no interval
  of \<open>windowMs\<close> milliseconds contains more allowed calls that named the key than its window admits, whatever other scopes the calls
  named, whatever attempts are refused in between. A call whose lease is given back counts until then and no longer.\<close>

theorem no_interval_exceeds_the_window:
  assumes "length (remdups K) \<le> MAX_KEYS" and "sw_events_ok K k w t es" and "0 < rw_requests w" and "0 < rw_windowMs w"
  shows "int (length (filter (\<lambda>h. u - rw_windowMs w < h_timestamp h \<and> h_timestamp h \<le> u)
      (log_of k (snd (run sw_step (new_SlidingWindowLimiter, []) es))))) \<le> rw_requests w"
proof -
  have "card (set K) \<le> MAX_KEYS" using assms(1) by (simp add: length_remdups_card_conv)
  then have "window_inv (set K) k w t (new_SlidingWindowLimiter, [])"
    using assms(3) by (auto simp: window_inv_def few_keys_def new_SlidingWindowLimiter_def hits_of_def log_of_def)
  from window_inv_run [OF this assms(2-4)] show ?thesis by (auto simp: window_inv_def)
qed

text \<open>A call that names a key twice is allowed beyond the key's limit.\<close>

lemma a_key_named_twice_passes_its_limit:
  "(let w = \<lparr>rw_requests = 1, rw_windowMs = 100\<rparr>;
        (r, s) = tryAcquireMany 5 [\<lparr>sc_key = ''k'', sc_window = w\<rparr>, \<lparr>sc_key = ''k'', sc_window = w\<rparr>] new_SlidingWindowLimiter
    in am_allowed r \<and> am_lease r = Some [(''k'', 1), (''k'', 2)])"
  by code_simp

definition ex_window :: rate_window where
  "ex_window = \<lparr>rw_requests = 2, rw_windowMs = 100\<rparr>"

definition ex_sw_events :: "sw_event list" where
  "ex_sw_events = (let sc = [\<lparr>sc_key = ''global'', sc_window = ex_window\<rparr>]
     in [SwAcquire 0 sc, SwAcquire 60 sc, SwAcquire 70 sc, SwRelease [(''global'', 2)], SwAcquire 80 sc, SwAcquire 101 sc])"

lemma no_interval_exceeds_the_window_witness:
  "int (length (filter (\<lambda>h. 120 - rw_windowMs ex_window < h_timestamp h \<and> h_timestamp h \<le> 120)
     (log_of ''global'' (snd (run sw_step (new_SlidingWindowLimiter, []) ex_sw_events))))) \<le> rw_requests ex_window
   \<and> map (\<lambda>h. h_timestamp h) (log_of ''global'' (snd (run sw_step (new_SlidingWindowLimiter, []) ex_sw_events))) = [0, 80, 101]"
proof -
  have "sw_events_ok [''global''] ''global'' ex_window 0 ex_sw_events"
    by (simp add: ex_sw_events_def ex_window_def Let_def)
  from no_interval_exceeds_the_window [OF _ this, of 120] have
    "int (length (filter (\<lambda>h. 120 - rw_windowMs ex_window < h_timestamp h \<and> h_timestamp h \<le> 120)
     (log_of ''global'' (snd (run sw_step (new_SlidingWindowLimiter, []) ex_sw_events))))) \<le> rw_requests ex_window"
    by (simp add: MAX_KEYS_def ex_window_def)
  moreover have "map (\<lambda>h. h_timestamp h) (log_of ''global'' (snd (run sw_step (new_SlidingWindowLimiter, []) ex_sw_events))) = [0, 80, 101]"
    by code_simp
  ultimately show ?thesis by blast
qed

text \<open>A refusal tells the truth: a window that is full refuses every attempt before \<open>now + retryAfterMs\<close>
  and admits the one at that time, and the wait it names is positive. A refused attempt records nothing.\<close>

theorem retry_hint_is_exact:
  assumes few: "few_keys K s" and k: "k \<in> K" and w: "0 < rw_requests w" "0 < rw_windowMs w"
    and full: "int (length (hits_of k s)) \<le> rw_requests w" "sorted (map h_timestamp (hits_of k s))"
    and t: "tryAcquire now k w s = ((ok, retry), s')" and refused: "\<not> ok"
  shows "0 < retry \<and> hits_of k s' = hits_of k s
    \<and> (\<forall>n. fst (fst (tryAcquire (now + int n) k w s')) \<longleftrightarrow> retry \<le> int n)"
proof -
  let ?sc = "\<lparr>sc_key = k, sc_window = w\<rparr>"
  let ?P = "\<lambda>n h. h_timestamp h > n - rw_windowMs w"
  have act: "active_scopes [?sc] = [?sc]" using w by simp
  have spec: "few_keys K s1 \<and> (fst (fst (tryAcquire n k w s0)) \<longleftrightarrow> int (length (filter (?P n) (hits_of k s0))) < rw_requests w)
      \<and> (\<not> fst (fst (tryAcquire n k w s0)) \<longrightarrow> hits_of k s1 = filter (?P n) (hits_of k s0))"
    if few0: "few_keys K s0" and att: "snd (tryAcquire n k w s0) = s1" for s0 s1 n
  proof -
    obtain r where a: "tryAcquireMany n [?sc] s0 = (r, s1)"
      using att by (cases "tryAcquireMany n [?sc] s0") (simp add: tryAcquire_def)
    note T = tryAcquireMany_spec [OF few0 _ _ a]
    have "few_keys K s1" "am_allowed r \<longleftrightarrow> int (length (live_hits n ?sc s0)) < rw_requests w"
      using T(1,2) k w by simp_all
    moreover have "hits_of k s1 = live_hits n ?sc s0" if "\<not> am_allowed r"
      using T(3) [OF _ _ that] T(6) [of ?sc] k w by simp
    ultimately show ?thesis using a by (auto simp: tryAcquire_def live_hits_of)
  qed
  have sp: "few_keys K s' \<and> (ok \<longleftrightarrow> int (length (filter (?P now) (hits_of k s))) < rw_requests w)
      \<and> (\<not> ok \<longrightarrow> hits_of k s' = filter (?P now) (hits_of k s))"
    using spec [OF few, of now s'] t by simp
  then have "length (filter (?P now) (hits_of k s)) = length (hits_of k s)"
    using refused full(1) length_filter_le [of "?P now" "hits_of k s"] by linarith
  then have all: "filter (?P now) (hits_of k s) = hits_of k s" by (metis filter_True length_filter_less less_irrefl)
  then have hits: "hits_of k s' = hits_of k s" using sp refused by simp
  have len: "int (length (hits_of k s)) = rw_requests w" using sp refused all full(1) by simp
  then obtain h hs where h: "hits_of k s = h # hs" using w(1) by (cases "hits_of k s") auto
  have hn: "now - rw_windowMs w < h_timestamp h" using all h by (metis filter_eq_Cons_iff filter_id_conv list.set_intros(1))
  have retry: "retry = h_timestamp h + rw_windowMs w - now"
    using t all h len hn w refused by (auto simp: tryAcquire_def tryAcquireMany_def scope_retry_def live_hits_of Let_def split: if_splits prod.splits)
  have min: "\<forall>x\<in>set hs. h_timestamp h \<le> h_timestamp x" using full(2) h by simp
  have "fst (fst (tryAcquire (now + int n) k w s')) \<longleftrightarrow> retry \<le> int n" for n
  proof -
    have "fst (fst (tryAcquire (now + int n) k w s')) \<longleftrightarrow>
        int (length (filter (?P (now + int n)) (h # hs))) < rw_requests w"
      using spec [of s' "now + int n"] sp hits h by simp
    also have "\<dots> \<longleftrightarrow> retry \<le> int n"
    proof (cases "retry \<le> int n")
      case True
      then have "\<not> ?P (now + int n) h" using retry by simp
      then have "length (filter (?P (now + int n)) (h # hs)) \<le> length hs" by simp
      then show ?thesis using True len h by simp
    next
      case False
      then have "filter (?P (now + int n)) (h # hs) = h # hs" using retry min by (auto simp: filter_id_conv)
      then show ?thesis using False len h by simp
    qed
    finally show ?thesis .
  qed
  then show ?thesis using hits retry hn by simp
qed

lemma retry_hint_is_exact_witness:
  "\<exists>s'. 0 < (40::int) \<and> hits_of ''global'' s' = hits_of ''global'' (fst (run sw_step (new_SlidingWindowLimiter, []) (take 2 ex_sw_events)))
    \<and> (\<forall>n. fst (fst (tryAcquire (60 + int n) ''global'' ex_window s')) \<longleftrightarrow> 40 \<le> int n)"
proof -
  let ?s = "fst (run sw_step (new_SlidingWindowLimiter, []) (take 2 ex_sw_events))"
  have s: "?s = \<lparr>sw_hits = [(''global'', [\<lparr>h_id = 1, h_timestamp = 0\<rparr>, \<lparr>h_id = 2, h_timestamp = 60\<rparr>])], sw_nextHitId = 3\<rparr>"
    by code_simp
  have h: "hits_of ''global'' ?s = [\<lparr>h_id = 1, h_timestamp = 0\<rparr>, \<lparr>h_id = 2, h_timestamp = 60\<rparr>]"
    by (simp add: s hits_of_def jm_get_def)
  have few: "few_keys {''global''} ?s" by (simp add: few_keys_def MAX_KEYS_def jm_ok_def s)
  obtain s' where t: "tryAcquire 60 ''global'' ex_window ?s = ((False, 40), s')"
    by (simp add: s tryAcquire_def tryAcquireMany_def scope_retry_def live_hits_def jm_get_def ex_window_def Let_def)
  show ?thesis
    by (rule exI, rule retry_hint_is_exact [OF few _ _ _ _ _ t]) (simp_all add: h ex_window_def)
qed

end
