(* ===== verification/RollingRpmGate.thy ===== *)
theory RollingRpmGate
  imports SlidingWindow
begin

text \<open>
  The rolling requests-per-minute gate, \<open>open-sse/services/rollingRpmGate.ts\<close>.

  The options the gate is built with are functions of the model (\<open>rpm_options\<close>): they belong to the caller. One pass of the
  loop of \<open>acquire\<close> is \<open>rpm_pass\<close>; the loop itself, with the clock and the other callers
  between two passes, is \<open>rpm_loop\<close>.
\<close>

record rpm_options =
  ro_getGlobalRpm :: "int option"
  ro_getProviderWindow :: "string \<Rightarrow> rate_window option"
  ro_getConnectionRpm :: "string \<Rightarrow> int option"
  ro_getLimiterKey :: "string \<Rightarrow> string \<Rightarrow> string option \<Rightarrow> string"

record learned_window =
  lw_window :: rate_window
  lw_expiresAt :: int

record rpm_gate =
  rg_limiter :: limiter
  rg_blockedUntil :: "(string, int) jsmap"
  rg_learned :: "(string, learned_window) jsmap"

datatype timeout_reason = LocalQueue | UpstreamCooldown

datatype rpm_pass_result =
    NoLimit
  | Leased "(string \<times> nat) list option"
  | QueueTimeout timeout_reason
  | RpmAborted
  | SleepMs int

definition rpm_windowMs :: int where
  "rpm_windowMs = 60000"

definition new_RollingRpmGate :: rpm_gate where
  "new_RollingRpmGate = \<lparr>rg_limiter = new_SlidingWindowLimiter, rg_blockedUntil = [], rg_learned = []\<rparr>"

definition blocked_at :: "string \<Rightarrow> rpm_gate \<Rightarrow> int" where
  "blocked_at k s = (case jm_get (rg_blockedUntil s) k of None \<Rightarrow> 0 | Some u \<Rightarrow> u)"

definition keyContainsConnection :: "string \<Rightarrow> string \<Rightarrow> bool" where
  "keyContainsConnection k c \<longleftrightarrow> suffix ('':'' @ c) k \<or> str_includes k ('':'' @ c @ '':'')"

definition header_key :: "rpm_options \<Rightarrow> string \<Rightarrow> string \<Rightarrow> string option \<Rightarrow> string" where
  "header_key ro p c m = ''header:'' @ ro_getLimiterKey ro p c m"

definition getScopes :: "rpm_options \<Rightarrow> int \<Rightarrow> string \<Rightarrow> string \<Rightarrow> string option \<Rightarrow> rpm_gate \<Rightarrow> scope list \<times> rpm_gate" where
  "getScopes ro now p c m s =
     (let base =
        (case ro_getGlobalRpm ro of
           Some r \<Rightarrow> if r > 0 then [\<lparr>sc_key = ''global'', sc_window = \<lparr>rw_requests = r, rw_windowMs = rpm_windowMs\<rparr>\<rparr>] else []
         | None \<Rightarrow> []) @
        (case ro_getProviderWindow ro p of Some w \<Rightarrow> [\<lparr>sc_key = ''provider:'' @ p, sc_window = w\<rparr>] | None \<Rightarrow> []) @
        (case ro_getConnectionRpm ro c of
           Some r \<Rightarrow> if r > 0 then [\<lparr>sc_key = ''provider-account:'' @ p @ '':'' @ c,
                                   sc_window = \<lparr>rw_requests = r, rw_windowMs = rpm_windowMs\<rparr>\<rparr>] else []
         | None \<Rightarrow> []);
          hk = header_key ro p c m;
          hb = blocked_at hk s
      in if hb - now > 0 then (base @ [\<lparr>sc_key = hk, sc_window = \<lparr>rw_requests = 1, rw_windowMs = hb - now\<rparr>\<rparr>], s)
         else (let s1 = (if hb > 0 then s\<lparr>rg_blockedUntil := jm_del hk (rg_blockedUntil s)\<rparr> else s)
               in case jm_get (rg_learned s1) hk of
                    None \<Rightarrow> (base, s1)
                  | Some lw \<Rightarrow> if lw_expiresAt lw > now then (base @ [\<lparr>sc_key = hk, sc_window = lw_window lw\<rparr>], s1)
                               else (base, s1\<lparr>rg_learned := jm_del hk (rg_learned s1)\<rparr>)))"

text \<open>The blocks of the scopes: the latest one that still holds, the others are forgotten.\<close>

fun scope_blocks :: "int \<Rightarrow> scope list \<Rightarrow> rpm_gate \<Rightarrow> int \<times> rpm_gate" where
  "scope_blocks now [] s = (0, s)"
| "scope_blocks now (sc # scs) s =
     (let b = blocked_at (sc_key sc) s
      in if b > now then (let (u, s') = scope_blocks now scs s in (max b u, s'))
         else if b > 0 then scope_blocks now scs (s\<lparr>rg_blockedUntil := jm_del (sc_key sc) (rg_blockedUntil s)\<rparr>)
         else scope_blocks now scs s)"

definition rpm_pass ::
  "rpm_options \<Rightarrow> int \<Rightarrow> string \<Rightarrow> string \<Rightarrow> string option \<Rightarrow> bool \<Rightarrow> int \<Rightarrow> int \<Rightarrow> rpm_gate \<Rightarrow> rpm_pass_result \<times> rpm_gate" where
  "rpm_pass ro now p c m aborted maxWaitMs startedAt s0 =
     (if aborted then (RpmAborted, s0)
      else (let bk = ro_getLimiterKey ro p c m; (scopes, s1) = getScopes ro now p c m s0
            in if scopes = [] \<and> blocked_at bk s1 \<le> now then (NoLimit, s1)
               else (let bu = blocked_at bk s1;
                         s2 = (if bu \<le> now then s1\<lparr>rg_blockedUntil := jm_del bk (rg_blockedUntil s1)\<rparr> else s1);
                         (sb, s3) = scope_blocks now scopes s2;
                         forced = max 0 (max (bu - now) (sb - now));
                         remaining = (\<lambda>d. if maxWaitMs > 0 then maxWaitMs - (now - startedAt) else d)
                     in if forced = 0
                        then (let (r, l) = tryAcquireMany now scopes (rg_limiter s3); s4 = s3\<lparr>rg_limiter := l\<rparr>
                              in if am_allowed r then (Leased (am_lease r), s4)
                                 else (let d = max 1 (am_retryAfterMs r)
                                       in if maxWaitMs > 0 \<and> remaining d \<le> 0 then (QueueTimeout LocalQueue, s4)
                                          else (SleepMs (min d (remaining d)), s4)))
                        else if maxWaitMs > 0 \<and> remaining forced \<le> 0 then (QueueTimeout UpstreamCooldown, s3)
                        else (SleepMs (min forced (remaining forced)), s3))))"

definition rpm_acquire_start ::
  "rpm_options \<Rightarrow> int \<Rightarrow> string \<Rightarrow> string \<Rightarrow> string option \<Rightarrow> bool \<Rightarrow> int \<Rightarrow> int \<Rightarrow> rpm_gate \<Rightarrow> rpm_pass_result \<times> rpm_gate" where
  "rpm_acquire_start ro now p c m aborted maxWaitMs startedAt s0 =
     (let (scopes, s1) = getScopes ro now p c m s0
      in if scopes = [] \<and> blocked_at (ro_getLimiterKey ro p c m) s1 \<le> now then (NoLimit, s1)
         else rpm_pass ro now p c m aborted maxWaitMs startedAt s1)"

text \<open>
  The loop from its \<open>n\<close>th pass on: a sleep of \<open>d\<close> ends after \<open>d + late n\<close> milliseconds, \<open>env n\<close> is what
  the other callers did meanwhile, \<open>ab n\<close> whether the signal is aborted then.
\<close>

fun rpm_loop ::
  "nat \<Rightarrow> rpm_options \<Rightarrow> (nat \<Rightarrow> int) \<Rightarrow> (nat \<Rightarrow> rpm_gate \<Rightarrow> rpm_gate) \<Rightarrow> (nat \<Rightarrow> bool) \<Rightarrow> nat \<Rightarrow> int \<Rightarrow>
   string \<Rightarrow> string \<Rightarrow> string option \<Rightarrow> int \<Rightarrow> int \<Rightarrow> rpm_gate \<Rightarrow> (rpm_pass_result \<times> int) option" where
  "rpm_loop 0 ro late env ab n now p c m maxWaitMs startedAt s = None"
| "rpm_loop (Suc fuel) ro late env ab n now p c m maxWaitMs startedAt s =
     (case rpm_pass ro now p c m (ab n) maxWaitMs startedAt s of
        (SleepMs d, s') \<Rightarrow>
          rpm_loop fuel ro late env ab (Suc n) (now + d + late n) p c m maxWaitMs startedAt (env n s')
      | (r, s') \<Rightarrow> Some (r, now))"

definition rpm_block :: "rpm_options \<Rightarrow> int \<Rightarrow> string \<Rightarrow> string \<Rightarrow> string option \<Rightarrow> int \<Rightarrow> rpm_gate \<Rightarrow> rpm_gate" where
  "rpm_block ro now p c m retryAfterMs s =
     (if retryAfterMs > 0
      then s\<lparr>rg_blockedUntil := jm_set (ro_getLimiterKey ro p c m) (now + retryAfterMs) (rg_blockedUntil s)\<rparr> else s)"

definition learnHeaderWindow ::
  "rpm_options \<Rightarrow> string \<Rightarrow> string \<Rightarrow> string option \<Rightarrow> int \<Rightarrow> int \<Rightarrow> int \<Rightarrow> rpm_gate \<Rightarrow> rpm_gate" where
  "learnHeaderWindow ro p c m requests windowMs expiresAt s =
     (let k = header_key ro p c m
      in if requests \<le> 0
         then s\<lparr>rg_learned := jm_del k (rg_learned s), rg_blockedUntil := jm_set k expiresAt (rg_blockedUntil s)\<rparr>
         else s\<lparr>rg_blockedUntil := jm_del k (rg_blockedUntil s),
                rg_learned := jm_set k \<lparr>lw_window = \<lparr>rw_requests = requests, rw_windowMs = windowMs\<rparr>, lw_expiresAt = expiresAt\<rparr>
                  (rg_learned s)\<rparr>)"

definition clearLearnedHeaderWindow :: "rpm_options \<Rightarrow> string \<Rightarrow> string \<Rightarrow> string option \<Rightarrow> rpm_gate \<Rightarrow> rpm_gate" where
  "clearLearnedHeaderWindow ro p c m s =
     (let k = header_key ro p c m
      in s\<lparr>rg_learned := jm_del k (rg_learned s), rg_blockedUntil := jm_del k (rg_blockedUntil s)\<rparr>)"

definition clearConnection :: "string \<Rightarrow> rpm_gate \<Rightarrow> rpm_gate" where
  "clearConnection c s =
     s\<lparr>rg_blockedUntil := filter (\<lambda>p. \<not> keyContainsConnection (fst p) c) (rg_blockedUntil s),
       rg_learned := filter (\<lambda>p. \<not> keyContainsConnection (fst p) c) (rg_learned s)\<rparr>"

definition rpm_reset :: "rpm_gate \<Rightarrow> rpm_gate" where
  "rpm_reset s = s\<lparr>rg_limiter := sw_reset None (rg_limiter s), rg_blockedUntil := [], rg_learned := []\<rparr>"

definition cleanupExpired :: "int \<Rightarrow> rpm_gate \<Rightarrow> rpm_gate" where
  "cleanupExpired now s =
     s\<lparr>rg_blockedUntil := filter (\<lambda>p. \<not> snd p \<le> now) (rg_blockedUntil s),
       rg_learned := filter (\<lambda>p. \<not> lw_expiresAt (snd p) \<le> now) (rg_learned s)\<rparr>"

section \<open>Proof support\<close>

lemma rpm_pass_sleep:
  assumes "rpm_pass ro now p c m ab maxWait started s = (SleepMs d, s')"
  shows "1 \<le> d \<and> (0 < maxWait \<longrightarrow> now + d \<le> started + maxWait)"
  using assms by (auto simp: rpm_pass_def Let_def split: if_splits prod.splits)

lemma rpm_pass_cases:
  assumes "rpm_pass ro now p c m ab maxWait started s = (r, s')"
  shows "(\<exists>d. r = SleepMs d) \<or> r = NoLimit \<or> r = RpmAborted \<or> (\<exists>l. r = Leased l)
    \<or> ((\<exists>x. r = QueueTimeout x) \<and> 0 < maxWait \<and> started + maxWait \<le> now)"
  using assms by (auto simp: rpm_pass_def Let_def split: if_splits prod.splits)

lemma getScopes_limiter: "getScopes ro now p c m s = (scs, s') \<Longrightarrow> rg_limiter s' = rg_limiter s"
  by (auto simp: getScopes_def Let_def split: if_splits option.splits)

lemma scope_blocks_spec:
  assumes "scope_blocks now scs s = (u, s')" and "0 \<le> now"
  shows "rg_limiter s' = rg_limiter s" and "u \<le> now \<longleftrightarrow> (\<forall>sc\<in>set scs. blocked_at (sc_key sc) s \<le> now)"
proof -
  have d: "blocked_at k' (s\<lparr>rg_blockedUntil := jm_del k (rg_blockedUntil s)\<rparr>) \<le> now \<longleftrightarrow> blocked_at k' s \<le> now"
    if "\<not> blocked_at k s > now" for k k' s
    using that assms(2) by (auto simp: blocked_at_def)
  have "rg_limiter s' = rg_limiter s \<and> (u \<le> now \<longleftrightarrow> (\<forall>sc\<in>set scs. blocked_at (sc_key sc) s \<le> now))"
    using assms
  proof (induction now scs s arbitrary: u s' rule: scope_blocks.induct)
    case (2 now sc scs s)
    show ?case
    proof (cases "blocked_at (sc_key sc) s > now")
      case True
      obtain v s1 where r: "scope_blocks now scs s = (v, s1)" by fastforce
      have "u = max (blocked_at (sc_key sc) s) v" "s' = s1" using "2.prems"(1) True r by simp_all
      then show ?thesis using "2.IH"(1) [OF refl True r "2.prems"(2)] True by auto
    next
      case False
      have e: "blocked_at k' (s\<lparr>rg_blockedUntil := jm_del (sc_key sc) (rg_blockedUntil s)\<rparr>) \<le> now \<longleftrightarrow> blocked_at k' s \<le> now" for k'
        using False "2.prems"(2) by (auto simp: blocked_at_def)
      show ?thesis
      proof (cases "0 < blocked_at (sc_key sc) s")
        case True
        have r: "scope_blocks now scs (s\<lparr>rg_blockedUntil := jm_del (sc_key sc) (rg_blockedUntil s)\<rparr>) = (u, s')"
          using "2.prems"(1) False True by simp
        show ?thesis using "2.IH"(2) [OF refl False True r "2.prems"(2)] False unfolding e by simp
      next
        case zero: False
        have r: "scope_blocks now scs s = (u, s')" using "2.prems"(1) False zero by simp
        show ?thesis using "2.IH"(3) [OF refl False zero r "2.prems"(2)] False by simp
      qed
    qed
  qed simp
  then show "rg_limiter s' = rg_limiter s" and "u \<le> now \<longleftrightarrow> (\<forall>sc\<in>set scs. blocked_at (sc_key sc) s \<le> now)" by auto
qed

text \<open>What a pass does to the limiter.\<close>

lemma rpm_pass_limiter:
  assumes "rpm_pass ro now p c m ab maxWait started s = (r, s')" and "0 \<le> now"
  shows "(rg_limiter s' = rg_limiter s \<and> (\<forall>l. r \<noteq> Leased l) \<and> (r = NoLimit \<longrightarrow> fst (getScopes ro now p c m s) = []))
    \<or> (\<exists>a. tryAcquireMany now (fst (getScopes ro now p c m s)) (rg_limiter s) = (a, rg_limiter s')
        \<and> r \<noteq> NoLimit \<and> (if am_allowed a then r = Leased (am_lease a) else (\<forall>l. r \<noteq> Leased l)))"
proof -
  obtain scs s1 where g: "getScopes ro now p c m s = (scs, s1)" by fastforce
  define s2 where "s2 = (if blocked_at (ro_getLimiterKey ro p c m) s1 \<le> now
    then s1\<lparr>rg_blockedUntil := jm_del (ro_getLimiterKey ro p c m) (rg_blockedUntil s1)\<rparr> else s1)"
  obtain sb s3 where b: "scope_blocks now scs s2 = (sb, s3)" by fastforce
  have l: "rg_limiter s3 = rg_limiter s"
    using scope_blocks_spec(1) [OF b assms(2)] getScopes_limiter [OF g] by (simp add: s2_def split: if_splits)
  obtain a lim where t: "tryAcquireMany now scs (rg_limiter s3) = (a, lim)" by fastforce
  define quit where "quit x \<longleftrightarrow> (\<forall>l. x \<noteq> Leased l) \<and> x \<noteq> NoLimit" for x
  define left where "left d = (if maxWait > 0 then maxWait - (now - started) else d)" for d
  define x where "x = (let d = max 1 (am_retryAfterMs a)
    in if maxWait > 0 \<and> left d \<le> 0 then QueueTimeout LocalQueue else SleepMs (min d (left d)))"
  define forced where "forced = max 0 (max (blocked_at (ro_getLimiterKey ro p c m) s1 - now) (sb - now))"
  define y where "y = (if maxWait > 0 \<and> left forced \<le> 0 then QueueTimeout UpstreamCooldown else SleepMs (min forced (left forced)))"
  have e: "rpm_pass ro now p c m ab maxWait started s =
     (if ab then (RpmAborted, s)
      else if scs = [] \<and> blocked_at (ro_getLimiterKey ro p c m) s1 \<le> now then (NoLimit, s1)
      else if forced = 0
      then (if am_allowed a then (Leased (am_lease a), s3\<lparr>rg_limiter := lim\<rparr>) else (x, s3\<lparr>rg_limiter := lim\<rparr>))
      else (y, s3))"
    unfolding rpm_pass_def g Let_def prod.case s2_def [symmetric] b t forced_def [symmetric] x_def y_def left_def
    by simp
  have "quit x" "quit y" by (simp_all add: quit_def x_def y_def Let_def)
  then have xy: "\<forall>l. x \<noteq> Leased l" "\<forall>l. y \<noteq> Leased l" "x \<noteq> NoLimit" "y \<noteq> NoLimit" by (simp_all add: quit_def)
  show ?thesis
    using assms(1) l getScopes_limiter [OF g] xy t unfolding e g by (auto split: if_splits)
qed

text \<open>The keys of one request are different, and only the first is \<open>global\<close>.\<close>

definition scope_keys :: "rpm_options \<Rightarrow> string \<Rightarrow> string \<Rightarrow> string option \<Rightarrow> string list" where
  "scope_keys ro p c m = [''global'', ''provider:'' @ p, ''provider-account:'' @ p @ '':'' @ c, header_key ro p c m]"

lemma getScopes_keys:
  assumes "getScopes ro now p c m s = (scs, s')"
  shows "distinct (map sc_key scs)" and "set (map sc_key scs) \<subseteq> set (scope_keys ro p c m)"
    and "ro_getGlobalRpm ro = Some G \<Longrightarrow> 0 < G \<Longrightarrow> ''global'' \<in> set (map sc_key scs)"
    and "sc \<in> set scs \<Longrightarrow> sc_key sc = ''global'' \<Longrightarrow>
      (\<exists>r. ro_getGlobalRpm ro = Some r \<and> sc_window sc = \<lparr>rw_requests = r, rw_windowMs = rpm_windowMs\<rparr>)"
proof -
  define base where "base =
    (case ro_getGlobalRpm ro of
       Some r \<Rightarrow> if r > 0 then [\<lparr>sc_key = ''global'', sc_window = \<lparr>rw_requests = r, rw_windowMs = rpm_windowMs\<rparr>\<rparr>] else []
     | None \<Rightarrow> []) @
    (case ro_getProviderWindow ro p of Some w \<Rightarrow> [\<lparr>sc_key = ''provider:'' @ p, sc_window = w\<rparr>] | None \<Rightarrow> []) @
    (case ro_getConnectionRpm ro c of
       Some r \<Rightarrow> if r > 0 then [\<lparr>sc_key = ''provider-account:'' @ p @ '':'' @ c,
                               sc_window = \<lparr>rw_requests = r, rw_windowMs = rpm_windowMs\<rparr>\<rparr>] else []
     | None \<Rightarrow> [])"
  obtain tail where scs: "scs = base @ tail" and tail: "tail = [] \<or> map sc_key tail = [header_key ro p c m]"
    using assms unfolding getScopes_def base_def [symmetric] Let_def
    by (auto split: if_splits option.splits)
  have hk: "header_key ro p c m = ''header:'' @ ro_getLimiterKey ro p c m" by (simp add: header_key_def)
  have b: "distinct (map sc_key base)" "set (map sc_key base) \<subseteq> {''global'', ''provider:'' @ p, ''provider-account:'' @ p @ '':'' @ c}"
    by (auto simp: base_def split: option.split)
  have g: "sc \<in> set base \<Longrightarrow> sc_key sc = ''global'' \<Longrightarrow>
      (\<exists>r. ro_getGlobalRpm ro = Some r \<and> sc_window sc = \<lparr>rw_requests = r, rw_windowMs = rpm_windowMs\<rparr>)" for sc
    by (auto simp: base_def split: option.splits if_splits)
  have n: "header_key ro p c m \<notin> set (map sc_key base)" using b(2) by (auto simp: hk simp del: set_map)
  show "distinct (map sc_key scs)" using b(1) n tail by (auto simp: scs simp del: set_map)
  show "set (map sc_key scs) \<subseteq> set (scope_keys ro p c m)" using b(2) tail by (auto simp: scs scope_keys_def)
  show "ro_getGlobalRpm ro = Some G \<Longrightarrow> 0 < G \<Longrightarrow> ''global'' \<in> set (map sc_key scs)" by (simp add: scs base_def)
  assume "sc \<in> set scs" "sc_key sc = ''global''"
  moreover have "sc_key x = header_key ro p c m" if "x \<in> set tail" for x using tail that by (cases tail) auto
  ultimately have "sc \<in> set base" by (auto simp: scs hk)
  then show "\<exists>r. ro_getGlobalRpm ro = Some r \<and> sc_window sc = \<lparr>rw_requests = r, rw_windowMs = rpm_windowMs\<rparr>"
    using g \<open>sc_key sc = ''global''\<close> by blast
qed

section \<open>Runs\<close>

datatype rpm_event =
    RpStart int string string "string option" bool int int
  | RpPass int string string "string option" bool int int
  | RpRelease "(string \<times> nat) list"
  | RpBlock int string string "string option" int
  | RpLearn string string "string option" int int int
  | RpClearLearned string string "string option"
  | RpClearConnection string
  | RpCleanup int

text \<open>The log of a run: the requests let through, each with its lease, if it has one, and its time.\<close>

type_synonym dispatch = "(string \<times> nat) list option \<times> int"

definition let_through :: "int \<Rightarrow> rpm_pass_result \<Rightarrow> dispatch list" where
  "let_through now r = (case r of NoLimit \<Rightarrow> [(None, now)] | Leased l \<Rightarrow> [(l, now)] | _ \<Rightarrow> [])"

text \<open>A release gives a lease back whole, and no two leases share an entry.\<close>

definition gives_back :: "(string \<times> nat) list \<Rightarrow> dispatch \<Rightarrow> bool" where
  "gives_back es d = (case fst d of None \<Rightarrow> False | Some l \<Rightarrow> list_ex (\<lambda>e. e \<in> set es) l)"

fun rpm_step :: "rpm_options \<Rightarrow> rpm_gate \<times> dispatch list \<Rightarrow> rpm_event \<Rightarrow> rpm_gate \<times> dispatch list" where
  "rpm_step ro (s, lg) (RpStart now p c m ab maxWait started) =
     (let (r, s') = rpm_acquire_start ro now p c m ab maxWait started s in (s', lg @ let_through now r))"
| "rpm_step ro (s, lg) (RpPass now p c m ab maxWait started) =
     (let (r, s') = rpm_pass ro now p c m ab maxWait started s in (s', lg @ let_through now r))"
| "rpm_step ro (s, lg) (RpRelease es) =
     (s\<lparr>rg_limiter := lease_release es (rg_limiter s)\<rparr>, filter (\<lambda>d. \<not> gives_back es d) lg)"
| "rpm_step ro (s, lg) (RpBlock now p c m d) = (rpm_block ro now p c m d s, lg)"
| "rpm_step ro (s, lg) (RpLearn p c m r w x) = (learnHeaderWindow ro p c m r w x s, lg)"
| "rpm_step ro (s, lg) (RpClearLearned p c m) = (clearLearnedHeaderWindow ro p c m s, lg)"
| "rpm_step ro (s, lg) (RpClearConnection c) = (clearConnection c s, lg)"
| "rpm_step ro (s, lg) (RpCleanup now) = (cleanupExpired now s, lg)"

fun rpm_events_ok :: "string list \<Rightarrow> rpm_options \<Rightarrow> int \<Rightarrow> rpm_event list \<Rightarrow> bool" where
  "rpm_events_ok K ro t [] = True"
| "rpm_events_ok K ro t (e # es) =
     (case e of
        RpStart now p c m ab maxWait started \<Rightarrow>
          t \<le> now \<and> list_all (\<lambda>k. k \<in> set K) (scope_keys ro p c m) \<and> rpm_events_ok K ro now es
      | RpPass now p c m ab maxWait started \<Rightarrow>
          t \<le> now \<and> list_all (\<lambda>k. k \<in> set K) (scope_keys ro p c m) \<and> rpm_events_ok K ro now es
      | _ \<Rightarrow> rpm_events_ok K ro t es)"

lemma rpm_other_limiter:
  "rg_limiter (rpm_block ro now p c m d s) = rg_limiter s"
  "rg_limiter (learnHeaderWindow ro p c m r w x s) = rg_limiter s"
  "rg_limiter (clearLearnedHeaderWindow ro p c m s) = rg_limiter s"
  "rg_limiter (clearConnection c s) = rg_limiter s"
  "rg_limiter (cleanupExpired now s) = rg_limiter s"
  by (simp_all add: rpm_block_def learnHeaderWindow_def clearLearnedHeaderWindow_def clearConnection_def cleanupExpired_def Let_def)

lemma window_inv_later: "window_inv K k w t st \<Longrightarrow> t \<le> t' \<Longrightarrow> window_inv K k w t' st"
  by (auto simp: window_inv_def)

text \<open>The global hit of a request that was let through.\<close>

definition global_hit :: "dispatch \<Rightarrow> hit" where
  "global_hit d = \<lparr>h_id = lease_id (fst d) ''global'', h_timestamp = snd d\<rparr>"

definition has_global :: "dispatch \<Rightarrow> bool" where
  "has_global d \<longleftrightarrow> (\<exists>l i. fst d = Some l \<and> map_of l ''global'' = Some i)"

abbreviation global_window :: "int \<Rightarrow> rate_window" where
  "global_window G \<equiv> \<lparr>rw_requests = G, rw_windowMs = rpm_windowMs\<rparr>"

definition rpm_inv :: "string list \<Rightarrow> int \<Rightarrow> int \<Rightarrow> rpm_gate \<times> dispatch list \<Rightarrow> bool" where
  "rpm_inv K G t st \<longleftrightarrow>
     (\<exists>lg. window_inv (set K) ''global'' (global_window G) t (rg_limiter (fst st), lg)
        \<and> subseq (map global_hit (snd st)) (log_of ''global'' lg)) \<and> list_all has_global (snd st)"

lemma rpm_invI:
  "window_inv (set K) ''global'' (global_window G) t (rg_limiter s, L) \<Longrightarrow> subseq (map global_hit lg) (log_of ''global'' L)
   \<Longrightarrow> list_all has_global lg \<Longrightarrow> rpm_inv K G t (s, lg)"
  by (auto simp: rpm_inv_def)

lemma rpm_inv_frame: "rpm_inv K G t (s, lg) \<Longrightarrow> t \<le> t' \<Longrightarrow> rg_limiter s' = rg_limiter s \<Longrightarrow> rpm_inv K G t' (s', lg)"
  by (auto simp: rpm_inv_def intro: window_inv_later)

lemma rpm_inv_other [simp]:
  "rpm_inv K G t (rpm_block ro now p c m d s, lg) = rpm_inv K G t (s, lg)"
  "rpm_inv K G t (learnHeaderWindow ro p c m r w x s, lg) = rpm_inv K G t (s, lg)"
  "rpm_inv K G t (clearLearnedHeaderWindow ro p c m s, lg) = rpm_inv K G t (s, lg)"
  "rpm_inv K G t (clearConnection c s, lg) = rpm_inv K G t (s, lg)"
  "rpm_inv K G t (cleanupExpired now s, lg) = rpm_inv K G t (s, lg)"
  by (simp_all add: rpm_inv_def rpm_other_limiter)

lemma rpm_pass_inv:
  assumes inv: "rpm_inv K G t (s, lg)"
    and t: "t \<le> now" "0 \<le> now" and keys: "list_all (\<lambda>k. k \<in> set K) (scope_keys ro p c m)"
    and G: "ro_getGlobalRpm ro = Some G" "0 < G"
    and st: "rpm_pass ro now p c m ab maxWait started s = (r, s')"
  shows "rpm_inv K G now (s', lg @ let_through now r)"
proof -
  obtain scs s2 where g: "getScopes ro now p c m s = (scs, s2)" by fastforce
  note S = getScopes_keys [OF g]
  have glob: "''global'' \<in> set (map sc_key scs)" using S(3) [OF G] .
  have sc: "list_all (\<lambda>sc. sc_key sc \<in> set K \<and> (sc_key sc = ''global'' \<longrightarrow> sc_window sc = global_window G)) scs"
    using S(2,4) keys G by (fastforce simp: list_all_iff)
  have dist: "distinct (map sc_key (active_scopes scs))" using S(1) by (simp add: distinct_map_filter)
  have act: "\<forall>sc\<in>set scs. sc_key sc = ''global'' \<longrightarrow> sc \<in> set (active_scopes scs)"
    using sc G(2) by (auto simp: list_all_iff rpm_windowMs_def)
  then have glob_act: "''global'' \<in> sc_key ` set (active_scopes scs)" using glob by auto
  from rpm_pass_limiter [OF st t(2)] show ?thesis
  proof
    assume a: "rg_limiter s' = rg_limiter s \<and> (\<forall>l. r \<noteq> Leased l) \<and> (r = NoLimit \<longrightarrow> fst (getScopes ro now p c m s) = [])"
    then have "let_through now r = []" using glob g by (cases r) (auto simp: let_through_def)
    then show ?thesis using a rpm_inv_frame [OF inv t(1)] by simp
  next
    assume "\<exists>a. tryAcquireMany now (fst (getScopes ro now p c m s)) (rg_limiter s) = (a, rg_limiter s')
        \<and> r \<noteq> NoLimit \<and> (if am_allowed a then r = Leased (am_lease a) else (\<forall>l. r \<noteq> Leased l))"
    then obtain a where a: "tryAcquireMany now scs (rg_limiter s) = (a, rg_limiter s')" "r \<noteq> NoLimit"
      and r: "if am_allowed a then r = Leased (am_lease a) else (\<forall>l. r \<noteq> Leased l)" using g by auto
    obtain L where L: "window_inv (set K) ''global'' (global_window G) t (rg_limiter s, L)"
      "subseq (map global_hit lg) (log_of ''global'' L)" and has: "list_all has_global lg"
      using inv by (auto simp: rpm_inv_def)
    have w: "window_inv (set K) ''global'' (global_window G) now (rg_limiter s', L @ logged now scs a)"
      using window_inv_acquire [OF L(1) t(1) sc dist] a G(2) by (simp add: rpm_windowMs_def)
    show ?thesis
    proof (cases "am_allowed a")
      case True
      then have lt: "let_through now r = [(am_lease a, now)]" using r by (simp add: let_through_def)
      have few: "few_keys (set K) (rg_limiter s)" and ks: "sc_key ` set scs \<subseteq> set K"
        using L(1) sc by (auto simp: window_inv_def list_all_iff)
      note T = tryAcquireMany_spec [OF few ks dist a(1)]
      have "active_scopes scs \<noteq> []" by (rule notI) (use glob_act in \<open>simp only: list.set(1) image_empty empty_iff\<close>)
      then have "am_lease a \<noteq> None" using T(7) True by blast
      then obtain es where es: "am_lease a = Some es" "map fst es = map sc_key (active_scopes scs)" using T(4) by blast
      then have "''global'' \<in> set (map fst es)" using glob_act by simp
      then have "has_global (am_lease a, now)" using es(1) map_of_eq_None_iff [of es "''global''"] by (auto simp: has_global_def)
      moreover have hit: "log_of ''global'' (logged now scs a) = [global_hit (am_lease a, now)]"
        using log_of_logged [OF dist act, of now a] True glob_act by (simp only: simp_thms if_True global_hit_def fst_conv snd_conv)
      moreover from hit have "subseq (map global_hit (lg @ [(am_lease a, now)])) (log_of ''global'' (L @ logged now scs a))"
        using list_emb_append_mono [OF L(2), of "[global_hit (am_lease a, now)]" "[global_hit (am_lease a, now)]"] by simp
      ultimately show ?thesis using w has unfolding lt rpm_inv_def fst_conv snd_conv by (intro conjI) (blast, simp)
    next
      case False
      then have "let_through now r = []" "logged now scs a = []"
        using False r a(2) by (cases r; simp add: let_through_def logged_def)+
      then show ?thesis using w L(2) has by (auto simp: rpm_inv_def)
    qed
  qed
qed

lemma kept_hit:
  "has_global d \<Longrightarrow> \<not> gives_back es d \<Longrightarrow> (''global'', h_id (global_hit d)) \<notin> set es"
  by (fastforce simp: has_global_def gives_back_def global_hit_def lease_id_def list_ex_iff dest: map_of_SomeD)

lemma rpm_release_inv:
  assumes "rpm_inv K G t (s, lg)"
  shows "rpm_inv K G t (rpm_step ro (s, lg) (RpRelease es))"
proof -
  obtain L where L: "window_inv (set K) ''global'' (global_window G) t (rg_limiter s, L)"
    "subseq (map global_hit lg) (log_of ''global'' L)" and has: "list_all has_global lg"
    using assms by (auto simp: rpm_inv_def)
  let ?P = "\<lambda>h. (''global'', h_id h) \<notin> set es" and ?L = "filter (\<lambda>(k, h). (k, h_id h) \<notin> set es) L"
  have kept: "map global_hit (filter (\<lambda>d. \<not> gives_back es d) lg) = map global_hit (filter (\<lambda>d. \<not> gives_back es d) (filter (?P \<circ> global_hit) lg))"
    using has kept_hit by (auto simp: list_all_iff intro!: arg_cong [of _ _ "map global_hit"] filter_cong)
  have s1: "subseq (map global_hit (filter (\<lambda>d. \<not> gives_back es d) (filter (?P \<circ> global_hit) lg))) (filter ?P (map global_hit lg))"
    unfolding filter_map by (intro subseq_map subseq_filter_left)
  have s2: "subseq (filter ?P (map global_hit lg)) (filter ?P (log_of ''global'' L))" by (rule subseq_filter [OF L(2)])
  have new: "log_of ''global'' ?L = filter ?P (log_of ''global'' L)"
    unfolding log_of_def by (induction L) auto
  have "subseq (map global_hit (filter (\<lambda>d. \<not> gives_back es d) lg)) (log_of ''global'' ?L)"
    unfolding kept new by (rule subseq_order.order_trans [OF s1 s2])
  moreover have "window_inv (set K) ''global'' (global_window G) t (lease_release es (rg_limiter s), ?L)"
    using window_inv_release [OF L(1), of es] by simp
  moreover have "list_all has_global (filter (\<lambda>d. \<not> gives_back es d) lg)" using has by (simp add: list_all_iff)
  ultimately show ?thesis by (subst rpm_step.simps, intro rpm_invI [where L = ?L]) simp_all
qed

lemma rpm_start_inv:
  assumes inv: "rpm_inv K G t (s, lg)"
    and t: "t \<le> now" "0 \<le> now" and keys: "list_all (\<lambda>k. k \<in> set K) (scope_keys ro p c m)"
    and G: "ro_getGlobalRpm ro = Some G" "0 < G"
    and st: "rpm_acquire_start ro now p c m ab maxWait started s = (r, s')"
  shows "rpm_inv K G now (s', lg @ let_through now r)"
proof -
  obtain scs s1 where g: "getScopes ro now p c m s = (scs, s1)" by fastforce
  have "scs \<noteq> []" using getScopes_keys(3) [OF g G] by auto
  then have "rpm_pass ro now p c m ab maxWait started s1 = (r, s')" using st g by (simp add: rpm_acquire_start_def)
  with rpm_pass_inv [OF rpm_inv_frame [OF inv t(1) getScopes_limiter [OF g]] order_refl t(2) keys G] show ?thesis by blast
qed

lemma rpm_run_inv:
  assumes "rpm_inv K G t st" and "0 \<le> t" and "rpm_events_ok K ro t es" and "ro_getGlobalRpm ro = Some G" "0 < G"
  shows "\<exists>t'. rpm_inv K G t' (run (rpm_step ro) st es)"
  using assms(1-3)
proof (induction es arbitrary: t st)
  case (Cons e es)
  obtain s lg where st: "st = (s, lg)" by (cases st)
  show ?case
  proof (cases e)
    case (RpStart now p c m ab maxWait started)
    obtain r s' where r: "rpm_acquire_start ro now p c m ab maxWait started s = (r, s')" by fastforce
    have "rpm_inv K G now (s', lg @ let_through now r)"
      by (rule rpm_start_inv [OF _ _ _ _ assms(4,5) r]) (use Cons.prems st RpStart in auto)
    then show ?thesis using Cons.IH [of now] Cons.prems st r RpStart by simp
  next
    case (RpPass now p c m ab maxWait started)
    obtain r s' where r: "rpm_pass ro now p c m ab maxWait started s = (r, s')" by fastforce
    have "rpm_inv K G now (s', lg @ let_through now r)"
      by (rule rpm_pass_inv [OF _ _ _ _ assms(4,5) r]) (use Cons.prems st RpPass in auto)
    then show ?thesis using Cons.IH [of now] Cons.prems st r RpPass by simp
  next
    case (RpRelease rs)
    then show ?thesis using rpm_release_inv [of K G t s lg ro rs] Cons st by simp
  qed (use Cons st in simp_all)
qed auto

section \<open>Properties\<close>

text \<open>C32. The global budget: while the global limit is \<open>G\<close>, a positive number of requests per minute, the clock does not run backwards
  and at most \<open>MAX_KEYS\<close> scope keys are in use, no interval of a minute contains more than \<open>G\<close> requests that the gate lets through, with
  a lease or without, for all providers and accounts together, whatever blocks, learned windows and clean-ups happen in between.
  A request counts until it gives its lease back.\<close>

theorem global_rpm_is_never_exceeded:
  assumes "length (remdups K) \<le> MAX_KEYS" and "rpm_events_ok K ro 0 es" and "ro_getGlobalRpm ro = Some G" and "0 < G"
  shows "int (length (filter (\<lambda>d. u - rpm_windowMs < snd d \<and> snd d \<le> u) (snd (run (rpm_step ro) (new_RollingRpmGate, []) es)))) \<le> G"
proof -
  have "card (set K) \<le> MAX_KEYS" using assms(1) by (simp add: length_remdups_card_conv)
  then have "window_inv (set K) ''global'' (global_window G) 0 (rg_limiter new_RollingRpmGate, [])"
    using assms(4) by (simp add: window_inv_def few_keys_def new_RollingRpmGate_def new_SlidingWindowLimiter_def hits_of_def log_of_def)
  then have "rpm_inv K G 0 (new_RollingRpmGate, [])" by (auto simp: rpm_inv_def)
  from rpm_run_inv [OF this order_refl assms(2-4)] obtain t L where
    L: "window_inv (set K) ''global'' (global_window G) t (rg_limiter (fst (run (rpm_step ro) (new_RollingRpmGate, []) es)), L)"
    and sub: "subseq (map global_hit (snd (run (rpm_step ro) (new_RollingRpmGate, []) es))) (log_of ''global'' L)"
    by (auto simp: rpm_inv_def)
  let ?in = "\<lambda>h. u - rpm_windowMs < h_timestamp h \<and> h_timestamp h \<le> u"
  let ?lg = "snd (run (rpm_step ro) (new_RollingRpmGate, []) es)"
  have "length (filter (\<lambda>d. u - rpm_windowMs < snd d \<and> snd d \<le> u) ?lg) = length (filter ?in (map global_hit ?lg))"
    by (simp add: filter_map o_def global_hit_def)
  also have "\<dots> \<le> length (filter ?in (log_of ''global'' L))" by (rule list_emb_length [OF subseq_filter [OF sub]])
  also have "int \<dots> \<le> G" using L by (simp add: window_inv_def)
  finally show ?thesis by simp
qed

definition ex_rpm :: rpm_options where
  "ex_rpm = \<lparr>ro_getGlobalRpm = Some 2, ro_getProviderWindow = (\<lambda>_. None), ro_getConnectionRpm = (\<lambda>_. Some 1),
     ro_getLimiterKey = (\<lambda>p c m. p @ '':'' @ c)\<rparr>"

definition ex_rpm_events :: "rpm_event list" where
  "ex_rpm_events = [RpPass 10 ''glm'' ''a'' None False 5000 10, RpPass 20 ''glm'' ''b'' None False 5000 20,
     RpBlock 25 ''glm'' ''a'' None 100, RpPass 30 ''glm'' ''c'' None False 5000 30]"

definition ex_rpm_keys :: "string list" where
  "ex_rpm_keys = concat (map (\<lambda>c. scope_keys ex_rpm ''glm'' c None) [''a'', ''b'', ''c''])"

lemma global_rpm_is_never_exceeded_witness:
  "int (length (filter (\<lambda>d. 40 - rpm_windowMs < snd d \<and> snd d \<le> 40)
      (snd (run (rpm_step ex_rpm) (new_RollingRpmGate, []) ex_rpm_events)))) \<le> 2"
proof (rule global_rpm_is_never_exceeded)
  show "length (remdups ex_rpm_keys) \<le> MAX_KEYS"
    by (rule order_trans [OF length_remdups_leq]) (simp add: ex_rpm_keys_def scope_keys_def MAX_KEYS_def)
  show "rpm_events_ok ex_rpm_keys ex_rpm 0 ex_rpm_events" by code_simp
qed (simp_all add: ex_rpm_def)

text \<open>A bounded wait ends: with a positive \<open>maxWaitMs\<close> the loop of \<open>acquire\<close> returns after at most as many passes
  as milliseconds are left, however late its timers fire and whatever the other callers do; a timeout is only
  raised once the wait is over, and no sleep reaches beyond its end.\<close>

theorem bounded_wait_returns:
  assumes "0 < maxWait" and "\<forall>n. 0 \<le> late n" and "max 0 (started + maxWait - now) < int fuel"
  shows "\<exists>r t. rpm_loop fuel ro late env ab n now p c m maxWait started s = Some (r, t) \<and> now \<le> t
    \<and> (r = NoLimit \<or> r = RpmAborted \<or> (\<exists>l. r = Leased l) \<or> ((\<exists>x. r = QueueTimeout x) \<and> started + maxWait \<le> t))"
  using assms(3)
proof (induction fuel arbitrary: n now s)
  case (Suc fuel)
  obtain r s' where r: "rpm_pass ro now p c m (ab n) maxWait started s = (r, s')" by fastforce
  show ?case
  proof (cases r)
    case (SleepMs d)
    have d: "1 \<le> d" "now + d \<le> started + maxWait" using rpm_pass_sleep [of ro now p c m "ab n" maxWait started s d s'] r SleepMs assms(1) by auto
    have "0 \<le> late n" using assms(2) by simp
    then obtain q t where "rpm_loop fuel ro late env ab (Suc n) (now + d + late n) p c m maxWait started (env n s') = Some (q, t)"
      "now + d + late n \<le> t"
      "q = NoLimit \<or> q = RpmAborted \<or> (\<exists>l. q = Leased l) \<or> ((\<exists>x. q = QueueTimeout x) \<and> started + maxWait \<le> t)"
      using Suc.IH [of "now + d + late n" "Suc n" "env n s'"] Suc.prems d by auto
    then show ?thesis using r SleepMs d \<open>0 \<le> late n\<close> by auto
  qed (use r rpm_pass_cases [OF r] in auto)
qed simp

lemma bounded_wait_returns_witness:
  "\<exists>r t. rpm_loop 5001 ex_rpm (\<lambda>_. 3) (\<lambda>_ s. s) (\<lambda>_. False) 0 30 ''glm'' ''c'' None 5000 30
      (fst (run (rpm_step ex_rpm) (new_RollingRpmGate, []) ex_rpm_events)) = Some (r, t) \<and> 30 \<le> t
    \<and> (r = NoLimit \<or> r = RpmAborted \<or> (\<exists>l. r = Leased l) \<or> ((\<exists>x. r = QueueTimeout x) \<and> 30 + 5000 \<le> t))"
  by (rule bounded_wait_returns) simp_all

end
