(* ===== verification/QuotaShare.thy ===== *)
theory QuotaShare
  imports Omni_Prelude
begin

text \<open>
  The quota-share routing strategy: the saturation buckets of \<open>src/lib/quota/accountBuckets.ts\<close>, the in-flight counter of
  \<open>open-sse/services/combo/quotaShareInflight.ts\<close>, and the selection of
  \<open>open-sse/services/combo/quotaShareStrategy.ts\<close> with its deficit round robin.

  \<open>Date.parse\<close> is the argument \<open>date_parse\<close> (\<open>None\<close> for \<open>NaN\<close>). Weights and deficits are exact rationals.
\<close>

section \<open>Saturation buckets\<close>

record bucket_entry =
  be_saturated :: bool
  be_resetsAtMs :: int

record usage_quota =
  uq_used :: jsval
  uq_resetAt :: "string option"

type_synonym buckets = "(string, bucket_entry) jsmap"

definition SATURATION_THRESHOLD_PCT :: rat where
  "SATURATION_THRESHOLD_PCT = 100"

definition storeKey :: "string \<Rightarrow> string \<Rightarrow> string" where
  "storeKey connectionId windowKey = connectionId @ ''::'' @ windowKey"

definition parseResetAtMs :: "(string \<Rightarrow> int option) \<Rightarrow> string option \<Rightarrow> int" where
  "parseResetAtMs date_parse resetAt =
     (case resetAt of
        None \<Rightarrow> 0
      | Some s \<Rightarrow> if s = [] then 0 else (case date_parse s of Some ms \<Rightarrow> if ms > 0 then ms else 0 | None \<Rightarrow> 0))"

definition isBucketSaturated :: "string \<Rightarrow> string \<Rightarrow> int \<Rightarrow> buckets \<Rightarrow> bool \<times> buckets" where
  "isBucketSaturated connectionId windowKey nowMs b =
     (if connectionId = [] \<or> windowKey = [] then (False, b)
      else (case jm_get b (storeKey connectionId windowKey) of
              None \<Rightarrow> (False, b)
            | Some e \<Rightarrow>
                if be_resetsAtMs e > 0 \<and> nowMs \<ge> be_resetsAtMs e
                then (False, jm_del (storeKey connectionId windowKey) b)
                else (be_saturated e, b)))"

definition recordUsage :: "(string \<Rightarrow> int option) \<Rightarrow> string \<Rightarrow> string \<Rightarrow> jsval \<Rightarrow> string option \<Rightarrow> int \<Rightarrow> buckets \<Rightarrow> buckets" where
  "recordUsage date_parse connectionId windowKey usedPct resetAt nowMs b =
     (if connectionId = [] \<or> windowKey = [] then b
      else (let k = storeKey connectionId windowKey; resetsAtMs = parseResetAtMs date_parse resetAt
            in if resetsAtMs > 0 \<and> nowMs \<ge> resetsAtMs then jm_del k b
               else if \<not> (case usedPct of Num r \<Rightarrow> r \<ge> SATURATION_THRESHOLD_PCT | _ \<Rightarrow> False) then jm_del k b
               else jm_set k \<lparr>be_saturated = True, be_resetsAtMs = resetsAtMs\<rparr> b))"

definition processQuotaEntry :: "(string \<Rightarrow> int option) \<Rightarrow> string \<Rightarrow> string \<Rightarrow> usage_quota option \<Rightarrow> int \<Rightarrow> buckets \<Rightarrow> buckets" where
  "processQuotaEntry date_parse connectionId windowKey entry nowMs b =
     (case entry of
        None \<Rightarrow> b
      | Some e \<Rightarrow> (case uq_used e of
            Num r \<Rightarrow> recordUsage date_parse connectionId windowKey (Num r) (uq_resetAt e) nowMs b
          | NonFinite \<Rightarrow> recordUsage date_parse connectionId windowKey NonFinite (uq_resetAt e) nowMs b
          | _ \<Rightarrow> b))"

text \<open>The group of \<open>/^weekly (.+) \(7d\)$/\<close>; the dot matches no line break.\<close>

definition weekly_model :: "string \<Rightarrow> string option" where
  "weekly_model k =
     (let m = take (length k - 12) (drop 7 k)
      in if k = ''weekly '' @ m @ '' (7d)'' \<and> m \<noteq> [] \<and> CHR 0x0A \<notin> set m \<and> CHR 0x0D \<notin> set m then Some m else None)"

definition updateAccountBuckets ::
  "(string \<Rightarrow> int option) \<Rightarrow> string \<Rightarrow> (string, usage_quota option) jsmap option \<Rightarrow> int \<Rightarrow> buckets \<Rightarrow> buckets" where
  "updateAccountBuckets date_parse connectionId quotas nowMs b =
     (case quotas of
        None \<Rightarrow> b
      | Some qs \<Rightarrow>
          if connectionId = [] then b
          else (let entry = (\<lambda>k. case jm_get qs k of None \<Rightarrow> None | Some e \<Rightarrow> e);
                    b1 = processQuotaEntry date_parse connectionId ''5h'' (entry ''session (5h)'') nowMs b;
                    b2 = processQuotaEntry date_parse connectionId ''7d'' (entry ''weekly (7d)'') nowMs b1
                in fold (\<lambda>(k, e) b. case weekly_model k of
                      None \<Rightarrow> b
                    | Some m \<Rightarrow> processQuotaEntry date_parse connectionId (''7d:'' @ m) e nowMs b) qs b2))"

section \<open>In-flight counter\<close>

record inflight_slot =
  is_count :: int
  is_expiresAtMs :: int

type_synonym inflight = "(string, inflight_slot) jsmap"

definition DEFAULT_LEASE_MS :: int where
  "DEFAULT_LEASE_MS = 120000"

definition pruneExpired :: "int \<Rightarrow> inflight \<Rightarrow> inflight" where
  "pruneExpired nowMs m = filter (\<lambda>p. \<not> is_expiresAtMs (snd p) \<le> nowMs) m"

definition incrementInflight :: "string \<Rightarrow> int \<Rightarrow> int \<Rightarrow> inflight \<Rightarrow> int \<times> inflight" where
  "incrementInflight c leaseMs nowMs m0 =
     (if c = [] then (0, m0)
      else (let m = pruneExpired nowMs m0;
                base = (case jm_get m c of Some sl \<Rightarrow> if is_expiresAtMs sl > nowMs then is_count sl else 0 | None \<Rightarrow> 0)
            in (base + 1, jm_set c \<lparr>is_count = base + 1, is_expiresAtMs = nowMs + leaseMs\<rparr> m)))"

definition decrementInflight :: "string \<Rightarrow> int \<Rightarrow> inflight \<Rightarrow> inflight" where
  "decrementInflight c nowMs m =
     (if c = [] then m
      else (case jm_get m c of
              None \<Rightarrow> jm_del c m
            | Some sl \<Rightarrow>
                if is_expiresAtMs sl \<le> nowMs then jm_del c m
                else (let n = max 0 (is_count sl - 1)
                      in if n = 0 then jm_del c m
                         else jm_set c \<lparr>is_count = n, is_expiresAtMs = is_expiresAtMs sl\<rparr> m)))"

definition getInflight :: "string \<Rightarrow> int \<Rightarrow> inflight \<Rightarrow> int" where
  "getInflight c nowMs m =
     (if c = [] then 0
      else (case jm_get m c of
              None \<Rightarrow> 0
            | Some sl \<Rightarrow> if is_expiresAtMs sl \<le> nowMs then 0 else is_count sl))"

section \<open>Selection\<close>

record target =
  t_executionKey :: string
  t_connectionId :: "string option"
  t_weight :: jsval

record quota_share =
  qs_buckets :: buckets
  qs_inflight :: inflight
  qs_drr :: "(string, (string, rat) jsmap) jsmap"

definition MAX_DRR_COMBOS :: nat where
  "MAX_DRR_COMBOS = 200"

definition conn :: "target \<Rightarrow> string" where
  "conn t = (case t_connectionId t of None \<Rightarrow> [] | Some c \<Rightarrow> c)"

definition getDrrDeficits :: "string \<Rightarrow> (string, (string, rat) jsmap) jsmap \<Rightarrow> (string, rat) jsmap \<times> (string, (string, rat) jsmap) jsmap" where
  "getDrrDeficits combo drr =
     (case jm_get drr combo of
        Some d \<Rightarrow> (d, drr)
      | None \<Rightarrow>
          (let m = (if length drr \<ge> MAX_DRR_COMBOS then jm_del (fst (hd drr)) drr else drr)
           in ([], jm_set combo [] m)))"

definition bareModelName :: "string \<Rightarrow> string" where
  "bareModelName s = (case dropWhile (\<lambda>c. c \<noteq> CHR ''/'') s of [] \<Rightarrow> s | _ # rest \<Rightarrow> rest)"

definition target_saturated :: "string \<Rightarrow> int \<Rightarrow> target \<Rightarrow> buckets \<Rightarrow> bool \<times> buckets" where
  "target_saturated model nowMs t b0 =
     (if conn t = [] then (False, b0)
      else (case isBucketSaturated (conn t) ''5h'' nowMs b0 of
              (True, b1) \<Rightarrow> (True, b1)
            | (False, b1) \<Rightarrow>
                (case isBucketSaturated (conn t) ''7d'' nowMs b1 of
                   (True, b2) \<Rightarrow> (True, b2)
                 | (False, b2) \<Rightarrow>
                     if model = [] then (False, b2)
                     else isBucketSaturated (conn t) (''7d:'' @ model) nowMs b2)))"

fun eligible_targets :: "string \<Rightarrow> int \<Rightarrow> target list \<Rightarrow> buckets \<Rightarrow> target list \<times> buckets" where
  "eligible_targets model nowMs [] b = ([], b)"
| "eligible_targets model nowMs (t # ts) b =
     (let (sat, b1) = target_saturated model nowMs t b; (es, b2) = eligible_targets model nowMs ts b1
      in (if sat then es else t # es, b2))"

definition filterEligibleBySaturation :: "target list \<Rightarrow> string \<Rightarrow> int \<Rightarrow> buckets \<Rightarrow> target list \<times> buckets" where
  "filterEligibleBySaturation ts modelStr nowMs b =
     (let (es, b') = eligible_targets (bareModelName modelStr) nowMs ts b
      in (if es \<noteq> [] then es else ts, b'))"

definition resolveConnectionCap :: "string \<Rightarrow> (string, jsval) jsmap option \<Rightarrow> rat option" where
  "resolveConnectionCap c caps =
     (case caps of
        None \<Rightarrow> None
      | Some m \<Rightarrow> if c = [] then None
                  else (case jm_get m c of Some (Num r) \<Rightarrow> if r \<le> 0 then None else Some r | _ \<Rightarrow> None))"

definition at_cap :: "(string, jsval) jsmap option \<Rightarrow> int \<Rightarrow> inflight \<Rightarrow> target \<Rightarrow> bool" where
  "at_cap caps nowMs infl t =
     (case resolveConnectionCap (conn t) caps of None \<Rightarrow> False | Some cap \<Rightarrow> of_int (getInflight (conn t) nowMs infl) \<ge> cap)"

definition partitionByConcurrencyCap ::
  "target list \<Rightarrow> (string, jsval) jsmap option \<Rightarrow> int \<Rightarrow> inflight \<Rightarrow> target list \<times> target list" where
  "partitionByConcurrencyCap ts caps nowMs infl =
     (if caps = None \<or> caps = Some [] then (ts, [])
      else (let withRoom = filter (\<lambda>t. \<not> at_cap caps nowMs infl t) ts; atCap = filter (at_cap caps nowMs infl) ts
            in if withRoom = [] then (ts, []) else (withRoom, atCap)))"

definition normalizeWeight :: "jsval \<Rightarrow> rat" where
  "normalizeWeight w = (case w of Num r \<Rightarrow> if r = 0 then 0 else if r > 0 then r else 1 | _ \<Rightarrow> 1)"

definition deficit :: "(string, rat) jsmap \<Rightarrow> string \<Rightarrow> rat" where
  "deficit d k = (case jm_get d k of None \<Rightarrow> 0 | Some x \<Rightarrow> x)"

definition add_quanta :: "rat \<Rightarrow> target list \<Rightarrow> (string, rat) jsmap \<Rightarrow> (string, rat) jsmap" where
  "add_quanta W ts d =
     fold (\<lambda>t d. jm_set (t_executionKey t) (deficit d (t_executionKey t) + normalizeWeight (t_weight t) / W) d) ts d"

fun best_deficit :: "(string, rat) jsmap \<Rightarrow> target list \<Rightarrow> target \<Rightarrow> rat \<Rightarrow> target \<times> rat" where
  "best_deficit d [] winner best = (winner, best)"
| "best_deficit d (t # ts) winner best =
     (if deficit d (t_executionKey t) > best then best_deficit d ts t (deficit d (t_executionKey t))
      else best_deficit d ts winner best)"

definition applyDrr ::
  "target list \<Rightarrow> string \<Rightarrow> (string, (string, rat) jsmap) jsmap \<Rightarrow> target list \<times> (string, (string, rat) jsmap) jsmap" where
  "applyDrr ts combo drr0 =
     (if length ts \<le> 1 then (ts, drr0)
      else (let (d, drr) = getDrrDeficits combo drr0;
                W = sum_list (map (\<lambda>t. normalizeWeight (t_weight t)) ts)
            in if W \<le> 0 then (ts, drr)
               else (let d1 = add_quanta W ts d;
                         (winner, best) = best_deficit d1 (tl ts) (hd ts) (deficit d1 (t_executionKey (hd ts)));
                         d2 = jm_set (t_executionKey winner) (best - 1) d1
                     in (winner # filter (\<lambda>t. t_executionKey t \<noteq> t_executionKey winner) ts, jm_set combo d2 drr))))"

definition pickByInflightP2C :: "target \<Rightarrow> target \<Rightarrow> int \<Rightarrow> inflight \<Rightarrow> nat" where
  "pickByInflightP2C a b nowMs infl = (if getInflight (conn b) nowMs infl < getInflight (conn a) nowMs infl then 1 else 0)"

record quota_share_result =
  qr_target :: "target option"
  qr_orderedTargets :: "target list"

definition selectQuotaShareTarget ::
  "target list \<Rightarrow> string \<Rightarrow> string \<Rightarrow> int \<Rightarrow> (string, jsval) jsmap option \<Rightarrow> quota_share \<Rightarrow> quota_share_result \<times> quota_share" where
  "selectQuotaShareTarget ts combo modelStr nowMs caps s =
     (if ts = [] then (\<lparr>qr_target = None, qr_orderedTargets = []\<rparr>, s)
      else (let (elig, b) = filterEligibleBySaturation ts modelStr nowMs (qs_buckets s);
                saturated = filter (\<lambda>t. t \<notin> set elig) ts;
                (withRoom, atCap) = partitionByConcurrencyCap elig caps nowMs (qs_inflight s);
                (ordered, drr) = applyDrr withRoom combo (qs_drr s);
                (winner, rest) =
                  (if length ordered \<ge> 2 \<and> pickByInflightP2C (ordered ! 0) (ordered ! 1) nowMs (qs_inflight s) = 1
                   then (ordered ! 1, ordered ! 0 # drop 2 ordered) else (hd ordered, tl ordered));
                infl = (if conn winner \<noteq> [] then snd (incrementInflight (conn winner) DEFAULT_LEASE_MS nowMs (qs_inflight s))
                        else qs_inflight s)
            in (\<lparr>qr_target = Some winner, qr_orderedTargets = winner # rest @ atCap @ saturated\<rparr>,
                s\<lparr>qs_buckets := b, qs_inflight := infl, qs_drr := drr\<rparr>)))"

text \<open>The callback of a selection at \<open>selectedAt\<close>; it runs once, with the clock of the selection.\<close>

definition release_selection :: "quota_share_result \<Rightarrow> int \<Rightarrow> quota_share \<Rightarrow> quota_share" where
  "release_selection r selectedAt s =
     (case qr_target r of
        None \<Rightarrow> s
      | Some t \<Rightarrow> if conn t \<noteq> [] then s\<lparr>qs_inflight := decrementInflight (conn t) selectedAt (qs_inflight s)\<rparr> else s)"

section \<open>Deficit round robin\<close>

definition weight_of :: "target \<Rightarrow> rat" where
  "weight_of t = normalizeWeight (t_weight t)"

lemma weight_nonneg: "0 \<le> weight_of t"
  by (simp add: weight_of_def normalizeWeight_def split: jsval.split)

lemma deficit_set [simp]: "deficit (jm_set k x d) k' = (if k' = k then x else deficit d k')"
  by (simp add: deficit_def)

lemma add_quanta_deficit:
  assumes "distinct (map t_executionKey ts)"
  shows "deficit (add_quanta W ts d) k =
    deficit d k + (case find (\<lambda>t. t_executionKey t = k) ts of None \<Rightarrow> 0 | Some t \<Rightarrow> weight_of t / W)"
  using assms
proof (induction ts arbitrary: d)
  case (Cons t ts)
  have "find (\<lambda>t'. t_executionKey t' = t_executionKey t) ts = None"
    using Cons.prems by (auto simp: find_None_iff image_iff)
  then show ?case
    using Cons by (auto simp: add_quanta_def weight_of_def [symmetric] split: option.split)
qed (simp add: add_quanta_def)

lemma find_target:
  "distinct (map t_executionKey ts) \<Longrightarrow> t \<in> set ts \<Longrightarrow> find (\<lambda>u. t_executionKey u = t_executionKey t) ts = Some t"
  by (induction ts) auto

lemma best_deficit_spec:
  assumes "best = deficit d (t_executionKey w)" and "best_deficit d ts w best = (w', best')"
  shows "w' \<in> set (w # ts) \<and> best' = deficit d (t_executionKey w') \<and> (\<forall>t\<in>set (w # ts). deficit d (t_executionKey t) \<le> best')"
  using assms
proof (induction ts arbitrary: w best)
  case (Cons t ts)
  show ?case
  proof (cases "deficit d (t_executionKey t) > best")
    case True
    then have r: "best_deficit d ts t (deficit d (t_executionKey t)) = (w', best')" using Cons.prems by simp
    show ?thesis using Cons.IH [OF refl r] True Cons.prems(1) by auto
  next
    case False
    then have r: "best_deficit d ts w best = (w', best')" using Cons.prems by simp
    show ?thesis using Cons.IH [OF Cons.prems(1) r] False Cons.prems(1) by auto
  qed
qed simp

definition combo_deficit :: "string \<Rightarrow> (string, (string, rat) jsmap) jsmap \<Rightarrow> target \<Rightarrow> rat" where
  "combo_deficit combo drr t = deficit (fst (getDrrDeficits combo drr)) (t_executionKey t)"

lemma combo_deficit_stored [simp]: "combo_deficit combo (jm_set combo d drr) t = deficit d (t_executionKey t)"
  by (simp add: combo_deficit_def getDrrDeficits_def)

abbreviation total_weight :: "target list \<Rightarrow> rat" where
  "total_weight ts \<equiv> sum_list (map weight_of ts)"

lemma applyDrr_spec:
  assumes dist: "distinct (map t_executionKey ts)" and len: "2 \<le> length ts" and W: "0 < total_weight ts"
    and a: "applyDrr ts combo drr = (ordered, drr')"
  obtains w where "w \<in> set ts" "ordered = w # filter (\<lambda>t. t_executionKey t \<noteq> t_executionKey w) ts"
    "\<And>t. t \<in> set ts \<Longrightarrow> combo_deficit combo drr' t =
       combo_deficit combo drr t + weight_of t / total_weight ts - (if t = w then 1 else 0)"
    "\<And>t. t \<in> set ts \<Longrightarrow> combo_deficit combo drr t + weight_of t / total_weight ts
       \<le> combo_deficit combo drr w + weight_of w / total_weight ts"
proof -
  obtain d dr where g: "getDrrDeficits combo drr = (d, dr)" by fastforce
  define d1 where "d1 = add_quanta (total_weight ts) ts d"
  obtain w best where b: "best_deficit d1 (tl ts) (hd ts) (deficit d1 (t_executionKey (hd ts))) = (w, best)" by fastforce
  have ne: "ts \<noteq> []" using len by auto
  note B = best_deficit_spec [OF refl b]
  have wts: "w \<in> set ts" using B ne by simp
  have out: "ordered = w # filter (\<lambda>t. t_executionKey t \<noteq> t_executionKey w) ts"
      "drr' = jm_set combo (jm_set (t_executionKey w) (best - 1) d1) dr"
    using a len W g b unfolding applyDrr_def d1_def by (simp_all add: weight_of_def [abs_def] Let_def)
  have d1: "deficit d1 (t_executionKey t) = combo_deficit combo drr t + weight_of t / total_weight ts" if "t \<in> set ts" for t
    using that dist by (simp add: d1_def add_quanta_deficit find_target combo_deficit_def g)
  have "inj_on t_executionKey (set ts)" using dist by (simp add: distinct_map)
  then have key: "t_executionKey t = t_executionKey w \<longleftrightarrow> t = w" if "t \<in> set ts" for t
    using that wts by (auto dest: inj_onD)
  show ?thesis
  proof (rule that [OF wts out(1)])
    show "combo_deficit combo drr' t = combo_deficit combo drr t + weight_of t / total_weight ts - (if t = w then 1 else 0)"
      if "t \<in> set ts" for t
      using that d1 [OF that] d1 [OF wts] B key [OF that]
      by (simp add: out(2))
    show "combo_deficit combo drr t + weight_of t / total_weight ts \<le> combo_deficit combo drr w + weight_of w / total_weight ts"
      if "t \<in> set ts" for t
      using B ne that d1 [OF that] d1 [OF wts] by (metis list.collapse)
  qed
qed

text \<open>\<open>n\<close> rounds over the same targets, with the keys that come first.\<close>

fun drr_rounds :: "nat \<Rightarrow> target list \<Rightarrow> string \<Rightarrow> (string, (string, rat) jsmap) jsmap \<Rightarrow> string list \<times> (string, (string, rat) jsmap) jsmap" where
  "drr_rounds 0 ts combo drr = ([], drr)"
| "drr_rounds (Suc n) ts combo drr =
     (let (ordered, drr1) = applyDrr ts combo drr; (ks, drr2) = drr_rounds n ts combo drr1
      in (t_executionKey (hd ordered) # ks, drr2))"

lemma sum_list_one:
  assumes "distinct ts" and "w \<in> set ts"
  shows "sum_list (map (\<lambda>t. if t = w then 1 else 0) ts) = (1::rat)"
proof -
  have "w \<notin> set us \<Longrightarrow> sum_list (map (\<lambda>t. if t = w then 1 else 0) us) = (0::rat)" for us
    by (induction us) auto
  then show ?thesis using assms by (induction ts) auto
qed

lemma sum_list_quotient: "sum_list (map (\<lambda>t. f t / (c::rat)) ts) = sum_list (map f ts) / c"
  by (induction ts) (simp_all add: add_divide_distrib)

lemma sum_list_le_max:
  assumes "\<forall>t\<in>set ts. f t \<le> (c::rat)"
  shows "sum_list (map f ts) \<le> of_nat (length ts) * c"
  using assms by (induction ts) (auto simp: algebra_simps)

lemma drr_rounds_balance:
  assumes dist: "distinct (map t_executionKey ts)" and len: "2 \<le> length ts" and W: "0 < total_weight ts"
    and r: "drr_rounds n ts combo drr = (ks, drr')"
    and zero: "sum_list (map (combo_deficit combo drr) ts) = 0" and low: "\<forall>t\<in>set ts. - 1 < combo_deficit combo drr t"
  shows "sum_list (map (combo_deficit combo drr') ts) = 0 \<and> (\<forall>t\<in>set ts. - 1 < combo_deficit combo drr' t)
    \<and> (\<forall>t\<in>set ts. combo_deficit combo drr' t = combo_deficit combo drr t + of_nat n * (weight_of t / total_weight ts)
        - of_nat (count_list ks (t_executionKey t)))"
  using r zero low
proof (induction n arbitrary: drr ks)
  case (Suc n)
  obtain ordered drr1 where a: "applyDrr ts combo drr = (ordered, drr1)" by fastforce
  obtain ks' where r': "drr_rounds n ts combo drr1 = (ks', drr')" and ks: "ks = t_executionKey (hd ordered) # ks'"
    using Suc.prems(1) a by (auto split: prod.splits)
  obtain w where w: "w \<in> set ts" "ordered = w # filter (\<lambda>t. t_executionKey t \<noteq> t_executionKey w) ts"
    and step: "\<And>t. t \<in> set ts \<Longrightarrow> combo_deficit combo drr1 t =
       combo_deficit combo drr t + weight_of t / total_weight ts - (if t = w then 1 else 0)"
    and mx: "\<And>t. t \<in> set ts \<Longrightarrow> combo_deficit combo drr t + weight_of t / total_weight ts
       \<le> combo_deficit combo drr w + weight_of w / total_weight ts"
    using applyDrr_spec [OF dist len W a] by blast
  have dts: "distinct ts" using dist by (simp add: distinct_map)
  have quanta: "sum_list (map (\<lambda>t. weight_of t / total_weight ts) ts) = 1"
    using W by (simp add: sum_list_quotient)
  have tot: "sum_list (map (\<lambda>t. combo_deficit combo drr t + weight_of t / total_weight ts) ts) = 1"
    by (simp add: sum_list_addf Suc.prems(2) quanta)
  have zero1: "sum_list (map (combo_deficit combo drr1) ts) = 0"
  proof -
    have "sum_list (map (combo_deficit combo drr1) ts) =
        sum_list (map (\<lambda>t. (combo_deficit combo drr t + weight_of t / total_weight ts) - (if t = w then 1 else 0)) ts)"
      using step by (intro arg_cong [of _ _ sum_list] map_cong) auto
    also have "\<dots> = 0" using tot sum_list_one [OF dts w(1)] by (simp add: sum_list_subtractf)
    finally show ?thesis .
  qed
  have "1 \<le> of_nat (length ts) * (combo_deficit combo drr w + weight_of w / total_weight ts)"
    using sum_list_le_max [of ts "\<lambda>t. combo_deficit combo drr t + weight_of t / total_weight ts"] mx tot by auto
  then have "0 < combo_deficit combo drr w + weight_of w / total_weight ts"
    by (metis less_le_trans mult_nonneg_nonpos not_less of_nat_0_le_iff zero_less_one order_less_irrefl)
  moreover have "- 1 < combo_deficit combo drr t + weight_of t / total_weight ts" if "t \<in> set ts" for t
  proof -
    have "0 \<le> weight_of t / total_weight ts" using W weight_nonneg by simp
    then show ?thesis using Suc.prems(3) that by fastforce
  qed
  ultimately have low1: "\<forall>t\<in>set ts. - 1 < combo_deficit combo drr1 t"
    using step by (simp add: less_diff_eq)
  have "combo_deficit combo drr1 t = combo_deficit combo drr t + weight_of t / total_weight ts - (if t_executionKey t = t_executionKey w then 1 else 0)"
    if "t \<in> set ts" for t
    using step [OF that] that w(1) dist by (auto simp: distinct_map dest: inj_onD)
  then have last: "combo_deficit combo drr' t = combo_deficit combo drr t + of_nat (Suc n) * (weight_of t / total_weight ts)
      - of_nat (count_list ks (t_executionKey t))" if "t \<in> set ts" for t
  proof -
    define q where "q = weight_of t / total_weight ts"
    have "combo_deficit combo drr' t = combo_deficit combo drr1 t + of_nat n * q - of_nat (count_list ks' (t_executionKey t))"
      using Suc.IH [OF r' zero1 low1] that by (simp add: q_def)
    moreover have "combo_deficit combo drr1 t = combo_deficit combo drr t + q - (if t_executionKey t = t_executionKey w then 1 else 0)"
      using that step by (simp add: q_def \<open>\<And>t. t \<in> set ts \<Longrightarrow> combo_deficit combo drr1 t = combo_deficit combo drr t + weight_of t / total_weight ts - (if t_executionKey t = t_executionKey w then 1 else 0)\<close>)
    ultimately show ?thesis unfolding q_def [symmetric] by (auto simp: ks w(2) algebra_simps)
  qed
  then show ?case using Suc.IH [OF r' zero1 low1] by blast
qed simp

lemma sum_others_bound:
  assumes "t \<in> set ts" and "\<forall>u\<in>set ts. - 1 < f u" and "sum_list (map f ts) = (0::rat)"
  shows "f t \<le> of_nat (length ts) - 1"
proof -
  have "\<forall>u\<in>set ts. - 1 < f u \<Longrightarrow> - of_nat (length ts) \<le> sum_list (map f ts)" for ts
    by (induction ts) (auto intro: add_mono)
  moreover have "\<forall>u\<in>set (remove1 t ts). - 1 < f u" using assms(2) by (meson notin_set_remove1 set_remove1_subset subsetD)
  ultimately have "- of_nat (length (remove1 t ts)) \<le> sum_list (map f (remove1 t ts))" by blast
  moreover have "sum_list (map f (remove1 t ts)) = sum_list (map f ts) - f t"
    using assms(1) by (induction ts) auto
  moreover have "of_nat (length (remove1 t ts)) = (of_nat (length ts) - 1 :: rat)"
    using assms(1) by (cases "length ts") (simp_all add: length_remove1)
  ultimately show ?thesis using assms(3) by simp
qed

section \<open>Selection\<close>

lemma eligible_targets_sub:
  "eligible_targets m now ts b = (es, b') \<Longrightarrow> subseq es ts"
proof (induction m now ts b arbitrary: es b' rule: eligible_targets.induct)
  case (2 m now t ts b)
  then show ?case by (auto split: prod.splits if_splits)
qed simp

lemma mset_filter_subset:
  assumes "subseq es ts" and "distinct ts"
  shows "mset es + mset (filter (\<lambda>t. t \<notin> set es) ts) = mset ts"
proof -
  have "distinct es" using assms by (auto simp: subseq_conv_nths)
  moreover have "set es \<subseteq> set ts" using assms(1) by (auto simp: subseq_conv_nths dest: in_set_nthsD)
  ultimately have "mset es = mset (filter (\<lambda>t. t \<in> set es) ts)"
    using assms(2) set_eq_iff_mset_eq_distinct [of es "filter (\<lambda>t. t \<in> set es) ts"] by fastforce
  then show ?thesis using multiset_partition [of "mset ts" "\<lambda>t. t \<in> set es"] by simp
qed

lemma applyDrr_mset:
  assumes dist: "distinct (map t_executionKey ts)" and a: "applyDrr ts combo drr = (ordered, drr')"
  shows "mset ordered = mset ts"
proof (cases "length ts \<le> 1 \<or> total_weight ts \<le> 0")
  case True
  then show ?thesis using a by (auto simp: applyDrr_def weight_of_def [abs_def] Let_def split: if_splits prod.splits)
next
  case False
  then obtain w where w: "w \<in> set ts" "ordered = w # filter (\<lambda>t. t_executionKey t \<noteq> t_executionKey w) ts"
    using applyDrr_spec [OF dist _ _ a] by (auto simp: not_le)
  have "filter (\<lambda>t. t_executionKey t \<noteq> t_executionKey w) ts = remove1 w ts"
    using dist w(1) by (auto simp: distinct_remove1_removeAll distinct_map removeAll_filter_not_eq intro!: filter_cong dest: inj_onD)
  then show ?thesis using w by simp
qed

lemma partition_mset:
  "partitionByConcurrencyCap ts caps now infl = (room, cap) \<Longrightarrow> mset room + mset cap = mset ts \<and> (ts \<noteq> [] \<longrightarrow> room \<noteq> [])
   \<and> subseq room ts \<and> ((\<exists>u\<in>set ts. \<not> at_cap caps now infl u) \<longrightarrow> (\<forall>t\<in>set room. \<not> at_cap caps now infl t))"
proof -
  assume p: "partitionByConcurrencyCap ts caps now infl = (room, cap)"
  have none: "caps = None \<or> caps = Some [] \<Longrightarrow> \<not> at_cap caps now infl t" for t
    by (auto simp: at_cap_def resolveConnectionCap_def split: if_splits)
  show ?thesis
    using p none multiset_partition [of "mset ts" "at_cap caps now infl"]
    by (auto simp: partitionByConcurrencyCap_def Let_def filter_empty_conv split: if_splits)
qed

section \<open>Properties\<close>

text \<open>C18. Proportional service: over \<open>n\<close> consecutive rounds of the deficit round robin on the same targets, each target
  comes first as often as its share of the total weight says, to within one round above and the number of
  targets less one below, from whatever state has no credit for the combo yet.\<close>

theorem drr_serves_in_proportion:
  assumes dist: "distinct (map t_executionKey ts)" and len: "2 \<le> length ts" and W: "0 < total_weight ts"
    and fresh: "jm_get drr combo = None" and t: "t \<in> set ts"
  shows "of_nat (count_list (fst (drr_rounds n ts combo drr)) (t_executionKey t)) < of_nat n * (weight_of t / total_weight ts) + 1
    \<and> of_nat n * (weight_of t / total_weight ts) - (of_nat (length ts) - 1)
       \<le> (of_nat (count_list (fst (drr_rounds n ts combo drr)) (t_executionKey t)) :: rat)"
proof -
  obtain ks drr' where r: "drr_rounds n ts combo drr = (ks, drr')" by fastforce
  have z: "combo_deficit combo drr u = 0" for u using fresh by (simp add: combo_deficit_def getDrrDeficits_def deficit_def)
  have "sum_list (map (combo_deficit combo drr) ts) = 0" by (simp add: z [abs_def])
  from drr_rounds_balance [OF dist len W r this] z
  have b: "sum_list (map (combo_deficit combo drr') ts) = 0" "\<forall>u\<in>set ts. - 1 < combo_deficit combo drr' u"
    "combo_deficit combo drr' t = of_nat n * (weight_of t / total_weight ts) - of_nat (count_list ks (t_executionKey t))"
    using t by auto
  have "- 1 < combo_deficit combo drr' t" "combo_deficit combo drr' t \<le> of_nat (length ts) - 1"
    using b(2) t sum_others_bound [OF t b(2,1)] by auto
  then show ?thesis unfolding b(3) r by (auto simp: algebra_simps)
qed

definition ex_targets :: "target list" where
  "ex_targets = [\<lparr>t_executionKey = ''a'', t_connectionId = Some ''c1'', t_weight = Num 3\<rparr>,
     \<lparr>t_executionKey = ''b'', t_connectionId = Some ''c2'', t_weight = Num 1\<rparr>,
     \<lparr>t_executionKey = ''z'', t_connectionId = None, t_weight = Num 0\<rparr>]"

lemma drr_serves_in_proportion_witness:
  "of_nat (count_list (fst (drr_rounds 8 ex_targets ''qtSd/x'' [])) ''a'') < (7::rat)
   \<and> (4::rat) \<le> of_nat (count_list (fst (drr_rounds 8 ex_targets ''qtSd/x'' [])) ''a'')
   \<and> fst (drr_rounds 8 ex_targets ''qtSd/x'' []) = [''a'', ''a'', ''b'', ''a'', ''a'', ''a'', ''b'', ''a'']"
proof -
  have t: "hd ex_targets \<in> set ex_targets" "t_executionKey (hd ex_targets) = ''a''" by (simp_all add: ex_targets_def)
  have w: "weight_of (hd ex_targets) / total_weight ex_targets = 3 / 4" "length ex_targets = 3" "0 < total_weight ex_targets"
    by (simp_all add: ex_targets_def weight_of_def normalizeWeight_def)
  have "of_nat (count_list (fst (drr_rounds 8 ex_targets ''qtSd/x'' [])) (t_executionKey (hd ex_targets)))
        < of_nat 8 * (weight_of (hd ex_targets) / total_weight ex_targets) + 1
    \<and> of_nat 8 * (weight_of (hd ex_targets) / total_weight ex_targets) - (of_nat (length ex_targets) - 1)
       \<le> (of_nat (count_list (fst (drr_rounds 8 ex_targets ''qtSd/x'' [])) (t_executionKey (hd ex_targets))) :: rat)"
    by (rule drr_serves_in_proportion [OF _ _ w(3) _ t(1)]) (simp_all add: ex_targets_def)
  moreover have "fst (drr_rounds 8 ex_targets ''qtSd/x'' []) = [''a'', ''a'', ''b'', ''a'', ''a'', ''a'', ''b'', ''a'']" by code_simp
  ultimately show ?thesis unfolding t(2) w(1,2) by simp
qed

text \<open>The selection never drops or repeats a target: the dispatch list is a permutation of the targets that starts
  with the selected one. The selected one is not at its concurrency cap unless every eligible target is.\<close>

theorem selection_is_a_permutation:
  assumes dist: "distinct (map t_executionKey ts)" and ne: "ts \<noteq> []"
    and sel: "selectQuotaShareTarget ts combo m now caps s = (r, s')"
  shows "mset (qr_orderedTargets r) = mset ts \<and> (\<exists>w rest. qr_target r = Some w \<and> qr_orderedTargets r = w # rest
    \<and> w \<in> set (fst (filterEligibleBySaturation ts m now (qs_buckets s)))
    \<and> ((\<exists>u\<in>set (fst (filterEligibleBySaturation ts m now (qs_buckets s))). \<not> at_cap caps now (qs_inflight s) u)
        \<longrightarrow> \<not> at_cap caps now (qs_inflight s) w))"
proof -
  obtain elig b where e: "filterEligibleBySaturation ts m now (qs_buckets s) = (elig, b)" by fastforce
  obtain room cap where p: "partitionByConcurrencyCap elig caps now (qs_inflight s) = (room, cap)" by fastforce
  obtain ordered drr where a: "applyDrr room combo (qs_drr s) = (ordered, drr)" by fastforce
  define pick where "pick \<longleftrightarrow> length ordered \<ge> 2 \<and> pickByInflightP2C (ordered ! 0) (ordered ! 1) now (qs_inflight s) = 1"
  define w where "w = (if pick then ordered ! 1 else hd ordered)"
  define rest where "rest = (if pick then ordered ! 0 # drop 2 ordered else tl ordered)"
  have out: "qr_target r = Some w" "qr_orderedTargets r = w # rest @ cap @ filter (\<lambda>t. t \<notin> set elig) ts"
    using sel ne e p a by (auto simp: selectQuotaShareTarget_def Let_def pick_def w_def rest_def split: if_splits)
  have sub: "subseq elig ts" "elig \<noteq> []"
    using e ne eligible_targets_sub by (auto simp: filterEligibleBySaturation_def Let_def split: prod.splits if_splits)
  note P = partition_mset [OF p]
  have "subseq room ts" using P sub(1) subseq_order.trans by blast
  then have "distinct (map t_executionKey room)"
    using dist by (auto simp: subseq_conv_nths nths_map [symmetric])
  from applyDrr_mset [OF this a] have o: "mset ordered = mset room" .
  then have ne_o: "ordered \<noteq> []" using P sub(2) by auto
  have "mset (w # rest) = mset ordered"
  proof (cases pick)
    case True
    then obtain x y zs where "ordered = x # y # zs" by (auto simp: pick_def numeral_2_eq_2 Suc_le_length_iff)
    then show ?thesis using True by (simp add: w_def rest_def)
  qed (use ne_o in \<open>simp add: w_def rest_def\<close>)
  then have "mset (qr_orderedTargets r) = mset elig + mset (filter (\<lambda>t. t \<notin> set elig) ts)"
    using out(2) o P by (metis append_Cons mset_append union_assoc)
  also have "\<dots> = mset ts" using dist sub(1) by (intro mset_filter_subset) (simp_all add: distinct_map)
  finally have perm: "mset (qr_orderedTargets r) = mset ts" .
  have "w \<in> set room"
    using \<open>mset (w # rest) = mset ordered\<close> o by (metis list.set_intros(1) set_mset_mset)
  then show ?thesis using perm out P e by (auto simp: subseq_conv_nths dest: in_set_nthsD)
qed

lemma selection_is_a_permutation_witness:
  "mset (qr_orderedTargets (fst (selectQuotaShareTarget ex_targets ''qtSd/x'' ''anthropic/opus'' 7
      (Some [(''c1'', Num 1)]) \<lparr>qs_buckets = [], qs_inflight = [(''c1'', \<lparr>is_count = 1, is_expiresAtMs = 99\<rparr>)], qs_drr = []\<rparr>)))
    = mset ex_targets
   \<and> map t_executionKey (qr_orderedTargets (fst (selectQuotaShareTarget ex_targets ''qtSd/x'' ''anthropic/opus'' 7
      (Some [(''c1'', Num 1)]) \<lparr>qs_buckets = [], qs_inflight = [(''c1'', \<lparr>is_count = 1, is_expiresAtMs = 99\<rparr>)], qs_drr = []\<rparr>)))
    = [''b'', ''z'', ''a'']"
proof -
  let ?s = "\<lparr>qs_buckets = [], qs_inflight = [(''c1'', \<lparr>is_count = 1, is_expiresAtMs = 99\<rparr>)], qs_drr = []\<rparr>"
  obtain r s' where sel: "selectQuotaShareTarget ex_targets ''qtSd/x'' ''anthropic/opus'' 7 (Some [(''c1'', Num 1)]) ?s = (r, s')"
    by fastforce
  have "mset (qr_orderedTargets r) = mset ex_targets"
    using selection_is_a_permutation [OF _ _ sel] by (simp add: ex_targets_def)
  moreover have "map t_executionKey (qr_orderedTargets (fst (selectQuotaShareTarget ex_targets ''qtSd/x'' ''anthropic/opus'' 7
      (Some [(''c1'', Num 1)]) ?s))) = [''b'', ''z'', ''a'']" by code_simp
  ultimately show ?thesis by (simp add: sel)
qed

text \<open>One request at each of the times \<open>ts\<close>, released at once.\<close>

definition traffic :: "string \<Rightarrow> int \<Rightarrow> int list \<Rightarrow> inflight \<Rightarrow> inflight" where
  "traffic c lease ts m = fold (\<lambda>t m. decrementInflight c t (snd (incrementInflight c lease t m))) ts m"

text \<open>Each request starts before the expiry its predecessor set.\<close>

fun within_lease :: "int \<Rightarrow> int \<Rightarrow> int list \<Rightarrow> bool" where
  "within_lease lease x [] = True"
| "within_lease lease x (t # ts) = (t < x \<and> within_lease lease (t + lease) ts)"

text \<open>A request that is never released does not expire while the connection is in use: the whole slot has one expiry, and every
  later request on the connection renews it. Under requests that are each released properly and never more
  than a lease apart the count stays what it was before them for ever.\<close>

theorem leaked_slot_never_expires:
  assumes c: "c \<noteq> []" and slot: "jm_get m c = Some \<lparr>is_count = n, is_expiresAtMs = x\<rparr>" and n: "1 \<le> n" and lease: "0 < lease"
    and gaps: "t0 < x" "within_lease lease x ts"
  shows "getInflight c (last (t0 # ts)) (traffic c lease ts m) = n"
  using slot gaps
proof (induction ts arbitrary: m x t0)
  case (Cons t ts)
  have "jm_get m c = Some sl \<Longrightarrow> t < is_expiresAtMs sl \<Longrightarrow> jm_get (pruneExpired t m) c = Some sl" for sl
    unfolding pruneExpired_def jm_get_def by (induction m) (auto split: if_splits)
  from this [OF Cons.prems(1)] have p: "jm_get (pruneExpired t m) c = Some \<lparr>is_count = n, is_expiresAtMs = x\<rparr>"
    using Cons.prems(3) by simp
  let ?m = "decrementInflight c t (snd (incrementInflight c lease t m))"
  have "jm_get ?m c = Some \<lparr>is_count = n, is_expiresAtMs = t + lease\<rparr>"
    using p Cons.prems(3) c n lease by (simp add: incrementInflight_def decrementInflight_def Let_def)
  then have "getInflight c (last (t # ts)) (traffic c lease ts ?m) = n"
    using lease Cons.prems(3) by (intro Cons.IH) auto
  then show ?case by (simp add: traffic_def)
qed (use c n in \<open>simp add: traffic_def getInflight_def\<close>)

lemma leaked_slot_never_expires_witness:
  "getInflight ''c1'' 400000 (traffic ''c1'' DEFAULT_LEASE_MS [100000, 200000, 300000, 400000]
     (snd (incrementInflight ''c1'' DEFAULT_LEASE_MS 0 []))) = 1"
proof -
  have s: "jm_get (snd (incrementInflight ''c1'' DEFAULT_LEASE_MS 0 [])) ''c1'' = Some \<lparr>is_count = 1, is_expiresAtMs = 120000\<rparr>"
    by (simp add: incrementInflight_def pruneExpired_def DEFAULT_LEASE_MS_def Let_def)
  show ?thesis
    using leaked_slot_never_expires [OF _ s, of DEFAULT_LEASE_MS 0 "[100000, 200000, 300000, 400000]"]
    by (simp add: DEFAULT_LEASE_MS_def)
qed

text \<open>A release uses the clock of its selection, so a request that outlives its own lease takes one off the
  count of the requests that started after its slot had expired: with one of them in flight the count drops to
  zero.\<close>

theorem late_release_uncounts_another_request:
  assumes "jm_ok m" and "c \<noteq> []" and "jm_get m c = Some sl" and "is_expiresAtMs sl \<le> t1" and "t0 \<le> t1" and "0 < lease"
  shows "getInflight c t1 (snd (incrementInflight c lease t1 m)) = 1
    \<and> getInflight c t1 (decrementInflight c t0 (snd (incrementInflight c lease t1 m))) = 0"
proof -
  have "jm_get (pruneExpired t1 m) c = None"
    using assms(1,3,4) unfolding pruneExpired_def jm_ok_def jm_get_def
    by (induction m) (auto simp: map_of_eq_None_iff split: if_splits)
  then have "jm_get (snd (incrementInflight c lease t1 m)) c = Some \<lparr>is_count = 1, is_expiresAtMs = t1 + lease\<rparr>"
    using assms(2) by (simp add: incrementInflight_def Let_def)
  then show ?thesis using assms(2,5,6) by (simp add: getInflight_def decrementInflight_def)
qed

lemma late_release_uncounts_another_request_witness:
  "getInflight ''c1'' 200000 (snd (incrementInflight ''c1'' DEFAULT_LEASE_MS 200000
      (snd (incrementInflight ''c1'' DEFAULT_LEASE_MS 0 [])))) = 1
   \<and> getInflight ''c1'' 200000 (decrementInflight ''c1'' 0 (snd (incrementInflight ''c1'' DEFAULT_LEASE_MS 200000
      (snd (incrementInflight ''c1'' DEFAULT_LEASE_MS 0 []))))) = 0"
proof -
  have m: "snd (incrementInflight ''c1'' DEFAULT_LEASE_MS 0 []) = [(''c1'', \<lparr>is_count = 1, is_expiresAtMs = 120000\<rparr>)]"
    by (simp add: incrementInflight_def pruneExpired_def DEFAULT_LEASE_MS_def Let_def jm_set_def)
  show ?thesis
    unfolding m by (rule late_release_uncounts_another_request [where sl = "\<lparr>is_count = 1, is_expiresAtMs = 120000\<rparr>"]) (simp_all add: jm_ok_def jm_get_def DEFAULT_LEASE_MS_def)
qed

end
