(* ===== verification/JsString.thy ===== *)
theory JsString
  imports Omni_Prelude
begin

text \<open>
  The string operations the parsers use: \<open>indexOf\<close>, \<open>split\<close>, \<open>trim\<close>, \<open>endsWith\<close> and \<open>parseInt\<close> in
  base ten. A string is its list of code units; the lemmas say where the first
  occurrence of a tag lies when text arrives in pieces.
\<close>

section \<open>First occurrence\<close>

fun indexOf :: "'a list \<Rightarrow> 'a list \<Rightarrow> nat option" where
  "indexOf p s = (if prefix p s then Some 0 else (case s of [] \<Rightarrow> None | _ # cs \<Rightarrow> map_option Suc (indexOf p cs)))"

declare indexOf.simps [simp del]

lemma indexOf_Nil: "p \<noteq> [] \<Longrightarrow> indexOf p [] = None"
  by (simp add: indexOf.simps)

lemma indexOf_Cons: "indexOf p (c # s) = (if prefix p (c # s) then Some 0 else map_option Suc (indexOf p s))"
  by (subst indexOf.simps) simp

lemma indexOf_Some:
  "indexOf p s = Some i \<longleftrightarrow> prefix p (drop i s) \<and> i \<le> length s \<and> (\<forall>j<i. \<not> prefix p (drop j s))"
proof (induction s arbitrary: i)
  case Nil
  then show ?case by (subst indexOf.simps) auto
next
  case (Cons c s)
  show ?case
  proof (cases i)
    case 0
    then show ?thesis by (auto simp: indexOf_Cons)
  next
    case (Suc k)
    then show ?thesis using Cons [of k]
      by (simp add: indexOf_Cons All_less_Suc2)
  qed
qed

lemma indexOf_None: "indexOf p s = None \<longleftrightarrow> (\<forall>j<Suc (length s). \<not> prefix p (drop j s))"
proof (induction s)
  case Nil
  then show ?case by (subst indexOf.simps) auto
next
  case (Cons c s)
  then show ?case by (simp only: list.size All_less_Suc2 [of "Suc (length s)"] add_0_right add_Suc_right drop_Suc_Cons drop0
      indexOf_Cons) auto
qed

lemma prefix_iff_take: "prefix p s \<longleftrightarrow> take (length p) s = p"
  by (metis append_eq_conv_conj prefix_def take_is_prefix)

lemma indexOf_length: "indexOf p s = Some i \<Longrightarrow> i + length p \<le> length s"
  by (auto simp: indexOf_Some dest: prefix_length_le)

lemma indexOf_take_drop:
  assumes "indexOf p s = Some i"
  shows "s = take i s @ p @ drop (i + length p) s"
proof -
  obtain r where "drop i s = p @ r" using assms by (auto simp: indexOf_Some prefix_def)
  then show ?thesis by (metis append_take_drop_id add.commute append_eq_conv_conj drop_drop)
qed

text \<open>Text that arrives later does not move the first occurrence, nor create one that would have
  fitted before it.\<close>

lemma indexOf_append_Some:
  assumes "indexOf p s = Some i"
  shows "indexOf p (s @ t) = Some i"
proof -
  have p: "prefix p (drop i s)" "i \<le> length s" "\<And>j. j < i \<Longrightarrow> \<not> prefix p (drop j s)"
    using assms by (auto simp: indexOf_Some)
  have l: "i + length p \<le> length s" using assms by (rule indexOf_length)
  have "\<not> prefix p (drop j (s @ t))" if "j < i" for j
  proof
    assume "prefix p (drop j (s @ t))"
    then have "prefix p (drop j s)" using that l by (simp add: prefix_iff_take)
    then show False using p(3) [OF that] by simp
  qed
  then show ?thesis using p by (simp add: indexOf_Some prefix_prefix)
qed

lemma indexOf_append_None:
  assumes "\<forall>j<k. \<not> prefix p (drop j (s @ t))" and "k \<le> length s"
  shows "indexOf p (s @ t) = map_option ((+) k) (indexOf p (drop k s @ t))"
proof -
  have d: "drop k s @ t = drop k (s @ t)" using assms(2) by simp
  have "indexOf p u = map_option ((+) k) (indexOf p (drop k u))"
    if "\<forall>j<k. \<not> prefix p (drop j u)" "k \<le> length u" for u
    using that
  proof (induction k arbitrary: u)
    case 0
    then show ?case by (cases "indexOf p u") auto
  next
    case (Suc k)
    then obtain c v where u: "u = c # v" by (cases u) auto
    have "indexOf p v = map_option ((+) k) (indexOf p (drop k v))"
      using Suc by (simp add: u All_less_Suc2)
    then show ?case using Suc.prems(1)
      by (simp add: u indexOf_Cons All_less_Suc2 option.map_comp comp_def)
  qed
  from this [OF assms(1)] assms(2) show ?thesis unfolding d by (simp only: length_append trans_le_add1)
qed

section \<open>Trimming\<close>

text \<open>White space and line ends below 256: tab, line feed, vertical tab, form feed, carriage return, space, no-break space.\<close>

definition js_space :: "char \<Rightarrow> bool" where
  "js_space c = (of_char c \<in> set [9, 10, 11, 12, 13, 32, 160 :: nat])"

definition js_trim :: "string \<Rightarrow> string" where
  "js_trim s = rev (dropWhile js_space (rev (dropWhile js_space s)))"

lemma js_trim_Nil [simp]: "js_trim [] = []"
  by (simp add: js_trim_def)

section \<open>Splitting and numbers\<close>

text \<open>\<open>s.split(c)\<close> for a one-character separator.\<close>

fun js_split :: "char \<Rightarrow> string \<Rightarrow> string list" where
  "js_split c [] = [[]]"
| "js_split c (x # xs) =
     (if x = c then [] # js_split c xs
      else (case js_split c xs of [] \<Rightarrow> [[x]] | w # ws \<Rightarrow> (x # w) # ws))"

lemma js_split_ne [simp]: "js_split c s \<noteq> []"
  by (induction s) (auto split: list.splits)

lemma js_split_word: "c \<notin> set w \<Longrightarrow> js_split c w = [w]"
  by (induction w) auto

lemma js_split_append: "c \<notin> set w \<Longrightarrow> js_split c (w @ c # s) = w # js_split c s"
  by (induction w) auto

text \<open>\<open>parseInt(s, 10)\<close>: \<open>None\<close> is \<open>NaN\<close>.\<close>

definition is_digit :: "char \<Rightarrow> bool" where
  "is_digit c \<longleftrightarrow> 48 \<le> (of_char c :: nat) \<and> (of_char c :: nat) \<le> 57"

definition digit_val :: "char \<Rightarrow> nat" where
  "digit_val c = of_char c - 48"

definition digits_val :: "string \<Rightarrow> nat" where
  "digits_val ds = foldl (\<lambda>n c. 10 * n + digit_val c) 0 ds"

definition parse_digits :: "string \<Rightarrow> int option" where
  "parse_digits s = (let ds = takeWhile is_digit s in if ds = [] then None else Some (int (digits_val ds)))"

definition parseInt10 :: "string \<Rightarrow> int option" where
  "parseInt10 s =
     (case dropWhile js_space s of
        [] \<Rightarrow> None
      | c # cs \<Rightarrow> if c = CHR ''-'' then map_option uminus (parse_digits cs)
                  else if c = CHR ''+'' then parse_digits cs
                  else parse_digits (c # cs))"

text \<open>Decimal printing, the inverse.\<close>

fun show_nat :: "nat \<Rightarrow> string" where
  "show_nat n = (if n < 10 then [char_of (48 + n)] else show_nat (n div 10) @ [char_of (48 + n mod 10)])"

declare show_nat.simps [simp del]

lemma show_nat_digit: "d < 10 \<Longrightarrow> is_digit (char_of (48 + d :: nat)) \<and> digit_val (char_of (48 + d)) = d"
  by (simp add: is_digit_def digit_val_def)

lemma show_nat_digits: "\<forall>c\<in>set (show_nat n). is_digit c"
proof (induction n rule: show_nat.induct)
  case (1 n)
  then show ?case by (subst show_nat.simps) (auto simp: show_nat_digit)
qed

lemma show_nat_val: "digits_val (show_nat n) = n"
proof (induction n rule: show_nat.induct)
  case (1 n)
  show ?case
  proof (cases "n < 10")
    case True
    then show ?thesis by (subst show_nat.simps) (simp add: digits_val_def show_nat_digit)
  next
    case False
    then have "digits_val (show_nat n) = 10 * digits_val (show_nat (n div 10)) + n mod 10"
      by (subst show_nat.simps) (simp add: digits_val_def show_nat_digit)
    then show ?thesis using 1 False by simp
  qed
qed

lemma show_nat_ne: "show_nat n \<noteq> []"
  by (subst show_nat.simps) simp

lemma digit_not: "is_digit c \<Longrightarrow> \<not> js_space c \<and> c \<noteq> CHR ''-'' \<and> c \<noteq> CHR ''+'' \<and> c \<noteq> CHR ''.'' \<and> c \<noteq> CHR ''/''"
  by (auto simp: is_digit_def js_space_def)

lemma parse_show: "parseInt10 (show_nat n) = Some (int n)"
proof -
  obtain c cs where c: "show_nat n = c # cs" using show_nat_ne by (cases "show_nat n") auto
  then have "is_digit c" using show_nat_digits [of n] by simp
  moreover have t: "takeWhile is_digit (show_nat n) = show_nat n"
    using show_nat_digits [of n] by (simp add: takeWhile_eq_all_conv)
  have "parse_digits (show_nat n) = Some (int n)"
    unfolding parse_digits_def t Let_def using show_nat_ne show_nat_val by simp
  ultimately show ?thesis using c digit_not [of c] by (simp add: parseInt10_def)
qed

end
