(* ===== verification/ThinkTags.thy ===== *)
theory ThinkTags
  imports JsString
begin

text \<open>
  The parser of textual reasoning tags, \<open>open-sse/utils/thinkTagParser.ts\<close>. Text between \<open><think>\<close> and
  \<open></think>\<close> goes to the reasoning channel, the rest to the content channel; a stream delivers the
  text in chunks of any size, so tags may be cut anywhere. \<open>split_think\<close> is the reference: it reads the
  whole text at once. Strings are lists of code units; a \<open>null\<close> delta is the empty string.
\<close>

section \<open>The code\<close>

definition THINK_OPEN :: string where "THINK_OPEN = ''<think>''"
definition THINK_CLOSE :: string where "THINK_CLOSE = ''</think>''"

definition THINK_OPEN_PARTIALS :: "string list" where
  "THINK_OPEN_PARTIALS = map (\<lambda>i. take (i + 1) THINK_OPEN) [0..<length THINK_OPEN - 1]"

record think_ctx =
  t_enabled :: bool
  t_insideThink :: bool
  t_buffer :: string
  t_active :: bool
  t_model :: "string option"

text \<open>The caller's test of provider and model is the argument \<open>textual\<close>.\<close>

definition initThinkState :: "bool \<Rightarrow> bool \<Rightarrow> string option \<Rightarrow> think_ctx" where
  "initThinkState isPassthroughMode textual model =
     \<lparr>t_enabled = isPassthroughMode \<and> textual, t_insideThink = False, t_buffer = [], t_active = False, t_model = model\<rparr>"

definition containsOrMayEndWithThinkOpenTag :: "string \<Rightarrow> bool" where
  "containsOrMayEndWithThinkOpenTag v \<longleftrightarrow> str_includes v THINK_OPEN \<or> (\<exists>p\<in>set THINK_OPEN_PARTIALS. suffix p v)"

definition hasThinkTags :: "string option \<Rightarrow> bool" where
  "hasThinkTags t = (case t of None \<Rightarrow> False | Some s \<Rightarrow> s \<noteq> [] \<and> str_includes s THINK_OPEN)"

text \<open>The loop of \<open>processStreamingThinkDelta\<close>: tag state, buffer, reasoning and content so far.\<close>

definition tag_of :: "bool \<Rightarrow> string" where
  "tag_of inside = (if inside then THINK_CLOSE else THINK_OPEN)"

lemma tag_facts: "tag_of b \<noteq> []" "length THINK_OPEN = 7" "length THINK_CLOSE = 8" "0 < length (tag_of b)"
  by (simp_all add: tag_of_def THINK_OPEN_def THINK_CLOSE_def)

function think_loop :: "bool \<Rightarrow> string \<Rightarrow> string \<Rightarrow> string \<Rightarrow> bool \<times> string \<times> string \<times> string" where
  "think_loop inside buf rd cd =
     (if buf = [] then (inside, buf, rd, cd)
      else if inside then
        (case indexOf THINK_CLOSE buf of
           None \<Rightarrow>
             if length buf > length THINK_CLOSE
             then (inside, drop (length buf - (length THINK_CLOSE - 1)) buf,
                   rd @ take (length buf - (length THINK_CLOSE - 1)) buf, cd)
             else (inside, buf, rd, cd)
         | Some closeIdx \<Rightarrow>
             think_loop False (drop (closeIdx + length THINK_CLOSE) buf) (rd @ take closeIdx buf) cd)
      else
        (case indexOf THINK_OPEN buf of
           None \<Rightarrow>
             if length buf > length THINK_OPEN
             then (inside, drop (length buf - (length THINK_OPEN - 1)) buf, rd,
                   cd @ take (length buf - (length THINK_OPEN - 1)) buf)
             else (inside, buf, rd, cd)
         | Some openIdx \<Rightarrow>
             think_loop True (drop (openIdx + length THINK_OPEN) buf) rd (cd @ take openIdx buf)))"
  by pat_completeness auto

termination by (relation "measure (\<lambda>(_, buf, _, _). length buf)") (auto simp: tag_facts)

declare think_loop.simps [simp del]

definition processStreamingThinkDelta :: "string \<Rightarrow> think_ctx \<Rightarrow> (string \<times> string) \<times> think_ctx" where
  "processStreamingThinkDelta delta ctx =
     (let (inside, buf, rd, cd) = think_loop (t_insideThink ctx) (t_buffer ctx @ delta) [] []
      in ((rd, cd), ctx\<lparr>t_insideThink := inside, t_buffer := buf\<rparr>))"

text \<open>A delta of the stream: its content and its reasoning, if any.\<close>

record delta =
  d_content :: "string option"
  d_reasoning :: "string option"

definition applyThinkTag :: "delta \<Rightarrow> think_ctx \<Rightarrow> bool \<times> delta \<times> think_ctx" where
  "applyThinkTag delta ctx =
     (case d_content delta of
        None \<Rightarrow> (False, delta, ctx)
      | Some text \<Rightarrow>
          if \<not> t_enabled ctx then (False, delta, ctx)
          else if \<not> t_active ctx \<and> \<not> containsOrMayEndWithThinkOpenTag text then (False, delta, ctx)
          else (let ((rd, cd), ctx') = processStreamingThinkDelta text (ctx\<lparr>t_active := True\<rparr>)
                in (True,
                    delta\<lparr>d_content := Some cd,
                          d_reasoning := (if rd \<noteq> [] then Some rd else d_reasoning delta)\<rparr>, ctx')))"

definition flushThinkBuffer :: "think_ctx \<Rightarrow> (string \<times> string) \<times> think_ctx" where
  "flushThinkBuffer ctx =
     (if t_buffer ctx = [] then (([], []), ctx)
      else ((if t_insideThink ctx then (t_buffer ctx, []) else ([], t_buffer ctx)), ctx\<lparr>t_buffer := []\<rparr>))"

definition STREAM_SUMMARY_TEXT_LIMIT :: nat where "STREAM_SUMMARY_TEXT_LIMIT = 64 * 1024"

definition last_n :: "nat \<Rightarrow> 'a list \<Rightarrow> 'a list" where
  "last_n n xs = drop (length xs - n) xs"

definition appendBoundedText :: "string \<Rightarrow> string \<Rightarrow> string" where
  "appendBoundedText current nxt =
     (if nxt = [] then current
      else if length current \<ge> STREAM_SUMMARY_TEXT_LIMIT
      then (if int STREAM_SUMMARY_TEXT_LIMIT - int (length nxt) \<le> 0 then last_n STREAM_SUMMARY_TEXT_LIMIT nxt
            else last_n (STREAM_SUMMARY_TEXT_LIMIT - length nxt) current @ nxt)
      else (if length (current @ nxt) \<le> STREAM_SUMMARY_TEXT_LIMIT then current @ nxt
            else last_n STREAM_SUMMARY_TEXT_LIMIT (current @ nxt)))"

text \<open>What \<open>flushThink\<close> returns, the SSE rendering of the chunk apart.\<close>

record flushed =
  f_delta :: delta
  f_reasoning :: string
  f_content :: string
  f_addedLength :: nat

definition flushThink :: "think_ctx \<Rightarrow> string \<Rightarrow> string \<Rightarrow> flushed option \<times> think_ctx" where
  "flushThink ctx accReasoning accContent =
     (if \<not> t_enabled ctx \<or> \<not> t_active ctx then (None, ctx)
      else (let ((rd, cd), ctx') = flushThinkBuffer ctx
            in (if rd = [] \<and> cd = [] then None
                else Some \<lparr>f_delta = \<lparr>d_content = (if cd \<noteq> [] then Some cd else None),
                                     d_reasoning = (if rd \<noteq> [] then Some rd else None)\<rparr>,
                           f_reasoning = appendBoundedText accReasoning rd,
                           f_content = appendBoundedText accContent cd,
                           f_addedLength = length rd + length cd\<rparr>, ctx')))"

subsection \<open>The whole text at once: \<open>extractThinkTags\<close>\<close>

fun extract_loop :: "nat \<Rightarrow> string \<Rightarrow> string \<Rightarrow> string \<times> string" where
  "extract_loop 0 reasoning content = (reasoning, content)"
| "extract_loop (Suc n) reasoning content =
     (case indexOf THINK_OPEN content of
        None \<Rightarrow> (reasoning, content)
      | Some openIdx \<Rightarrow>
          (case indexOf THINK_CLOSE (drop openIdx content) of
             None \<Rightarrow> (reasoning @ drop (openIdx + length THINK_OPEN) content, take openIdx content)
           | Some k \<Rightarrow>
               (let closeIdx = openIdx + k
                in extract_loop n
                     (reasoning @ (if reasoning \<noteq> [] then [CHR 0x0A] else []) @
                        take (closeIdx - (openIdx + length THINK_OPEN)) (drop (openIdx + length THINK_OPEN) content))
                     (take openIdx content @ drop (closeIdx + length THINK_CLOSE) content))))"

definition extractThinkTags :: "string \<Rightarrow> string option \<times> string" where
  "extractThinkTags text =
     (if text = [] \<or> \<not> str_includes text THINK_OPEN then (None, text)
      else (let (r, c) = extract_loop 10 [] text
            in (if js_trim r = [] then None else Some (js_trim r), js_trim c)))"

section \<open>The reference: the whole text, tag by tag\<close>

definition emit :: "bool \<Rightarrow> string \<Rightarrow> string \<times> string \<Rightarrow> string \<times> string" where
  "emit inside x rc = (if inside then (x @ fst rc, snd rc) else (fst rc, x @ snd rc))"

lemma drop_tag_shorter:
  "indexOf (tag_of b) s = Some i \<Longrightarrow> length (drop (i + length (tag_of b)) s) < length s"
  using indexOf_length [of "tag_of b" s i] tag_facts(4) [of b] unfolding length_drop by linarith

function split_think :: "bool \<Rightarrow> string \<Rightarrow> string \<times> string" where
  "split_think inside s =
     (case indexOf (tag_of inside) s of
        None \<Rightarrow> emit inside s ([], [])
      | Some i \<Rightarrow> emit inside (take i s) (split_think (\<not> inside) (drop (i + length (tag_of inside)) s)))"
  by pat_completeness auto

termination
  by (relation "measure (\<lambda>(_, s). length s)") (use drop_tag_shorter in auto)

declare split_think.simps [simp del]

lemma split_think_None: "indexOf (tag_of b) s = None \<Longrightarrow> split_think b s = emit b s ([], [])"
  by (subst split_think.simps) simp

lemma split_think_Some:
  "indexOf (tag_of b) s = Some i \<Longrightarrow>
   split_think b s = emit b (take i s) (split_think (\<not> b) (drop (i + length (tag_of b)) s))"
  by (subst split_think.simps) simp

lemma emit_emit: "emit b x (emit b y rc) = emit b (x @ y) rc"
  by (simp add: emit_def)

text \<open>Text in front of the first place where a tag could begin goes straight through.\<close>

lemma split_think_prefix:
  assumes "\<forall>j<k. \<not> prefix (tag_of b) (drop j (s @ t))" and "k \<le> length s"
  shows "split_think b (s @ t) = emit b (take k s) (split_think b (drop k s @ t))"
proof (cases "indexOf (tag_of b) (drop k s @ t)")
  case None
  then have "indexOf (tag_of b) (s @ t) = None" using indexOf_append_None [OF assms] by simp
  with None show ?thesis by (simp add: split_think_None emit_emit flip: append_assoc)
next
  case (Some i)
  then have i: "indexOf (tag_of b) (s @ t) = Some (k + i)" using indexOf_append_None [OF assms] by simp
  have "take (k + i) (s @ t) = take k s @ take i (drop k s @ t)"
    unfolding take_add using assms(2) by simp
  moreover have "drop (k + i + n) (s @ t) = drop (i + n) (drop k s @ t)" for n
    using assms(2) by (simp add: add.commute add.left_commute)
  ultimately show ?thesis
    by (simp only: split_think_Some [OF i] split_think_Some [OF Some] emit_emit)
qed

text \<open>The loop treats the two states alike.\<close>

lemma think_loop_unfold:
  "think_loop b buf rd cd =
     (case indexOf (tag_of b) buf of
        None \<Rightarrow>
          if length buf > length (tag_of b)
          then (let k = length buf - (length (tag_of b) - 1)
                in (b, drop k buf, rd @ (if b then take k buf else []), cd @ (if b then [] else take k buf)))
          else (b, buf, rd, cd)
      | Some i \<Rightarrow> think_loop (\<not> b) (drop (i + length (tag_of b)) buf)
                    (rd @ (if b then take i buf else [])) (cd @ (if b then [] else take i buf)))"
proof (cases "buf = []")
  case True
  then show ?thesis using tag_facts(1) [of b] by (simp add: think_loop.simps indexOf_Nil)
next
  case False
  then show ?thesis by (subst think_loop.simps) (auto simp: tag_of_def Let_def split: option.splits)
qed

lemma think_loop_split:
  assumes "think_loop b buf rd cd = (b', buf', rd', cd')"
  shows "indexOf (tag_of b') buf' = None \<and>
    (\<exists>dr dc. rd' = rd @ dr \<and> cd' = cd @ dc \<and>
      (\<forall>t. split_think b (buf @ t) = (dr @ fst (split_think b' (buf' @ t)), dc @ snd (split_think b' (buf' @ t)))))"
  using assms
proof (induction "length buf" arbitrary: b buf rd cd rule: less_induct)
  case less
  show ?case
  proof (cases "indexOf (tag_of b) buf")
    case None
    show ?thesis
    proof (cases "length buf > length (tag_of b)")
      case False
      then show ?thesis using less.prems None by (subst (asm) think_loop_unfold) auto
    next
      case True
      define k where "k = length buf - (length (tag_of b) - 1)"
      have k: "k \<le> length buf" "\<And>j. j < k \<Longrightarrow> j + length (tag_of b) \<le> length buf"
        using True tag_facts(4) [of b] by (auto simp: k_def)
      have no: "\<forall>j<k. \<not> prefix (tag_of b) (drop j (buf @ t))" for t
        using None k by (fastforce simp: indexOf_None prefix_iff_take)
      have r: "b' = b" "buf' = drop k buf" "rd' = rd @ (if b then take k buf else [])"
        "cd' = cd @ (if b then [] else take k buf)"
        using less.prems None True by (subst (asm) think_loop_unfold, auto simp: Let_def k_def)+
      have "indexOf (tag_of b) (drop k buf) = None"
        using indexOf_append_None [OF no [of "[]"] k(1)] None by simp
      then show ?thesis using split_think_prefix [OF no k(1)] by (auto simp: r emit_def)
    qed
  next
    case (Some i)
    have l: "length (drop (i + length (tag_of b)) buf) < length buf"
      by (rule drop_tag_shorter [OF Some])
    have "think_loop (\<not> b) (drop (i + length (tag_of b)) buf) (rd @ (if b then take i buf else []))
        (cd @ (if b then [] else take i buf)) = (b', buf', rd', cd')"
      using less.prems Some by (subst (asm) think_loop_unfold) simp
    from less.hyps [OF l this] obtain dr dc where
      IH: "indexOf (tag_of b') buf' = None" "rd' = rd @ (if b then take i buf else []) @ dr"
        "cd' = cd @ (if b then [] else take i buf) @ dc"
        "\<And>t. split_think (\<not> b) (drop (i + length (tag_of b)) buf @ t) =
           (dr @ fst (split_think b' (buf' @ t)), dc @ snd (split_think b' (buf' @ t)))"
      by auto
    have "split_think b (buf @ t) = emit b (take i buf) (split_think (\<not> b) (drop (i + length (tag_of b)) buf @ t))" for t
      using split_think_Some [OF indexOf_append_Some [OF Some]] indexOf_length [OF Some] by simp
    then show ?thesis using IH by (auto simp: emit_def)
  qed
qed

section \<open>A stream of deltas\<close>

text \<open>What the client receives over a stream: every delta through \<open>applyThinkTag\<close>, then the flush.\<close>

definition opt_text :: "string option \<Rightarrow> string" where
  "opt_text t = (case t of None \<Rightarrow> [] | Some s \<Rightarrow> s)"

fun stream_deltas :: "string list \<Rightarrow> think_ctx \<Rightarrow> delta list \<times> think_ctx" where
  "stream_deltas [] ctx = ([], ctx)"
| "stream_deltas (c # cs) ctx =
     (let (_, d, ctx1) = applyThinkTag \<lparr>d_content = Some c, d_reasoning = None\<rparr> ctx;
          (ds, ctx2) = stream_deltas cs ctx1
      in (d # ds, ctx2))"

definition stream_all :: "string list \<Rightarrow> think_ctx \<Rightarrow> delta list" where
  "stream_all cs ctx =
     (let (ds, ctx1) = stream_deltas cs ctx
      in ds @ (case fst (flushThink ctx1 [] []) of None \<Rightarrow> [] | Some f \<Rightarrow> [f_delta f]))"

definition received :: "delta list \<Rightarrow> string \<times> string" where
  "received ds = (concat (map (\<lambda>d. opt_text (d_reasoning d)) ds), concat (map (\<lambda>d. opt_text (d_content d)) ds))"

lemma received_simps [simp]:
  "received [] = ([], [])"
  "received (d # ds) = (opt_text (d_reasoning d) @ fst (received ds), opt_text (d_content d) @ snd (received ds))"
  "received (ds @ es) = (fst (received ds) @ fst (received es), snd (received ds) @ snd (received es))"
  by (simp_all add: received_def)

text \<open>After the first tag, the reasoning and content received so far plus what the buffer still stands for.\<close>

lemma active_stream:
  assumes "t_enabled ctx" and "t_active ctx" and "indexOf (tag_of (t_insideThink ctx)) (t_buffer ctx) = None"
  shows "received (stream_all cs ctx) = split_think (t_insideThink ctx) (t_buffer ctx @ concat cs)"
  using assms
proof (induction cs arbitrary: ctx)
  case Nil
  then show ?case
    by (auto simp: stream_all_def flushThink_def flushThinkBuffer_def opt_text_def split_think_None emit_def)
next
  case (Cons c cs)
  obtain b' buf' rd cd where l: "think_loop (t_insideThink ctx) (t_buffer ctx @ c) [] [] = (b', buf', rd, cd)"
    using prod_cases4 by blast
  define ctx' where "ctx' = ctx\<lparr>t_insideThink := b', t_buffer := buf'\<rparr>"
  have S: "indexOf (tag_of b') buf' = None"
    "split_think (t_insideThink ctx) (t_buffer ctx @ c @ t) =
       (rd @ fst (split_think b' (buf' @ t)), cd @ snd (split_think b' (buf' @ t)))" for t
    using think_loop_split [OF l] by auto
  have ctx: "ctx\<lparr>t_active := True\<rparr> = ctx" using Cons.prems(2) by (cases ctx) simp
  have a: "applyThinkTag \<lparr>d_content = Some c, d_reasoning = None\<rparr> ctx =
      (True, \<lparr>d_content = Some cd, d_reasoning = (if rd \<noteq> [] then Some rd else None)\<rparr>, ctx')"
    using Cons.prems l by (simp add: applyThinkTag_def processStreamingThinkDelta_def ctx ctx'_def)
  have "received (stream_all (c # cs) ctx) = (rd @ fst (received (stream_all cs ctx')), cd @ snd (received (stream_all cs ctx')))"
    by (auto simp: stream_all_def a opt_text_def split: prod.splits option.splits)
  also have "received (stream_all cs ctx') = split_think b' (buf' @ concat cs)"
    using Cons.IH [of ctx'] Cons.prems S(1) by (simp add: ctx'_def)
  finally show ?case using S(2) [of "concat cs"] by simp
qed

text \<open>Before it: whatever arrives later, no open tag begins in the text so far.\<close>

definition no_tag_yet :: "string \<Rightarrow> bool" where
  "no_tag_yet s \<longleftrightarrow> (\<forall>t. \<forall>j<length s. \<not> prefix THINK_OPEN (drop j (s @ t)))"

lemma partial_tag: "0 < k \<Longrightarrow> k < 7 \<Longrightarrow> take k THINK_OPEN \<in> set THINK_OPEN_PARTIALS"
  by (cases k) (auto simp: THINK_OPEN_PARTIALS_def tag_facts)

lemma no_tag_yet_append:
  assumes "no_tag_yet s" and "\<not> containsOrMayEndWithThinkOpenTag c"
  shows "no_tag_yet (s @ c)"
  unfolding no_tag_yet_def
proof (intro allI impI notI)
  fix t j
  assume j: "j < length (s @ c)" and p: "prefix THINK_OPEN (drop j ((s @ c) @ t))"
  show False
  proof (cases "j < length s")
    case True
    then show False using assms(1) p by (simp add: no_tag_yet_def)
  next
    case False
    define i where "i = j - length s"
    have i: "i < length c" and pi: "take 7 (drop i c @ t) = THINK_OPEN"
      using False j p by (auto simp: i_def prefix_iff_take tag_facts)
    show False
    proof (cases "7 \<le> length c - i")
      case True
      then have "prefix THINK_OPEN (drop i c)" using pi by (simp add: prefix_iff_take tag_facts)
      then have "sublist THINK_OPEN c"
        by (meson prefix_imp_sublist sublist_drop sublist_order.order_trans)
      then show False using assms(2) by (simp add: containsOrMayEndWithThinkOpenTag_def str_includes_sublist)
    next
      case False
      define k where "k = length c - i"
      have "take k (take 7 (drop i c @ t)) = drop i c" using False by (simp add: k_def)
      then have k: "0 < k" "k < 7" "drop i c = take k THINK_OPEN" using False i unfolding pi by (auto simp: k_def)
      have "suffix (take k THINK_OPEN) c" unfolding k(3) [symmetric] by (rule suffix_drop)
      then show False using partial_tag [OF k(1,2)] assms(2)
        by (auto simp: containsOrMayEndWithThinkOpenTag_def)
    qed
  qed
qed

lemma waiting_stream:
  assumes "t_enabled ctx" and "\<not> t_active ctx" and "\<not> t_insideThink ctx" and "t_buffer ctx = []" and "no_tag_yet s"
  shows "(fst (received (stream_all cs ctx)), s @ snd (received (stream_all cs ctx))) = split_think False (s @ concat cs)"
  using assms
proof (induction cs arbitrary: s)
  case Nil
  have "indexOf (tag_of False) s = None"
    using Nil.prems(5) indexOf_append_None [of "length s" THINK_OPEN s "[]"]
      indexOf_Nil [OF tag_facts(1) [of False]]
    unfolding no_tag_yet_def tag_of_def by (metis append_Nil2 drop_all option.map_disc_iff order_refl)
  then show ?case using Nil by (simp add: stream_all_def flushThink_def split_think_None emit_def)
next
  case (Cons c cs)
  show ?case
  proof (cases "containsOrMayEndWithThinkOpenTag c")
    case False
    then have a: "applyThinkTag \<lparr>d_content = Some c, d_reasoning = None\<rparr> ctx =
        (False, \<lparr>d_content = Some c, d_reasoning = None\<rparr>, ctx)"
      using Cons.prems by (simp add: applyThinkTag_def)
    have "received (stream_all (c # cs) ctx) = (fst (received (stream_all cs ctx)), c @ snd (received (stream_all cs ctx)))"
      by (auto simp: stream_all_def a opt_text_def split: prod.splits option.splits)
    then show ?thesis using Cons.IH [of "s @ c"] Cons.prems no_tag_yet_append [OF Cons.prems(5) False] by simp
  next
    case True
    define ctx' where "ctx' = ctx\<lparr>t_active := True\<rparr>"
    have "stream_all (c # cs) ctx = stream_all (c # cs) ctx'"
      using True Cons.prems by (simp add: stream_all_def applyThinkTag_def ctx'_def cong: prod.case_cong)
    also have "received \<dots> = split_think False (c @ concat cs)"
      using active_stream [of ctx' "c # cs"] Cons.prems tag_facts(1) [of False] by (simp add: ctx'_def indexOf_Nil)
    finally have r: "received (stream_all (c # cs) ctx) = split_think False (c @ concat cs)" .
    have "split_think False (s @ c @ concat cs) = emit False s (split_think False (c @ concat cs))"
      using split_think_prefix [of "length s" False s "c @ concat cs"] Cons.prems(5)
      by (simp add: no_tag_yet_def tag_of_def)
    then show ?thesis unfolding r by (simp add: emit_def)
  qed
qed

section \<open>The batch parser\<close>

text \<open>How many open tags the reference meets.\<close>

function think_opens :: "bool \<Rightarrow> string \<Rightarrow> nat" where
  "think_opens inside s =
     (case indexOf (tag_of inside) s of
        None \<Rightarrow> 0
      | Some i \<Rightarrow> (if inside then 0 else 1) + think_opens (\<not> inside) (drop (i + length (tag_of inside)) s))"
  by pat_completeness auto

termination
  by (relation "measure (\<lambda>(_, s). length s)") (use drop_tag_shorter in auto)

declare think_opens.simps [simp del]

lemma tag_begins_once: "0 < k \<Longrightarrow> k < 7 \<Longrightarrow> THINK_OPEN ! k \<noteq> CHR ''<''"
  by (auto simp: THINK_OPEN_def numeral_eq_Suc less_Suc_eq)

text \<open>No open tag reaches from the text in front of it into the next one.\<close>

lemma no_crossing:
  assumes "j < length c" and "indexOf THINK_OPEN (c @ u) = None" and "j < length c"
  shows "\<not> prefix THINK_OPEN (drop j (c @ u @ THINK_OPEN @ v))"
proof
  assume "prefix THINK_OPEN (drop j (c @ u @ THINK_OPEN @ v))"
  then have p: "take 7 (drop j (c @ u) @ THINK_OPEN @ v) = THINK_OPEN"
    using assms(1) by (simp add: prefix_iff_take tag_facts)
  define m where "m = length (drop j (c @ u))"
  show False
  proof (cases "7 \<le> m")
    case True
    then have "prefix THINK_OPEN (drop j (c @ u))" using p by (simp add: prefix_iff_take tag_facts m_def)
    then show False using assms(1,2) unfolding indexOf_None by (metis length_append less_SucI trans_less_add1)
  next
    case False
    have m0: "0 < m" using assms(1) by (simp add: m_def)
    have "THINK_OPEN ! m = (take 7 (drop j (c @ u) @ THINK_OPEN @ v)) ! m" unfolding p ..
    also have "\<dots> = THINK_OPEN ! 0" using False by (simp add: m_def nth_append tag_facts del: drop_append)
    also have "\<dots> = CHR ''<''" by (simp add: THINK_OPEN_def)
    finally show False using tag_begins_once [OF m0] False by simp
  qed
qed

lemma no_close_in_open: "\<forall>j<7. \<not> prefix THINK_CLOSE (drop j (THINK_OPEN @ v))"
proof (intro allI impI)
  fix j :: nat
  assume "j < 7"
  then have "j \<in> {0, 1, 2, 3, 4, 5, 6}" by auto
  then show "\<not> prefix THINK_CLOSE (drop j (THINK_OPEN @ v))" by (auto simp: THINK_OPEN_def THINK_CLOSE_def)
qed

lemma indexOf_clean_append: "indexOf p (s @ t) = None \<Longrightarrow> indexOf p s = None"
  using indexOf_append_Some [of p s _ t] by (cases "indexOf p s") auto

lemma extract_loop_split:
  assumes "indexOf THINK_OPEN (c @ snd (split_think False s)) = None" and "think_opens False s \<le> n"
  shows "snd (extract_loop n r (c @ s)) = c @ snd (split_think False s)"
  using assms
proof (induction n arbitrary: r c s)
  case 0
  have "indexOf THINK_OPEN s = None"
    using 0(2) by (subst (asm) think_opens.simps) (auto simp: tag_of_def split: option.splits)
  then show ?case by (simp add: split_think_None tag_of_def emit_def)
next
  case (Suc n)
  show ?case
  proof (cases "indexOf THINK_OPEN s")
    case None
    then have sp: "split_think False s = ([], s)" by (simp add: split_think_None tag_of_def emit_def)
    then have "indexOf THINK_OPEN (c @ s) = None" using Suc.prems(1) by simp
    then show ?thesis by (simp add: sp)
  next
    case (Some i)
    define u v where "u = take i s" and "v = drop (i + 7) s"
    have s: "s = u @ THINK_OPEN @ v" using indexOf_take_drop [OF Some] by (simp add: u_def v_def tag_facts)
    define X where "X = c @ s"
    have lu: "length u = i" using indexOf_length [OF Some] by (simp add: u_def)
    have sp: "split_think False s = emit False u (split_think True v)"
      using split_think_Some [of False s i] Some by (simp add: tag_of_def u_def v_def tag_facts)
    have op: "think_opens True v \<le> n"
      using Suc.prems(2) Some by (subst (asm) think_opens.simps) (simp add: tag_of_def v_def tag_facts)
    have clean: "indexOf THINK_OPEN (c @ u) = None"
      using Suc.prems(1) indexOf_clean_append [of THINK_OPEN "c @ u"] by (simp add: sp emit_def)
    have "indexOf THINK_OPEN (c @ s) = map_option ((+) (length c)) (indexOf THINK_OPEN s)"
      using indexOf_append_None [of "length c" THINK_OPEN c s] no_crossing [OF _ clean] by (simp add: s)
    then have at: "indexOf THINK_OPEN X = Some (length c + i)" using Some by (simp add: X_def)
    have d: "drop (length c + i) X = THINK_OPEN @ v" "take (length c + i) X = c @ u"
      using lu by (simp_all add: s X_def)
    have cl: "indexOf THINK_CLOSE (THINK_OPEN @ v) = map_option ((+) 7) (indexOf THINK_CLOSE v)"
    proof -
      show ?thesis using indexOf_append_None [OF no_close_in_open] by (simp add: tag_facts)
    qed
    show ?thesis
    proof (cases "indexOf THINK_CLOSE v")
      case None
      then have "split_think True v = (v, [])" by (simp add: split_think_None tag_of_def emit_def)
      then show ?thesis using None unfolding X_def [symmetric] by (simp add: at d cl sp emit_def)
    next
      case Some': (Some k)
      define w where "w = drop (k + 8) v"
      have sv: "split_think True v = emit True (take k v) (split_think False w)"
        using split_think_Some [of True v k] Some' by (simp add: tag_of_def w_def tag_facts)
      have ow: "think_opens False w \<le> n"
        using op Some' by (subst (asm) think_opens.simps) (simp add: tag_of_def w_def tag_facts)
      have dw: "drop (15 + (length c + (i + k))) X = w"
      proof -
        have "15 + (length c + (i + k)) = 7 + (k + 8) + (length c + i)" by simp
        then have "drop (15 + (length c + (i + k))) X = drop (7 + (k + 8)) (drop (length c + i) X)"
          by (simp only: drop_drop)
        also have "\<dots> = w" unfolding d w_def by (simp add: tag_facts add.commute [of k])
        finally show ?thesis .
      qed
      have "indexOf THINK_OPEN ((c @ u) @ snd (split_think False w)) = None"
        using Suc.prems(1) by (simp add: sp sv emit_def)
      from Suc.IH [OF this ow]
      have "snd (extract_loop n r' ((c @ u) @ w)) = c @ u @ snd (split_think False w)" for r'
        by simp
      then show ?thesis using Some' unfolding X_def [symmetric] by (simp add: at d cl dw Let_def tag_facts(2,3) sp sv emit_def)
    qed
  qed
qed

lemma streaming_channel: "received (stream_all cs (initThinkState True True model)) = split_think False (concat cs)"
proof -
  have "no_tag_yet []" by (simp add: no_tag_yet_def)
  from waiting_stream [OF _ _ _ _ this, of "initThinkState True True model" cs]
  show ?thesis by (simp add: initThinkState_def)
qed

lemma str_includes_indexOf: "p \<noteq> [] \<Longrightarrow> str_includes s p \<longleftrightarrow> indexOf p s \<noteq> None"
  by (induction s) (auto simp: indexOf_Nil indexOf_Cons)

section \<open>The accumulators\<close>

text \<open>The sliding accumulator is the tail of the whole text.\<close>

lemma last_n_append: "length ys \<le> n \<Longrightarrow> last_n n (xs @ ys) = last_n (n - length ys) xs @ ys"
  by (simp add: last_n_def)

lemma last_n_last_n: "last_n n (last_n n xs @ ys) = last_n n (xs @ ys)"
proof (cases "n \<le> length xs")
  case True
  then have "length ys + (length xs - n) = length xs + length ys - n" by simp
  with True show ?thesis by (simp add: last_n_def)
qed (simp add: last_n_def)

lemma length_last_n: "length (last_n n xs) = min n (length xs)"
  by (simp add: last_n_def)

lemma appendBoundedText_tail: "length xs \<le> STREAM_SUMMARY_TEXT_LIMIT \<or> ys \<noteq> [] \<Longrightarrow>
    appendBoundedText xs ys = last_n STREAM_SUMMARY_TEXT_LIMIT (xs @ ys)"
  by (auto simp: appendBoundedText_def last_n_def of_nat_diff STREAM_SUMMARY_TEXT_LIMIT_def)

lemma bounded_accumulation:
  "foldl appendBoundedText [] xs = last_n STREAM_SUMMARY_TEXT_LIMIT (concat xs)"
proof (induction xs rule: rev_induct)
  case (snoc x xs)
  then show ?case using length_last_n [of STREAM_SUMMARY_TEXT_LIMIT "concat xs"]
    by (simp add: appendBoundedText_tail last_n_last_n)
qed (simp add: last_n_def)

section \<open>Properties\<close>

text \<open>C16. Streaming loses and misplaces nothing: however the text is cut into chunks, inside tags included, the
  reasoning and the content the client receives, the flush at the end included, are those of the
  reference on the whole text.\<close>

theorem streaming_is_chunking_independent:
  "received (stream_all cs (initThinkState True True model)) = split_think False (concat cs)"
  by (rule streaming_channel)

text \<open>The batch parser shows the same answer as the stream: for a text with at most ten open tags whose visible
  part does not itself spell a tag, \<open>extractThinkTags\<close> leaves exactly the streamed content, trimmed.\<close>

theorem batch_agrees_with_stream:
  assumes "concat cs = text" and "hasThinkTags (Some text)" and "think_opens False text \<le> 10"
    and "content = snd (received (stream_all cs (initThinkState True True model)))"
    and "\<not> str_includes content THINK_OPEN"
  shows "snd (extractThinkTags text) = js_trim content"
proof -
  have c: "content = snd (split_think False text)"
    using assms(1,4) by (simp add: streaming_channel)
  have "indexOf THINK_OPEN ([] @ snd (split_think False text)) = None"
    using assms(5) using tag_facts(1) [of False] by (simp add: c str_includes_indexOf tag_of_def)
  from extract_loop_split [OF this assms(3), of "[]"] show ?thesis
    using assms(2) by (cases "extract_loop 10 [] text") (simp add: extractThinkTags_def hasThinkTags_def c)
qed

lemma batch_agrees_with_stream_witness:
  "snd (extractThinkTags ''a<think>b</think> c <think>d'') = ''a c''"
proof -
  let ?cs = "[''a<th'', ''ink>b</'', ''think> c <think>d'']"
  have c: "snd (received (stream_all ?cs (initThinkState True True None))) = ''a c ''"
    unfolding streaming_channel by code_simp
  have h: "hasThinkTags (Some ''a<think>b</think> c <think>d'')" "think_opens False ''a<think>b</think> c <think>d'' \<le> 10"
    "\<not> str_includes ''a c '' THINK_OPEN" by code_simp+
  have t: "js_trim ''a c '' = ''a c''" by code_simp
  show ?thesis using batch_agrees_with_stream [of ?cs _ "''a c ''" None, OF _ h(1,2) c [symmetric] h(3)] by (simp add: t)
qed

text \<open>The safety limit of the batch parser: an eleventh block stays in the visible text, tags and all; the
  streaming parser has no such limit.\<close>

lemma eleventh_block_stays_visible:
  "snd (extractThinkTags (concat (replicate 11 ''<think>a</think>''))) = ''<think>a</think>''"
  "snd (split_think False (concat (replicate 11 ''<think>a</think>''))) = []"
  by code_simp+

end
