(* ===== verification/IpFilter.thy ===== *)
theory IpFilter
  imports JsString "HOL-Library.Word"
begin

text \<open>
  The IP filter, \<open>open-sse/services/ipFilter.ts\<close>: black and white lists with CIDR and wildcard
  entries, temporary bans, the row that shares the lists between the module instances, and the choice of
  the client address among the forwarding headers. JavaScript's bit operators work on 32-bit
  words and take the shift count modulo 32. \<open>Set\<close>s keep insertion order. \<open>net.isIP\<close> is the argument
  \<open>isIP\<close>; the row is what \<open>JSON.parse\<close> gives back, \<open>None\<close> when the database cannot be used.
\<close>

unbundle bit_operations_syntax

section \<open>State\<close>

record ban =
  bn_until :: int
  bn_reason :: string

record ip_row =
  ir_enabled :: bool
  ir_mode :: string
  ir_blacklist :: "string list"
  ir_whitelist :: "string list"

record ip_config =
  ic_enabled :: bool
  ic_mode :: string
  ic_blacklist :: "string list"
  ic_whitelist :: "string list"
  ic_tempBans :: "(string, ban) jsmap"

type_synonym ip_db = "ip_row option option"
type_synonym ip_state = "ip_config \<times> ip_db"

definition initial_config :: ip_config where
  "initial_config = \<lparr>ic_enabled = False, ic_mode = ''blacklist'', ic_blacklist = [], ic_whitelist = [], ic_tempBans = []\<rparr>"

definition set_of_list :: "'a list \<Rightarrow> 'a list" where
  "set_of_list xs = foldl (\<lambda>s x. set_add x s) [] xs"

lemma set_set_of_list [simp]: "set (set_of_list xs) = set xs"
proof -
  have "set (foldl (\<lambda>s x. set_add x s) ys xs) = set ys \<union> set xs" for ys
    by (induction xs arbitrary: ys) auto
  then show ?thesis by (simp add: set_of_list_def)
qed

definition ensureLoaded :: "ip_state \<Rightarrow> ip_state" where
  "ensureLoaded st =
     (case st of
        (c, Some (Some r)) \<Rightarrow>
          (c\<lparr>ic_enabled := ir_enabled r, ic_mode := ir_mode r, ic_blacklist := set_of_list (ir_blacklist r),
             ic_whitelist := set_of_list (ir_whitelist r)\<rparr>, Some (Some r))
      | _ \<Rightarrow> st)"

definition ip_persist :: "ip_state \<Rightarrow> ip_state" where
  "ip_persist st =
     (case st of
        (c, Some _) \<Rightarrow>
          (c, Some (Some \<lparr>ir_enabled = ic_enabled c, ir_mode = ic_mode c, ir_blacklist = ic_blacklist c,
                          ir_whitelist = ic_whitelist c\<rparr>))
      | (c, None) \<Rightarrow> st)"

section \<open>Addresses\<close>

definition normalizeIP :: "string \<Rightarrow> string" where
  "normalizeIP ip = (if ip = [] then [] else js_trim (if prefix ''::ffff:'' ip then drop 7 ip else ip))"

definition pickFirstValidIp :: "(string \<Rightarrow> nat) \<Rightarrow> string option \<Rightarrow> string option" where
  "pickFirstValidIp isIP raw =
     (case raw of
        None \<Rightarrow> None
      | Some v \<Rightarrow> if js_trim v = [] then None
                  else find (\<lambda>n. n \<noteq> [] \<and> isIP n \<noteq> 0) (map normalizeIP (js_split CHR '','' v)))"

fun octets_to_num :: "string list \<Rightarrow> 32 word \<Rightarrow> 32 word option" where
  "octets_to_num [] num = Some num"
| "octets_to_num (p # ps) num =
     (case parseInt10 p of
        None \<Rightarrow> None
      | Some n \<Rightarrow> if n < 0 \<or> n > 255 then None else octets_to_num ps (push_bit 8 num OR word_of_int n))"

definition ipToNum :: "string \<Rightarrow> 32 word option" where
  "ipToNum ip = (let parts = js_split CHR ''.'' ip in if length parts \<noteq> 4 then None else octets_to_num parts 0)"

text \<open>\<open>x << n\<close> on 32-bit words\<close>

definition js_shl :: "32 word \<Rightarrow> int \<Rightarrow> 32 word" where
  "js_shl x n = push_bit (nat (n mod 32)) x"

definition matchesCIDR :: "string \<Rightarrow> string \<Rightarrow> bool" where
  "matchesCIDR ip cidr =
     (let parts = js_split CHR ''/'' cidr; range = parts ! 0;
          bits = (if length parts > 1 then parseInt10 (parts ! 1) else None)
      in case bits of
           None \<Rightarrow> False
         | Some m \<Rightarrow>
             if m < 0 \<or> m > 32 then False
             else (case (ipToNum ip, ipToNum range) of
                     (Some ipNum, Some rangeNum) \<Rightarrow>
                       (let maskBits = js_shl (- 1) (32 - m)
                        in (ipNum AND maskBits) = (rangeNum AND maskBits))
                   | _ \<Rightarrow> False))"

definition matchesWildcard :: "string \<Rightarrow> string \<Rightarrow> bool" where
  "matchesWildcard ip pattern =
     (let ipParts = js_split CHR ''.'' ip; patParts = js_split CHR ''.'' pattern
      in length ipParts = 4 \<and> length patParts = 4 \<and>
         list_all (\<lambda>(part, pat). pat = ''*'' \<or> part = pat) (zip ipParts patParts))"

definition matchesAny :: "string \<Rightarrow> string list \<Rightarrow> bool" where
  "matchesAny ip ipSet \<longleftrightarrow> ip \<in> set ipSet
     \<or> (\<exists>entry\<in>set ipSet. CHR ''/'' \<in> set entry \<and> matchesCIDR ip entry
                         \<or> CHR ''*'' \<in> set entry \<and> matchesWildcard ip entry)"

section \<open>Decisions\<close>

datatype ip_verdict = Allowed | Denied string

text \<open>The \<open>switch\<close> on the mode\<close>

definition list_verdict :: "string \<Rightarrow> ip_config \<Rightarrow> ip_verdict" where
  "list_verdict n c =
     (if ic_mode c = ''whitelist'' then
        (if \<not> matchesAny n (ic_whitelist c) then Denied ''IP not in whitelist'' else Allowed)
      else if ic_mode c = ''whitelist-priority'' then
        (if matchesAny n (ic_whitelist c) then Allowed
         else if matchesAny n (ic_blacklist c) then Denied ''IP blacklisted'' else Allowed)
      else (if matchesAny n (ic_blacklist c) then Denied ''IP blacklisted'' else Allowed))"

definition checkIP :: "int \<Rightarrow> string \<Rightarrow> ip_state \<Rightarrow> ip_verdict \<times> ip_state" where
  "checkIP now ip st0 =
     (let (c, db) = ensureLoaded st0
      in if \<not> ic_enabled c then (Allowed, (c, db))
         else if ip = [] then (Allowed, (c, db))
         else (let n = normalizeIP ip; ban = jm_get (ic_tempBans c) n
               in case ban of
                    Some b \<Rightarrow>
                      if now < bn_until b then (Denied (''Temporarily banned: '' @ bn_reason b), (c, db))
                      else (let c' = c\<lparr>ic_tempBans := jm_del n (ic_tempBans c)\<rparr> in (list_verdict n c', (c', db)))
                  | None \<Rightarrow> (list_verdict n c, (c, db))))"

text \<open>The first source that yields a valid address; a later one is not looked at.\<close>

fun first_some :: "'a option list \<Rightarrow> 'a option" where
  "first_some [] = None"
| "first_some (Some x # _) = Some x"
| "first_some (None # xs) = first_some xs"

definition nonempty :: "string \<Rightarrow> string option" where
  "nonempty s = (if s = [] then None else Some s)"

definition checkRequestIP ::
  "(string \<Rightarrow> nat) \<Rightarrow> int \<Rightarrow> (string \<Rightarrow> string option) \<Rightarrow> string option \<Rightarrow> string option \<Rightarrow> ip_state \<Rightarrow> ip_verdict \<times> ip_state" where
  "checkRequestIP isIP now headers requestIp trustedPeerIp st =
     (let ip = first_some
            [pickFirstValidIp isIP trustedPeerIp,
             pickFirstValidIp isIP (headers ''cf-connecting-ip''),
             pickFirstValidIp isIP (headers ''x-forwarded-for''),
             pickFirstValidIp isIP (headers ''x-real-ip''),
             nonempty (normalizeIP (case requestIp of None \<Rightarrow> [] | Some r \<Rightarrow> r)), Some ''unknown'']
      in checkIP now (the ip) st)"

definition extractClientIP ::
  "(string \<Rightarrow> nat) \<Rightarrow> (string \<Rightarrow> string option) \<Rightarrow> string option \<Rightarrow> string option \<Rightarrow> string" where
  "extractClientIP isIP headers remoteAddress reqIp =
     the (first_some
       [pickFirstValidIp isIP (headers ''cf-connecting-ip''),
        pickFirstValidIp isIP (headers ''x-forwarded-for''),
        pickFirstValidIp isIP (headers ''x-real-ip''),
        pickFirstValidIp isIP remoteAddress, pickFirstValidIp isIP reqIp, Some ''unknown''])"

datatype middleware_reply = Next | Forbidden string

definition createIPFilterMiddleware ::
  "(string \<Rightarrow> nat) \<Rightarrow> int \<Rightarrow> (string \<Rightarrow> string option) \<Rightarrow> string option \<Rightarrow> string option \<Rightarrow> ip_state \<Rightarrow> middleware_reply \<times> ip_state" where
  "createIPFilterMiddleware isIP now headers remoteAddress reqIp st =
     (let (v, st') = checkIP now (extractClientIP isIP headers remoteAddress reqIp) st
      in (case v of Allowed \<Rightarrow> Next | Denied reason \<Rightarrow> Forbidden (if reason = [] then ''Access denied'' else reason), st'))"

section \<open>Administration\<close>

record ip_patch =
  ip_enabled :: "bool option"
  ip_mode :: "string option"
  ip_blacklist :: "string list option"
  ip_whitelist :: "string list option"

definition configureIPFilter :: "ip_patch \<Rightarrow> ip_state \<Rightarrow> ip_state" where
  "configureIPFilter p st0 =
     (let (c, db) = ensureLoaded st0;
          c1 = (case ip_enabled p of None \<Rightarrow> c | Some e \<Rightarrow> c\<lparr>ic_enabled := e\<rparr>);
          c2 = (case ip_mode p of None \<Rightarrow> c1 | Some m \<Rightarrow> if m = [] then c1 else c1\<lparr>ic_mode := m\<rparr>);
          c3 = (case ip_blacklist p of None \<Rightarrow> c2 | Some l \<Rightarrow> c2\<lparr>ic_blacklist := set_of_list l\<rparr>);
          c4 = (case ip_whitelist p of None \<Rightarrow> c3 | Some l \<Rightarrow> c3\<lparr>ic_whitelist := set_of_list l\<rparr>)
      in ip_persist (c4, db))"

definition tempBanIP :: "int \<Rightarrow> string \<Rightarrow> int \<Rightarrow> string \<Rightarrow> ip_state \<Rightarrow> ip_state" where
  "tempBanIP now ip durationMs reason st =
     (case st of (c, db) \<Rightarrow>
        (c\<lparr>ic_tempBans := jm_set (normalizeIP ip) \<lparr>bn_until = now + durationMs, bn_reason = reason\<rparr> (ic_tempBans c)\<rparr>, db))"

definition removeTempBan :: "string \<Rightarrow> ip_state \<Rightarrow> ip_state" where
  "removeTempBan ip st = (case st of (c, db) \<Rightarrow> (c\<lparr>ic_tempBans := jm_del (normalizeIP ip) (ic_tempBans c)\<rparr>, db))"

definition tempBanSweep :: "int \<Rightarrow> ip_state \<Rightarrow> ip_state" where
  "tempBanSweep now st =
     (case st of (c, db) \<Rightarrow> (c\<lparr>ic_tempBans := filter (\<lambda>(_, b). \<not> now \<ge> bn_until b) (ic_tempBans c)\<rparr>, db))"

definition addToBlacklist :: "string \<Rightarrow> ip_state \<Rightarrow> ip_state" where
  "addToBlacklist ip st0 =
     (let (c, db) = ensureLoaded st0
      in ip_persist (c\<lparr>ic_blacklist := set_add (normalizeIP ip) (ic_blacklist c)\<rparr>, db))"

definition removeFromBlacklist :: "string \<Rightarrow> ip_state \<Rightarrow> ip_state" where
  "removeFromBlacklist ip st0 =
     (let (c, db) = ensureLoaded st0
      in ip_persist (c\<lparr>ic_blacklist := removeAll (normalizeIP ip) (ic_blacklist c)\<rparr>, db))"

definition addToWhitelist :: "string \<Rightarrow> ip_state \<Rightarrow> ip_state" where
  "addToWhitelist ip st0 =
     (let (c, db) = ensureLoaded st0
      in ip_persist (c\<lparr>ic_whitelist := set_add (normalizeIP ip) (ic_whitelist c)\<rparr>, db))"

definition removeFromWhitelist :: "string \<Rightarrow> ip_state \<Rightarrow> ip_state" where
  "removeFromWhitelist ip st0 =
     (let (c, db) = ensureLoaded st0
      in ip_persist (c\<lparr>ic_whitelist := removeAll (normalizeIP ip) (ic_whitelist c)\<rparr>, db))"

definition getIPFilterConfig :: "int \<Rightarrow> ip_state \<Rightarrow> (bool \<times> string \<times> string list \<times> string list \<times> (string \<times> int \<times> string \<times> int) list) \<times> ip_state" where
  "getIPFilterConfig now st0 =
     (let (c, db) = ensureLoaded st0
      in ((ic_enabled c, ic_mode c, ic_blacklist c, ic_whitelist c,
           map (\<lambda>(ip, b). (ip, bn_until b, bn_reason b, max 0 (bn_until b - now))) (ic_tempBans c)), (c, db)))"

definition resetIPFilter :: "ip_state \<Rightarrow> ip_state" where
  "resetIPFilter st = (initial_config, snd st)"

section \<open>Addresses as words\<close>

lemma push_or: "n < 256 \<Longrightarrow> push_bit 8 num OR word_of_nat n = 256 * num + (word_of_nat n :: 32 word)"
proof -
  assume n: "n < 256"
  have "\<not> bit (word_of_nat n :: 32 word) k" if "8 \<le> k" for k
  proof -
    have "n < 2 ^ k" using n that power_increasing [of 8 k "2::nat"] by simp
    then have "\<not> bit n k" by (simp add: bit_iff_odd)
    then show ?thesis by (simp add: bit_simps)
  qed
  then have "push_bit 8 num AND (word_of_nat n :: 32 word) = 0"
    by (auto simp: bit_eq_iff bit_simps)
  then have "push_bit 8 num + (word_of_nat n :: 32 word) = push_bit 8 num OR word_of_nat n"
    by (rule disjunctive_add_eq_or)
  then show ?thesis by (simp add: push_bit_eq_mult mult.commute)
qed

lemma same_prefix:
  fixes a b :: "32 word"
  assumes "k < 32"
  shows "a AND push_bit k (- 1) = b AND push_bit k (- 1) \<longleftrightarrow> unat a div 2 ^ k = unat b div 2 ^ k"
proof -
  have m: "x AND push_bit k (- 1) = push_bit k (drop_bit k x)" for x :: "32 word"
    by (rule bit_word_eqI) (auto simp: bit_simps)
  have "a AND push_bit k (- 1) = b AND push_bit k (- 1) \<longleftrightarrow> drop_bit k a = drop_bit k b"
  proof
    assume e: "a AND push_bit k (- 1) = b AND push_bit k (- 1)"
    show "drop_bit k a = drop_bit k b"
    proof (rule bit_word_eqI)
      fix n
      have "bit (a AND push_bit k (- 1)) (k + n) = bit (b AND push_bit k (- 1)) (k + n)" by (simp only: e)
      then show "bit (drop_bit k a) n = bit (drop_bit k b) n"
        using bit_imp_le_length [of a "k + n"] bit_imp_le_length [of b "k + n"] by (auto simp: bit_simps)
    qed
  qed (simp only: m)
  also have "\<dots> \<longleftrightarrow> unat (drop_bit k a) = unat (drop_bit k b)" by (auto intro: unsigned_word_eqI)
  moreover have "unat (drop_bit k x) = unat x div 2 ^ k" for x :: "32 word"
    by (subst unat_drop_bit_eq) (rule drop_bit_eq_div)
  ultimately show ?thesis by metis
qed

definition quad :: "nat \<Rightarrow> nat \<Rightarrow> nat \<Rightarrow> nat \<Rightarrow> nat" where
  "quad a b c d = ((a * 256 + b) * 256 + c) * 256 + d"

definition dotted :: "nat \<Rightarrow> nat \<Rightarrow> nat \<Rightarrow> nat \<Rightarrow> string" where
  "dotted a b c d = show_nat a @ CHR ''.'' # show_nat b @ CHR ''.'' # show_nat c @ CHR ''.'' # show_nat d"

lemma show_nat_no: "CHR ''.'' \<notin> set (show_nat n)" "CHR ''/'' \<notin> set (show_nat n)"
  using show_nat_digits [of n] digit_not by auto

lemma octets_step:
  "n < 256 \<Longrightarrow> octets_to_num (show_nat n # ps) num = octets_to_num ps (256 * num + word_of_nat n)"
  by (simp add: parse_show push_or)

lemma ipToNum_dotted:
  assumes "a < 256" and "b < 256" and "c < 256" and "d < 256"
  shows "ipToNum (dotted a b c d) = Some (word_of_nat (quad a b c d))"
proof -
  have "js_split CHR ''.'' (dotted a b c d) = [show_nat a, show_nat b, show_nat c, show_nat d]"
    by (simp add: dotted_def js_split_append js_split_word show_nat_no)
  then show ?thesis using assms
    by (simp add: ipToNum_def octets_step quad_def algebra_simps del: octets_to_num.simps(2))
qed

section \<open>Several instances on one row\<close>

text \<open>The reference: one policy with two sets of entries.\<close>

record ip_policy =
  po_enabled :: bool
  po_mode :: string
  po_black :: "string set"
  po_white :: "string set"

definition policy_of :: "ip_row \<Rightarrow> ip_policy" where
  "policy_of r = \<lparr>po_enabled = ir_enabled r, po_mode = ir_mode r, po_black = set (ir_blacklist r), po_white = set (ir_whitelist r)\<rparr>"

definition covers :: "string set \<Rightarrow> string \<Rightarrow> bool" where
  "covers S ip \<longleftrightarrow> ip \<in> S \<or> (\<exists>entry\<in>S. CHR ''/'' \<in> set entry \<and> matchesCIDR ip entry
                                       \<or> CHR ''*'' \<in> set entry \<and> matchesWildcard ip entry)"

lemma matchesAny_covers: "matchesAny ip l \<longleftrightarrow> covers (set l) ip"
  by (simp add: matchesAny_def covers_def)

definition policy_lists :: "string \<Rightarrow> ip_policy \<Rightarrow> ip_verdict" where
  "policy_lists n p =
     (if po_mode p = ''whitelist'' then if covers (po_white p) n then Allowed else Denied ''IP not in whitelist''
      else if po_mode p = ''whitelist-priority'' \<and> covers (po_white p) n then Allowed
      else if covers (po_black p) n then Denied ''IP blacklisted'' else Allowed)"

definition policy_check :: "int \<Rightarrow> string \<Rightarrow> ban option \<Rightarrow> ip_policy \<Rightarrow> ip_verdict" where
  "policy_check now ip banned p =
     (if \<not> po_enabled p \<or> ip = [] then Allowed
      else case banned of
             Some b \<Rightarrow> if now < bn_until b then Denied (''Temporarily banned: '' @ bn_reason b)
                       else policy_lists (normalizeIP ip) p
           | None \<Rightarrow> policy_lists (normalizeIP ip) p)"

datatype ip_op =
    AddBlack string | RemoveBlack string | AddWhite string | RemoveWhite string | Configure ip_patch
  | CheckAddress int string | Ban int string int string | Unban string | Sweep int | ViewConfig int

fun ip_do :: "ip_op \<Rightarrow> ip_state \<Rightarrow> ip_state" where
  "ip_do (AddBlack ip) st = addToBlacklist ip st"
| "ip_do (RemoveBlack ip) st = removeFromBlacklist ip st"
| "ip_do (AddWhite ip) st = addToWhitelist ip st"
| "ip_do (RemoveWhite ip) st = removeFromWhitelist ip st"
| "ip_do (Configure p) st = configureIPFilter p st"
| "ip_do (CheckAddress now ip) st = snd (checkIP now ip st)"
| "ip_do (Ban now ip d why) st = tempBanIP now ip d why st"
| "ip_do (Unban ip) st = removeTempBan ip st"
| "ip_do (Sweep now) st = tempBanSweep now st"
| "ip_do (ViewConfig now) st = snd (getIPFilterConfig now st)"

text \<open>Module instances, each with its own memory, over one database.\<close>

definition instance_step :: "(nat \<Rightarrow> ip_config) \<times> ip_db \<Rightarrow> nat \<times> ip_op \<Rightarrow> (nat \<Rightarrow> ip_config) \<times> ip_db" where
  "instance_step st x =
     (case st of (cs, db) \<Rightarrow> case x of (i, act) \<Rightarrow>
        (let (c', db') = ip_do act (cs i, db) in (cs(i := c'), db')))"

fun policy_step :: "ip_policy \<Rightarrow> ip_op \<Rightarrow> ip_policy" where
  "policy_step p (AddBlack ip) = p\<lparr>po_black := insert (normalizeIP ip) (po_black p)\<rparr>"
| "policy_step p (RemoveBlack ip) = p\<lparr>po_black := po_black p - {normalizeIP ip}\<rparr>"
| "policy_step p (AddWhite ip) = p\<lparr>po_white := insert (normalizeIP ip) (po_white p)\<rparr>"
| "policy_step p (RemoveWhite ip) = p\<lparr>po_white := po_white p - {normalizeIP ip}\<rparr>"
| "policy_step p (Configure c) =
     \<lparr>po_enabled = (case ip_enabled c of None \<Rightarrow> po_enabled p | Some e \<Rightarrow> e),
      po_mode = (case ip_mode c of None \<Rightarrow> po_mode p | Some m \<Rightarrow> if m = [] then po_mode p else m),
      po_black = (case ip_blacklist c of None \<Rightarrow> po_black p | Some l \<Rightarrow> set l),
      po_white = (case ip_whitelist c of None \<Rightarrow> po_white p | Some l \<Rightarrow> set l)\<rparr>"
| "policy_step p _ = p"

lemma ip_do_row: "\<exists>r'. snd (ip_do act (c, Some (Some r))) = Some (Some r') \<and> policy_of r' = policy_step (policy_of r) act"
  by (cases act)
     (auto simp: addToBlacklist_def removeFromBlacklist_def addToWhitelist_def removeFromWhitelist_def configureIPFilter_def
        checkIP_def tempBanIP_def removeTempBan_def tempBanSweep_def getIPFilterConfig_def ensureLoaded_def ip_persist_def
        policy_of_def Let_def split: option.splits)

lemma run_row:
  assumes "run instance_step (cs, Some (Some r)) xs = (cs', db)"
  shows "\<exists>r'. db = Some (Some r') \<and> policy_of r' = run policy_step (policy_of r) (map snd xs)"
  using assms
proof (induction xs arbitrary: cs r)
  case (Cons x xs)
  obtain i act where x: "x = (i, act)" by (cases x)
  obtain r1 c1 where r1: "ip_do act (cs i, Some (Some r)) = (c1, Some (Some r1))" "policy_of r1 = policy_step (policy_of r) act"
    using ip_do_row [of act "cs i" r] by (cases "ip_do act (cs i, Some (Some r))") auto
  then have "instance_step (cs, Some (Some r)) x = (cs(i := c1), Some (Some r1))"
    by (simp add: instance_step_def x)
  then have "run instance_step (cs(i := c1), Some (Some r1)) xs = (cs', db)" using Cons.prems by simp
  from Cons.IH [OF this] r1(2) show ?case by (simp add: x)
qed auto

lemma checkIP_policy:
  "fst (checkIP now ip (c, Some (Some r))) = policy_check now ip (jm_get (ic_tempBans c) (normalizeIP ip)) (policy_of r)"
  by (auto simp: checkIP_def ensureLoaded_def policy_check_def policy_lists_def list_verdict_def matchesAny_covers
      policy_of_def Let_def split: option.splits)

section \<open>Properties\<close>

text \<open>CIDR entries: with readable addresses and a prefix length in range, an entry matches exactly the addresses that share the
  first \<open>m\<close> bits with it, except that \<open>/0\<close> matches only the address written in front of it.\<close>

theorem cidr_matches_prefix:
  assumes "a < 256" "b < 256" "c < 256" "d < 256" "a' < 256" "b' < 256" "c' < 256" "d' < 256"
  shows "matchesCIDR (dotted a b c d) (dotted a' b' c' d' @ CHR ''/'' # show_nat m) \<longleftrightarrow>
    m \<le> 32 \<and> (if m = 0 then quad a b c d = quad a' b' c' d'
              else quad a b c d div 2 ^ (32 - m) = quad a' b' c' d' div 2 ^ (32 - m))"
proof -
  have p: "js_split CHR ''/'' (dotted a' b' c' d' @ CHR ''/'' # show_nat m) = [dotted a' b' c' d', show_nat m]"
    using js_split_append [of "CHR ''/''" "dotted a' b' c' d'" "show_nat m"]
    by (simp add: js_split_word dotted_def show_nat_no)
  have w: "unat (word_of_nat (quad x y z u) :: 32 word) = quad x y z u"
    if "x < 256" "y < 256" "z < 256" "u < 256" for x y z u
  proof -
    have "quad x y z u < 2 ^ 32" using that by (simp add: quad_def)
    then show ?thesis by (simp add: unat_of_nat)
  qed
  have z: "js_shl (- 1) (32 - int m) = (if m = 0 then - 1 else push_bit (32 - m) (- 1))" if "m \<le> 32"
  proof (cases "m = 0")
    case False
    then have "(32 - int m) mod 32 = 32 - int m" using that by (intro mod_pos_pos_trivial) auto
    then have "nat ((32 - int m) mod 32) = 32 - m" by simp
    with False show ?thesis unfolding js_shl_def by simp
  qed (simp add: js_shl_def)
  let ?A = "word_of_nat (quad a b c d) :: 32 word" and ?B = "word_of_nat (quad a' b' c' d') :: 32 word"
  have M: "matchesCIDR (dotted a b c d) (dotted a' b' c' d' @ CHR ''/'' # show_nat m) \<longleftrightarrow>
      m \<le> 32 \<and> ?A AND js_shl (- 1) (32 - int m) = ?B AND js_shl (- 1) (32 - int m)"
    using assms by (simp add: matchesCIDR_def Let_def p parse_show ipToNum_dotted)
  have "?A = ?B \<longleftrightarrow> unat ?A = unat ?B" by (auto intro: unsigned_word_eqI)
  then have "?A = ?B \<longleftrightarrow> quad a b c d = quad a' b' c' d'" using assms w by simp
  moreover have "?A AND push_bit (32 - m) (- 1) = ?B AND push_bit (32 - m) (- 1) \<longleftrightarrow>
      quad a b c d div 2 ^ (32 - m) = quad a' b' c' d' div 2 ^ (32 - m)" if "m \<noteq> 0"
    using same_prefix [of "32 - m" ?A ?B] that assms w by simp
  ultimately show ?thesis unfolding M using z by (cases "m = 0") auto
qed

lemma cidr_matches_prefix_witness:
  "matchesCIDR (dotted 10 1 255 7) (dotted 10 1 0 0 @ CHR ''/'' # show_nat 16)
   \<and> (matchesCIDR (dotted 10 1 255 7) (dotted 0 0 0 0 @ CHR ''/'' # show_nat 0) \<longleftrightarrow> False)"
  using cidr_matches_prefix [of 10 1 255 7 10 1 0 0 16] cidr_matches_prefix [of 10 1 255 7 0 0 0 0 0]
  by (simp add: quad_def)

text \<open>C34. One policy for all instances: whatever the module instances do in whatever order, with the row available,
  every instance decides every request as the one policy with all the edits so far applied in order, but for its
  own temporary bans.\<close>

theorem instances_share_one_policy:
  assumes "run instance_step (cs, Some (Some r)) xs = (cs', db)"
  shows "fst (checkIP now ip (cs' j, db)) =
    policy_check now ip (jm_get (ic_tempBans (cs' j)) (normalizeIP ip)) (run policy_step (policy_of r) (map snd xs))"
  using run_row [OF assms] checkIP_policy by metis

definition ex_row :: ip_row where
  "ex_row = \<lparr>ir_enabled = True, ir_mode = ''blacklist'', ir_blacklist = [], ir_whitelist = []\<rparr>"

lemma instances_share_one_policy_witness:
  "fst (checkIP 5 ''1.2.3.4'' (initial_config, snd (run instance_step (\<lambda>_. initial_config, Some (Some ex_row)) [(0, AddBlack ''::ffff:1.2.3.4'')])))
     = Denied ''IP blacklisted''"
proof -
  let ?r = "run instance_step (\<lambda>_. initial_config, Some (Some ex_row)) [(0, AddBlack ''::ffff:1.2.3.4'')]"
  have n: "normalizeIP ''::ffff:1.2.3.4'' = ''1.2.3.4''" "normalizeIP ''1.2.3.4'' = ''1.2.3.4''" by code_simp+
  have "fst ?r 1 = initial_config" by (simp add: instance_step_def split: prod.splits)
  then show ?thesis
    using instances_share_one_policy [of "\<lambda>_. initial_config" ex_row "[(0, AddBlack ''::ffff:1.2.3.4'')]" "fst ?r" "snd ?r" 5 "''1.2.3.4''" 1]
    by (simp add: n policy_check_def policy_lists_def policy_of_def ex_row_def covers_def initial_config_def)
qed

text \<open>An address in the IPv4-mapped form that is configured as such, instead of added, never matches.\<close>

lemma configured_mapped_address_is_not_blocked:
  "fst (checkIP 5 ''::ffff:1.2.3.4'' (configureIPFilter
      \<lparr>ip_enabled = Some True, ip_mode = None, ip_blacklist = Some [''::ffff:1.2.3.4''], ip_whitelist = None\<rparr>
      (initial_config, Some None))) = Allowed"
  by code_simp

end
