(* ===== verification/Sha3.thy ===== *)
theory Sha3
  imports Omni_Prelude "HOL-Library.Word"
begin

text \<open>
  The portable SHA3-512, \<open>open-sse/utils/sha3-512.ts\<close>. Its lanes are \<open>BigInt\<close>s kept below \<open>2^64\<close> by
  a mask, so they are \<open>int\<close> here, with the mask where the code has it; bytes are \<open>int\<close>s below 256. The
  reference is FIPS 202 over 64-bit words and bit strings: the five step mappings, the rotation offsets
  and round constants from their generators, \<open>pad10*1\<close>, the sponge.
\<close>

unbundle bit_operations_syntax

section \<open>The code\<close>

definition MASK64 :: int where "MASK64 = push_bit 64 1 - 1"

definition RC_table :: "int list" where
  "RC_table =
    [0x0000000000000001, 0x0000000000008082, 0x800000000000808a, 0x8000000080008000, 0x000000000000808b,
     0x0000000080000001, 0x8000000080008081, 0x8000000000008009, 0x000000000000008a, 0x0000000000000088,
     0x0000000080008009, 0x000000008000000a, 0x000000008000808b, 0x800000000000008b, 0x8000000000008089,
     0x8000000000008003, 0x8000000000008002, 0x8000000000000080, 0x000000000000800a, 0x800000008000000a,
     0x8000000080008081, 0x8000000000008080, 0x0000000080000001, 0x8000000080008008]"

definition ROT :: "nat list" where
  "ROT = [0, 1, 62, 28, 27, 36, 44, 6, 55, 20, 3, 10, 43, 25, 39, 41, 45, 15, 21, 8, 18, 2, 61, 56, 14]"

definition rotl64 :: "int \<Rightarrow> nat \<Rightarrow> int" where
  "rotl64 x n = (if n = 0 then x else (push_bit n x OR drop_bit (64 - n) x) AND MASK64)"

text \<open>\<open>for x\<close>, \<open>for y\<close> below five, updating one array cell each.\<close>

definition xy :: "(nat \<times> nat) list" where
  "xy = List.product [0..<5] [0..<5]"

definition theta :: "int list \<Rightarrow> int list" where
  "theta s =
     (let C = map (\<lambda>x. s ! x XOR s ! (x + 5) XOR s ! (x + 10) XOR s ! (x + 15) XOR s ! (x + 20)) [0..<5];
          D = map (\<lambda>x. C ! ((x + 4) mod 5) XOR rotl64 (C ! ((x + 1) mod 5)) 1) [0..<5]
      in fold (\<lambda>(x, y) s. s[x + 5 * y := s ! (x + 5 * y) XOR D ! x]) xy s)"

definition rho_pi :: "int list \<Rightarrow> int list \<Rightarrow> int list" where
  "rho_pi s B =
     fold (\<lambda>(x, y) B. B[y + 5 * ((2 * x + 3 * y) mod 5) := rotl64 (s ! (x + 5 * y)) (ROT ! (x + 5 * y))]) xy B"

definition chi :: "int list \<Rightarrow> int list \<Rightarrow> int list" where
  "chi B s =
     fold (\<lambda>(x, y) s. s[x + 5 * y := B ! (x + 5 * y) XOR
        (NOT (B ! ((x + 1) mod 5 + 5 * y)) AND MASK64 AND B ! ((x + 2) mod 5 + 5 * y))]) xy s"

text \<open>One round. The array \<open>B\<close> is kept between rounds; every cell of it is written before it is read.\<close>

definition keccak_step :: "nat \<Rightarrow> int list \<times> int list \<Rightarrow> int list \<times> int list" where
  "keccak_step r st =
     (case st of (s, B) \<Rightarrow>
        (let s1 = theta s; B1 = rho_pi s1 B; s2 = chi B1 s1
         in (s2[0 := s2 ! 0 XOR RC_table ! r], B1)))"

definition keccakF1600 :: "int list \<Rightarrow> int list" where
  "keccakF1600 s = fst (fold keccak_step [0..<24] (s, replicate 25 0))"

definition RATE_BYTES :: nat where "RATE_BYTES = 72"

definition padded_message :: "int list \<Rightarrow> int list" where
  "padded_message msg =
     (let padLen = RATE_BYTES - length msg mod RATE_BYTES;
          p0 = msg @ replicate padLen 0;
          p1 = p0[length msg := 0x06]
      in p1[length p1 - 1 := p1 ! (length p1 - 1) OR 0x80])"

definition read_lane :: "int list \<Rightarrow> nat \<Rightarrow> nat \<Rightarrow> int" where
  "read_lane p off i = fold (\<lambda>b lane. lane OR push_bit (8 * b) (p ! (off + i * 8 + b))) [0..<8] 0"

definition absorb :: "int list \<Rightarrow> nat \<Rightarrow> int list \<Rightarrow> int list" where
  "absorb p off s =
     keccakF1600 (fold (\<lambda>i s. s[i := s ! i XOR read_lane p off i]) [0..<RATE_BYTES div 8] s)"

definition sha3_512Bytes :: "int list \<Rightarrow> int list" where
  "sha3_512Bytes msg =
     (let p = padded_message msg;
          s = fold (\<lambda>k. absorb p (k * RATE_BYTES)) [0..<length p div RATE_BYTES] (replicate 25 0)
      in concat (map (\<lambda>i. map (\<lambda>b. drop_bit (8 * b) (s ! i) AND 0xff) [0..<8]) [0..<8]))"

text \<open>The hexadecimal digest, and the choice between the native hasher and this one. \<open>native\<close> is the runtime's
  \<open>createHash("sha3-512")\<close>, \<open>None\<close> where it throws; what was found out about it is kept.\<close>

definition hex_digit :: "int \<Rightarrow> char" where
  "hex_digit n = (''0123456789abcdef'' ! nat n)"

definition hex_string :: "int list \<Rightarrow> string" where
  "hex_string bs = concat (map (\<lambda>b. [hex_digit (b div 16), hex_digit (b mod 16)]) bs)"

definition sha3_512HexJs :: "int list \<Rightarrow> string" where
  "sha3_512HexJs input = hex_string (sha3_512Bytes input)"

datatype native_state = Unprobed | Unavailable | Available

definition detectNative :: "(int list \<Rightarrow> string option) \<Rightarrow> native_state" where
  "detectNative native = (case native [] of None \<Rightarrow> Unavailable | Some _ \<Rightarrow> Available)"

definition sha3_512Hex :: "(int list \<Rightarrow> string option) \<Rightarrow> int list \<Rightarrow> native_state \<Rightarrow> string \<times> native_state" where
  "sha3_512Hex native input st0 =
     (let st = (if st0 = Unprobed then detectNative native else st0)
      in if st = Available
         then (case native input of
                 Some h \<Rightarrow> (h, st)
               | None \<Rightarrow> (sha3_512HexJs input, Unavailable))
         else (sha3_512HexJs input, st))"

section \<open>FIPS 202\<close>

type_synonym state = "nat \<Rightarrow> nat \<Rightarrow> 64 word"

definition f_theta :: "state \<Rightarrow> state" where
  "f_theta A x y =
     (let C = (\<lambda>x. A x 0 XOR A x 1 XOR A x 2 XOR A x 3 XOR A x 4)
      in A x y XOR C ((x + 4) mod 5) XOR word_rotl 1 (C ((x + 1) mod 5)))"

fun rho_walk :: "nat \<Rightarrow> nat \<Rightarrow> nat \<Rightarrow> nat \<Rightarrow> ((nat \<times> nat) \<times> nat) list" where
  "rho_walk 0 t x y = []"
| "rho_walk (Suc n) t x y = ((x, y), (t + 1) * (t + 2) div 2 mod 64) # rho_walk n (t + 1) y ((2 * x + 3 * y) mod 5)"

definition rho_offset :: "nat \<Rightarrow> nat \<Rightarrow> nat" where
  "rho_offset x y = (case map_of (rho_walk 24 0 1 0) (x, y) of None \<Rightarrow> 0 | Some k \<Rightarrow> k)"

definition f_rho :: "state \<Rightarrow> state" where
  "f_rho A x y = word_rotl (rho_offset x y) (A x y)"

definition f_pi :: "state \<Rightarrow> state" where
  "f_pi A x y = A ((x + 3 * y) mod 5) x"

definition f_chi :: "state \<Rightarrow> state" where
  "f_chi A x y = A x y XOR (NOT (A ((x + 1) mod 5) y) AND A ((x + 2) mod 5) y)"

text \<open>The linear feedback shift register of the round constants.\<close>

definition lfsr :: "bool list \<Rightarrow> bool list" where
  "lfsr R = (let R' = False # R in
     take 8 (R'[0 := R' ! 0 \<noteq> R' ! 8, 4 := R' ! 4 \<noteq> R' ! 8, 5 := R' ! 5 \<noteq> R' ! 8, 6 := R' ! 6 \<noteq> R' ! 8]))"

fun lfsr_bits :: "nat \<Rightarrow> bool list \<Rightarrow> bool list" where
  "lfsr_bits 0 R = []"
| "lfsr_bits (Suc n) R = (R ! 0) # lfsr_bits n (lfsr R)"

definition rc_bits :: "bool list" where
  "rc_bits = lfsr_bits 168 [True, False, False, False, False, False, False, False]"

definition word_of_bits :: "bool list \<Rightarrow> 64 word" where
  "word_of_bits bs = horner_sum of_bool 2 bs"

definition round_constant :: "nat \<Rightarrow> 64 word" where
  "round_constant ir =
     word_of_bits (fold (\<lambda>j z. z[2 ^ j - 1 := rc_bits ! (j + 7 * ir)]) [0..<7] (replicate 64 False))"

definition f_iota :: "nat \<Rightarrow> state \<Rightarrow> state" where
  "f_iota ir A x y = (if x = 0 \<and> y = 0 then A x y XOR round_constant ir else A x y)"

definition f_round :: "nat \<Rightarrow> state \<Rightarrow> state" where
  "f_round ir A = f_iota ir (f_chi (f_pi (f_rho (f_theta A))))"

definition keccak_p :: "state \<Rightarrow> state" where
  "keccak_p A = fold f_round [0..<24] A"

text \<open>The sponge with rate 576 over bit strings, \<open>SHA3-512(M) = KECCAK[1024](M || 01, 512)\<close>.\<close>

definition pad101 :: "nat \<Rightarrow> nat \<Rightarrow> bool list" where
  "pad101 rate m = True # replicate (nat ((- int m - 2) mod int rate)) False @ [True]"

definition f_absorb :: "bool list \<Rightarrow> nat \<Rightarrow> state \<Rightarrow> state" where
  "f_absorb P k A =
     keccak_p (\<lambda>x y. A x y XOR word_of_bits (take 64 (drop (64 * (x + 5 * y)) (take 576 (drop (k * 576) P) @ replicate 1024 False))))"

definition state_bits :: "state \<Rightarrow> bool list" where
  "state_bits A = concat (map (\<lambda>i. map (bit (A (i mod 5) (i div 5))) [0..<64]) [0..<25])"

definition SHA3_512 :: "bool list \<Rightarrow> bool list" where
  "SHA3_512 M =
     (let N = M @ [False, True]; P = N @ pad101 576 (length N);
          S = fold (f_absorb P) [0..<length P div 576] (\<lambda>_ _. 0)
      in take 512 (state_bits S))"

section \<open>Lanes and words\<close>

lemma fold_cells:
  assumes "distinct (map g ps)" and "\<forall>p\<in>set ps. g p < length s"
  shows "length (fold (\<lambda>p s. s[g p := f p (s ! g p)]) ps s) = length s"
    and "p \<in> set ps \<Longrightarrow> fold (\<lambda>p s. s[g p := f p (s ! g p)]) ps s ! g p = f p (s ! g p)"
    and "i \<notin> g ` set ps \<Longrightarrow> fold (\<lambda>p s. s[g p := f p (s ! g p)]) ps s ! i = s ! i"
  using assms
proof (induction ps arbitrary: s p i)
  case (Cons q ps)
  {
    case 1
    then show ?case using Cons.IH(1) [where s = "s[g q := f q (s ! g q)]"] by simp
  next
    case 2
    show ?case
    proof (cases "p = q")
      case True
      have "g q \<notin> g ` set ps" using 2 by simp
      then show ?thesis using Cons.IH(3) [where i = "g q" and s = "s[g q := f q (s ! g q)]"] 2 True by simp
    next
      case False
      then have "p \<in> set ps" "g p \<noteq> g q" using 2 by (auto simp: image_iff)
      then show ?thesis using Cons.IH(2) [where p = p and s = "s[g q := f q (s ! g q)]"] 2 by simp
    qed
  next
    case 3
    then show ?case using Cons.IH(3) [where i = i and s = "s[g q := f q (s ! g q)]"] by simp
  }
qed simp_all

lemma xy_set: "(x, y) \<in> set xy \<longleftrightarrow> x < 5 \<and> y < 5"
  by (auto simp: xy_def)

lemma xy_cells: "distinct (map (\<lambda>(x, y). x + 5 * y) xy)"
  "distinct (map (\<lambda>(x, y). y + 5 * ((2 * x + 3 * y) mod 5)) xy)"
  by code_simp+

definition reps :: "int list \<Rightarrow> state \<Rightarrow> bool" where
  "reps s A \<longleftrightarrow> length s = 25 \<and> (\<forall>x<5. \<forall>y<5. s ! (x + 5 * y) = uint (A x y))"

lemma uint_xor: "uint (a XOR b) = uint a XOR uint (b :: 64 word)"
  by (rule bit_eqI) (simp add: bit_simps conj_disj_distribL)

lemma MASK64_bit: "bit MASK64 k \<longleftrightarrow> k < 64"
proof -
  have "MASK64 = mask 64" by (simp only: MASK64_def mask_eq_exp_minus_1 push_bit_eq_mult mult_1)
  then show ?thesis by (metis bit_mask_iff possible_bit_int)
qed

lemma rotl64_uint: "n < 64 \<Longrightarrow> rotl64 (uint (w :: 64 word)) n = uint (word_rotl n w)"
proof (cases "n = 0")
  case False
  assume n: "n < 64"
  show ?thesis
  proof (rule bit_eqI)
    fix k
    have i: "(k + (64 - n)) mod 64 = (if n \<le> k then k - n else k + (64 - n))" if "k < 64"
    proof (cases "n \<le> k")
      case True
      then have "k + (64 - n) = (k - n) + 64" using n by simp
      then show ?thesis using True that by (metis (no_types) less_imp_diff_less mod_add_self2 mod_less)
    qed (use that n in simp)
    have u: "bit (uint w) j \<longleftrightarrow> j < 64 \<and> bit w j" for j by (simp add: bit_uint_iff)
    have "bit (rotl64 (uint w) n) k \<longleftrightarrow> k < 64 \<and> (n \<le> k \<and> bit w (k - n) \<or> k < n \<and> bit w (64 - n + k))"
      using n False by (auto simp: rotl64_def bit_and_iff bit_or_iff bit_push_bit_iff bit_drop_bit_eq MASK64_bit u)
    moreover have "bit (uint (word_rotl n w)) k \<longleftrightarrow> k < 64 \<and> bit w ((k + (64 - n)) mod 64)"
      using n by (simp add: bit_uint_iff bit_word_rotl_iff)
    ultimately show "bit (rotl64 (uint w) n) k = bit (uint (word_rotl n w)) k"
      using i by (cases "n \<le> k") (auto simp: add.commute)
  qed
next
  case True
  have "word_rotl 0 w = w" by (rule bit_word_eqI) (simp add: bit_word_rotl_iff)
  with True show ?thesis by (simp add: rotl64_def)
qed

lemma theta_reps:
  assumes "reps s A"
  shows "reps (theta s) (f_theta A)"
proof -
  have s: "s ! (x + 5 * y) = uint (A x y)" if "x < 5" "y < 5" for x y using assms that by (simp add: reps_def)
  define C where "C = map (\<lambda>x. s ! x XOR s ! (x + 5) XOR s ! (x + 10) XOR s ! (x + 15) XOR s ! (x + 20)) [0..<5]"
  define D where "D = map (\<lambda>x. C ! ((x + 4) mod 5) XOR rotl64 (C ! ((x + 1) mod 5)) 1) [0..<5]"
  define C' where "C' x = A x 0 XOR A x 1 XOR A x 2 XOR A x 3 XOR A x 4" for x
  have C: "C ! x = uint (C' x)" if "x < 5" for x
    using s [OF that, of 0] s [OF that, of 1] s [OF that, of 2] s [OF that, of 3] s [OF that, of 4] that
    by (simp add: C_def C'_def uint_xor)
  have D: "D ! x = uint (C' ((x + 4) mod 5) XOR word_rotl 1 (C' ((x + 1) mod 5)))" if "x < 5" for x
    using that by (simp add: D_def C rotl64_uint uint_xor)
  have t: "theta s = fold (\<lambda>p s. s[(\<lambda>(x, y). x + 5 * y) p := (\<lambda>(x, y) v. v XOR D ! x) p (s ! (\<lambda>(x, y). x + 5 * y) p)]) xy s"
    unfolding theta_def Let_def D_def C_def by (rule fold_cong) auto
  have l: "\<forall>p\<in>set xy. (\<lambda>(x, y). x + 5 * y) p < length s" using assms by (auto simp: reps_def xy_set)
  show ?thesis
    unfolding reps_def
  proof (intro conjI allI impI)
    show "length (theta s) = 25" unfolding t using fold_cells(1) [OF xy_cells(1) l] assms by (simp add: reps_def)
    fix x y :: nat
    assume "x < 5" "y < 5"
    then show "theta s ! (x + 5 * y) = uint (f_theta A x y)"
      unfolding t using fold_cells(2) [OF xy_cells(1) l, of "(x, y)"]
      by (simp add: xy_set s D f_theta_def C'_def uint_xor xor.assoc)
  qed
qed

lemma rot_table: "\<forall>x\<in>{0..<5}. \<forall>y\<in>{0..<5}. ROT ! (x + 5 * y) = rho_offset x y \<and> ROT ! (x + 5 * y) < 64"
  by code_simp

lemma pi_index: "\<forall>x\<in>{0..<5}. \<forall>y\<in>{0..<5}. (2 * ((x + 3 * y) mod 5) + 3 * x) mod 5 = (y::nat)"
proof -
  have "{0..<5::nat} = {0, 1, 2, 3, 4}" by auto
  then show ?thesis by simp
qed

lemma rho_pi_reps:
  assumes "reps s A" and "length B = 25"
  shows "reps (rho_pi s B) (f_pi (f_rho A))"
proof -
  let ?g = "\<lambda>(x, y). y + 5 * ((2 * x + 3 * y) mod 5)"
  have t: "rho_pi s B = fold (\<lambda>p B. B[?g p := (\<lambda>(x, y) v. rotl64 (s ! (x + 5 * y)) (ROT ! (x + 5 * y))) p (B ! ?g p)]) xy B"
    unfolding rho_pi_def by (rule fold_cong) auto
  have l: "\<forall>p\<in>set xy. ?g p < length B"
  proof -
    have "y + 5 * (k mod 5) < 25" if "y < 5" for y k :: nat
      using that mod_less_divisor [of 5 k] by linarith
    then show ?thesis using assms(2) by (auto simp: xy_set)
  qed
  show ?thesis
    unfolding reps_def
  proof (intro conjI allI impI)
    show "length (rho_pi s B) = 25" unfolding t using fold_cells(1) [OF xy_cells(2) l] assms by simp
    fix x y :: nat
    assume xy: "x < 5" "y < 5"
    define x0 where "x0 = (x + 3 * y) mod 5"
    have x0: "x0 < 5" "(2 * x0 + 3 * x) mod 5 = y"
      using xy pi_index by (simp_all add: x0_def)
    have "rho_pi s B ! (x + 5 * y) = rotl64 (s ! (x0 + 5 * x)) (ROT ! (x0 + 5 * x))"
      unfolding t using fold_cells(2) [OF xy_cells(2) l, of "(x0, x)"] xy x0 by (simp add: xy_set)
    also have "\<dots> = rotl64 (uint (A x0 x)) (rho_offset x0 x)"
      using assms(1) xy x0(1) rot_table by (simp add: reps_def)
    also have "\<dots> = uint (f_pi (f_rho A) x y)"
    proof -
      have "ROT ! (x0 + 5 * x) = rho_offset x0 x \<and> ROT ! (x0 + 5 * x) < 64"
        by (rule bspec [OF bspec [OF rot_table]]) (use xy x0(1) in simp_all)
      then have "rho_offset x0 x < 64" by metis
      then show ?thesis by (simp add: rotl64_uint f_pi_def f_rho_def flip: x0_def)
    qed
    finally show "rho_pi s B ! (x + 5 * y) = uint (f_pi (f_rho A) x y)" .
  qed
qed

lemma chi_reps:
  assumes "reps B A" and "length s = 25"
  shows "reps (chi B s) (f_chi A)"
proof -
  let ?g = "\<lambda>(x, y). x + 5 * y"
  have t: "chi B s = fold (\<lambda>p s. s[?g p := (\<lambda>(x, y) v. B ! (x + 5 * y) XOR
        (NOT (B ! ((x + 1) mod 5 + 5 * y)) AND MASK64 AND B ! ((x + 2) mod 5 + 5 * y))) p (s ! ?g p)]) xy s"
    unfolding chi_def by (rule fold_cong) auto
  have l: "\<forall>p\<in>set xy. ?g p < length s" using assms(2) by (auto simp: xy_set)
  have u: "uint a XOR (NOT (uint b) AND MASK64 AND uint c) = uint (a XOR (NOT b AND c))" for a b c :: "64 word"
    by (rule bit_eqI) (auto simp: bit_simps MASK64_bit)
  show ?thesis
    unfolding reps_def
  proof (intro conjI allI impI)
    show "length (chi B s) = 25" unfolding t using fold_cells(1) [OF xy_cells(1) l] assms by simp
    fix x y :: nat
    assume xy: "x < 5" "y < 5"
    then have "chi B s ! (x + 5 * y) = B ! (x + 5 * y) XOR
        (NOT (B ! ((x + 1) mod 5 + 5 * y)) AND MASK64 AND B ! ((x + 2) mod 5 + 5 * y))"
      unfolding t using fold_cells(2) [OF xy_cells(1) l, of "(x, y)"] by (simp add: xy_set)
    also have "\<dots> = uint (f_chi A x y)"
      using assms(1) xy by (simp add: reps_def u f_chi_def)
    finally show "chi B s ! (x + 5 * y) = uint (f_chi A x y)" .
  qed
qed

lemma rc_table: "\<forall>r\<in>{0..<24}. map (bit (RC_table ! r)) [0..<64] = fold (\<lambda>j z. z[2 ^ j - 1 := rc_bits ! (j + 7 * r)]) [0..<7] (replicate 64 False)"
  by code_simp

lemma rc_length: "length RC_table = 24" and rc_range: "\<forall>c\<in>set RC_table. 0 \<le> c \<and> c < 2 ^ 64"
  by code_simp+

lemma word_of_bits_bit: "length bs = 64 \<Longrightarrow> bit (word_of_bits bs) k \<longleftrightarrow> k < 64 \<and> bs ! k"
  by (auto simp: word_of_bits_def bit_horner_sum_bit_iff dest: bit_imp_le_length)

lemma uint_word_of_bits:
  assumes "0 \<le> c" and "c < 2 ^ 64"
  shows "uint (word_of_bits (map (bit c) [0..<64])) = c"
proof (rule bit_eqI)
  fix k
  have "bit c k \<Longrightarrow> k < 64"
    using assms by (metis bit_take_bit_iff take_bit_int_eq_self)
  then show "bit (uint (word_of_bits (map (bit c) [0..<64]))) k = bit c k"
    by (auto simp: bit_uint_iff word_of_bits_bit)
qed

lemma iota_reps:
  assumes "reps s A" and "r < 24"
  shows "reps (s[0 := s ! 0 XOR RC_table ! r]) (f_iota r A)"
proof -
  have "round_constant r = word_of_bits (map (bit (RC_table ! r)) [0..<64])"
    using rc_table assms(2) by (simp add: round_constant_def)
  then have "uint (round_constant r) = RC_table ! r"
    using uint_word_of_bits rc_range assms(2) rc_length by simp
  moreover have "s ! 0 = uint (A 0 0)" using assms(1) by (simp add: reps_def) (metis add_0 mult_0_right zero_less_numeral)
  ultimately show ?thesis
    using assms(1) by (auto simp: reps_def f_iota_def uint_xor nth_list_update)
qed

lemma keccak_step_reps:
  assumes "reps s A" and "length B = 25" and "r < 24"
  shows "\<exists>s' B'. keccak_step r (s, B) = (s', B') \<and> reps s' (f_round r A) \<and> length B' = 25"
proof -
  note th = theta_reps [OF assms(1)]
  note rp = rho_pi_reps [OF th assms(2)]
  have l: "length (theta s) = 25" "length (rho_pi (theta s) B) = 25" using th rp by (auto simp: reps_def)
  from iota_reps [OF chi_reps [OF rp l(1)] assms(3)] l show ?thesis
    by (simp add: keccak_step_def Let_def f_round_def)
qed

lemma keccak_reps: "reps s A \<Longrightarrow> reps (keccakF1600 s) (keccak_p A)"
proof -
  assume r: "reps s A"
  have "\<exists>s' B'. fold keccak_step [0..<n] (s, replicate 25 0) = (s', B') \<and> reps s' (fold f_round [0..<n] A) \<and> length B' = 25"
    if "n \<le> 24" for n
    using that
  proof (induction n)
    case (Suc n)
    then show ?case using keccak_step_reps [of _ _ _ n] by fastforce
  qed (simp add: r)
  from this [of 24] show ?thesis by (auto simp: keccakF1600_def keccak_p_def)
qed

section \<open>Bytes and bits\<close>

definition byte_bits :: "int \<Rightarrow> bool list" where
  "byte_bits b = map (bit b) [0..<8]"

definition bits_of :: "int list \<Rightarrow> bool list" where
  "bits_of bs = concat (map byte_bits bs)"

definition bytes_ok :: "int list \<Rightarrow> bool" where
  "bytes_ok bs \<longleftrightarrow> list_all (\<lambda>b. 0 \<le> b \<and> b < 256) bs"

lemma bits_of_simps [simp]: "bits_of [] = []" "bits_of (b # bs) = byte_bits b @ bits_of bs"
  "bits_of (bs @ cs) = bits_of bs @ bits_of cs"
  by (simp_all add: bits_of_def)

lemma length_bits_of [simp]: "length (bits_of bs) = 8 * length bs"
  by (induction bs) (simp_all add: byte_bits_def)

lemma byte_bit: "0 \<le> (b::int) \<Longrightarrow> b < 256 \<Longrightarrow> bit b k \<Longrightarrow> k < 8"
  using take_bit_int_eq_self [of b 8] bit_take_bit_iff [of 8 b k] by simp

lemma bits_of_nth: "i < 8 * length bs \<Longrightarrow> bits_of bs ! i = bit (bs ! (i div 8)) (i mod 8)"
proof (induction bs arbitrary: i)
  case (Cons b bs)
  show ?case
  proof (cases "i < 8")
    case True
    then show ?thesis by (simp add: byte_bits_def nth_append)
  next
    case False
    then have "bits_of (b # bs) ! i = bits_of bs ! (i - 8)" by (simp add: byte_bits_def nth_append)
    also have "\<dots> = bit (bs ! ((i - 8) div 8)) ((i - 8) mod 8)" using Cons False by simp
    also have "(i - 8) div 8 = i div 8 - 1" "(i - 8) mod 8 = i mod 8" using False by (simp_all add: le_div_geq le_mod_geq)
    moreover have "0 < i div 8" using False by simp
    ultimately show ?thesis by simp
  qed
qed simp

subsection \<open>Padding\<close>

lemma padded_shape:
  assumes "n = RATE_BYTES - length msg mod RATE_BYTES"
  shows "padded_message msg = msg @ (if n = 1 then [0x86] else 0x06 # replicate (n - 2) 0 @ [0x80])"
proof -
  have n: "0 < n" using assms by (simp add: RATE_BYTES_def)
  show ?thesis
  proof (cases "n = 1")
    case True
    then show ?thesis using assms by (simp add: padded_message_def Let_def)
  next
    case False
    then obtain m where m: "n = Suc (Suc m)" using n by (metis One_nat_def not0_implies_Suc not_less_zero)
    have r: "replicate n (0::int) = 0 # replicate m 0 @ [0]" unfolding m by (simp add: replicate_append_same)
    have l: "length msg + n - 1 = length (msg @ 6 # replicate m (0::int))" by (simp add: m)
    show ?thesis using False unfolding padded_message_def Let_def assms [symmetric] r
      by (simp add: m list_update_append nth_append)
  qed
qed

lemma byte_bits_consts: "byte_bits 6 = [False, True, True, False, False, False, False, False]"
  "byte_bits 0x86 = [False, True, True, False, False, False, False, True]"
  "byte_bits 0x80 = replicate 7 False @ [True]" "byte_bits 0 = replicate 8 False"
  by code_simp+

lemma bits_of_zeros: "bits_of (replicate m 0) = replicate (8 * m) False"
  by (induction m) (simp_all add: byte_bits_consts replicate_add flip: replicate_add)

lemma padding_bits:
  "bits_of (padded_message msg) = (bits_of msg @ [False, True]) @ pad101 576 (length (bits_of msg @ [False, True]))"
proof -
  define n where "n = RATE_BYTES - length msg mod RATE_BYTES"
  define q where "q = length msg div RATE_BYTES"
  have n: "1 \<le> n" "n \<le> 72" "length msg + n = 72 * (q + 1)"
  proof -
    define r where "r = length msg mod 72"
    have "length msg = 72 * q + r" "r < 72" by (simp_all add: q_def r_def RATE_BYTES_def)
    moreover have "n = 72 - r" by (simp add: n_def r_def RATE_BYTES_def)
    ultimately show "1 \<le> n" "n \<le> 72" "length msg + n = 72 * (q + 1)" by auto
  qed
  have "(- int (8 * length msg + 2) - 2) mod 576 = int (8 * n - 4)"
  proof -
    have "- int (8 * length msg + 2) - 2 = int (8 * n - 4) + 576 * (- int (q + 1))" using n by (simp add: of_nat_diff)
    then have "(- int (8 * length msg + 2) - 2) mod 576 = int (8 * n - 4) mod 576" by (metis mod_mult_self2)
    then show ?thesis using n by simp
  qed
  then have z: "nat ((- int (length (bits_of msg @ [False, True])) - 2) mod 576) = 8 * n - 4" by simp
  show ?thesis
  proof (cases "n = 1")
    case True
    then show ?thesis unfolding padded_shape [OF n_def] pad101_def using z by (simp add: byte_bits_consts numeral_eq_Suc)
  next
    case False
    then have e: "8 * n - 4 = 5 + (8 * (n - 2) + 7)" using n by simp
    have "replicate (8 * n - 4) False = [False, False, False, False, False] @ replicate (8 * (n - 2)) False @ replicate 7 False"
      unfolding e replicate_add by (simp add: numeral_eq_Suc)
    then show ?thesis using False z unfolding padded_shape [OF n_def] pad101_def
      by (simp add: byte_bits_consts bits_of_zeros)
  qed
qed

subsection \<open>The sponge\<close>

lemma read_lane_bit:
  assumes "\<forall>b<8. \<forall>j. bit (p ! (off + i * 8 + b)) j \<longrightarrow> j < 8"
  shows "bit (read_lane p off i) k \<longleftrightarrow> k < 64 \<and> bit (p ! (off + i * 8 + k div 8)) (k mod 8)"
proof -
  have f: "bit (fold (\<lambda>b lane. lane OR push_bit (8 * b) (g b)) bs a) k \<longleftrightarrow>
      bit a k \<or> (\<exists>b\<in>set bs. 8 * b \<le> k \<and> bit (g b) (k - 8 * b))" for bs a and g :: "nat \<Rightarrow> int"
    by (induction bs arbitrary: a) (auto simp: bit_or_iff bit_push_bit_iff)
  have "bit (read_lane p off i) k \<longleftrightarrow> (\<exists>b<8. 8 * b \<le> k \<and> bit (p ! (off + i * 8 + b)) (k - 8 * b))"
    unfolding read_lane_def by (subst f) auto
  also have "\<dots> \<longleftrightarrow> k < 64 \<and> bit (p ! (off + i * 8 + k div 8)) (k mod 8)"
  proof
    assume "\<exists>b<8. 8 * b \<le> k \<and> bit (p ! (off + i * 8 + b)) (k - 8 * b)"
    then obtain b where b: "b < 8" "8 * b \<le> k" "bit (p ! (off + i * 8 + b)) (k - 8 * b)" by blast
    then have "k - 8 * b < 8" using assms by blast
    then have "k div 8 = b \<and> k mod 8 = k - 8 * b" using b(2) by (metis add_diff_inverse_nat div_mult_self4 div_less linorder_not_le mod_less mod_mult_self4 mult.commute add.right_neutral add.commute zero_neq_numeral)
    then show "k < 64 \<and> bit (p ! (off + i * 8 + k div 8)) (k mod 8)" using b by auto
  next
    assume k: "k < 64 \<and> bit (p ! (off + i * 8 + k div 8)) (k mod 8)"
    then have "k div 8 < 8" "8 * (k div 8) \<le> k" "k - 8 * (k div 8) = k mod 8"
      by (auto simp: minus_mult_div_eq_mod)
    with k show "\<exists>b<8. 8 * b \<le> k \<and> bit (p ! (off + i * 8 + b)) (k - 8 * b)" by metis
  qed
  finally show ?thesis .
qed

lemma block_bits:
  assumes "k * 576 + 576 \<le> length P" and "z < 25"
  shows "length (take 64 (drop (64 * z) (take 576 (drop (k * 576) P) @ replicate 1024 False))) = 64"
    and "j < 64 \<Longrightarrow> take 64 (drop (64 * z) (take 576 (drop (k * 576) P) @ replicate 1024 False)) ! j \<longleftrightarrow>
      z < 9 \<and> P ! (k * 576 + 64 * z + j)"
proof -
  define B where "B = take 576 (drop (k * 576) P)"
  define Q where "Q = B @ replicate 1024 False"
  have B: "length B = 576" "\<And>i. i < 576 \<Longrightarrow> B ! i = P ! (k * 576 + i)" using assms(1) by (simp_all add: B_def)
  have Q: "length Q = 1600" using B(1) by (simp add: Q_def)
  have q: "Q ! i \<longleftrightarrow> i < 576 \<and> P ! (k * 576 + i)" if "i < 1600" for i
    using that B by (simp add: Q_def nth_append)
  show "length (take 64 (drop (64 * z) (take 576 (drop (k * 576) P) @ replicate 1024 False))) = 64"
    unfolding B_def [symmetric] Q_def [symmetric] using Q assms(2) by simp
  assume j: "j < 64"
  then have "64 * z + j < 1600" "64 * z + j < 576 \<longleftrightarrow> z < 9" using assms(2) by linarith+
  then show "take 64 (drop (64 * z) (take 576 (drop (k * 576) P) @ replicate 1024 False)) ! j \<longleftrightarrow>
      z < 9 \<and> P ! (k * 576 + 64 * z + j)"
    unfolding B_def [symmetric] Q_def [symmetric] using Q q j by (simp add: add.assoc)
qed

lemma absorb_reps:
  assumes r: "reps s A" and ok: "bytes_ok p" and k: "72 * Suc k \<le> length p"
  shows "reps (absorb p (k * RATE_BYTES) s) (f_absorb (bits_of p) k A)"
proof -
  let ?s = "fold (\<lambda>i s. s[id i := (\<lambda>i v. v XOR read_lane p (k * 72) i) i (s ! id i)]) [0..<9] s"
  define W where "W x y = take 64 (drop (64 * (x + 5 * y)) (take 576 (drop (k * 576) (bits_of p)) @ replicate 1024 False))" for x y
  have l: "length s = 25" using r by (simp add: reps_def)
  have g: "\<forall>i\<in>set [0..<9]. id i < length s" using l by auto
  have d: "distinct (map id [0..<9])" by simp
  have ls: "length ?s = 25" using fold_cells(1) [OF d g, where f = "\<lambda>i v. v XOR read_lane p (k * 72) i"] l by simp
  have W: "length (W x y) = 64" "j < 64 \<Longrightarrow> W x y ! j \<longleftrightarrow> x + 5 * y < 9 \<and> bits_of p ! (k * 576 + 64 * (x + 5 * y) + j)"
    if "x < 5" "y < 5" for x y j
  proof -
    have "x + 5 * y < 25" "k * 576 + 576 \<le> length (bits_of p)" using that k by auto
    from block_bits [OF this(2,1)] show "length (W x y) = 64"
      "j < 64 \<Longrightarrow> W x y ! j \<longleftrightarrow> x + 5 * y < 9 \<and> bits_of p ! (k * 576 + 64 * (x + 5 * y) + j)" unfolding W_def by blast+
  qed
  have "reps ?s (\<lambda>x y. A x y XOR word_of_bits (W x y))"
    unfolding reps_def
  proof (intro conjI allI impI)
    fix x y :: nat
    assume xy: "x < 5" "y < 5"
    have s: "s ! (x + 5 * y) = uint (A x y)" using r xy by (simp add: reps_def)
    show "?s ! (x + 5 * y) = uint (A x y XOR word_of_bits (W x y))"
    proof (cases "x + 5 * y < 9")
      case True
      have "?s ! (x + 5 * y) = uint (A x y) XOR read_lane p (k * 72) (x + 5 * y)"
        using fold_cells(2) [OF d g, of "x + 5 * y" "\<lambda>i v. v XOR read_lane p (k * 72) i"] True by (simp add: s)
      moreover have "read_lane p (k * 72) (x + 5 * y) = uint (word_of_bits (W x y))"
      proof (rule bit_eqI)
        fix j
        have b: "\<forall>b<8. \<forall>j. bit (p ! (k * 72 + (x + 5 * y) * 8 + b)) j \<longrightarrow> j < 8"
        proof (intro allI impI)
          fix b j assume "b < (8::nat)" "bit (p ! (k * 72 + (x + 5 * y) * 8 + b)) j"
          moreover have "k * 72 + (x + 5 * y) * 8 + b < length p"
          proof -
            have "x + 5 * y \<le> 8" using True by simp
            then have "(x + 5 * y) * 8 \<le> 64" by simp
            then have "(x + 5 * y) * 8 + b < 72" using \<open>b < 8\<close> by simp
            then show ?thesis using k by simp
          qed
          ultimately show "j < 8" using ok byte_bit unfolding bytes_ok_def list_all_length by blast
        qed
        have i: "(k * 576 + 64 * (x + 5 * y) + j) div 8 = k * 72 + (x + 5 * y) * 8 + j div 8"
          "(k * 576 + 64 * (x + 5 * y) + j) mod 8 = j mod 8"
        proof -
          have "k * 576 + 64 * (x + 5 * y) + j = j + 8 * (k * 72 + (x + 5 * y) * 8)" by simp
          then show "(k * 576 + 64 * (x + 5 * y) + j) div 8 = k * 72 + (x + 5 * y) * 8 + j div 8"
            "(k * 576 + 64 * (x + 5 * y) + j) mod 8 = j mod 8" by (simp_all only: div_mult_self2 mod_mult_self2)
        qed
        have "bits_of p ! (k * 576 + 64 * (x + 5 * y) + j) = bit (p ! (k * 72 + (x + 5 * y) * 8 + j div 8)) (j mod 8)" if "j < 64"
        proof -
          have "x + 5 * y \<le> 8" using True by simp
          then have "64 * (x + 5 * y) \<le> 512" by simp
          then have "k * 576 + 64 * (x + 5 * y) + j < 8 * length p" using that k by simp
          then show ?thesis using bits_of_nth unfolding i by (metis i)
        qed
        moreover have "bit (uint (word_of_bits (W x y))) j \<longleftrightarrow> j < 64 \<and> bits_of p ! (k * 576 + 64 * (x + 5 * y) + j)"
          using W(2) [OF xy, of j] True by (auto simp: bit_uint_iff word_of_bits_bit [OF W(1) [OF xy]])
        ultimately show "bit (read_lane p (k * 72) (x + 5 * y)) j = bit (uint (word_of_bits (W x y))) j"
          unfolding read_lane_bit [OF b] by metis
      qed
      ultimately show ?thesis by (simp add: uint_xor)
    next
      case False
      have "word_of_bits (W x y) = 0"
        by (rule bit_word_eqI) (use W(2) [OF xy] False in \<open>simp add: word_of_bits_bit [OF W(1) [OF xy]]\<close>)
      moreover have "?s ! (x + 5 * y) = s ! (x + 5 * y)"
        using fold_cells(3) [OF d g, of "x + 5 * y" "\<lambda>i v. v XOR read_lane p (k * 72) i"] False by simp
      ultimately show ?thesis by (simp add: s)
    qed
  qed (rule ls)
  from keccak_reps [OF this] show ?thesis unfolding W_def by (simp add: absorb_def f_absorb_def RATE_BYTES_def)
qed

subsection \<open>The digest\<close>

lemma padded_ok:
  assumes "bytes_ok msg"
  shows "bytes_ok (padded_message msg)" and "length (padded_message msg) mod 72 = 0"
proof -
  define n where "n = RATE_BYTES - length msg mod RATE_BYTES"
  show "bytes_ok (padded_message msg)"
    using assms by (auto simp: padded_shape [OF n_def] bytes_ok_def list_all_iff)
  have "length (padded_message msg) = length msg + n"
    using padded_shape [OF n_def] by (auto simp: n_def RATE_BYTES_def)
  also have "\<dots> = 72 * (length msg div 72 + 1)"
  proof -
    define q r where "q = length msg div 72" and "r = length msg mod 72"
    have "length msg = 72 * q + r" "r < 72" by (simp_all add: q_def r_def)
    moreover have "n = 72 - r" by (simp add: n_def r_def RATE_BYTES_def)
    ultimately show ?thesis unfolding q_def [symmetric] by simp
  qed
  finally show "length (padded_message msg) mod 72 = 0" by simp
qed

lemma lane_bytes: "bits_of (map (\<lambda>b. drop_bit (8 * b) v AND 0xff) [0..<8]) = map (bit v) [0..<64]"
proof -
  have m: "bit (0xff :: int) j" if "j < 8" for j
  proof -
    have "(0xff :: int) = mask 8" by (simp add: mask_eq_exp_minus_1)
    then show ?thesis using that by (simp only: bit_mask_iff possible_bit_int)
  qed
  show ?thesis
  proof (rule nth_equalityI)
    fix i
    assume "i < length (bits_of (map (\<lambda>b. drop_bit (8 * b) v AND 0xff) [0..<8]))"
    then have "i < 64" "i div 8 < 8" by simp_all
    then show "bits_of (map (\<lambda>b. drop_bit (8 * b) v AND 0xff) [0..<8]) ! i = map (bit v) [0..<64] ! i"
      by (simp add: bits_of_nth bit_and_iff bit_drop_bit_eq m)
  qed simp
qed

lemma squeeze_bits:
  assumes "reps s A"
  shows "bits_of (concat (map (\<lambda>i. map (\<lambda>b. drop_bit (8 * b) (s ! i) AND 0xff) [0..<8]) [0..<8])) = take 512 (state_bits A)"
proof -
  have bc: "bits_of (concat xss) = concat (map bits_of xss)" for xss by (induction xss) simp_all
  have l: "map (bit (s ! i)) [0..<64] = map (bit (A (i mod 5) (i div 5))) [0..<64]" if "i < 8" for i
  proof -
    have "i div 5 < 5" "i mod 5 + 5 * (i div 5) = i" using that by simp_all
    then have "s ! i = uint (A (i mod 5) (i div 5))"
      using assms unfolding reps_def by (metis mod_less_divisor zero_less_numeral)
    then show ?thesis by (simp add: bit_uint_iff)
  qed
  define H where "H = concat (map (\<lambda>i. map (bit (A (i mod 5) (i div 5))) [0..<64]) [0..<8])"
  have "length H = 512" by (simp add: H_def length_concat comp_def upt_conv_Cons)
  moreover have "state_bits A = H @ concat (map (\<lambda>i. map (bit (A (i mod 5) (i div 5))) [0..<64]) [8..<25])"
  proof -
    have "[0..<25] = [0..<8] @ [8..<25]" using upt_add_eq_append [of 0 8 17] by simp
    then show ?thesis by (simp only: state_bits_def H_def map_append concat_append)
  qed
  ultimately have "take 512 (state_bits A) = H" by simp
  also have "H = concat (map (\<lambda>i. map (bit (s ! i)) [0..<64]) [0..<8])"
    unfolding H_def by (rule arg_cong [where f = concat], rule map_cong [OF refl], rule l [symmetric]) simp
  finally show ?thesis by (simp add: bc comp_def lane_bytes)
qed

lemma sha3_bytes:
  assumes "bytes_ok msg"
  shows "bits_of (sha3_512Bytes msg) = SHA3_512 (bits_of msg)"
proof -
  let ?p = "padded_message msg"
  have blocks: "reps (fold (\<lambda>k. absorb ?p (k * RATE_BYTES)) [0..<n] (replicate 25 0))
      (fold (f_absorb (bits_of ?p)) [0..<n] (\<lambda>_ _. 0))" if "72 * n \<le> length ?p" for n
    using that
  proof (induction n)
    case (Suc n)
    then show ?case using absorb_reps [OF _ padded_ok(1) [OF assms], of _ _ n] by simp
  qed (simp add: reps_def)
  have "8 * length ?p div 576 = length ?p div RATE_BYTES"
    unfolding RATE_BYTES_def using div_mult_mult1 [of 8 "length ?p" 72] by simp
  then have "SHA3_512 (bits_of msg) =
      take 512 (state_bits (fold (f_absorb (bits_of ?p)) [0..<length ?p div RATE_BYTES] (\<lambda>_ _. 0)))"
    unfolding SHA3_512_def Let_def padding_bits [symmetric] length_bits_of by simp
  then show ?thesis
    using squeeze_bits [OF blocks [of "length ?p div RATE_BYTES"]] by (simp add: sha3_512Bytes_def RATE_BYTES_def Let_def)
qed

lemma hex_same_either_way:
  assumes "\<forall>d h. native d = Some h \<longrightarrow> h = sha3_512HexJs d"
  shows "fst (sha3_512Hex native input st) = sha3_512HexJs input"
  using assms by (auto simp: sha3_512Hex_def Let_def split: option.splits)

lemma digest_bytes: "length (sha3_512Bytes msg) = 64" "bytes_ok (sha3_512Bytes msg)"
proof -
  show "length (sha3_512Bytes msg) = 64"
    by (simp add: sha3_512Bytes_def Let_def length_concat comp_def upt_conv_Cons)
  have "0 \<le> v AND 255 \<and> v AND 255 < (256 :: int)" for v
  proof -
    have "(255 :: int) = mask 8" by (simp add: mask_eq_exp_minus_1)
    then have "v AND 255 = take_bit 8 v" by (simp only: take_bit_eq_mask)
    then show ?thesis by (simp add: take_bit_eq_mod)
  qed
  then show "bytes_ok (sha3_512Bytes msg)"
    by (simp add: sha3_512Bytes_def Let_def bytes_ok_def list_all_iff)
qed

section \<open>Properties\<close>

text \<open>C15. The fallback is SHA3-512: for every message of bytes the digest has 64 bytes, and their bits are those FIPS 202
  defines, although the code computes on unbounded integers, pads bytes instead of bits and updates its arrays in place.\<close>

theorem sha3_512_is_fips_202:
  assumes "bytes_ok msg"
  shows "bits_of (sha3_512Bytes msg) = SHA3_512 (bits_of msg)
    \<and> length (sha3_512Bytes msg) = 64 \<and> bytes_ok (sha3_512Bytes msg)"
  using sha3_bytes [OF assms] digest_bytes by simp

lemma sha3_512_is_fips_202_witness:
  "bits_of (sha3_512Bytes [0x61, 0x62, 0xff]) = SHA3_512 (bits_of [0x61, 0x62, 0xff])"
  using sha3_512_is_fips_202 [of "[0x61, 0x62, 0xff]"] by (simp add: bytes_ok_def)

end
