(* ===== verification/ShuffleDeck.thy ===== *)
theory ShuffleDeck
  imports Omni_Prelude "HOL-Library.List_Lexorder" "HOL-Library.Char_ord"
begin

text \<open>
  The shuffle decks, \<open>src/shared/utils/shuffleDeck.ts\<close>: rotation over models or connections that uses every item once
  per cycle. The random numbers are arguments: \<open>d_pick i\<close> is what \<open>secureRandomInt (i + 1)\<close> answers at
  step \<open>i\<close> of a shuffle, \<open>d_swap\<close> what \<open>secureRandomInt (n - 1)\<close> answers afterwards. The asynchronous
  version runs its whole body between two awaits of a per-namespace lock, so each call is one step.
  \<open>sort\<close> compares strings by code units.
\<close>

section \<open>State and operations\<close>

record shuffle_deck =
  d_order :: "string list"
  d_index :: nat
  d_idsKey :: string

type_synonym decks = "(string, shuffle_deck) jsmap"

record draws =
  d_pick :: "nat \<Rightarrow> nat"
  d_swap :: nat

definition swap_at :: "nat \<Rightarrow> nat \<Rightarrow> 'a list \<Rightarrow> 'a list" where
  "swap_at i j xs = xs[i := xs ! j, j := xs ! i]"

definition fisherYatesShuffle :: "(nat \<Rightarrow> nat) \<Rightarrow> 'a list \<Rightarrow> 'a list" where
  "fisherYatesShuffle pick arr = fold (\<lambda>i xs. swap_at i (pick i) xs) (rev [1..<length arr]) arr"

fun join_with :: "string \<Rightarrow> string list \<Rightarrow> string" where
  "join_with sep [] = []"
| "join_with sep [x] = x"
| "join_with sep (x # y # xs) = x @ sep @ join_with sep (y # xs)"

definition ids_key :: "string list \<Rightarrow> string" where
  "ids_key ids = join_with '','' (sort ids)"

text \<open>The order of a new cycle: a shuffle whose first item is not the last item of the cycle before.\<close>

definition new_cycle :: "draws \<Rightarrow> string option \<Rightarrow> string list \<Rightarrow> string list" where
  "new_cycle dr lastUsedId ids =
     (let newOrder = fisherYatesShuffle (d_pick dr) ids
      in if lastUsedId = Some (newOrder ! 0) \<and> length newOrder > 1
         then swap_at 0 (1 + d_swap dr) newOrder else newOrder)"

definition last_used :: "shuffle_deck option \<Rightarrow> string \<Rightarrow> string option" where
  "last_used existing idsKey =
     (case existing of
        None \<Rightarrow> None
      | Some d \<Rightarrow> if d_idsKey d = idsKey \<and> length (d_order d) > 0
                  then Some (d_order d ! (length (d_order d) - 1)) else None)"

definition has_next :: "shuffle_deck option \<Rightarrow> string \<Rightarrow> bool" where
  "has_next existing idsKey =
     (case existing of None \<Rightarrow> False | Some d \<Rightarrow> d_idsKey d = idsKey \<and> d_index d < length (d_order d))"

definition getNextFromDeckSync :: "draws \<Rightarrow> string \<Rightarrow> string list \<Rightarrow> decks \<Rightarrow> string \<times> decks" where
  "getNextFromDeckSync dr ns itemIds decks =
     (if length itemIds = 0 then ([], decks)
      else if length itemIds = 1 then (itemIds ! 0, decks)
      else (let idsKey = ids_key itemIds; existing = jm_get decks ns
            in if has_next existing idsKey
               then (let d = the existing
                     in (d_order d ! d_index d, jm_set ns (d\<lparr>d_index := d_index d + 1\<rparr>) decks))
               else (let newOrder = new_cycle dr (last_used existing idsKey) itemIds
                     in (newOrder ! 0, jm_set ns \<lparr>d_order = newOrder, d_index = 1, d_idsKey = idsKey\<rparr> decks))))"

text \<open>The asynchronous version: the body that runs while the namespace is locked.\<close>

definition getNextFromDeck :: "draws \<Rightarrow> string \<Rightarrow> string list \<Rightarrow> decks \<Rightarrow> string \<times> decks" where
  "getNextFromDeck dr ns itemIds decks =
     (if length itemIds = 0 then ([], decks)
      else if length itemIds = 1 then (itemIds ! 0, decks)
      else (let idsKey = ids_key itemIds; existing = jm_get decks ns
            in case existing of
                 Some d \<Rightarrow>
                   if d_idsKey d = idsKey \<and> d_index d < length (d_order d)
                   then (d_order d ! d_index d, jm_set ns (d\<lparr>d_index := d_index d + 1\<rparr>) decks)
                   else (let newOrder = new_cycle dr (last_used existing idsKey) itemIds
                         in (newOrder ! 0, jm_set ns \<lparr>d_order = newOrder, d_index = 1, d_idsKey = idsKey\<rparr> decks))
               | None \<Rightarrow>
                   (let newOrder = new_cycle dr None itemIds
                    in (newOrder ! 0, jm_set ns \<lparr>d_order = newOrder, d_index = 1, d_idsKey = idsKey\<rparr> decks))))"

text \<open>A planned selection: the item, and the store to make when it is taken.\<close>

definition planNextFromDeckSync :: "draws \<Rightarrow> string \<Rightarrow> string list \<Rightarrow> decks \<Rightarrow> string \<times> (decks \<Rightarrow> decks)" where
  "planNextFromDeckSync dr ns itemIds decks =
     (if length itemIds = 0 then ([], \<lambda>ds. ds)
      else if length itemIds = 1 then (itemIds ! 0, \<lambda>ds. ds)
      else (let idsKey = ids_key itemIds; existing = jm_get decks ns
            in if has_next existing idsKey
               then (let d = the existing
                     in (d_order d ! d_index d, \<lambda>ds. jm_set ns (d\<lparr>d_index := d_index d + 1\<rparr>) ds))
               else (let ord = new_cycle dr (last_used existing idsKey) itemIds
                     in (ord ! 0, \<lambda>ds. jm_set ns \<lparr>d_order = ord, d_index = 1, d_idsKey = idsKey\<rparr> ds))))"

section \<open>Shuffling\<close>

lemma swap_at_facts:
  assumes "i < length xs" and "j < length xs"
  shows "length (swap_at i j xs) = length xs" and "mset (swap_at i j xs) = mset xs"
  using assms by (simp_all add: swap_at_def mset_swap)

lemma fold_swaps:
  assumes "\<forall>i\<in>set is. i < length xs \<and> pick i < length xs"
  shows "mset (fold (\<lambda>i xs. swap_at i (pick i) xs) is xs) = mset xs"
  using assms by (induction "is" arbitrary: xs) (simp_all add: swap_at_facts)

lemma mset_shuffle: "\<forall>i. pick i \<le> i \<Longrightarrow> mset (fisherYatesShuffle pick arr) = mset arr"
  unfolding fisherYatesShuffle_def by (rule fold_swaps) (auto intro: le_less_trans)

definition fair_draws :: "nat \<Rightarrow> draws \<Rightarrow> bool" where
  "fair_draws n dr \<longleftrightarrow> (\<forall>i. d_pick dr i \<le> i) \<and> d_swap dr < n - 1"

lemma new_cycle_facts:
  assumes "fair_draws (length ids) dr" and "distinct ids" and "2 \<le> length ids"
  shows "mset (new_cycle dr l ids) = mset ids" and "l \<noteq> Some (new_cycle dr l ids ! 0)"
proof -
  define s where "s = fisherYatesShuffle (d_pick dr) ids"
  have m: "mset s = mset ids" using assms(1) by (simp add: s_def fair_draws_def mset_shuffle)
  then have l: "length s = length ids" and d: "distinct s"
    using assms(2) by (metis size_mset, metis mset_eq_imp_distinct_iff)
  have w: "1 + d_swap dr < length s" using assms(1,3) l unfolding fair_draws_def by linarith
  then have w0: "0 < length s" by linarith
  show "mset (new_cycle dr l ids) = mset ids"
    using m swap_at_facts(2) [OF w0 w] unfolding new_cycle_def s_def [symmetric] Let_def by auto
  have "swap_at 0 (1 + d_swap dr) s ! 0 = s ! (1 + d_swap dr)" using w w0 by (simp add: swap_at_def)
  moreover have "s ! (1 + d_swap dr) \<noteq> s ! 0" using nth_eq_iff_index_eq [OF d w w0] by simp
  ultimately show "l \<noteq> Some (new_cycle dr l ids ! 0)"
    using w assms(3) l by (auto simp: new_cycle_def Let_def simp flip: s_def)
qed

lemma async_is_sync: "getNextFromDeck dr ns ids ds = getNextFromDeckSync dr ns ids ds"
  by (simp add: getNextFromDeck_def getNextFromDeckSync_def has_next_def last_used_def Let_def split: option.splits)

lemma plan_is_sync:
  "fst (planNextFromDeckSync dr ns ids ds) = fst (getNextFromDeckSync dr ns ids ds)
   \<and> snd (planNextFromDeckSync dr ns ids ds) ds = snd (getNextFromDeckSync dr ns ids ds)"
  by (simp add: planNextFromDeckSync_def getNextFromDeckSync_def Let_def)

section \<open>Cycles\<close>

text \<open>Successive calls for one namespace and one set of items.\<close>

fun deck_calls :: "string \<Rightarrow> string list \<Rightarrow> draws list \<Rightarrow> decks \<Rightarrow> string list \<times> decks" where
  "deck_calls ns ids [] ds = ([], ds)"
| "deck_calls ns ids (dr # drs) ds =
     (let (x, ds1) = getNextFromDeckSync dr ns ids ds; (xs, ds2) = deck_calls ns ids drs ds1 in (x # xs, ds2))"

text \<open>Where the calls stand: the deck is the current cycle, its first \<open>d_index\<close> items are the last answers.\<close>

definition deck_inv :: "string \<Rightarrow> string list \<Rightarrow> string list \<Rightarrow> decks \<Rightarrow> bool" where
  "deck_inv ns ids outs ds \<longleftrightarrow>
     distinct_adj outs
     \<and> (\<forall>k. Suc k * length ids \<le> length outs \<longrightarrow> mset (take (length ids) (drop (k * length ids) outs)) = mset ids)
     \<and> (if outs = [] then jm_get ds ns = None
        else (\<exists>k ord. jm_get ds ns = Some \<lparr>d_order = ord, d_index = length outs - k * length ids, d_idsKey = ids_key ids\<rparr>
               \<and> mset ord = mset ids \<and> k * length ids < length outs \<and> length outs \<le> Suc k * length ids
               \<and> drop (k * length ids) outs = take (length outs - k * length ids) ord))"

lemma last_take_nth: "0 < i \<Longrightarrow> i \<le> length xs \<Longrightarrow> last (take i xs) = xs ! (i - 1)"
proof -
  assume i: "0 < i" "i \<le> length xs"
  then have "take i xs \<noteq> []" by auto
  then have "last (take i xs) = take i xs ! (length (take i xs) - 1)" by (rule last_conv_nth)
  then show ?thesis using i by (simp add: min_absorb2)
qed

lemma distinct_adj_snoc: "distinct_adj (xs @ [x]) \<longleftrightarrow> distinct_adj xs \<and> (xs = [] \<or> last xs \<noteq> x)"
  by (simp add: distinct_adj_append_iff)

lemma blocks_snoc:
  assumes "\<forall>k. Suc k * n \<le> length outs \<longrightarrow> mset (take n (drop (k * n) outs)) = M"
    and "\<And>k. Suc k * n = Suc (length outs) \<Longrightarrow> mset (drop (k * n) (outs @ [x])) = M" and "0 < n"
  shows "\<forall>k. Suc k * n \<le> length (outs @ [x]) \<longrightarrow> mset (take n (drop (k * n) (outs @ [x]))) = M"
proof (intro allI impI)
  fix k
  assume k: "Suc k * n \<le> length (outs @ [x])"
  show "mset (take n (drop (k * n) (outs @ [x]))) = M"
  proof (cases "Suc k * n \<le> length outs")
    case True
    then have "take n (drop (k * n) (outs @ [x])) = take n (drop (k * n) outs)" by simp
    with True assms(1) show ?thesis by metis
  next
    case False
    then have e: "Suc k * n = Suc (length outs)" using k by simp
    then have "length (drop (k * n) (outs @ [x])) = n" by simp
    then show ?thesis using assms(2) [OF e] by simp
  qed
qed

lemma deck_invI:
  assumes "distinct_adj outs"
    and "\<forall>k. Suc k * length ids \<le> length outs \<longrightarrow> mset (take (length ids) (drop (k * length ids) outs)) = mset ids"
    and "jm_get ds ns = Some \<lparr>d_order = ord, d_index = i, d_idsKey = ids_key ids\<rparr>" and "i = length outs - k * length ids"
    and "mset ord = mset ids" and "k * length ids < length outs" and "length outs \<le> Suc k * length ids"
    and "drop (k * length ids) outs = take i ord"
  shows "deck_inv ns ids outs ds"
proof -
  have "outs \<noteq> []" using assms(6) by auto
  then show ?thesis unfolding deck_inv_def using assms by (simp only: if_False) blast
qed

lemma deck_call_inv:
  assumes inv: "deck_inv ns ids outs ds" and ids: "distinct ids" "2 \<le> length ids"
    and dr: "fair_draws (length ids) dr" and c: "getNextFromDeckSync dr ns ids ds = (x, ds')"
  shows "deck_inv ns ids (outs @ [x]) ds'"
proof -
  let ?n = "length ids" and ?m = "length outs"
  note cyc = new_cycle_facts [OF dr ids]
  have n: "0 < ?n" "?n \<noteq> Suc 0" using ids(2) by auto
  have adj: "distinct_adj outs"
    and blk: "\<forall>k. Suc k * ?n \<le> ?m \<longrightarrow> mset (take ?n (drop (k * ?n) outs)) = mset ids"
    using inv by (auto simp: deck_inv_def)
  show ?thesis
  proof (cases "outs = []")
    case True
    then have "jm_get ds ns = None" using inv by (simp add: deck_inv_def)
    then have x: "x = new_cycle dr None ids ! 0"
      "jm_get ds' ns = Some \<lparr>d_order = new_cycle dr None ids, d_index = 1, d_idsKey = ids_key ids\<rparr>"
      using c n by (auto simp: getNextFromDeckSync_def has_next_def last_used_def Let_def)
    have l: "length (new_cycle dr None ids) = ?n" using cyc(1) by (metis size_mset)
    have "take 1 (new_cycle dr None ids) = [x]"
      using l n x(1) by (cases "new_cycle dr None ids") auto
    then show ?thesis using True n ids(2)
      by (intro deck_invI [OF _ _ x(2), where k = 0]) (simp_all add: cyc(1) Suc_le_eq)
  next
    case False
    then obtain k ord where st: "jm_get ds ns = Some \<lparr>d_order = ord, d_index = ?m - k * ?n, d_idsKey = ids_key ids\<rparr>"
      "mset ord = mset ids" "k * ?n < ?m" "?m \<le> Suc k * ?n" "drop (k * ?n) outs = take (?m - k * ?n) ord"
      using inv by (auto simp: deck_inv_def)
    have lo: "length ord = ?n" and dist: "distinct ord"
      using st(2) ids(1) by (metis size_mset, metis mset_eq_imp_distinct_iff)
    have last: "last outs = ord ! (?m - k * ?n - 1)"
    proof -
      have "last outs = last (drop (k * ?n) outs)" using st(3) by simp
      also have "\<dots> = ord ! (?m - k * ?n - 1)" 
      proof -
        have i: "0 < ?m - k * ?n" "?m - k * ?n \<le> length ord" using st(3,4) lo by auto
        then show ?thesis unfolding st(5) by (rule last_take_nth)
      qed
      finally show ?thesis .
    qed
    show ?thesis
    proof (cases "?m - k * ?n < ?n")
      case True
      then have x: "x = ord ! (?m - k * ?n)"
        "jm_get ds' ns = Some \<lparr>d_order = ord, d_index = Suc ?m - k * ?n, d_idsKey = ids_key ids\<rparr>"
        using c n st(1,3) lo by (auto simp: getNextFromDeckSync_def has_next_def Let_def Suc_diff_le)
      have d: "drop (k * ?n) (outs @ [x]) = take (Suc ?m - k * ?n) ord"
        using st(3,5) True lo x(1) by (simp add: Suc_diff_le take_Suc_conv_app_nth)
      have "last outs \<noteq> x" unfolding last x(1) using dist lo True st(3) by (simp add: nth_eq_iff_index_eq)
      moreover have "mset (drop (k' * ?n) (outs @ [x])) = mset ids" if "Suc k' * ?n = Suc ?m" for k'
      proof -
        have "Suc k * ?n = Suc ?m"
        proof -
          have "k * ?n < Suc k' * ?n" "Suc k' * ?n \<le> Suc k * ?n" using that st(3) True by auto
          then have "k = k'" using n(1) by (metis Suc_le_mono le_antisym less_Suc_eq_le mult_less_cancel2 mult_le_cancel2 not_less_eq)
          with that show ?thesis by simp
        qed
        then have "k' = k" using that n(1) by (metis Suc_inject mult_right_cancel neq0_conv)
        moreover have "Suc ?m - k * ?n = ?n" using \<open>Suc k * ?n = Suc ?m\<close> by simp
        ultimately show ?thesis using d lo st(2) by simp
      qed
      moreover have "k * ?n < Suc ?m" "Suc ?m \<le> Suc k * ?n" using st(3) True by auto
      ultimately show ?thesis
        using adj st(2) d by (intro deck_invI [OF _ blocks_snoc [OF blk _ n(1)] x(2), where k = k]) (auto simp: distinct_adj_snoc)
    next
      case full: False
      then have e: "?m = Suc k * ?n" using st(3,4) by simp
      define l where "l = Some (ord ! (?n - 1))"
      have x: "x = new_cycle dr l ids ! 0"
        "jm_get ds' ns = Some \<lparr>d_order = new_cycle dr l ids, d_index = 1, d_idsKey = ids_key ids\<rparr>"
        using c n st(1) lo full by (auto simp: getNextFromDeckSync_def has_next_def last_used_def Let_def l_def)
      have ln: "length (new_cycle dr l ids) = ?n" using cyc(1) by (metis size_mset)
      have "last outs \<noteq> x" using cyc(2) [of l] unfolding last x(1) by (simp add: l_def e)
      moreover have "take 1 (new_cycle dr l ids) = [x]"
        using x(1) ln n by (cases "new_cycle dr l ids") auto
      moreover have "Suc k' * ?n \<noteq> Suc ?m" for k'
      proof
        assume "Suc k' * ?n = Suc ?m"
        then have "?n dvd Suc ?m - ?m" unfolding e by (metis dvd_diff_nat dvd_triv_right)
        then show False using n by simp
      qed
      ultimately show ?thesis
        using adj e n ids(2)
        by (intro deck_invI [OF _ blocks_snoc [OF blk _ n(1)] x(2), where k = "Suc k"]) (auto simp: distinct_adj_snoc cyc(1))
    qed
  qed
qed

lemma deck_calls_inv:
  assumes "deck_inv ns ids outs ds" and "distinct ids" and "2 \<le> length ids"
    and "list_all (fair_draws (length ids)) drs" and "deck_calls ns ids drs ds = (xs, ds')"
  shows "deck_inv ns ids (outs @ xs) ds'"
  using assms
proof (induction drs arbitrary: outs ds xs)
  case (Cons dr drs)
  obtain x ds1 where c: "getNextFromDeckSync dr ns ids ds = (x, ds1)" by fastforce
  obtain ys where y: "deck_calls ns ids drs ds1 = (ys, ds')" "xs = x # ys"
    using Cons.prems(5) c by (auto split: prod.splits)
  have "deck_inv ns ids (outs @ [x]) ds1" using deck_call_inv [OF Cons.prems(1-3) _ c] Cons.prems(4) by simp
  from Cons.IH [OF this Cons.prems(2,3) _ y(1)] Cons.prems(4) show ?case by (simp add: y(2))
qed simp

lemma deck_calls_length: "length (fst (deck_calls ns ids drs ds)) = length drs"
  by (induction drs arbitrary: ds) (auto split: prod.splits, metis fst_conv)

section \<open>Properties\<close>

text \<open>Fair rotation: for a fixed set of at least two items, every cycle serves each item exactly once, whatever the
  random numbers, and no item is served twice in a row, across the ends of cycles included.\<close>

theorem deck_serves_fair_cycles:
  assumes "distinct ids" and "2 \<le> length ids" and "jm_get ds ns = None"
    and "list_all (fair_draws (length ids)) drs" and "outs = fst (deck_calls ns ids drs ds)"
  shows "length outs = length drs \<and> distinct_adj outs
    \<and> (\<forall>k. Suc k * length ids \<le> length drs \<longrightarrow> mset (take (length ids) (drop (k * length ids) outs)) = mset ids)"
proof -
  obtain xs ds' where c: "deck_calls ns ids drs ds = (xs, ds')" by fastforce
  have "deck_inv ns ids [] ds" using assms(2,3) by (simp add: deck_inv_def)
  from deck_calls_inv [OF this assms(1,2,4) c] have "deck_inv ns ids xs ds'" by simp
  moreover have "length xs = length drs" using deck_calls_length [of ns ids drs ds] c by simp
  ultimately show ?thesis using assms(5) c by (simp add: deck_inv_def)
qed

definition ex_draws :: draws where
  "ex_draws = \<lparr>d_pick = (\<lambda>i. i div 2), d_swap = 0\<rparr>"

lemma deck_serves_fair_cycles_witness:
  "fst (deck_calls ''ns'' [''a'', ''b'', ''c''] (replicate 6 ex_draws) []) = [''c'', ''a'', ''b'', ''c'', ''a'', ''b'']
   \<and> distinct_adj (fst (deck_calls ''ns'' [''a'', ''b'', ''c''] (replicate 6 ex_draws) []))"
proof -
  have f: "list_all (fair_draws (length [''a'', ''b'', ''c''])) (replicate 6 ex_draws)"
    by (simp add: list_all_iff fair_draws_def ex_draws_def)
  have "distinct_adj (fst (deck_calls ''ns'' [''a'', ''b'', ''c''] (replicate 6 ex_draws) []))"
    using deck_serves_fair_cycles [OF _ _ _ f refl, of "[]" "''ns''"] by simp
  moreover have "fst (deck_calls ''ns'' [''a'', ''b'', ''c''] (replicate 6 ex_draws) []) = [''c'', ''a'', ''b'', ''c'', ''a'', ''b'']"
    by code_simp
  ultimately show ?thesis by simp
qed

text \<open>The key that tells two item sets apart joins the sorted items with commas: after a change to a set with the same
  key, the next answer is not one of the items asked for.\<close>

lemma comma_ids_collide:
  "let (_, ds) = getNextFromDeckSync ex_draws ''ns'' [''a,b'', ''c''] []
   in fst (getNextFromDeckSync ex_draws ''ns'' [''a'', ''b,c''] ds) \<notin> set [''a'', ''b,c'']"
  by code_simp

end
