(* ===== verification/JsonSize.thy ===== *)
theory JsonSize
  imports JsString
begin

text \<open>
  The length of a JSON text without building it, \<open>open-sse/utils/jsonSize.ts\<close>, against the serialisation that
  ECMAScript defines for \<open>JSON.stringify\<close>. Objects live on a heap, so they can be shared and circular; a string is its list
  of UTF-16 code units. \<open>JExotic\<close> is an object the code hands to \<open>JSON.stringify\<close> whole (a \<open>Date\<close>, one with
  \<open>toJSON\<close>, ...): what serialising it gives under a property key (\<open>toJSON\<close> is called with the key), a text, \<open>undefined\<close>
  (\<open>None\<close>) or an exception. A finite number carries its decimal text.
\<close>

section \<open>Values\<close>

type_synonym units = "nat list"

datatype jval = VUndefined | VNull | VBool bool | VNumber "units option" | VString units | VBigInt | VFunction | VSymbol
  | VRef nat

datatype json_error = BigIntError | CircularError | ToJsonError string

datatype jobj = JArray "jval list" | JObject "(units \<times> jval) list" | JExotic "units \<Rightarrow> json_error + units option"

type_synonym heap = "jobj list"

section \<open>The code\<close>

fun encoded_units :: "units \<Rightarrow> nat" where
  "encoded_units [] = 0"
| "encoded_units (code # rest) =
     (if code = 0x22 \<or> code = 0x5c then 2 + encoded_units rest
      else if code = 0x08 \<or> code = 0x09 \<or> code = 0x0a \<or> code = 0x0c \<or> code = 0x0d then 2 + encoded_units rest
      else if code < 0x20 then 6 + encoded_units rest
      else if 0xd800 \<le> code \<and> code \<le> 0xdfff
      then (case rest of
              next_code # rest' \<Rightarrow>
                if code \<le> 0xdbff \<and> 0xdc00 \<le> next_code \<and> next_code \<le> 0xdfff then 2 + encoded_units rest'
                else 6 + encoded_units rest
            | [] \<Rightarrow> 6 + encoded_units rest)
      else 1 + encoded_units rest)"

definition encodedStringLength :: "units \<Rightarrow> nat" where
  "encodedStringLength v = 2 + encoded_units v"

definition isOmitted :: "jval \<Rightarrow> bool" where
  "isOmitted v \<longleftrightarrow> v = VUndefined \<or> v = VFunction \<or> v = VSymbol"

definition unseen :: "heap \<Rightarrow> nat list \<Rightarrow> nat" where
  "unseen h seen = card ({..<length h} - set seen)"

lemma unseen_less: "a < length h \<Longrightarrow> a \<notin> set seen \<Longrightarrow> unseen h (a # seen) < unseen h seen"
  unfolding unseen_def by (rule psubset_card_mono) auto

text \<open>\<open>lengthOf\<close> with the loop over an array's items and that over an object's entries.\<close>

function lengthOf :: "heap \<Rightarrow> nat list \<Rightarrow> jval \<Rightarrow> json_error + nat"
  and lengthOfItems :: "heap \<Rightarrow> nat list \<Rightarrow> bool \<Rightarrow> jval list \<Rightarrow> json_error + nat"
  and lengthOfEntries :: "heap \<Rightarrow> nat list \<Rightarrow> bool \<Rightarrow> (units \<times> jval) list \<Rightarrow> json_error + nat" where
  "lengthOf h seen v =
     (case v of
        VNull \<Rightarrow> Inr 4
      | VString s \<Rightarrow> Inr (encodedStringLength s)
      | VBool b \<Rightarrow> Inr (if b then 4 else 5)
      | VNumber t \<Rightarrow> Inr (case t of Some u \<Rightarrow> length u | None \<Rightarrow> 4)
      | VBigInt \<Rightarrow> Inl BigIntError
      | VRef a \<Rightarrow>
          if \<not> a < length h then Inr 0
          else (case h ! a of
                  JExotic f \<Rightarrow> bindE (f []) (\<lambda>t. Inr (case t of None \<Rightarrow> 0 | Some u \<Rightarrow> length u))
                | JArray xs \<Rightarrow>
                    if a \<in> set seen then Inl CircularError
                    else bindE (lengthOfItems h (a # seen) True xs) (\<lambda>n. Inr (2 + n))
                | JObject ps \<Rightarrow>
                    if a \<in> set seen then Inl CircularError
                    else bindE (lengthOfEntries h (a # seen) True ps) (\<lambda>n. Inr (2 + n)))
      | _ \<Rightarrow> Inr 0)"
| "lengthOfItems h seen first [] = Inr 0"
| "lengthOfItems h seen first (x # xs) =
     bindE (if isOmitted x then Inr 4 else lengthOf h seen x) (\<lambda>n.
     bindE (lengthOfItems h seen False xs) (\<lambda>m. Inr ((if first then 0 else 1) + n + m)))"
| "lengthOfEntries h seen first [] = Inr 0"
| "lengthOfEntries h seen first ((k, x) # ps) =
     (if isOmitted x then lengthOfEntries h seen first ps
      else bindE (lengthOf h seen x) (\<lambda>n.
           bindE (lengthOfEntries h seen False ps) (\<lambda>m.
             Inr ((if first then 0 else 1) + encodedStringLength k + 1 + n + m))))"
  by pat_completeness auto

termination
  by (relation "inv_image (less_than <*lex*> less_than)
       (case_sum (\<lambda>(h, seen, v). (unseen h seen, 0))
         (case_sum (\<lambda>(h, seen, first, xs). (unseen h seen, Suc (length xs)))
                   (\<lambda>(h, seen, first, ps). (unseen h seen, Suc (length ps)))))")
     (auto simp: unseen_less)

declare lengthOf.simps [simp del]

definition jsonLength :: "heap \<Rightarrow> jval \<Rightarrow> json_error + nat" where
  "jsonLength h v = lengthOf h [] v"

section \<open>The serialisation of ECMAScript\<close>

definition hex4 :: "nat \<Rightarrow> units" where
  "hex4 n = map (\<lambda>d. if d < 10 then 48 + d else 87 + d) [n div 4096 mod 16, n div 256 mod 16, n div 16 mod 16, n mod 16]"

definition short_escape :: "nat \<Rightarrow> nat option" where
  "short_escape c = map_of [(0x08, 98), (0x09, 116), (0x0a, 110), (0x0c, 102), (0x0d, 114), (0x22, 0x22), (0x5c, 0x5c)] c"

fun escape_units :: "units \<Rightarrow> units" where
  "escape_units [] = []"
| "escape_units [c] =
     (case short_escape c of
        Some e \<Rightarrow> [0x5c, e]
      | None \<Rightarrow> if c < 0x20 \<or> 0xd800 \<le> c \<and> c < 0xe000 then 0x5c # 117 # hex4 c else [c])"
| "escape_units (c # d # cs) =
     (case short_escape c of
        Some e \<Rightarrow> 0x5c # e # escape_units (d # cs)
      | None \<Rightarrow>
          if 0xd800 \<le> c \<and> c < 0xdc00 \<and> 0xdc00 \<le> d \<and> d < 0xe000 then c # d # escape_units cs
          else if c < 0x20 \<or> 0xd800 \<le> c \<and> c < 0xe000 then 0x5c # 117 # hex4 c @ escape_units (d # cs)
          else c # escape_units (d # cs))"

definition quote_json :: "units \<Rightarrow> units" where
  "quote_json s = 0x22 # escape_units s @ [0x22]"

definition null_text :: units where "null_text = [110, 117, 108, 108]"
definition true_text :: units where "true_text = [116, 114, 117, 101]"
definition false_text :: units where "false_text = [102, 97, 108, 115, 101]"

text \<open>Texts joined by commas\<close>

fun join_units :: "units list \<Rightarrow> units" where
  "join_units [] = []"
| "join_units [t] = t"
| "join_units (t # u # ts) = t @ [44] @ join_units (u # ts)"

text \<open>The property key of an array index.\<close>

definition index_key :: "nat \<Rightarrow> units" where
  "index_key i = map of_char (show_nat i)"

text \<open>A property is serialised, under its key, to a text or to \<open>undefined\<close>; the stack holds the objects being serialised.\<close>

function stringify :: "heap \<Rightarrow> nat list \<Rightarrow> units \<Rightarrow> jval \<Rightarrow> json_error + units option"
  and stringifyItems :: "heap \<Rightarrow> nat list \<Rightarrow> nat \<Rightarrow> jval list \<Rightarrow> json_error + units list"
  and stringifyEntries :: "heap \<Rightarrow> nat list \<Rightarrow> (units \<times> jval) list \<Rightarrow> json_error + units list" where
  "stringify h stack key v =
     (case v of
        VNull \<Rightarrow> Inr (Some null_text)
      | VString s \<Rightarrow> Inr (Some (quote_json s))
      | VBool b \<Rightarrow> Inr (Some (if b then true_text else false_text))
      | VNumber t \<Rightarrow> Inr (Some (case t of Some u \<Rightarrow> u | None \<Rightarrow> null_text))
      | VBigInt \<Rightarrow> Inl BigIntError
      | VRef a \<Rightarrow>
          if \<not> a < length h then Inr None
          else (case h ! a of
                  JExotic f \<Rightarrow> f key
                | JArray xs \<Rightarrow>
                    if a \<in> set stack then Inl CircularError
                    else bindE (stringifyItems h (a # stack) 0 xs) (\<lambda>ts. Inr (Some ([91] @ join_units ts @ [93])))
                | JObject ps \<Rightarrow>
                    if a \<in> set stack then Inl CircularError
                    else bindE (stringifyEntries h (a # stack) ps) (\<lambda>ts. Inr (Some ([123] @ join_units ts @ [125]))))
      | _ \<Rightarrow> Inr None)"
| "stringifyItems h stack i [] = Inr []"
| "stringifyItems h stack i (x # xs) =
     bindE (stringify h stack (index_key i) x) (\<lambda>t.
     bindE (stringifyItems h stack (i + 1) xs) (\<lambda>ts. Inr ((case t of None \<Rightarrow> null_text | Some u \<Rightarrow> u) # ts)))"
| "stringifyEntries h stack [] = Inr []"
| "stringifyEntries h stack ((k, x) # ps) =
     bindE (stringify h stack k x) (\<lambda>t.
     bindE (stringifyEntries h stack ps) (\<lambda>ts.
       Inr (case t of None \<Rightarrow> ts | Some u \<Rightarrow> (quote_json k @ [58] @ u) # ts)))"
  by pat_completeness auto

termination
  by (relation "inv_image (less_than <*lex*> less_than)
       (case_sum (\<lambda>(h, stack, key, v). (unseen h stack, 0))
         (case_sum (\<lambda>(h, stack, i, xs). (unseen h stack, Suc (length xs)))
                   (\<lambda>(h, stack, ps). (unseen h stack, Suc (length ps)))))")
     (auto simp: unseen_less)

declare stringify.simps [simp del]

definition JSON_stringify :: "heap \<Rightarrow> jval \<Rightarrow> json_error + units option" where
  "JSON_stringify h v = stringify h [] [] v"

section \<open>Lengths\<close>

lemma short_escape_units: "short_escape c \<noteq> None \<longleftrightarrow> c = 0x22 \<or> c = 0x5c \<or> c = 8 \<or> c = 9 \<or> c = 10 \<or> c = 12 \<or> c = 13"
  by (auto simp: short_escape_def split: if_splits)

lemma escape_length: "length (escape_units s) = encoded_units s"
proof (induction s rule: escape_units.induct)
  case (2 c)
  show ?case
  proof (cases "short_escape c")
    case (Some e)
    then show ?thesis using short_escape_units [of c] by (subst encoded_units.simps) auto
  next
    case None
    then have "c \<noteq> 0x22" "c \<noteq> 0x5c" "c \<noteq> 8" "c \<noteq> 9" "c \<noteq> 10" "c \<noteq> 12" "c \<noteq> 13"
      using short_escape_units by blast+
    then show ?thesis using None by (simp add: hex4_def)
  qed
next
  case (3 c d cs)
  show ?case
  proof (cases "short_escape c")
    case (Some e)
    then have "encoded_units (c # d # cs) = 2 + encoded_units (d # cs)"
      using short_escape_units [of c] by (subst encoded_units.simps) auto
    then show ?thesis using Some 3 by (simp del: encoded_units.simps)
  next
    case None
    then have n: "c \<noteq> 0x22" "c \<noteq> 0x5c" "c \<noteq> 8" "c \<noteq> 9" "c \<noteq> 10" "c \<noteq> 12" "c \<noteq> 13" using short_escape_units by blast+
    show ?thesis
    proof (cases "0xd800 \<le> c \<and> c < 0xdc00 \<and> 0xdc00 \<le> d \<and> d < 0xe000")
      case True
      then have "encoded_units (c # d # cs) = 2 + encoded_units cs" using n by (subst encoded_units.simps) auto
      then show ?thesis using True None 3 by (simp del: encoded_units.simps)
    next
      case False
      then have "encoded_units (c # d # cs) =
          (if c < 0x20 \<or> 0xd800 \<le> c \<and> c < 0xe000 then 6 else 1) + encoded_units (d # cs)"
        using n by (subst encoded_units.simps) auto
      then show ?thesis using False None 3 by (auto simp: hex4_def simp del: encoded_units.simps)
    qed
  qed
qed simp

lemma quote_length: "length (quote_json s) = encodedStringLength s"
  by (simp add: quote_json_def encodedStringLength_def escape_length)

fun joined_length :: "bool \<Rightarrow> units list \<Rightarrow> nat" where
  "joined_length first [] = 0"
| "joined_length first (t # ts) = (if first then 0 else 1) + length t + joined_length False ts"

lemma join_length: "length (join_units ts) = joined_length True ts"
proof (induction ts rule: join_units.induct)
  case (3 t u ts)
  then show ?case by simp
qed simp_all

text \<open>Every reference points into the heap, and no delegated object serialises to \<open>undefined\<close> or looks at its key.\<close>

definition ref_ok :: "heap \<Rightarrow> jval \<Rightarrow> bool" where
  "ref_ok h v = (case v of VRef a \<Rightarrow> a < length h | _ \<Rightarrow> True)"

definition heap_ok :: "heap \<Rightarrow> bool" where
  "heap_ok h = list_all (\<lambda>obj. case obj of
     JArray xs \<Rightarrow> list_all (ref_ok h) xs | JObject ps \<Rightarrow> list_all (\<lambda>p. ref_ok h (snd p)) ps | JExotic f \<Rightarrow> f [] \<noteq> Inr None \<and> (\<forall>k. f k = f [])) h"

lemma omitted_stringify:
  assumes "heap_ok h" and "ref_ok h v"
  shows "stringify h stack k v = Inr None \<longleftrightarrow> isOmitted v"
proof (cases v)
  case (VRef a)
  then have "a < length h" "\<forall>f. h ! a = JExotic f \<longrightarrow> f k \<noteq> Inr None"
    using assms by (auto simp: ref_ok_def heap_ok_def list_all_length split: jobj.splits) metis
  then show ?thesis unfolding VRef
    by (subst stringify.simps) (auto simp: isOmitted_def bindE_Inr split: jobj.splits)
qed (simp_all add: stringify.simps isOmitted_def)

definition text_length :: "units option \<Rightarrow> nat" where
  "text_length t = (case t of None \<Rightarrow> 0 | Some u \<Rightarrow> length u)"

lemma lengths:
  shows "heap_ok h \<Longrightarrow> ref_ok h v \<Longrightarrow> lengthOf h seen v = bindE (stringify h seen key v) (\<lambda>t. Inr (text_length t))"
    and "heap_ok h \<Longrightarrow> list_all (ref_ok h) xs \<Longrightarrow>
      lengthOfItems h seen first xs = bindE (stringifyItems h seen i xs) (\<lambda>ts. Inr (joined_length first ts))"
    and "heap_ok h \<Longrightarrow> list_all (\<lambda>p. ref_ok h (snd p)) ps \<Longrightarrow>
      lengthOfEntries h seen first ps = bindE (stringifyEntries h seen ps) (\<lambda>ts. Inr (joined_length first ts))"
proof (induction h seen v and h seen first xs and h seen first ps arbitrary: key and i
    rule: lengthOf_lengthOfItems_lengthOfEntries.induct)
  case (1 h seen v)
  show ?case
  proof (cases v)
    case (VRef a)
    then have a: "a < length h" using 1(4) by (simp add: ref_ok_def)
    have ok: "\<forall>xs. h ! a = JArray xs \<longrightarrow> list_all (ref_ok h) xs" "\<forall>ps. h ! a = JObject ps \<longrightarrow> list_all (\<lambda>p. ref_ok h (snd p)) ps"
      using 1(3) a by (auto simp: heap_ok_def list_all_length)
    show ?thesis
    proof (cases "h ! a")
      case (JArray xs)
      then show ?thesis using VRef a ok 1(1) [OF VRef _ JArray, of 0] 1(3)
        by (subst lengthOf.simps, subst stringify.simps)
           (auto simp: bindE_def text_length_def join_length split: sum.splits)
    next
      case (JObject ps)
      then show ?thesis using VRef a ok 1(2) [OF VRef _ JObject] 1(3)
        by (subst lengthOf.simps, subst stringify.simps)
           (auto simp: bindE_def text_length_def join_length split: sum.splits)
    next
      case (JExotic f)
      then have "f key = f []" using 1(3) a by (auto simp: heap_ok_def list_all_length split: jobj.splits)
      then show ?thesis using VRef a JExotic by (simp add: lengthOf.simps stringify.simps text_length_def)
    qed
  qed (simp_all add: lengthOf.simps stringify.simps text_length_def quote_length null_text_def true_text_def false_text_def
      split: option.splits)
next
  case (3 h seen first x xs)
  have o: "stringify h seen (index_key i) x = Inr None \<longleftrightarrow> isOmitted x" using 3(3,4) omitted_stringify by simp
  show ?case
  proof (cases "isOmitted x")
    case True
    then have "stringify h seen (index_key i) x = Inr None" using o by simp
    with True show ?thesis using 3(2) [of "i + 1"] 3(3,4) by (auto simp: bindE_def null_text_def split: sum.splits)
  next
    case False
    with o show ?thesis using 3(1) [of "index_key i"] 3(2) [of "i + 1"] 3(3,4) by (auto simp: bindE_def text_length_def split: sum.splits option.splits)
  qed
next
  case (5 h seen first k x ps)
  have o: "stringify h seen k x = Inr None \<longleftrightarrow> isOmitted x" using 5(4,5) omitted_stringify by simp
  show ?case
  proof (cases "isOmitted x")
    case True
    then have "stringify h seen k x = Inr None" using o by simp
    with True show ?thesis using 5 by (auto simp: bindE_def split: sum.splits)
  next
    case False
    with o show ?thesis using 5(2) [of k] 5(3-5) by (auto simp: bindE_def text_length_def quote_length split: sum.splits option.splits)
  qed
qed simp_all

section \<open>Properties\<close>

text \<open>C39. The length is exact: for every value over a heap in which no delegated object serialises to \<open>undefined\<close> or depends on
  the key it stands under, shared and circular structures and calls that throw included, \<open>jsonLength\<close> returns the length of the text \<open>JSON.stringify\<close> would build,
  0 where that is \<open>undefined\<close>, and throws the same error.\<close>

theorem json_length_is_exact:
  assumes "heap_ok h" and "ref_ok h v"
  shows "jsonLength h v = (case JSON_stringify h v of
    Inl e \<Rightarrow> Inl e | Inr None \<Rightarrow> Inr 0 | Inr (Some text) \<Rightarrow> Inr (length text))"
  using lengths(1) [OF assms, of "[]" "[]"]
  by (simp add: jsonLength_def JSON_stringify_def bindE_def text_length_def split: sum.splits option.splits)

definition ex_heap :: heap where
  "ex_heap = [JObject [([97], VRef 1), ([0xd83d], VUndefined), ([98], VRef 1)],
              JArray [VString [0x22, 0xd83d, 0xde00, 0xde00], VFunction, VNumber None]]"

lemma json_length_is_exact_witness:
  "jsonLength ex_heap (VRef 0) = Inr 59 \<and> jsonLength (ex_heap @ [JArray [VRef 2]]) (VRef 2) = Inl CircularError"
proof -
  have "JSON_stringify ex_heap (VRef 0) = Inr (Some (
      [123, 34, 97, 34, 58, 91, 34, 92, 34, 0xd83d, 0xde00, 92, 117, 100, 101, 48, 48, 34, 44, 110, 117, 108, 108, 44, 110, 117, 108, 108, 93]
      @ [44, 34, 98, 34, 58, 91, 34, 92, 34, 0xd83d, 0xde00, 92, 117, 100, 101, 48, 48, 34, 44, 110, 117, 108, 108, 44, 110, 117, 108, 108, 93, 125]))"
    by (simp add: JSON_stringify_def ex_heap_def stringify.simps quote_json_def short_escape_def hex4_def null_text_def)
  then show ?thesis
    using json_length_is_exact [of ex_heap "VRef 0"] json_length_is_exact [of "ex_heap @ [JArray [VRef 2]]" "VRef 2"]
    by (simp add: ex_heap_def heap_ok_def ref_ok_def JSON_stringify_def stringify.simps quote_json_def short_escape_def
        hex4_def null_text_def)
qed

text \<open>An object whose \<open>toJSON\<close> returns \<open>undefined\<close> is dropped from the text with its key, but counted with its key.\<close>

lemma undefined_toJSON_is_miscounted:
  "JSON_stringify [JObject [([97], VRef 1)], JExotic (\<lambda>_. Inr None)] (VRef 0) = Inr (Some [123, 125])"
  "jsonLength [JObject [([97], VRef 1)], JExotic (\<lambda>_. Inr None)] (VRef 0) = Inr 6"
  by (simp_all add: JSON_stringify_def stringify.simps jsonLength_def lengthOf.simps isOmitted_def encodedStringLength_def)

text \<open>The delegated call has the key \<open>''\<close>: an object whose \<open>toJSON\<close> answers with its key is counted two quotes long.\<close>

lemma keyed_toJSON_is_miscounted:
  "JSON_stringify [JObject [([97], VRef 1)], JExotic (\<lambda>k. Inr (Some (quote_json k)))] (VRef 0) = Inr (Some [123, 34, 97, 34, 58, 34, 97, 34, 125])"
  "jsonLength [JObject [([97], VRef 1)], JExotic (\<lambda>k. Inr (Some (quote_json k)))] (VRef 0) = Inr 8"
  by (simp_all add: JSON_stringify_def stringify.simps jsonLength_def lengthOf.simps isOmitted_def encodedStringLength_def
      quote_json_def short_escape_def)

end
