(* ===== verification/FairShare.thy ===== *)
theory FairShare
  imports Omni_Prelude
begin

text \<open>
  The fair-share decision of the quota pools, \<open>src/lib/quota/fairShare.ts\<close>, with the units, windows and keys of
  \<open>src/lib/quota/dimensions.ts\<close> and the burn-rate estimates of \<open>src/lib/quota/burnRate.ts\<close>. Amounts and percentages
  are rationals.
\<close>

section \<open>Dimensions\<close>

datatype quota_unit = Percent | Requests | Tokens | Usd
datatype quota_window = Hourly | FiveHours | Daily | Weekly | Monthly

fun unit_name :: "quota_unit \<Rightarrow> string" where
  "unit_name Percent = ''percent''"
| "unit_name Requests = ''requests''"
| "unit_name Tokens = ''tokens''"
| "unit_name Usd = ''usd''"

fun window_name :: "quota_window \<Rightarrow> string" where
  "window_name Hourly = ''hourly''"
| "window_name FiveHours = ''5h''"
| "window_name Daily = ''daily''"
| "window_name Weekly = ''weekly''"
| "window_name Monthly = ''monthly''"

fun WINDOW_MS :: "quota_window \<Rightarrow> int" where
  "WINDOW_MS Hourly = 60 * 60 * 1000"
| "WINDOW_MS FiveHours = 5 * 60 * 60 * 1000"
| "WINDOW_MS Daily = 24 * 60 * 60 * 1000"
| "WINDOW_MS Weekly = 7 * 24 * 60 * 60 * 1000"
| "WINDOW_MS Monthly = 30 * 24 * 60 * 60 * 1000"

record dimension_key =
  dk_poolId :: string
  dk_unit :: quota_unit
  dk_window :: quota_window

definition dimensionKeyToString :: "dimension_key \<Rightarrow> string" where
  "dimensionKeyToString k = dk_poolId k @ '':'' @ unit_name (dk_unit k) @ '':'' @ window_name (dk_window k)"

section \<open>The decision\<close>

text \<open>A policy read from the database may be any string.\<close>

datatype policy = Hard | Soft | Burst | UnknownPolicy string

record fs_dimension =
  fd_key :: dimension_key
  fd_limit :: rat
  fd_consumedTotal :: rat
  fd_globalUsedPercent :: rat

record fs_allocation =
  fa_weight :: rat
  fa_capValue :: "rat option"
  fa_capUnit :: "quota_unit option"
  fa_policy :: policy

datatype fs_reason = CapAbsolute | GlobalSaturated | FairShareReached

datatype fs_decision = FsAllow bool | FsBlock fs_reason

definition normalizePolicy :: "policy \<Rightarrow> policy" where
  "normalizePolicy p = (case p of UnknownPolicy _ \<Rightarrow> Hard | _ \<Rightarrow> p)"

text \<open>One turn of the loop over the dimensions: a block, or whether the key is penalised for this dimension.\<close>

definition check_dimension :: "fs_allocation \<Rightarrow> policy \<Rightarrow> (string, rat) jsmap \<Rightarrow> rat \<Rightarrow> fs_dimension \<Rightarrow> fs_reason + bool" where
  "check_dimension a p consumedByThisKey threshold d =
     (let consumed = (case jm_get consumedByThisKey (dimensionKeyToString (fd_key d)) of None \<Rightarrow> 0 | Some c \<Rightarrow> c);
          fairShare = fa_weight a / 100 * fd_limit d
      in if (case fa_capValue a of None \<Rightarrow> False
             | Some cap \<Rightarrow> fa_capUnit a = Some (dk_unit (fd_key d)) \<and> consumed \<ge> cap) then Inl CapAbsolute
         else if fd_consumedTotal d \<ge> fd_limit d then Inl GlobalSaturated
         else if fd_globalUsedPercent d \<ge> threshold
         then (case p of
                 Hard \<Rightarrow> if consumed \<ge> fairShare then Inl FairShareReached else Inr False
               | Soft \<Rightarrow> Inr (consumed \<ge> fairShare)
               | _ \<Rightarrow> Inr False)
         else (case p of
                 Hard \<Rightarrow> if consumed \<ge> fd_limit d then Inl GlobalSaturated else Inr False
               | Soft \<Rightarrow> Inr (consumed \<ge> fairShare)
               | _ \<Rightarrow> Inr False))"

fun fs_loop :: "fs_allocation \<Rightarrow> policy \<Rightarrow> (string, rat) jsmap \<Rightarrow> rat \<Rightarrow> bool \<Rightarrow> fs_dimension list \<Rightarrow> fs_decision" where
  "fs_loop a p m th pen [] = FsAllow pen"
| "fs_loop a p m th pen (d # ds) =
     (case check_dimension a p m th d of
        Inl r \<Rightarrow> FsBlock r
      | Inr x \<Rightarrow> fs_loop a p m th (pen \<or> x) ds)"

definition decideFairShare :: "fs_dimension list \<Rightarrow> fs_allocation \<Rightarrow> (string, rat) jsmap \<Rightarrow> rat \<Rightarrow> fs_decision" where
  "decideFairShare dims a consumedByThisKey threshold =
     (if dims = [] then FsAllow False
      else fs_loop a (normalizePolicy (fa_policy a)) consumedByThisKey threshold False dims)"

section \<open>Burn rates\<close>

definition computeBurnRateFromWindow :: "int \<Rightarrow> rat \<Rightarrow> int \<Rightarrow> rat option \<Rightarrow> rat \<times> rat option" where
  "computeBurnRateFromWindow nowMs consumedTotal windowMs remaining =
     (if consumedTotal \<le> 0 \<or> windowMs \<le> 0 then (0, None)
      else (let elapsedMs = max 1 (nowMs - nowMs div windowMs * windowMs);
                safeRate = consumedTotal / (of_int elapsedMs / 1000)
            in (safeRate, case remaining of
                  Some r \<Rightarrow> if safeRate > 0 \<and> r \<ge> 0 then Some (r / safeRate * 1000) else None
                | None \<Rightarrow> None)))"

definition EMA_ALPHA :: rat where "EMA_ALPHA = 3 / 10"

text \<open>The pass over consecutive samples; \<open>None\<close> until a pair with increasing time stamps has been seen.\<close>

fun ema_rate :: "rat option \<Rightarrow> (int \<times> rat) list \<Rightarrow> rat option" where
  "ema_rate r ((t0, c0) # (t1, c1) # hs) =
     (if t1 - t0 \<le> 0 then ema_rate r ((t1, c1) # hs)
      else (let instant = (c1 - c0) / (of_int (t1 - t0) / 1000)
            in ema_rate (Some (case r of None \<Rightarrow> instant | Some e \<Rightarrow> EMA_ALPHA * instant + (1 - EMA_ALPHA) * e)) ((t1, c1) # hs)))"
| "ema_rate r _ = r"

definition computeBurnRate :: "(int \<times> rat) list \<Rightarrow> rat option \<Rightarrow> rat \<times> rat option" where
  "computeBurnRate history remaining =
     (if length history < 2 then (0, None)
      else (case ema_rate None history of
              None \<Rightarrow> (0, None)
            | Some e \<Rightarrow>
                (let safeRate = max 0 e
                 in (safeRate, case remaining of
                       Some r \<Rightarrow> if safeRate > 0 \<and> r \<ge> 0 then Some (r / safeRate * 1000) else None
                     | None \<Rightarrow> None))))"

section \<open>The decision in closed form\<close>

definition consumed_by :: "(string, rat) jsmap \<Rightarrow> fs_dimension \<Rightarrow> rat" where
  "consumed_by m d = (case jm_get m (dimensionKeyToString (fd_key d)) of None \<Rightarrow> 0 | Some c \<Rightarrow> c)"

definition fair_share :: "fs_allocation \<Rightarrow> fs_dimension \<Rightarrow> rat" where
  "fair_share a d = fa_weight a / 100 * fd_limit d"

definition cap_reached :: "fs_allocation \<Rightarrow> (string, rat) jsmap \<Rightarrow> fs_dimension \<Rightarrow> bool" where
  "cap_reached a m d \<longleftrightarrow> (\<exists>c\<in>set_option (fa_capValue a). fa_capUnit a = Some (dk_unit (fd_key d)) \<and> consumed_by m d \<ge> c)"

definition blocks :: "fs_allocation \<Rightarrow> (string, rat) jsmap \<Rightarrow> rat \<Rightarrow> fs_dimension \<Rightarrow> bool" where
  "blocks a m th d \<longleftrightarrow> cap_reached a m d \<or> fd_limit d \<le> fd_consumedTotal d
     \<or> normalizePolicy (fa_policy a) = Hard \<and> (if th \<le> fd_globalUsedPercent d then fair_share a d else fd_limit d) \<le> consumed_by m d"

lemma check_dimension_blocks:
  "(\<exists>r. check_dimension a (normalizePolicy (fa_policy a)) m th d = Inl r) \<longleftrightarrow> blocks a m th d"
  "check_dimension a (normalizePolicy (fa_policy a)) m th d = Inr x \<Longrightarrow>
     x \<longleftrightarrow> normalizePolicy (fa_policy a) = Soft \<and> fair_share a d \<le> consumed_by m d"
  by (auto simp: check_dimension_def blocks_def cap_reached_def consumed_by_def fair_share_def Let_def normalizePolicy_def
      split: policy.splits option.splits if_splits)

lemma fs_loop_spec:
  "fs_loop a (normalizePolicy (fa_policy a)) m th pen ds =
     (case find (blocks a m th) ds of
        Some d \<Rightarrow> FsBlock (projl (check_dimension a (normalizePolicy (fa_policy a)) m th d))
      | None \<Rightarrow> FsAllow (pen \<or> normalizePolicy (fa_policy a) = Soft \<and> (\<exists>d\<in>set ds. fair_share a d \<le> consumed_by m d)))"
proof (induction ds arbitrary: pen)
  case (Cons d ds)
  show ?case
  proof (cases "check_dimension a (normalizePolicy (fa_policy a)) m th d")
    case (Inl r)
    then have "blocks a m th d" using check_dimension_blocks(1) by blast
    with Inl show ?thesis by simp
  next
    case (Inr x)
    then have "\<not> blocks a m th d" using check_dimension_blocks(1) by (metis Inl_Inr_False)
    with Inr show ?thesis using Cons check_dimension_blocks(2) [OF Inr] by (auto split: option.splits)
  qed
qed simp

lemma allow_no_block:
  assumes "decideFairShare dims a m th = FsAllow x" and "d \<in> set dims"
  shows "\<not> blocks a m th d"
proof -
  have "find (blocks a m th) dims = None"
    using assms by (auto simp: decideFairShare_def fs_loop_spec split: option.splits if_splits)
  then show ?thesis using assms(2) by (simp add: find_None_iff)
qed

text \<open>The reason given is that of the dimension that blocks.\<close>

lemma block_reason:
  assumes "check_dimension a p m th d = Inl r"
  shows "r = CapAbsolute \<longleftrightarrow> cap_reached a m d"
    and "r = GlobalSaturated \<Longrightarrow> fd_limit d \<le> fd_consumedTotal d \<or> fd_limit d \<le> consumed_by m d"
    and "r = FairShareReached \<Longrightarrow> fair_share a d \<le> consumed_by m d \<and> th \<le> fd_globalUsedPercent d"
  using assms
  by (auto simp: check_dimension_def cap_reached_def consumed_by_def fair_share_def Let_def
      split: policy.splits option.splits if_splits)

lemma burn_rate_nonneg: "0 \<le> fst (computeBurnRate h r)" "0 \<le> fst (computeBurnRateFromWindow now c w r)"
  by (auto simp: computeBurnRate_def computeBurnRateFromWindow_def Let_def split: option.splits)

section \<open>Properties\<close>

text \<open>The fair-share decision: a request is blocked exactly when, in some dimension, the absolute cap or the pool's
  limit is reached, or the policy is hard (or unknown) and the key has used its fair share while the pool is saturated,
  or the whole limit while it is not; otherwise it is allowed, penalised exactly for a soft key that is past its fair
  share somewhere. So below the threshold any key may borrow up to the limit.\<close>

theorem fair_share_decision_is_exact:
  "((\<exists>r. decideFairShare dims a m th = FsBlock r) \<longleftrightarrow> (\<exists>d\<in>set dims. blocks a m th d))
   \<and> (decideFairShare dims a m th = FsAllow True \<longleftrightarrow>
        \<not> (\<exists>d\<in>set dims. blocks a m th d) \<and> normalizePolicy (fa_policy a) = Soft
        \<and> (\<exists>d\<in>set dims. fair_share a d \<le> consumed_by m d))"
proof (cases "dims = []")
  case False
  then have "decideFairShare dims a m th = fs_loop a (normalizePolicy (fa_policy a)) m th False dims"
    by (simp add: decideFairShare_def)
  then show ?thesis
    by (cases "find (blocks a m th) dims") (auto simp: fs_loop_spec find_None_iff find_Some_iff nth_mem)
qed (simp add: decideFairShare_def)

end
