(* ===== verification/QuotaEnforce.thy ===== *)
theory QuotaEnforce
  imports FairShare
begin

text \<open>
  Quota enforcement: the two-bucket sliding counters of \<open>src/lib/quota/sqliteQuotaStore.ts\<close> over the rows of
  \<open>src/lib/db/quotaConsumption.ts\<close>, and the gate before and the recorder after a request,
  \<open>src/lib/quota/enforce.ts\<close>. The table is a map from key, dimension and bucket to the amount, \<open>None\<close> when every
  query fails; each query is one step, so the store's mutex adds nothing. The tables of pools, allocations, plans and
  model caps and the saturation signal are the record \<open>quota_env\<close>, with \<open>None\<close> for a call that throws. Webhooks are left out.
\<close>

section \<open>The counters\<close>

type_synonym quota_rows = "(string \<times> string \<times> int, rat) jsmap"
type_synonym quota_db = "quota_rows option"

definition getBucket :: "quota_rows \<Rightarrow> string \<Rightarrow> string \<Rightarrow> int \<Rightarrow> rat" where
  "getBucket rows key dk b = (case jm_get rows (key, dk, b) of None \<Rightarrow> 0 | Some c \<Rightarrow> c)"

definition incrementBucket :: "string \<Rightarrow> string \<Rightarrow> int \<Rightarrow> rat \<Rightarrow> quota_rows \<Rightarrow> quota_rows" where
  "incrementBucket key dk b delta rows =
     (case jm_get rows (key, dk, b) of
        None \<Rightarrow> jm_set (key, dk, b) delta rows
      | Some c \<Rightarrow> jm_set (key, dk, b) (c + delta) rows)"

definition getPair :: "quota_rows \<Rightarrow> string \<Rightarrow> string \<Rightarrow> int \<Rightarrow> rat \<times> rat" where
  "getPair rows key dk b = (getBucket rows key dk b, getBucket rows key dk (b - 1))"

definition sum_bucket :: "quota_rows \<Rightarrow> string \<Rightarrow> int \<Rightarrow> rat" where
  "sum_bucket rows dk b = sum_list (map snd (filter (\<lambda>((_, d, i), _). d = dk \<and> i = b) rows))"

definition sumPoolDimension :: "quota_rows \<Rightarrow> string \<Rightarrow> int \<Rightarrow> rat \<times> rat" where
  "sumPoolDimension rows dk b = (sum_bucket rows dk b, sum_bucket rows dk (b - 1))"

definition slidingWindowEffective :: "rat \<Rightarrow> rat \<Rightarrow> int \<Rightarrow> int \<Rightarrow> rat" where
  "slidingWindowEffective cur prev nowMs windowMs =
     (let currentBucketStartMs = nowMs div windowMs * windowMs;
          elapsed = nowMs - currentBucketStartMs;
          weight = 1 - of_int elapsed / of_int windowMs
      in prev * weight + cur)"

definition store_consume :: "int \<Rightarrow> string \<Rightarrow> dimension_key \<Rightarrow> rat \<Rightarrow> quota_db \<Rightarrow> rat option \<times> quota_db" where
  "store_consume nowMs key k cost db =
     (case db of
        None \<Rightarrow> (None, None)
      | Some rows \<Rightarrow>
          (let dk = dimensionKeyToString k; w = WINDOW_MS (dk_window k); b = nowMs div w;
               rows' = incrementBucket key dk b cost rows; (cur, prev) = getPair rows' key dk b
           in (Some (slidingWindowEffective cur prev nowMs w), Some rows')))"

definition store_peek :: "int \<Rightarrow> string \<Rightarrow> dimension_key \<Rightarrow> quota_db \<Rightarrow> rat option" where
  "store_peek nowMs key k db =
     (case db of
        None \<Rightarrow> None
      | Some rows \<Rightarrow>
          (let w = WINDOW_MS (dk_window k); (cur, prev) = getPair rows key (dimensionKeyToString k) (nowMs div w)
           in Some (slidingWindowEffective cur prev nowMs w)))"

definition poolConsumedTotal :: "int \<Rightarrow> dimension_key \<Rightarrow> quota_db \<Rightarrow> rat option" where
  "poolConsumedTotal nowMs k db =
     (case db of
        None \<Rightarrow> None
      | Some rows \<Rightarrow>
          (let w = WINDOW_MS (dk_window k);
               (currTotal, prevTotal) = sumPoolDimension rows (dimensionKeyToString k) (nowMs div w)
           in Some (slidingWindowEffective currTotal prevTotal nowMs w)))"

definition store_clear :: "int \<Rightarrow> string \<Rightarrow> dimension_key \<Rightarrow> quota_db \<Rightarrow> quota_db" where
  "store_clear nowMs key k db =
     (case db of
        None \<Rightarrow> None
      | Some rows \<Rightarrow>
          (let dk = dimensionKeyToString k; b = nowMs div WINDOW_MS (dk_window k);
               c = getBucket rows key dk b;
               rows1 = (if c \<noteq> 0 then incrementBucket key dk b (- c) rows else rows);
               p = getBucket rows1 key dk (b - 1)
           in Some (if p \<noteq> 0 then incrementBucket key dk (b - 1) (- p) rows1 else rows1)))"

section \<open>Pools\<close>

record quota_pool =
  qp_id :: string
  qp_connectionId :: string
  qp_connectionIds :: "string list option"
  qp_allocations :: "(string \<times> fs_allocation) list"

record plan_dimension =
  pd_unit :: quota_unit
  pd_window :: quota_window
  pd_limit :: rat

record model_cap =
  mc_capValue :: rat
  mc_capUnit :: quota_unit

record quota_env =
  qe_allocationsFor :: "string \<Rightarrow> (string \<times> fs_allocation) list option"
  qe_getPool :: "string \<Rightarrow> quota_pool option option"
  qe_resolvePlan :: "string \<Rightarrow> string \<Rightarrow> plan_dimension list"
  qe_getModelCap :: "string \<Rightarrow> string \<Rightarrow> string \<Rightarrow> model_cap option option"
  qe_getSaturation :: "string \<Rightarrow> string \<Rightarrow> plan_dimension \<Rightarrow> rat option"

record enforce_input =
  ei_apiKeyId :: string
  ei_connectionId :: string
  ei_provider :: string
  ei_model :: "string option"

record request_cost =
  rc_tokens :: "rat option"
  rc_usd :: "rat option"
  rc_requests :: "rat option"

definition NUMBER_EPSILON :: rat where "NUMBER_EPSILON = 1 / 2 ^ 52"

definition pool_has :: "string \<Rightarrow> quota_pool \<Rightarrow> bool" where
  "pool_has conn p = (case qp_connectionIds p of Some ids \<Rightarrow> conn \<in> set ids | None \<Rightarrow> qp_connectionId p = conn)"

text \<open>The loop over the key's allocations: the first whose pool can be read and has the connection.\<close>

fun find_pool :: "quota_env \<Rightarrow> string \<Rightarrow> (string \<times> fs_allocation) list \<Rightarrow> (quota_pool \<times> fs_allocation) option" where
  "find_pool env conn [] = None"
| "find_pool env conn ((pid, a) # as) =
     (case qe_getPool env pid of
        Some (Some p) \<Rightarrow> if pool_has conn p then Some (p, a) else find_pool env conn as
      | _ \<Rightarrow> find_pool env conn as)"

definition model_key :: "string \<Rightarrow> string \<Rightarrow> quota_unit \<Rightarrow> dimension_key" where
  "model_key poolId model u = \<lparr>dk_poolId = poolId @ '':model:'' @ model, dk_unit = u, dk_window = Hourly\<rparr>"

text \<open>\<open>.catch(() => 0)\<close>\<close>

definition or_zero :: "rat option \<Rightarrow> rat" where
  "or_zero x = (case x of None \<Rightarrow> 0 | Some v \<Rightarrow> v)"

section \<open>The gate\<close>

datatype enforce_decision = EnAllow bool | EnBlock string

definition messageForReason :: "fs_reason \<Rightarrow> string \<Rightarrow> string" where
  "messageForReason r provider =
     (case r of
        FairShareReached \<Rightarrow> ''Quota share limit reached for your API key on '' @ provider
      | CapAbsolute \<Rightarrow> ''Absolute quota cap reached for your API key on '' @ provider
      | GlobalSaturated \<Rightarrow> ''Provider '' @ provider @ '' quota window is saturated; no shared capacity available'')"

definition model_cap_reached :: "quota_env \<Rightarrow> int \<Rightarrow> quota_pool \<Rightarrow> enforce_input \<Rightarrow> quota_db \<Rightarrow> bool" where
  "model_cap_reached env nowMs p i db =
     (case ei_model i of
        None \<Rightarrow> False
      | Some m \<Rightarrow>
          if m = [] then False
          else (case qe_getModelCap env (qp_id p) (ei_apiKeyId i) m of
                  Some (Some c) \<Rightarrow>
                    mc_capValue c > NUMBER_EPSILON
                    \<and> or_zero (store_peek nowMs (ei_apiKeyId i) (model_key (qp_id p) m (mc_capUnit c)) db) \<ge> mc_capValue c
                | _ \<Rightarrow> False))"

definition accountCount :: "quota_pool \<Rightarrow> rat" where
  "accountCount p = (case qp_connectionIds p of Some ids \<Rightarrow> if length ids > 0 then of_nat (length ids) else 1 | None \<Rightarrow> 1)"

definition plan_key :: "quota_pool \<Rightarrow> plan_dimension \<Rightarrow> dimension_key" where
  "plan_key p d = \<lparr>dk_poolId = qp_id p, dk_unit = pd_unit d, dk_window = pd_window d\<rparr>"

definition active_dimensions :: "plan_dimension list \<Rightarrow> plan_dimension list" where
  "active_dimensions ds = filter (\<lambda>d. pd_limit d > NUMBER_EPSILON) ds"

definition dimension_info :: "quota_env \<Rightarrow> int \<Rightarrow> quota_pool \<Rightarrow> enforce_input \<Rightarrow> quota_db \<Rightarrow> plan_dimension \<Rightarrow> fs_dimension" where
  "dimension_info env nowMs p i db d =
     (let used = or_zero (qe_getSaturation env (ei_connectionId i) (ei_provider i) d);
          effectiveLimit = pd_limit d * accountCount p
      in \<lparr>fd_key = plan_key p d, fd_limit = effectiveLimit,
          fd_consumedTotal = (if pd_unit d \<noteq> Percent then or_zero (poolConsumedTotal nowMs (plan_key p d) db)
                              else used * effectiveLimit),
          fd_globalUsedPercent = used\<rparr>)"

definition effectiveWeight :: "quota_pool \<Rightarrow> fs_allocation \<Rightarrow> rat" where
  "effectiveWeight p a =
     (let poolTotalWeight = sum_list (map (\<lambda>x. fa_weight (snd x)) (qp_allocations p)); n = length (qp_allocations p)
      in if poolTotalWeight > 0 then fa_weight a else if n > 0 then 100 / of_nat n else 0)"

definition enforceQuotaShare :: "quota_env \<Rightarrow> rat \<Rightarrow> int \<Rightarrow> enforce_input \<Rightarrow> quota_db \<Rightarrow> enforce_decision" where
  "enforceQuotaShare env threshold nowMs i db =
     (case qe_allocationsFor env (ei_apiKeyId i) of
        None \<Rightarrow> EnAllow False
      | Some as \<Rightarrow>
          (case find_pool env (ei_connectionId i) as of
             None \<Rightarrow> EnAllow False
           | Some (p, a) \<Rightarrow>
               (let plan = qe_resolvePlan env (ei_connectionId i) (ei_provider i)
                in if model_cap_reached env nowMs p i db
                   then EnBlock (''Model cap reached for your API key on '' @ ei_provider i @ ''/'' @ the (ei_model i) @ '' [model-cap]'')
                   else if plan = [] then EnAllow False
                   else (let ds = active_dimensions plan;
                             infos = map (dimension_info env nowMs p i db) ds;
                             consumed = fold (\<lambda>d m. jm_set (dimensionKeyToString (plan_key p d))
                                          (or_zero (store_peek nowMs (ei_apiKeyId i) (plan_key p d) db)) m) ds []
                         in (case decideFairShare infos (a\<lparr>fa_weight := effectiveWeight p a\<rparr>) consumed threshold of
                               FsBlock r \<Rightarrow> EnBlock (messageForReason r (ei_provider i))
                             | FsAllow pen \<Rightarrow> EnAllow pen)))))"

section \<open>The recorder\<close>

definition costForUnit :: "request_cost \<Rightarrow> quota_unit \<Rightarrow> rat" where
  "costForUnit c u =
     (case u of
        Tokens \<Rightarrow> or_zero (rc_tokens c)
      | Usd \<Rightarrow> or_zero (rc_usd c)
      | Requests \<Rightarrow> (case rc_requests c of None \<Rightarrow> 1 | Some r \<Rightarrow> r)
      | Percent \<Rightarrow> 0)"

definition record_dimension :: "int \<Rightarrow> string \<Rightarrow> request_cost \<Rightarrow> dimension_key \<Rightarrow> quota_db \<Rightarrow> quota_db" where
  "record_dimension nowMs key c k db =
     (if costForUnit c (dk_unit k) > 0 then snd (store_consume nowMs key k (costForUnit c (dk_unit k)) db) else db)"

definition recordConsumption :: "quota_env \<Rightarrow> int \<Rightarrow> enforce_input \<Rightarrow> request_cost \<Rightarrow> quota_db \<Rightarrow> quota_db" where
  "recordConsumption env nowMs i c db0 =
     (case qe_allocationsFor env (ei_apiKeyId i) of
        None \<Rightarrow> db0
      | Some as \<Rightarrow>
          (case find_pool env (ei_connectionId i) as of
             None \<Rightarrow> db0
           | Some (p, _) \<Rightarrow>
               (let db1 = fold (\<lambda>d. record_dimension nowMs (ei_apiKeyId i) c (plan_key p d))
                               (qe_resolvePlan env (ei_connectionId i) (ei_provider i)) db0
                in (case ei_model i of
                      None \<Rightarrow> db1
                    | Some m \<Rightarrow>
                        if m = [] then db1
                        else (case qe_getModelCap env (qp_id p) (ei_apiKeyId i) m of
                                Some (Some cap) \<Rightarrow>
                                  if mc_capValue cap > NUMBER_EPSILON
                                  then record_dimension nowMs (ei_apiKeyId i) c (model_key (qp_id p) m (mc_capUnit cap)) db1
                                  else db1
                              | _ \<Rightarrow> db1)))))"

section \<open>The pool total over time\<close>

lemma sum_bucket_increment:
  "sum_bucket (incrementBucket key dk b delta rows) dk' b' = sum_bucket rows dk' b' + (if dk' = dk \<and> b' = b then delta else 0)"
proof (cases "jm_get rows (key, dk, b)")
  case None
  then have "\<not> jm_has rows (key, dk, b)" by (simp add: jm_has_def)
  with None show ?thesis by (auto simp: incrementBucket_def sum_bucket_def jm_set_new)
next
  case (Some c)
  have "sum_bucket (jm_set (key, dk, b) (c + delta) rows) dk' b' =
      sum_bucket rows dk' b' + (if dk' = dk \<and> b' = b then delta else 0)"
    using Some
  proof (induction rows)
    case (Cons r rows)
    show ?case
    proof (cases "fst r = (key, dk, b)")
      case True
      then have "snd r = c" using Cons.prems by (cases r) (simp add: jm_get_def)
      with True show ?thesis by (cases r) (auto simp: sum_bucket_def jm_set_def)
    next
      case False
      then have "jm_get rows (key, dk, b) = Some c" using Cons.prems by (cases r) (auto simp: jm_get_def)
      then show ?thesis using Cons.IH False by (cases r) (auto simp: sum_bucket_def jm_set_def)
    qed
  qed (simp add: jm_get_def)
  with Some show ?thesis by (simp add: incrementBucket_def)
qed

definition pool_total :: "quota_rows \<Rightarrow> string \<Rightarrow> int \<Rightarrow> int \<Rightarrow> rat" where
  "pool_total rows dk w t = slidingWindowEffective (sum_bucket rows dk (t div w)) (sum_bucket rows dk (t div w - 1)) t w"

lemma pool_total_mod:
  "pool_total rows dk w t = sum_bucket rows dk (t div w - 1) * (1 - of_int (t mod w) / of_int w) + sum_bucket rows dk (t div w)"
  unfolding pool_total_def slidingWindowEffective_def Let_def minus_div_mult_eq_mod by (rule refl)

text \<open>No amount is negative and no bucket lies in the future.\<close>

definition rows_ok :: "quota_rows \<Rightarrow> string \<Rightarrow> int \<Rightarrow> bool" where
  "rows_ok rows dk b \<longleftrightarrow> (\<forall>i. 0 \<le> sum_bucket rows dk i) \<and> (\<forall>i>b. sum_bucket rows dk i = 0)"

lemma rows_ok_later: "rows_ok rows dk b \<Longrightarrow> b \<le> b' \<Longrightarrow> rows_ok rows dk b'"
  by (simp add: rows_ok_def)

lemma rows_ok_increment:
  "rows_ok rows dk b \<Longrightarrow> 0 \<le> delta \<Longrightarrow> rows_ok (incrementBucket key dk' b delta rows) dk b"
  by (simp add: rows_ok_def sum_bucket_increment)

lemma pool_total_decays:
  assumes ok: "rows_ok rows dk (t div w)" and w: "0 < w" and tu: "t \<le> u"
  shows "pool_total rows dk w u \<le> pool_total rows dk w t"
proof -
  let ?S = "sum_bucket rows dk"
  have nn: "0 \<le> ?S i" and fut: "t div w < i \<Longrightarrow> ?S i = 0" for i using ok by (simp_all add: rows_ok_def)
  have frac: "0 \<le> (of_int (x mod w) :: rat) / of_int w" "(of_int (x mod w) :: rat) / of_int w \<le> 1" for x
    using w pos_mod_bound [OF w, of x] pos_mod_sign [OF w, of x] by (simp_all add: less_imp_le)
  have le: "?S i \<le> pool_total rows dk w t" if "i = t div w" for i
    using nn [of "t div w - 1"] frac [of t] that by (simp add: pool_total_mod)
  consider "u div w = t div w" | "u div w = t div w + 1" | "t div w + 1 < u div w"
    using zdiv_mono1 [OF tu w] by linarith
  then show ?thesis
  proof cases
    case 1
    then have "t mod w \<le> u mod w" using tu minus_div_mult_eq_mod [of t w] minus_div_mult_eq_mod [of u w] by simp
    then have "(of_int (t mod w) :: rat) / of_int w \<le> of_int (u mod w) / of_int w" using w by (intro divide_right_mono) simp_all
    then show ?thesis using nn [of "t div w - 1"] 1 by (simp add: pool_total_mod mult_left_mono)
  next
    case 2
    then have "pool_total rows dk w u = ?S (t div w) * (1 - of_int (u mod w) / of_int w)"
      using fut [of "u div w"] by (simp add: pool_total_mod)
    also have "\<dots> \<le> ?S (t div w) * 1" using nn frac [of u] by (intro mult_left_mono) simp_all
    finally show ?thesis using le by simp
  next
    case 3
    then have "pool_total rows dk w u = 0" using fut [of "u div w"] fut [of "u div w - 1"] by (simp add: pool_total_mod)
    then show ?thesis using le [OF refl] nn [of "t div w"] by simp
  qed
qed

lemma poolConsumedTotal_total:
  "poolConsumedTotal t k (Some rows) = Some (pool_total rows (dimensionKeyToString k) (WINDOW_MS (dk_window k)) t)"
  by (simp add: poolConsumedTotal_def sumPoolDimension_def pool_total_def Let_def)

lemma WINDOW_MS_pos: "0 < WINDOW_MS w"
  by (cases w) simp_all

section \<open>Keys\<close>

lemma unit_window_inj: "unit_name u @ '':'' @ window_name w = unit_name u' @ '':'' @ window_name w' \<longleftrightarrow> u = u' \<and> w = w'"
  by (cases u; cases u'; cases w; cases w'; simp)

lemma plan_key_inj:
  "dimensionKeyToString (plan_key p d) = dimensionKeyToString (plan_key p d') \<longleftrightarrow> pd_unit d = pd_unit d' \<and> pd_window d = pd_window d'"
  by (simp add: dimensionKeyToString_def plan_key_def unit_window_inj del: append_Cons)

lemma model_key_other: "dimensionKeyToString (model_key (qp_id p) m u) \<noteq> dimensionKeyToString (plan_key p d)"
  by (cases "pd_unit d") (simp_all add: dimensionKeyToString_def plan_key_def model_key_def)

section \<open>Recording\<close>

lemma record_dimension_rows:
  assumes "0 \<le> costForUnit c (dk_unit k)"
  shows "record_dimension t key c k (Some rows) =
    Some (if costForUnit c (dk_unit k) > 0
          then incrementBucket key (dimensionKeyToString k) (t div WINDOW_MS (dk_window k)) (costForUnit c (dk_unit k)) rows
          else rows)"
  by (simp add: record_dimension_def store_consume_def Let_def split: prod.splits)

definition same_dimension :: "plan_dimension \<Rightarrow> plan_dimension \<Rightarrow> bool" where
  "same_dimension d d' \<longleftrightarrow> pd_unit d = pd_unit d' \<and> pd_window d = pd_window d'"

lemma record_plan:
  assumes "\<forall>u. 0 \<le> costForUnit c u"
  shows "\<exists>rows'. fold (\<lambda>d. record_dimension t key c (plan_key p d)) ds (Some rows) = Some rows'
    \<and> (\<forall>b. sum_bucket rows' (dimensionKeyToString (plan_key p d0)) b =
         sum_bucket rows (dimensionKeyToString (plan_key p d0)) b
         + (if b = t div WINDOW_MS (pd_window d0)
            then of_nat (length (filter (same_dimension d0) ds)) * costForUnit c (pd_unit d0) else 0))"
proof (induction ds arbitrary: rows)
  case (Cons d ds)
  define r1 where "r1 = (if costForUnit c (pd_unit d) > 0
      then incrementBucket key (dimensionKeyToString (plan_key p d)) (t div WINDOW_MS (pd_window d)) (costForUnit c (pd_unit d)) rows
      else rows)"
  have r: "record_dimension t key c (plan_key p d) (Some rows) = Some r1"
    using record_dimension_rows [of c "plan_key p d"] assms by (simp add: r1_def plan_key_def)
  have z: "\<not> costForUnit c u > 0 \<Longrightarrow> costForUnit c u = 0" for u using assms by (meson antisym not_less)
  have s: "sum_bucket r1 (dimensionKeyToString (plan_key p d0)) b = sum_bucket rows (dimensionKeyToString (plan_key p d0)) b
      + (if b = t div WINDOW_MS (pd_window d0) \<and> same_dimension d0 d then costForUnit c (pd_unit d0) else 0)" for b
    using z [of "pd_unit d"] by (auto simp: r1_def sum_bucket_increment plan_key_inj same_dimension_def)
  from Cons [of r1] show ?case unfolding fold.simps comp_apply r using s by (auto simp: algebra_simps)
qed simp

section \<open>Requests one after the other\<close>

type_synonym quota_request = "int \<times> enforce_input \<times> request_cost"

definition serve :: "quota_env \<Rightarrow> rat \<Rightarrow> quota_db \<Rightarrow> quota_request \<Rightarrow> quota_db" where
  "serve env threshold db r =
     (case r of (t, i, c) \<Rightarrow>
        (case enforceQuotaShare env threshold t i db of
           EnAllow _ \<Rightarrow> recordConsumption env t i c db
         | EnBlock _ \<Rightarrow> db))"

text \<open>A request of a key that belongs to the pool, under the given plan, at a cost between 0 and \<open>m\<close> in the unit.\<close>

definition pool_request :: "quota_env \<Rightarrow> quota_pool \<Rightarrow> plan_dimension list \<Rightarrow> quota_unit \<Rightarrow> rat \<Rightarrow> quota_request \<Rightarrow> bool" where
  "pool_request env p plan u m r =
     (case r of (t, i, c) \<Rightarrow>
        (case qe_allocationsFor env (ei_apiKeyId i) of
           None \<Rightarrow> False
         | Some as \<Rightarrow> (case find_pool env (ei_connectionId i) as of None \<Rightarrow> False | Some (q, _) \<Rightarrow> q = p))
        \<and> qe_resolvePlan env (ei_connectionId i) (ei_provider i) = plan
        \<and> list_all (\<lambda>v. 0 \<le> costForUnit c v) [Percent, Requests, Tokens, Usd] \<and> costForUnit c u \<le> m)"

lemma allow_means_room:
  assumes "enforceQuotaShare env th t i db = EnAllow x"
    and "qe_allocationsFor env (ei_apiKeyId i) = Some as" and "find_pool env (ei_connectionId i) as = Some (p, a)"
    and "qe_resolvePlan env (ei_connectionId i) (ei_provider i) = plan"
    and "d0 \<in> set plan" and "pd_unit d0 \<noteq> Percent" and "pd_limit d0 > NUMBER_EPSILON"
  shows "or_zero (poolConsumedTotal t (plan_key p d0) db) < pd_limit d0 * accountCount p"
proof -
  let ?ds = "active_dimensions plan" and ?a = "a\<lparr>fa_weight := effectiveWeight p a\<rparr>"
  let ?m = "fold (\<lambda>d m. jm_set (dimensionKeyToString (plan_key p d))
     (or_zero (store_peek t (ei_apiKeyId i) (plan_key p d) db)) m) ?ds []"
  have ne: "plan \<noteq> []" using assms(5) by auto
  have "decideFairShare (map (dimension_info env t p i db) ?ds) ?a ?m th = FsAllow x"
    using assms(1-4) ne by (auto simp: enforceQuotaShare_def Let_def split: if_splits fs_decision.splits)
  then have "\<not> blocks ?a ?m th (dimension_info env t p i db d0)"
    by (rule allow_no_block) (use assms(5,7) in \<open>simp add: active_dimensions_def\<close>)
  then show ?thesis using assms(6) by (simp add: blocks_def dimension_info_def Let_def)
qed

lemma record_total:
  assumes i: "qe_allocationsFor env (ei_apiKeyId i) = Some as" "find_pool env (ei_connectionId i) as = Some (p, a)"
    and plan: "qe_resolvePlan env (ei_connectionId i) (ei_provider i) = plan"
    and once: "length (filter (same_dimension d0) plan) = 1" and c: "\<forall>u. 0 \<le> costForUnit c u"
  shows "\<exists>rows'. recordConsumption env t i c (Some rows) = Some rows'
    \<and> (\<forall>b. sum_bucket rows' (dimensionKeyToString (plan_key p d0)) b =
         sum_bucket rows (dimensionKeyToString (plan_key p d0)) b
         + (if b = t div WINDOW_MS (pd_window d0) then costForUnit c (pd_unit d0) else 0))"
proof -
  obtain r1 where r1: "fold (\<lambda>d. record_dimension t (ei_apiKeyId i) c (plan_key p d)) plan (Some rows) = Some r1"
    "\<And>b. sum_bucket r1 (dimensionKeyToString (plan_key p d0)) b =
       sum_bucket rows (dimensionKeyToString (plan_key p d0)) b
       + (if b = t div WINDOW_MS (pd_window d0) then costForUnit c (pd_unit d0) else 0)"
    using record_plan [OF c, of t "ei_apiKeyId i" p plan rows d0] once by auto
  have m: "\<exists>r2. record_dimension t (ei_apiKeyId i) c (model_key (qp_id p) m u) (Some r1) = Some r2
      \<and> (\<forall>b. sum_bucket r2 (dimensionKeyToString (plan_key p d0)) b = sum_bucket r1 (dimensionKeyToString (plan_key p d0)) b)" for m u
    using record_dimension_rows [of c "model_key (qp_id p) m u"] c model_key_other [of p m u d0]
    by (auto simp: sum_bucket_increment)
  have e: "recordConsumption env t i c (Some rows) =
      (case ei_model i of
         None \<Rightarrow> Some r1
       | Some md \<Rightarrow>
           if md = [] then Some r1
           else (case qe_getModelCap env (qp_id p) (ei_apiKeyId i) md of
                   Some (Some cap) \<Rightarrow>
                     if mc_capValue cap > NUMBER_EPSILON
                     then record_dimension t (ei_apiKeyId i) c (model_key (qp_id p) md (mc_capUnit cap)) (Some r1)
                     else Some r1
                 | _ \<Rightarrow> Some r1))"
    using i plan r1(1) by (simp add: recordConsumption_def Let_def split: option.split)
  have "\<exists>r2. recordConsumption env t i c (Some rows) = Some r2
      \<and> (\<forall>b. sum_bucket r2 (dimensionKeyToString (plan_key p d0)) b = sum_bucket r1 (dimensionKeyToString (plan_key p d0)) b)"
    unfolding e using m by (simp split: option.split)
  then show ?thesis using r1(2) by auto
qed

lemma serve_bound:
  assumes r: "pool_request env p plan (pd_unit d0) m (t, i, c)" and d0: "d0 \<in> set plan"
    and once: "length (filter (same_dimension d0) plan) = 1"
    and u: "pd_unit d0 \<noteq> Percent" and lim: "pd_limit d0 > NUMBER_EPSILON"
    and ok: "rows_ok rows (dimensionKeyToString (plan_key p d0)) (t div WINDOW_MS (pd_window d0))"
    and tot: "pool_total rows (dimensionKeyToString (plan_key p d0)) (WINDOW_MS (pd_window d0)) t \<le> pd_limit d0 * accountCount p + m"
  shows "\<exists>rows'. serve env th (Some rows) (t, i, c) = Some rows'
    \<and> rows_ok rows' (dimensionKeyToString (plan_key p d0)) (t div WINDOW_MS (pd_window d0))
    \<and> pool_total rows' (dimensionKeyToString (plan_key p d0)) (WINDOW_MS (pd_window d0)) t \<le> pd_limit d0 * accountCount p + m"
proof (cases "enforceQuotaShare env th t i (Some rows)")
  case (EnBlock x)
  then show ?thesis using ok tot by (simp add: serve_def)
next
  case (EnAllow x)
  obtain as a where f: "qe_allocationsFor env (ei_apiKeyId i) = Some as" "find_pool env (ei_connectionId i) as = Some (p, a)"
    and pl: "qe_resolvePlan env (ei_connectionId i) (ei_provider i) = plan"
    and cs: "list_all (\<lambda>v. 0 \<le> costForUnit c v) [Percent, Requests, Tokens, Usd]" "costForUnit c (pd_unit d0) \<le> m"
    using r by (auto simp: pool_request_def split: option.splits prod.splits)
  have c: "\<forall>v. 0 \<le> costForUnit c v"
  proof
    fix v show "0 \<le> costForUnit c v" using cs(1) by (cases v) simp_all
  qed
  have room: "pool_total rows (dimensionKeyToString (plan_key p d0)) (WINDOW_MS (pd_window d0)) t < pd_limit d0 * accountCount p"
    using allow_means_room [OF EnAllow f pl d0 u lim] by (simp add: poolConsumedTotal_total or_zero_def plan_key_def)
  obtain rows' where r': "recordConsumption env t i c (Some rows) = Some rows'"
    "\<And>b. sum_bucket rows' (dimensionKeyToString (plan_key p d0)) b =
       sum_bucket rows (dimensionKeyToString (plan_key p d0)) b
       + (if b = t div WINDOW_MS (pd_window d0) then costForUnit c (pd_unit d0) else 0)"
    using record_total [OF f pl once c] by blast
  have "rows_ok rows' (dimensionKeyToString (plan_key p d0)) (t div WINDOW_MS (pd_window d0))"
    using ok c by (simp add: rows_ok_def r'(2))
  moreover have "pool_total rows' (dimensionKeyToString (plan_key p d0)) (WINDOW_MS (pd_window d0)) t =
      pool_total rows (dimensionKeyToString (plan_key p d0)) (WINDOW_MS (pd_window d0)) t + costForUnit c (pd_unit d0)"
    by (simp add: pool_total_mod r'(2))
  ultimately show ?thesis using EnAllow r'(1) room cs(2) by (simp add: serve_def)
qed

section \<open>Properties\<close>

text \<open>C17. The pool's limit holds while the counters can be read: from empty counters on and with a store that answers throughout (a
  store that fails lets everything pass), whatever keys of a pool send requests one after the other, under whatever policies, weights
  and saturation signals, the sliding-window total of a dimension that is counted (not a percentage), occurs once in the plan and has
  a limit that is enforced (above \<open>NUMBER_EPSILON\<close>) never exceeds the pool's limit, the plan's limit times the number of accounts,
  by more than the largest cost of one request.\<close>

theorem pool_limit_overshoot_is_bounded:
  assumes "list_all (pool_request env p plan (pd_unit d0) m) rs" and "sorted (map fst rs)" and "0 \<le> m"
    and "d0 \<in> set plan" and "length (filter (same_dimension d0) plan) = 1"
    and "pd_unit d0 \<noteq> Percent" and "pd_limit d0 > NUMBER_EPSILON"
    and "list_all (\<lambda>r. fst r \<le> u) rs"
  shows "or_zero (poolConsumedTotal u (plan_key p d0) (run (serve env th) (Some []) rs)) \<le> pd_limit d0 * accountCount p + m"
proof -
  let ?dk = "dimensionKeyToString (plan_key p d0)" and ?w = "WINDOW_MS (pd_window d0)"
  have main: "\<exists>rows'. run (serve env th) (Some rows) rs = Some rows' \<and> pool_total rows' ?dk ?w u \<le> pd_limit d0 * accountCount p + m"
    if "rows_ok rows ?dk (t div ?w)" "pool_total rows ?dk ?w t \<le> pd_limit d0 * accountCount p + m" "t \<le> u"
      "list_all (\<lambda>r. t \<le> fst r) rs" for rows t
    using that assms(1,2,8)
  proof (induction rs arbitrary: rows t)
    case Nil
    then show ?case using pool_total_decays [OF Nil(1) WINDOW_MS_pos Nil(3)] by auto
  next
    case (Cons r rs)
    obtain t' i c where r: "r = (t', i, c)" by (cases r)
    have pr: "pool_request env p plan (pd_unit d0) m (t', i, c)" using Cons.prems(5) by (simp add: r)
    have tt: "t \<le> t'" "t' \<le> u" using Cons.prems by (simp_all add: r)
    have "rows_ok rows ?dk (t' div ?w)" using rows_ok_later [OF Cons.prems(1)] zdiv_mono1 [OF tt(1) WINDOW_MS_pos] by simp
    moreover have "pool_total rows ?dk ?w t' \<le> pd_limit d0 * accountCount p + m"
      using pool_total_decays [OF Cons.prems(1) WINDOW_MS_pos tt(1)] Cons.prems(2) by simp
    ultimately obtain rows' where s: "serve env th (Some rows) r = Some rows'" "rows_ok rows' ?dk (t' div ?w)"
      "pool_total rows' ?dk ?w t' \<le> pd_limit d0 * accountCount p + m"
      using serve_bound [OF pr assms(4-7)] unfolding r by blast
    have "list_all (\<lambda>r. t' \<le> fst r) rs" using Cons.prems(6) by (simp add: r list_all_iff)
    then show ?case using Cons.IH [OF s(2,3) tt(2)] Cons.prems(5-7) s(1) by (simp add: r)
  qed
  have ok: "rows_ok [] ?dk k" for k by (simp add: rows_ok_def sum_bucket_def)
  have "0 \<le> pd_limit d0" using assms(7) by (simp add: NUMBER_EPSILON_def)
  moreover have "0 \<le> accountCount p" by (simp add: accountCount_def split: option.splits)
  ultimately have tot: "pool_total [] ?dk ?w t \<le> pd_limit d0 * accountCount p + m" for t
    using assms(3) by (simp add: pool_total_mod sum_bucket_def)
  obtain rows' where "run (serve env th) (Some []) rs = Some rows'" "pool_total rows' ?dk ?w u \<le> pd_limit d0 * accountCount p + m"
  proof (cases rs)
    case Nil
    then show ?thesis using that tot by simp
  next
    case (Cons r rs')
    then have "list_all (\<lambda>x. fst r \<le> fst x) rs" "fst r \<le> u" using assms(2,8) by (simp_all add: list_all_iff)
    then show ?thesis using that main [OF ok tot] by blast
  qed
  then show ?thesis by (simp add: poolConsumedTotal_total or_zero_def plan_key_def)
qed

definition ex_pool :: quota_pool where
  "ex_pool = \<lparr>qp_id = ''P'', qp_connectionId = ''c1'', qp_connectionIds = Some [''c1'', ''c2''],
     qp_allocations = [(''k1'', \<lparr>fa_weight = 60, fa_capValue = None, fa_capUnit = None, fa_policy = Hard\<rparr>),
                       (''k2'', \<lparr>fa_weight = 40, fa_capValue = None, fa_capUnit = None, fa_policy = Burst\<rparr>)]\<rparr>"

definition ex_plan :: "plan_dimension list" where
  "ex_plan = [\<lparr>pd_unit = Requests, pd_window = Hourly, pd_limit = 1\<rparr>, \<lparr>pd_unit = Percent, pd_window = Weekly, pd_limit = 100\<rparr>]"

definition ex_quota_env :: quota_env where
  "ex_quota_env = \<lparr>qe_allocationsFor = (\<lambda>k. case map_of (qp_allocations ex_pool) k of None \<Rightarrow> Some [] | Some a \<Rightarrow> Some [(''P'', a)]),
     qe_getPool = (\<lambda>pid. if pid = ''P'' then Some (Some ex_pool) else Some None),
     qe_resolvePlan = (\<lambda>_ _. ex_plan), qe_getModelCap = (\<lambda>_ _ _. Some None), qe_getSaturation = (\<lambda>_ _ _. Some 0)\<rparr>"

definition ex_quota_request :: "int \<Rightarrow> string \<Rightarrow> quota_request" where
  "ex_quota_request t k = (t, \<lparr>ei_apiKeyId = k, ei_connectionId = ''c2'', ei_provider = ''glm'', ei_model = None\<rparr>,
     \<lparr>rc_tokens = Some 10, rc_usd = None, rc_requests = None\<rparr>)"

lemma pool_limit_overshoot_is_bounded_witness:
  "or_zero (poolConsumedTotal 9 (plan_key ex_pool (hd ex_plan)) (run (serve ex_quota_env (1 / 2)) (Some [])
     [ex_quota_request 1 ''k1'', ex_quota_request 2 ''k2'', ex_quota_request 3 ''k1''])) \<le> 3"
proof -
  let ?rs = "[ex_quota_request 1 ''k1'', ex_quota_request 2 ''k2'', ex_quota_request 3 ''k1'']"
  have r: "list_all (pool_request ex_quota_env ex_pool ex_plan (pd_unit (hd ex_plan)) 1) ?rs"
    by (simp add: pool_request_def ex_quota_request_def ex_quota_env_def ex_pool_def ex_plan_def pool_has_def costForUnit_def or_zero_def)
  show ?thesis
    using pool_limit_overshoot_is_bounded [OF r, of 9 "1 / 2"]
    by (simp add: ex_quota_request_def ex_plan_def ex_pool_def same_dimension_def NUMBER_EPSILON_def accountCount_def)
qed

end
