(* ===== verification/ComboFailures.thy ===== *)
theory ComboFailures
  imports Omni_Prelude
begin

text \<open>
  The per-session combo failure tracker, \<open>open-sse/services/combo/failureTracker.ts\<close>. Its table is an insertion-ordered
  map of counters; \<open>deleteSessionModelHistory\<close> is an effect of the reply, and the argument \<open>deleted\<close> says
  whether that call returned or threw. The outer \<open>try\<close> guards code that cannot throw.
\<close>

section \<open>State and operations\<close>

definition COMBO_FAILURE_THRESHOLD :: nat where "COMBO_FAILURE_THRESHOLD = 3"
definition COUNTER_TTL_MS :: int where "COUNTER_TTL_MS = 5 * 60 * 1000"
definition MAX_ENTRIES :: nat where "MAX_ENTRIES = 2000"

record failure_entry =
  fe_count :: nat
  fe_lastFailureAt :: int
  fe_pinClearedThisStreak :: bool

type_synonym failure_map = "(string, failure_entry) jsmap"

definition keyOf :: "string \<Rightarrow> string \<Rightarrow> string" where
  "keyOf sessionId comboName = sessionId @ ''::'' @ comboName"

text \<open>The first entry with the least time stamp.\<close>

fun oldest :: "failure_map \<Rightarrow> (string \<times> int) option \<Rightarrow> (string \<times> int) option" where
  "oldest [] best = best"
| "oldest ((k, e) # m) best =
     (if (case best of None \<Rightarrow> True | Some (_, t) \<Rightarrow> fe_lastFailureAt e < t)
      then oldest m (Some (k, fe_lastFailureAt e)) else oldest m best)"

lemma oldest_in: "oldest m best = Some (k, t) \<Longrightarrow> best = Some (k, t) \<or> k \<in> fst ` set m"
  by (induction m best rule: oldest.induct) (auto split: if_splits)

lemma oldest_some: "m \<noteq> [] \<or> best \<noteq> None \<Longrightarrow> oldest m best \<noteq> None"
proof (induction m best rule: oldest.induct)
  case (2 k e m best)
  then show ?case by (cases best) auto
qed auto

lemma length_del_member: "k \<in> fst ` set m \<Longrightarrow> length (jm_del k m) < length m"
proof (induction m)
  case (Cons p m)
  then show ?case by (cases "fst p = k") (auto simp: jm_del_def le_imp_less_Suc)
qed simp

function evict_over :: "failure_map \<Rightarrow> failure_map" where
  "evict_over m =
     (if length m > MAX_ENTRIES
      then (case oldest m None of None \<Rightarrow> m | Some (k, _) \<Rightarrow> evict_over (jm_del k m))
      else m)"
  by pat_completeness auto
termination
  by (relation "measure length") (auto dest!: oldest_in intro: length_del_member)

declare evict_over.simps [simp del]

definition cf_evict :: "int \<Rightarrow> failure_map \<Rightarrow> failure_map" where
  "cf_evict now m = evict_over (filter (\<lambda>(_, e). \<not> now - fe_lastFailureAt e > COUNTER_TTL_MS) m)"

text \<open>The reply: the count, whether the pin is reported cleared, and the deletion asked for.\<close>

record failure_reply =
  fr_count :: nat
  fr_pinClearedNow :: bool
  fr_delete :: "(string \<times> string) option"

definition recordComboFailure :: "int \<Rightarrow> string \<Rightarrow> string \<Rightarrow> bool \<Rightarrow> failure_map \<Rightarrow> failure_reply \<times> failure_map" where
  "recordComboFailure now sessionId comboName deleted m0 =
     (if sessionId = [] then (\<lparr>fr_count = 0, fr_pinClearedNow = False, fr_delete = None\<rparr>, m0)
      else (let m = cf_evict now m0; key = keyOf sessionId comboName; existing = jm_get m key;
                count = (case existing of None \<Rightarrow> 0 | Some e \<Rightarrow> fe_count e) + 1;
                clearedBefore = (case existing of None \<Rightarrow> False | Some e \<Rightarrow> fe_pinClearedThisStreak e);
                shouldClearNow = (count \<ge> COMBO_FAILURE_THRESHOLD \<and> \<not> clearedBefore);
                m' = jm_set key \<lparr>fe_count = count, fe_lastFailureAt = now,
                                  fe_pinClearedThisStreak = (shouldClearNow \<or> clearedBefore)\<rparr> m
            in (\<lparr>fr_count = count, fr_pinClearedNow = shouldClearNow,
                 fr_delete = (if shouldClearNow then Some (sessionId, comboName) else None)\<rparr>, m')))"

definition clearComboFailureTracking :: "string \<Rightarrow> string \<Rightarrow> failure_map \<Rightarrow> failure_map" where
  "clearComboFailureTracking sessionId comboName m =
     (if sessionId = [] then m else jm_del (keyOf sessionId comboName) m)"

definition getComboFailureCount :: "int \<Rightarrow> string \<Rightarrow> string \<Rightarrow> failure_map \<Rightarrow> nat" where
  "getComboFailureCount now sessionId comboName m =
     (if sessionId = [] then 0
      else (case jm_get m (keyOf sessionId comboName) of
              None \<Rightarrow> 0
            | Some e \<Rightarrow> if now - fe_lastFailureAt e > COUNTER_TTL_MS then 0 else fe_count e))"

section \<open>The table's bound\<close>

lemma evict_over_length: "length (evict_over m) \<le> MAX_ENTRIES"
proof (induction m rule: evict_over.induct)
  case (1 m)
  show ?case
  proof (cases "length m > MAX_ENTRIES")
    case True
    then have "m \<noteq> []" by auto
    then obtain k t where o: "oldest m None = Some (k, t)" using oldest_some [of m None] by (cases "oldest m None") auto
    then have "evict_over m = evict_over (jm_del k m)" using True by (subst evict_over.simps) simp
    then show ?thesis using 1 [OF True o refl] by simp
  next
    case False
    then show ?thesis by (subst evict_over.simps) simp
  qed
qed

lemma record_length: "length m \<le> Suc MAX_ENTRIES \<Longrightarrow> length (snd (recordComboFailure now s c d m)) \<le> Suc MAX_ENTRIES"
  using evict_over_length [of "filter (\<lambda>(_, e). \<not> now - fe_lastFailureAt e > COUNTER_TTL_MS) m"]
  by (auto simp: recordComboFailure_def cf_evict_def Let_def length_jm_set)

section \<open>Runs\<close>

datatype cf_event = Failed int string string bool | Succeeded string string

fun cf_step :: "cf_event \<Rightarrow> failure_map \<Rightarrow> failure_reply option \<times> failure_map" where
  "cf_step (Failed t s c d) m = (let (r, m') = recordComboFailure t s c d m in (Some r, m'))"
| "cf_step (Succeeded s c) m = (None, clearComboFailureTracking s c m)"

fun cf_run :: "cf_event list \<Rightarrow> failure_map \<Rightarrow> failure_reply option list" where
  "cf_run [] m = []"
| "cf_run (e # es) m = (let (r, m') = cf_step e m in r # cf_run es m')"

text \<open>What is promised: per key, the length of the current streak and the time of its last failure. The pin goes with the third
  failure of a streak and no other.\<close>

type_synonym streaks = "string \<Rightarrow> (nat \<times> int) option"

definition streak_length :: "int \<Rightarrow> (nat \<times> int) option \<Rightarrow> nat" where
  "streak_length t x = (case x of None \<Rightarrow> 1 | Some (n, u) \<Rightarrow> if t - u \<le> COUNTER_TTL_MS then n + 1 else 1)"

fun streak_step :: "cf_event \<Rightarrow> streaks \<Rightarrow> failure_reply option \<times> streaks" where
  "streak_step (Failed t s c d) f =
     (if s = [] then (Some \<lparr>fr_count = 0, fr_pinClearedNow = False, fr_delete = None\<rparr>, f)
      else (let n = streak_length t (f (keyOf s c))
            in (Some \<lparr>fr_count = n, fr_pinClearedNow = (n = 3), fr_delete = (if n = 3 then Some (s, c) else None)\<rparr>,
                f(keyOf s c := Some (n, t)))))"
| "streak_step (Succeeded s c) f = (None, if s = [] then f else f(keyOf s c := None))"

fun streak_run :: "cf_event list \<Rightarrow> streaks \<Rightarrow> failure_reply option list" where
  "streak_run [] f = []"
| "streak_run (e # es) f = (let (r, f') = streak_step e f in r # streak_run es f')"

fun event_key :: "cf_event \<Rightarrow> string" where
  "event_key (Failed t s c d) = keyOf s c"
| "event_key (Succeeded s c) = keyOf s c"

fun clock_from :: "int \<Rightarrow> cf_event list \<Rightarrow> bool" where
  "clock_from t [] = True"
| "clock_from t (Failed u s c d # es) \<longleftrightarrow> t \<le> u \<and> clock_from u es"
| "clock_from t (Succeeded s c # es) = clock_from t es"

definition streak_entry :: "nat \<Rightarrow> int \<Rightarrow> failure_entry" where
  "streak_entry n t = \<lparr>fe_count = n, fe_lastFailureAt = t, fe_pinClearedThisStreak = (n \<ge> 3)\<rparr>"

text \<open>The table holds every live streak, and nothing but streaks.\<close>

definition tracks :: "int \<Rightarrow> failure_map \<Rightarrow> streaks \<Rightarrow> bool" where
  "tracks now m f \<longleftrightarrow> jm_ok m
     \<and> (\<forall>k n u. f k = Some (n, u) \<longrightarrow> now - u \<le> COUNTER_TTL_MS \<longrightarrow> jm_get m k = Some (streak_entry n u))
     \<and> (\<forall>k e. jm_get m k = Some e \<longrightarrow> (\<exists>n u. f k = Some (n, u) \<and> e = streak_entry n u))"

definition live :: "int \<Rightarrow> failure_map \<Rightarrow> failure_map" where
  "live now m = filter (\<lambda>(_, e). \<not> now - fe_lastFailureAt e > COUNTER_TTL_MS) m"

lemma live_get:
  assumes "jm_ok m"
  shows "jm_get (live now m) k =
    (case jm_get m k of Some e \<Rightarrow> if now - fe_lastFailureAt e \<le> COUNTER_TTL_MS then Some e else None | None \<Rightarrow> None)"
proof -
  have "jm_get (live now m) k = Some e \<longleftrightarrow> jm_get m k = Some e \<and> now - fe_lastFailureAt e \<le> COUNTER_TTL_MS" for e
    using jm_get_mem [OF assms, of k e] jm_get_mem [of "live now m" k e] jm_ok_filter [OF assms]
    by (auto simp: live_def)
  note iff = this
  show ?thesis
  proof (cases "jm_get (live now m) k")
    case None
    then have "\<not> (\<exists>e. jm_get m k = Some e \<and> now - fe_lastFailureAt e \<le> COUNTER_TTL_MS)" using iff by fastforce
    with None show ?thesis by (simp split: option.split)
  next
    case (Some e)
    then show ?thesis using iff [of e] by simp
  qed
qed

lemma keys_bound:
  assumes "jm_ok m" and "set (jm_keys m) \<subseteq> K" and "finite K" and "card K \<le> MAX_ENTRIES"
  shows "length m \<le> MAX_ENTRIES"
  using assms card_mono [OF assms(3,2)] distinct_card [of "jm_keys m"] by (simp add: jm_ok_def)

lemma evict_live:
  assumes "length m \<le> MAX_ENTRIES"
  shows "cf_evict now m = live now m"
proof -
  have "length (live now m) \<le> MAX_ENTRIES" unfolding live_def by (rule order_trans [OF length_filter_le assms])
  then have "evict_over (live now m) = live now m" by (subst evict_over.simps) simp
  then show ?thesis by (simp add: cf_evict_def live_def)
qed

text \<open>After an eviction the table is the function of live streaks.\<close>

lemma tracked_streak:
  assumes "tracks t0 m f" and "t0 \<le> now"
  shows "jm_get (live now m) k =
    (case f k of Some (n, u) \<Rightarrow> if now - u \<le> COUNTER_TTL_MS then Some (streak_entry n u) else None | None \<Rightarrow> None)"
proof (cases "f k")
  case None
  then have "jm_get m k = None" using assms(1) unfolding tracks_def by (metis not_Some_eq option.distinct(1))
  with None show ?thesis using assms(1) by (simp add: tracks_def live_get)
next
  case (Some p)
  obtain n u where p: "p = (n, u)" by (cases p)
  show ?thesis
  proof (cases "now - u \<le> COUNTER_TTL_MS")
    case True
    then have "jm_get m k = Some (streak_entry n u)" using assms Some p by (auto simp: tracks_def)
    with Some p True show ?thesis using assms(1) by (simp add: tracks_def live_get streak_entry_def)
  next
    case False
    have "jm_get m k = None \<or> jm_get m k = Some (streak_entry n u)"
      using assms(1) Some p unfolding tracks_def by (metis (no_types, lifting) not_Some_eq option.inject prod.inject)
    then have "jm_get (live now m) k = None"
      using assms(1) False by (auto simp: tracks_def live_get streak_entry_def)
    with Some p False show ?thesis by simp
  qed
qed

lemma record_tracks:
  fixes s c :: string
  assumes T: "tracks t0 m f" and now: "t0 \<le> now" and len: "length m \<le> MAX_ENTRIES" and s: "s \<noteq> []"
  defines "n \<equiv> streak_length now (f (keyOf s c))"
  shows "recordComboFailure now s c d m =
      (\<lparr>fr_count = n, fr_pinClearedNow = (n = 3), fr_delete = (if n = 3 then Some (s, c) else None)\<rparr>,
       jm_set (keyOf s c) (streak_entry n now) (live now m))"
proof (cases "jm_get (live now m) (keyOf s c)")
  case None
  then have "n = 1" using tracked_streak [OF T now, of "keyOf s c"]
    by (auto simp: n_def streak_length_def split: option.splits if_splits)
  then show ?thesis using None s
    by (simp add: recordComboFailure_def evict_live [OF len] Let_def COMBO_FAILURE_THRESHOLD_def streak_entry_def)
next
  case (Some e)
  then obtain k u where "f (keyOf s c) = Some (k, u)" "now - u \<le> COUNTER_TTL_MS" "e = streak_entry k u"
    using tracked_streak [OF T now, of "keyOf s c"] by (auto split: option.splits if_splits)
  then show ?thesis using Some s
    by (auto simp: recordComboFailure_def evict_live [OF len] Let_def COMBO_FAILURE_THRESHOLD_def streak_entry_def
        n_def streak_length_def)
qed

lemma tracks_record:
  assumes T: "tracks t0 m f" and now: "t0 \<le> now"
  shows "tracks now (jm_set k (streak_entry n now) (live now m)) (f(k := Some (n, now)))"
proof -
  have ok: "jm_ok (live now m)" using T jm_ok_filter by (auto simp: tracks_def live_def)
  show ?thesis unfolding tracks_def
    using ok tracked_streak [OF T now] by (auto simp: split: option.splits if_splits)
qed

lemma tracks_clear: "tracks t0 m f \<Longrightarrow> tracks t0 (jm_del k m) (f(k := None))"
  by (auto simp: tracks_def split: if_splits)

lemma cf_run_streaks:
  assumes "tracks t0 m f" and "clock_from t0 es" and "set (jm_keys m) \<union> event_key ` set es \<subseteq> K"
    and "finite K" and "card K \<le> MAX_ENTRIES"
  shows "cf_run es m = streak_run es f"
  using assms(1-3)
proof (induction es arbitrary: t0 m f)
  case (Cons e es)
  have len: "length m \<le> MAX_ENTRIES"
    using keys_bound [of m K] Cons.prems assms(4,5) by (simp add: tracks_def)
  show ?case
  proof (cases e)
    case (Failed t s c d)
    have t: "t0 \<le> t" and clock: "clock_from t es" using Cons.prems(2) Failed by simp_all
    show ?thesis
    proof (cases "s = []")
      case True
      moreover have "clock_from t0 es" using t clock
        by (induction es rule: clock_from.induct) auto
      ultimately show ?thesis using Cons.IH [OF Cons.prems(1)] Cons.prems(3) Failed
        by (simp add: recordComboFailure_def)
    next
      case False
      let ?n = "streak_length t (f (keyOf s c))"
      have "set (jm_keys (jm_set (keyOf s c) (streak_entry ?n t) (live t m))) \<subseteq> insert (keyOf s c) (set (jm_keys m))"
        using Cons.prems(1) unfolding set_jm_keys by (auto simp: tracks_def live_get split: option.splits)
      moreover have "event_key ` set es \<subseteq> K" "insert (keyOf s c) (set (jm_keys m)) \<subseteq> K"
        using Cons.prems(3) Failed by auto
      ultimately have keys: "set (jm_keys (jm_set (keyOf s c) (streak_entry ?n t) (live t m))) \<union> event_key ` set es \<subseteq> K"
        by (simp only: Un_subset_iff) (meson order_trans)
      show ?thesis
        using Cons.IH [OF tracks_record [OF Cons.prems(1) t] clock keys] Failed False
        by (simp add: record_tracks [OF Cons.prems(1) t len False] Let_def fun_upd_def)
    qed
  next
    case (Succeeded s c)
    have "set (jm_keys (jm_del (keyOf s c) m)) \<subseteq> set (jm_keys m)" by (auto simp: jm_del_def)
    then show ?thesis
      using Cons.IH [OF tracks_clear [OF Cons.prems(1)]] Cons.IH [OF Cons.prems(1)] Cons.prems Succeeded
      by (auto simp: clearComboFailureTracking_def fun_upd_def)
  qed
qed simp

section \<open>Properties\<close>

text \<open>The deletions of the run return.\<close>

fun deletes_fine :: "cf_event \<Rightarrow> bool" where
  "deletes_fine (Failed t s c d) = d"
| "deletes_fine (Succeeded s c) = True"

text \<open>C37. With a clock that does not run backwards, at most two thousand session and combo pairs and deletions that return, the
  tracker answers every failure as the streaks do: the count of failures since the last success with no gap above five minutes, and
  the pin dropped, and reported as dropped, at the third failure of a streak and at no other.\<close>

theorem pin_drops_once_per_streak:
  assumes "clock_from t0 es" and "card (event_key ` set es) \<le> MAX_ENTRIES" and "list_all deletes_fine es"
  shows "cf_run es [] = streak_run es (\<lambda>_. None)"
  by (rule cf_run_streaks [OF _ assms(1) _ _ assms(2)]) (simp_all add: tracks_def)

definition ex_failures :: "cf_event list" where
  "ex_failures = [Failed 0 ''s'' ''c'' True, Failed 10 ''t'' ''c'' True, Failed 20 ''s'' ''c'' True, Failed 300020 ''s'' ''c'' True,
     Failed 300030 ''s'' ''c'' True, Succeeded ''s'' ''c'', Failed 300040 ''s'' ''c'' True]"

lemma pin_drops_once_per_streak_witness:
  "map (map_option fr_pinClearedNow) (cf_run ex_failures []) = [Some False, Some False, Some False, Some True, Some False, None, Some False]"
proof -
  have "clock_from 0 ex_failures" "list_all deletes_fine ex_failures" by (simp_all add: ex_failures_def)
  moreover have "card (event_key ` set ex_failures) \<le> MAX_ENTRIES"
    using card_image_le [of "set ex_failures" event_key] card_length [of ex_failures]
    by (simp add: MAX_ENTRIES_def ex_failures_def)
  ultimately have "cf_run ex_failures [] = streak_run ex_failures (\<lambda>_. None)" by (intro pin_drops_once_per_streak)
  then show ?thesis by (simp add: ex_failures_def streak_length_def keyOf_def COUNTER_TTL_MS_def Let_def)
qed

text \<open>A deletion that throws is reported as done and not tried again in the streak, though the comment of the code says otherwise.\<close>

lemma a_failed_deletion_counts_as_done:
  "map (map_option fr_pinClearedNow) (cf_run
     [Failed 0 ''s'' ''c'' True, Failed 1 ''s'' ''c'' True, Failed 2 ''s'' ''c'' False, Failed 3 ''s'' ''c'' True] [])
   = [Some False, Some False, Some True, Some False]"
  by code_simp

text \<open>The cap is enforced before the insertion, so the table can hold one entry more.\<close>

lemma table_bound: "length m \<le> Suc MAX_ENTRIES \<Longrightarrow> length (snd (cf_step e m)) \<le> Suc MAX_ENTRIES"
proof (cases e)
  case (Failed t s c d)
  assume "length m \<le> Suc MAX_ENTRIES"
  then show ?thesis using record_length [of m t s c d] Failed by (simp add: case_prod_unfold Let_def)
next
  case (Succeeded s c)
  assume "length m \<le> Suc MAX_ENTRIES"
  then show ?thesis using length_jm_del_le [of "keyOf s c" m] Succeeded by (simp add: clearComboFailureTracking_def)
qed

end
