(* ===== verification/CooldownRetry.thy ===== *)
theory CooldownRetry
  imports JsString
begin

text \<open>
  Waiting out a short cooldown: the decision for a combo (\<open>open-sse/services/combo/comboCooldownRetry.ts\<close>) with the
  loop around it in \<open>open-sse/services/combo.ts\<close>, and the decision for a single model
  (\<open>src/sse/services/cooldownAwareRetry.ts\<close>) with the loop in \<open>src/sse/handlers/chat.ts\<close>. What a dispatch comes to is
  a function of the attempt; \<open>Date\<close> parsing is an argument. The two loops share one contract, the locale \<open>wait_policy\<close>.
\<close>

section \<open>The combo's decision\<close>

definition COMBO_COOLDOWN_NON_RETRYABLE_REASONS :: "string list" where
  "COMBO_COOLDOWN_NON_RETRYABLE_REASONS = [''quota_exhausted'', ''auth_error'', ''not_found'', ''not_found_local'']"

definition COMBO_COOLDOWN_RETRYABLE_REASONS :: "string list" where
  "COMBO_COOLDOWN_RETRYABLE_REASONS = [''rate_limit'', ''rate_limited'', ''transient'', ''overloaded'', ''server_error'']"

record wait_settings =
  ws_enabled :: bool
  ws_maxWaitMs :: int
  ws_maxAttempts :: int
  ws_budgetMs :: int

text \<open>\<open>None\<close> stands for a value that is not a finite number.\<close>

definition toFiniteWaitMs :: "int option \<Rightarrow> int" where
  "toFiniteWaitMs v = (case v of Some w \<Rightarrow> if w > 0 then w else 0 | None \<Rightarrow> 0)"

definition isRetryableComboCooldownReason :: "string option \<Rightarrow> bool" where
  "isRetryableComboCooldownReason reason =
     (case reason of
        None \<Rightarrow> False
      | Some r \<Rightarrow> if r = [] then False
                  else if r \<in> set COMBO_COOLDOWN_NON_RETRYABLE_REASONS then False
                  else r \<in> set COMBO_COOLDOWN_RETRYABLE_REASONS)"

definition shouldWaitForComboCooldown :: "string option \<Rightarrow> int option \<Rightarrow> nat \<Rightarrow> int \<Rightarrow> wait_settings \<Rightarrow> bool \<times> int" where
  "shouldWaitForComboCooldown reason wait0 attempt budgetLeftMs s =
     (let waitMs = toFiniteWaitMs wait0
      in (ws_enabled s \<and> isRetryableComboCooldownReason reason \<and> waitMs > 0 \<and> waitMs \<le> ws_maxWaitMs s
          \<and> int attempt < ws_maxAttempts s \<and> budgetLeftMs \<ge> waitMs, waitMs))"

record lock_info =
  li_reason :: "string option"
  li_remainingMs :: "int option"

record cooldown_target =
  ct_provider :: "string option"
  ct_connectionId :: "string option"
  ct_modelStr :: "string option"

definition COMBO_COOLDOWN_WAIT_MARGIN_MS :: int where "COMBO_COOLDOWN_WAIT_MARGIN_MS = 50"

type_synonym lock_lookup = "string \<Rightarrow> string \<Rightarrow> cooldown_target \<Rightarrow> lock_info option"

text \<open>One turn of the loop over the targets: the lock of the target, if it has one that is still running.\<close>

definition running_lock :: "lock_lookup \<Rightarrow> cooldown_target \<Rightarrow> (string option \<times> int) option" where
  "running_lock look t =
     (let provider = (case ct_provider t of None \<Rightarrow> [] | Some p \<Rightarrow> p)
      in if provider = [] then None
         else (case look provider (case ct_connectionId t of None \<Rightarrow> [] | Some c \<Rightarrow> c) t of
                 None \<Rightarrow> None
               | Some i \<Rightarrow>
                   (let r = (case li_remainingMs i of None \<Rightarrow> 0 | Some m \<Rightarrow> m)
                    in if r \<le> 0 then None else Some (li_reason i, r))))"

definition soonest :: "lock_lookup \<Rightarrow> cooldown_target list \<Rightarrow> (string option \<times> int) option" where
  "soonest look ts =
     fold (\<lambda>t best. case running_lock look t of
             None \<Rightarrow> best
           | Some l \<Rightarrow> (case best of None \<Rightarrow> Some l | Some b \<Rightarrow> if snd l < snd b then Some l else best)) ts None"

definition resolveComboCooldownWaitDecision ::
  "cooldown_target list \<Rightarrow> int option \<Rightarrow> nat \<Rightarrow> int \<Rightarrow> wait_settings \<Rightarrow> lock_lookup \<Rightarrow> bool \<times> int \<times> string option" where
  "resolveComboCooldownWaitDecision targets hint attempt budgetLeftMs s look =
     (if \<not> ws_enabled s then (False, 0, None)
      else (case soonest look targets of
              None \<Rightarrow> (False, 0, None)
            | Some (reason, remainingMs) \<Rightarrow>
                (let hintWaitMs = (case hint of Some h \<Rightarrow> if h > 0 then h else 0 | None \<Rightarrow> 0);
                     waitMs = max remainingMs hintWaitMs + COMBO_COOLDOWN_WAIT_MARGIN_MS;
                     (w, ms) = shouldWaitForComboCooldown reason (Some waitMs) attempt budgetLeftMs s
                 in (w, ms, reason))))"

section \<open>The single model's decision\<close>

definition MAX_REQUEST_RETRY :: int where "MAX_REQUEST_RETRY = 10"
definition MAX_RETRY_INTERVAL_SEC :: int where "MAX_RETRY_INTERVAL_SEC = 300"
definition MAX_BUDGET_MS :: int where "MAX_BUDGET_MS = 5 * 60 * 1000"

record retry_settings =
  rs_enabled :: bool
  rs_maxRetries :: int
  rs_maxRetryWaitSec :: int
  rs_maxRetryWaitMs :: int
  rs_budgetMs :: int

text \<open>A setting as it is stored: a number, a text with its \<open>Number(text)\<close>, anything else.\<close>

datatype raw_setting = RawNumber "rat option" | RawText string "rat option" | RawOther

definition js_trunc :: "rat \<Rightarrow> int" where
  "js_trunc q = (if q < 0 then \<lceil>q\<rceil> else \<lfloor>q\<rfloor>)"

definition normalizeInteger :: "raw_setting \<Rightarrow> int \<Rightarrow> int \<Rightarrow> int \<Rightarrow> int" where
  "normalizeInteger v fallback lo hi =
     (case v of
        RawNumber (Some q) \<Rightarrow> min hi (max lo (js_trunc q))
      | RawText s (Some q) \<Rightarrow> if js_trim s = [] then fallback else min hi (max lo (js_trunc q))
      | _ \<Rightarrow> fallback)"

record wait_for_cooldown =
  wc_enabled :: bool
  wc_maxRetries :: int
  wc_maxRetryWaitSec :: int
  wc_budgetMs :: int

definition resolveCooldownAwareRetrySettings :: "wait_for_cooldown \<Rightarrow> retry_settings" where
  "resolveCooldownAwareRetrySettings w =
     (let num = (\<lambda>n. RawNumber (Some (of_int n)));
          maxRetries = normalizeInteger (num (wc_maxRetries w)) (wc_maxRetries w) 0 MAX_REQUEST_RETRY;
          maxRetryWaitSec = normalizeInteger (num (wc_maxRetryWaitSec w)) (wc_maxRetryWaitSec w) 0 MAX_RETRY_INTERVAL_SEC;
          maxRetryWaitMs = maxRetryWaitSec * 1000;
          budgetMs = normalizeInteger (num (wc_budgetMs w)) (wc_budgetMs w) maxRetryWaitMs MAX_BUDGET_MS
      in \<lparr>rs_enabled = (wc_enabled w \<and> maxRetries > 0 \<and> maxRetryWaitSec > 0), rs_maxRetries = maxRetries,
          rs_maxRetryWaitSec = maxRetryWaitSec, rs_maxRetryWaitMs = maxRetryWaitMs, rs_budgetMs = budgetMs\<rparr>)"

definition disableCooldownAwareRetry :: "retry_settings \<Rightarrow> bool \<Rightarrow> retry_settings" where
  "disableCooldownAwareRetry s disabled =
     (if \<not> disabled then s
      else s\<lparr>rs_enabled := False, rs_maxRetries := 0, rs_maxRetryWaitSec := 0, rs_maxRetryWaitMs := 0, rs_budgetMs := 0\<rparr>)"

text \<open>The hint is empty, or parses to a time or not; only the distance to it is used by the decision.\<close>

definition computeClosestRetryAfter :: "('r \<Rightarrow> int option) \<Rightarrow> int \<Rightarrow> 'r option \<Rightarrow> int option" where
  "computeClosestRetryAfter parse now retryAfter =
     (case retryAfter of
        None \<Rightarrow> None
      | Some r \<Rightarrow> (case parse r of None \<Rightarrow> None | Some t \<Rightarrow> Some (max (t - now) 0)))"

definition getCooldownAwareRetryDecision :: "int option \<Rightarrow> retry_settings \<Rightarrow> nat \<Rightarrow> int option \<Rightarrow> bool \<times> int" where
  "getCooldownAwareRetryDecision closest s attempt budgetLeftMs =
     (let left = (case budgetLeftMs of None \<Rightarrow> rs_budgetMs s | Some b \<Rightarrow> b)
      in case closest of
           None \<Rightarrow> (False, 0)
         | Some w \<Rightarrow>
             if \<not> rs_enabled s \<or> rs_maxRetries s \<le> 0 \<or> rs_maxRetryWaitMs s \<le> 0 \<or> int attempt \<ge> rs_maxRetries s then (False, 0)
             else if w > rs_maxRetryWaitMs s \<or> w > left then (False, w)
             else (True, w))"

section \<open>The loops\<close>

text \<open>
  A dispatch either settles the request or leaves it with what the decision looks at; a wait can be cut short by the
  client. The loop is a \<open>while\<close> over attempts whose end is not evident from its text, so it is a partial function.
\<close>

datatype loop_end = Settled | GivenUp | WaitAborted

partial_function (option) wait_loop ::
  "(nat \<Rightarrow> int \<Rightarrow> 'x \<Rightarrow> int option) \<Rightarrow> (nat \<Rightarrow> 'x option) \<Rightarrow> (nat \<Rightarrow> bool) \<Rightarrow> nat \<Rightarrow> int \<Rightarrow> (int list \<times> loop_end) option" where
  "wait_loop decide dispatch aborts attempt budget =
     (case dispatch attempt of
        None \<Rightarrow> Some ([], Settled)
      | Some x \<Rightarrow>
          (case decide attempt budget x of
             None \<Rightarrow> Some ([], GivenUp)
           | Some w \<Rightarrow>
               if aborts attempt then Some ([w], WaitAborted)
               else Option.bind (wait_loop decide dispatch aborts (attempt + 1) (max 0 (budget - w)))
                      (\<lambda>(ws, e). Some (w # ws, e))))"

text \<open>What the combo looks at after a failed pass: its targets, the retry-after hint and the locks.\<close>

type_synonym combo_failure = "cooldown_target list \<times> int option \<times> lock_lookup"

definition combo_decide :: "wait_settings \<Rightarrow> nat \<Rightarrow> int \<Rightarrow> combo_failure option \<Rightarrow> int option" where
  "combo_decide s attempt budget x =
     (case x of
        None \<Rightarrow> None
      | Some (targets, hint, look) \<Rightarrow>
          if \<not> ws_enabled s then None
          else (let (w, ms, _) = resolveComboCooldownWaitDecision targets hint attempt budget s look
                in if w then Some ms else None))"

text \<open>\<open>None\<close> inside a failed dispatch: there was no retry-after hint.\<close>

definition dispatchWithCooldownRetry ::
  "wait_settings \<Rightarrow> (nat \<Rightarrow> combo_failure option option) \<Rightarrow> (nat \<Rightarrow> bool) \<Rightarrow> (int list \<times> loop_end) option" where
  "dispatchWithCooldownRetry s dispatch aborts = wait_loop (combo_decide s) dispatch aborts 0 (ws_budgetMs s)"

text \<open>What the chat handler looks at when every connection is cooling down: the clock and the retry-after time.\<close>

definition chat_decide :: "('r \<Rightarrow> int option) \<Rightarrow> retry_settings \<Rightarrow> nat \<Rightarrow> int \<Rightarrow> int \<times> 'r option \<Rightarrow> int option" where
  "chat_decide parse s attempt budget x =
     (let (retry, ms) = getCooldownAwareRetryDecision (computeClosestRetryAfter parse (fst x) (snd x)) s attempt (Some budget)
      in if retry then Some ms else None)"

definition requestAttemptLoop ::
  "('r \<Rightarrow> int option) \<Rightarrow> retry_settings \<Rightarrow> (nat \<Rightarrow> (int \<times> 'r option) option) \<Rightarrow> (nat \<Rightarrow> bool) \<Rightarrow> (int list \<times> loop_end) option" where
  "requestAttemptLoop parse s dispatch aborts = wait_loop (chat_decide parse s) dispatch aborts 0 (rs_budgetMs s)"

section \<open>The shared contract\<close>

locale wait_policy =
  fixes decide :: "nat \<Rightarrow> int \<Rightarrow> 'x \<Rightarrow> int option"
    and attempts :: int
    and least_ms :: int
    and ceiling_ms :: int
  assumes least_nonneg: "0 \<le> least_ms"
    and decide_least: "decide a b x = Some w \<Longrightarrow> least_ms \<le> w"
    and decide_budget: "decide a b x = Some w \<Longrightarrow> w \<le> b"
    and decide_ceiling: "decide a b x = Some w \<Longrightarrow> w \<le> ceiling_ms"
    and decide_attempts: "decide a b x = Some w \<Longrightarrow> int a < attempts"
begin

lemma loop_returns:
  assumes "0 \<le> budget"
  shows "\<exists>ws e. wait_loop decide dispatch aborts attempt budget = Some (ws, e)
    \<and> sum_list ws \<le> budget \<and> int (length ws) \<le> max 0 (attempts - int attempt) \<and> (\<forall>w\<in>set ws. least_ms \<le> w \<and> w \<le> ceiling_ms)"
  using assms
proof (induction "nat (attempts - int attempt)" arbitrary: attempt budget rule: less_induct)
  case less
  show ?case
  proof (cases "dispatch attempt")
    case None
    then show ?thesis using less.prems by (subst wait_loop.simps) simp
  next
    case (Some x)
    note dx = this
    show ?thesis
    proof (cases "decide attempt budget x")
      case None
      then show ?thesis using less.prems dx by (subst wait_loop.simps) simp
    next
      case (Some w)
      note law = order_trans [OF least_nonneg decide_least [OF Some]] decide_least [OF Some] decide_budget [OF Some] decide_ceiling [OF Some] decide_attempts [OF Some]
      show ?thesis
      proof (cases "aborts attempt")
        case True
        then show ?thesis using dx Some law by (subst wait_loop.simps) simp
      next
        case False
        have "nat (attempts - int (attempt + 1)) < nat (attempts - int attempt)" using law by simp
        from less.hyps [OF this, of "max 0 (budget - w)"] obtain ws e where
          IH: "wait_loop decide dispatch aborts (attempt + 1) (max 0 (budget - w)) = Some (ws, e)"
            "sum_list ws \<le> budget - w" "int (length ws) \<le> max 0 (attempts - int (attempt + 1))"
            "\<forall>w\<in>set ws. least_ms \<le> w \<and> w \<le> ceiling_ms"
          using law by auto
        then have "wait_loop decide dispatch aborts attempt budget = Some (w # ws, e)"
          using dx Some False by (subst wait_loop.simps) simp
        moreover have "int (length (w # ws)) \<le> max 0 (attempts - int attempt)" using IH(3) law by simp
        ultimately show ?thesis using IH law by auto
      qed
    qed
  qed
qed

end

section \<open>The combo keeps the contract\<close>

lemma soonest_snoc:
  "soonest look (ts @ [t]) =
     (case running_lock look t of
        None \<Rightarrow> soonest look ts
      | Some l \<Rightarrow> (case soonest look ts of None \<Rightarrow> Some l | Some b \<Rightarrow> if snd l < snd b then Some l else Some b))"
  by (simp add: soonest_def split: option.split)

lemma soonest_least:
  assumes "soonest look ts = Some (r, m)"
  shows "0 < m \<and> (\<exists>t\<in>set ts. running_lock look t = Some (r, m)) \<and> (\<forall>t\<in>set ts. \<forall>l. running_lock look t = Some l \<longrightarrow> m \<le> snd l)"
  using assms
proof (induction ts arbitrary: r m rule: rev_induct)
  case Nil
  then show ?case by (simp add: soonest_def)
next
  case (snoc t ts)
  have pos: "0 < snd l" if "running_lock look t = Some l" for l
    using that by (auto simp: running_lock_def Let_def split: if_splits option.splits)
  show ?case
  proof (cases "soonest look ts")
    case None
    then have "\<forall>t\<in>set ts. running_lock look t = None"
    proof (induction ts rule: rev_induct)
      case (snoc u us)
      then show ?case by (auto simp: soonest_snoc split: option.splits if_splits)
    qed simp
    with None snoc.prems pos show ?thesis by (auto simp: soonest_snoc split: option.splits)
  next
    case (Some b)
    with snoc.IH [of "fst b" "snd b"] snoc.prems pos show ?thesis
      by (auto simp: soonest_snoc split: option.splits if_splits)
  qed
qed

lemma soonest_None: "soonest look ts = None \<longleftrightarrow> (\<forall>t\<in>set ts. running_lock look t = None)"
proof (induction ts rule: rev_induct)
  case (snoc u us)
  then show ?case by (auto simp: soonest_snoc split: option.splits)
qed (simp add: soonest_def)

text \<open>A wait outlasts the lock that ends first and the hint, and is made for transient reasons only.\<close>

lemma decision_waits:
  assumes "resolveComboCooldownWaitDecision ts hint attempt budget s look = (True, ms, reason)"
  shows "ws_enabled s \<and> reason \<in> Some ` set COMBO_COOLDOWN_RETRYABLE_REASONS \<and> ms \<le> ws_maxWaitMs s \<and> ms \<le> budget
    \<and> int attempt < ws_maxAttempts s
    \<and> (\<exists>m. soonest look ts = Some (reason, m) \<and> 0 < m \<and> m + COMBO_COOLDOWN_WAIT_MARGIN_MS \<le> ms)
    \<and> (\<forall>h. hint = Some h \<longrightarrow> h + COMBO_COOLDOWN_WAIT_MARGIN_MS \<le> ms)"
proof -
  obtain m where m: "soonest look ts = Some (reason, m)" and en: "ws_enabled s"
    using assms by (auto simp: resolveComboCooldownWaitDecision_def Let_def split: if_splits option.splits prod.splits)
  have "0 < m" using soonest_least [OF m] by simp
  with assms m en show ?thesis
    by (auto simp: resolveComboCooldownWaitDecision_def shouldWaitForComboCooldown_def toFiniteWaitMs_def Let_def
        isRetryableComboCooldownReason_def split: option.splits if_splits)
qed

lemma combo_decide_waits:
  assumes "combo_decide s a b x = Some w"
  shows "COMBO_COOLDOWN_WAIT_MARGIN_MS < w" "w \<le> b" "w \<le> ws_maxWaitMs s" "int a < ws_maxAttempts s"
proof -
  obtain ts hint look reason where "resolveComboCooldownWaitDecision ts hint a b s look = (True, w, reason)"
    using assms by (auto simp: combo_decide_def Let_def split: option.splits if_splits prod.splits)
  from decision_waits [OF this] show "COMBO_COOLDOWN_WAIT_MARGIN_MS < w" "w \<le> b" "w \<le> ws_maxWaitMs s" "int a < ws_maxAttempts s"
    by auto
qed

interpretation combo_wait: wait_policy "combo_decide s" "ws_maxAttempts s" "COMBO_COOLDOWN_WAIT_MARGIN_MS + 1" "ws_maxWaitMs s" for s
  by unfold_locales (auto dest: combo_decide_waits simp: COMBO_COOLDOWN_WAIT_MARGIN_MS_def)

lemma chat_decide_waits:
  assumes "chat_decide parse s a b x = Some w"
  shows "0 \<le> w \<and> w \<le> b \<and> w \<le> rs_maxRetryWaitMs s \<and> int a < rs_maxRetries s"
  using assms
  by (auto simp: chat_decide_def getCooldownAwareRetryDecision_def computeClosestRetryAfter_def Let_def
      split: option.splits if_splits)

interpretation chat_wait: wait_policy "chat_decide parse s" "rs_maxRetries s" 0 "rs_maxRetryWaitMs s" for parse s
  by unfold_locales (use chat_decide_waits in \<open>blast | simp\<close>)+

text \<open>The settings the chat handler works with are in range, whatever is stored.\<close>

lemma js_trunc_of_int [simp]: "js_trunc (of_int n) = n"
  by (simp add: js_trunc_def)

lemma resolved_settings:
  "0 \<le> rs_budgetMs (resolveCooldownAwareRetrySettings w)"
  "rs_budgetMs (resolveCooldownAwareRetrySettings w) \<le> MAX_BUDGET_MS"
  "0 \<le> rs_maxRetries (resolveCooldownAwareRetrySettings w)"
  "rs_maxRetries (resolveCooldownAwareRetrySettings w) \<le> MAX_REQUEST_RETRY"
  "rs_maxRetryWaitMs (resolveCooldownAwareRetrySettings w) \<le> MAX_RETRY_INTERVAL_SEC * 1000"
  by (simp_all add: resolveCooldownAwareRetrySettings_def normalizeInteger_def Let_def MAX_REQUEST_RETRY_def
      MAX_RETRY_INTERVAL_SEC_def MAX_BUDGET_MS_def)

section \<open>Properties\<close>

text \<open>C25. Whatever the dispatches come to and whenever the client aborts, the combo's loop ends; it waits at most
  \<open>maxAttempts\<close> times, each time longer than the safety margin and no longer than \<open>maxWaitMs\<close>, and in all no longer than
  the budget.\<close>

theorem combo_waits_are_bounded:
  assumes "0 \<le> ws_budgetMs s"
  shows "\<exists>ws e. dispatchWithCooldownRetry s dispatch aborts = Some (ws, e)
    \<and> sum_list ws \<le> ws_budgetMs s \<and> int (length ws) \<le> max 0 (ws_maxAttempts s) \<and> (\<forall>w\<in>set ws. COMBO_COOLDOWN_WAIT_MARGIN_MS < w \<and> w \<le> ws_maxWaitMs s)"
  using combo_wait.loop_returns [OF assms, of s dispatch aborts 0] by (simp add: dispatchWithCooldownRetry_def add1_zle_eq)

text \<open>Whatever settings are stored, the chat handler's loop ends, after at most ten waits that together take at most
  five minutes.\<close>

theorem chat_waits_are_bounded:
  "\<exists>ws e. requestAttemptLoop parse (resolveCooldownAwareRetrySettings w) dispatch aborts = Some (ws, e)
    \<and> sum_list ws \<le> 5 * 60 * 1000 \<and> length ws \<le> 10"
  using chat_wait.loop_returns [OF resolved_settings(1), of parse "resolveCooldownAwareRetrySettings w" dispatch aborts 0 w]
    resolved_settings(2-4) [of w]
  by (fastforce simp: requestAttemptLoop_def MAX_BUDGET_MS_def MAX_REQUEST_RETRY_def)

definition ex_wait :: wait_settings where
  "ex_wait = \<lparr>ws_enabled = True, ws_maxWaitMs = 5000, ws_maxAttempts = 2, ws_budgetMs = 8000\<rparr>"

definition ex_combo_failure :: combo_failure where
  "ex_combo_failure =
     ([\<lparr>ct_provider = Some ''openai'', ct_connectionId = Some ''a'', ct_modelStr = Some ''m''\<rparr>], Some 1000,
      \<lambda>_ _ _. Some \<lparr>li_reason = Some ''rate_limit'', li_remainingMs = Some 3000\<rparr>)"

lemma combo_waits_are_bounded_witness:
  "dispatchWithCooldownRetry ex_wait (\<lambda>_. Some (Some ex_combo_failure)) (\<lambda>_. False) = Some ([3050, 3050], GivenUp)
   \<and> sum_list [3050, 3050] \<le> ws_budgetMs ex_wait"
proof -
  have d: "combo_decide ex_wait a b (Some ex_combo_failure) = (if a < 2 \<and> 3050 \<le> b then Some 3050 else None)" for a b
    by (simp add: combo_decide_def ex_wait_def ex_combo_failure_def resolveComboCooldownWaitDecision_def soonest_def
        running_lock_def shouldWaitForComboCooldown_def toFiniteWaitMs_def isRetryableComboCooldownReason_def
        COMBO_COOLDOWN_NON_RETRYABLE_REASONS_def COMBO_COOLDOWN_RETRYABLE_REASONS_def COMBO_COOLDOWN_WAIT_MARGIN_MS_def)
  have run: "dispatchWithCooldownRetry ex_wait (\<lambda>_. Some (Some ex_combo_failure)) (\<lambda>_. False) = Some ([3050, 3050], GivenUp)"
    by (simp add: dispatchWithCooldownRetry_def wait_loop.simps d) (simp add: ex_wait_def)
  show ?thesis
    using combo_waits_are_bounded [of ex_wait "\<lambda>_. Some (Some ex_combo_failure)" "\<lambda>_. False"] run
    by (simp add: ex_wait_def)
qed

end
