(* ===== verification/RoundRobin.thy ===== *)
theory RoundRobin
  imports Omni_Prelude
begin

text \<open>
  Sticky round robin over the units of a combo: the counters and bindings of \<open>open-sse/services/combo/rrState.ts\<close>, and the
  round-robin and weighted branches of \<open>orderRuntimeUnits\<close> and \<open>recordRuntimeUnitStickySuccess\<close> in
  \<open>open-sse/services/combo/dispatchPrelude.ts\<close>. A unit is its execution key.
\<close>

section \<open>State\<close>

definition MAX_RR_COUNTERS :: nat where "MAX_RR_COUNTERS = 500"

record sticky =
  st_executionKey :: string
  st_successCount :: nat

record rr_state =
  rr_counters :: "(string, nat) jsmap"
  rr_stickyTargets :: "(string, sticky) jsmap"
  rr_weightedTargets :: "(string, sticky) jsmap"

definition new_rr :: rr_state where
  "new_rr = \<lparr>rr_counters = [], rr_stickyTargets = [], rr_weightedTargets = []\<rparr>"

text \<open>\<open>Number(value)\<close>, \<open>None\<close> when it is not finite.\<close>

definition clampStickyRoundRobinTargetLimit :: "rat option \<Rightarrow> nat" where
  "clampStickyRoundRobinTargetLimit v =
     (case v of None \<Rightarrow> 1 | Some q \<Rightarrow> nat (min (max \<lfloor>q\<rfloor> 1) 1000))"

text \<open>A setting that is absent (\<open>undefined\<close> or \<open>null\<close>), or present with its \<open>Number\<close>.\<close>

definition resolveComboStickyRoundRobinLimit :: "rat option option \<Rightarrow> rat option option \<Rightarrow> rat option option \<Rightarrow> nat" where
  "resolveComboStickyRoundRobinLimit perCombo comboSticky global =
     (case perCombo of
        Some v \<Rightarrow> clampStickyRoundRobinTargetLimit v
      | None \<Rightarrow>
          (case comboSticky of
             Some v \<Rightarrow> clampStickyRoundRobinTargetLimit v
           | None \<Rightarrow> clampStickyRoundRobinTargetLimit (case global of None \<Rightarrow> None | Some v \<Rightarrow> v)))"

section \<open>Operations\<close>

fun findIndex :: "string \<Rightarrow> string list \<Rightarrow> nat option" where
  "findIndex k [] = None"
| "findIndex k (x # xs) = (if x = k then Some 0 else map_option Suc (findIndex k xs))"

definition counter_of :: "string \<Rightarrow> rr_state \<Rightarrow> nat" where
  "counter_of c s = (case jm_get (rr_counters s) c of None \<Rightarrow> 0 | Some n \<Rightarrow> n)"

text \<open>Start index and counter; with no targets the index is \<open>counter % 0\<close>, which is \<open>NaN\<close>.\<close>

definition getStickyRoundRobinStartIndex :: "string \<Rightarrow> string list \<Rightarrow> nat \<Rightarrow> rr_state \<Rightarrow> nat option \<times> nat" where
  "getStickyRoundRobinStartIndex c targets stickyLimit s =
     (let counter = counter_of c s;
          rotated = (if targets = [] then None else Some (counter mod length targets))
      in case jm_get (rr_stickyTargets s) c of
           None \<Rightarrow> (rotated, counter)
         | Some st \<Rightarrow>
             (case findIndex (st_executionKey st) targets of
                Some i \<Rightarrow> if stickyLimit > 1 \<and> st_successCount st < stickyLimit then (Some i, counter) else (rotated, counter)
              | None \<Rightarrow> (rotated, counter)))"

definition success_count :: "sticky option \<Rightarrow> string \<Rightarrow> nat" where
  "success_count st k = (case st of None \<Rightarrow> 1 | Some x \<Rightarrow> if st_executionKey x = k then st_successCount x + 1 else 1)"

definition recordStickyRoundRobinSuccess :: "string \<Rightarrow> string \<Rightarrow> nat \<Rightarrow> string list \<Rightarrow> rr_state \<Rightarrow> rr_state" where
  "recordStickyRoundRobinSuccess c key stickyLimit targets s =
     (let n = success_count (jm_get (rr_stickyTargets s) c) key
      in if n \<ge> stickyLimit
         then s\<lparr>rr_counters := jm_set c (case findIndex key targets of Some i \<Rightarrow> i + 1 | None \<Rightarrow> counter_of c s + 1) (rr_counters s),
                rr_stickyTargets := jm_del c (rr_stickyTargets s)\<rparr>
         else s\<lparr>rr_stickyTargets := jm_set c \<lparr>st_executionKey = key, st_successCount = n\<rparr> (rr_stickyTargets s)\<rparr>)"

definition getStickyWeightedExecutionKey :: "string \<Rightarrow> nat \<Rightarrow> rr_state \<Rightarrow> string option" where
  "getStickyWeightedExecutionKey c stickyLimit s =
     (case jm_get (rr_weightedTargets s) c of
        None \<Rightarrow> None
      | Some st \<Rightarrow> if stickyLimit \<le> 1 \<or> st_successCount st \<ge> stickyLimit then None else Some (st_executionKey st))"

definition recordStickyWeightedSuccess :: "string \<Rightarrow> string \<Rightarrow> nat \<Rightarrow> rr_state \<Rightarrow> rr_state" where
  "recordStickyWeightedSuccess c key stickyLimit s =
     (let n = success_count (jm_get (rr_weightedTargets s) c) key
      in if n \<ge> stickyLimit then s\<lparr>rr_weightedTargets := jm_del c (rr_weightedTargets s)\<rparr>
         else s\<lparr>rr_weightedTargets := jm_set c \<lparr>st_executionKey = key, st_successCount = n\<rparr> (rr_weightedTargets s)\<rparr>)"

text \<open>The round-robin branch of \<open>orderRuntimeUnits\<close>; a \<open>NaN\<close> start leaves the empty list empty.\<close>

definition orderRoundRobin :: "string \<Rightarrow> string list \<Rightarrow> nat \<Rightarrow> rr_state \<Rightarrow> string list \<times> rr_state" where
  "orderRoundRobin c units limit s =
     (let (start, counter) = getStickyRoundRobinStartIndex c units limit s;
          s' = (if limit \<le> 1 then s\<lparr>rr_counters := jm_set c (counter + 1) (rr_counters s)\<rparr> else s)
      in (case start of
            None \<Rightarrow> []
          | Some i \<Rightarrow> map (\<lambda>offset. units ! ((i + offset) mod length units)) [0..<length units], s'))"

text \<open>The weighted branch: a bound unit goes first and the rest keeps its order, as with priorities.\<close>

definition orderWeighted :: "string \<Rightarrow> string list \<Rightarrow> nat \<Rightarrow> rr_state \<Rightarrow> string list \<times> bool" where
  "orderWeighted c units limit s =
     (case getStickyWeightedExecutionKey c limit s of
        None \<Rightarrow> (units, False)
      | Some k \<Rightarrow> if k \<in> set units then (k # filter (\<lambda>u. u \<noteq> k) units, True) else (units, False))"

text \<open>\<open>recordRuntimeUnitStickySuccess\<close>: the unit that answered, if one did.\<close>

definition recordRoundRobin :: "string \<Rightarrow> string option \<Rightarrow> nat \<Rightarrow> string list \<Rightarrow> rr_state \<Rightarrow> rr_state" where
  "recordRoundRobin c served limit targets s =
     (case served of None \<Rightarrow> s | Some k \<Rightarrow> if limit > 1 then recordStickyRoundRobinSuccess c k limit targets s else s)"

definition recordWeighted :: "string \<Rightarrow> string option \<Rightarrow> nat \<Rightarrow> rr_state \<Rightarrow> rr_state" where
  "recordWeighted c served limit s =
     (case served of None \<Rightarrow> s | Some k \<Rightarrow> if limit > 1 then recordStickyWeightedSuccess c k limit s else s)"

text \<open>The bookkeeping of \<open>handleRoundRobinCombo\<close> before a start index is taken: the oldest counter makes room.\<close>

definition reserve_counter :: "string \<Rightarrow> rr_state \<Rightarrow> rr_state" where
  "reserve_counter c s =
     (let s1 = (if \<not> jm_has (rr_counters s) c \<and> \<not> jm_has (rr_stickyTargets s) c \<and> length (rr_counters s) \<ge> MAX_RR_COUNTERS
                then (case rr_counters s of
                        [] \<Rightarrow> s
                      | (oldest, _) # _ \<Rightarrow>
                          s\<lparr>rr_counters := jm_del oldest (rr_counters s), rr_stickyTargets := jm_del oldest (rr_stickyTargets s)\<rparr>)
                else s)
      in if \<not> jm_has (rr_counters s1) c then s1\<lparr>rr_counters := jm_set c 0 (rr_counters s1)\<rparr> else s1)"

text \<open>The start of the rotation of \<open>handleRoundRobinCombo\<close> for a request
  without a conversation or cache binding, while the bound target is available (else the binding is deleted first).\<close>

definition startRoundRobin :: "string \<Rightarrow> string list \<Rightarrow> nat \<Rightarrow> rr_state \<Rightarrow> nat option \<times> rr_state" where
  "startRoundRobin c targets limit s0 =
     (let s = reserve_counter c s0; (start, counter) = getStickyRoundRobinStartIndex c targets limit s
      in (start, if limit > 1 then s else s\<lparr>rr_counters := jm_set c (counter + 1) (rr_counters s)\<rparr>))"

text \<open>Its bookkeeping when the target at \<open>modelIndex\<close> has served.\<close>

definition servedRoundRobin :: "string \<Rightarrow> nat \<Rightarrow> nat \<Rightarrow> string list \<Rightarrow> rr_state \<Rightarrow> rr_state" where
  "servedRoundRobin c modelIndex limit targets s =
     (if limit > 1 then recordStickyRoundRobinSuccess c (targets ! modelIndex) limit targets s
      else s\<lparr>rr_counters := jm_set c (modelIndex + 1) (rr_counters s)\<rparr>)"

text \<open>\<open>rotateLeadingTies\<close> of \<open>combo/quotaStrategies.ts\<close>, which keeps its counters in the same map.\<close>

definition rotateLeadingTies :: "string list \<Rightarrow> string list \<Rightarrow> string \<Rightarrow> rr_state \<Rightarrow> string list \<times> rr_state" where
  "rotateLeadingTies scored tied key s =
     (let (front, s') =
        (if length tied > 1
         then (let counter = counter_of key s;
                   m = (if \<not> jm_has (rr_counters s) key \<and> length (rr_counters s) \<ge> MAX_RR_COUNTERS
                        then (case rr_counters s of [] \<Rightarrow> [] | (oldest, _) # _ \<Rightarrow> jm_del oldest (rr_counters s)) else rr_counters s);
                   startIndex = counter mod length tied
               in (drop startIndex tied @ take startIndex tied, s\<lparr>rr_counters := jm_set key (counter + 1) m\<rparr>))
         else (tied, s))
      in (front @ filter (\<lambda>t. t \<notin> set front) scored, s'))"

section \<open>Orders\<close>

lemma findIndex_nth: "distinct ts \<Longrightarrow> i < length ts \<Longrightarrow> findIndex (ts ! i) ts = Some i"
proof (induction ts arbitrary: i)
  case (Cons t ts)
  then show ?case by (cases i) (auto simp: nth_Cons')
qed simp

lemma order_rotates:
  "fst (orderRoundRobin c units limit s) =
     (case fst (getStickyRoundRobinStartIndex c units limit s) of None \<Rightarrow> [] | Some i \<Rightarrow> rotate i units)"
proof -
  have "map (\<lambda>offset. units ! ((i + offset) mod length units)) [0..<length units] = rotate i units" for i
    by (rule nth_equalityI) (simp_all add: nth_rotate)
  then show ?thesis by (simp add: orderRoundRobin_def Let_def case_prod_unfold split: option.split)
qed

lemma order_permutes: "mset (fst (orderRoundRobin c units limit s)) = mset units"
proof -
  have "fst (getStickyRoundRobinStartIndex c units limit s) = None \<Longrightarrow> units = []"
    by (auto simp: getStickyRoundRobinStartIndex_def Let_def split: option.splits if_splits)
  moreover have "mset (rotate i units) = mset units" for i
    by (simp add: rotate_drop_take) (metis append_take_drop_id mset_append union_commute)
  ultimately show ?thesis by (auto simp: order_rotates split: option.split)
qed

lemma weighted_order_permutes: "distinct units \<Longrightarrow> mset (fst (orderWeighted c units limit s)) = mset units"
proof -
  assume "distinct units"
  then have "mset (k # filter (\<lambda>u. u \<noteq> k) units) = mset units" if "k \<in> set units" for k
    using that by (simp add: set_eq_iff_mset_eq_distinct [symmetric] del: mset.simps) auto
  then show ?thesis by (auto simp: orderWeighted_def split: option.split)
qed

section \<open>Requests in a row\<close>

text \<open>What happens to the shared maps: a combo orders its units and its first unit answers, a combo goes through
  \<open>handleRoundRobinCombo\<close> and its first target answers, or a quota strategy rotates its ties.\<close>

datatype rr_event = Ordered string | Rotated string | Ties string "string list"

fun rr_key :: "rr_event \<Rightarrow> string" where
  "rr_key (Ordered c) = c"
| "rr_key (Rotated c) = c"
| "rr_key (Ties key _) = key"

text \<open>The units and the limit of a combo, and the step with the unit that answered, if it was a request.\<close>

type_synonym rr_config = "string \<Rightarrow> string list \<times> nat"

fun rr_step :: "rr_config \<Rightarrow> rr_event \<Rightarrow> rr_state \<Rightarrow> string option \<times> rr_state" where
  "rr_step cfg (Ordered c) s =
     (let (units, limit) = cfg c; (order, s1) = orderRoundRobin c units limit s
      in (Some (hd order), recordRoundRobin c (Some (hd order)) limit units s1))"
| "rr_step cfg (Rotated c) s =
     (let (units, limit) = cfg c; (start, s1) = startRoundRobin c units limit s
      in case start of None \<Rightarrow> (None, s1) | Some i \<Rightarrow> (Some (units ! i), servedRoundRobin c i limit units s1))"
| "rr_step cfg (Ties key tied) s = (None, snd (rotateLeadingTies tied tied key s))"

fun rr_run :: "rr_config \<Rightarrow> rr_event list \<Rightarrow> rr_state \<Rightarrow> (string \<times> string) list" where
  "rr_run cfg [] s = []"
| "rr_run cfg (e # es) s =
     (let (u, s') = rr_step cfg e s in (case u of None \<Rightarrow> [] | Some x \<Rightarrow> [(rr_key e, x)]) @ rr_run cfg es s')"

text \<open>After \<open>i\<close> requests in batches of \<open>L\<close>, from counter \<open>k\<close>: the cursor and the place in the batch.\<close>

definition at_request :: "string \<Rightarrow> string list \<Rightarrow> nat \<Rightarrow> nat \<Rightarrow> nat \<Rightarrow> rr_state \<Rightarrow> bool" where
  "at_request c units L k i s \<longleftrightarrow>
     (if i mod L = 0
      then jm_get (rr_stickyTargets s) c = None \<and> counter_of c s mod length units = (k + i div L) mod length units
      else jm_get (rr_stickyTargets s) c =
             Some \<lparr>st_executionKey = units ! ((k + i div L) mod length units), st_successCount = i mod L\<rparr>)"

lemma start_at:
  assumes "distinct units" and "units \<noteq> []" and "1 \<le> L" and "at_request c units L k i s"
  shows "fst (getStickyRoundRobinStartIndex c units L s) = Some ((k + i div L) mod length units)"
proof (cases "i mod L = 0")
  case True
  then show ?thesis using assms by (simp add: getStickyRoundRobinStartIndex_def at_request_def Let_def)
next
  case False
  then have "1 < L" using assms(3) by (cases "L = 1") auto
  moreover have "i mod L < L" using assms(3) by simp
  moreover have "L \<noteq> Suc 0" using \<open>1 < L\<close> by simp
  ultimately show ?thesis using assms False
    by (simp add: getStickyRoundRobinStartIndex_def at_request_def Let_def findIndex_nth)
qed

lemma served_at:
  assumes "distinct units" and "units \<noteq> []" and "1 \<le> L" and "at_request c units L k i s"
  shows "hd (fst (orderRoundRobin c units L s)) = units ! ((k + i div L) mod length units)"
  using start_at [OF assms] assms(2) by (simp add: order_rotates hd_rotate_conv_nth)

lemma order_state:
  "snd (orderRoundRobin c units L s) =
     (if L \<le> 1 then s\<lparr>rr_counters := jm_set c (counter_of c s + 1) (rr_counters s)\<rparr> else s)"
proof -
  have "snd (getStickyRoundRobinStartIndex c units L s) = counter_of c s"
    by (auto simp: getStickyRoundRobinStartIndex_def Let_def split: option.splits)
  then show ?thesis by (simp add: orderRoundRobin_def Let_def case_prod_unfold)
qed

lemma batch_advance: "1 \<le> (L::nat) \<Longrightarrow> Suc i div L = (if Suc (i mod L) = L then Suc (i div L) else i div L)"
  "1 \<le> L \<Longrightarrow> Suc i mod L = (if Suc (i mod L) = L then 0 else Suc (i mod L))"
  by (simp_all add: div_Suc mod_Suc)

text \<open>A success of the unit at the cursor moves on by one request.\<close>

lemma record_advances:
  assumes ok: "distinct units" "units \<noteq> []" "1 < L" and at: "at_request c units L k i s"
  shows "at_request c units L k (Suc i) (recordStickyRoundRobinSuccess c (units ! ((k + i div L) mod length units)) L units s)"
proof -
  let ?u = "units ! ((k + i div L) mod length units)"
  have find: "findIndex ?u units = Some ((k + i div L) mod length units)" using ok by (simp add: findIndex_nth)
  show ?thesis
  proof (cases "i mod L = 0")
    case True
    then show ?thesis using at ok(3)
      by (simp add: at_request_def recordStickyRoundRobinSuccess_def success_count_def Let_def batch_advance)
  next
    case False
    have "L \<le> Suc (i mod L) \<longleftrightarrow> Suc (i mod L) = L" using ok(3) mod_less_divisor [of L i] by linarith
    then show ?thesis using False at ok(3)
      by (auto simp: at_request_def recordStickyRoundRobinSuccess_def success_count_def Let_def
          batch_advance find counter_of_def mod_Suc_eq)
  qed
qed

text \<open>No more names are in use than the map has room for.\<close>

definition has_room :: "string set \<Rightarrow> rr_state \<Rightarrow> bool" where
  "has_room K s \<longleftrightarrow> finite K \<and> card K \<le> MAX_RR_COUNTERS \<and> jm_ok (rr_counters s)
     \<and> (\<forall>k. jm_get (rr_counters s) k \<noteq> None \<longrightarrow> k \<in> K)"

lemma has_room_keys: "has_room K s \<Longrightarrow> set (jm_keys (rr_counters s)) \<subseteq> K"
  by (auto simp only: has_room_def set_jm_keys)

lemma has_room_length: "has_room K s \<Longrightarrow> c \<in> K \<Longrightarrow> \<not> jm_has (rr_counters s) c \<Longrightarrow> length (rr_counters s) < MAX_RR_COUNTERS"
proof -
  assume r: "has_room K s" "c \<in> K" "\<not> jm_has (rr_counters s) c"
  then have "set (jm_keys (rr_counters s)) \<subset> K" using has_room_keys [OF r(1)] by (auto simp only: jm_has_keys)
  then have "card (set (jm_keys (rr_counters s))) < card K" using r(1) by (auto simp: has_room_def intro: psubset_card_mono)
  then show ?thesis using r(1) by (simp add: has_room_def jm_ok_def distinct_card del: set_map)
qed

lemma has_room_set: "has_room K s \<Longrightarrow> c \<in> K \<Longrightarrow> has_room K (s\<lparr>rr_counters := jm_set c n (rr_counters s)\<rparr>)"
  by (auto simp: has_room_def)

lemma has_room_same: "has_room K s \<Longrightarrow> rr_counters s' = rr_counters s \<Longrightarrow> has_room K s'"
  by (simp add: has_room_def)

lemma reserve_roomy:
  assumes "has_room K s" and "c \<in> K"
  shows "reserve_counter c s = (if jm_has (rr_counters s) c then s else s\<lparr>rr_counters := jm_set c 0 (rr_counters s)\<rparr>)"
  using has_room_length [OF assms] by (auto simp: reserve_counter_def Let_def)

lemma has_room_record: "has_room K s \<Longrightarrow> c \<in> K \<Longrightarrow> has_room K (recordStickyRoundRobinSuccess c u L units s)"
  by (auto simp: recordStickyRoundRobinSuccess_def Let_def intro: has_room_same [OF has_room_set, of K s c] has_room_same [of K s])

lemma has_room_step: "has_room K s \<Longrightarrow> rr_key e \<in> K \<Longrightarrow> has_room K (snd (rr_step cfg e s))"
proof (cases e)
  case (Ordered c)
  assume "has_room K s" "rr_key e \<in> K"
  then show ?thesis using Ordered
    by (auto simp: case_prod_unfold Let_def order_state recordRoundRobin_def has_room_set intro: has_room_record has_room_set)
next
  case (Rotated c)
  assume r: "has_room K s" "rr_key e \<in> K"
  then have "has_room K (reserve_counter c s)" using Rotated by (simp add: reserve_roomy has_room_set)
  then have "has_room K (snd (startRoundRobin c units L s))" for units L
    using r Rotated by (auto simp: startRoundRobin_def case_prod_unfold Let_def has_room_set)
  then show ?thesis using r Rotated
    by (auto simp: case_prod_unfold Let_def servedRoundRobin_def has_room_set intro: has_room_record split: option.split)
next
  case (Ties key tied)
  assume r: "has_room K s" "rr_key e \<in> K"
  then show ?thesis using Ties has_room_length [OF r(1), of key]
    by (auto simp: rotateLeadingTies_def case_prod_unfold Let_def has_room_set)
qed

lemma at_request_cong:
  "jm_get (rr_stickyTargets s') c = jm_get (rr_stickyTargets s) c \<Longrightarrow> counter_of c s' = counter_of c s
   \<Longrightarrow> at_request c units L k i s' = at_request c units L k i s"
  by (simp add: at_request_def)

lemma reserve_at_request: "has_room K s \<Longrightarrow> d \<in> K \<Longrightarrow> at_request c units L k i (reserve_counter d s) = at_request c units L k i s"
  by (rule at_request_cong) (auto simp: reserve_roomy counter_of_def jm_has_def)

lemma request_advances:
  assumes ok: "distinct units" "units \<noteq> []" "1 \<le> L" and at: "at_request c units L k i s" and cfg: "cfg c = (units, L)"
    and room: "has_room K s" "c \<in> K" and e: "e = Ordered c \<or> e = Rotated c"
  shows "fst (rr_step cfg e s) = Some (units ! ((k + i div L) mod length units))
    \<and> at_request c units L k (Suc i) (snd (rr_step cfg e s))"
proof -
  let ?i = "(k + i div L) mod length units"
  have served: "hd (fst (orderRoundRobin c units L s)) = units ! ?i" by (rule served_at [OF ok at])
  have at1: "at_request c units L k i (reserve_counter c s)" using at reserve_at_request [OF room] by simp
  have start: "fst (getStickyRoundRobinStartIndex c units L (reserve_counter c s)) = Some ?i" by (rule start_at [OF ok at1])
  have one: "at_request c units L k (Suc i) s'" if "L = 1" "jm_get (rr_stickyTargets s') c = jm_get (rr_stickyTargets s) c"
    "counter_of c s' mod length units = Suc (k + i) mod length units" for s'
    using that at by (simp add: at_request_def)
  have eager: "Suc (counter_of c s) mod length units = Suc (k + i) mod length units" if "L = 1"
    using that at by (simp add: at_request_def) (metis mod_Suc_eq)
  show ?thesis
  proof (cases "L = 1")
    case True
    then show ?thesis using e served start cfg one eager
      by (auto simp: case_prod_unfold Let_def recordRoundRobin_def order_state startRoundRobin_def servedRoundRobin_def
          counter_of_def reserve_roomy [OF room] mod_Suc_eq)
  next
    case False
    then have L: "1 < L" using ok(3) by simp
    show ?thesis using e served start cfg L record_advances [OF ok(1,2) L at] record_advances [OF ok(1,2) L at1]
      by (auto simp: case_prod_unfold Let_def recordRoundRobin_def order_state startRoundRobin_def servedRoundRobin_def)
  qed
qed

lemma record_other:
  "d \<noteq> c \<Longrightarrow> jm_get (rr_stickyTargets (recordStickyRoundRobinSuccess d u L units s)) c = jm_get (rr_stickyTargets s) c"
  "d \<noteq> c \<Longrightarrow> counter_of c (recordStickyRoundRobinSuccess d u L units s) = counter_of c s"
  by (simp_all add: recordStickyRoundRobinSuccess_def Let_def counter_of_def)

lemma other_request:
  assumes "rr_key e \<noteq> c" and room: "has_room K s" "rr_key e \<in> K"
  shows "at_request c units L k i (snd (rr_step cfg e s)) \<longleftrightarrow> at_request c units L k i s"
proof (rule at_request_cong)
  have r: "jm_get (rr_counters (reserve_counter (rr_key e) s)) c = jm_get (rr_counters s) c"
    "rr_stickyTargets (reserve_counter (rr_key e) s) = rr_stickyTargets s"
    using assms by (auto simp: reserve_roomy)
  note defs = case_prod_unfold Let_def order_state recordRoundRobin_def startRoundRobin_def servedRoundRobin_def
  have "jm_get (rr_stickyTargets (snd (rr_step cfg e s))) c = jm_get (rr_stickyTargets s) c
      \<and> counter_of c (snd (rr_step cfg e s)) = counter_of c s"
  proof (cases e)
    case (Ordered d)
    then show ?thesis using assms(1) by (simp add: defs record_other) (simp add: counter_of_def)
  next
    case (Rotated d)
    then show ?thesis using assms(1) r by (simp add: defs record_other split: option.split) (simp add: counter_of_def)
  next
    case (Ties d tied)
    then show ?thesis using assms(1) has_room_length [OF room] by (auto simp: rotateLeadingTies_def case_prod_unfold Let_def counter_of_def)
  qed
  then show "jm_get (rr_stickyTargets (snd (rr_step cfg e s))) c = jm_get (rr_stickyTargets s) c"
    and "counter_of c (snd (rr_step cfg e s)) = counter_of c s" by blast+
qed

definition requests_of :: "string \<Rightarrow> rr_event list \<Rightarrow> nat" where
  "requests_of c es = length (filter (\<lambda>e. rr_key e = c) es)"

definition no_ties :: "string \<Rightarrow> rr_event list \<Rightarrow> bool" where
  "no_ties c es = list_all (\<lambda>e. case e of Ties key _ \<Rightarrow> key \<noteq> c | _ \<Rightarrow> True) es"

lemma run_batches:
  assumes "distinct units" and "units \<noteq> []" and "1 \<le> L" and "cfg c = (units, L)" and "at_request c units L k i s"
    and "has_room K s" and "rr_key ` set es \<subseteq> K" and "no_ties c es"
  shows "map snd (filter (\<lambda>p. fst p = c) (rr_run cfg es s)) =
    map (\<lambda>j. units ! ((k + j div L) mod length units)) [i..<i + requests_of c es]"
  using assms(5-8)
proof (induction es arbitrary: i s)
  case (Cons e es)
  obtain u s' where st: "rr_step cfg e s = (u, s')" by (cases "rr_step cfg e s")
  have room: "has_room K s'" using has_room_step [OF Cons.prems(2), of e cfg] Cons.prems(3) st by simp
  show ?case
  proof (cases "rr_key e = c")
    case True
    then have "e = Ordered c \<or> e = Rotated c" using Cons.prems(4) by (cases e) (auto simp: no_ties_def)
    then have u: "u = Some (units ! ((k + i div L) mod length units))" and at: "at_request c units L k (Suc i) s'"
      using request_advances [where cfg = cfg and e = e, OF assms(1-3) Cons.prems(1) assms(4) Cons.prems(2)] Cons.prems(3) True st by auto
    have "rr_key ` set es \<subseteq> K" "no_ties c es" using Cons.prems(3,4) by (simp_all add: no_ties_def)
    note IH = Cons.IH [OF at room this]
    have n: "requests_of c (e # es) = Suc (requests_of c es)" using True by (simp add: requests_of_def)
    have l: "[i..<i + requests_of c (e # es)] = i # [Suc i..<Suc i + requests_of c es]" unfolding n by (subst upt_conv_Cons) simp_all
    show ?thesis unfolding l using True st by (simp add: IH u del: upt_Suc add_Suc)
  next
    case False
    have "rr_key e \<in> K" using Cons.prems(3) by simp
    from other_request [OF False Cons.prems(2) this, of units L k i cfg] have "at_request c units L k i s'"
      using Cons.prems(1) st by simp
    moreover have "rr_key ` set es \<subseteq> K" "no_ties c es" using Cons.prems(3,4) by (simp_all add: no_ties_def)
    moreover have "requests_of c (e # es) = requests_of c es" using False by (simp add: requests_of_def)
    ultimately show ?thesis using Cons.IH [OF _ room] False st by (cases u) (simp_all del: upt_Suc)
  qed
qed (simp add: requests_of_def)

section \<open>Properties\<close>

text \<open>C36. Sticky rotation: when a combo with fixed units, all of them available, and a fixed sticky limit starts without a stored
  binding, and its requests come one after the other, carry no conversation or cache binding and are each answered by the first unit of
  their order, they go to its units in turn, in batches of exactly the limit, from the stored counter on, through either entry point;
  other combos and tied quota strategies, under names of their own, may use the shared maps in between, as long as no more names are in
  use than the map of counters holds (beyond that it evicts, \<open>a_full_map_evicts_another_combo\<close>).\<close>

theorem sticky_round_robin_serves_batches:
  assumes "distinct units" and "units \<noteq> []" and "1 \<le> L" and "cfg c = (units, L)"
    and "jm_get (rr_stickyTargets s) c = None" and "no_ties c es" and "jm_ok (rr_counters s)"
    and "length (remdups (map fst (rr_counters s) @ map rr_key es)) \<le> MAX_RR_COUNTERS"
  shows "map snd (filter (\<lambda>p. fst p = c) (rr_run cfg es s)) =
    map (\<lambda>i. units ! ((counter_of c s + i div L) mod length units)) [0..<requests_of c es]"
proof -
  let ?K = "set (map fst (rr_counters s) @ map rr_key es)"
  have "card ?K \<le> MAX_RR_COUNTERS" using assms(8) by (simp only: length_remdups_card_conv)
  moreover have "k \<in> ?K" if "jm_get (rr_counters s) k \<noteq> None" for k
    using that set_jm_keys [of "rr_counters s"] by (simp del: set_map)
  ultimately have "has_room ?K s" using assms(7) by (simp add: has_room_def del: set_map set_append map_append)
  moreover have "rr_key ` set es \<subseteq> ?K" by auto
  moreover have "at_request c units L (counter_of c s) 0 s" using assms(5) by (simp add: at_request_def)
  ultimately show ?thesis using run_batches [where cfg = cfg, OF assms(1-4) _ _ _ assms(6)] by fastforce
qed

definition ex_units :: rr_config where
  "ex_units c = (if c = ''a'' then ([''x'', ''y''], 2) else ([''z''], 1))"

lemma sticky_round_robin_serves_batches_witness:
  "map snd (filter (\<lambda>p. fst p = ''a'') (rr_run ex_units
     [Rotated ''a'', Ordered ''b'', Ordered ''a'', Rotated ''b'', Ordered ''a'', Ties ''t'' [''x'', ''y''], Rotated ''a'', Ordered ''a''] new_rr)) =
    [''x'', ''x'', ''y'', ''y'', ''x'']"
proof -
  let ?es = "[Rotated ''a'', Ordered ''b'', Ordered ''a'', Rotated ''b'', Ordered ''a'', Ties ''t'' [''x'', ''y''], Rotated ''a'', Ordered ''a'']"
  have "map snd (filter (\<lambda>p. fst p = ''a'') (rr_run ex_units ?es new_rr)) =
      map (\<lambda>i. [''x'', ''y''] ! ((counter_of ''a'' new_rr + i div 2) mod length [''x'', ''y''])) [0..<requests_of ''a'' ?es]"
    by (rule sticky_round_robin_serves_batches)
      (simp_all add: ex_units_def new_rr_def no_ties_def MAX_RR_COUNTERS_def jm_ok_def)
  then show ?thesis by (simp add: counter_of_def new_rr_def upt_rec requests_of_def)
qed

text \<open>With the map full, a request of a new combo takes the counter and the binding of the oldest one away.\<close>

lemma a_full_map_evicts_another_combo:
  assumes "length (rr_counters s) = MAX_RR_COUNTERS" and "rr_counters s = (c, n) # rest"
    and "\<not> jm_has (rr_counters s) d" and "\<not> jm_has (rr_stickyTargets s) d"
  shows "jm_get (rr_stickyTargets (reserve_counter d s)) c = None \<and> counter_of c (reserve_counter d s) = 0"
  using assms by (auto simp: reserve_counter_def Let_def counter_of_def split: if_splits)

end
