(* ===== verification/LockoutPolicy.thy ===== *)
theory LockoutPolicy
  imports Omni_Prelude
begin

text \<open>
  Lockout after repeated failures, \<open>src/domain/lockoutPolicy.ts\<close>, with its table in
  \<open>src/lib/db/domainState.ts\<close>.

  The cache is the \<open>lockoutCache\<close> map; the table is a map too, \<open>None\<close> while the database is not ready,
  when every access of it throws and is caught. The attempts go through \<open>JSON.stringify\<close> and back unchanged: they are
  integers.
\<close>

record lock_config =
  lc_maxAttempts :: int
  lc_lockoutDurationMs :: int
  lc_attemptWindowMs :: int

definition DEFAULT_CONFIG :: lock_config where
  "DEFAULT_CONFIG = \<lparr>lc_maxAttempts = 5, lc_lockoutDurationMs = 15 * 60 * 1000, lc_attemptWindowMs = 5 * 60 * 1000\<rparr>"

record lock_entry =
  lk_attempts :: "int list"
  lk_lockedUntil :: "int option"

record lockouts =
  lk_cache :: "(string, lock_entry) jsmap"
  lk_db :: "(string, lock_entry) jsmap option"

record lock_reply =
  lr_locked :: bool
  lr_remainingMs :: "int option"
  lr_attempts :: "int option"

section \<open>The table\<close>

definition saveLockoutState :: "string \<Rightarrow> lock_entry \<Rightarrow> (string, lock_entry) jsmap option \<Rightarrow> (string, lock_entry) jsmap option" where
  "saveLockoutState i e db = map_option (jm_set i e) db"

definition loadLockoutState :: "string \<Rightarrow> (string, lock_entry) jsmap option \<Rightarrow> lock_entry option" where
  "loadLockoutState i db = (case db of None \<Rightarrow> None | Some m \<Rightarrow> jm_get m i)"

definition deleteLockoutState :: "string \<Rightarrow> (string, lock_entry) jsmap option \<Rightarrow> (string, lock_entry) jsmap option" where
  "deleteLockoutState i db = map_option (jm_del i) db"

definition loadAllLockedIdentifiers :: "int \<Rightarrow> (string, lock_entry) jsmap option \<Rightarrow> (string \<times> int) list" where
  "loadAllLockedIdentifiers now db =
     (case db of
        None \<Rightarrow> []
      | Some m \<Rightarrow> [(i, the (lk_lockedUntil e)). (i, e) \<leftarrow> m, lk_lockedUntil e \<noteq> None, the (lk_lockedUntil e) > now, i \<noteq> []])"

section \<open>The policy\<close>

definition lk_getState :: "string \<Rightarrow> lockouts \<Rightarrow> lock_entry option \<times> lockouts" where
  "lk_getState i s =
     (case jm_get (lk_cache s) i of
        Some e \<Rightarrow> (Some e, s)
      | None \<Rightarrow>
          (case loadLockoutState i (lk_db s) of
             Some e \<Rightarrow> (Some e, s\<lparr>lk_cache := jm_set i e (lk_cache s)\<rparr>)
           | None \<Rightarrow> (None, s)))"

definition lk_persistState :: "string \<Rightarrow> lock_entry \<Rightarrow> lockouts \<Rightarrow> lockouts" where
  "lk_persistState i e s =
     s\<lparr>lk_cache := jm_set i e (lk_cache s), lk_db := saveLockoutState i e (lk_db s)\<rparr>"

definition recent :: "int \<Rightarrow> lock_config \<Rightarrow> int list \<Rightarrow> int list" where
  "recent now c ts = filter (\<lambda>t. t > now - lc_attemptWindowMs c) ts"

definition checkLockout :: "int \<Rightarrow> string \<Rightarrow> lock_config \<Rightarrow> lockouts \<Rightarrow> lock_reply \<times> lockouts" where
  "checkLockout now i c s0 =
     (case lk_getState i s0 of
        (None, s) \<Rightarrow> (\<lparr>lr_locked = False, lr_remainingMs = None, lr_attempts = Some 0\<rparr>, s)
      | (Some e, s) \<Rightarrow>
          if truthy (lk_lockedUntil e) \<and> now < the (lk_lockedUntil e)
          then (\<lparr>lr_locked = True, lr_remainingMs = Some (the (lk_lockedUntil e) - now),
                 lr_attempts = Some (int (length (lk_attempts e)))\<rparr>, s)
          else (let (e1, s1) = (if truthy (lk_lockedUntil e)
                                then (let e' = \<lparr>lk_attempts = [], lk_lockedUntil = None\<rparr> in (e', lk_persistState i e' s))
                                else (e, s));
                    ra = recent now c (lk_attempts e1)
                in (\<lparr>lr_locked = False, lr_remainingMs = None, lr_attempts = Some (int (length ra))\<rparr>,
                    lk_persistState i (e1\<lparr>lk_attempts := ra\<rparr>) s1)))"

definition recordFailedAttempt :: "int \<Rightarrow> string \<Rightarrow> lock_config \<Rightarrow> lockouts \<Rightarrow> lock_reply \<times> lockouts" where
  "recordFailedAttempt now i c s0 =
     (let (st, s) = lk_getState i s0;
          e = (case st of None \<Rightarrow> \<lparr>lk_attempts = [], lk_lockedUntil = None\<rparr> | Some e \<Rightarrow> e);
          e1 = e\<lparr>lk_attempts := recent now c (lk_attempts e) @ [now]\<rparr>
      in if int (length (lk_attempts e1)) \<ge> lc_maxAttempts c
         then (\<lparr>lr_locked = True, lr_remainingMs = Some (lc_lockoutDurationMs c), lr_attempts = None\<rparr>,
               lk_persistState i (e1\<lparr>lk_lockedUntil := Some (now + lc_lockoutDurationMs c)\<rparr>) s)
         else (\<lparr>lr_locked = False, lr_remainingMs = None, lr_attempts = None\<rparr>, lk_persistState i e1 s))"

definition recordSuccess :: "string \<Rightarrow> lockouts \<Rightarrow> lockouts" where
  "recordSuccess i s = s\<lparr>lk_cache := jm_del i (lk_cache s), lk_db := deleteLockoutState i (lk_db s)\<rparr>"

definition forceUnlock :: "string \<Rightarrow> lockouts \<Rightarrow> lockouts" where
  "forceUnlock i s = s\<lparr>lk_cache := jm_del i (lk_cache s), lk_db := deleteLockoutState i (lk_db s)\<rparr>"

definition getLockedIdentifiers :: "int \<Rightarrow> lockouts \<Rightarrow> (string \<times> int \<times> int) list \<times> lockouts" where
  "getLockedIdentifiers now s =
     (let cache = fold (\<lambda>(i, u) m. if jm_has m i then m else jm_set i \<lparr>lk_attempts = [], lk_lockedUntil = Some u\<rparr> m)
                    (loadAllLockedIdentifiers now (lk_db s)) (lk_cache s)
      in ([(i, the (lk_lockedUntil e), the (lk_lockedUntil e) - now).
             (i, e) \<leftarrow> cache, truthy (lk_lockedUntil e), the (lk_lockedUntil e) > now],
          s\<lparr>lk_cache := cache\<rparr>))"

text \<open>A restart empties the cache.\<close>

definition lk_restart :: "lockouts \<Rightarrow> lockouts" where
  "lk_restart s = s\<lparr>lk_cache := []\<rparr>"

section \<open>Proof support\<close>

definition lk_entry :: "string \<Rightarrow> lockouts \<Rightarrow> lock_entry option" where
  "lk_entry i s = fst (lk_getState i s)"

lemma lk_getState_entry [simp]:
  "lk_entry i (snd (lk_getState i s)) = lk_entry i s"
  by (simp add: lk_entry_def lk_getState_def split: option.split)

lemma lk_entry_persist [simp]:
  "lk_entry k (lk_persistState i e s) = (if k = i then Some e else lk_entry k s)"
  by (cases "lk_db s")
    (simp_all add: lk_entry_def lk_getState_def lk_persistState_def saveLockoutState_def loadLockoutState_def split: option.split)

lemma record_entry:
  "lk_entry i (snd (recordFailedAttempt now i c s)) =
     (let ts = recent now c (case lk_entry i s of None \<Rightarrow> [] | Some e \<Rightarrow> lk_attempts e) @ [now];
          u = (case lk_entry i s of None \<Rightarrow> None | Some e \<Rightarrow> lk_lockedUntil e)
      in Some \<lparr>lk_attempts = ts,
           lk_lockedUntil = if int (length ts) \<ge> lc_maxAttempts c then Some (now + lc_lockoutDurationMs c) else u\<rparr>)"
  "lr_locked (fst (recordFailedAttempt now i c s)) \<longleftrightarrow>
     int (length (recent now c (case lk_entry i s of None \<Rightarrow> [] | Some e \<Rightarrow> lk_attempts e) @ [now])) \<ge> lc_maxAttempts c"
  by (cases "lk_getState i s"; auto simp: recordFailedAttempt_def lk_entry_def [of i s] Let_def split: option.split)+

text \<open>Failures at the times \<open>ts\<close>, in this order; the replies and the final state.\<close>

fun fail_all :: "string \<Rightarrow> lock_config \<Rightarrow> int list \<Rightarrow> lockouts \<Rightarrow> bool list \<times> lockouts" where
  "fail_all i c [] s = ([], s)"
| "fail_all i c (t # ts) s =
     (let (r, s') = recordFailedAttempt t i c s; (rs, s'') = fail_all i c ts s' in (lr_locked r # rs, s''))"

lemma recent_recent: "t \<le> now \<Longrightarrow> recent now c (recent t c ts) = recent now c ts"
  by (induction ts) (auto simp: recent_def)

lemma fail_all_counts:
  assumes "\<forall>now\<ge>lo. recent now c (case lk_entry i s of None \<Rightarrow> [] | Some e \<Rightarrow> lk_attempts e) = recent now c p"
    and "sorted (lo # ts)" and "0 < lc_attemptWindowMs c" and "n < length ts"
  shows "fst (fail_all i c ts s) ! n \<longleftrightarrow>
    lc_maxAttempts c \<le> int (length (recent (ts ! n) c (p @ take (Suc n) ts)))"
  using assms
proof (induction ts arbitrary: s p lo n)
  case (Cons t ts)
  obtain r s' where r: "recordFailedAttempt t i c s = (r, s')" by fastforce
  obtain rs s'' where f: "fail_all i c ts s' = (rs, s'')" by fastforce
  let ?a = "case lk_entry i s of None \<Rightarrow> [] | Some e \<Rightarrow> lk_attempts e"
  have lo: "lo \<le> t" using Cons.prems(2) by simp
  have head: "lr_locked r \<longleftrightarrow> lc_maxAttempts c \<le> int (length (recent t c (p @ [t])))"
    using record_entry(2) [of t i c s] r Cons.prems(1,3) lo by (simp add: recent_def)
  show ?case
  proof (cases n)
    case 0
    then show ?thesis using head r f by simp
  next
    case (Suc m)
    have "(case lk_entry i s' of None \<Rightarrow> [] | Some e \<Rightarrow> lk_attempts e) = recent t c ?a @ [t]"
      using record_entry(1) [of i t c s] r by (simp add: Let_def)
    moreover have "recent now c (recent t c ?a @ [t]) = recent now c (p @ [t])" if "t \<le> now" for now
    proof -
      have "recent now c (recent t c ?a) = recent now c p"
        using recent_recent [OF that, of c ?a] Cons.prems(1) lo that by simp
      then show ?thesis by (simp add: recent_def)
    qed
    ultimately have "\<forall>now\<ge>t. recent now c (case lk_entry i s' of None \<Rightarrow> [] | Some e \<Rightarrow> lk_attempts e) = recent now c (p @ [t])"
      by simp
    from Cons.IH [OF this, of m] show ?thesis
      using Cons.prems(2-4) Suc r f by simp
  qed
qed simp

lemma check_locked:
  assumes "lk_entry i s = Some e" and "truthy (lk_lockedUntil e)" and "now < the (lk_lockedUntil e)"
  shows "lr_locked (fst (checkLockout now i c s))"
    and "lr_remainingMs (fst (checkLockout now i c s)) = Some (the (lk_lockedUntil e) - now)"
  using assms by (cases "lk_getState i s"; simp add: checkLockout_def lk_entry_def)+

lemma restart_entry:
  assumes "lk_db s = Some m" and "jm_get m i = Some e"
  shows "lk_entry i (lk_restart s) = Some e"
  using assms by (simp add: lk_entry_def lk_getState_def lk_restart_def loadLockoutState_def)

section \<open>Properties\<close>

text \<open>The lockout is exact: failures of one identifier at any non-decreasing times are reported as locking exactly when the
  number of them in the trailing window, the current one included, reaches the maximum. Pruning on every
  call loses nothing.\<close>

theorem lockout_counts_window_exactly:
  assumes "lk_entry i s = None" and "sorted ts" and "0 < lc_attemptWindowMs c" and "n < length ts"
  shows "fst (fail_all i c ts s) ! n \<longleftrightarrow>
    lc_maxAttempts c \<le> int (length (filter (\<lambda>t. t > ts ! n - lc_attemptWindowMs c) (take (Suc n) ts)))"
proof -
  obtain t us where ts: "ts = t # us" using assms(4) by (cases ts) auto
  have "fst (fail_all i c ts s) ! n \<longleftrightarrow>
      lc_maxAttempts c \<le> int (length (recent (ts ! n) c ([] @ take (Suc n) ts)))"
    by (rule fail_all_counts [where lo = t]) (use assms ts in simp_all)
  then show ?thesis by (simp add: recent_def)
qed

lemma lockout_counts_window_exactly_witness:
  "fst (fail_all ''ip'' DEFAULT_CONFIG [10, 20, 30, 300015, 300016, 300017, 300018]
     \<lparr>lk_cache = [], lk_db = Some []\<rparr>) ! 6"
proof -
  have "fst (fail_all ''ip'' DEFAULT_CONFIG [10, 20, 30, 300015, 300016, 300017, 300018]
      \<lparr>lk_cache = [], lk_db = Some []\<rparr>) ! 6 \<longleftrightarrow>
    lc_maxAttempts DEFAULT_CONFIG \<le> int (length (filter (\<lambda>t. t > [10, 20, 30, 300015, 300016, 300017, 300018] ! 6
      - lc_attemptWindowMs DEFAULT_CONFIG) (take (Suc 6) [10, 20, 30, 300015, 300016, 300017, 300018])))"
    by (rule lockout_counts_window_exactly)
      (simp_all add: lk_entry_def lk_getState_def loadLockoutState_def DEFAULT_CONFIG_def)
  then show ?thesis by (simp add: DEFAULT_CONFIG_def)
qed

text \<open>A lock holds until it expires and survives a restart: after the failure that locks an identifier at time
  \<open>t\<close>, a check at any earlier time than the end of the lockout reports it locked with the exact
  remaining time, also from the table after the cache is gone.\<close>

theorem lockout_survives_restart:
  assumes lock: "lr_locked (fst (recordFailedAttempt t i c s))" and ready: "lk_db s \<noteq> None"
    and time: "now < t + lc_lockoutDurationMs c" "t + lc_lockoutDurationMs c \<noteq> 0"
    and s': "s' = snd (recordFailedAttempt t i c s)" "s'' = s' \<or> s'' = lk_restart s'"
  shows "lr_locked (fst (checkLockout now i c' s''))
    \<and> lr_remainingMs (fst (checkLockout now i c' s'')) = Some (t + lc_lockoutDurationMs c - now)"
proof -
  obtain e where e: "lk_entry i s' = Some e" "lk_lockedUntil e = Some (t + lc_lockoutDurationMs c)"
    using record_entry(1) [of i t c s] record_entry(2) [of t i c s] lock s' by (auto simp: Let_def)
  obtain m where m: "lk_db s' = Some m" "jm_get m i = Some e"
  proof -
    obtain st s1 where g: "lk_getState i s = (st, s1)" by fastforce
    then have "lk_db s1 = lk_db s" by (auto simp: lk_getState_def split: option.splits)
    then show ?thesis
      using that e(1) ready s'(1) g
      by (auto simp: recordFailedAttempt_def Let_def lk_persistState_def saveLockoutState_def
          lk_entry_def lk_getState_def split: if_splits)
  qed
  have "lk_entry i s'' = Some e" using s'(2) e(1) restart_entry [OF m] by auto
  with e(2) time show ?thesis by (simp add: check_locked)
qed

lemma lockout_survives_restart_witness:
  "lr_locked (fst (checkLockout 500 ''ip'' DEFAULT_CONFIG (lk_restart (snd (recordFailedAttempt 5 ''ip''
     (DEFAULT_CONFIG\<lparr>lc_maxAttempts := 1\<rparr>) \<lparr>lk_cache = [], lk_db = Some []\<rparr>)))))
   \<and> lr_remainingMs (fst (checkLockout 500 ''ip'' DEFAULT_CONFIG (lk_restart (snd (recordFailedAttempt 5 ''ip''
     (DEFAULT_CONFIG\<lparr>lc_maxAttempts := 1\<rparr>) \<lparr>lk_cache = [], lk_db = Some []\<rparr>)))))
     = Some (5 + lc_lockoutDurationMs (DEFAULT_CONFIG\<lparr>lc_maxAttempts := 1\<rparr>) - 500)"
  by (rule lockout_survives_restart [OF _ _ _ _ refl disjI2 [OF refl]])
    (simp_all add: DEFAULT_CONFIG_def record_entry(2))

text \<open>A failed attempt on a locked identifier whose earlier attempts have left the window is answered
  \<open>locked: false\<close>, although the identifier is locked before and after it.\<close>

theorem failed_attempt_denies_the_lock:
  assumes "lk_entry i s = Some e" and "truthy (lk_lockedUntil e)" and "now < the (lk_lockedUntil e)"
    and "\<forall>t\<in>set (lk_attempts e). t \<le> now - lc_attemptWindowMs c" and "1 < lc_maxAttempts c"
  shows "\<not> lr_locked (fst (recordFailedAttempt now i c s))
    \<and> lr_locked (fst (checkLockout now i c s))
    \<and> lr_locked (fst (checkLockout now i c (snd (recordFailedAttempt now i c s))))"
proof -
  have none: "recent now c (lk_attempts e) = []" using assms(4) by (auto simp: recent_def filter_empty_conv)
  then have "lk_entry i (snd (recordFailedAttempt now i c s)) = Some \<lparr>lk_attempts = [now], lk_lockedUntil = lk_lockedUntil e\<rparr>"
    using record_entry(1) [of i now c s] assms(1,5) by simp
  then show ?thesis
    using check_locked(1) assms record_entry(2) [of now i c s] none by simp
qed

lemma failed_attempt_denies_the_lock_witness:
  "\<not> lr_locked (fst (recordFailedAttempt 400000 ''ip'' DEFAULT_CONFIG
      \<lparr>lk_cache = [(''ip'', \<lparr>lk_attempts = [1, 2, 3, 4, 5], lk_lockedUntil = Some 900005\<rparr>)], lk_db = Some []\<rparr>))"
  using failed_attempt_denies_the_lock [of "''ip''"
      "\<lparr>lk_cache = [(''ip'', \<lparr>lk_attempts = [1, 2, 3, 4, 5], lk_lockedUntil = Some 900005\<rparr>)], lk_db = Some []\<rparr>"
      "\<lparr>lk_attempts = [1, 2, 3, 4, 5], lk_lockedUntil = Some 900005\<rparr>" 400000 DEFAULT_CONFIG]
  by (simp add: lk_entry_def lk_getState_def jm_get_def DEFAULT_CONFIG_def)

end
