(* ===== verification/BudgetCalendar.thy ===== *)
theory BudgetCalendar
  imports JsString
begin

text \<open>
  The budget windows of \<open>src/domain/costRules.ts\<close>: \<open>normalizeResetTime\<close>, \<open>getResetTimeParts\<close> and \<open>getBudgetWindow\<close>, over
  the calendar of ECMAScript (\<open>Date.UTC\<close> and the \<open>getUTC\<close> readers), which is written out from the language's definition.
\<close>

section \<open>The calendar of the language\<close>

definition is_leap :: "int \<Rightarrow> bool" where
  "is_leap y \<longleftrightarrow> (y mod 4 = 0 \<and> y mod 100 \<noteq> 0) \<or> y mod 400 = 0"

text \<open>The day number of the first of January.\<close>

definition year_start :: "int \<Rightarrow> int" where
  "year_start y = 365 * (y - 1970) + (y - 1969) div 4 - (y - 1901) div 100 + (y - 1601) div 400"

definition year_of_day :: "int \<Rightarrow> int" where
  "year_of_day d =
     (let y = 1970 + 400 * d div 146097
      in if year_start y > d then y - 1 else if year_start (y + 1) \<le> d then y + 1 else y)"

definition month_start :: "bool \<Rightarrow> nat \<Rightarrow> int" where
  "month_start leap m =
     [0, 31, 59, 90, 120, 151, 181, 212, 243, 273, 304, 334] ! m + (if leap \<and> m \<ge> 2 then 1 else 0)"

definition month_of_day :: "int \<Rightarrow> nat" where
  "month_of_day d =
     (let y = year_of_day d
      in length (filter (\<lambda>m. month_start (is_leap y) m \<le> d - year_start y) [0..<12]) - 1)"

definition date_of_day :: "int \<Rightarrow> int" where
  "date_of_day d = d - year_start (year_of_day d) - month_start (is_leap (year_of_day d)) (month_of_day d) + 1"

definition weekday_of_day :: "int \<Rightarrow> int" where
  "weekday_of_day d = (d + 4) mod 7"

definition MS_PER_DAY :: int where "MS_PER_DAY = 86400000"

definition make_day :: "int \<Rightarrow> int \<Rightarrow> int \<Rightarrow> int" where
  "make_day y m dt =
     (let ym = y + m div 12
      in year_start ym + month_start (is_leap ym) (nat (m mod 12)) + dt - 1)"

text \<open>\<open>Date.UTC\<close> reads the years 0 to 99 as 1900 to 1999.\<close>

definition getUtcDateMs :: "int \<Rightarrow> int \<Rightarrow> int \<Rightarrow> int \<Rightarrow> int \<Rightarrow> int" where
  "getUtcDateMs year month day hours minutes =
     (let y = (if 0 \<le> year \<and> year \<le> 99 then 1900 + year else year)
      in make_day y month day * MS_PER_DAY + hours * 3600000 + minutes * 60000)"

section \<open>Windows\<close>

datatype reset_interval = IntervalDaily | IntervalWeekly | IntervalMonthly

definition reset_time_match :: "string \<Rightarrow> (nat \<times> nat) option" where
  "reset_time_match s =
     (case s of
        [a, b, c, d, e] \<Rightarrow>
          if is_digit a \<and> is_digit b \<and> c = CHR '':'' \<and> is_digit d \<and> is_digit e
          then Some (digits_val [a, b], digits_val [d, e]) else None
      | _ \<Rightarrow> None)"

definition pad2 :: "nat \<Rightarrow> string" where
  "pad2 n = (let s = show_nat n in if length s < 2 then CHR ''0'' # s else s)"

definition normalizeResetTime :: "string option \<Rightarrow> string" where
  "normalizeResetTime v =
     (case v of
        None \<Rightarrow> ''00:00''
      | Some s \<Rightarrow>
          (case reset_time_match (js_trim s) of
             None \<Rightarrow> ''00:00''
           | Some (h, m) \<Rightarrow> pad2 (min (max h 0) 23) @ '':'' @ pad2 (min (max m 0) 59)))"

definition getResetTimeParts :: "string \<Rightarrow> int \<times> int" where
  "getResetTimeParts t = (case reset_time_match t of None \<Rightarrow> (0, 0) | Some (h, m) \<Rightarrow> (int h, int m))"

record budget_window =
  bw_periodStartAt :: int
  bw_nextResetAt :: int

definition getBudgetWindow :: "reset_interval \<Rightarrow> string \<Rightarrow> int \<Rightarrow> budget_window" where
  "getBudgetWindow resetInterval resetTime now =
     (let (hours, minutes) = getResetTimeParts (normalizeResetTime (Some resetTime));
          d = now div MS_PER_DAY;
          year = year_of_day d; month = int (month_of_day d); day = date_of_day d
      in case resetInterval of
           IntervalWeekly \<Rightarrow>
             (let daysSinceMonday = (weekday_of_day d + 6) mod 7;
                  thisWeekReset = getUtcDateMs year month (day - daysSinceMonday) hours minutes
              in if now \<ge> thisWeekReset
                 then \<lparr>bw_periodStartAt = thisWeekReset,
                       bw_nextResetAt = getUtcDateMs year month (day - daysSinceMonday + 7) hours minutes\<rparr>
                 else \<lparr>bw_periodStartAt = getUtcDateMs year month (day - daysSinceMonday - 7) hours minutes,
                       bw_nextResetAt = thisWeekReset\<rparr>)
         | IntervalMonthly \<Rightarrow>
             (let thisMonthReset = getUtcDateMs year month 1 hours minutes
              in if now \<ge> thisMonthReset
                 then \<lparr>bw_periodStartAt = thisMonthReset, bw_nextResetAt = getUtcDateMs year (month + 1) 1 hours minutes\<rparr>
                 else \<lparr>bw_periodStartAt = getUtcDateMs year (month - 1) 1 hours minutes, bw_nextResetAt = thisMonthReset\<rparr>)
         | IntervalDaily \<Rightarrow>
             (let todayReset = getUtcDateMs year month day hours minutes
              in if now \<ge> todayReset
                 then \<lparr>bw_periodStartAt = todayReset, bw_nextResetAt = getUtcDateMs year month (day + 1) hours minutes\<rparr>
                 else \<lparr>bw_periodStartAt = getUtcDateMs year month (day - 1) hours minutes, bw_nextResetAt = todayReset\<rparr>))"

section \<open>Years and months\<close>

lemma div_Suc_int:
  assumes "0 < (n::int)"
  shows "(a + 1) div n = a div n + (if (a + 1) mod n = 0 then 1 else 0)"
proof (cases "a mod n + 1 = n")
  case True
  have "n * (a div n + 1) = n * (a div n) + n" by (simp add: distrib_left)
  then have e: "a + 1 = n * (a div n + 1)" using mult_div_mod_eq [of n a] True by linarith
  show ?thesis unfolding e using assms by simp
next
  case False
  then have r: "0 \<le> a mod n + 1" "a mod n + 1 < n" using assms pos_mod_bound [of n a] pos_mod_sign [of n a] by linarith+
  have e: "a + 1 = n * (a div n) + (a mod n + 1)" using mult_div_mod_eq [of n a] by simp
  have "(a + 1) mod n = a mod n + 1" by (rule int_mod_pos_eq [OF e r])
  moreover have "(a + 1) div n = a div n" by (rule int_div_pos_eq [OF e r])
  moreover have "a mod n + 1 \<noteq> 0" using assms pos_mod_sign [of n a] by linarith
  ultimately show ?thesis by simp
qed

lemma div_bounds: "0 < (n::int) \<Longrightarrow> n * (a div n) \<le> a" "0 < n \<Longrightarrow> a < n * (a div n) + n"
  using mult_div_mod_eq [of n a] pos_mod_bound [of n a] pos_mod_sign [of n a] by linarith+

lemma year_length: "year_start (y + 1) = year_start y + 365 + (if is_leap y then 1 else 0)"
proof -
  define A B C where "A = (y - 1969) div 4" and "B = (y - 1901) div 100" and "C = (y - 1601) div 400"
  have shift: "y + 1 - 1970 = y - 1970 + 1" "y + 1 - 1969 = y - 1969 + 1" "y + 1 - 1901 = y - 1901 + 1" "y + 1 - 1601 = y - 1601 + 1"
    by simp_all
  have m: "(y - 1969 + 1) mod 4 = y mod 4" "(y - 1901 + 1) mod 100 = y mod 100" "(y - 1601 + 1) mod 400 = y mod 400"
    using mod_mult_self1 [of y "-492" 4] mod_mult_self1 [of y "-19" 100] mod_mult_self1 [of y "-4" 400] by simp_all
  have d: "(y - 1969 + 1) div 4 = A + (if y mod 4 = 0 then 1 else 0)" "(y - 1901 + 1) div 100 = B + (if y mod 100 = 0 then 1 else 0)"
    "(y - 1601 + 1) div 400 = C + (if y mod 400 = 0 then 1 else 0)"
    unfolding A_def B_def C_def m [symmetric] by (rule div_Suc_int, rule zero_less_numeral)+
  have "y mod 100 = 0" if "y mod 400 = 0"
    using that dvd_trans [of 100 400 y] by (simp add: mod_eq_0_iff_dvd)
  moreover have "y mod 4 = 0" if "y mod 100 = 0"
    using that dvd_trans [of 4 100 y] by (simp add: mod_eq_0_iff_dvd)
  moreover have "year_start y = 365 * (y - 1970) + A - B + C"
    unfolding year_start_def A_def B_def C_def by (rule refl)
  moreover have "year_start (y + 1) = 365 * (y - 1970 + 1) + (A + (if y mod 4 = 0 then 1 else 0))
      - (B + (if y mod 100 = 0 then 1 else 0)) + (C + (if y mod 400 = 0 then 1 else 0))"
    unfolding year_start_def shift d by (rule refl)
  ultimately show ?thesis unfolding is_leap_def
    by (cases "y mod 4 = 0"; cases "y mod 100 = 0"; cases "y mod 400 = 0") simp_all
qed

lemma year_start_near:
  shows "400 * year_start z \<le> 146097 * (z - 1970) + 600" and "146097 * (z - 1970) - 520 \<le> 400 * year_start z"
proof -
  define A B C where "A = (z - 1969) div 4" and "B = (z - 1901) div 100" and "C = (z - 1601) div 400"
  have b: "4 * A \<le> z - 1969" "z - 1969 < 4 * A + 4" "100 * B \<le> z - 1901" "z - 1901 < 100 * B + 100"
    "400 * C \<le> z - 1601" "z - 1601 < 400 * C + 400"
    using div_bounds [of 4 "z - 1969", OF zero_less_numeral] div_bounds [of 100 "z - 1901", OF zero_less_numeral]
      div_bounds [of 400 "z - 1601", OF zero_less_numeral] unfolding A_def B_def C_def by blast+
  have Y: "year_start z = 365 * (z - 1970) + A - B + C" unfolding year_start_def A_def B_def C_def by (rule refl)
  show "400 * year_start z \<le> 146097 * (z - 1970) + 600" unfolding Y using b by (simp add: algebra_simps)
  show "146097 * (z - 1970) - 520 \<le> 400 * year_start z" unfolding Y using b by (simp add: algebra_simps)
qed

lemma year_start_step: "year_start z + 365 \<le> year_start (z + 1)"
  by (simp add: year_length)

lemma year_of_day_bounds:
  shows "year_start (year_of_day d) \<le> d" and "d < year_start (year_of_day d + 1)"
proof -
  define y where "y = 1970 + 400 * d div 146097"
  have "y - 1970 = 400 * d div 146097" by (simp add: y_def)
  then have q: "146097 * (y - 1970) \<le> 400 * d" "400 * d < 146097 * (y - 1970) + 146097"
    using div_bounds [of 146097 "400 * d", OF zero_less_numeral] by simp_all
  have a: "400 * year_start y \<le> 400 * d + 600" using year_start_near(1) [of y] q by linarith
  have b: "400 * d - 520 < 400 * year_start (y + 1)" 
  proof -
    have "146097 * (y + 1 - 1970) = 146097 * (y - 1970) + 146097" by simp
    then show ?thesis using year_start_near(2) [of "y + 1"] q by linarith
  qed
  have c: "year_start (y - 1) + 365 \<le> year_start y" using year_start_step [of "y - 1"] by simp
  have e: "year_start (y + 1) + 365 \<le> year_start (y + 1 + 1)" by (rule year_start_step)
  have Y: "year_of_day d = (if year_start y > d then y - 1 else if year_start (y + 1) \<le> d then y + 1 else y)"
    unfolding year_of_day_def y_def [symmetric] Let_def by (rule refl)
  show "year_start (year_of_day d) \<le> d" unfolding Y using a c by (simp split: if_split)
  show "d < year_start (year_of_day d + 1)" unfolding Y using b e by (simp split: if_split)
qed

lemma int_step_mono:
  assumes "\<And>k::int. f k < (f (k + 1) :: int)" and "i < j"
  shows "f i < f j"
  using assms(2)
proof (induction j rule: int_gr_induct)
  case base
  show ?case by (rule assms(1))
next
  case (step j)
  then show ?case using assms(1) [of j] by linarith
qed

lemma year_from_1970: "0 \<le> d \<Longrightarrow> 1970 \<le> year_of_day d"
proof (rule ccontr)
  assume d: "0 \<le> d" and "\<not> 1970 \<le> year_of_day d"
  then have "year_of_day d + 1 \<le> 1970" by simp
  have step: "year_start k < year_start (k + 1)" for k using year_start_step [of k] by linarith
  have "year_start (year_of_day d + 1) \<le> year_start 1970"
    using int_step_mono [of year_start, OF step, of "year_of_day d + 1" 1970] \<open>year_of_day d + 1 \<le> 1970\<close>
    by (cases "year_of_day d + 1 = 1970") auto
  moreover have "year_start 1970 = 0" by (simp add: year_start_def)
  ultimately show False using year_of_day_bounds(2) [of d] d by linarith
qed

lemma month_start_mono:
  assumes "i \<le> j" and "j < 12"
  shows "month_start leap i \<le> month_start leap j"
proof -
  have "\<forall>l\<in>set [True, False]. \<forall>j\<in>set [0..<12]. \<forall>i\<in>set [0..<Suc j]. month_start l i \<le> month_start l j"
    unfolding month_start_def by code_simp
  then show ?thesis using assms by (cases leap) (simp_all del: upt_Suc)
qed

lemma month_start_step: "m < 11 \<Longrightarrow> month_start leap m < month_start leap (m + 1)"
proof -
  have "\<forall>l\<in>set [True, False]. \<forall>m\<in>set [0..<11]. month_start l m < month_start l (m + 1)"
    unfolding month_start_def by code_simp
  then show "m < 11 \<Longrightarrow> month_start leap m < month_start leap (m + 1)" by (cases leap) simp_all
qed

lemma month_start_ends: "month_start leap 0 = 0" "month_start leap 11 = 334 + (if leap then 1 else 0)"
  by (simp_all add: month_start_def)

lemma filter_upto_bound:
  assumes "\<And>i j. i \<le> j \<Longrightarrow> j < n \<Longrightarrow> f i \<le> (f j :: int)" and "f 0 \<le> x" and "0 < n"
  defines "k \<equiv> length (filter (\<lambda>m. f m \<le> x) [0..<n])"
  shows "0 < k \<and> k \<le> n \<and> f (k - 1) \<le> x \<and> (k < n \<longrightarrow> x < f k)"
  using assms(1,3) unfolding k_def
proof (induction n)
  case (Suc n)
  show ?case
  proof (cases "f n \<le> x")
    case True
    have "f m \<le> x" if "m < Suc n" for m
      using True Suc.prems(1) [of m n] that by (meson less_Suc_eq_le lessI order_trans)
    then have "\<forall>m\<in>set [0..<Suc n]. f m \<le> x" by simp
    then have "filter (\<lambda>m. f m \<le> x) [0..<Suc n] = [0..<Suc n]" by (rule filter_True)
    then show ?thesis using True by (simp del: upt_Suc)
  next
    case False
    then have "0 < n" using assms(2) by (cases n) auto
    then have "0 < length (filter (\<lambda>m. f m \<le> x) [0..<n]) \<and> length (filter (\<lambda>m. f m \<le> x) [0..<n]) \<le> n
      \<and> f (length (filter (\<lambda>m. f m \<le> x) [0..<n]) - 1) \<le> x
      \<and> (length (filter (\<lambda>m. f m \<le> x) [0..<n]) < n \<longrightarrow> x < f (length (filter (\<lambda>m. f m \<le> x) [0..<n])))"
      using Suc.IH Suc.prems(1) by simp
    then show ?thesis using False by (cases "length (filter (\<lambda>m. f m \<le> x) [0..<n]) = n") auto
  qed
qed simp

text \<open>The day of the month and the month that contain a day.\<close>

lemma month_of_day_bounds:
  fixes d :: int
  defines "l \<equiv> is_leap (year_of_day d)" and "diy \<equiv> d - year_start (year_of_day d)" and "m \<equiv> month_of_day d"
  shows "m < 12" and "month_start l m \<le> diy" and "m < 11 \<Longrightarrow> diy < month_start l (m + 1)" and "diy < 365 + (if l then 1 else 0)"
proof -
  let ?k = "length (filter (\<lambda>m. month_start l m \<le> diy) [0..<12])"
  have m: "m = ?k - 1" by (simp add: m_def month_of_day_def Let_def l_def diy_def)
  have "month_start l 0 \<le> diy" using year_of_day_bounds(1) [of d] by (simp add: month_start_ends diy_def)
  then have k: "0 < ?k \<and> ?k \<le> 12 \<and> month_start l (?k - 1) \<le> diy \<and> (?k < 12 \<longrightarrow> diy < month_start l ?k)"
    using filter_upto_bound [of 12 "month_start l" diy] month_start_mono [of _ _ l] by simp
  then show "m < 12" "month_start l m \<le> diy" unfolding m by linarith+
  show "m < 11 \<Longrightarrow> diy < month_start l (m + 1)" using k unfolding m by simp
  show "diy < 365 + (if l then 1 else 0)"
    using year_of_day_bounds(2) [of d] year_length [of "year_of_day d"] by (simp add: diy_def l_def)
qed

text \<open>The first days of the months, numbered from the year 0 on.\<close>

definition month_anchor :: "int \<Rightarrow> int" where
  "month_anchor k = year_start (k div 12) + month_start (is_leap (k div 12)) (nat (k mod 12))"

lemma make_day_anchor: "make_day y m 1 = month_anchor (12 * y + m)"
  by (simp add: make_day_def month_anchor_def Let_def add.commute)

lemma make_day_shift: "make_day y m (a + b) = make_day y m a + b"
  by (simp add: make_day_def Let_def)

lemma make_day_date: "make_day (year_of_day d) (int (month_of_day d)) (date_of_day d) = d"
  using month_of_day_bounds(1) [of d] by (simp add: make_day_def date_of_day_def Let_def)

lemma month_anchor_step: "month_anchor k < month_anchor (k + 1)"
proof (cases "k mod 12 = 11")
  case True
  then have "k + 1 = 12 * (k div 12 + 1)" using mult_div_mod_eq [of 12 k] by simp
  then have "(k + 1) div 12 = k div 12 + 1" "(k + 1) mod 12 = 0" by presburger+
  then show ?thesis using True year_length [of "k div 12"]
    by (simp add: month_anchor_def month_start_ends)
next
  case False
  then have r: "0 \<le> k mod 12 + 1" "k mod 12 + 1 < 12" using pos_mod_bound [of 12 k] pos_mod_sign [of 12 k] by linarith+
  have e: "k + 1 = 12 * (k div 12) + (k mod 12 + 1)" by simp
  have "(k + 1) div 12 = k div 12" "(k + 1) mod 12 = k mod 12 + 1"
    by (rule int_div_pos_eq [OF e r], rule int_mod_pos_eq [OF e r])
  moreover have "nat (k mod 12 + 1) = nat (k mod 12) + 1" "nat (k mod 12) < 11" using r by auto
  ultimately show ?thesis using month_start_step by (simp add: month_anchor_def)
qed

lemma month_of_day_anchors:
  defines "k \<equiv> \<lambda>d. 12 * year_of_day d + int (month_of_day d)"
  shows "month_anchor (k d) \<le> d" and "d < month_anchor (k d + 1)"
proof -
  note b = month_of_day_bounds [of d]
  have kd: "k d div 12 = year_of_day d" "k d mod 12 = int (month_of_day d)" using b(1) by (simp_all add: k_def)
  show "month_anchor (k d) \<le> d" using b(2) kd by (simp add: month_anchor_def)
  show "d < month_anchor (k d + 1)"
  proof (cases "month_of_day d = 11")
    case True
    then have "k d + 1 = 12 * (year_of_day d + 1)" by (simp add: k_def)
    then have "month_anchor (k d + 1) = year_start (year_of_day d + 1)"
      by (simp add: month_anchor_def month_start_ends add.commute)
    then show ?thesis using year_of_day_bounds(2) [of d] by simp
  next
    case False
    have e: "k d + 1 = 12 * year_of_day d + (int (month_of_day d) + 1)" by (simp add: k_def)
    have r: "0 \<le> int (month_of_day d) + 1" "int (month_of_day d) + 1 < 12" using b(1) False by linarith+
    have "(k d + 1) div 12 = year_of_day d" "(k d + 1) mod 12 = int (month_of_day d) + 1"
      by (rule int_div_pos_eq [OF e r], rule int_mod_pos_eq [OF e r])
    moreover have "nat (int (month_of_day d) + 1) = month_of_day d + 1" by simp
    moreover have "month_of_day d < 11" using b(1) False by simp
    ultimately show ?thesis using b(3) by (simp add: month_anchor_def)
  qed
qed

section \<open>Reset times\<close>

lemma js_trim_digits: "\<forall>c\<in>set s. \<not> js_space c \<Longrightarrow> js_trim s = s"
proof -
  assume a: "\<forall>c\<in>set s. \<not> js_space c"
  have d: "dropWhile js_space xs = xs" if "\<forall>c\<in>set xs. \<not> js_space c" for xs
    using that by (cases xs) auto
  show ?thesis using a d [of s] d [of "rev s"] by (simp add: js_trim_def)
qed

definition time_of_day :: "string \<Rightarrow> int" where
  "time_of_day t = (let (h, m) = getResetTimeParts (normalizeResetTime (Some t)) in h * 3600000 + m * 60000)"

lemma char_zero: "char_of (48::nat) = CHR ''0''"
  by code_simp

lemma pad2_digits: "n < 100 \<Longrightarrow> pad2 n = [char_of (48 + n div 10), char_of (48 + n mod 10)]"
  by (cases "n < 10") (simp_all add: pad2_def show_nat.simps [of n] show_nat.simps [of "n div 10"] char_zero)

lemma reset_time_printed:
  assumes "h < 100" and "m < 100"
  shows "reset_time_match (pad2 h @ '':'' @ pad2 m) = Some (h, m)"
proof -
  have "h div 10 < 10" "m div 10 < 10" using assms by auto
  then show ?thesis using assms
    by (simp add: pad2_digits reset_time_match_def show_nat_digit digits_val_def)
qed

lemma reset_time_parts:
  "\<exists>h m. getResetTimeParts (normalizeResetTime v) = (int h, int m) \<and> h \<le> 23 \<and> m \<le> 59"
proof -
  have "getResetTimeParts ''00:00'' = (int 0, int 0)"
    using reset_time_printed [of 0 0] by (simp add: getResetTimeParts_def pad2_def show_nat.simps char_zero)
  moreover have "getResetTimeParts (pad2 (min (max h 0) 23) @ '':'' @ pad2 (min (max m 0) 59)) = (int (min h 23), int (min m 59))" for h m
    using reset_time_printed [of "min h 23" "min m 59"] by (simp add: getResetTimeParts_def)
  ultimately show ?thesis
    by (auto simp: normalizeResetTime_def split: option.split intro: exI [of _ "0::nat"])
qed

lemma normalizeResetTime_idem: "normalizeResetTime (Some (normalizeResetTime v)) = normalizeResetTime v"
proof -
  have stays: "normalizeResetTime (Some (pad2 h @ '':'' @ pad2 m)) = pad2 h @ '':'' @ pad2 m" if "h \<le> 23" "m \<le> 59" for h m
  proof -
    have "h div 10 < 10" "m div 10 < 10" using that by auto
    then have "\<forall>c\<in>set (pad2 h @ '':'' @ pad2 m). \<not> js_space c"
      using that digit_not show_nat_digit by (simp add: pad2_digits) (simp add: js_space_def)
    then have "js_trim (pad2 h @ '':'' @ pad2 m) = pad2 h @ '':'' @ pad2 m" by (rule js_trim_digits)
    then show ?thesis using that reset_time_printed [of h m] by (simp add: normalizeResetTime_def)
  qed
  have zero: "''00:00'' = pad2 0 @ '':'' @ pad2 0"
    by (simp add: pad2_def show_nat.simps char_zero)
  obtain h m where "normalizeResetTime v = pad2 h @ '':'' @ pad2 m" "h \<le> 23" "m \<le> 59"
  proof (cases "\<exists>s p. v = Some s \<and> reset_time_match (js_trim s) = Some p")
    case True
    then obtain s h m where "v = Some s" "reset_time_match (js_trim s) = Some (h, m)" by auto
    then show ?thesis using that [of "min h 23" "min m 59"] by (simp add: normalizeResetTime_def)
  next
    case False
    then have "normalizeResetTime v = ''00:00''" by (auto simp: normalizeResetTime_def split: option.split)
    then show ?thesis using that [of 0 0] zero by simp
  qed
  then show ?thesis using stays by simp
qed

lemma time_of_day_range: "0 \<le> time_of_day t" "time_of_day t < MS_PER_DAY"
proof -
  obtain h m where "getResetTimeParts (normalizeResetTime (Some t)) = (int h, int m)" "h \<le> 23" "m \<le> 59"
    using reset_time_parts [of "Some t"] by blast
  then show "0 \<le> time_of_day t" "time_of_day t < MS_PER_DAY" by (simp_all add: time_of_day_def MS_PER_DAY_def)
qed

section \<open>Windows\<close>

text \<open>The instants at which the windows of an interval begin, in order.\<close>

definition window_anchor :: "reset_interval \<Rightarrow> string \<Rightarrow> int \<Rightarrow> int" where
  "window_anchor r t k =
     (case r of IntervalDaily \<Rightarrow> k | IntervalWeekly \<Rightarrow> 7 * k - 3 | IntervalMonthly \<Rightarrow> month_anchor k) * MS_PER_DAY + time_of_day t"

lemma window_anchor_step: "window_anchor r t k < window_anchor r t (k + 1)"
  using month_anchor_step [of k] by (cases r) (simp_all add: window_anchor_def MS_PER_DAY_def)

lemma utc_ms:
  assumes "0 \<le> d"
  shows "getUtcDateMs (year_of_day d) m dt h mi = make_day (year_of_day d) m dt * MS_PER_DAY + (h * 3600000 + mi * 60000)"
  using year_from_1970 [OF assms] by (simp add: getUtcDateMs_def Let_def)

lemma window_anchors:
  assumes "0 \<le> now"
  shows "\<exists>k. getBudgetWindow r t now = \<lparr>bw_periodStartAt = window_anchor r t k, bw_nextResetAt = window_anchor r t (k + 1)\<rparr>
    \<and> window_anchor r t k \<le> now \<and> now < window_anchor r t (k + 1)"
proof -
  define d where "d = now div MS_PER_DAY"
  define y m dt where "y = year_of_day d" and "m = int (month_of_day d)" and "dt = date_of_day d"
  obtain h mi where hm: "getResetTimeParts (normalizeResetTime (Some t)) = (h, mi)" by (cases "getResetTimeParts (normalizeResetTime (Some t))")
  have off: "h * 3600000 + mi * 60000 = time_of_day t" by (simp add: time_of_day_def hm)
  have d: "0 \<le> d" "d * MS_PER_DAY \<le> now" "now < d * MS_PER_DAY + MS_PER_DAY"
    using assms div_bounds [of MS_PER_DAY now] unfolding d_def by (simp_all add: MS_PER_DAY_def mult.commute)
  have ms: "getUtcDateMs y m' dt' h mi = make_day y m' dt' * MS_PER_DAY + time_of_day t" for m' dt'
    unfolding y_def by (simp add: utc_ms [OF d(1)] off)
  have day: "make_day y m (dt + j) = d + j" for j
    unfolding y_def m_def dt_def by (simp add: make_day_shift make_day_date)
  note tod = time_of_day_range [of t]
  show ?thesis
  proof (cases r)
    case IntervalDaily
    define k where "k = (if now \<ge> d * MS_PER_DAY + time_of_day t then d else d - 1)"
    have "getBudgetWindow r t now = \<lparr>bw_periodStartAt = window_anchor r t k, bw_nextResetAt = window_anchor r t (k + 1)\<rparr>"
      using IntervalDaily day [of 0] day [of 1] day [of "-1"]
      by (simp add: getBudgetWindow_def hm Let_def d_def [symmetric] y_def [symmetric] m_def [symmetric] dt_def [symmetric]
          ms k_def window_anchor_def)
    moreover have "window_anchor r t k \<le> now \<and> now < window_anchor r t (k + 1)"
      using IntervalDaily d tod by (auto simp: k_def window_anchor_def algebra_simps)
    ultimately show ?thesis by blast
  next
    case IntervalWeekly
    define since where "since = (weekday_of_day d + 6) mod 7"
    define w where "w = (d - since + 3) div 7"
    have w: "d - since = 7 * w - 3" "0 \<le> since" "since < 7"
      unfolding w_def since_def weekday_of_day_def by presburger+
    have weeks: "make_day y m (dt - since) = d - since" "make_day y m (dt - since + 7) = d - since + 7"
      "make_day y m (dt - since - 7) = d - since - 7"
      using day [of "- since"] day [of "7 - since"] day [of "- since - 7"] by (simp_all add: algebra_simps)
    define k where "k = (if now \<ge> (d - since) * MS_PER_DAY + time_of_day t then w else w - 1)"
    have "getBudgetWindow r t now = \<lparr>bw_periodStartAt = window_anchor r t k, bw_nextResetAt = window_anchor r t (k + 1)\<rparr>"
      using IntervalWeekly weeks w
      by (simp add: getBudgetWindow_def hm Let_def d_def [symmetric] y_def [symmetric] m_def [symmetric] dt_def [symmetric]
          since_def [symmetric] ms k_def window_anchor_def add_diff_eq)
    moreover have "window_anchor r t k \<le> now \<and> now < window_anchor r t (k + 1)"
      using IntervalWeekly d tod w by (auto simp: k_def window_anchor_def MS_PER_DAY_def)
    ultimately show ?thesis by blast
  next
    case IntervalMonthly
    define n where "n = 12 * y + m"
    have n: "month_anchor n \<le> d" "d < month_anchor (n + 1)"
      using month_of_day_anchors [of d] by (simp_all add: n_def y_def m_def)
    have firsts: "make_day y m 1 = month_anchor n" "make_day y (m + 1) 1 = month_anchor (n + 1)"
      "make_day y (m - 1) 1 = month_anchor (n - 1)"
      by (simp_all add: make_day_anchor n_def add_diff_eq add.assoc)
    define k where "k = (if now \<ge> month_anchor n * MS_PER_DAY + time_of_day t then n else n - 1)"
    have "getBudgetWindow r t now = \<lparr>bw_periodStartAt = window_anchor r t k, bw_nextResetAt = window_anchor r t (k + 1)\<rparr>"
      using IntervalMonthly
      by (simp add: getBudgetWindow_def hm Let_def d_def [symmetric] y_def [symmetric] m_def [symmetric] dt_def [symmetric]
          ms firsts k_def window_anchor_def)
    moreover have "window_anchor r t k \<le> now \<and> now < window_anchor r t (k + 1)"
    proof -
      have "month_anchor (n - 1) + 1 \<le> month_anchor n" using month_anchor_step [of "n - 1"] by simp
      then show ?thesis using IntervalMonthly d tod n by (auto simp: k_def window_anchor_def MS_PER_DAY_def)
    qed
    ultimately show ?thesis by blast
  qed
qed

section \<open>Properties\<close>

text \<open>C24. From 1970 on the windows of a budget partition time: an instant lies in its window, and two instants have the same
  window exactly when the second lies in the window of the first, for daily, weekly and monthly resets at any time of day,
  over leap years, month lengths and year ends.\<close>

theorem budget_windows_partition_time:
  assumes "0 \<le> now" and "0 \<le> now'"
  shows "bw_periodStartAt (getBudgetWindow r t now) \<le> now \<and> now < bw_nextResetAt (getBudgetWindow r t now)
    \<and> (getBudgetWindow r t now' = getBudgetWindow r t now
        \<longleftrightarrow> bw_periodStartAt (getBudgetWindow r t now) \<le> now' \<and> now' < bw_nextResetAt (getBudgetWindow r t now))"
proof -
  obtain k where k: "getBudgetWindow r t now = \<lparr>bw_periodStartAt = window_anchor r t k, bw_nextResetAt = window_anchor r t (k + 1)\<rparr>"
    "window_anchor r t k \<le> now" "now < window_anchor r t (k + 1)" using window_anchors [OF assms(1)] by blast
  obtain k' where k': "getBudgetWindow r t now' = \<lparr>bw_periodStartAt = window_anchor r t k', bw_nextResetAt = window_anchor r t (k' + 1)\<rparr>"
    "window_anchor r t k' \<le> now'" "now' < window_anchor r t (k' + 1)" using window_anchors [OF assms(2)] by blast
  have mono: "window_anchor r t i < window_anchor r t j" if "i < j" for i j
    by (rule int_step_mono [of "window_anchor r t", OF window_anchor_step that])
  have le: "window_anchor r t i \<le> window_anchor r t j" if "i \<le> j" for i j
    using mono [of i j] that by (cases "i = j") auto
  have "k' = k \<longleftrightarrow> window_anchor r t k \<le> now' \<and> now' < window_anchor r t (k + 1)"
    using k' le [of "k + 1" k'] le [of "k' + 1" k] by (cases k k' rule: linorder_cases) auto
  moreover have "getBudgetWindow r t now' = getBudgetWindow r t now \<longleftrightarrow> k' = k"
    using k(1) k'(1) mono [of k k'] mono [of k' k] by (cases k k' rule: linorder_cases) auto
  ultimately show ?thesis using k by simp
qed

text \<open>The 29th of February 2024, noon, with a reset at 06:30 on the first of the month.\<close>

lemma budget_windows_partition_time_witness:
  "getBudgetWindow IntervalMonthly ''06:30'' 1709208000000 = \<lparr>bw_periodStartAt = 1706769000000, bw_nextResetAt = 1709274600000\<rparr>
   \<and> getBudgetWindow IntervalMonthly ''06:30'' 1709274599999 = getBudgetWindow IntervalMonthly ''06:30'' 1709208000000"
proof -
  have w: "getBudgetWindow IntervalMonthly ''06:30'' 1709208000000 = \<lparr>bw_periodStartAt = 1706769000000, bw_nextResetAt = 1709274600000\<rparr>"
    by code_simp
  then show ?thesis
    using budget_windows_partition_time [of 1709208000000 1709274599999 IntervalMonthly "''06:30''"] by simp
qed

end
