(* ===== verification/SpendWriter.thy ===== *)
theory SpendWriter
  imports JsString
begin

text \<open>
  The spend batch writer, \<open>src/lib/spend/batchWriter.ts\<close>, with its persistence \<open>batchSaveCostEntries\<close> and the cost queries of
  \<open>src/lib/db/domainState.ts\<close>. A database that is not ready is a value of the table. \<open>batchSaveCostEntries\<close> is synchronous, so a
  flush inserts its rows, or throws, within the call; what follows its \<open>await\<close> is the later step \<open>settle_flush\<close>. The timer only
  calls \<open>flush\<close>. \<open>resetForTests\<close> is left out.
\<close>

section \<open>State\<close>

record cost_entry =
  ce_apiKeyId :: string
  ce_cost :: rat
  ce_timestamp :: int

record cost_table =
  ct_rows :: "cost_entry list"
  ct_ready :: bool

record flush_result =
  fl_flushedEntries :: nat
  fl_uniqueKeys :: nat
  fl_requeued :: bool

text \<open>The field \<open>flushPromise\<close>: a promise that is still pending, with the result it will have, or one that has settled.\<close>

datatype flush_promise = FlushPending flush_result | FlushDone flush_result

record spend_writer =
  sp_buffer :: "cost_entry list"
  sp_inFlight :: "cost_entry list"
  sp_discarded :: "string list"
  sp_started :: bool
  sp_flushPromise :: "flush_promise option"
  sp_flushIntervalMs :: int
  sp_maxBufferSize :: int

definition DEFAULT_FLUSH_INTERVAL_MS :: int where "DEFAULT_FLUSH_INTERVAL_MS = 60000"
definition DEFAULT_MAX_BUFFER_SIZE :: int where "DEFAULT_MAX_BUFFER_SIZE = 1000"

definition getFlushIntervalMs :: "string option \<Rightarrow> int" where
  "getFlushIntervalMs env =
     (case parseInt10 (case env of None \<Rightarrow> [] | Some s \<Rightarrow> s) of
        Some n \<Rightarrow> if n > 0 then n else DEFAULT_FLUSH_INTERVAL_MS | None \<Rightarrow> DEFAULT_FLUSH_INTERVAL_MS)"

definition getMaxBufferSize :: "string option \<Rightarrow> int" where
  "getMaxBufferSize env =
     (case parseInt10 (case env of None \<Rightarrow> [] | Some s \<Rightarrow> s) of
        Some n \<Rightarrow> if n > 0 then n else DEFAULT_MAX_BUFFER_SIZE | None \<Rightarrow> DEFAULT_MAX_BUFFER_SIZE)"

definition new_SpendBatchWriter :: "int option \<Rightarrow> int option \<Rightarrow> string option \<Rightarrow> string option \<Rightarrow> spend_writer" where
  "new_SpendBatchWriter flushIntervalMs maxBufferSize env1 env2 =
     \<lparr>sp_buffer = [], sp_inFlight = [], sp_discarded = [], sp_started = False, sp_flushPromise = None,
      sp_flushIntervalMs = (case flushIntervalMs of Some n \<Rightarrow> n | None \<Rightarrow> getFlushIntervalMs env1),
      sp_maxBufferSize = (case maxBufferSize of Some n \<Rightarrow> n | None \<Rightarrow> getMaxBufferSize env2)\<rparr>"

section \<open>The table\<close>

text \<open>One transaction: every row or, when the database is not ready, an error.\<close>

definition batchSaveCostEntries :: "cost_entry list \<Rightarrow> cost_table \<Rightarrow> cost_table option" where
  "batchSaveCostEntries es t = (if ct_ready t then Some (t\<lparr>ct_rows := ct_rows t @ es\<rparr>) else None)"

definition in_window :: "string \<Rightarrow> int \<Rightarrow> int option \<Rightarrow> cost_entry \<Rightarrow> bool" where
  "in_window key since til e \<longleftrightarrow>
     ce_apiKeyId e = key \<and> ce_timestamp e \<ge> since \<and> (case til of None \<Rightarrow> True | Some u \<Rightarrow> ce_timestamp e < u)"

definition cost_sum :: "cost_entry list \<Rightarrow> rat" where
  "cost_sum es = sum_list (map ce_cost es)"

definition loadCostTotal :: "string \<Rightarrow> int \<Rightarrow> cost_table \<Rightarrow> rat option" where
  "loadCostTotal key since t = (if ct_ready t then Some (cost_sum (filter (in_window key since None) (ct_rows t))) else None)"

definition loadCostEntriesInRange :: "string \<Rightarrow> int \<Rightarrow> int \<Rightarrow> cost_table \<Rightarrow> cost_entry list option" where
  "loadCostEntriesInRange key since til t =
     (if ct_ready t then Some (sort_key ce_timestamp (filter (in_window key since (Some til)) (ct_rows t))) else None)"

definition deleteCostEntries :: "string \<Rightarrow> cost_table \<Rightarrow> cost_table option" where
  "deleteCostEntries key t =
     (if ct_ready t then Some (t\<lparr>ct_rows := filter (\<lambda>e. ce_apiKeyId e \<noteq> key) (ct_rows t)\<rparr>) else None)"

section \<open>The writer\<close>

text \<open>A cost that is not finite is \<open>None\<close>; so is a time stamp that is not.\<close>

definition normalizeEntry :: "int \<Rightarrow> string \<Rightarrow> rat option \<Rightarrow> int option \<Rightarrow> cost_entry option" where
  "normalizeEntry now key cost ts =
     (if key = [] then None
      else (case cost of
              None \<Rightarrow> None
            | Some c \<Rightarrow> if c \<le> 0 then None
                        else Some \<lparr>ce_apiKeyId = key, ce_cost = c, ce_timestamp = (case ts of Some t \<Rightarrow> t | None \<Rightarrow> now)\<rparr>))"

definition sp_start :: "spend_writer \<Rightarrow> spend_writer" where
  "sp_start w = w\<lparr>sp_started := True\<rparr>"

text \<open>
  \<open>flush\<close>: the asynchronous body runs up to its first \<open>await\<close> inside the call, and the assignment of its promise comes after
  that. When the body ends in the call (nothing to persist, or the save throws), its \<open>finally\<close> runs before the assignment.
\<close>

definition sp_flush :: "spend_writer \<Rightarrow> cost_table \<Rightarrow> flush_promise \<times> spend_writer \<times> cost_table" where
  "sp_flush w t =
     (case sp_flushPromise w of
        Some p \<Rightarrow> (p, w, t)
      | None \<Rightarrow>
          if sp_buffer w = [] then (FlushDone \<lparr>fl_flushedEntries = 0, fl_uniqueKeys = 0, fl_requeued = False\<rparr>, w, t)
          else
            (let entriesToFlush = sp_buffer w;
                 w1 = w\<lparr>sp_buffer := [], sp_inFlight := entriesToFlush\<rparr>;
                 entriesToPersist = filter (\<lambda>e. ce_apiKeyId e \<notin> set (sp_discarded w)) entriesToFlush;
                 uniqueKeys = length (remdups (map ce_apiKeyId entriesToPersist));
                 ok = \<lparr>fl_flushedEntries = length entriesToPersist, fl_uniqueKeys = uniqueKeys, fl_requeued = False\<rparr>
             in if entriesToPersist = []
                then (FlushDone ok, w1\<lparr>sp_inFlight := [], sp_flushPromise := Some (FlushDone ok)\<rparr>, t)
                else (case batchSaveCostEntries entriesToPersist t of
                        Some t' \<Rightarrow> (FlushPending ok, w1\<lparr>sp_flushPromise := Some (FlushPending ok)\<rparr>, t')
                      | None \<Rightarrow>
                          (let failed = \<lparr>fl_flushedEntries = 0, fl_uniqueKeys = uniqueKeys, fl_requeued = True\<rparr>
                           in (FlushDone failed,
                               w1\<lparr>sp_buffer := entriesToPersist @ sp_buffer w1, sp_inFlight := [],
                                  sp_flushPromise := Some (FlushDone failed)\<rparr>, t)))))"

text \<open>What follows the \<open>await\<close>: the \<open>finally\<close> of a flush whose save returned.\<close>

definition settle_flush :: "spend_writer \<Rightarrow> spend_writer" where
  "settle_flush w =
     (case sp_flushPromise w of Some (FlushPending _) \<Rightarrow> w\<lparr>sp_inFlight := [], sp_flushPromise := None\<rparr> | _ \<Rightarrow> w)"

definition sp_increment :: "int \<Rightarrow> string \<Rightarrow> rat option \<Rightarrow> int option \<Rightarrow> spend_writer \<Rightarrow> cost_table \<Rightarrow> spend_writer \<times> cost_table" where
  "sp_increment now key cost ts w t =
     (case normalizeEntry now key cost ts of
        None \<Rightarrow> (w, t)
      | Some e \<Rightarrow>
          (let w1 = (sp_start w)\<lparr>sp_discarded := filter (\<lambda>k. k \<noteq> ce_apiKeyId e) (sp_discarded w), sp_buffer := sp_buffer w @ [e]\<rparr>
           in if int (length (sp_buffer w1)) \<ge> sp_maxBufferSize w1 then snd (sp_flush w1 t) else (w1, t)))"

definition getBufferedEntries :: "string \<Rightarrow> int \<Rightarrow> int option \<Rightarrow> spend_writer \<Rightarrow> cost_entry list" where
  "getBufferedEntries key since til w = filter (in_window key since til) (sp_inFlight w @ sp_buffer w)"

definition getPendingCostTotal :: "string \<Rightarrow> int \<Rightarrow> int option \<Rightarrow> spend_writer \<Rightarrow> rat" where
  "getPendingCostTotal key since til w = cost_sum (getBufferedEntries key since til w)"

definition discardEntries :: "string \<Rightarrow> spend_writer \<Rightarrow> spend_writer" where
  "discardEntries key w =
     w\<lparr>sp_discarded := (if key \<in> set (sp_discarded w) then sp_discarded w else sp_discarded w @ [key]),
       sp_buffer := filter (\<lambda>e. ce_apiKeyId e \<noteq> key) (sp_buffer w),
       sp_inFlight := filter (\<lambda>e. ce_apiKeyId e \<noteq> key) (sp_inFlight w)\<rparr>"

definition sp_stop :: "spend_writer \<Rightarrow> cost_table \<Rightarrow> flush_promise \<times> spend_writer \<times> cost_table" where
  "sp_stop w t = sp_flush (w\<lparr>sp_started := False\<rparr>) t"

section \<open>Runs\<close>

datatype spend_event = Spend int string "rat option" "int option" | FlushNow | Settle | Forget string | Ready bool

text \<open>\<open>Forget\<close> is what \<open>deleteBudget\<close> of the cost rules does with a key: discard, then delete the rows.\<close>

fun spend_step :: "spend_writer \<times> cost_table \<Rightarrow> spend_event \<Rightarrow> spend_writer \<times> cost_table" where
  "spend_step (w, t) (Spend now key cost ts) = sp_increment now key cost ts w t"
| "spend_step (w, t) FlushNow = snd (sp_flush w t)"
| "spend_step (w, t) Settle = (settle_flush w, t)"
| "spend_step (w, t) (Forget key) =
     (discardEntries key w, case deleteCostEntries key t of Some t' \<Rightarrow> t' | None \<Rightarrow> t)"
| "spend_step (w, t) (Ready b) = (w, t\<lparr>ct_ready := b\<rparr>)"

definition spend_run :: "spend_writer \<times> cost_table \<Rightarrow> spend_event list \<Rightarrow> spend_writer \<times> cost_table" where
  "spend_run s es = run spend_step s es"

text \<open>What should be on the books: every entry recorded, less those of forgotten keys.\<close>

fun ledger :: "spend_event list \<Rightarrow> cost_entry list \<Rightarrow> cost_entry list" where
  "ledger [] l = l"
| "ledger (Spend now key cost ts # es) l =
     ledger es (case normalizeEntry now key cost ts of None \<Rightarrow> l | Some e \<Rightarrow> l @ [e])"
| "ledger (Forget key # es) l = ledger es (filter (\<lambda>e. ce_apiKeyId e \<noteq> key) l)"
| "ledger (_ # es) l = ledger es l"

text \<open>Keys are forgotten only while the database is ready; otherwise their rows stay.\<close>

fun forgets_when_ready :: "bool \<Rightarrow> spend_event list \<Rightarrow> bool" where
  "forgets_when_ready r [] = True"
| "forgets_when_ready r (Ready b # es) = forgets_when_ready b es"
| "forgets_when_ready r (Forget key # es) \<longleftrightarrow> r \<and> forgets_when_ready r es"
| "forgets_when_ready r (_ # es) = forgets_when_ready r es"

section \<open>The account\<close>

definition spend_inv :: "spend_writer \<times> cost_table \<Rightarrow> bool" where
  "spend_inv s \<longleftrightarrow>
     (\<forall>e\<in>set (sp_buffer (fst s)). ce_apiKeyId e \<notin> set (sp_discarded (fst s)))
     \<and> (sp_inFlight (fst s) = [] \<or> (\<exists>r. sp_flushPromise (fst s) = Some (FlushPending r)))"

definition books :: "spend_writer \<times> cost_table \<Rightarrow> cost_entry multiset" where
  "books s = mset (ct_rows (snd s)) + mset (sp_buffer (fst s))"

lemma kept_entries: "spend_inv (w, t) \<Longrightarrow> filter (\<lambda>e. ce_apiKeyId e \<notin> set (sp_discarded w)) (sp_buffer w) = sp_buffer w"
  by (simp add: spend_inv_def)

lemma flush_account:
  assumes "spend_inv (w, t)"
  shows "spend_inv (snd (sp_flush w t))" and "books (snd (sp_flush w t)) = books (w, t)"
    and "ct_ready (snd (snd (sp_flush w t))) = ct_ready t"
  using assms
  by (auto simp: sp_flush_def kept_entries [OF assms] Let_def batchSaveCostEntries_def books_def spend_inv_def
      split: option.split)

lemma increment_account:
  assumes inv: "spend_inv (w, t)"
  shows "spend_inv (sp_increment now key cost ts w t)"
    and "books (sp_increment now key cost ts w t) =
      books (w, t) + (case normalizeEntry now key cost ts of None \<Rightarrow> {#} | Some e \<Rightarrow> {#e#})"
    and "ct_ready (snd (sp_increment now key cost ts w t)) = ct_ready t"
proof -
  have "spend_inv (sp_increment now key cost ts w t)
    \<and> books (sp_increment now key cost ts w t) =
      books (w, t) + (case normalizeEntry now key cost ts of None \<Rightarrow> {#} | Some e \<Rightarrow> {#e#})
    \<and> ct_ready (snd (sp_increment now key cost ts w t)) = ct_ready t"
  proof (cases "normalizeEntry now key cost ts")
    case None
    then show ?thesis using inv by (simp add: sp_increment_def)
  next
    case (Some e)
    define w1 where "w1 = (sp_start w)\<lparr>sp_discarded := filter (\<lambda>k. k \<noteq> ce_apiKeyId e) (sp_discarded w), sp_buffer := sp_buffer w @ [e]\<rparr>"
    have inv1: "spend_inv (w1, t)" using inv by (auto simp: spend_inv_def w1_def sp_start_def)
    have books1: "books (w1, t) = books (w, t) + {#e#}" by (simp add: books_def w1_def sp_start_def)
    have "sp_increment now key cost ts w t =
        (if int (length (sp_buffer w1)) \<ge> sp_maxBufferSize w1 then snd (sp_flush w1 t) else (w1, t))"
      by (simp add: sp_increment_def Some Let_def w1_def)
    then show ?thesis using inv1 books1 Some flush_account [OF inv1] by simp
  qed
  then show "spend_inv (sp_increment now key cost ts w t)"
    and "books (sp_increment now key cost ts w t) =
      books (w, t) + (case normalizeEntry now key cost ts of None \<Rightarrow> {#} | Some e \<Rightarrow> {#e#})"
    and "ct_ready (snd (sp_increment now key cost ts w t)) = ct_ready t"
    by blast+
qed

lemma run_account:
  assumes "spend_inv s" and "books s = mset l" and "forgets_when_ready (ct_ready (snd s)) es"
  shows "spend_inv (spend_run s es) \<and> books (spend_run s es) = mset (ledger es l)"
  using assms unfolding spend_run_def
proof (induction es arbitrary: s l)
  case (Cons e es)
  obtain w t where s: "s = (w, t)" by (cases s)
  have inv: "spend_inv (w, t)" and books: "books (w, t) = mset l" and ready: "forgets_when_ready (ct_ready t) (e # es)"
    using Cons.prems by (simp_all add: s)
  show ?case
  proof (cases e)
    case (Spend now key cost ts)
    note inc = increment_account [OF inv, of now key cost ts]
    have "books (sp_increment now key cost ts w t) = mset (case normalizeEntry now key cost ts of None \<Rightarrow> l | Some e \<Rightarrow> l @ [e])"
      using inc(2) books by (simp split: option.split)
    from Cons.IH [OF inc(1) this] show ?thesis using inc(3) ready Spend s by simp
  next
    case FlushNow
    from Cons.IH [OF flush_account(1) [OF inv], of l] show ?thesis
      using flush_account(2,3) [OF inv] books ready FlushNow s by simp
  next
    case Settle
    have "spend_inv (settle_flush w, t)" "books (settle_flush w, t) = mset l"
      using inv books by (auto simp: settle_flush_def spend_inv_def books_def split: option.split flush_promise.split)
    from Cons.IH [OF this] show ?thesis using ready Settle s by simp
  next
    case (Forget key)
    then have r: "ct_ready t" using ready by simp
    let ?t = "t\<lparr>ct_rows := filter (\<lambda>e. ce_apiKeyId e \<noteq> key) (ct_rows t)\<rparr>"
    have "spend_inv (discardEntries key w, ?t)" using inv by (auto simp: spend_inv_def discardEntries_def)
    moreover have "books (discardEntries key w, ?t) = filter_mset (\<lambda>e. ce_apiKeyId e \<noteq> key) (books (w, t))"
      by (simp add: books_def discardEntries_def mset_filter)
    ultimately show ?thesis using Cons.IH [of "(discardEntries key w, ?t)" "filter (\<lambda>e. ce_apiKeyId e \<noteq> key) l"] books ready r Forget s
      by (simp add: deleteCostEntries_def mset_filter)
  next
    case (Ready b)
    have "spend_inv (w, t\<lparr>ct_ready := b\<rparr>)" "books (w, t\<lparr>ct_ready := b\<rparr>) = mset l"
      using inv books by (simp_all add: spend_inv_def books_def)
    from Cons.IH [OF this] show ?thesis using ready Ready s by simp
  qed
qed simp

lemma cost_sum_simps [simp]: "cost_sum [] = 0" "cost_sum (e # es) = ce_cost e + cost_sum es"
  "cost_sum (es @ fs) = cost_sum es + cost_sum fs"
  by (simp_all add: cost_sum_def)

lemma cost_sum_mset: "mset es = mset fs \<Longrightarrow> cost_sum (filter P es) = cost_sum (filter P fs)"
proof -
  assume "mset es = mset fs"
  then have "mset (map ce_cost (filter P es)) = mset (map ce_cost (filter P fs))" by (simp add: mset_filter)
  then show ?thesis unfolding cost_sum_def by (metis sum_mset_sum_list)
qed

lemma new_writer_inv: "spend_inv (new_SpendBatchWriter a b c d, t)" "books (new_SpendBatchWriter a b c d, t) = mset (ct_rows t)"
  by (simp_all add: spend_inv_def books_def new_SpendBatchWriter_def)

text \<open>A writer whose promise has settled never flushes again.\<close>

lemma writer_wedged_step:
  assumes "sp_flushPromise w = Some (FlushDone r)"
  shows "sp_flushPromise (fst (spend_step (w, t) e)) = Some (FlushDone r) \<and> set (ct_rows (snd (spend_step (w, t) e))) \<subseteq> set (ct_rows t)"
  using assms
  by (cases e)
    (auto simp: sp_increment_def sp_start_def sp_flush_def settle_flush_def discardEntries_def deleteCostEntries_def Let_def
      split: option.split)

lemma wedged_run:
  assumes "sp_flushPromise w = Some (FlushDone r)"
  shows "set (ct_rows (snd (run spend_step (w, t) es))) \<subseteq> set (ct_rows t)"
  using assms
proof (induction es arbitrary: w t)
  case (Cons e es)
  obtain w' t' where st: "spend_step (w, t) e = (w', t')" by (cases "spend_step (w, t) e")
  with writer_wedged_step [OF Cons.prems, of t e] have "sp_flushPromise w' = Some (FlushDone r)" "set (ct_rows t') \<subseteq> set (ct_rows t)"
    by simp_all
  with Cons.IH [of w' t'] st show ?case by auto
qed simp

section \<open>Properties\<close>

text \<open>C23. However spending, flushes that succeed or fail, their late ends and database outages follow each other, with keys forgotten
  only while the database is up, no cost is lost or doubled: the rows of the table and the entries still buffered are together exactly
  the recorded entries of the keys not forgotten; and over any window the rows and the pending entries of a key add up to the total
  of its recorded entries, plus those of a flush that has written its rows and not yet ended. A budget check adds up these two
  while the database is up; in an outage it reads no total at all, and a key forgotten then keeps its rows.\<close>

theorem spend_books_balance:
  assumes "forgets_when_ready (ct_ready t0) es" and "ct_rows t0 = []"
    and "(w, t) = spend_run (new_SpendBatchWriter a b c d, t0) es"
  shows "mset (ct_rows t) + mset (sp_buffer w) = mset (ledger es [])
    \<and> cost_sum (filter (in_window key since til) (ct_rows t)) + getPendingCostTotal key since til w =
        cost_sum (filter (in_window key since til) (ledger es [])) + cost_sum (filter (in_window key since til) (sp_inFlight w))
    \<and> (sp_inFlight w = [] \<or> (\<exists>r. sp_flushPromise w = Some (FlushPending r)))"
proof -
  have "spend_inv (w, t) \<and> books (w, t) = mset (ledger es [])"
    using run_account [of "(new_SpendBatchWriter a b c d, t0)" "[]" es] new_writer_inv [of a b c d t0] assms by simp
  then have inv: "spend_inv (w, t)" and books: "mset (ct_rows t @ sp_buffer w) = mset (ledger es [])"
    by (simp_all add: books_def)
  have "cost_sum (filter (in_window key since til) (ct_rows t @ sp_buffer w)) = cost_sum (filter (in_window key since til) (ledger es []))"
    by (rule cost_sum_mset [OF books])
  then show ?thesis using inv books by (simp add: getPendingCostTotal_def getBufferedEntries_def spend_inv_def algebra_simps)
qed

definition ex_spend :: "spend_event list" where
  "ex_spend = [Spend 1 ''k'' (Some 2) None, Ready False, Spend 2 ''j'' (Some 3) None, Ready True, FlushNow, Spend 5 ''k'' (Some 4) (Some 3), Settle]"

lemma spend_books_balance_witness:
  "\<exists>w t. (w, t) = spend_run (new_SpendBatchWriter None None None None, \<lparr>ct_rows = [], ct_ready = True\<rparr>) ex_spend
    \<and> cost_sum (filter (in_window ''k'' 0 None) (ct_rows t)) + getPendingCostTotal ''k'' 0 None w = 6 \<and> sp_inFlight w = []"
proof -
  define s where "s = spend_run (new_SpendBatchWriter None None None None, \<lparr>ct_rows = [], ct_ready = True\<rparr>) ex_spend"
  obtain w t where wt: "(w, t) = s" by (cases s) auto
  have "forgets_when_ready True ex_spend" by (simp add: ex_spend_def)
  then have "cost_sum (filter (in_window ''k'' 0 None) (ct_rows t)) + getPendingCostTotal ''k'' 0 None w =
      cost_sum (filter (in_window ''k'' 0 None) (ledger ex_spend [])) + cost_sum (filter (in_window ''k'' 0 None) (sp_inFlight w))"
    using spend_books_balance [of "\<lparr>ct_rows = [], ct_ready = True\<rparr>" ex_spend w t None None None None "''k''" 0 None] wt
    by (simp add: s_def)
  moreover have "sp_inFlight (fst s) = []"
    unfolding s_def spend_run_def ex_spend_def by code_simp
  moreover have "cost_sum (filter (in_window ''k'' 0 None) (ledger ex_spend [])) = 6"
    by (simp add: ex_spend_def normalizeEntry_def in_window_def)
  ultimately show ?thesis using wt unfolding s_def by (metis add.right_neutral cost_sum_simps(1) filter.simps(1) fst_conv)
qed

lemma a_key_forgotten_in_an_outage_keeps_its_rows:
  "map ce_cost (ct_rows (snd (spend_run (new_SpendBatchWriter None None None None, \<lparr>ct_rows = [], ct_ready = True\<rparr>)
     [Spend 1 ''k'' (Some 2) None, FlushNow, Settle, Ready False, Forget ''k'', Ready True]))) = [2]"
  unfolding spend_run_def by code_simp

text \<open>A flush whose save throws leaves its settled promise behind, so the writer is dead: whatever follows, database back or not,
  no further row is ever written.\<close>

theorem failed_flush_wedges_the_writer:
  assumes "sp_flushPromise w = None" and "sp_buffer w \<noteq> []" and "\<not> ct_ready t"
  shows "set (ct_rows (snd (spend_run (w, t) (FlushNow # es)))) \<subseteq> set (ct_rows t)"
proof -
  have "\<exists>r. sp_flushPromise (fst (snd (sp_flush w t))) = Some (FlushDone r)" and "ct_rows (snd (snd (sp_flush w t))) = ct_rows t"
    using assms by (simp_all add: sp_flush_def Let_def batchSaveCostEntries_def)
  then obtain r where "sp_flushPromise (fst (snd (sp_flush w t))) = Some (FlushDone r)" "ct_rows (snd (snd (sp_flush w t))) = ct_rows t"
    by blast
  then show ?thesis using wedged_run [of "fst (snd (sp_flush w t))" r "snd (snd (sp_flush w t))" es] by (simp add: spend_run_def)
qed

lemma failed_flush_wedges_the_writer_witness:
  "ct_rows (snd (spend_run (new_SpendBatchWriter None None None None, \<lparr>ct_rows = [], ct_ready = False\<rparr>)
     [Spend 1 ''k'' (Some 2) None, FlushNow, Settle, Ready True, Spend 2 ''k'' (Some 3) None, FlushNow, Settle])) = []"
proof -
  define w where "w = fst (spend_run (new_SpendBatchWriter None None None None, \<lparr>ct_rows = [], ct_ready = False\<rparr>) [Spend 1 ''k'' (Some 2) None])"
  have w: "w = (new_SpendBatchWriter None None None None)\<lparr>sp_started := True, sp_buffer := [\<lparr>ce_apiKeyId = ''k'', ce_cost = 2, ce_timestamp = 1\<rparr>]\<rparr>"
    by (simp add: w_def spend_run_def sp_increment_def normalizeEntry_def sp_start_def new_SpendBatchWriter_def Let_def
        getMaxBufferSize_def DEFAULT_MAX_BUFFER_SIZE_def parseInt10_def)
  have "spend_run (new_SpendBatchWriter None None None None, \<lparr>ct_rows = [], ct_ready = False\<rparr>)
     [Spend 1 ''k'' (Some 2) None, FlushNow, Settle, Ready True, Spend 2 ''k'' (Some 3) None, FlushNow, Settle] =
    spend_run (w, \<lparr>ct_rows = [], ct_ready = False\<rparr>) (FlushNow # [Settle, Ready True, Spend 2 ''k'' (Some 3) None, FlushNow, Settle])"
    unfolding w by (simp add: spend_run_def sp_increment_def normalizeEntry_def sp_start_def new_SpendBatchWriter_def Let_def
        getMaxBufferSize_def DEFAULT_MAX_BUFFER_SIZE_def parseInt10_def)
  then show ?thesis
    using failed_flush_wedges_the_writer [of w "\<lparr>ct_rows = [], ct_ready = False\<rparr>" "[Settle, Ready True, Spend 2 ''k'' (Some 3) None, FlushNow, Settle]"]
    by (simp add: w new_SpendBatchWriter_def)
qed

end
