(* ===== verification/CostRules.thy ===== *)
theory CostRules
  imports BudgetCalendar SpendWriter "HOL-Library.List_Lexorder" "HOL-Library.Char_ord"
begin

text \<open>
  The cost rules, \<open>src/domain/costRules.ts\<close>, over the batch writer and the budget tables of \<open>src/lib/db/domainState.ts\<close>. The
  tables share the readiness of the cost table. Log lines and the text of a denial are left out, and so are the two summaries
  for the dashboard, whose days begin in the server's time zone.
\<close>

section \<open>Configurations\<close>

record budget_config =
  bc_dailyLimitUsd :: rat
  bc_weeklyLimitUsd :: rat
  bc_monthlyLimitUsd :: rat
  bc_warningThreshold :: rat
  bc_resetInterval :: reset_interval
  bc_resetTime :: string
  bc_budgetResetAt :: "int option"
  bc_lastBudgetResetAt :: "int option"
  bc_warningEmittedAt :: "int option"
  bc_warningPeriodStart :: "int option"

text \<open>A configuration as it comes in; \<open>None\<close> is a value \<open>toNumber\<close> cannot use, or a field that is not a string.\<close>

record raw_budget =
  rb_dailyLimitUsd :: "rat option"
  rb_weeklyLimitUsd :: "rat option"
  rb_monthlyLimitUsd :: "rat option"
  rb_warningThreshold :: "rat option"
  rb_resetInterval :: "string option"
  rb_resetTime :: "string option"
  rb_budgetResetAt :: "int option"
  rb_lastBudgetResetAt :: "int option"
  rb_warningEmittedAt :: "int option"
  rb_warningPeriodStart :: "int option"

definition js_lower :: "string \<Rightarrow> string" where
  "js_lower s = map (\<lambda>c. if 65 \<le> (of_char c :: nat) \<and> (of_char c :: nat) \<le> 90 then char_of ((of_char c :: nat) + 32) else c) s"

fun interval_name :: "reset_interval \<Rightarrow> string" where
  "interval_name IntervalDaily = ''daily''"
| "interval_name IntervalWeekly = ''weekly''"
| "interval_name IntervalMonthly = ''monthly''"

definition normalizeResetInterval :: "string option \<Rightarrow> reset_interval" where
  "normalizeResetInterval v =
     (case v of
        None \<Rightarrow> IntervalDaily
      | Some s \<Rightarrow>
          (let n = js_lower (js_trim s)
           in if n = ''weekly'' then IntervalWeekly else if n = ''monthly'' then IntervalMonthly else IntervalDaily))"

definition number_or :: "rat \<Rightarrow> rat option \<Rightarrow> rat" where
  "number_or fallback v = (case v of None \<Rightarrow> fallback | Some q \<Rightarrow> q)"

definition normalizeTimestamp :: "int option \<Rightarrow> int option" where
  "normalizeTimestamp v = (case v of Some n \<Rightarrow> if n > 0 then Some n else None | None \<Rightarrow> None)"

definition normalizeBudgetConfig :: "raw_budget \<Rightarrow> budget_config" where
  "normalizeBudgetConfig c =
     \<lparr>bc_dailyLimitUsd = max 0 (number_or 0 (rb_dailyLimitUsd c)),
      bc_weeklyLimitUsd = max 0 (number_or 0 (rb_weeklyLimitUsd c)),
      bc_monthlyLimitUsd = max 0 (number_or 0 (rb_monthlyLimitUsd c)),
      bc_warningThreshold = min (max (number_or (8 / 10) (rb_warningThreshold c)) 0) 1,
      bc_resetInterval = normalizeResetInterval (rb_resetInterval c),
      bc_resetTime = normalizeResetTime (rb_resetTime c),
      bc_budgetResetAt = normalizeTimestamp (rb_budgetResetAt c),
      bc_lastBudgetResetAt = normalizeTimestamp (rb_lastBudgetResetAt c),
      bc_warningEmittedAt = normalizeTimestamp (rb_warningEmittedAt c),
      bc_warningPeriodStart = normalizeTimestamp (rb_warningPeriodStart c)\<rparr>"

text \<open>A stored configuration read back, from the cache or from its row.\<close>

definition as_raw :: "budget_config \<Rightarrow> raw_budget" where
  "as_raw c =
     \<lparr>rb_dailyLimitUsd = Some (bc_dailyLimitUsd c), rb_weeklyLimitUsd = Some (bc_weeklyLimitUsd c),
      rb_monthlyLimitUsd = Some (bc_monthlyLimitUsd c), rb_warningThreshold = Some (bc_warningThreshold c),
      rb_resetInterval = Some (interval_name (bc_resetInterval c)), rb_resetTime = Some (bc_resetTime c),
      rb_budgetResetAt = bc_budgetResetAt c, rb_lastBudgetResetAt = bc_lastBudgetResetAt c,
      rb_warningEmittedAt = bc_warningEmittedAt c, rb_warningPeriodStart = bc_warningPeriodStart c\<rparr>"

definition getActiveBudgetLimit :: "budget_config \<Rightarrow> rat" where
  "getActiveBudgetLimit b =
     (case bc_resetInterval b of
        IntervalMonthly \<Rightarrow> if bc_monthlyLimitUsd b > 0 then bc_monthlyLimitUsd b else bc_dailyLimitUsd b
      | IntervalWeekly \<Rightarrow> if bc_weeklyLimitUsd b > 0 then bc_weeklyLimitUsd b else bc_dailyLimitUsd b
      | IntervalDaily \<Rightarrow> bc_dailyLimitUsd b)"

section \<open>The world of the rules\<close>

record reset_log =
  rg_apiKeyId :: string
  rg_resetInterval :: reset_interval
  rg_previousSpend :: rat
  rg_resetAt :: int
  rg_nextResetAt :: int
  rg_periodStart :: int
  rg_periodEnd :: int

record cost_world =
  cw_cache :: "(string, budget_config) jsmap"
  cw_budgets :: "(string, budget_config) jsmap"
  cw_logs :: "reset_log list"
  cw_writer :: spend_writer
  cw_table :: cost_table

text \<open>The writes of the budget tables; each is wrapped in a \<open>try\<close> that ignores the error.\<close>

definition saveBudget :: "string \<Rightarrow> budget_config \<Rightarrow> cost_world \<Rightarrow> cost_world" where
  "saveBudget key b s = (if ct_ready (cw_table s) then s\<lparr>cw_budgets := jm_set key b (cw_budgets s)\<rparr> else s)"

definition saveBudgetResetLog :: "reset_log \<Rightarrow> cost_world \<Rightarrow> cost_world" where
  "saveBudgetResetLog g s = (if ct_ready (cw_table s) then s\<lparr>cw_logs := cw_logs s @ [g]\<rparr> else s)"

definition loadBudget :: "string \<Rightarrow> cost_world \<Rightarrow> budget_config option" where
  "loadBudget key s = (if ct_ready (cw_table s) then jm_get (cw_budgets s) key else None)"

definition getBudgetWindowTotal :: "string \<Rightarrow> int \<Rightarrow> cost_world \<Rightarrow> rat" where
  "getBudgetWindowTotal key periodStartAt s =
     (case loadCostTotal key periodStartAt (cw_table s) of
        None \<Rightarrow> 0
      | Some x \<Rightarrow> x + getPendingCostTotal key periodStartAt None (cw_writer s))"

definition getBudgetWindowRangeTotal :: "string \<Rightarrow> int \<Rightarrow> int \<Rightarrow> cost_world \<Rightarrow> rat" where
  "getBudgetWindowRangeTotal key periodStartAt periodEndAt s =
     (case loadCostEntriesInRange key periodStartAt periodEndAt (cw_table s) of
        None \<Rightarrow> 0
      | Some es \<Rightarrow> cost_sum es + getPendingCostTotal key periodStartAt (Some periodEndAt) (cw_writer s))"

section \<open>Operations\<close>

definition syncBudgetSchedule :: "string \<Rightarrow> raw_budget \<Rightarrow> int \<Rightarrow> bool \<Rightarrow> bool \<Rightarrow> cost_world \<Rightarrow> budget_config \<times> cost_world" where
  "syncBudgetSchedule key config now logReset persist s =
     (let normalized = normalizeBudgetConfig config;
          window = getBudgetWindow (bc_resetInterval normalized) (bc_resetTime normalized) now;
          resetRolled = (case bc_lastBudgetResetAt normalized of None \<Rightarrow> False | Some l \<Rightarrow> bw_periodStartAt window > l);
          s1 = (if resetRolled \<and> logReset
                then saveBudgetResetLog
                       \<lparr>rg_apiKeyId = key, rg_resetInterval = bc_resetInterval normalized,
                        rg_previousSpend = getBudgetWindowRangeTotal key (the (bc_lastBudgetResetAt normalized)) (bw_periodStartAt window) s,
                        rg_resetAt = bw_periodStartAt window, rg_nextResetAt = bw_nextResetAt window,
                        rg_periodStart = bw_periodStartAt window, rg_periodEnd = bw_nextResetAt window\<rparr> s
                else s);
          updated = normalized\<lparr>bc_budgetResetAt := Some (bw_nextResetAt window),
                               bc_lastBudgetResetAt := Some (bw_periodStartAt window),
                               bc_warningEmittedAt := (if resetRolled then None else bc_warningEmittedAt normalized),
                               bc_warningPeriodStart := (if resetRolled then None else bc_warningPeriodStart normalized)\<rparr>;
          s2 = (if normalized \<noteq> updated \<and> persist then saveBudget key updated s1 else s1)
      in (updated, s2\<lparr>cw_cache := jm_set key updated (cw_cache s2)\<rparr>))"

definition setBudget :: "string \<Rightarrow> raw_budget \<Rightarrow> int \<Rightarrow> cost_world \<Rightarrow> budget_config \<times> cost_world" where
  "setBudget key config now s = syncBudgetSchedule key config now False True s"

definition getBudget :: "string \<Rightarrow> int \<Rightarrow> cost_world \<Rightarrow> budget_config option \<times> cost_world" where
  "getBudget key now s =
     (case jm_get (cw_cache s) key of
        Some b \<Rightarrow> map_prod Some id (syncBudgetSchedule key (as_raw b) now True True s)
      | None \<Rightarrow>
          (case loadBudget key s of
             Some b \<Rightarrow> map_prod Some id (syncBudgetSchedule key (as_raw b) now True True s)
           | None \<Rightarrow> (None, s)))"

definition cr_deleteBudget :: "string \<Rightarrow> cost_world \<Rightarrow> cost_world" where
  "cr_deleteBudget key s =
     (let s1 = s\<lparr>cw_cache := jm_del key (cw_cache s), cw_writer := discardEntries key (cw_writer s)\<rparr>
      in if ct_ready (cw_table s1)
         then s1\<lparr>cw_budgets := jm_del key (cw_budgets s1), cw_logs := filter (\<lambda>g. rg_apiKeyId g \<noteq> key) (cw_logs s1),
                 cw_table := (case deleteCostEntries key (cw_table s1) of Some t \<Rightarrow> t | None \<Rightarrow> cw_table s1)\<rparr>
         else s1)"

definition recordCost :: "int \<Rightarrow> string \<Rightarrow> rat option \<Rightarrow> cost_world \<Rightarrow> cost_world" where
  "recordCost now key cost s =
     (let (w, t) = sp_increment now key cost (Some now) (cw_writer s) (cw_table s) in s\<lparr>cw_writer := w, cw_table := t\<rparr>)"

text \<open>All budgets of the table, in the order of their keys.\<close>

definition syncAllBudgetSchedules :: "int \<Rightarrow> cost_world \<Rightarrow> (nat \<times> nat) \<times> cost_world" where
  "syncAllBudgetSchedules now s =
     (if \<not> ct_ready (cw_table s) then ((0, 0), s)
      else fold (\<lambda>(key, b) ((processed, resetCount), s).
                   let (synced, s') = syncBudgetSchedule key (as_raw b) now True True s
                   in ((processed + 1, if bc_lastBudgetResetAt b \<noteq> bc_lastBudgetResetAt synced then resetCount + 1 else resetCount), s'))
             (sort_key fst (filter (\<lambda>p. fst p \<noteq> []) (cw_budgets s))) ((0, 0), s))"

record budget_check =
  bk_allowed :: bool
  bk_warningReached :: bool
  bk_remaining :: rat
  bk_periodUsed :: rat
  bk_activeLimitUsd :: rat
  bk_window :: "budget_window option"

definition checkBudget :: "int \<Rightarrow> string \<Rightarrow> rat \<Rightarrow> cost_world \<Rightarrow> budget_check \<times> cost_world" where
  "checkBudget now key additionalCost s0 =
     (case getBudget key now s0 of
        (None, s) \<Rightarrow>
          (\<lparr>bk_allowed = True, bk_warningReached = False, bk_remaining = 0, bk_periodUsed = 0, bk_activeLimitUsd = 0, bk_window = None\<rparr>, s)
      | (Some budget, s) \<Rightarrow>
          (let window = getBudgetWindow (bc_resetInterval budget) (bc_resetTime budget) now;
               periodUsed = getBudgetWindowTotal key (bw_periodStartAt window) s;
               projectedTotal = periodUsed + additionalCost;
               activeLimitUsd = getActiveBudgetLimit budget;
               warningReached = (activeLimitUsd > 0 \<and> projectedTotal \<ge> activeLimitUsd * bc_warningThreshold budget);
               remaining = max (activeLimitUsd - projectedTotal) 0;
               s1 = (if warningReached \<and> bc_warningPeriodStart budget \<noteq> Some (bw_periodStartAt window)
                     then (let b = budget\<lparr>bc_warningEmittedAt := Some now, bc_warningPeriodStart := Some (bw_periodStartAt window)\<rparr>
                           in saveBudget key b (s\<lparr>cw_cache := jm_set key b (cw_cache s)\<rparr>))
                     else s)
           in if activeLimitUsd > 0 \<and> projectedTotal > activeLimitUsd
              then (\<lparr>bk_allowed = False, bk_warningReached = True, bk_remaining = remaining, bk_periodUsed = periodUsed,
                     bk_activeLimitUsd = activeLimitUsd, bk_window = Some window\<rparr>, s1)
              else (\<lparr>bk_allowed = True, bk_warningReached = warningReached, bk_remaining = remaining, bk_periodUsed = periodUsed,
                     bk_activeLimitUsd = activeLimitUsd, bk_window = Some window\<rparr>, s1)))"

section \<open>Requests\<close>

text \<open>A request is checked, and when it is allowed its cost is recorded; the writer flushes and settles at any time.\<close>

datatype cost_event = Request int string rat | WriterFlush | WriterSettle

definition serve_request :: "int \<Rightarrow> string \<Rightarrow> rat \<Rightarrow> cost_world \<Rightarrow> cost_world" where
  "serve_request now key cost s =
     (let (r, s1) = checkBudget now key 0 s in if bk_allowed r then recordCost now key (Some cost) s1 else s1)"

fun cost_step :: "cost_world \<Rightarrow> cost_event \<Rightarrow> cost_world" where
  "cost_step s (Request now key cost) = serve_request now key cost s"
| "cost_step s WriterFlush = (let (_, w, t) = sp_flush (cw_writer s) (cw_table s) in s\<lparr>cw_writer := w, cw_table := t\<rparr>)"
| "cost_step s WriterSettle = s\<lparr>cw_writer := settle_flush (cw_writer s)\<rparr>"

fun requests_from :: "rat \<Rightarrow> int \<Rightarrow> cost_event list \<Rightarrow> bool" where
  "requests_from C u [] = True"
| "requests_from C u (Request now key cost # es) \<longleftrightarrow> u \<le> now \<and> cost \<le> C \<and> requests_from C now es"
| "requests_from C u (_ # es) = requests_from C u es"

fun last_time :: "int \<Rightarrow> cost_event list \<Rightarrow> int" where
  "last_time u [] = u"
| "last_time u (Request now key cost # es) = last_time now es"
| "last_time u (_ # es) = last_time u es"

text \<open>What a key has spent since an instant, written or still buffered.\<close>

definition spent :: "string \<Rightarrow> int \<Rightarrow> cost_world \<Rightarrow> rat" where
  "spent key since s = cost_sum (filter (in_window key since None) (ct_rows (cw_table s) @ sp_buffer (cw_writer s)))"

section \<open>Configurations settle\<close>

definition settled_config :: "budget_config \<Rightarrow> bool" where
  "settled_config b \<longleftrightarrow> bc_dailyLimitUsd b \<ge> 0 \<and> bc_weeklyLimitUsd b \<ge> 0 \<and> bc_monthlyLimitUsd b \<ge> 0
     \<and> normalizeResetTime (Some (bc_resetTime b)) = bc_resetTime b"

lemma normalizeResetInterval_name [simp]: "normalizeResetInterval (Some (interval_name r)) = r"
  by (cases r) (simp_all, code_simp+)

lemma normalized_settled: "settled_config (normalizeBudgetConfig c)"
  by (simp add: settled_config_def normalizeBudgetConfig_def normalizeResetTime_idem)

lemma renormalized:
  assumes "settled_config b"
  shows "bc_resetInterval (normalizeBudgetConfig (as_raw b)) = bc_resetInterval b"
    and "bc_resetTime (normalizeBudgetConfig (as_raw b)) = bc_resetTime b"
    and "getActiveBudgetLimit (normalizeBudgetConfig (as_raw b)) = getActiveBudgetLimit b"
proof -
  show r: "bc_resetInterval (normalizeBudgetConfig (as_raw b)) = bc_resetInterval b"
    and "bc_resetTime (normalizeBudgetConfig (as_raw b)) = bc_resetTime b"
    using assms by (simp_all add: settled_config_def normalizeBudgetConfig_def as_raw_def)
  have "bc_dailyLimitUsd (normalizeBudgetConfig (as_raw b)) = bc_dailyLimitUsd b"
    "bc_weeklyLimitUsd (normalizeBudgetConfig (as_raw b)) = bc_weeklyLimitUsd b"
    "bc_monthlyLimitUsd (normalizeBudgetConfig (as_raw b)) = bc_monthlyLimitUsd b"
    using assms by (simp_all add: settled_config_def normalizeBudgetConfig_def as_raw_def number_or_def)
  then show "getActiveBudgetLimit (normalizeBudgetConfig (as_raw b)) = getActiveBudgetLimit b"
    unfolding getActiveBudgetLimit_def r by (simp split: reset_interval.split)
qed

lemma limit_updates [simp]:
  "getActiveBudgetLimit (b\<lparr>bc_budgetResetAt := x\<rparr>) = getActiveBudgetLimit b"
  "getActiveBudgetLimit (b\<lparr>bc_lastBudgetResetAt := x\<rparr>) = getActiveBudgetLimit b"
  "getActiveBudgetLimit (b\<lparr>bc_warningEmittedAt := x\<rparr>) = getActiveBudgetLimit b"
  "getActiveBudgetLimit (b\<lparr>bc_warningPeriodStart := x\<rparr>) = getActiveBudgetLimit b"
  by (simp_all add: getActiveBudgetLimit_def split: reset_interval.split)

text \<open>The configuration a key works with: interval, reset time and limit.\<close>

definition works_with :: "reset_interval \<Rightarrow> string \<Rightarrow> rat \<Rightarrow> budget_config \<Rightarrow> bool" where
  "works_with r t L b \<longleftrightarrow> settled_config b \<and> bc_resetInterval b = r \<and> bc_resetTime b = t \<and> getActiveBudgetLimit b = L"

lemma sync_frame:
  "cw_writer (snd (syncBudgetSchedule key c now lr p s)) = cw_writer s"
  "cw_table (snd (syncBudgetSchedule key c now lr p s)) = cw_table s"
  "jm_get (cw_cache (snd (syncBudgetSchedule key c now lr p s))) k =
     (if k = key then Some (fst (syncBudgetSchedule key c now lr p s)) else jm_get (cw_cache s) k)"
  by (simp_all add: syncBudgetSchedule_def Let_def saveBudgetResetLog_def saveBudget_def)

lemma sync_works:
  assumes "works_with r t L b"
  shows "works_with r t L (fst (syncBudgetSchedule key (as_raw b) now lr p s))"
proof -
  have b: "settled_config b" "bc_resetInterval b = r" "bc_resetTime b = t" "getActiveBudgetLimit b = L"
    using assms by (simp_all add: works_with_def)
  have "works_with r t L (normalizeBudgetConfig (as_raw b))"
    using renormalized [OF b(1)] normalized_settled b(2-4) by (simp add: works_with_def)
  then show ?thesis by (auto simp: works_with_def syncBudgetSchedule_def Let_def settled_config_def)
qed

lemma getBudget_frame:
  "cw_writer (snd (getBudget key now s)) = cw_writer s"
  "cw_table (snd (getBudget key now s)) = cw_table s"
  "k \<noteq> key \<Longrightarrow> jm_get (cw_cache (snd (getBudget key now s))) k = jm_get (cw_cache s) k"
  by (auto simp: getBudget_def sync_frame split: option.split)

lemma getBudget_works:
  assumes "jm_get (cw_cache s) key = Some b" and "works_with r t L b"
  shows "\<exists>b'. fst (getBudget key now s) = Some b' \<and> jm_get (cw_cache (snd (getBudget key now s))) key = Some b' \<and> works_with r t L b'"
  using assms sync_works by (simp add: getBudget_def sync_frame)

lemma checkBudget_frame:
  "cw_writer (snd (checkBudget now key a s)) = cw_writer s"
  "cw_table (snd (checkBudget now key a s)) = cw_table s"
  "k \<noteq> key \<Longrightarrow> jm_get (cw_cache (snd (checkBudget now key a s))) k = jm_get (cw_cache s) k"
  using getBudget_frame(1,2) [of key now s] getBudget_frame(3) [of k key now s]
  by (auto simp: checkBudget_def Let_def saveBudget_def case_prod_unfold split: option.split)

lemma checkBudget_works:
  assumes "jm_get (cw_cache s) key = Some b" and "works_with r t L b"
  shows "(\<exists>b'. jm_get (cw_cache (snd (checkBudget now key a s))) key = Some b' \<and> works_with r t L b')
    \<and> bk_window (fst (checkBudget now key a s)) = Some (getBudgetWindow r t now)
    \<and> (bk_allowed (fst (checkBudget now key a s)) \<longleftrightarrow>
         L \<le> 0 \<or> getBudgetWindowTotal key (bw_periodStartAt (getBudgetWindow r t now)) s + a \<le> L)"
proof -
  obtain b' where b': "fst (getBudget key now s) = Some b'" "jm_get (cw_cache (snd (getBudget key now s))) key = Some b'"
    "works_with r t L b'" using getBudget_works [OF assms] by blast
  have "getBudgetWindowTotal key x (snd (getBudget key now s)) = getBudgetWindowTotal key x s" for x
    by (simp add: getBudgetWindowTotal_def getBudget_frame cong: option.case_cong)
  then show ?thesis using b'
    by (auto simp: checkBudget_def Let_def case_prod_unfold works_with_def saveBudget_def settled_config_def
        split: if_split)
qed

section \<open>The overshoot\<close>

lemma window_start_mono:
  assumes "0 \<le> u" and "u \<le> v"
  shows "bw_periodStartAt (getBudgetWindow r t u) \<le> bw_periodStartAt (getBudgetWindow r t v)"
proof -
  obtain i where i: "getBudgetWindow r t u = \<lparr>bw_periodStartAt = window_anchor r t i, bw_nextResetAt = window_anchor r t (i + 1)\<rparr>"
    "window_anchor r t i \<le> u" using window_anchors [OF assms(1), of r t] by blast
  obtain j where j: "getBudgetWindow r t v = \<lparr>bw_periodStartAt = window_anchor r t j, bw_nextResetAt = window_anchor r t (j + 1)\<rparr>"
    "v < window_anchor r t (j + 1)" using window_anchors [of v r t] assms by auto
  have "window_anchor r t a < window_anchor r t b" if "a < b" for a b
    by (rule int_step_mono [of "window_anchor r t", OF window_anchor_step that])
  then have "window_anchor r t i \<le> window_anchor r t j"
    using i j assms(2) by (cases "j + 1" i rule: linorder_cases; cases i j rule: linorder_cases) force+
  then show ?thesis using i j by simp
qed

definition costs_positive :: "cost_world \<Rightarrow> bool" where
  "costs_positive s \<longleftrightarrow> (\<forall>e\<in>set (ct_rows (cw_table s) @ sp_buffer (cw_writer s) @ sp_inFlight (cw_writer s)). 0 < ce_cost e)"

lemma cost_sum_mono:
  assumes "\<forall>e\<in>set es. 0 < ce_cost e" and "\<And>e. Q e \<Longrightarrow> P e"
  shows "cost_sum (filter Q es) \<le> cost_sum (filter P es)"
  using assms by (induction es) (auto simp: add_increasing intro: add_mono)

lemma cost_sum_nonneg: "\<forall>e\<in>set es. 0 < ce_cost e \<Longrightarrow> 0 \<le> cost_sum (filter P es)"
  by (induction es) auto

lemma counted_covers_spent:
  assumes "costs_positive s" and "ct_ready (cw_table s)"
  shows "spent key since s \<le> getBudgetWindowTotal key since s"
  using assms cost_sum_nonneg [of "sp_inFlight (cw_writer s)"]
  by (simp add: spent_def getBudgetWindowTotal_def loadCostTotal_def getPendingCostTotal_def getBufferedEntries_def costs_positive_def)

lemma spent_books: "books (cw_writer s', cw_table s') = books (cw_writer s, cw_table s) \<Longrightarrow> spent key since s' = spent key since s"
  unfolding spent_def by (rule cost_sum_mset) (simp add: books_def)

text \<open>One key with limit \<open>L\<close>, requests up to cost \<open>C\<close>, at time \<open>u\<close>.\<close>

definition budget_inv :: "string \<Rightarrow> reset_interval \<Rightarrow> string \<Rightarrow> rat \<Rightarrow> rat \<Rightarrow> int \<Rightarrow> cost_world \<Rightarrow> bool" where
  "budget_inv key r t L C u s \<longleftrightarrow>
     ct_ready (cw_table s) \<and> spend_inv (cw_writer s, cw_table s) \<and> costs_positive s
     \<and> (\<exists>b. jm_get (cw_cache s) key = Some b \<and> works_with r t L b)
     \<and> spent key (bw_periodStartAt (getBudgetWindow r t u)) s \<le> L + C"

lemma flush_costs:
  assumes "costs_positive s"
  shows "\<forall>e\<in>set (ct_rows (snd (snd (sp_flush (cw_writer s) (cw_table s))))
      @ sp_buffer (fst (snd (sp_flush (cw_writer s) (cw_table s)))) @ sp_inFlight (fst (snd (sp_flush (cw_writer s) (cw_table s))))).
    0 < ce_cost e"
  using assms by (auto simp: costs_positive_def sp_flush_def Let_def batchSaveCostEntries_def split: option.split)

lemma spent_later:
  assumes "costs_positive s" and "since \<le> since'"
  shows "spent key since' s \<le> spent key since s"
  unfolding spent_def using assms by (intro cost_sum_mono) (auto simp: costs_positive_def in_window_def)

lemma increment_costs:
  assumes "costs_positive s"
  shows "costs_positive (recordCost now key cost s)"
proof (cases "normalizeEntry now key cost (Some now)")
  case None
  then show ?thesis using assms by (simp add: recordCost_def sp_increment_def)
next
  case (Some e)
  define w1 where "w1 = (sp_start (cw_writer s))\<lparr>sp_discarded := filter (\<lambda>k. k \<noteq> ce_apiKeyId e) (sp_discarded (cw_writer s)),
    sp_buffer := sp_buffer (cw_writer s) @ [e]\<rparr>"
  have "0 < ce_cost e" using Some by (auto simp: normalizeEntry_def split: option.splits if_splits)
  then have "costs_positive (s\<lparr>cw_writer := w1\<rparr>)" using assms by (auto simp: costs_positive_def w1_def sp_start_def)
  from flush_costs [OF this] this show ?thesis
    by (auto simp: recordCost_def sp_increment_def Some Let_def w1_def [symmetric] costs_positive_def case_prod_unfold)
qed

lemma record_cost_account:
  assumes "spend_inv (cw_writer s, cw_table s)"
  shows "spend_inv (cw_writer (recordCost now key cost s), cw_table (recordCost now key cost s))"
    and "books (cw_writer (recordCost now key cost s), cw_table (recordCost now key cost s)) =
      books (cw_writer s, cw_table s) + (case normalizeEntry now key cost (Some now) of None \<Rightarrow> {#} | Some e \<Rightarrow> {#e#})"
    and "ct_ready (cw_table (recordCost now key cost s)) = ct_ready (cw_table s)"
    and "cw_cache (recordCost now key cost s) = cw_cache s"
  using increment_account [OF assms, of now key cost "Some now"] by (simp_all add: recordCost_def case_prod_unfold Let_def)

lemma spent_add:
  assumes "books (cw_writer s', cw_table s') = books (cw_writer s, cw_table s) + {#e#}"
  shows "spent key since s' = spent key since s + (if in_window key since None e then ce_cost e else 0)"
proof -
  have "spent key since s' = cost_sum (filter (in_window key since None) (e # ct_rows (cw_table s) @ sp_buffer (cw_writer s)))"
    unfolding spent_def by (rule cost_sum_mset) (use assms in \<open>simp add: books_def\<close>)
  then show ?thesis by (simp add: spent_def)
qed

lemma record_cost_spent:
  assumes "spend_inv (cw_writer s, cw_table s)" and "cost \<le> C" and "0 \<le> C"
  shows "spent key since (recordCost now k (Some cost) s) \<le> spent key since s + (if k = key then C else 0)"
proof (cases "normalizeEntry now k (Some cost) (Some now)")
  case None
  then show ?thesis using spent_books [of "recordCost now k (Some cost) s" s key since] record_cost_account(2) [OF assms(1)] assms(3)
    by simp
next
  case (Some e)
  then have "ce_apiKeyId e = k" "ce_cost e = cost" by (auto simp: normalizeEntry_def split: if_splits)
  then show ?thesis using spent_add [of "recordCost now k (Some cost) s" s e key since] record_cost_account(2) [OF assms(1)] assms(2,3) Some
    by (auto simp: in_window_def)
qed

lemma request_inv:
  assumes inv: "budget_inv key r t L C u s" and L: "0 < L" and time: "0 \<le> u" "u \<le> now" and C: "cost \<le> C" "0 \<le> C"
  shows "budget_inv key r t L C now (serve_request now k cost s)"
proof -
  define s1 where "s1 = snd (checkBudget now k 0 s)"
  define start where "start = bw_periodStartAt (getBudgetWindow r t now)"
  obtain b where b: "jm_get (cw_cache s) key = Some b" "works_with r t L b" using inv by (auto simp: budget_inv_def)
  have same: "cw_writer s1 = cw_writer s" "cw_table s1 = cw_table s" by (simp_all add: s1_def checkBudget_frame)
  have basics: "ct_ready (cw_table s1)" "spend_inv (cw_writer s1, cw_table s1)" "costs_positive s1"
    using inv by (simp_all add: budget_inv_def same costs_positive_def)
  have config: "\<exists>b. jm_get (cw_cache s1) key = Some b \<and> works_with r t L b"
    using checkBudget_works [OF b] checkBudget_frame(3) [of key k now 0 s] b by (cases "k = key") (auto simp: s1_def)
  have spent_s1: "spent key x s1 = spent key x s" for x by (simp add: spent_def same)
  have "spent key start s \<le> spent key (bw_periodStartAt (getBudgetWindow r t u)) s"
    using spent_later [of s] window_start_mono [OF time] inv by (simp add: budget_inv_def start_def)
  then have before: "spent key start s1 \<le> L + C" using inv by (simp add: budget_inv_def spent_s1)
  show ?thesis
  proof (cases "bk_allowed (fst (checkBudget now k 0 s))")
    case False
    then have "serve_request now k cost s = s1" by (simp add: serve_request_def s1_def case_prod_unfold Let_def)
    then show ?thesis using basics config before by (simp add: budget_inv_def start_def)
  next
    case True
    then have sv: "serve_request now k cost s = recordCost now k (Some cost) s1"
      by (simp add: serve_request_def s1_def case_prod_unfold Let_def)
    have "spent key start (recordCost now k (Some cost) s1) \<le> L + C"
    proof (cases "k = key")
      case True
      have "getBudgetWindowTotal key start s \<le> L"
        using checkBudget_works [OF b, of now 0] \<open>bk_allowed _\<close> True L by (simp add: start_def)
      then have "spent key start s1 \<le> L"
        using counted_covers_spent [of s key start] inv by (simp add: spent_s1 budget_inv_def)
      then show ?thesis using record_cost_spent [OF basics(2) C, of key start now k] True by simp
    next
      case False
      then show ?thesis using record_cost_spent [OF basics(2) C, of key start now k] before by simp
    qed
    then show ?thesis
      using basics config record_cost_account [OF basics(2)] increment_costs [OF basics(3)]
      by (simp add: budget_inv_def sv start_def)
  qed
qed

lemma flush_inv: "budget_inv key r t L C u s \<Longrightarrow> budget_inv key r t L C u (cost_step s WriterFlush)"
proof -
  assume inv: "budget_inv key r t L C u s"
  define s' where "s' = cost_step s WriterFlush"
  have s': "cw_writer s' = fst (snd (sp_flush (cw_writer s) (cw_table s)))" "cw_table s' = snd (snd (sp_flush (cw_writer s) (cw_table s)))"
    "cw_cache s' = cw_cache s"
    by (simp_all add: s'_def case_prod_unfold Let_def)
  have "spend_inv (cw_writer s, cw_table s)" "costs_positive s" using inv by (simp_all add: budget_inv_def)
  note f = flush_account [OF this(1)] flush_costs [OF this(2)]
  have "spent key x s' = spent key x s" for x by (rule spent_books) (use f(2) s' in simp)
  then show "budget_inv key r t L C u (cost_step s WriterFlush)"
    using inv f s' unfolding s'_def [symmetric] by (simp add: budget_inv_def costs_positive_def)
qed

lemma settle_inv: "budget_inv key r t L C u s \<Longrightarrow> budget_inv key r t L C u (cost_step s WriterSettle)"
  by (auto simp: budget_inv_def spend_inv_def costs_positive_def spent_def settle_flush_def
      split: option.split flush_promise.split)

lemma budget_run:
  assumes "budget_inv key r t L C u s" and "0 < L" and "0 \<le> C" and "0 \<le> u" and "requests_from C u es"
  shows "budget_inv key r t L C (last_time u es) (run cost_step s es) \<and> u \<le> last_time u es"
  using assms(1,4,5)
proof (induction es arbitrary: u s)
  case (Cons e es)
  show ?case
  proof (cases e)
    case (Request now k cost)
    then have time: "u \<le> now" "cost \<le> C" "requests_from C now es" "0 \<le> now" using Cons.prems by auto
    have "budget_inv key r t L C now (cost_step s e)"
      using request_inv [OF Cons.prems(1) assms(2) Cons.prems(2) time(1,2) assms(3)] Request by simp
    from Cons.IH [OF this time(4,3)] show ?thesis using Request time(1) by auto
  next
    case WriterFlush
    then show ?thesis using Cons.IH [OF flush_inv [OF Cons.prems(1)] Cons.prems(2)] Cons.prems(3) by simp
  next
    case WriterSettle
    then show ?thesis using Cons.IH [OF settle_inv [OF Cons.prems(1)] Cons.prems(2)] Cons.prems(3) by simp
  qed
qed simp

section \<open>Properties\<close>

text \<open>C19. A key whose budget has just been set, in a world without recorded costs, never spends more than its limit and the cost of
  one request in any of its windows, whatever the other keys do, across resets and whenever the writer flushes, as long as
  requests are checked and recorded one at a time and the database is ready.\<close>

theorem budget_overshoot_is_bounded:
  assumes "ct_ready (cw_table s0)" and "ct_rows (cw_table s0) = []" and "sp_buffer (cw_writer s0) = []"
    and "sp_inFlight (cw_writer s0) = []"
    and "(b, s) = setBudget key config u s0" and "0 < getActiveBudgetLimit b"
    and "0 \<le> C" and "0 \<le> u" and "requests_from C u es" and "last_time u es \<le> now"
  shows "spent key (bw_periodStartAt (getBudgetWindow (bc_resetInterval b) (bc_resetTime b) now)) (run cost_step s es)
    \<le> getActiveBudgetLimit b + C"
proof -
  let ?r = "bc_resetInterval b" and ?t = "bc_resetTime b" and ?L = "getActiveBudgetLimit b"
  have b: "b = fst (setBudget key config u s0)" and s: "s = snd (setBudget key config u s0)"
    using assms(5) by (metis fst_conv, metis snd_conv)
  have frame: "cw_writer s = cw_writer s0" "cw_table s = cw_table s0" "jm_get (cw_cache s) key = Some b"
    unfolding s b setBudget_def by (simp_all add: sync_frame)
  have "settled_config b" using normalized_settled [of config]
    by (auto simp: b setBudget_def syncBudgetSchedule_def Let_def settled_config_def)
  then have "works_with ?r ?t ?L b" by (simp add: works_with_def)
  then have "budget_inv key ?r ?t ?L C u s"
    using frame assms(1-4,6,7) by (simp add: budget_inv_def spend_inv_def costs_positive_def spent_def)
  from budget_run [OF this assms(6-9)] have inv: "budget_inv key ?r ?t ?L C (last_time u es) (run cost_step s es)"
    and "u \<le> last_time u es" by simp_all
  then have "bw_periodStartAt (getBudgetWindow ?r ?t (last_time u es)) \<le> bw_periodStartAt (getBudgetWindow ?r ?t now)"
    using window_start_mono [of "last_time u es" now ?r ?t] assms(8,10) by simp
  moreover have "costs_positive (run cost_step s es)" using inv by (simp add: budget_inv_def)
  ultimately have "spent key (bw_periodStartAt (getBudgetWindow ?r ?t now)) (run cost_step s es)
      \<le> spent key (bw_periodStartAt (getBudgetWindow ?r ?t (last_time u es))) (run cost_step s es)" by (intro spent_later)
  also have "\<dots> \<le> ?L + C" using inv by (simp add: budget_inv_def)
  finally show ?thesis .
qed

definition ex_cost_world :: cost_world where
  "ex_cost_world = \<lparr>cw_cache = [], cw_budgets = [], cw_logs = [], cw_writer = new_SpendBatchWriter None None None None,
     cw_table = \<lparr>ct_rows = [], ct_ready = True\<rparr>\<rparr>"

definition ex_raw_budget :: raw_budget where
  "ex_raw_budget = \<lparr>rb_dailyLimitUsd = Some 10, rb_weeklyLimitUsd = None, rb_monthlyLimitUsd = None, rb_warningThreshold = None,
     rb_resetInterval = Some ''Daily'', rb_resetTime = Some ''09:00'', rb_budgetResetAt = None, rb_lastBudgetResetAt = None,
     rb_warningEmittedAt = None, rb_warningPeriodStart = None\<rparr>"

text \<open>Three requests of 6 dollars against a limit of 10: the third is refused, 12 are spent.\<close>

lemma budget_overshoot_is_bounded_witness:
  "\<exists>b s. (b, s) = setBudget ''k'' ex_raw_budget 1709208000000 ex_cost_world
    \<and> spent ''k'' (bw_periodStartAt (getBudgetWindow (bc_resetInterval b) (bc_resetTime b) 1709208000040))
        (run cost_step s [Request 1709208000010 ''k'' 6, WriterFlush, Request 1709208000020 ''k'' 6, WriterSettle, Request 1709208000030 ''k'' 6])
      \<le> 10 + 6"
proof -
  obtain b s where bs: "(b, s) = setBudget ''k'' ex_raw_budget 1709208000000 ex_cost_world"
    by (cases "setBudget ''k'' ex_raw_budget 1709208000000 ex_cost_world") auto
  have "getActiveBudgetLimit (fst (setBudget ''k'' ex_raw_budget 1709208000000 ex_cost_world)) = 10"
    by code_simp
  then have L: "getActiveBudgetLimit b = 10" using bs by (metis fst_conv)
  show ?thesis
    using budget_overshoot_is_bounded [OF _ _ _ _ bs, of 6
        "[Request 1709208000010 ''k'' 6, WriterFlush, Request 1709208000020 ''k'' 6, WriterSettle, Request 1709208000030 ''k'' 6]"
        1709208000040] bs
    by (auto simp: L ex_cost_world_def new_SpendBatchWriter_def)
qed

end
