(* ===== verification/FallbackPolicy.thy ===== *)
theory FallbackPolicy
  imports Omni_Prelude
begin

text \<open>
  The fallback chains, \<open>src/domain/fallbackPolicy.ts\<close>, with their table in \<open>src/lib/db/domainState.ts\<close>. The table is \<open>None\<close> while the
  database is not ready; a chain is stored as JSON and comes back as it was.
\<close>

section \<open>State\<close>

record fallback_entry =
  fb_provider :: string
  fb_priority :: rat
  fb_enabled :: bool

text \<open>An entry as it is registered, with its optional fields.\<close>

record raw_fallback =
  rf_provider :: string
  rf_priority :: "rat option"
  rf_enabled :: "bool option"

type_synonym chain_table = "(string, fallback_entry list) jsmap"

record fallbacks =
  fbs_chains :: chain_table
  fbs_loaded :: bool
  fbs_db :: "chain_table option"

definition saveFallbackChain :: "string \<Rightarrow> fallback_entry list \<Rightarrow> chain_table option \<Rightarrow> chain_table option" where
  "saveFallbackChain model chain db = map_option (jm_set model chain) db"

definition loadAllFallbackChains :: "chain_table option \<Rightarrow> chain_table option" where
  "loadAllFallbackChains db = map_option (filter (\<lambda>p. fst p \<noteq> [])) db"

definition deleteFallbackChain :: "string \<Rightarrow> chain_table option \<Rightarrow> chain_table option" where
  "deleteFallbackChain model db = map_option (jm_del model) db"

section \<open>Operations\<close>

definition fb_ensureLoaded :: "fallbacks \<Rightarrow> fallbacks" where
  "fb_ensureLoaded s =
     (if fbs_loaded s then s
      else (case loadAllFallbackChains (fbs_db s) of
              None \<Rightarrow> s\<lparr>fbs_loaded := True\<rparr>
            | Some all \<Rightarrow>
                s\<lparr>fbs_chains := fold (\<lambda>(model, chain). jm_set model chain) all (fbs_chains s), fbs_loaded := True\<rparr>))"

definition normalize_entry :: "raw_fallback \<Rightarrow> fallback_entry" where
  "normalize_entry e =
     \<lparr>fb_provider = rf_provider e, fb_priority = (case rf_priority e of None \<Rightarrow> 0 | Some p \<Rightarrow> p),
      fb_enabled = (case rf_enabled e of None \<Rightarrow> True | Some b \<Rightarrow> b)\<rparr>"

definition registerFallback :: "string \<Rightarrow> raw_fallback list \<Rightarrow> fallbacks \<Rightarrow> fallbacks" where
  "registerFallback model chain s0 =
     (let s = fb_ensureLoaded s0; sorted = sort_key fb_priority (map normalize_entry chain)
      in s\<lparr>fbs_chains := jm_set model sorted (fbs_chains s), fbs_db := saveFallbackChain model sorted (fbs_db s)\<rparr>)"

definition resolveFallbackChain :: "string \<Rightarrow> string list \<Rightarrow> fallbacks \<Rightarrow> fallback_entry list \<times> fallbacks" where
  "resolveFallbackChain model excludeProviders s0 =
     (let s = fb_ensureLoaded s0
      in case jm_get (fbs_chains s) model of
           None \<Rightarrow> ([], s)
         | Some chain \<Rightarrow> (filter (\<lambda>e. fb_enabled e \<and> fb_provider e \<notin> set excludeProviders) chain, s))"

definition getNextFallback :: "string \<Rightarrow> string list \<Rightarrow> fallbacks \<Rightarrow> string option \<times> fallbacks" where
  "getNextFallback model excludeProviders s =
     (case resolveFallbackChain model excludeProviders s of
        ([], s') \<Rightarrow> (None, s')
      | (e # _, s') \<Rightarrow> (Some (fb_provider e), s'))"

definition hasFallback :: "string \<Rightarrow> fallbacks \<Rightarrow> bool \<times> fallbacks" where
  "hasFallback model s0 =
     (let s = fb_ensureLoaded s0
      in (case jm_get (fbs_chains s) model of None \<Rightarrow> False | Some chain \<Rightarrow> (\<exists>e\<in>set chain. fb_enabled e), s))"

definition removeFallback :: "string \<Rightarrow> fallbacks \<Rightarrow> bool \<times> fallbacks" where
  "removeFallback model s0 =
     (let s = fb_ensureLoaded s0
      in if jm_has (fbs_chains s) model
         then (True, s\<lparr>fbs_chains := jm_del model (fbs_chains s), fbs_db := deleteFallbackChain model (fbs_db s)\<rparr>)
         else (False, s))"

definition getAllFallbackChains :: "fallbacks \<Rightarrow> chain_table \<times> fallbacks" where
  "getAllFallbackChains s0 = (let s = fb_ensureLoaded s0 in (fbs_chains s, s))"

definition resetAllFallbacks :: "fallbacks \<Rightarrow> fallbacks" where
  "resetAllFallbacks s = s\<lparr>fbs_chains := [], fbs_loaded := False, fbs_db := map_option (\<lambda>_. []) (fbs_db s)\<rparr>"

section \<open>Failing over\<close>

text \<open>Ask for the next provider, excluding those already tried, at most \<open>n\<close> times.\<close>

fun failover :: "nat \<Rightarrow> string \<Rightarrow> string list \<Rightarrow> fallbacks \<Rightarrow> string list \<times> fallbacks" where
  "failover 0 model tried s = (tried, s)"
| "failover (Suc n) model tried s =
     (case getNextFallback model tried s of
        (None, s') \<Rightarrow> (tried, s')
      | (Some p, s') \<Rightarrow> failover n model (tried @ [p]) s')"

text \<open>A list without its later repetitions.\<close>

fun firsts :: "'a list \<Rightarrow> 'a list" where
  "firsts [] = []"
| "firsts (x # xs) = x # filter (\<lambda>y. y \<noteq> x) (firsts xs)"

lemma filter_firsts: "filter P (firsts xs) = firsts (filter P xs)"
proof (induction xs)
  case (Cons x xs)
  have "filter P (filter (\<lambda>y. y \<noteq> x) (firsts xs)) = filter (\<lambda>y. y \<noteq> x) (filter P (firsts xs))"
    by (simp add: conj_commute)
  moreover have "filter (\<lambda>y. y \<noteq> x) (filter P (firsts xs)) = filter P (firsts xs)" if "\<not> P x"
    unfolding filter_filter using that by (auto intro: filter_cong)
  ultimately show ?case using Cons.IH by auto
qed simp

lemma set_firsts: "set (firsts xs) = set xs"
  by (induction xs) auto

lemma distinct_firsts: "distinct (firsts xs)"
  by (induction xs) auto

definition enabled_providers :: "string \<Rightarrow> fallbacks \<Rightarrow> string list" where
  "enabled_providers model s =
     (case jm_get (fbs_chains s) model of None \<Rightarrow> [] | Some chain \<Rightarrow> map fb_provider (filter fb_enabled chain))"

lemma loaded_stays: "fbs_loaded s \<Longrightarrow> fb_ensureLoaded s = s"
  by (simp add: fb_ensureLoaded_def)

lemma next_fallback:
  assumes "fbs_loaded s"
  shows "getNextFallback model tried s =
    (case filter (\<lambda>p. p \<notin> set tried) (enabled_providers model s) of [] \<Rightarrow> None | p # _ \<Rightarrow> Some p, s)"
proof (cases "jm_get (fbs_chains s) model")
  case None
  then show ?thesis using assms by (simp add: getNextFallback_def resolveFallbackChain_def loaded_stays enabled_providers_def)
next
  case (Some chain)
  have "filter (\<lambda>p. p \<notin> set tried) (map fb_provider (filter fb_enabled chain)) =
      map fb_provider (filter (\<lambda>e. fb_enabled e \<and> fb_provider e \<notin> set tried) chain)"
    by (simp add: filter_map o_def conj_commute)
  then show ?thesis using Some assms
    by (simp add: getNextFallback_def resolveFallbackChain_def loaded_stays enabled_providers_def split: list.split)
qed

lemma failover_visits:
  assumes "fbs_loaded s" and "length (firsts (filter (\<lambda>p. p \<notin> set tried) (enabled_providers model s))) \<le> n"
  shows "failover n model tried s = (tried @ firsts (filter (\<lambda>p. p \<notin> set tried) (enabled_providers model s)), s)"
  using assms(2)
proof (induction n arbitrary: tried)
  case (Suc n)
  show ?case
  proof (cases "filter (\<lambda>p. p \<notin> set tried) (enabled_providers model s)")
    case Nil
    then show ?thesis using next_fallback [OF assms(1), of model tried] by simp
  next
    case (Cons p ps)
    have rest: "firsts (filter (\<lambda>q. q \<notin> set (tried @ [p])) (enabled_providers model s)) = filter (\<lambda>q. q \<noteq> p) (firsts ps)"
    proof -
      have "filter (\<lambda>q. q \<notin> set (tried @ [p])) (enabled_providers model s) = filter (\<lambda>q. q \<noteq> p) (p # ps)"
        unfolding Cons [symmetric] by (auto intro: filter_cong)
      then show ?thesis by (simp add: filter_firsts)
    qed
    have "length (filter (\<lambda>q. q \<noteq> p) (firsts ps)) \<le> n" using Suc.prems Cons by simp
    then show ?thesis using Suc.IH [of "tried @ [p]"] rest Cons next_fallback [OF assms(1), of model tried] by simp
  qed
qed simp

lemma register_chain:
  "fbs_loaded (registerFallback model chain s)"
  "jm_get (fbs_chains (registerFallback model chain s)) model = Some (sort_key fb_priority (map normalize_entry chain))"
  by (simp_all add: registerFallback_def fb_ensureLoaded_def Let_def split: option.split)

text \<open>A restart forgets the cache; the table brings the chain back.\<close>

lemma fold_set_get:
  "jm_ok all \<Longrightarrow> jm_get (fold (\<lambda>(model, chain). jm_set model chain) all m) k =
    (case jm_get all k of None \<Rightarrow> jm_get m k | Some c \<Rightarrow> Some c)"
proof (induction all arbitrary: m)
  case (Cons p all)
  obtain a c where p: "p = (a, c)" by (cases p)
  have "jm_ok all" and fresh: "jm_get all a = None" using Cons.prems jm_get_mem [of all a] p
    by (auto simp: jm_ok_def jm_get_def map_of_eq_None_iff)
  then show ?case using Cons.IH [of "jm_set a c m"] p by (auto simp: jm_get_def [of "(a, c) # all"] jm_get_def [of all] split: option.split)
qed simp

section \<open>Properties\<close>

text \<open>Failing over from a model whose chain has just been registered tries every enabled provider of the chain exactly once, in the
  order of the priorities and, among equals, of registration, and then stops.\<close>

theorem failover_tries_each_provider_once:
  assumes "length chain \<le> n"
  shows "fst (failover n model [] (registerFallback model chain s)) =
      firsts (map fb_provider (filter fb_enabled (sort_key fb_priority (map normalize_entry chain))))
    \<and> distinct (fst (failover n model [] (registerFallback model chain s)))
    \<and> set (fst (failover n model [] (registerFallback model chain s))) =
        rf_provider ` {e \<in> set chain. rf_enabled e \<noteq> Some False}"
proof -
  let ?ps = "map fb_provider (filter fb_enabled (sort_key fb_priority (map normalize_entry chain)))"
  have ep: "enabled_providers model (registerFallback model chain s) = ?ps"
    by (simp add: enabled_providers_def register_chain)
  have "length (firsts xs) \<le> length xs" for xs :: "string list"
    by (induction xs) (auto intro: le_trans [OF length_filter_le])
  then have "length (firsts ?ps) \<le> length ?ps" .
  also have "\<dots> \<le> length chain" using length_filter_le [of fb_enabled "sort_key fb_priority (map normalize_entry chain)"] by simp
  finally have "failover n model [] (registerFallback model chain s) = (firsts ?ps, registerFallback model chain s)"
    using failover_visits [OF register_chain(1), of "[]" model model chain s n] assms by (simp add: ep)
  moreover have "set (firsts ?ps) = rf_provider ` {e \<in> set chain. rf_enabled e \<noteq> Some False}"
    by (force simp: set_firsts normalize_entry_def split: option.splits)
  ultimately show ?thesis using distinct_firsts [of ?ps] by simp
qed

definition ex_chain :: "raw_fallback list" where
  "ex_chain = [\<lparr>rf_provider = ''b'', rf_priority = Some 2, rf_enabled = None\<rparr>, \<lparr>rf_provider = ''a'', rf_priority = None, rf_enabled = Some True\<rparr>,
     \<lparr>rf_provider = ''c'', rf_priority = Some 1, rf_enabled = Some False\<rparr>, \<lparr>rf_provider = ''a'', rf_priority = Some 3, rf_enabled = None\<rparr>]"

lemma failover_tries_each_provider_once_witness:
  "fst (failover 4 ''m'' [] (registerFallback ''m'' ex_chain \<lparr>fbs_chains = [], fbs_loaded = False, fbs_db = None\<rparr>)) = [''a'', ''b'']"
proof -
  have "firsts (map fb_provider (filter fb_enabled (sort_key fb_priority (map normalize_entry ex_chain)))) = [''a'', ''b'']"
    by (simp add: ex_chain_def normalize_entry_def insort_key_def)
  then show ?thesis
    using failover_tries_each_provider_once [of ex_chain 4 "''m''" "\<lparr>fbs_chains = [], fbs_loaded = False, fbs_db = None\<rparr>"]
    by (simp add: ex_chain_def)
qed

text \<open>A registered chain survives a restart when the database is ready.\<close>

lemma chain_survives_restart:
  assumes "fbs_db s = Some t" and "jm_ok t" and "model \<noteq> []"
  shows "fst (resolveFallbackChain model ex (s'\<lparr>fbs_chains := [], fbs_loaded := False, fbs_db := fbs_db (registerFallback model chain s)\<rparr>)) =
    fst (resolveFallbackChain model ex (registerFallback model chain s))"
proof -
  let ?c = "sort_key fb_priority (map normalize_entry chain)"
  let ?all = "filter (\<lambda>p. fst p \<noteq> []) (jm_set model ?c t)"
  have db: "fbs_db (registerFallback model chain s) = Some (jm_set model ?c t)"
    using assms(1) by (simp add: registerFallback_def fb_ensureLoaded_def saveFallbackChain_def Let_def split: option.split)
  have ok: "jm_ok ?all" using assms(2) by (simp add: jm_ok_def distinct_map_filter jm_set_def distinct_update)
  have "(model, ?c) \<in> set (jm_set model ?c t)" by (rule jm_get_SomeD) simp
  then have "jm_get ?all model = Some ?c" using assms(3) by (subst jm_get_mem [OF ok, symmetric]) simp
  then show ?thesis
    by (simp add: resolveFallbackChain_def fb_ensureLoaded_def loadAllFallbackChains_def db fold_set_get [OF ok] register_chain Let_def)
qed

text \<open>A first access while the database is not ready counts as loaded: the stored chains are not seen afterwards.\<close>

lemma early_access_hides_chains:
  assumes "fbs_loaded s = False" and "fbs_db s = None" and "jm_get (fbs_chains s) model = None"
  shows "fst (resolveFallbackChain model [] (snd (hasFallback model s)\<lparr>fbs_db := Some t\<rparr>)) = []"
  using assms by (simp add: hasFallback_def resolveFallbackChain_def fb_ensureLoaded_def loadAllFallbackChains_def Let_def)

end
