(* ===== verification/PolicyEngine.thy ===== *)
theory PolicyEngine
  imports LockoutPolicy CostRules FallbackPolicy
begin

text \<open>
  The policy engine, \<open>src/domain/policyEngine.ts\<close>: the verdict over lockouts, budgets and fallback chains that precedes a request, and
  the class of declarative policies with its glob patterns. A pattern is turned into a regular expression as the source does it,
  string to string; of the language's regular expressions only what such a string can contain is modelled (escaped and plain
  characters, dot-star, question marks).
\<close>

section \<open>The verdict on a request\<close>

record policy_request =
  pr_model :: "string option"
  pr_apiKeyId :: "string option"
  pr_clientIp :: "string option"

datatype policy_phase = PhLockout | PhBudget | PhPassed

record policy_verdict =
  pv_allowed :: bool
  pv_remainingMs :: "int option"
  pv_fallbackChain :: "fallback_entry list"
  pv_phase :: policy_phase

record policy_world =
  pw_lockouts :: lockouts
  pw_costs :: cost_world
  pw_fallbacks :: fallbacks

definition given :: "string option \<Rightarrow> bool" where
  "given x \<longleftrightarrow> x \<noteq> None \<and> x \<noteq> Some []"

definition evaluateRequest :: "int \<Rightarrow> policy_request \<Rightarrow> policy_world \<Rightarrow> policy_verdict \<times> policy_world" where
  "evaluateRequest now r w =
     (let (lockout, w1) =
            (if given (pr_clientIp r)
             then (case checkLockout now (the (pr_clientIp r)) DEFAULT_CONFIG (pw_lockouts w) of
                     (reply, s) \<Rightarrow> (Some reply, w\<lparr>pw_lockouts := s\<rparr>))
             else (None, w))
      in if lockout \<noteq> None \<and> lr_locked (the lockout)
         then (\<lparr>pv_allowed = False, pv_remainingMs = lr_remainingMs (the lockout), pv_fallbackChain = [], pv_phase = PhLockout\<rparr>, w1)
         else
           (let (budget, w2) =
                  (if given (pr_apiKeyId r)
                   then (case checkBudget now (the (pr_apiKeyId r)) 0 (pw_costs w1) of
                           (reply, s) \<Rightarrow> (Some reply, w1\<lparr>pw_costs := s\<rparr>))
                   else (None, w1))
            in if budget \<noteq> None \<and> \<not> bk_allowed (the budget)
               then (\<lparr>pv_allowed = False, pv_remainingMs = None, pv_fallbackChain = [], pv_phase = PhBudget\<rparr>, w2)
               else (case pr_model r of
                       None \<Rightarrow>
                         (\<lparr>pv_allowed = True, pv_remainingMs = None, pv_fallbackChain = [], pv_phase = PhPassed\<rparr>,
                          w2\<lparr>pw_fallbacks := fb_ensureLoaded (pw_fallbacks w2)\<rparr>)
                     | Some model \<Rightarrow>
                         (case resolveFallbackChain model [] (pw_fallbacks w2) of
                            (chain, s) \<Rightarrow>
                              (\<lparr>pv_allowed = True, pv_remainingMs = None, pv_fallbackChain = chain, pv_phase = PhPassed\<rparr>,
                               w2\<lparr>pw_fallbacks := s\<rparr>)))))"

fun first_allowed :: "int \<Rightarrow> string list \<Rightarrow> policy_request \<Rightarrow> policy_world \<Rightarrow> (string \<times> policy_verdict) option \<times> policy_world" where
  "first_allowed now [] base w = (None, w)"
| "first_allowed now (m # ms) base w =
     (case evaluateRequest now (base\<lparr>pr_model := Some m\<rparr>) w of
        (v, w') \<Rightarrow> if pv_allowed v then (Some (m, v), w') else first_allowed now ms base w')"

definition evaluateFirstAllowed ::
  "int \<Rightarrow> string list \<Rightarrow> policy_request \<Rightarrow> policy_world \<Rightarrow> (string option \<times> policy_verdict) \<times> policy_world" where
  "evaluateFirstAllowed now models base w =
     (case first_allowed now models base w of
        (Some (m, v), w') \<Rightarrow> ((Some m, v), w')
      | (None, w') \<Rightarrow>
          (case evaluateRequest now (base\<lparr>pr_model := (if models = [] then None else Some (last models))\<rparr>) w' of
             (v, w'') \<Rightarrow> ((None, v), w'')))"

section \<open>Glob patterns\<close>

definition regex_specials :: string where
  "regex_specials = ''.+^${}()|[]'' @ [CHR 0x5C]"

definition glob_escaped :: "string \<Rightarrow> string" where
  "glob_escaped pattern =
     concat (map (\<lambda>c. if c = CHR ''*'' then ''.*'' else [c])
       (concat (map (\<lambda>c. if c \<in> set regex_specials then [CHR 0x5C, c] else [c]) pattern)))"

datatype regex_atom = RLit char | ROpt char | RAny

datatype regex_error = NothingToRepeat

text \<open>A quantifier may be followed by one question mark, which makes it lazy and does not change what it can match.\<close>

definition lazy_mark :: "string \<Rightarrow> string" where
  "lazy_mark r = (case r of [] \<Rightarrow> [] | c # r' \<Rightarrow> if c = CHR ''?'' then r' else r)"

definition parse_atom :: "char \<Rightarrow> string \<Rightarrow> regex_atom \<times> string" where
  "parse_atom c r =
     (if c = CHR 0x5C then (case r of [] \<Rightarrow> (RLit c, []) | d # r' \<Rightarrow> (RLit d, r'))
      else if c = CHR ''.'' then (RAny, drop 1 r)
      else (RLit c, r))"

definition quantify :: "regex_atom \<Rightarrow> string \<Rightarrow> regex_atom \<times> string" where
  "quantify a r =
     (case a of
        RLit c \<Rightarrow> (case r of [] \<Rightarrow> (a, []) | d # r' \<Rightarrow> if d = CHR ''?'' then (ROpt c, lazy_mark r') else (a, r))
      | _ \<Rightarrow> (a, lazy_mark r))"

lemma quantified_length:
  assumes "(a, r1) = parse_atom c r" and "(b, r2) = quantify a r1"
  shows "length r2 \<le> length r"
proof -
  have "length r1 \<le> length r" using assms(1) by (auto simp: parse_atom_def split: if_splits list.splits)
  moreover have "length r2 \<le> length r1"
    using assms(2) by (auto simp: quantify_def lazy_mark_def split: if_splits list.splits regex_atom.splits)
  ultimately show ?thesis by simp
qed

function (sequential) regex_parse :: "string \<Rightarrow> regex_error + regex_atom list" where
  "regex_parse [] = Inr []"
| "regex_parse (c # r) =
     (if c = CHR ''?'' then Inl NothingToRepeat
      else (case parse_atom c r of
              (a, r1) \<Rightarrow>
                (case quantify a r1 of
                   (b, r2) \<Rightarrow> (case regex_parse r2 of Inl e \<Rightarrow> Inl e | Inr bs \<Rightarrow> Inr (b # bs)))))"
  by pat_completeness auto
termination
  by (relation "measure length") (auto simp: less_Suc_eq_le dest: quantified_length)

text \<open>The dot matches no line terminator.\<close>

definition line_end :: "char \<Rightarrow> bool" where
  "line_end c \<longleftrightarrow> c = CHR 0x0A \<or> c = CHR 0x0D"

fun regex_test :: "regex_atom list \<Rightarrow> string \<Rightarrow> bool" where
  "regex_test [] v \<longleftrightarrow> v = []"
| "regex_test (RLit c # r) v \<longleftrightarrow> (case v of [] \<Rightarrow> False | d # v' \<Rightarrow> d = c \<and> regex_test r v')"
| "regex_test (ROpt c # r) v \<longleftrightarrow> regex_test r v \<or> (case v of [] \<Rightarrow> False | d # v' \<Rightarrow> d = c \<and> regex_test r v')"
| "regex_test (RAny # r) v \<longleftrightarrow>
     regex_test r v \<or> (case v of [] \<Rightarrow> False | d # v' \<Rightarrow> \<not> line_end d \<and> regex_test (RAny # r) v')"

definition globMatch :: "string \<Rightarrow> string \<Rightarrow> regex_error + bool" where
  "globMatch pattern value =
     (case regex_parse (glob_escaped pattern) of Inl e \<Rightarrow> Inl e | Inr atoms \<Rightarrow> Inr (regex_test atoms value))"

section \<open>The engine\<close>

record engine_policy =
  ep_id :: string
  ep_name :: string
  ep_type :: string
  ep_enabled :: bool
  ep_priority :: rat
  ep_model_pattern :: "string option"
  ep_prefer_provider :: "string list option"
  ep_block_model :: "string list option"
  ep_max_tokens :: "rat option"

type_synonym engine = "engine_policy list"

definition new_PolicyEngine :: engine where
  "new_PolicyEngine = []"

definition loadPolicies :: "engine_policy list \<Rightarrow> engine \<Rightarrow> engine" where
  "loadPolicies policies e = policies"

definition addPolicy :: "engine_policy \<Rightarrow> engine \<Rightarrow> engine" where
  "addPolicy p e = e @ [p]"

definition removePolicy :: "string \<Rightarrow> engine \<Rightarrow> engine" where
  "removePolicy i e = filter (\<lambda>p. ep_id p \<noteq> i) e"

record eval_result =
  er_allowed :: bool
  er_reason :: "string option"
  er_preferredProviders :: "string list"
  er_appliedPolicies :: "string list"
  er_maxTokens :: "rat option"

definition blocked_text :: "string \<Rightarrow> string \<Rightarrow> string" where
  "blocked_text model name = ''Model '' @ [CHR 0x22] @ model @ [CHR 0x22] @ '' blocked by policy '' @ [CHR 0x22] @ name @ [CHR 0x22]"

text \<open>Array.some with a predicate that may throw.\<close>

fun some_glob :: "string list \<Rightarrow> string \<Rightarrow> regex_error + bool" where
  "some_glob [] model = Inr False"
| "some_glob (p # ps) model =
     (case globMatch p model of Inl e \<Rightarrow> Inl e | Inr True \<Rightarrow> Inr True | Inr False \<Rightarrow> some_glob ps model)"

definition condition_holds :: "engine_policy \<Rightarrow> string \<Rightarrow> regex_error + bool" where
  "condition_holds p model = (if given (ep_model_pattern p) then globMatch (the (ep_model_pattern p)) model else Inr True)"

definition applied :: "engine_policy \<Rightarrow> eval_result \<Rightarrow> eval_result" where
  "applied p r = r\<lparr>er_appliedPolicies := er_appliedPolicies r @ [ep_name p]\<rparr>"

fun eval_loop :: "string \<Rightarrow> engine_policy list \<Rightarrow> eval_result \<Rightarrow> regex_error + eval_result" where
  "eval_loop model [] r = Inr r"
| "eval_loop model (p # ps) r =
     (case condition_holds p model of
        Inl e \<Rightarrow> Inl e
      | Inr False \<Rightarrow> eval_loop model ps r
      | Inr True \<Rightarrow>
          if ep_type p = ''routing''
          then eval_loop model ps (applied p (case ep_prefer_provider p of
                 None \<Rightarrow> r | Some xs \<Rightarrow> r\<lparr>er_preferredProviders := er_preferredProviders r @ xs\<rparr>))
          else if ep_type p = ''access''
          then (case (case ep_block_model p of None \<Rightarrow> Inr False | Some pats \<Rightarrow> some_glob pats model) of
                  Inl e \<Rightarrow> Inl e
                | Inr True \<Rightarrow> Inr (applied p (r\<lparr>er_allowed := False, er_reason := Some (blocked_text model (ep_name p))\<rparr>))
                | Inr False \<Rightarrow> eval_loop model ps (applied p r))
          else if ep_type p = ''budget''
          then eval_loop model ps (applied p (case ep_max_tokens p of None \<Rightarrow> r | Some n \<Rightarrow> r\<lparr>er_maxTokens := Some n\<rparr>))
          else eval_loop model ps r)"

definition evaluate :: "engine \<Rightarrow> string \<Rightarrow> regex_error + eval_result" where
  "evaluate e model =
     eval_loop model (sort_key ep_priority (filter ep_enabled e))
       \<lparr>er_allowed = True, er_reason = None, er_preferredProviders = [], er_appliedPolicies = [], er_maxTokens = None\<rparr>"


section \<open>Globs\<close>

text \<open>What a pattern means: a star stands for any text, every other character for itself.\<close>

inductive glob :: "string \<Rightarrow> string \<Rightarrow> bool" where
  glob_nil: "glob [] []"
| glob_char: "c \<noteq> CHR ''*'' \<Longrightarrow> glob p v \<Longrightarrow> glob (c # p) (c # v)"
| glob_star: "glob p v \<Longrightarrow> glob (CHR ''*'' # p) (w @ v)"

inductive_simps glob_nil_iff: "glob [] v"
inductive_simps glob_star_iff: "glob (CHR ''*'' # p) v"
inductive_simps glob_cons_iff: "glob (c # p) v"

definition glob_token :: "char \<Rightarrow> regex_atom" where
  "glob_token c = (if c = CHR ''*'' then RAny else RLit c)"

lemma glob_escaped_Nil [simp]: "glob_escaped [] = []"
  by (simp add: glob_escaped_def)

lemma glob_escaped_Cons:
  "glob_escaped (c # p) =
     (if c = CHR ''*'' then ''.*'' else if c \<in> set regex_specials then [CHR 0x5C, c] else [c]) @ glob_escaped p"
proof -
  have "CHR ''*'' \<notin> set regex_specials" by (simp add: regex_specials_def)
  then show ?thesis by (auto simp: glob_escaped_def)
qed

lemma escaped_head:
  assumes "CHR ''?'' \<notin> set p"
  shows "quantify (RLit c) (glob_escaped p) = (RLit c, glob_escaped p)" and "lazy_mark (glob_escaped p) = glob_escaped p"
proof -
  have "glob_escaped p = [] \<or> (\<exists>d r. glob_escaped p = d # r \<and> d \<noteq> CHR ''?'')"
    using assms by (cases p) (auto simp: glob_escaped_Cons)
  then show "quantify (RLit c) (glob_escaped p) = (RLit c, glob_escaped p)" and "lazy_mark (glob_escaped p) = glob_escaped p"
    by (auto simp: quantify_def lazy_mark_def)
qed

lemma parse_escaped:
  assumes "CHR ''?'' \<notin> set p"
  shows "regex_parse (glob_escaped p) = Inr (map glob_token p)"
  using assms
proof (induction p)
  case Nil
  show ?case by (simp add: glob_escaped_def)
next
  case (Cons c p)
  then have tail: "regex_parse (glob_escaped p) = Inr (map glob_token p)" and q: "CHR ''?'' \<notin> set p" and c: "c \<noteq> CHR ''?''"
    by auto
  consider (star) "c = CHR ''*''" | (special) "c \<noteq> CHR ''*''" "c \<in> set regex_specials"
    | (plain) "c \<noteq> CHR ''*''" "c \<notin> set regex_specials" by blast
  then show ?case
  proof cases
    case star
    have "quantify RAny (glob_escaped p) = (RAny, glob_escaped p)" by (simp add: quantify_def escaped_head [OF q])
    then show ?thesis using star tail by (simp add: glob_escaped_Cons parse_atom_def glob_token_def)
  next
    case special
    then show ?thesis using c tail by (simp add: glob_escaped_Cons parse_atom_def glob_token_def escaped_head [OF q])
  next
    case plain
    have "c \<noteq> CHR 0x5C" "c \<noteq> CHR ''.''" using plain by (auto simp: regex_specials_def)
    then show ?thesis using plain c tail by (simp add: glob_escaped_Cons parse_atom_def glob_token_def escaped_head [OF q])
  qed
qed

lemma any_test:
  assumes "\<forall>c\<in>set v. \<not> line_end c"
  shows "regex_test (RAny # r) v \<longleftrightarrow> (\<exists>w u. v = w @ u \<and> regex_test r u)"
  using assms
proof (induction v)
  case (Cons c v)
  show ?case
  proof
    assume "regex_test (RAny # r) (c # v)"
    then consider "regex_test r (c # v)" | "regex_test (RAny # r) v" by auto
    then show "\<exists>w u. c # v = w @ u \<and> regex_test r u"
    proof cases
      case 1 then show ?thesis by (metis append_Nil)
    next
      case 2 then show ?thesis using Cons by (metis append_Cons list.set_intros(2))
    qed
  next
    assume "\<exists>w u. c # v = w @ u \<and> regex_test r u"
    then obtain w u where wu: "c # v = w @ u" "regex_test r u" by blast
    show "regex_test (RAny # r) (c # v)"
    proof (cases w)
      case Nil then show ?thesis using wu by simp
    next
      case (Cons a w') then show ?thesis using wu Cons.IH Cons.prems by auto
    qed
  qed
qed simp

lemma glob_test:
  assumes "\<forall>c\<in>set v. \<not> line_end c"
  shows "regex_test (map glob_token p) v \<longleftrightarrow> glob p v"
  using assms
proof (induction p arbitrary: v)
  case Nil
  show ?case by (simp add: glob_nil_iff)
next
  case (Cons c p)
  show ?case
  proof (cases "c = CHR ''*''")
    case True
    have "regex_test (map glob_token (c # p)) v \<longleftrightarrow> regex_test (RAny # map glob_token p) v"
      using True by (simp only: list.map glob_token_def if_True simp_thms)
    also have "\<dots> \<longleftrightarrow> (\<exists>w u. v = w @ u \<and> regex_test (map glob_token p) u)" by (rule any_test [OF Cons.prems])
    also have "\<dots> \<longleftrightarrow> (\<exists>w u. v = w @ u \<and> glob p u)"
    proof (intro ex_cong1 conj_cong refl)
      fix w u assume "v = w @ u"
      then show "regex_test (map glob_token p) u \<longleftrightarrow> glob p u" using Cons.IH Cons.prems by simp
    qed
    finally have "regex_test (map glob_token (c # p)) v \<longleftrightarrow> (\<exists>w u. v = w @ u \<and> glob p u)" .
    then show ?thesis unfolding True glob_star_iff by blast
  next
    case False
    then show ?thesis using Cons by (cases v) (auto simp: glob_token_def glob_cons_iff)
  qed
qed

text \<open>C38. Glob matching is exact: for a pattern without a question mark and a value without line terminators, the regular expression built
  from the pattern decides precisely whether the value is the pattern with its stars replaced by texts. Every other metacharacter is
  taken literally, and no such pattern makes the constructor of the expression throw.\<close>

theorem glob_match_is_exact:
  assumes "CHR ''?'' \<notin> set pattern" and "\<forall>c\<in>set v. \<not> line_end c"
  shows "globMatch pattern v = Inr (glob pattern v)"
  using assms by (simp add: globMatch_def parse_escaped glob_test)

lemma glob_match_is_exact_witness:
  "glob ''gpt-4.*'' ''gpt-4.1-mini'' \<and> \<not> glob ''gpt-4.*'' ''gpt-4o''"
proof -
  have "globMatch ''gpt-4.*'' ''gpt-4.1-mini'' = Inr True" "globMatch ''gpt-4.*'' ''gpt-4o'' = Inr False" by code_simp+
  moreover have "globMatch ''gpt-4.*'' ''gpt-4.1-mini'' = Inr (glob ''gpt-4.*'' ''gpt-4.1-mini'')"
    "globMatch ''gpt-4.*'' ''gpt-4o'' = Inr (glob ''gpt-4.*'' ''gpt-4o'')"
    by (rule glob_match_is_exact; simp add: line_end_def)+
  ultimately show ?thesis by simp
qed

text \<open>The question mark is not escaped: at the front it makes the engine throw, elsewhere it is a quantifier.\<close>

lemma question_mark_is_a_quantifier:
  "globMatch ''?pt-4'' ''gpt-4'' = Inl NothingToRepeat"
  "globMatch ''gpt-?'' ''gpt-4'' = Inr False" "globMatch ''gpt-?'' ''gpt'' = Inr True"
  by code_simp+


section \<open>Evaluation\<close>

text \<open>A policy whose patterns are globs proper, on what it applies to and what it refuses.\<close>

definition plain_policy :: "engine_policy \<Rightarrow> bool" where
  "plain_policy p \<longleftrightarrow> (given (ep_model_pattern p) \<longrightarrow> CHR ''?'' \<notin> set (the (ep_model_pattern p)))
     \<and> (case ep_block_model p of None \<Rightarrow> True | Some pats \<Rightarrow> \<forall>q\<in>set pats. CHR ''?'' \<notin> set q)"

definition applies :: "string \<Rightarrow> engine_policy \<Rightarrow> bool" where
  "applies model p \<longleftrightarrow> (given (ep_model_pattern p) \<longrightarrow> glob (the (ep_model_pattern p)) model)"

definition refuses :: "string \<Rightarrow> engine_policy \<Rightarrow> bool" where
  "refuses model p \<longleftrightarrow> applies model p \<and> ep_type p = ''access''
     \<and> (case ep_block_model p of None \<Rightarrow> False | Some pats \<Rightarrow> \<exists>q\<in>set pats. glob q model)"

definition providers_of :: "string \<Rightarrow> engine_policy \<Rightarrow> string list" where
  "providers_of model p =
     (if applies model p \<and> ep_type p = ''routing'' then (case ep_prefer_provider p of None \<Rightarrow> [] | Some xs \<Rightarrow> xs) else [])"

definition tokens_of :: "string \<Rightarrow> engine_policy \<Rightarrow> rat option" where
  "tokens_of model p = (if applies model p \<and> ep_type p = ''budget'' then ep_max_tokens p else None)"

definition last_some :: "'a option \<Rightarrow> 'a option list \<Rightarrow> 'a option" where
  "last_some a xs = fold (\<lambda>x a. case x of None \<Rightarrow> a | Some y \<Rightarrow> Some y) xs a"

lemma last_some_simps [simp]:
  "last_some a [] = a" "last_some a (None # xs) = last_some a xs" "last_some a (Some y # xs) = last_some (Some y) xs"
  by (simp_all add: last_some_def)

lemma some_glob_exact:
  assumes "\<forall>q\<in>set pats. CHR ''?'' \<notin> set q" and "\<forall>c\<in>set model. \<not> line_end c"
  shows "some_glob pats model = Inr (\<exists>q\<in>set pats. glob q model)"
  using assms(1)
proof (induction pats)
  case (Cons q pats)
  have "globMatch q model = Inr (glob q model)"
    using Cons.prems assms(2) by (simp add: globMatch_def parse_escaped glob_test)
  then show ?case using Cons by (cases "glob q model") simp_all
qed simp

lemma condition_exact:
  assumes "plain_policy p" and "\<forall>c\<in>set model. \<not> line_end c"
  shows "condition_holds p model = Inr (applies model p)"
  using assms by (simp add: condition_holds_def applies_def plain_policy_def globMatch_def parse_escaped glob_test)

lemma block_list_exact:
  assumes "plain_policy p" and "\<forall>c\<in>set model. \<not> line_end c" and "applies model p" and "ep_type p = ''access''"
  shows "(case ep_block_model p of None \<Rightarrow> Inr False | Some pats \<Rightarrow> some_glob pats model) = Inr (refuses model p)"
  using assms by (auto simp: refuses_def plain_policy_def some_glob_exact split: option.split)

text \<open>A policy that does not block adds its providers and its bound.\<close>

lemma eval_step:
  assumes "plain_policy p" and "\<forall>c\<in>set model. \<not> line_end c" and "\<not> refuses model p"
  shows "\<exists>names. \<forall>ps. eval_loop model (p # ps) r =
    eval_loop model ps (r\<lparr>er_preferredProviders := er_preferredProviders r @ providers_of model p,
      er_maxTokens := last_some (er_maxTokens r) [tokens_of model p], er_appliedPolicies := names\<rparr>)"
proof -
  note step = condition_exact [OF assms(1,2)] and here = block_list_exact [OF assms(1,2)]
  have same: "r\<lparr>er_preferredProviders := er_preferredProviders r, er_maxTokens := er_maxTokens r,
      er_appliedPolicies := er_appliedPolicies r\<rparr> = r" by simp
  define names where "names = (if applies model p \<and> ep_type p \<in> {''routing'', ''access'', ''budget''}
    then er_appliedPolicies r @ [ep_name p] else er_appliedPolicies r)"
  have "eval_loop model (p # ps) r =
    eval_loop model ps (r\<lparr>er_preferredProviders := er_preferredProviders r @ providers_of model p,
      er_maxTokens := last_some (er_maxTokens r) [tokens_of model p], er_appliedPolicies := names\<rparr>)" for ps
  proof (cases "applies model p")
    case False
    then show ?thesis using step by (simp add: providers_of_def tokens_of_def names_def)
  next
    case True
    consider (routing) "ep_type p = ''routing''" | (access) "ep_type p = ''access''" | (budget) "ep_type p = ''budget''"
      | (other) "ep_type p \<noteq> ''routing''" "ep_type p \<noteq> ''access''" "ep_type p \<noteq> ''budget''" by blast
    then show ?thesis
    proof cases
      case routing
      then show ?thesis using step True
        by (simp add: providers_of_def tokens_of_def applied_def names_def split: option.split)
    next
      case access
      then show ?thesis using step True here assms(3)
        by (simp add: providers_of_def tokens_of_def applied_def names_def)
    next
      case budget
      then show ?thesis using step True
        by (simp add: providers_of_def tokens_of_def applied_def names_def split: option.split)
    next
      case other
      then show ?thesis using step True by (simp add: providers_of_def tokens_of_def names_def)
    qed
  qed
  then show ?thesis by blast
qed

lemma eval_passes:
  assumes "\<forall>p\<in>set ps. plain_policy p \<and> \<not> refuses model p" and "\<forall>c\<in>set model. \<not> line_end c"
  shows "\<exists>names. eval_loop model ps r = Inr (r\<lparr>er_preferredProviders := er_preferredProviders r @ concat (map (providers_of model) ps),
      er_maxTokens := last_some (er_maxTokens r) (map (tokens_of model) ps), er_appliedPolicies := names\<rparr>)"
  using assms(1)
proof (induction ps arbitrary: r)
  case Nil
  show ?case by (rule exI [of _ "er_appliedPolicies r"]) simp
next
  case (Cons p ps)
  then obtain names where "eval_loop model (p # ps) r =
    eval_loop model ps (r\<lparr>er_preferredProviders := er_preferredProviders r @ providers_of model p,
      er_maxTokens := last_some (er_maxTokens r) [tokens_of model p], er_appliedPolicies := names\<rparr>)"
    using eval_step [of p model r] assms(2) by auto
  then show ?case
    using Cons.IH [of "r\<lparr>er_preferredProviders := er_preferredProviders r @ providers_of model p,
      er_maxTokens := last_some (er_maxTokens r) [tokens_of model p], er_appliedPolicies := names\<rparr>"] Cons.prems
    by (cases "tokens_of model p") auto
qed

lemma eval_blocked:
  assumes "\<forall>p\<in>set ps. plain_policy p" and "\<forall>c\<in>set model. \<not> line_end c" and "find (refuses model) ps = Some b"
  shows "\<exists>r'. eval_loop model ps r = Inr r' \<and> \<not> er_allowed r' \<and> er_reason r' = Some (blocked_text model (ep_name b))"
  using assms(1,3)
proof (induction ps arbitrary: r)
  case (Cons p ps)
  show ?case
  proof (cases "refuses model p")
    case True
    then have "b = p" "applies model p" "ep_type p = ''access''" using Cons.prems by (simp_all add: refuses_def)
    then show ?thesis using True Cons.prems(1) condition_exact [of p model] block_list_exact [of p model] assms(2)
      by (simp add: applied_def)
  next
    case False
    then show ?thesis using eval_step [of p model r] assms(2) Cons.IH Cons.prems by fastforce
  qed
qed simp

text \<open>C35. The verdict of the engine. When the patterns contain no question mark and the model no line terminator, evaluation never throws, a model is refused exactly when
  some enabled access policy that applies to it refuses it, in whatever order the policies were added, and the reason names the one
  of least priority; a model that is allowed gets the providers of all routing policies that apply in the order of their
  priorities and the bound of the last budget policy that sets one.\<close>

theorem policy_verdict_is_exact:
  assumes "\<forall>p\<in>set e. plain_policy p" and "\<forall>c\<in>set model. \<not> line_end c"
  defines "active \<equiv> sort_key ep_priority (filter ep_enabled e)"
  shows "\<exists>r. evaluate e model = Inr r \<and> (er_allowed r \<longleftrightarrow> \<not> (\<exists>p\<in>set e. ep_enabled p \<and> refuses model p))
    \<and> (if er_allowed r
       then er_preferredProviders r = concat (map (providers_of model) active) \<and> er_maxTokens r = last_some None (map (tokens_of model) active)
       else er_reason r = Some (blocked_text model (ep_name (the (find (refuses model) active)))))"
proof -
  have set_active: "set active = {p \<in> set e. ep_enabled p}" by (simp add: active_def)
  have plain: "\<forall>p\<in>set active. plain_policy p" using assms(1) by (simp add: set_active)
  show ?thesis
  proof (cases "find (refuses model) active")
    case None
    then have no: "\<forall>p\<in>set active. \<not> refuses model p" by (auto simp: find_None_iff)
    define r0 where "r0 = \<lparr>er_allowed = True, er_reason = None, er_preferredProviders = [], er_appliedPolicies = [], er_maxTokens = None\<rparr>"
    obtain names where "eval_loop model active r0 = Inr (r0\<lparr>er_preferredProviders := er_preferredProviders r0 @ concat (map (providers_of model) active),
      er_maxTokens := last_some (er_maxTokens r0) (map (tokens_of model) active), er_appliedPolicies := names\<rparr>)"
      using eval_passes [of active model r0] plain no assms(2) by blast
    then show ?thesis using no by (auto simp: evaluate_def active_def [symmetric] r0_def set_active)
  next
    case (Some b)
    then have "b \<in> set active" "refuses model b" by (auto simp: find_Some_iff)
    then show ?thesis using eval_blocked [OF plain assms(2) Some] Some
      by (fastforce simp: evaluate_def active_def [symmetric] set_active)
  qed
qed

definition ex_policies :: "engine_policy list" where
  "ex_policies =
     [\<lparr>ep_id = ''1'', ep_name = ''cheap'', ep_type = ''routing'', ep_enabled = True, ep_priority = 2, ep_model_pattern = Some ''gpt-*'',
       ep_prefer_provider = Some [''b''], ep_block_model = None, ep_max_tokens = None\<rparr>,
      \<lparr>ep_id = ''2'', ep_name = ''deny'', ep_type = ''access'', ep_enabled = True, ep_priority = 1, ep_model_pattern = None,
       ep_prefer_provider = None, ep_block_model = Some [''*-preview''], ep_max_tokens = None\<rparr>]"

lemma policy_verdict_is_exact_witness:
  "\<exists>r. evaluate ex_policies ''gpt-5-preview'' = Inr r \<and> \<not> er_allowed r
    \<and> (er_allowed r \<longleftrightarrow> \<not> (\<exists>p\<in>set ex_policies. ep_enabled p \<and> refuses ''gpt-5-preview'' p))"
proof -
  have "\<exists>r. evaluate ex_policies ''gpt-5-preview'' = Inr r
      \<and> (er_allowed r \<longleftrightarrow> \<not> (\<exists>p\<in>set ex_policies. ep_enabled p \<and> refuses ''gpt-5-preview'' p))"
    using policy_verdict_is_exact [of ex_policies "''gpt-5-preview''"] by (force simp: ex_policies_def plain_policy_def given_def line_end_def)
  moreover have "case evaluate ex_policies ''gpt-5-preview'' of Inl _ \<Rightarrow> False | Inr r \<Rightarrow> \<not> er_allowed r" by code_simp
  ultimately show ?thesis by auto
qed


section \<open>Trying several models\<close>

lemma checkLockout_again:
  assumes "lr_locked (fst (checkLockout now i c s))"
  shows "lr_locked (fst (checkLockout now i c (snd (checkLockout now i c s))))"
  using assms
  by (auto simp: checkLockout_def lk_getState_def lk_persistState_def Let_def split: option.splits if_splits prod.splits)

lemma checkBudget_again:
  assumes "\<not> bk_allowed (fst (checkBudget now key a s))"
  shows "\<not> bk_allowed (fst (checkBudget now key a (snd (checkBudget now key a s))))"
proof -
  obtain b where b: "fst (getBudget key now s) = Some b"
    using assms by (cases "fst (getBudget key now s)") (auto simp: checkBudget_def case_prod_unfold)
  have cached: "jm_get (cw_cache (snd (getBudget key now s))) key = Some b"
    using b by (auto simp: getBudget_def sync_frame split: option.splits)
  have settled: "settled_config b"
    using b normalized_settled
    by (auto simp: getBudget_def syncBudgetSchedule_def Let_def settled_config_def split: option.splits)
  define r t L where "r = bc_resetInterval b" and "t = bc_resetTime b" and "L = getActiveBudgetLimit b"
  have works: "works_with r t L b" using settled by (simp add: works_with_def r_def t_def L_def)
  let ?total = "getBudgetWindowTotal key (bw_periodStartAt (getBudgetWindow r t now))"
  have frame: "getBudgetWindowTotal key x (snd (getBudget key now s)) = getBudgetWindowTotal key x s"
    "getBudgetWindowTotal key x (snd (checkBudget now key a s)) = getBudgetWindowTotal key x s" for x
    by (simp_all add: getBudgetWindowTotal_def getBudget_frame checkBudget_frame cong: option.case_cong)
  have over: "L > 0 \<and> ?total s + a > L"
    using assms b frame by (auto simp: checkBudget_def case_prod_unfold Let_def r_def t_def L_def split: if_splits)
  have "\<exists>b'. jm_get (cw_cache (snd (checkBudget now key a s))) key = Some b' \<and> works_with r t L b'"
    using b cached works
    by (auto simp: checkBudget_def case_prod_unfold Let_def saveBudget_def works_with_def settled_config_def split: if_split)
  then show ?thesis using checkBudget_works [of "snd (checkBudget now key a s)" key _ r t L now a] over frame by force
qed

definition refused :: "int \<Rightarrow> policy_request \<Rightarrow> policy_world \<Rightarrow> bool" where
  "refused now base w \<longleftrightarrow>
     given (pr_clientIp base) \<and> lr_locked (fst (checkLockout now (the (pr_clientIp base)) DEFAULT_CONFIG (pw_lockouts w)))
     \<or> given (pr_apiKeyId base) \<and> \<not> bk_allowed (fst (checkBudget now (the (pr_apiKeyId base)) 0 (pw_costs w)))"

lemma verdict_refused: "pv_allowed (fst (evaluateRequest now r w)) \<longleftrightarrow> \<not> refused now r w"
  by (auto simp: evaluateRequest_def refused_def Let_def case_prod_unfold split: option.split)

lemma refused_model [simp]: "refused now (base\<lparr>pr_model := m\<rparr>) w = refused now base w"
  by (simp add: refused_def)

lemma refused_again:
  assumes "refused now r w"
  shows "refused now r (snd (evaluateRequest now r w))"
  using assms checkLockout_again [of now "the (pr_clientIp r)" DEFAULT_CONFIG "pw_lockouts w"]
    checkBudget_again [of now "the (pr_apiKeyId r)" 0 "pw_costs w"]
  by (auto simp: evaluateRequest_def refused_def Let_def case_prod_unfold split: option.split)

lemma refused_all:
  assumes "refused now base w"
  shows "fst (first_allowed now ms base w) = None \<and> refused now base (snd (first_allowed now ms base w))"
  using assms
proof (induction ms arbitrary: w)
  case (Cons m ms)
  then show ?case using verdict_refused [of now "base\<lparr>pr_model := Some m\<rparr>" w] refused_again [of now "base\<lparr>pr_model := Some m\<rparr>" w]
    by (simp add: case_prod_unfold)
qed simp

text \<open>Trying several models never helps. Within one instant a denial depends on the client and the key only, and the checks keep
  it, so of all the models handed to evaluateFirstAllowed only the first can ever be chosen; when it is refused, so is every other
  one, and the answer is a denial without a model.\<close>

theorem only_the_first_model_can_pass:
  assumes "models \<noteq> []"
  shows "if pv_allowed (fst (evaluateRequest now (base\<lparr>pr_model := Some (hd models)\<rparr>) w))
    then fst (evaluateFirstAllowed now models base w) = (Some (hd models), fst (evaluateRequest now (base\<lparr>pr_model := Some (hd models)\<rparr>) w))
    else fst (fst (evaluateFirstAllowed now models base w)) = None \<and> \<not> pv_allowed (snd (fst (evaluateFirstAllowed now models base w)))"
proof (cases models)
  case (Cons m ms)
  let ?r = "base\<lparr>pr_model := Some m\<rparr>"
  show ?thesis
  proof (cases "refused now base w")
    case False
    then have "pv_allowed (fst (evaluateRequest now ?r w))" by (simp add: verdict_refused)
    then show ?thesis by (simp add: evaluateFirstAllowed_def Cons case_prod_unfold)
  next
    case True
    then have no: "\<not> pv_allowed (fst (evaluateRequest now ?r w))" by (simp add: verdict_refused)
    have "refused now base (snd (evaluateRequest now ?r w))" using refused_again [of now ?r w] True by simp
    note rest = refused_all [OF this, of ms]
    have "fst (first_allowed now models base w) = None" "refused now base (snd (first_allowed now models base w))"
      using no rest by (simp_all add: Cons case_prod_unfold)
    then show ?thesis using no verdict_refused Cons by (simp add: evaluateFirstAllowed_def case_prod_unfold)
  qed
qed (use assms in simp)

definition ex_policy_world :: policy_world where
  "ex_policy_world =
     \<lparr>pw_lockouts = \<lparr>lk_cache = [(''ip'', \<lparr>lk_attempts = [], lk_lockedUntil = Some 900\<rparr>)], lk_db = None\<rparr>,
      pw_costs = ex_cost_world, pw_fallbacks = \<lparr>fbs_chains = [], fbs_loaded = True, fbs_db = None\<rparr>\<rparr>"

lemma only_the_first_model_can_pass_witness:
  "fst (fst (evaluateFirstAllowed 500 [''a'', ''b''] \<lparr>pr_model = None, pr_apiKeyId = None, pr_clientIp = Some ''ip''\<rparr> ex_policy_world)) = None
   \<and> fst (fst (evaluateFirstAllowed 1000 [''a'', ''b''] \<lparr>pr_model = None, pr_apiKeyId = None, pr_clientIp = Some ''ip''\<rparr> ex_policy_world)) = Some ''a''"
proof -
  let ?r = "\<lparr>pr_model = Some ''a'', pr_apiKeyId = None, pr_clientIp = Some ''ip''\<rparr>"
  have "\<not> pv_allowed (fst (evaluateRequest 500 ?r ex_policy_world))" "pv_allowed (fst (evaluateRequest 1000 ?r ex_policy_world))"
    by code_simp+
  then show ?thesis
    using only_the_first_model_can_pass [of "[''a'', ''b'']" 500 "\<lparr>pr_model = None, pr_apiKeyId = None, pr_clientIp = Some ''ip''\<rparr>" ex_policy_world]
      only_the_first_model_can_pass [of "[''a'', ''b'']" 1000 "\<lparr>pr_model = None, pr_apiKeyId = None, pr_clientIp = Some ''ip''\<rparr>" ex_policy_world]
    by simp
qed

text \<open>Without any model the request is still evaluated, and passes with a verdict but no model.\<close>

lemma no_model_is_allowed:
  "\<not> refused now base w \<Longrightarrow>
     fst (fst (evaluateFirstAllowed now [] base w)) = None \<and> pv_allowed (snd (fst (evaluateFirstAllowed now [] base w)))"
  by (simp add: evaluateFirstAllowed_def case_prod_unfold verdict_refused)


end
