(* ===== verification/RefreshSerializer.thy ===== *)
theory RefreshSerializer
  imports Omni_Prelude
begin

text \<open>
  The serializer of token refreshes, \<open>open-sse/services/refreshSerializer.ts\<close>: one lane of chained promises per rotation group. A
  call is a task; its tail promise resolves when the tail before it has and its own release was called. A run of the module is a
  sequence of steps at non-decreasing times: a call up to its first await, its turn, the end of its network refresh, the end of its
  settle gap.
\<close>

section \<open>Groups and spacing\<close>

definition ROTATION_LOCK_GROUP :: "(string, string) jsmap" where
  "ROTATION_LOCK_GROUP =
     [(''codex'', ''openai-auth0''), (''openai'', ''openai-auth0''), (''claude'', ''anthropic-oauth''),
      (''gitlab-duo'', ''gitlab-duo''), (''kiro'', ''kiro''), (''kimi-coding'', ''kimi-coding'')]"

definition rotationGroupFor :: "string \<Rightarrow> string option" where
  "rotationGroupFor provider = jm_get ROTATION_LOCK_GROUP provider"

definition DEFAULT_REFRESH_SPACING_MS :: rat where "DEFAULT_REFRESH_SPACING_MS = 2000"

text \<open>The environment variable with the number its text denotes, if it is finite.\<close>

definition getRefreshSpacingMs :: "(string \<times> rat option) option \<Rightarrow> rat" where
  "getRefreshSpacingMs env =
     (case env of
        None \<Rightarrow> DEFAULT_REFRESH_SPACING_MS
      | Some (text, number) \<Rightarrow>
          if text = [] then DEFAULT_REFRESH_SPACING_MS
          else (case number of
                  Some raw \<Rightarrow> if raw \<ge> 0 then raw else DEFAULT_REFRESH_SPACING_MS
                | None \<Rightarrow> DEFAULT_REFRESH_SPACING_MS))"

text \<open>How long a timer of the platform waits: whole milliseconds, and one millisecond outside its range.\<close>

definition timer_ms :: "rat \<Rightarrow> int" where
  "timer_ms ms = (if 1 \<le> ms \<and> ms \<le> 2147483647 then \<lfloor>ms\<rfloor> else 1)"

definition wasRefreshTokenRotated :: "string option \<Rightarrow> string option \<Rightarrow> bool" where
  "wasRefreshTokenRotated attempted latest \<longleftrightarrow>
     (case (attempted, latest) of (Some a, Some l) \<Rightarrow> a \<noteq> [] \<and> l \<noteq> [] \<and> l \<noteq> a | _ \<Rightarrow> False)"

section \<open>The lanes\<close>

datatype refresh_phase = RWaiting | RRunning | RSettling int | RDone

record refresh_task =
  rt_group :: string
  rt_prevTail :: "nat option"
  rt_phase :: refresh_phase

record serializer =
  rz_groupTail :: "(string, nat) jsmap"
  rz_tasks :: "refresh_task list"

definition new_serializer :: serializer where
  "new_serializer = \<lparr>rz_groupTail = [], rz_tasks = []\<rparr>"

text \<open>The tail of a task resolves after the tail before it and its own release.\<close>

function tail_resolved :: "refresh_task list \<Rightarrow> nat \<Rightarrow> bool" where
  "tail_resolved ts i =
     (if i < length ts \<and> rt_phase (ts ! i) = RDone
      then (case rt_prevTail (ts ! i) of None \<Rightarrow> True | Some p \<Rightarrow> if p < i then tail_resolved ts p else False)
      else False)"
  by pat_completeness auto
termination
  by (relation "measure snd") auto

declare tail_resolved.simps [simp del]

definition set_phase :: "nat \<Rightarrow> refresh_phase \<Rightarrow> serializer \<Rightarrow> serializer" where
  "set_phase i p s = s\<lparr>rz_tasks := (rz_tasks s)[i := (rz_tasks s ! i)\<lparr>rt_phase := p\<rparr>]\<rparr>"

text \<open>The call up to its await: the number of the task, or none for a provider that does not rotate.\<close>

definition serializeRefresh :: "string \<Rightarrow> serializer \<Rightarrow> nat option \<times> serializer" where
  "serializeRefresh provider s =
     (case rotationGroupFor provider of
        None \<Rightarrow> (None, s)
      | Some g \<Rightarrow>
          (let n = length (rz_tasks s)
           in (Some n, s\<lparr>rz_tasks := rz_tasks s @ [\<lparr>rt_group = g, rt_prevTail = jm_get (rz_groupTail s) g, rt_phase = RWaiting\<rparr>],
                         rz_groupTail := jm_set g n (rz_groupTail s)\<rparr>)))"

text \<open>The await of the previous tail is over.\<close>

definition my_turn :: "nat \<Rightarrow> serializer \<Rightarrow> bool" where
  "my_turn i s \<longleftrightarrow> (case rt_prevTail (rz_tasks s ! i) of None \<Rightarrow> True | Some p \<Rightarrow> tail_resolved (rz_tasks s) p)"

text \<open>The release with the removal of a lane nobody chained after.\<close>

definition release_lane :: "nat \<Rightarrow> serializer \<Rightarrow> serializer" where
  "release_lane i s =
     (let s1 = set_phase i RDone s; g = rt_group (rz_tasks s ! i)
      in if jm_get (rz_groupTail s1) g = Some i then s1\<lparr>rz_groupTail := jm_del g (rz_groupTail s1)\<rparr> else s1)"

text \<open>The finally block, up to the gap when a sibling is queued.\<close>

definition refresh_finally :: "rat \<Rightarrow> int \<Rightarrow> nat \<Rightarrow> serializer \<Rightarrow> serializer" where
  "refresh_finally spacing now i s =
     (if jm_get (rz_groupTail s) (rt_group (rz_tasks s ! i)) \<noteq> Some i \<and> spacing > 0
      then set_phase i (RSettling (now + timer_ms spacing)) s
      else release_lane i s)"

datatype refresh_event = Arrive string | Turn nat | Finish nat | Wake nat

inductive rz_step :: "rat \<Rightarrow> int \<Rightarrow> refresh_event \<Rightarrow> serializer \<Rightarrow> serializer \<Rightarrow> bool" for spacing where
  rz_arrive: "rz_step spacing now (Arrive p) s (snd (serializeRefresh p s))"
| rz_turn: "i < length (rz_tasks s) \<Longrightarrow> rt_phase (rz_tasks s ! i) = RWaiting \<Longrightarrow> my_turn i s \<Longrightarrow>
    rz_step spacing now (Turn i) s (set_phase i RRunning s)"
| rz_finish: "i < length (rz_tasks s) \<Longrightarrow> rt_phase (rz_tasks s ! i) = RRunning \<Longrightarrow>
    rz_step spacing now (Finish i) s (refresh_finally spacing now i s)"
| rz_wake: "i < length (rz_tasks s) \<Longrightarrow> rt_phase (rz_tasks s ! i) = RSettling until \<Longrightarrow> until \<le> now \<Longrightarrow>
    rz_step spacing now (Wake i) s (release_lane i s)"

inductive rz_run :: "rat \<Rightarrow> int \<Rightarrow> serializer \<Rightarrow> (int \<times> refresh_event) list \<Rightarrow> int \<Rightarrow> serializer \<Rightarrow> bool" for spacing where
  rz_nil: "rz_run spacing t s [] t s"
| rz_snoc: "rz_run spacing t s tr u s1 \<Longrightarrow> u \<le> now \<Longrightarrow> rz_step spacing now e s1 s2 \<Longrightarrow>
    rz_run spacing t s (tr @ [(now, e)]) now s2"

inductive_cases rz_turnE: "rz_step spacing now (Turn i) s s'"
inductive_cases rz_finishE: "rz_step spacing now (Finish i) s s'"

section \<open>The order of a lane\<close>

abbreviation grp :: "serializer \<Rightarrow> nat \<Rightarrow> string" where "grp s i \<equiv> rt_group (rz_tasks s ! i)"
abbreviation phs :: "serializer \<Rightarrow> nat \<Rightarrow> refresh_phase" where "phs s i \<equiv> rt_phase (rz_tasks s ! i)"
abbreviation prv :: "serializer \<Rightarrow> nat \<Rightarrow> nat option" where "prv s i \<equiv> rt_prevTail (rz_tasks s ! i)"

text \<open>All tasks of the group of \<open>i\<close> before it are done.\<close>

definition first_in_lane :: "serializer \<Rightarrow> nat \<Rightarrow> bool" where
  "first_in_lane s i \<longleftrightarrow> (\<forall>j<i. grp s j = grp s i \<longrightarrow> phs s j = RDone)"

definition lane_chained :: "serializer \<Rightarrow> bool" where
  "lane_chained s \<longleftrightarrow> (\<forall>i<length (rz_tasks s). case prv s i of
      None \<Rightarrow> first_in_lane s i
    | Some p \<Rightarrow> p < i \<and> grp s p = grp s i \<and> (\<forall>j. p < j \<and> j < i \<longrightarrow> grp s j \<noteq> grp s i))"

definition tail_ok :: "serializer \<Rightarrow> string \<Rightarrow> bool" where
  "tail_ok s g \<longleftrightarrow> (case jm_get (rz_groupTail s) g of
      None \<Rightarrow> \<forall>i<length (rz_tasks s). grp s i = g \<longrightarrow> phs s i = RDone
    | Some j \<Rightarrow> j < length (rz_tasks s) \<and> grp s j = g \<and> phs s j \<noteq> RDone \<and> (\<forall>k<length (rz_tasks s). j < k \<longrightarrow> grp s k \<noteq> g))"

definition in_turn :: "serializer \<Rightarrow> bool" where
  "in_turn s \<longleftrightarrow> (\<forall>i<length (rz_tasks s). phs s i \<noteq> RWaiting \<longrightarrow> first_in_lane s i)"

definition rz_inv :: "serializer \<Rightarrow> bool" where
  "rz_inv s \<longleftrightarrow> lane_chained s \<and> (\<forall>g. tail_ok s g) \<and> in_turn s"

text \<open>The predecessor in the lane decides.\<close>

lemma first_in_lane_pred:
  assumes "p < i" and "grp s p = grp s i" and "\<forall>j. p < j \<and> j < i \<longrightarrow> grp s j \<noteq> grp s i"
  shows "first_in_lane s i \<longleftrightarrow> phs s p = RDone \<and> first_in_lane s p"
proof
  assume "first_in_lane s i"
  then show "phs s p = RDone \<and> first_in_lane s p" using assms by (auto simp: first_in_lane_def)
next
  assume r: "phs s p = RDone \<and> first_in_lane s p"
  show "first_in_lane s i" unfolding first_in_lane_def
  proof (intro allI impI)
    fix j assume j: "j < i" "grp s j = grp s i"
    then have "j \<le> p" using assms(3) by (meson not_le)
    then show "phs s j = RDone" using r assms(2) j by (cases "j = p") (auto simp: first_in_lane_def)
  qed
qed

lemma lane_chained_cases:
  assumes "lane_chained s" and "i < length (rz_tasks s)"
  obtains "prv s i = None" and "first_in_lane s i"
  | p where "prv s i = Some p" and "p < i" and "first_in_lane s i \<longleftrightarrow> phs s p = RDone \<and> first_in_lane s p"
proof (cases "prv s i")
  case None
  then show thesis using assms that(1) by (auto simp: lane_chained_def split: option.splits)
next
  case (Some p)
  then have "p < i" "grp s p = grp s i" "\<forall>j. p < j \<and> j < i \<longrightarrow> grp s j \<noteq> grp s i"
    using assms by (auto simp: lane_chained_def split: option.splits)
  then show thesis using that(2) [OF Some] first_in_lane_pred by blast
qed

lemma resolved_iff:
  assumes "lane_chained s" and "i < length (rz_tasks s)"
  shows "tail_resolved (rz_tasks s) i \<longleftrightarrow> phs s i = RDone \<and> first_in_lane s i"
  using assms(2)
proof (induction i rule: less_induct)
  case (less i)
  from assms(1) less.prems show ?case
  proof (cases rule: lane_chained_cases)
    case 1
    then show ?thesis using less.prems by (subst tail_resolved.simps) auto
  next
    case (2 p)
    then show ?thesis using less.IH [of p] less.prems by (subst tail_resolved.simps) auto
  qed
qed

lemma my_turn_iff:
  assumes "lane_chained s" and "i < length (rz_tasks s)"
  shows "my_turn i s \<longleftrightarrow> first_in_lane s i"
  using assms
proof (cases rule: lane_chained_cases)
  case (2 p)
  then show ?thesis using resolved_iff [OF assms(1), of p] assms(2) by (simp add: my_turn_def)
qed (simp add: my_turn_def)

section \<open>The invariant\<close>

lemma set_phase_task:
  "rz_tasks (set_phase i p s) ! j =
     (if j = i \<and> i < length (rz_tasks s) then (rz_tasks s ! j)\<lparr>rt_phase := p\<rparr> else rz_tasks s ! j)"
proof (cases "i < length (rz_tasks s)")
  case True
  then show ?thesis by (simp add: set_phase_def nth_list_update)
next
  case False
  then have "rz_tasks (set_phase i p s) = rz_tasks s" by (simp add: set_phase_def list_update_beyond)
  then show ?thesis using False by simp
qed

lemma set_phase_simps [simp]:
  "length (rz_tasks (set_phase i p s)) = length (rz_tasks s)"
  "rz_groupTail (set_phase i p s) = rz_groupTail s"
  "grp (set_phase i p s) j = grp s j"
  "prv (set_phase i p s) j = prv s j"
  "i < length (rz_tasks s) \<Longrightarrow> phs (set_phase i p s) j = (if j = i then p else phs s j)"
  by (simp add: set_phase_def, simp add: set_phase_def, simp_all add: set_phase_task)

lemma release_lane_simps [simp]:
  "rz_tasks (release_lane i s) = rz_tasks (set_phase i RDone s)"
  "jm_get (rz_groupTail (release_lane i s)) g =
     (if g = grp s i \<and> jm_get (rz_groupTail s) g = Some i then None else jm_get (rz_groupTail s) g)"
  by (auto simp: release_lane_def Let_def)

lemma first_in_lane_mono:
  assumes "first_in_lane s i" and "\<And>j. grp s' j = grp s j" and "\<And>j. phs s j = RDone \<Longrightarrow> phs s' j = RDone"
  shows "first_in_lane s' i"
  using assms by (simp add: first_in_lane_def)

lemma inv_phase:
  assumes inv: "rz_inv s" and i: "i < length (rz_tasks s)" and live: "phs s i \<noteq> RDone" and first: "first_in_lane s i" and p: "p \<noteq> RDone"
  shows "rz_inv (set_phase i p s)"
proof -
  let ?s = "set_phase i p s"
  have keep: "first_in_lane ?s j" if "first_in_lane s j" for j
    using that i live by (rule_tac first_in_lane_mono) (auto)
  have "lane_chained ?s" using inv keep by (auto simp: rz_inv_def lane_chained_def split: option.splits)
  moreover have "tail_ok ?s g" for g
  proof -
    have "tail_ok s g" using inv by (simp add: rz_inv_def)
    then show ?thesis using i live p by (cases "jm_get (rz_groupTail s) g") (auto simp: tail_ok_def)
  qed
  moreover have "in_turn ?s" using inv i first keep by (auto simp: rz_inv_def in_turn_def)
  ultimately show ?thesis by (simp add: rz_inv_def)
qed

lemma inv_release:
  assumes inv: "rz_inv s" and i: "i < length (rz_tasks s)" and live: "phs s i \<noteq> RDone" and first: "first_in_lane s i"
  shows "rz_inv (release_lane i s)"
proof -
  let ?s = "release_lane i s"
  have keep: "first_in_lane ?s j" if "first_in_lane s j" for j
    using that i by (rule_tac first_in_lane_mono) auto
  have "lane_chained ?s" using inv keep by (auto simp: rz_inv_def lane_chained_def split: option.splits)
  moreover have "tail_ok ?s g" for g
  proof -
    have t: "tail_ok s g" using inv by (simp add: rz_inv_def)
    show ?thesis
    proof (cases "g = grp s i \<and> jm_get (rz_groupTail s) g = Some i")
      case True
      have "phs (set_phase i RDone s) k = RDone" if "k < length (rz_tasks s)" "grp s k = g" for k
        using that True t first i by (cases k i rule: linorder_cases) (auto simp: first_in_lane_def tail_ok_def)
      moreover have "jm_get (rz_groupTail ?s) g = None" using True by auto
      ultimately show ?thesis by (simp add: tail_ok_def)
    next
      case False
      then have "jm_get (rz_groupTail ?s) g = jm_get (rz_groupTail s) g" by auto
      then show ?thesis using t i False by (cases "jm_get (rz_groupTail s) g") (auto simp: tail_ok_def)
    qed
  qed
  moreover have "in_turn ?s" using inv i first keep by (auto simp: rz_inv_def in_turn_def)
  ultimately show ?thesis by (simp add: rz_inv_def)
qed

lemma inv_arrive:
  assumes inv: "rz_inv s"
  shows "rz_inv (snd (serializeRefresh p s))"
proof (cases "rotationGroupFor p")
  case None
  then show ?thesis using inv by (simp add: serializeRefresh_def)
next
  case (Some g)
  define n where "n = length (rz_tasks s)"
  define s' where "s' = snd (serializeRefresh p s)"
  have s': "length (rz_tasks s') = Suc n" "grp s' n = g" "prv s' n = jm_get (rz_groupTail s) g" "phs s' n = RWaiting"
    "\<And>h. jm_get (rz_groupTail s') h = (if h = g then Some n else jm_get (rz_groupTail s) h)"
    using Some by (auto simp: s'_def serializeRefresh_def n_def Let_def)
  have old: "rz_tasks s' ! j = rz_tasks s ! j" if "j < n" for j
    using that Some by (simp add: s'_def serializeRefresh_def n_def Let_def nth_append)
  have first: "first_in_lane s' j \<longleftrightarrow> first_in_lane s j" if "j < n" for j
    using that old by (auto simp: first_in_lane_def)
  have tail: "tail_ok s h" for h using inv by (simp add: rz_inv_def)
  have "lane_chained s'" unfolding lane_chained_def
  proof (intro allI impI)
    fix i assume "i < length (rz_tasks s')"
    then consider "i < n" | "i = n" using s'(1) by linarith
    then show "case prv s' i of None \<Rightarrow> first_in_lane s' i
      | Some p \<Rightarrow> p < i \<and> grp s' p = grp s' i \<and> (\<forall>j. p < j \<and> j < i \<longrightarrow> grp s' j \<noteq> grp s' i)"
    proof cases
      case 1
      have "case prv s i of None \<Rightarrow> first_in_lane s i
        | Some p \<Rightarrow> p < i \<and> grp s p = grp s i \<and> (\<forall>j. p < j \<and> j < i \<longrightarrow> grp s j \<noteq> grp s i)"
        using inv 1 by (simp add: rz_inv_def lane_chained_def n_def)
      then show ?thesis using 1 old first by (auto split: option.splits)
    next
      case 2
      then show ?thesis using tail [of g] s' old
        by (cases "jm_get (rz_groupTail s) g") (auto simp: first_in_lane_def tail_ok_def n_def)
    qed
  qed
  moreover have "tail_ok s' h" for h
    using tail [of h] s' old by (cases "jm_get (rz_groupTail s) h") (auto simp: tail_ok_def n_def less_Suc_eq)
  moreover have "in_turn s'" unfolding in_turn_def
    using inv first old s' by (auto simp: rz_inv_def in_turn_def n_def less_Suc_eq)
  ultimately show ?thesis by (simp add: rz_inv_def s'_def)
qed

lemma inv_step: "rz_step spacing now e s s' \<Longrightarrow> rz_inv s \<Longrightarrow> rz_inv s'"
proof (induction rule: rz_step.induct)
  case (rz_arrive now p s)
  then show ?case by (rule inv_arrive)
next
  case (rz_turn i s now)
  then show ?case using my_turn_iff [of s i] by (intro inv_phase) (auto simp: rz_inv_def)
next
  case (rz_finish i s now)
  then have "first_in_lane s i" by (auto simp: rz_inv_def in_turn_def)
  then show ?case using rz_finish inv_phase inv_release by (auto simp: refresh_finally_def)
next
  case (rz_wake i s until now)
  then have "first_in_lane s i" by (auto simp: rz_inv_def in_turn_def)
  then show ?case using rz_wake inv_release by auto
qed

lemma inv_new: "rz_inv new_serializer"
  by (simp add: rz_inv_def new_serializer_def lane_chained_def tail_ok_def in_turn_def)

lemma inv_run: "rz_run spacing t s tr u s' \<Longrightarrow> rz_inv s \<Longrightarrow> rz_inv s'"
  by (induction rule: rz_run.induct) (auto intro: inv_step)


section \<open>Running it\<close>

text \<open>The steps as a function: what a given event does, if it can happen.\<close>

fun rz_exec :: "rat \<Rightarrow> int \<Rightarrow> refresh_event \<Rightarrow> serializer \<Rightarrow> serializer option" where
  "rz_exec spacing now (Arrive p) s = Some (snd (serializeRefresh p s))"
| "rz_exec spacing now (Turn i) s =
     (if i < length (rz_tasks s) \<and> rt_phase (rz_tasks s ! i) = RWaiting \<and> my_turn i s then Some (set_phase i RRunning s) else None)"
| "rz_exec spacing now (Finish i) s =
     (if i < length (rz_tasks s) \<and> rt_phase (rz_tasks s ! i) = RRunning then Some (refresh_finally spacing now i s) else None)"
| "rz_exec spacing now (Wake i) s =
     (if i < length (rz_tasks s)
      then (case rt_phase (rz_tasks s ! i) of RSettling d \<Rightarrow> if d \<le> now then Some (release_lane i s) else None | _ \<Rightarrow> None)
      else None)"

lemma exec_step: "rz_step spacing now e s s' \<longleftrightarrow> rz_exec spacing now e s = Some s'"
proof
  show "rz_step spacing now e s s' \<Longrightarrow> rz_exec spacing now e s = Some s'" by (induction rule: rz_step.induct) auto
  show "rz_exec spacing now e s = Some s' \<Longrightarrow> rz_step spacing now e s s'"
    by (cases e) (auto intro: rz_step.intros split: if_splits refresh_phase.splits)
qed

fun rz_play :: "rat \<Rightarrow> int \<Rightarrow> serializer \<Rightarrow> (int \<times> refresh_event) list \<Rightarrow> (int \<times> serializer) option" where
  "rz_play spacing t s [] = Some (t, s)"
| "rz_play spacing t s ((now, e) # tr) =
     (if t \<le> now then (case rz_exec spacing now e s of None \<Rightarrow> None | Some s' \<Rightarrow> rz_play spacing now s' tr) else None)"

lemma play_append:
  assumes "rz_run spacing t s tr u s1" and "rz_play spacing u s1 tr' = Some (v, s2)"
  shows "rz_run spacing t s (tr @ tr') v s2"
  using assms
proof (induction tr' arbitrary: tr u s1)
  case (Cons x tr')
  obtain now e where x: "x = (now, e)" by (cases x)
  with Cons.prems obtain s' where step: "u \<le> now" "rz_exec spacing now e s1 = Some s'" "rz_play spacing now s' tr' = Some (v, s2)"
    by (auto split: if_splits option.splits)
  then have "rz_run spacing t s (tr @ [(now, e)]) now s'" using Cons.prems(1) rz_snoc exec_step by blast
  from Cons.IH [OF this step(3)] show ?case by (simp add: x)
qed simp

lemma play_run: "rz_play spacing t s tr = Some (u, s') \<Longrightarrow> rz_run spacing t s tr u s'"
  using play_append [OF rz_nil] by fastforce

text \<open>Two siblings and a provider of another group.\<close>

definition ex_refreshes :: "(int \<times> refresh_event) list" where
  "ex_refreshes = [(0, Arrive ''codex''), (0, Turn 0), (5, Arrive ''openai''), (6, Arrive ''claude''), (6, Turn 2)]"

definition ex_lanes :: serializer where
  "ex_lanes = \<lparr>rz_groupTail = [(''openai-auth0'', 1), (''anthropic-oauth'', 2)],
     rz_tasks = [\<lparr>rt_group = ''openai-auth0'', rt_prevTail = None, rt_phase = RRunning\<rparr>,
                 \<lparr>rt_group = ''openai-auth0'', rt_prevTail = Some 0, rt_phase = RWaiting\<rparr>,
                 \<lparr>rt_group = ''anthropic-oauth'', rt_prevTail = None, rt_phase = RRunning\<rparr>]\<rparr>"

lemma ex_run: "rz_run 2000 0 new_serializer ex_refreshes 6 ex_lanes"
proof (rule play_run)
  show "rz_play 2000 0 new_serializer ex_refreshes = Some (6, ex_lanes)" by code_simp
qed

lemma ex_finish: "rz_step 2000 9 (Finish 0) ex_lanes (set_phase 0 (RSettling 2009) ex_lanes)"
proof -
  have "timer_ms 2000 = 2000" by (simp add: timer_ms_def)
  then have "refresh_finally 2000 9 0 ex_lanes = set_phase 0 (RSettling 2009) ex_lanes"
    by (simp add: refresh_finally_def ex_lanes_def jm_get_def)
  then show ?thesis unfolding exec_step by (simp add: ex_lanes_def)
qed

definition ex_gap :: serializer where
  "ex_gap = release_lane 0 (set_phase 0 (RSettling 2009) ex_lanes)"

lemma ex_wake: "rz_run 2000 9 (set_phase 0 (RSettling 2009) ex_lanes) [(2010, Wake 0)] 2010 ex_gap"
  by (rule play_run) code_simp

lemma ex_turn: "rz_step 2000 2011 (Turn 1) ex_gap (set_phase 1 RRunning ex_gap)"
  unfolding exec_step by code_simp

section \<open>Properties\<close>

text \<open>C13. At most one refresh of a rotation group is on the network or in its settle gap, and the calls of a group take their turns in
  the order in which they arrived: whatever the interleaving, once a call is past its wait every earlier call of the
  group has released the lane, failed refreshes included.\<close>

theorem one_refresh_at_a_time:
  assumes "rz_run spacing t new_serializer tr u s" and "i < j" and "j < length (rz_tasks s)"
    and "rt_group (rz_tasks s ! i) = rt_group (rz_tasks s ! j)" and "rt_phase (rz_tasks s ! j) \<noteq> RWaiting"
  shows "rt_phase (rz_tasks s ! i) = RDone"
  using inv_run [OF assms(1) inv_new] assms(2-) by (simp add: rz_inv_def in_turn_def first_in_lane_def)

lemma one_refresh_at_a_time_witness:
  "rt_phase (rz_tasks (set_phase 1 RRunning ex_gap) ! 0) = RDone"
proof -
  have "rz_run 2000 0 new_serializer (ex_refreshes @ [(9, Finish 0), (2010, Wake 0), (2011, Turn 1)]) 2011 (set_phase 1 RRunning ex_gap)"
    by (rule play_append [OF ex_run]) (use ex_finish ex_wake ex_turn in \<open>simp add: exec_step\<close>, code_simp)
  then show ?thesis by (rule one_refresh_at_a_time [where i = 0 and j = 1]) code_simp+
qed

text \<open>A settling task settles until its timer fires.\<close>

lemma settling_step:
  assumes "rz_step spacing now e s s'" and "i < length (rz_tasks s)"
    and "phs s i = RSettling d \<or> phs s i = RDone \<and> d \<le> u" and "u \<le> now"
  shows "i < length (rz_tasks s') \<and> (phs s' i = RSettling d \<or> phs s' i = RDone \<and> d \<le> now)"
  using assms
proof (induction rule: rz_step.induct)
  case (rz_arrive now p s)
  then show ?case by (auto simp: serializeRefresh_def Let_def nth_append split: option.split)
next
  case (rz_turn k s now)
  then show ?case by (cases "k = i") auto
next
  case (rz_finish k s now)
  then show ?case by (cases "k = i") (auto simp: refresh_finally_def)
next
  case (rz_wake k s until now)
  then show ?case by (cases "k = i") auto
qed

lemma settling_run:
  assumes "rz_run spacing u s tr u' s'" and "i < length (rz_tasks s)" and "phs s i = RSettling d"
  shows "i < length (rz_tasks s') \<and> (phs s' i = RSettling d \<or> phs s' i = RDone \<and> d \<le> u')"
  using assms
proof (induction rule: rz_run.induct)
  case (rz_snoc t s tr u s1 now e s2)
  then show ?case using settling_step [OF rz_snoc.hyps(3), of i d u] by blast
qed auto

lemma group_run:
  assumes "rz_run spacing u s tr u' s'" and "i < length (rz_tasks s)"
  shows "i < length (rz_tasks s') \<and> grp s' i = grp s i"
  using assms
proof (induction rule: rz_run.induct)
  case (rz_snoc t s tr u s1 now e s2)
  have "i < length (rz_tasks s2) \<and> grp s2 i = grp s1 i" if "i < length (rz_tasks s1)"
    using rz_snoc.hyps(3) that
    by (induction rule: rz_step.induct)
      (auto simp: serializeRefresh_def refresh_finally_def Let_def nth_append split: option.split)
  then show ?case using rz_snoc by simp
qed auto

text \<open>Refreshes of siblings are spaced: when a call is waiting behind one that ends at some time, it does not get its turn before the
  settle gap has passed, whatever else happens in between.\<close>

theorem queued_refreshes_are_spaced:
  assumes "rz_run spacing t new_serializer tr u s1" and "rz_step spacing t1 (Finish i) s1 s2"
    and "rz_run spacing t1 s2 tr' u' s3" and "u' \<le> t2" and "rz_step spacing t2 (Turn j) s3 s4"
    and "i < j" and "j < length (rz_tasks s1)" and "rt_group (rz_tasks s1 ! i) = rt_group (rz_tasks s1 ! j)" and "spacing > 0"
  shows "t1 + timer_ms spacing \<le> t2"
proof -
  have inv1: "rz_inv s1" using inv_run [OF assms(1) inv_new] .
  from assms(2) have fin: "i < length (rz_tasks s1)" "phs s1 i = RRunning" "s2 = refresh_finally spacing t1 i s1"
    by (auto elim: rz_finishE)
  have "jm_get (rz_groupTail s1) (grp s1 i) \<noteq> Some i"
  proof
    assume "jm_get (rz_groupTail s1) (grp s1 i) = Some i"
    moreover have "tail_ok s1 (grp s1 i)" using inv1 by (simp add: rz_inv_def)
    ultimately show False using assms(6-8) by (auto simp: tail_ok_def)
  qed
  then have s2: "s2 = set_phase i (RSettling (t1 + timer_ms spacing)) s1" using fin assms(9) by (simp add: refresh_finally_def)
  then have "phs s2 i = RSettling (t1 + timer_ms spacing)" "i < length (rz_tasks s2)" using fin by simp_all
  from settling_run [OF assms(3) this(2,1)]
  have i3: "i < length (rz_tasks s3)" "phs s3 i = RSettling (t1 + timer_ms spacing) \<or> phs s3 i = RDone \<and> t1 + timer_ms spacing \<le> u'"
    by simp_all
  have inv3: "rz_inv s3" using inv_run [OF assms(3)] inv_step [OF assms(2) inv1] by simp
  from assms(5) have "j < length (rz_tasks s3)" "my_turn j s3" by (auto elim: rz_turnE)
  then have "first_in_lane s3 j" using inv3 by (simp add: my_turn_iff rz_inv_def)
  moreover have "grp s3 i = grp s3 j"
    using group_run [OF assms(3), of i] group_run [OF assms(3), of j] assms(6-8) s2 by simp
  ultimately have "phs s3 i = RDone" using assms(6) by (auto simp: first_in_lane_def)
  then show ?thesis using i3(2) assms(4) by auto
qed

lemma queued_refreshes_are_spaced_witness: "9 + timer_ms 2000 \<le> 2011"
  by (rule queued_refreshes_are_spaced [OF ex_run ex_finish ex_wake _ ex_turn]; code_simp)

section \<open>Progress\<close>

fun phase_work :: "refresh_phase \<Rightarrow> nat" where
  "phase_work RWaiting = 3"
| "phase_work RRunning = 2"
| "phase_work (RSettling _) = 1"
| "phase_work RDone = 0"

definition refresh_work :: "serializer \<Rightarrow> nat" where
  "refresh_work s = sum_list (map (\<lambda>x. phase_work (rt_phase x)) (rz_tasks s))"

lemma work_set_phase:
  assumes "i < length (rz_tasks s)" and "phase_work p < phase_work (phs s i)"
  shows "refresh_work (set_phase i p s) < refresh_work s"
proof -
  define xs where "xs = map (\<lambda>x. phase_work (rt_phase x)) (rz_tasks s)"
  have "refresh_work (set_phase i p s) = sum_list (xs[i := phase_work p])"
    by (simp add: refresh_work_def set_phase_def xs_def map_update)
  moreover have "xs ! i = phase_work (phs s i)" "i < length xs" using assms(1) by (simp_all add: xs_def)
  moreover have "sum_list (xs[i := phase_work p]) + xs ! i = sum_list xs + phase_work p" if "i < length xs" for i xs p
    using that by (induction xs arbitrary: i) (auto simp: nth_Cons split: nat.split)
  ultimately show ?thesis using assms(2) by (metis add_less_cancel_left add_less_cancel_right refresh_work_def xs_def)
qed

lemma work_release: "refresh_work (release_lane i s) = refresh_work (set_phase i RDone s)"
  by (simp add: refresh_work_def)

text \<open>C20. No refresh is stuck: as long as some call has not ended, a step other than a new call is possible, now or when a timer has run
  out, and every such step uses up a part of the work that is left. So once calls stop arriving, every one of them gets its
  turn and ends after finitely many steps.\<close>

theorem refresh_lanes_drain:
  assumes "rz_run spacing t new_serializer tr u s" and "\<exists>i<length (rz_tasks s). rt_phase (rz_tasks s ! i) \<noteq> RDone"
  shows "(\<exists>now\<ge>u. \<exists>e s'. (\<forall>p. e \<noteq> Arrive p) \<and> rz_step spacing now e s s')
    \<and> (\<forall>now e s'. rz_step spacing now e s s' \<longrightarrow> (\<forall>p. e \<noteq> Arrive p) \<longrightarrow> refresh_work s' < refresh_work s)"
proof
  have inv: "rz_inv s" using inv_run [OF assms(1) inv_new] .
  define i where "i = (LEAST i. i < length (rz_tasks s) \<and> phs s i \<noteq> RDone)"
  have i: "i < length (rz_tasks s)" "phs s i \<noteq> RDone" using LeastI_ex [OF assms(2)] by (simp_all add: i_def)
  have "phs s j = RDone" if "j < i" for j using not_less_Least [of j "\<lambda>i. i < length (rz_tasks s) \<and> phs s i \<noteq> RDone"] that i(1)
    by (auto simp: i_def)
  then have "my_turn i s" using inv i(1) by (simp add: my_turn_iff rz_inv_def first_in_lane_def)
  then show "\<exists>now\<ge>u. \<exists>e s'. (\<forall>p. e \<noteq> Arrive p) \<and> rz_step spacing now e s s'"
  proof (cases "phs s i")
    case RWaiting
    then show ?thesis using rz_turn [OF i(1) _ \<open>my_turn i s\<close>, of spacing u] by blast
  next
    case RRunning
    then show ?thesis using rz_finish [OF i(1), of spacing u] by blast
  next
    case (RSettling d)
    then show ?thesis using rz_wake [OF i(1) RSettling, of "max u d" spacing] by (metis max.cobounded1 max.cobounded2 refresh_event.distinct(5))
  qed (use i in simp)
  show "\<forall>now e s'. rz_step spacing now e s s' \<longrightarrow> (\<forall>p. e \<noteq> Arrive p) \<longrightarrow> refresh_work s' < refresh_work s"
    by (auto elim!: rz_step.cases intro!: work_set_phase simp: refresh_finally_def work_release)
qed


lemma refresh_lanes_drain_witness: "\<exists>now\<ge>6. \<exists>e s'. (\<forall>p. e \<noteq> Arrive p) \<and> rz_step 2000 now e ex_lanes s'"
proof -
  have "\<exists>i<length (rz_tasks ex_lanes). rt_phase (rz_tasks ex_lanes ! i) \<noteq> RDone"
    by (rule exI [of _ 0]) code_simp
  from refresh_lanes_drain [OF ex_run this] show ?thesis by simp
qed

end
