(* ===== verification/TokenRefresh.thy ===== *)
theory TokenRefresh
  imports RefreshSerializer
begin

text \<open>
  Refreshing the tokens of a connection: \<open>getAccessToken\<close> of \<open>open-sse/services/tokenRefresh.ts\<close> with its mutex per connection, the
  rotation map (\<open>tokenRefresh/rotationMap.ts\<close>), the check against the stored row, the compare-and-swap guard
  (\<open>tokenRefresh/casGuard.ts\<close>), and the row as \<open>updateProviderCredentials\<close> of \<open>src/sse/services/tokenRefresh.ts\<close> writes it.
  A refresh in flight goes through phases, one between every two awaits; the answer of the provider is an argument, and the key of the
  rotation map (a hash) is a parameter.
\<close>

section \<open>Tokens and rows\<close>

record refresh_tokens =
  tn_accessToken :: string
  tn_refreshToken :: "string option"
  tn_expiresIn :: "int option"
  tn_expiresAt :: "int option"

record conn_row =
  cn_refreshToken :: string
  cn_accessToken :: string
  cn_expiresAt :: "int option"

text \<open>What the provider answered: nothing, an error, tokens, or an exception.\<close>

datatype refresh_answer = NoAnswer | ErrorAnswer string | Tokens refresh_tokens | Thrown

definition updateProviderCredentials :: "int \<Rightarrow> refresh_tokens \<Rightarrow> conn_row \<Rightarrow> conn_row" where
  "updateProviderCredentials now t r =
     r\<lparr>cn_accessToken := (if tn_accessToken t \<noteq> [] then tn_accessToken t else cn_accessToken r),
       cn_refreshToken := (case tn_refreshToken t of Some x \<Rightarrow> if x \<noteq> [] then x else cn_refreshToken r | None \<Rightarrow> cn_refreshToken r),
       cn_expiresAt := (if truthy (tn_expiresIn t) then Some (now + the (tn_expiresIn t) * 1000)
                        else if tn_expiresAt t \<noteq> None then tn_expiresAt t else cn_expiresAt r)\<rparr>"

section \<open>The rotation map\<close>

record rotation_entry =
  re_result :: refresh_tokens
  re_expiresAt :: int

definition ROTATION_MAP_TTL_MS :: int where "ROTATION_MAP_TTL_MS = 60 * 1000"

definition cleanupRotationMap :: "int \<Rightarrow> (string, rotation_entry) jsmap \<Rightarrow> (string, rotation_entry) jsmap" where
  "cleanupRotationMap now m = filter (\<lambda>(_, e). \<not> re_expiresAt e \<le> now) m"

definition lookupRotation :: "(string \<Rightarrow> string \<Rightarrow> string) \<Rightarrow> int \<Rightarrow> string \<Rightarrow> string \<Rightarrow> (string, rotation_entry) jsmap \<Rightarrow>
    rotation_entry option \<times> (string, rotation_entry) jsmap" where
  "lookupRotation key now provider token m0 =
     (let m = cleanupRotationMap now m0
      in case jm_get m (key provider token) of
           None \<Rightarrow> (None, m)
         | Some e \<Rightarrow> if re_expiresAt e \<le> now then (None, jm_del (key provider token) m) else (Some e, m))"

definition recordRotation :: "(string \<Rightarrow> string \<Rightarrow> string) \<Rightarrow> int \<Rightarrow> string \<Rightarrow> string \<Rightarrow> refresh_tokens \<Rightarrow>
    (string, rotation_entry) jsmap \<Rightarrow> (string, rotation_entry) jsmap" where
  "recordRotation key now provider oldToken t m =
     (case tn_refreshToken t of
        None \<Rightarrow> m
      | Some r \<Rightarrow>
          if oldToken = [] \<or> r = [] \<or> oldToken = r then m
          else jm_set (key provider oldToken) \<lparr>re_result = t, re_expiresAt = now + ROTATION_MAP_TTL_MS\<rparr> m)"

section \<open>A refresh in flight\<close>

datatype flight_phase =
    AtDb                       \<comment> \<open>before the row is read\<close>
  | AtNetwork string           \<comment> \<open>this token waits for its lane and is presented\<close>
  | AtPersist refresh_answer   \<comment> \<open>before the guard reads the row again\<close>
  | AtWrite refresh_tokens     \<comment> \<open>the persist callback runs\<close>
  | AtEnd

record flight =
  fg_provider :: string
  fg_credential :: string
  fg_guarded :: bool
  fg_persist :: bool
  fg_waiters :: nat
  fg_phase :: flight_phase

record refresh_world =
  tw_rows :: "(string, conn_row) jsmap"
  tw_mutex :: "(string, flight) jsmap"
  tw_rotations :: "(string, rotation_entry) jsmap"
  tw_promises :: "(string, flight) jsmap"

definition set_flight :: "string \<Rightarrow> flight_phase \<Rightarrow> flight \<Rightarrow> refresh_world \<Rightarrow> refresh_world" where
  "set_flight cid ph f w = w\<lparr>tw_mutex := jm_set cid (f\<lparr>fg_phase := ph\<rparr>) (tw_mutex w)\<rparr>"

datatype call_outcome = CallNull | CallShared | CallStarted

text \<open>A call with a connection: it shares the refresh in flight, or starts one and looks into the rotation map.\<close>

definition getAccessToken ::
  "(string \<Rightarrow> string \<Rightarrow> string) \<Rightarrow> int \<Rightarrow> string \<Rightarrow> string \<Rightarrow> string \<Rightarrow> bool \<Rightarrow> bool \<Rightarrow> refresh_world \<Rightarrow> call_outcome \<times> refresh_world" where
  "getAccessToken key now cid provider token guarded persist w =
     (if token = [] then (CallNull, w)
      else (case jm_get (tw_mutex w) cid of
              Some f \<Rightarrow> (CallShared, w\<lparr>tw_mutex := jm_set cid (f\<lparr>fg_waiters := fg_waiters f + 1\<rparr>) (tw_mutex w)\<rparr>)
            | None \<Rightarrow>
                (let (hit, m) = lookupRotation key now provider token (tw_rotations w);
                     ph = (case hit of Some e \<Rightarrow> AtPersist (Tokens (re_result e)) | None \<Rightarrow> AtDb)
                 in (CallStarted,
                     w\<lparr>tw_rotations := m,
                       tw_mutex := jm_set cid \<lparr>fg_provider = provider, fg_credential = token, fg_guarded = guarded, fg_persist = persist,
                                               fg_waiters = 0, fg_phase = ph\<rparr> (tw_mutex w)\<rparr>))))"

text \<open>The row is read: a newer token that is still valid is the result, one that has expired is the token to present.\<close>

definition plan_refresh :: "int \<Rightarrow> string \<Rightarrow> conn_row option \<Rightarrow> flight_phase" where
  "plan_refresh now token row =
     (case row of
        None \<Rightarrow> AtNetwork token
      | Some r \<Rightarrow>
          if cn_refreshToken r = [] \<or> cn_refreshToken r = token then AtNetwork token
          else if (case cn_expiresAt r of Some x \<Rightarrow> x | None \<Rightarrow> 0) > now + 60000
          then AtPersist (Tokens \<lparr>tn_accessToken = cn_accessToken r, tn_refreshToken = Some (cn_refreshToken r),
                                  tn_expiresIn = None, tn_expiresAt = cn_expiresAt r\<rparr>)
          else AtNetwork (cn_refreshToken r))"

text \<open>The guard: a row that moved past the token the caller came with is not overwritten.\<close>

definition casGuardShouldSkipPersist :: "bool \<Rightarrow> string \<Rightarrow> bool \<Rightarrow> conn_row option \<Rightarrow> bool" where
  "casGuardShouldSkipPersist guarded expected rereadOk row \<longleftrightarrow>
     guarded \<and> expected \<noteq> [] \<and> rereadOk \<and> wasRefreshTokenRotated (Some expected) (map_option cn_refreshToken row)"

datatype rf_event =
    RfCall string string bool bool   \<comment> \<open>provider, token, guard, persist callback\<close>
  | RfReadDb bool
  | RfAnswer refresh_answer
  | RfGuard bool
  | RfWrite bool
  | RfEnd

definition has_tokens :: "refresh_tokens \<Rightarrow> bool" where
  "has_tokens t \<longleftrightarrow> tn_accessToken t \<noteq> [] \<and> tn_refreshToken t \<noteq> None \<and> tn_refreshToken t \<noteq> Some []"


text \<open>One step of the refresh of a connection; \<open>None\<close> when the event cannot happen.\<close>

definition rf_step :: "(string \<Rightarrow> string \<Rightarrow> string) \<Rightarrow> string \<Rightarrow> int \<Rightarrow> rf_event \<Rightarrow> refresh_world \<Rightarrow> refresh_world option" where
  "rf_step key cid now e w =
     (case e of
        RfCall provider token guarded persist \<Rightarrow> Some (snd (getAccessToken key now cid provider token guarded persist w))
      | _ \<Rightarrow>
          (case jm_get (tw_mutex w) cid of
             None \<Rightarrow> None
           | Some f \<Rightarrow>
               (case (e, fg_phase f) of
                  (RfReadDb ok, AtDb) \<Rightarrow>
                    Some (set_flight cid (plan_refresh now (fg_credential f) (if ok then jm_get (tw_rows w) cid else None)) f w)
                | (RfAnswer a, AtNetwork token) \<Rightarrow>
                    (let w1 = (case a of
                                 Tokens t \<Rightarrow>
                                   if has_tokens t
                                   then w\<lparr>tw_rotations := recordRotation key now (fg_provider f) token t (tw_rotations w)\<rparr> else w
                               | _ \<Rightarrow> w)
                     in Some (set_flight cid (AtPersist a) f w1))
                | (RfGuard ok, AtPersist a) \<Rightarrow>
                    (case a of
                       Tokens t \<Rightarrow>
                         if tn_accessToken t = [] \<or> \<not> fg_persist f
                           \<or> casGuardShouldSkipPersist (fg_guarded f) (fg_credential f) ok (jm_get (tw_rows w) cid)
                         then Some (set_flight cid AtEnd f w) else Some (set_flight cid (AtWrite t) f w)
                     | _ \<Rightarrow> Some (set_flight cid AtEnd f w))
                | (RfWrite ok, AtWrite t) \<Rightarrow>
                    (let w1 = (case jm_get (tw_rows w) cid of
                                 Some r \<Rightarrow> if ok then w\<lparr>tw_rows := jm_set cid (updateProviderCredentials now t r) (tw_rows w)\<rparr> else w
                               | None \<Rightarrow> w)
                     in Some (set_flight cid AtEnd f w1))
                | (RfEnd, AtEnd) \<Rightarrow> Some (w\<lparr>tw_mutex := jm_del cid (tw_mutex w)\<rparr>)
                | _ \<Rightarrow> None)))"

text \<open>The token an event exchanges: the one presented, when the provider answers with tokens.\<close>

definition exchanged_by :: "string \<Rightarrow> rf_event \<Rightarrow> refresh_world \<Rightarrow> string list" where
  "exchanged_by cid e w =
     (case (e, jm_get (tw_mutex w) cid) of
        (RfAnswer (Tokens t), Some f) \<Rightarrow> (case fg_phase f of AtNetwork token \<Rightarrow> [token] | _ \<Rightarrow> [])
      | _ \<Rightarrow> [])"

fun rf_run :: "(string \<Rightarrow> string \<Rightarrow> string) \<Rightarrow> string \<Rightarrow> (int \<times> rf_event) list \<Rightarrow> refresh_world \<Rightarrow> (string list \<times> refresh_world) option" where
  "rf_run key cid [] w = Some ([], w)"
| "rf_run key cid ((now, e) # es) w =
     (case rf_step key cid now e w of
        None \<Rightarrow> None
      | Some w' \<Rightarrow> map_option (\<lambda>(xs, w''). (exchanged_by cid e w @ xs, w'')) (rf_run key cid es w'))"

section \<open>Calls without a connection\<close>

text \<open>The second layer: callers with the same token share a promise; the token they came with is the one presented.\<close>

definition getAccessToken_unconnected ::
  "(string \<Rightarrow> string \<Rightarrow> string) \<Rightarrow> string \<Rightarrow> string \<Rightarrow> bool \<Rightarrow> bool \<Rightarrow> refresh_world \<Rightarrow> call_outcome \<times> refresh_world" where
  "getAccessToken_unconnected key provider token guarded persist w =
     (if token = [] then (CallNull, w)
      else if jm_has (tw_promises w) (key provider token) then (CallShared, w)
      else (CallStarted,
            w\<lparr>tw_promises := jm_set (key provider token)
                \<lparr>fg_provider = provider, fg_credential = token, fg_guarded = guarded, fg_persist = persist, fg_waiters = 0,
                 fg_phase = AtNetwork token\<rparr> (tw_promises w)\<rparr>))"

section \<open>Rotating providers\<close>

text \<open>
  A run as the callers in the process make it: reads and writes of the row succeed, every caller persists, no caller uses the guard,
  times do not decrease; and the provider issues a refresh token it has never issued before with every exchange, exchanges of
  the connection lying at least the life of a rotation entry apart.
\<close>

fun orderly :: "string list \<Rightarrow> int option \<Rightarrow> int \<Rightarrow> (int \<times> rf_event) list \<Rightarrow> bool" where
  "orderly seen prev u [] \<longleftrightarrow> True"
| "orderly seen prev u ((now, e) # es) \<longleftrightarrow>
     u \<le> now \<and>
     (case e of
        RfCall provider token guarded persist \<Rightarrow> \<not> guarded \<and> persist \<and> orderly seen prev now es
      | RfReadDb ok \<Rightarrow> ok \<and> orderly seen prev now es
      | RfWrite ok \<Rightarrow> ok \<and> orderly seen prev now es
      | RfAnswer (Tokens t) \<Rightarrow>
          (case tn_refreshToken t of
             None \<Rightarrow> False
           | Some r \<Rightarrow> tn_accessToken t \<noteq> [] \<and> r \<noteq> [] \<and> r \<notin> set seen
               \<and> (case prev of None \<Rightarrow> True | Some l \<Rightarrow> l + ROTATION_MAP_TTL_MS \<le> now)
               \<and> orderly (r # seen) (Some now) now es)
      | _ \<Rightarrow> orderly seen prev now es)"

text \<open>The token issued last, stored in the row or on its way there.\<close>

fun phase_ok :: "string \<Rightarrow> string \<Rightarrow> flight_phase \<Rightarrow> bool" where
  "phase_ok n cur AtDb \<longleftrightarrow> n = cur"
| "phase_ok n cur (AtNetwork token) \<longleftrightarrow> n = cur \<and> token = cur"
| "phase_ok n cur (AtPersist a) \<longleftrightarrow>
     (case a of Tokens t \<Rightarrow> tn_refreshToken t = Some n \<and> (n = cur \<or> tn_accessToken t \<noteq> []) | _ \<Rightarrow> n = cur)"
| "phase_ok n cur (AtWrite t) \<longleftrightarrow> tn_refreshToken t = Some n"
| "phase_ok n cur AtEnd \<longleftrightarrow> n = cur"

definition rf_inv :: "string \<Rightarrow> string list \<Rightarrow> string list \<Rightarrow> int option \<Rightarrow> int \<Rightarrow> string \<Rightarrow> refresh_world \<Rightarrow> bool" where
  "rf_inv cid used seen prev now n w \<longleftrightarrow>
     (\<exists>r. jm_get (tw_rows w) cid = Some r
        \<and> (case jm_get (tw_mutex w) cid of
             None \<Rightarrow> n = cn_refreshToken r
           | Some f \<Rightarrow> \<not> fg_guarded f \<and> fg_persist f \<and> phase_ok n (cn_refreshToken r) (fg_phase f)))
     \<and> n \<noteq> [] \<and> n \<notin> set used \<and> n \<in> set seen \<and> set used \<subseteq> set seen \<and> distinct used
     \<and> (\<forall>(k, e)\<in>set (tw_rotations w). (re_expiresAt e > now \<longrightarrow> tn_refreshToken (re_result e) = Some n \<and> tn_accessToken (re_result e) \<noteq> [])
          \<and> (\<exists>l. prev = Some l \<and> re_expiresAt e \<le> l + ROTATION_MAP_TTL_MS))"

lemma lookup_cases:
  assumes "lookupRotation key now p token m = (hit, m')"
  shows "set m' \<subseteq> set m \<and> (hit = None \<or> (\<exists>k e. hit = Some e \<and> (k, e) \<in> set m \<and> re_expiresAt e > now))"
proof (cases "jm_get (cleanupRotationMap now m) (key p token)")
  case None
  then show ?thesis using assms by (auto simp: lookupRotation_def cleanupRotationMap_def)
next
  case (Some e)
  then have "(key p token, e) \<in> set m" "re_expiresAt e > now"
    by (auto dest!: jm_get_SomeD simp: cleanupRotationMap_def)
  then show ?thesis using assms Some by (auto simp: lookupRotation_def cleanupRotationMap_def jm_del_def)
qed

lemma inv_later:
  assumes "rf_inv cid used seen prev u n w" and "u \<le> now"
  shows "rf_inv cid used seen prev now n w"
  using assms unfolding rf_inv_def by fastforce


text \<open>The row a read delivers leads to the token issued last.\<close>

lemma plan_ok:
  assumes "cn_refreshToken r \<noteq> []"
  shows "phase_ok (cn_refreshToken r) (cn_refreshToken r) (plan_refresh now token (Some r))"
  using assms by (auto simp: plan_refresh_def)

lemma recorded_cases:
  "x \<in> set (recordRotation key now p old t m) \<Longrightarrow>
     x \<in> set m \<or> snd x = \<lparr>re_result = t, re_expiresAt = now + ROTATION_MAP_TTL_MS\<rparr>"
  by (auto simp: recordRotation_def split: option.splits if_splits dest!: jm_set_values)

text \<open>Every step but an exchange keeps the token.\<close>

lemma inv_quiet_step:
  assumes inv: "rf_inv cid used seen prev now n w" and step: "rf_step key cid now e w = Some w'"
    and fine: "orderly seen prev now [(now, e)]" and no: "exchanged_by cid e w = []"
  shows "rf_inv cid used seen prev now n w'"
proof -
  obtain r where r: "jm_get (tw_rows w) cid = Some r" "n \<noteq> []"
    and flight: "case jm_get (tw_mutex w) cid of None \<Rightarrow> n = cn_refreshToken r
      | Some f \<Rightarrow> \<not> fg_guarded f \<and> fg_persist f \<and> phase_ok n (cn_refreshToken r) (fg_phase f)"
    and rot: "\<forall>(k, e)\<in>set (tw_rotations w). (re_expiresAt e > now \<longrightarrow> tn_refreshToken (re_result e) = Some n \<and> tn_accessToken (re_result e) \<noteq> [])
      \<and> (\<exists>l. prev = Some l \<and> re_expiresAt e \<le> l + ROTATION_MAP_TTL_MS)"
    using inv by (auto simp: rf_inv_def)
  show ?thesis
  proof (cases e)
    case (RfCall p token g pers)
    show ?thesis
    proof (cases "token = [] \<or> jm_get (tw_mutex w) cid \<noteq> None")
      case True
      then show ?thesis
      proof (cases "token = []")
        case True
        then show ?thesis using RfCall step inv by (simp add: rf_step_def getAccessToken_def)
      next
        case no: False
        with True obtain f where "jm_get (tw_mutex w) cid = Some f" by auto
        then show ?thesis using no RfCall step inv r by (auto simp: rf_step_def getAccessToken_def rf_inv_def)
      qed
    next
      case False
      obtain hit m where l: "lookupRotation key now p token (tw_rotations w) = (hit, m)" by fastforce
      have n: "n = cn_refreshToken r" using False flight by auto
      have w': "w' = w\<lparr>tw_rotations := m, tw_mutex := jm_set cid \<lparr>fg_provider = p, fg_credential = token, fg_guarded = g,
          fg_persist = pers, fg_waiters = 0, fg_phase = (case hit of Some e \<Rightarrow> AtPersist (Tokens (re_result e)) | None \<Rightarrow> AtDb)\<rparr> (tw_mutex w)\<rparr>"
        using RfCall step False l by (simp add: rf_step_def getAccessToken_def)
      have ph: "phase_ok n (cn_refreshToken r) (case hit of Some e \<Rightarrow> AtPersist (Tokens (re_result e)) | None \<Rightarrow> AtDb)"
        using lookup_cases [OF l] rot n by (auto split: option.split)
      have "set m \<subseteq> set (tw_rotations w)" using lookup_cases [OF l] by simp
      then show ?thesis using inv r ph fine RfCall by (auto simp: rf_inv_def w')
    qed
  next
    case (RfReadDb ok)
    then obtain f where f: "jm_get (tw_mutex w) cid = Some f" "fg_phase f = AtDb"
      using step by (auto simp: rf_step_def split: option.splits flight_phase.splits)
    have "n = cn_refreshToken r" using flight f by simp
    then have "phase_ok n (cn_refreshToken r) (plan_refresh now (fg_credential f) (Some r))" using plan_ok r(2) by simp
    then show ?thesis using RfReadDb step fine f r inv by (auto simp: rf_step_def set_flight_def rf_inv_def)
  next
    case (RfAnswer a)
    then obtain f token where f: "jm_get (tw_mutex w) cid = Some f" "fg_phase f = AtNetwork token"
      using step by (auto simp: rf_step_def split: option.splits flight_phase.splits)
    show ?thesis using RfAnswer step no f r inv
      by (cases a) (auto simp: rf_step_def set_flight_def rf_inv_def exchanged_by_def)
  next
    case (RfGuard ok)
    then obtain f a where f: "jm_get (tw_mutex w) cid = Some f" "fg_phase f = AtPersist a"
      using step by (auto simp: rf_step_def split: option.splits flight_phase.splits)
    show ?thesis
    proof (cases a)
      case (Tokens t)
      then show ?thesis using RfGuard step f r inv
        by (cases "tn_accessToken t = []") (auto simp: rf_step_def set_flight_def rf_inv_def casGuardShouldSkipPersist_def)
    qed (use RfGuard step f r inv in \<open>auto simp: rf_step_def set_flight_def rf_inv_def\<close>)
  next
    case (RfWrite ok)
    then obtain f t where f: "jm_get (tw_mutex w) cid = Some f" "fg_phase f = AtWrite t"
      using step by (auto simp: rf_step_def split: option.splits flight_phase.splits)
    then have "tn_refreshToken t = Some n" using flight by simp
    then have "cn_refreshToken (updateProviderCredentials now t r) = n" using r(2) by (simp add: updateProviderCredentials_def)
    then show ?thesis using RfWrite step fine f r inv by (auto simp: rf_step_def set_flight_def rf_inv_def Let_def)
  next
    case RfEnd
    then obtain f where f: "jm_get (tw_mutex w) cid = Some f" "fg_phase f = AtEnd"
      using step by (auto simp: rf_step_def split: option.splits flight_phase.splits)
    then show ?thesis using RfEnd step r inv flight by (auto simp: rf_step_def rf_inv_def)
  qed
qed

text \<open>An exchange uses the token issued last, and issues the next one.\<close>

lemma inv_exchange:
  assumes inv: "rf_inv cid used seen prev now n w" and step: "rf_step key cid now (RfAnswer (Tokens t)) w = Some w'"
    and t: "tn_refreshToken t = Some x" "tn_accessToken t \<noteq> []" "x \<noteq> []" "x \<notin> set seen"
    and apart: "case prev of None \<Rightarrow> True | Some l \<Rightarrow> l + ROTATION_MAP_TTL_MS \<le> now"
  shows "exchanged_by cid (RfAnswer (Tokens t)) w = [n] \<and> rf_inv cid (used @ [n]) (x # seen) (Some now) now x w'"
proof -
  obtain f token where f: "jm_get (tw_mutex w) cid = Some f" "fg_phase f = AtNetwork token"
    using step by (auto simp: rf_step_def split: option.splits flight_phase.splits)
  have tok: "token = n" "n \<noteq> []" "n \<in> set seen" using inv f by (auto simp: rf_inv_def)
  define m where "m = recordRotation key now (fg_provider f) token t (tw_rotations w)"
  have w': "w' = set_flight cid (AtPersist (Tokens t)) f (w\<lparr>tw_rotations := m\<rparr>)"
    using step f t by (simp add: rf_step_def has_tokens_def m_def)
  have "case e of (k, e) \<Rightarrow> (re_expiresAt e > now \<longrightarrow> tn_refreshToken (re_result e) = Some x \<and> tn_accessToken (re_result e) \<noteq> [])
      \<and> re_expiresAt e \<le> now + ROTATION_MAP_TTL_MS" if e_in: "e \<in> set m" for e
  proof -
    consider "e \<in> set (tw_rotations w)" | "snd e = \<lparr>re_result = t, re_expiresAt = now + ROTATION_MAP_TTL_MS\<rparr>"
      using recorded_cases [of e key now "fg_provider f" token t "tw_rotations w"] e_in m_def by auto
    then show ?thesis
    proof cases
      case 1
      then obtain l where "prev = Some l" "re_expiresAt (snd e) \<le> l + ROTATION_MAP_TTL_MS" using inv by (auto simp: rf_inv_def)
      then have "re_expiresAt (snd e) \<le> now" using apart by simp
      then show ?thesis by (auto simp: case_prod_unfold ROTATION_MAP_TTL_MS_def)
    next
      case 2
      then show ?thesis using t by (auto simp: case_prod_unfold)
    qed
  qed
  then have "rf_inv cid (used @ [n]) (x # seen) (Some now) now x w'"
    using inv f t tok by (auto simp: rf_inv_def w' set_flight_def)
  then show ?thesis using f tok by (simp add: exchanged_by_def)
qed

lemma exchanges_distinct:
  assumes "rf_inv cid used seen prev u n w" and "orderly seen prev u es" and "rf_run key cid es w = Some (xs, w')"
  shows "distinct (used @ xs)"
  using assms
proof (induction es arbitrary: used seen prev u n w xs)
  case Nil
  then show ?case by (auto simp: rf_inv_def)
next
  case (Cons ev es)
  obtain now e where ev: "ev = (now, e)" by (cases ev)
  obtain w1 ys where run: "rf_step key cid now e w = Some w1" "rf_run key cid es w1 = Some (ys, w')" "xs = exchanged_by cid e w @ ys"
    using Cons.prems(3) ev by (auto split: option.splits)
  have inv: "rf_inv cid used seen prev now n w" using Cons.prems ev inv_later by auto
  show ?case
  proof (cases "exchanged_by cid e w = []")
    case True
    have "orderly seen prev now [(now, e)] \<and> orderly seen prev now es \<or> (\<exists>t. e = RfAnswer (Tokens t))"
      using Cons.prems(2) ev by (auto split: rf_event.splits refresh_answer.splits)
    moreover have False if "e = RfAnswer (Tokens t)" for t
      using that True run(1) by (auto simp: rf_step_def exchanged_by_def split: option.splits flight_phase.splits)
    ultimately have "orderly seen prev now [(now, e)]" "orderly seen prev now es" by blast+
    then show ?thesis using inv_quiet_step [OF inv run(1) _ True] Cons.IH run True by simp
  next
    case False
    then obtain t where t: "e = RfAnswer (Tokens t)"
      by (auto simp: exchanged_by_def split: rf_event.splits refresh_answer.splits)
    obtain x where x: "tn_refreshToken t = Some x" "tn_accessToken t \<noteq> []" "x \<noteq> []" "x \<notin> set seen"
      "case prev of None \<Rightarrow> True | Some l \<Rightarrow> l + ROTATION_MAP_TTL_MS \<le> now" "orderly (x # seen) (Some now) now es"
      using Cons.prems(2) ev t by (auto split: option.splits)
    have "exchanged_by cid e w = [n] \<and> rf_inv cid (used @ [n]) (x # seen) (Some now) now x w1"
      using inv_exchange [OF inv _ x(1-5)] run(1) t by blast
    then show ?thesis using Cons.IH x(6) run by fastforce
  qed
qed


section \<open>Properties\<close>

text \<open>C12. No refresh token of a connection is exchanged twice. Whatever tokens the callers come with, stale ones included, and however their
  calls, the reads and writes of the row and the answers of the provider interleave: as long as the callers persist
  without the guard, reads and writes succeed, and exchanges of the connection are at least the life of a rotation entry
  apart, the mutex, the rotation map and the check of the row make every exchange use the token issued last.\<close>

theorem no_refresh_token_is_reused:
  assumes "jm_get (tw_rows w) cid = Some r" and "cn_refreshToken r \<noteq> []"
    and "jm_get (tw_mutex w) cid = None" and "tw_rotations w = []"
    and "orderly [cn_refreshToken r] None now es" and "rf_run key cid es w = Some (exchanged, w')"
  shows "distinct exchanged"
proof -
  have "rf_inv cid [] [cn_refreshToken r] None now (cn_refreshToken r) w"
    using assms(1-4) by (simp add: rf_inv_def)
  from exchanges_distinct [OF this assms(5,6)] show ?thesis by simp
qed

definition ex_key :: "string \<Rightarrow> string \<Rightarrow> string" where
  "ex_key p t = p @ '':'' @ t"

definition ex_tokens :: "string \<Rightarrow> refresh_tokens" where
  "ex_tokens t = \<lparr>tn_accessToken = ''a'' @ t, tn_refreshToken = Some t, tn_expiresIn = Some 10, tn_expiresAt = None\<rparr>"

definition ex_world :: refresh_world where
  "ex_world = \<lparr>tw_rows = [(''c'', \<lparr>cn_refreshToken = ''t0'', cn_accessToken = ''a0'', cn_expiresAt = None\<rparr>)],
     tw_mutex = [], tw_rotations = [], tw_promises = []\<rparr>"

text \<open>A refresh from the call to its end, for a caller with a given token, at a given time.\<close>

definition ex_refresh :: "int \<Rightarrow> bool \<Rightarrow> string \<Rightarrow> string \<Rightarrow> (int \<times> rf_event) list" where
  "ex_refresh now guarded token issued =
     [(now, RfCall ''codex'' token guarded True), (now, RfReadDb True), (now, RfAnswer (Tokens (ex_tokens issued))),
      (now, RfGuard True), (now, RfWrite True), (now, RfEnd)]"

lemma no_refresh_token_is_reused_witness:
  "\<exists>w'. rf_run ex_key ''c'' (ex_refresh 0 False ''t0'' ''t1'' @ ex_refresh 90000 False ''t0'' ''t2'') ex_world = Some ([''t0'', ''t1''], w')
     \<and> distinct [''t0'', ''t1'']"
proof -
  let ?es = "ex_refresh 0 False ''t0'' ''t1'' @ ex_refresh 90000 False ''t0'' ''t2''"
  have "map_option fst (rf_run ex_key ''c'' ?es ex_world) = Some [''t0'', ''t1'']" by code_simp
  then obtain w' where run: "rf_run ex_key ''c'' ?es ex_world = Some ([''t0'', ''t1''], w')" by auto
  have start: "jm_get (tw_rows ex_world) ''c'' = Some \<lparr>cn_refreshToken = ''t0'', cn_accessToken = ''a0'', cn_expiresAt = None\<rparr>"
    "jm_get (tw_mutex ex_world) ''c'' = None" "tw_rotations ex_world = []" "orderly [''t0''] None 0 ?es" by code_simp+
  have "distinct [''t0'', ''t1'']"
    by (rule no_refresh_token_is_reused [OF start(1) _ start(2,3) _ run, of 0]) (use start(4) in simp_all)
  then show ?thesis using run by blast
qed

text \<open>
  What the conditions exclude. Two rotations within the life of an entry and a caller with the first token: its hit is written over
  the newer row, and the next refresh presents a token that was exchanged before.
\<close>

lemma early_second_rotation_reverts_the_row:
  "map_option fst (rf_run ex_key ''c''
     (ex_refresh 0 False ''t0'' ''t1'' @ ex_refresh 10000 False ''t1'' ''t2''
      @ [(20000, RfCall ''codex'' ''t0'' False True), (20000, RfGuard True), (20000, RfWrite True), (20000, RfEnd)]
      @ ex_refresh 90000 False ''t2'' ''t3'') ex_world) = Some [''t0'', ''t1'', ''t1'']"
  by code_simp

text \<open>
  The guard compares the row with the token the caller came with, not with the one that was presented: for a stale caller whose row
  has expired as well, the fresh tokens are not written, the row keeps the token just exchanged, and the next refresh presents it.
\<close>

lemma guard_drops_the_rotation_of_a_stale_caller:
  "map_option fst (rf_run ex_key ''c''
     (ex_refresh 0 False ''t0'' ''t1''
      @ [(90000, RfCall ''codex'' ''t0'' True True), (90000, RfReadDb True), (90000, RfAnswer (Tokens (ex_tokens ''t2''))),
         (90000, RfGuard True), (90000, RfEnd)]
      @ ex_refresh 180000 False ''t1'' ''t3'') ex_world) = Some [''t0'', ''t1'', ''t1'']"
  by code_simp

text \<open>A call without a connection does not look into the rotation map: it presents a token the map knows to be exchanged.\<close>

lemma unconnected_call_ignores_rotations:
  "case rf_run ex_key ''c'' (ex_refresh 0 False ''t0'' ''t1'') ex_world of
     None \<Rightarrow> False
   | Some (xs, w) \<Rightarrow>
       xs = [''t0''] \<and> fst (lookupRotation ex_key 1 ''codex'' ''t0'' (tw_rotations w)) \<noteq> None
       \<and> map_option fg_phase (jm_get (tw_promises (snd (getAccessToken_unconnected ex_key ''codex'' ''t0'' False True w))) (ex_key ''codex'' ''t0''))
           = Some (AtNetwork ''t0'')"
  by code_simp

end
