(* ===== verification/RefreshRetry.thy ===== *)
theory RefreshRetry
  imports Omni_Prelude
begin

text \<open>
  Retrying a refresh, \<open>open-sse/services/tokenRefresh/circuitBreaker.ts\<close>: the breaker per provider and the loop of attempts with its
  delays. What an attempt ends in (within its time limit) is an argument, and so is the time at which a call has ended.
\<close>

section \<open>The breaker\<close>

record refresh_breaker =
  rb_failures :: nat
  rb_blockedUntil :: int

type_synonym refresh_breakers = "(string, refresh_breaker) jsmap"

definition REFRESH_BREAKER_THRESHOLD :: nat where "REFRESH_BREAKER_THRESHOLD = 5"
definition REFRESH_BREAKER_COOLDOWN :: int where "REFRESH_BREAKER_COOLDOWN = 30 * 60 * 1000"

definition isProviderBlocked :: "int \<Rightarrow> string \<Rightarrow> refresh_breakers \<Rightarrow> bool \<times> refresh_breakers" where
  "isProviderBlocked now provider m =
     (case jm_get m provider of
        None \<Rightarrow> (False, m)
      | Some s \<Rightarrow>
          if rb_blockedUntil s = 0 then (False, m)
          else if rb_blockedUntil s > now then (True, m)
          else (False, jm_del provider m))"

definition getCircuitBreakerStatus :: "int \<Rightarrow> refresh_breakers \<Rightarrow> (string \<times> nat \<times> bool \<times> int option \<times> int) list" where
  "getCircuitBreakerStatus now m =
     map (\<lambda>(p, s). (p, rb_failures s, rb_blockedUntil s > now,
                    if rb_blockedUntil s > now then Some (rb_blockedUntil s) else None, max 0 (rb_blockedUntil s - now))) m"

definition refresh_recordSuccess :: "string \<Rightarrow> refresh_breakers \<Rightarrow> refresh_breakers" where
  "refresh_recordSuccess provider m = (if jm_has m provider then jm_del provider m else m)"

definition refresh_recordFailure :: "int \<Rightarrow> string \<Rightarrow> refresh_breakers \<Rightarrow> refresh_breakers" where
  "refresh_recordFailure now provider m =
     (let s = (case jm_get m provider of None \<Rightarrow> \<lparr>rb_failures = 0, rb_blockedUntil = 0\<rparr> | Some s \<Rightarrow> s);
          s1 = s\<lparr>rb_failures := rb_failures s + 1\<rparr>
      in jm_set provider (if rb_failures s1 \<ge> REFRESH_BREAKER_THRESHOLD then s1\<lparr>rb_blockedUntil := now + REFRESH_BREAKER_COOLDOWN\<rparr> else s1) m)"

section \<open>The loop\<close>

text \<open>An attempt gives tokens, an error no retry can mend, or nothing (null, a timeout or an exception).\<close>

datatype attempt_outcome = GotTokens | Unrecoverable | GotNothing

datatype retry_result = RefreshedTokens | RefreshDead | RefreshNull

text \<open>The delays waited, the number of attempts and the way the loop ends; \<open>None\<close> when every attempt failed.\<close>

fun retry_loop :: "nat \<Rightarrow> nat \<Rightarrow> (nat \<Rightarrow> attempt_outcome) \<Rightarrow> int list \<times> nat \<times> attempt_outcome option" where
  "retry_loop 0 attempt outcome = ([], 0, None)"
| "retry_loop (Suc n) attempt outcome =
     (let delay = (if attempt > 0 then [int attempt * 1000] else [])
      in case outcome attempt of
           GotNothing \<Rightarrow> (let (ds, k, e) = retry_loop n (attempt + 1) outcome in (delay @ ds, k + 1, e))
         | x \<Rightarrow> (delay, 1, Some x))"

record retry_report =
  rr_result :: retry_result
  rr_refused :: bool
  rr_attempts :: nat
  rr_delays :: "int list"

definition refreshWithRetry ::
  "int \<Rightarrow> int \<Rightarrow> nat \<Rightarrow> string \<Rightarrow> (nat \<Rightarrow> attempt_outcome) \<Rightarrow> refresh_breakers \<Rightarrow> retry_report \<times> refresh_breakers" where
  "refreshWithRetry now endTime maxRetries provider outcome m =
     (case isProviderBlocked now provider m of
        (True, m1) \<Rightarrow> (\<lparr>rr_result = RefreshNull, rr_refused = True, rr_attempts = 0, rr_delays = []\<rparr>, m1)
      | (False, m1) \<Rightarrow>
          (case retry_loop maxRetries 0 outcome of
             (ds, k, None) \<Rightarrow>
               (\<lparr>rr_result = RefreshNull, rr_refused = False, rr_attempts = k, rr_delays = ds\<rparr>, refresh_recordFailure endTime provider m1)
           | (ds, k, Some GotTokens) \<Rightarrow>
               (\<lparr>rr_result = RefreshedTokens, rr_refused = False, rr_attempts = k, rr_delays = ds\<rparr>, refresh_recordSuccess provider m1)
           | (ds, k, Some _) \<Rightarrow> (\<lparr>rr_result = RefreshDead, rr_refused = False, rr_attempts = k, rr_delays = ds\<rparr>, m1)))"

section \<open>Proof support\<close>

lemma retry_loop_bounds:
  "retry_loop n a outcome = (ds, k, e) \<Longrightarrow>
     k \<le> n \<and> (n > 0 \<longrightarrow> k > 0) \<and> ds = map (\<lambda>i. int i * 1000) (filter (\<lambda>i. i > 0) [a..<a + k])
     \<and> (\<forall>i. a \<le> i \<and> i + 1 < a + k \<longrightarrow> outcome i = GotNothing)
     \<and> (case e of None \<Rightarrow> k = n \<and> (\<forall>i. a \<le> i \<and> i < a + n \<longrightarrow> outcome i = GotNothing) | Some x \<Rightarrow> x \<noteq> GotNothing \<and> outcome (a + k - 1) = x)"
proof (induction n arbitrary: a ds k e)
  case (Suc n)
  show ?case
  proof (cases "outcome a")
    case GotNothing
    obtain ds' k' e' where r: "retry_loop n (a + 1) outcome = (ds', k', e')" by (cases "retry_loop n (a + 1) outcome")
    have out: "ds = (if a > 0 then [int a * 1000] else []) @ ds'" "k = k' + 1" "e = e'"
      using Suc.prems GotNothing r by (auto simp: Let_def)
    note IH = Suc.IH [OF r]
    have "[a..<a + k] = a # [a + 1..<a + 1 + k']" using out(2) by (simp add: upt_conv_Cons)
    moreover have "outcome i = GotNothing" if "a \<le> i" "i + 1 < a + k" for i
      using IH that GotNothing out(2) by (cases "i = a") auto
    moreover have "outcome i = GotNothing" if "e = None" "a \<le> i" "i < a + Suc n" for i
      using IH that GotNothing out(3) by (cases "i = a") auto
    ultimately show ?thesis using IH out by (auto split: option.splits)
  qed (use Suc.prems in \<open>auto simp: Let_def\<close>)
qed auto

text \<open>Calls that fail in every attempt.\<close>

fun fail_calls :: "string \<Rightarrow> nat \<Rightarrow> (int \<times> int) list \<Rightarrow> refresh_breakers \<Rightarrow> bool list \<times> refresh_breakers" where
  "fail_calls p n [] m = ([], m)"
| "fail_calls p n ((now, endTime) # cs) m =
     (let (r, m1) = refreshWithRetry now endTime n p (\<lambda>_. GotNothing) m; (rs, m2) = fail_calls p n cs m1
      in (rr_refused r # rs, m2))"

lemma retry_loop_fails: "retry_loop n a (\<lambda>_. GotNothing) = (map (\<lambda>i. int i * 1000) (filter (\<lambda>i. i > 0) [a..<a + n]), n, None)"
proof -
  obtain ds k e where r: "retry_loop n a (\<lambda>_. GotNothing) = (ds, k, e)" by (cases "retry_loop n a (\<lambda>_. GotNothing)")
  show ?thesis using retry_loop_bounds [OF r] r by (cases e) auto
qed

definition breaker_at :: "string \<Rightarrow> nat \<Rightarrow> int \<Rightarrow> refresh_breakers \<Rightarrow> bool" where
  "breaker_at p k t m \<longleftrightarrow>
     (case jm_get m p of
        None \<Rightarrow> k = 0
      | Some s \<Rightarrow> rb_failures s = k \<and> 0 < k \<and> rb_blockedUntil s = (if k \<ge> REFRESH_BREAKER_THRESHOLD then t + REFRESH_BREAKER_COOLDOWN else 0))"

lemma fail_call_step:
  assumes "breaker_at p k t m" and "k < REFRESH_BREAKER_THRESHOLD"
  shows "\<not> rr_refused (fst (refreshWithRetry now e n p (\<lambda>_. GotNothing) m))
    \<and> breaker_at p (Suc k) e (snd (refreshWithRetry now e n p (\<lambda>_. GotNothing) m))"
  using assms
  by (cases "jm_get m p")
    (auto simp: refreshWithRetry_def breaker_at_def isProviderBlocked_def retry_loop_fails refresh_recordFailure_def Let_def)

lemma fail_calls_run:
  assumes "breaker_at p k t m" and "k + length cs \<le> REFRESH_BREAKER_THRESHOLD"
  shows "True \<notin> set (fst (fail_calls p n cs m)) \<and> breaker_at p (k + length cs) (last (t # map snd cs)) (snd (fail_calls p n cs m))"
  using assms
proof (induction cs arbitrary: m k t)
  case (Cons c cs)
  obtain now e where c: "c = (now, e)" by (cases c)
  have step: "\<not> rr_refused (fst (refreshWithRetry now e n p (\<lambda>_. GotNothing) m))"
    "breaker_at p (Suc k) e (snd (refreshWithRetry now e n p (\<lambda>_. GotNothing) m))"
    using fail_call_step [of p k t m now e n] Cons.prems by auto
  show ?case using Cons.IH [OF step(2)] Cons.prems(2) step(1) c by (auto simp: Let_def case_prod_unfold)
qed simp

section \<open>Properties\<close>

text \<open>C33. The refresh breaker is exact. From a clean slate, up to five consecutive calls that fail in all their attempts are carried out; the
  call after them is refused, without an attempt, exactly when they were five and it comes less than half an hour after
  the fifth ended. A call that is carried out makes at most the given number of attempts.\<close>

theorem refresh_breaker_is_exact:
  assumes "jm_get m p = None" and "length calls \<le> REFRESH_BREAKER_THRESHOLD" and "\<forall>c\<in>set calls. 0 \<le> snd c"
  shows "True \<notin> set (fst (fail_calls p n calls m))
    \<and> (let r = fst (refreshWithRetry now endTime maxRetries p outcome (snd (fail_calls p n calls m)))
       in (rr_refused r \<longleftrightarrow> length calls = REFRESH_BREAKER_THRESHOLD \<and> now < snd (last calls) + REFRESH_BREAKER_COOLDOWN)
        \<and> rr_attempts r \<le> maxRetries \<and> (rr_refused r \<longrightarrow> rr_attempts r = 0))"
proof -
  define m1 where "m1 = snd (fail_calls p n calls m)"
  have run: "True \<notin> set (fst (fail_calls p n calls m))" "breaker_at p (length calls) (last (0 # map snd calls)) m1"
    using fail_calls_run [of p 0 0 m calls n] assms(1,2) by (simp_all add: breaker_at_def m1_def)
  define r where "r = fst (refreshWithRetry now endTime maxRetries p outcome m1)"
  have refused: "rr_refused r \<longleftrightarrow> fst (isProviderBlocked now p m1)"
    by (auto simp: r_def refreshWithRetry_def split: prod.split option.split attempt_outcome.split bool.split)
  have "rr_attempts r \<le> maxRetries \<and> (rr_refused r \<longrightarrow> rr_attempts r = 0)"
    using retry_loop_bounds [of maxRetries 0 outcome]
    by (auto simp: r_def refreshWithRetry_def split: prod.split option.split attempt_outcome.split bool.split)
  moreover have "fst (isProviderBlocked now p m1) \<longleftrightarrow> length calls = REFRESH_BREAKER_THRESHOLD \<and> now < snd (last calls) + REFRESH_BREAKER_COOLDOWN"
  proof (cases "calls = []")
    case True
    then show ?thesis using run(2)
      by (auto simp: breaker_at_def isProviderBlocked_def REFRESH_BREAKER_THRESHOLD_def split: option.splits)
  next
    case False
    then have "last (0 # map snd calls) = snd (last calls)" "snd (last calls) \<ge> 0" using assms(3) by (simp_all add: last_map)
    then show ?thesis using run(2) False assms(2)
      by (cases "length calls = REFRESH_BREAKER_THRESHOLD")
        (auto simp: breaker_at_def isProviderBlocked_def REFRESH_BREAKER_COOLDOWN_def split: option.splits)
  qed
  ultimately show ?thesis using run(1) refused by (simp add: Let_def r_def m1_def)
qed

lemma refresh_breaker_is_exact_witness:
  "rr_refused (fst (refreshWithRetry 1799999 0 3 ''codex'' (\<lambda>_. GotTokens) (snd (fail_calls ''codex'' 3 (replicate 5 (0, 0)) []))))
   \<and> \<not> rr_refused (fst (refreshWithRetry 1800000 0 3 ''codex'' (\<lambda>_. GotTokens) (snd (fail_calls ''codex'' 3 (replicate 5 (0, 0)) []))))"
proof -
  have a: "length (replicate 5 (0::int, 0::int)) = REFRESH_BREAKER_THRESHOLD" "snd (last (replicate 5 (0::int, 0::int))) = 0"
    by (simp_all add: REFRESH_BREAKER_THRESHOLD_def)
  show ?thesis
    using refresh_breaker_is_exact [of "[]" "''codex''" "replicate 5 (0, 0)" 3 1799999 0 3 "\<lambda>_. GotTokens"]
      refresh_breaker_is_exact [of "[]" "''codex''" "replicate 5 (0, 0)" 3 1800000 0 3 "\<lambda>_. GotTokens"] a
    by (simp add: Let_def REFRESH_BREAKER_COOLDOWN_def del: fail_calls.simps replicate.simps)
qed

end
