(* ===== verification/ProviderCooldown.thy ===== *)
theory ProviderCooldown
  imports Omni_Prelude
begin

text \<open>
  The cooldowns of failed providers and connections across requests, \<open>open-sse/services/providerCooldownTracker.ts\<close>. The settings are
  what a call passes, each possibly missing; the defaults are those of \<open>src/lib/resilience/settings.ts\<close> without environment variables.
  The cleanup timer is an operation.
\<close>

section \<open>State\<close>

record cooldown_entry =
  ce_lastFailureAt :: int
  ce_failureCount :: nat
  ce_retentionMs :: rat

type_synonym cooldowns = "(string, cooldown_entry) jsmap"

record cooldown_settings =
  cs_minRetryCooldownMs :: "rat option"
  cs_maxRetryCooldownMs :: "rat option"

definition DEFAULT_ENTRY_RETENTION_MS :: rat where "DEFAULT_ENTRY_RETENTION_MS = 30 * 60 * 1000"
definition DEFAULT_MIN_RETRY_COOLDOWN_MS :: rat where "DEFAULT_MIN_RETRY_COOLDOWN_MS = 5000"
definition DEFAULT_MAX_RETRY_COOLDOWN_MS :: rat where "DEFAULT_MAX_RETRY_COOLDOWN_MS = 300000"

definition min_cooldown :: "cooldown_settings \<Rightarrow> rat" where
  "min_cooldown c = (case cs_minRetryCooldownMs c of Some x \<Rightarrow> x | None \<Rightarrow> DEFAULT_MIN_RETRY_COOLDOWN_MS)"

definition max_cooldown :: "cooldown_settings \<Rightarrow> rat" where
  "max_cooldown c = (case cs_maxRetryCooldownMs c of Some x \<Rightarrow> x | None \<Rightarrow> DEFAULT_MAX_RETRY_COOLDOWN_MS)"

definition getEntryRetentionMs :: "cooldown_settings \<Rightarrow> rat" where
  "getEntryRetentionMs c = max DEFAULT_ENTRY_RETENTION_MS (max_cooldown c)"

definition cleanupExpiredCooldownEntries :: "int \<Rightarrow> cooldowns \<Rightarrow> cooldowns" where
  "cleanupExpiredCooldownEntries now m = filter (\<lambda>(_, e). \<not> of_int (now - ce_lastFailureAt e) > ce_retentionMs e) m"

definition cooldownKey :: "string \<Rightarrow> string \<Rightarrow> string" where
  "cooldownKey provider connectionId = (if connectionId \<noteq> [] then provider @ '':'' @ connectionId else provider)"

definition known_provider :: "string \<Rightarrow> bool" where
  "known_provider p \<longleftrightarrow> p \<noteq> [] \<and> p \<noteq> ''unknown''"

section \<open>Operations\<close>

definition recordProviderCooldown :: "int \<Rightarrow> string \<Rightarrow> string \<Rightarrow> cooldown_settings \<Rightarrow> cooldowns \<Rightarrow> cooldowns" where
  "recordProviderCooldown now provider connectionId c m =
     (if \<not> known_provider provider then m
      else (let key = cooldownKey provider connectionId; retentionMs = getEntryRetentionMs c
            in case jm_get m key of
                 Some e \<Rightarrow>
                   jm_set key \<lparr>ce_lastFailureAt = now, ce_failureCount = ce_failureCount e + 1,
                               ce_retentionMs = max (ce_retentionMs e) retentionMs\<rparr> m
               | None \<Rightarrow> jm_set key \<lparr>ce_lastFailureAt = now, ce_failureCount = 1, ce_retentionMs = retentionMs\<rparr> m))"

definition scaledCooldownMs :: "cooldown_settings \<Rightarrow> nat \<Rightarrow> rat" where
  "scaledCooldownMs c n = min (min_cooldown c * 2 ^ min (n - 1) 10) (max_cooldown c)"

definition isProviderInCooldown :: "int \<Rightarrow> string \<Rightarrow> string \<Rightarrow> cooldown_settings \<Rightarrow> cooldowns \<Rightarrow> bool" where
  "isProviderInCooldown now provider connectionId c m =
     (if \<not> known_provider provider then False
      else (case jm_get m (cooldownKey provider connectionId) of
              None \<Rightarrow> False
            | Some e \<Rightarrow>
                if ce_failureCount e = 0 then False
                else of_int (now - ce_lastFailureAt e) < scaledCooldownMs c (ce_failureCount e)))"

definition getRemainingCooldownMs :: "int \<Rightarrow> string \<Rightarrow> string \<Rightarrow> cooldown_settings \<Rightarrow> cooldowns \<Rightarrow> rat" where
  "getRemainingCooldownMs now provider connectionId c m =
     (if \<not> known_provider provider then 0
      else (case jm_get m (cooldownKey provider connectionId) of
              None \<Rightarrow> 0
            | Some e \<Rightarrow>
                (let remaining = scaledCooldownMs c (ce_failureCount e) - of_int (now - ce_lastFailureAt e)
                 in if remaining > 0 then remaining else 0)))"

definition recordProviderSuccess :: "string \<Rightarrow> string \<Rightarrow> cooldowns \<Rightarrow> cooldowns" where
  "recordProviderSuccess provider connectionId m =
     (if \<not> known_provider provider then m
      else (case jm_get m (cooldownKey provider connectionId) of
              None \<Rightarrow> m
            | Some e \<Rightarrow> jm_set (cooldownKey provider connectionId) (e\<lparr>ce_failureCount := 0\<rparr>) m))"

definition getCooldownEntryCount :: "cooldowns \<Rightarrow> nat" where
  "getCooldownEntryCount m = length m"

section \<open>Histories\<close>

text \<open>What happens to the tracker: failures and successes of any provider, and cleanups.\<close>

datatype cooldown_event = CdFailed int string string | CdSucceeded string string | CdCleanup int

fun cd_step :: "cooldown_settings \<Rightarrow> cooldown_event \<Rightarrow> cooldowns \<Rightarrow> cooldowns" where
  "cd_step c (CdFailed now p i) m = recordProviderCooldown now p i c m"
| "cd_step c (CdSucceeded p i) m = recordProviderSuccess p i m"
| "cd_step c (CdCleanup now) m = cleanupExpiredCooldownEntries now m"

definition cd_run :: "cooldown_settings \<Rightarrow> cooldown_event list \<Rightarrow> cooldowns" where
  "cd_run c es = fold (cd_step c) es []"

definition cd_inv :: "cooldown_settings \<Rightarrow> cooldowns \<Rightarrow> bool" where
  "cd_inv c m \<longleftrightarrow> jm_ok m \<and> (\<forall>k e. jm_get m k = Some e \<longrightarrow> max_cooldown c \<le> ce_retentionMs e)"

lemma cd_inv_step: "cd_inv c m \<Longrightarrow> cd_inv c (cd_step c e m)"
  by (cases e) (auto simp: cd_inv_def recordProviderCooldown_def recordProviderSuccess_def cleanupExpiredCooldownEntries_def
      getEntryRetentionMs_def Let_def jm_get_filter jm_ok_filter max.coboundedI2 split: option.splits if_splits)

lemma cd_inv_run: "cd_inv c (cd_run c es)"
proof -
  have "cd_inv c (fold (cd_step c) es m)" if "cd_inv c m" for m
    using that by (induction es arbitrary: m) (auto intro: cd_inv_step)
  moreover have "cd_inv c []" by (simp add: cd_inv_def)
  ultimately show ?thesis by (simp add: cd_run_def)
qed

section \<open>Properties\<close>

text \<open>Cleaning up never shortens a cooldown: however failures, successes and cleanups went before, a cleanup at some time changes the
  answer whether a provider is cooling down at no time from then on. What is removed had outlived every cooldown.\<close>

theorem cleanup_never_shortens_a_cooldown:
  assumes "t \<le> now"
  shows "isProviderInCooldown now p i c (cleanupExpiredCooldownEntries t (cd_run c es)) = isProviderInCooldown now p i c (cd_run c es)"
proof -
  have inv: "cd_inv c (cd_run c es)" by (rule cd_inv_run)
  have "\<not> of_int (now - ce_lastFailureAt e) < scaledCooldownMs c (ce_failureCount e)"
    if e: "jm_get (cd_run c es) k = Some e" and old: "of_int (t - ce_lastFailureAt e) > ce_retentionMs e" for k e
  proof -
    have "scaledCooldownMs c (ce_failureCount e) \<le> max_cooldown c" by (simp add: scaledCooldownMs_def)
    also have "\<dots> \<le> ce_retentionMs e" using inv e by (auto simp: cd_inv_def)
    also have "\<dots> < of_int (t - ce_lastFailureAt e)" by (rule old)
    also have "\<dots> \<le> of_int (now - ce_lastFailureAt e)" using assms by simp
    finally show ?thesis by simp
  qed
  then show ?thesis using inv
    by (auto simp: isProviderInCooldown_def cleanupExpiredCooldownEntries_def jm_get_filter cd_inv_def split: option.split)
qed

lemma cleanup_never_shortens_a_cooldown_witness:
  "let c = \<lparr>cs_minRetryCooldownMs = None, cs_maxRetryCooldownMs = None\<rparr>; m = cd_run c [CdFailed 0 ''p'' [], CdFailed 10 ''p'' []]
   in isProviderInCooldown 9000 ''p'' [] c (cleanupExpiredCooldownEntries 9000 m)"
proof -
  let ?c = "\<lparr>cs_minRetryCooldownMs = None, cs_maxRetryCooldownMs = None\<rparr>"
  have "isProviderInCooldown 9000 ''p'' [] ?c (cd_run ?c [CdFailed 0 ''p'' [], CdFailed 10 ''p'' []])" by code_simp
  then show ?thesis using cleanup_never_shortens_a_cooldown [of 9000 9000 "''p''" "[]" ?c "[CdFailed 0 ''p'' [], CdFailed 10 ''p'' []]"]
    by (simp add: Let_def)
qed

text \<open>The cooldown doubles with every failure in a row, up to ten times and to its maximum.\<close>

lemma failures_double_the_cooldown:
  assumes "known_provider p" and "ts \<noteq> []"
  shows "isProviderInCooldown now p i c (cd_run c (map (\<lambda>t. CdFailed t p i) ts))
    \<longleftrightarrow> of_int (now - last ts) < min (min_cooldown c * 2 ^ min (length ts - 1) 10) (max_cooldown c)"
proof -
  have "\<exists>r. jm_get (cd_run c (map (\<lambda>t. CdFailed t p i) ts)) (cooldownKey p i) =
      Some \<lparr>ce_lastFailureAt = last ts, ce_failureCount = length ts, ce_retentionMs = r\<rparr>"
    using assms(2)
  proof (induction ts rule: rev_nonempty_induct)
    case (single t)
    then show ?case using assms(1) by (simp add: cd_run_def recordProviderCooldown_def Let_def)
  next
    case (snoc t ts)
    then show ?case using assms(1) by (auto simp: cd_run_def recordProviderCooldown_def Let_def)
  qed
  then show ?thesis using assms by (auto simp: isProviderInCooldown_def scaledCooldownMs_def)
qed

text \<open>After a success the provider is available, but the remaining time still counts down from the failure.\<close>

lemma remaining_after_success:
  "let c = \<lparr>cs_minRetryCooldownMs = None, cs_maxRetryCooldownMs = None\<rparr>; m = cd_run c [CdFailed 0 ''p'' [], CdSucceeded ''p'' []]
   in \<not> isProviderInCooldown 1000 ''p'' [] c m \<and> getRemainingCooldownMs 1000 ''p'' [] c m = 4000"
  by code_simp

end
