(* ===== verification/StreamState.thy ===== *)
theory StreamState
  imports JsString
begin

text \<open>
  The life of a stream, \<open>src/sse/services/streamState.ts\<close>: the tracker with its table of transitions, and the registry of active and
  archived streams. The registry holds references, so trackers live in a list and the map holds their numbers: a second tracker under
  the same request id replaces the first in the map while both go on.
\<close>

section \<open>Trackers\<close>

datatype stream_state = SInitialized | SConnecting | SStreaming | SCompleted | SFailed | SCancelled

fun VALID_TRANSITIONS :: "stream_state \<Rightarrow> stream_state list" where
  "VALID_TRANSITIONS SInitialized = [SConnecting, SCancelled]"
| "VALID_TRANSITIONS SConnecting = [SStreaming, SFailed, SCancelled]"
| "VALID_TRANSITIONS SStreaming = [SCompleted, SFailed, SCancelled]"
| "VALID_TRANSITIONS SCompleted = []"
| "VALID_TRANSITIONS SFailed = []"
| "VALID_TRANSITIONS SCancelled = []"

text \<open>What a logged property can hold; the metadata of a transition are spread over the entry, whatever they are;
  \<open>XOther\<close> stands for the values of other kinds.\<close>

datatype sx_value = XState stream_state | XTime int | XText string | XOther nat

type_synonym transition_meta = "(string, sx_value) jsmap"

record stream_transition =
  sx_from :: sx_value
  sx_to :: sx_value
  sx_at :: sx_value
  sx_elapsed :: sx_value
  sx_rest :: transition_meta

definition spread_one :: "string \<times> sx_value \<Rightarrow> stream_transition \<Rightarrow> stream_transition" where
  "spread_one p x =
     (if fst p = ''from'' then x\<lparr>sx_from := snd p\<rparr>
      else if fst p = ''to'' then x\<lparr>sx_to := snd p\<rparr>
      else if fst p = ''at'' then x\<lparr>sx_at := snd p\<rparr>
      else if fst p = ''elapsed'' then x\<lparr>sx_elapsed := snd p\<rparr>
      else x\<lparr>sx_rest := jm_set (fst p) (snd p) (sx_rest x)\<rparr>)"

text \<open>\<open>{ from, to, at, elapsed, ...transitionMeta }\<close>\<close>

definition logged_transition :: "stream_state \<Rightarrow> stream_state \<Rightarrow> int \<Rightarrow> int \<Rightarrow> transition_meta \<Rightarrow> stream_transition" where
  "logged_transition a b now startedAt meta =
     fold spread_one meta
       \<lparr>sx_from = XState a, sx_to = XState b, sx_at = XTime now, sx_elapsed = XTime (now - startedAt), sx_rest = []\<rparr>"

record stream_tracker =
  sk_requestId :: string
  sk_state :: stream_state
  sk_model :: "string option"
  sk_provider :: "string option"
  sk_transitions :: "stream_transition list"
  sk_startedAt :: int
  sk_completedAt :: "int option"
  sk_firstChunkAt :: "int option"
  sk_chunkCount :: nat
  sk_totalBytes :: int
  sk_error :: "string option"

definition new_StreamTracker :: "int \<Rightarrow> string \<Rightarrow> string option \<Rightarrow> string option \<Rightarrow> stream_tracker" where
  "new_StreamTracker now requestId model provider =
     \<lparr>sk_requestId = requestId, sk_state = SInitialized, sk_model = model, sk_provider = provider, sk_transitions = [],
      sk_startedAt = now, sk_completedAt = None, sk_firstChunkAt = None, sk_chunkCount = 0, sk_totalBytes = 0, sk_error = None\<rparr>"

definition terminal_state :: "stream_state \<Rightarrow> bool" where
  "terminal_state st \<longleftrightarrow> st = SCompleted \<or> st = SFailed \<or> st = SCancelled"

definition stream_transition_to :: "int \<Rightarrow> stream_state \<Rightarrow> transition_meta \<Rightarrow> stream_tracker \<Rightarrow> bool \<times> stream_tracker" where
  "stream_transition_to now newState meta t =
     (if newState \<notin> set (VALID_TRANSITIONS (sk_state t)) then (False, t)
      else (let t1 = t\<lparr>sk_transitions := sk_transitions t @
                         [logged_transition (sk_state t) newState now (sk_startedAt t) meta],
                       sk_state := newState\<rparr>;
                t2 = (if newState = SStreaming \<and> \<not> truthy (sk_firstChunkAt t1) then t1\<lparr>sk_firstChunkAt := Some now\<rparr> else t1)
            in (True, if terminal_state newState then t2\<lparr>sk_completedAt := Some now\<rparr> else t2)))"

definition recordChunk :: "int \<Rightarrow> stream_tracker \<Rightarrow> stream_tracker" where
  "recordChunk bytes t = t\<lparr>sk_chunkCount := sk_chunkCount t + 1, sk_totalBytes := sk_totalBytes t + bytes\<rparr>"

text \<open>The error is a text, or an error object with its message.\<close>

definition stream_fail :: "int \<Rightarrow> string \<Rightarrow> stream_tracker \<Rightarrow> stream_tracker" where
  "stream_fail now err t = snd (stream_transition_to now SFailed [(''error'', XText err)] (t\<lparr>sk_error := Some err\<rparr>))"

definition stream_isTerminal :: "stream_tracker \<Rightarrow> bool" where
  "stream_isTerminal t = terminal_state (sk_state t)"

record stream_summary =
  sy_requestId :: string
  sy_state :: stream_state
  sy_model :: "string option"
  sy_provider :: "string option"
  sy_duration :: int
  sy_ttfb :: "int option"
  sy_chunkCount :: nat
  sy_totalBytes :: int
  sy_transitions :: nat
  sy_error :: "string option"

definition stream_getSummary :: "int \<Rightarrow> stream_tracker \<Rightarrow> stream_summary" where
  "stream_getSummary now t =
     (let endTime = (if truthy (sk_completedAt t) then the (sk_completedAt t) else now)
      in \<lparr>sy_requestId = sk_requestId t, sy_state = sk_state t, sy_model = sk_model t, sy_provider = sk_provider t,
          sy_duration = endTime - sk_startedAt t,
          sy_ttfb = (if truthy (sk_firstChunkAt t) then Some (the (sk_firstChunkAt t) - sk_startedAt t) else None),
          sy_chunkCount = sk_chunkCount t, sy_totalBytes = sk_totalBytes t, sy_transitions = length (sk_transitions t),
          sy_error = sk_error t\<rparr>)"

section \<open>The registry\<close>

text \<open>The history limit read from the environment; text that is no number leaves it without a value.\<close>

definition MAX_COMPLETED_HISTORY :: "string option \<Rightarrow> int option" where
  "MAX_COMPLETED_HISTORY env = parseInt10 (case env of None \<Rightarrow> ''50'' | Some s \<Rightarrow> if s = [] then ''50'' else s)"

record stream_registry =
  sg_trackers :: "stream_tracker list"
  sg_activeStreams :: "(string, nat) jsmap"
  sg_completedStreams :: "stream_summary list"

definition new_stream_registry :: stream_registry where
  "new_stream_registry = \<lparr>sg_trackers = [], sg_activeStreams = [], sg_completedStreams = []\<rparr>"

definition createStreamTracker ::
  "int \<Rightarrow> string \<Rightarrow> string option \<Rightarrow> string option \<Rightarrow> stream_registry \<Rightarrow> nat \<times> stream_registry" where
  "createStreamTracker now requestId model provider g =
     (let n = length (sg_trackers g)
      in (n, g\<lparr>sg_trackers := sg_trackers g @ [new_StreamTracker now requestId model provider],
               sg_activeStreams := jm_set requestId n (sg_activeStreams g)\<rparr>))"

text \<open>The loop that bounds the history. A comparison with no number is false; shifting an empty array leaves it empty.\<close>

partial_function (option) trim_history :: "int option \<Rightarrow> stream_summary list \<Rightarrow> stream_summary list option" where
  "trim_history limit xs =
     (case limit of
        None \<Rightarrow> Some xs
      | Some m \<Rightarrow> if int (length xs) > m then trim_history limit (drop 1 xs) else Some xs)"

definition archiveStream :: "int option \<Rightarrow> int \<Rightarrow> string \<Rightarrow> stream_registry \<Rightarrow> stream_registry option" where
  "archiveStream limit now requestId g =
     (case jm_get (sg_activeStreams g) requestId of
        None \<Rightarrow> Some g
      | Some n \<Rightarrow>
          map_option (\<lambda>history. g\<lparr>sg_activeStreams := jm_del requestId (sg_activeStreams g), sg_completedStreams := history\<rparr>)
            (trim_history limit (sg_completedStreams g @ [stream_getSummary now (sg_trackers g ! n)])))"

definition getActiveStreams :: "int \<Rightarrow> stream_registry \<Rightarrow> stream_summary list" where
  "getActiveStreams now g = map (\<lambda>(_, n). stream_getSummary now (sg_trackers g ! n)) (sg_activeStreams g)"

section \<open>The life of a tracker\<close>

datatype tracker_op = Transit stream_state transition_meta | Chunk int | Fail string

fun tracker_step :: "stream_tracker \<Rightarrow> int \<times> tracker_op \<Rightarrow> stream_tracker" where
  "tracker_step t (now, Transit st meta) = snd (stream_transition_to now st meta t)"
| "tracker_step t (now, Chunk n) = recordChunk n t"
| "tracker_step t (now, Fail err) = stream_fail now err t"

definition tracker_run :: "stream_tracker \<Rightarrow> (int \<times> tracker_op) list \<Rightarrow> stream_tracker" where
  "tracker_run t ops = foldl tracker_step t ops"

text \<open>Metadata that leave the step itself alone.\<close>

definition logged_keys :: "string list" where
  "logged_keys = [''from'', ''to'', ''at'', ''elapsed'']"

fun plain_op :: "int \<times> tracker_op \<Rightarrow> bool" where
  "plain_op (now, Transit st meta) \<longleftrightarrow> list_all (\<lambda>p. fst p \<notin> set logged_keys) meta"
| "plain_op _ = True"

lemma logged_transition_plain:
  assumes "list_all (\<lambda>p. fst p \<notin> set logged_keys) meta"
  shows "sx_from (logged_transition a b now t0 meta) = XState a" "sx_to (logged_transition a b now t0 meta) = XState b"
    "sx_at (logged_transition a b now t0 meta) = XTime now" "sx_elapsed (logged_transition a b now t0 meta) = XTime (now - t0)"
proof -
  have "sx_from (fold spread_one meta x) = sx_from x \<and> sx_to (fold spread_one meta x) = sx_to x \<and> sx_at (fold spread_one meta x) = sx_at x
      \<and> sx_elapsed (fold spread_one meta x) = sx_elapsed x" for x
    using assms by (induction meta arbitrary: x) (auto simp: spread_one_def logged_keys_def)
  then show "sx_from (logged_transition a b now t0 meta) = XState a" "sx_to (logged_transition a b now t0 meta) = XState b"
    "sx_at (logged_transition a b now t0 meta) = XTime now" "sx_elapsed (logged_transition a b now t0 meta) = XTime (now - t0)"
    by (simp_all add: logged_transition_def)
qed

text \<open>A path through the table of transitions, each step with the time since the start.\<close>

fun stream_path :: "int \<Rightarrow> stream_state \<Rightarrow> stream_transition list \<Rightarrow> stream_state \<Rightarrow> bool" where
  "stream_path t0 a [] b \<longleftrightarrow> a = b"
| "stream_path t0 a (x # xs) b \<longleftrightarrow>
     sx_from x = XState a
     \<and> (case (sx_to x, sx_at x) of
          (XState c, XTime u) \<Rightarrow> c \<in> set (VALID_TRANSITIONS a) \<and> sx_elapsed x = XTime (u - t0) \<and> stream_path t0 c xs b
        | _ \<Rightarrow> False)"

lemma stream_path_snoc:
  "stream_path t0 a xs b \<Longrightarrow> c \<in> set (VALID_TRANSITIONS b) \<Longrightarrow> sx_from x = XState b \<Longrightarrow> sx_to x = XState c \<Longrightarrow> sx_at x = XTime u
   \<Longrightarrow> sx_elapsed x = XTime (u - t0) \<Longrightarrow> stream_path t0 a (xs @ [x]) c"
  by (induction xs arbitrary: a) (auto split: sx_value.splits)

text \<open>How far a state is from the start.\<close>

fun stream_rank :: "stream_state \<Rightarrow> nat" where
  "stream_rank SInitialized = 0"
| "stream_rank SConnecting = 1"
| "stream_rank SStreaming = 2"
| "stream_rank _ = 3"

lemma path_rank: "stream_path t0 a xs b \<Longrightarrow> stream_rank a + length xs \<le> stream_rank b"
proof (induction xs arbitrary: a)
  case (Cons x xs)
  then obtain c where "stream_rank c + length xs \<le> stream_rank b" "c \<in> set (VALID_TRANSITIONS a)"
    by (auto split: sx_value.splits)
  moreover from this(2) have "stream_rank a < stream_rank c" by (cases a) auto
  ultimately show ?case by simp
qed simp

definition well_tracked :: "stream_tracker \<Rightarrow> bool" where
  "well_tracked t \<longleftrightarrow> stream_path (sk_startedAt t) SInitialized (sk_transitions t) (sk_state t)
     \<and> (if terminal_state (sk_state t)
        then sk_transitions t \<noteq> [] \<and> (\<exists>u. sk_completedAt t = Some u \<and> sx_at (last (sk_transitions t)) = XTime u)
        else sk_completedAt t = None)
     \<and> (sk_firstChunkAt t \<noteq> None \<longleftrightarrow> XState SStreaming \<in> sx_to ` set (sk_transitions t))"

lemma well_tracked_new: "well_tracked (new_StreamTracker now r m p)"
  by (simp add: well_tracked_def new_StreamTracker_def terminal_state_def)

lemma well_tracked_transition:
  assumes "well_tracked t" and "list_all (\<lambda>p. fst p \<notin> set logged_keys) meta"
  shows "well_tracked (snd (stream_transition_to now st meta t))"
proof (cases "st \<in> set (VALID_TRANSITIONS (sk_state t))")
  case False
  then show ?thesis using assms(1) by (simp add: stream_transition_to_def)
next
  case True
  note x = logged_transition_plain [OF assms(2)]
  have live: "\<not> terminal_state (sk_state t)" using True by (cases "sk_state t") (simp_all add: terminal_state_def)
  have "stream_path (sk_startedAt t) SInitialized
      (sk_transitions t @ [logged_transition (sk_state t) st now (sk_startedAt t) meta]) st"
    by (rule stream_path_snoc) (use assms(1) True x in \<open>simp_all add: well_tracked_def\<close>)
  then show ?thesis using True live assms(1) x by (auto simp: well_tracked_def stream_transition_to_def Let_def)
qed

lemma well_tracked_step:
  assumes "well_tracked t" and "plain_op x"
  shows "well_tracked (tracker_step t x)"
proof -
  obtain now e where x: "x = (now, e)" by (cases x)
  have same: "well_tracked (t\<lparr>sk_error := er\<rparr>)" "well_tracked (recordChunk n t)" for er n
    using assms(1) by (simp_all add: well_tracked_def recordChunk_def)
  show ?thesis using x assms same well_tracked_transition
    by (cases e) (auto simp: stream_fail_def logged_keys_def)
qed

lemma well_tracked_run: "well_tracked t \<Longrightarrow> list_all plain_op ops \<Longrightarrow> well_tracked (tracker_run t ops)"
  unfolding tracker_run_def by (induction ops arbitrary: t) (simp_all add: well_tracked_step)

lemma started_run: "sk_startedAt (tracker_run t ops) = sk_startedAt t"
proof -
  have "sk_startedAt (tracker_step t x) = sk_startedAt t" for t x
    by (cases x; cases "snd x") (auto simp: stream_fail_def stream_transition_to_def recordChunk_def Let_def)
  then show ?thesis unfolding tracker_run_def by (induction ops arbitrary: t) simp_all
qed

section \<open>Properties\<close>

text \<open>C22. A tracker is well typed throughout its life: whatever transitions are asked for, with metadata that do not rename the
  step (the keys \<open>from\<close>, \<open>to\<close>, \<open>at\<close> and \<open>elapsed\<close>; the calls of the repository pass none of them), whatever chunks are counted and
  failures reported, its log is a path of the transition table from the initial to the present state, with at most three steps, each
  with the time elapsed since the start; the completion time is set exactly in the terminal states, to the time of the last
  step, and the first-chunk time exactly once the stream has been streaming.\<close>

theorem stream_lifecycle_is_typed:
  assumes "list_all plain_op ops"
  shows "let t = tracker_run (new_StreamTracker now requestId model provider) ops in
    stream_path now SInitialized (sk_transitions t) (sk_state t) \<and> length (sk_transitions t) \<le> 3
    \<and> (if terminal_state (sk_state t)
       then sk_transitions t \<noteq> [] \<and> (\<exists>u. sk_completedAt t = Some u \<and> sx_at (last (sk_transitions t)) = XTime u)
       else sk_completedAt t = None)
    \<and> (sk_firstChunkAt t \<noteq> None \<longleftrightarrow> XState SStreaming \<in> sx_to ` set (sk_transitions t))"
proof -
  define t where "t = tracker_run (new_StreamTracker now requestId model provider) ops"
  have "well_tracked t" unfolding t_def by (rule well_tracked_run [OF well_tracked_new assms])
  moreover have "sk_startedAt t = now" by (simp add: t_def started_run new_StreamTracker_def)
  moreover from calculation have "length (sk_transitions t) \<le> 3"
    using path_rank [of now SInitialized "sk_transitions t" "sk_state t"] by (cases "sk_state t") (auto simp: well_tracked_def)
  ultimately show ?thesis by (simp add: Let_def t_def [symmetric] well_tracked_def)
qed

definition ex_stream_ops :: "(int \<times> tracker_op) list" where
  "ex_stream_ops = [(1, Transit SStreaming []), (2, Transit SConnecting [(''note'', XText ''x'')]), (5, Transit SStreaming []), (6, Chunk 10),
     (9, Fail ''x'')]"

lemma stream_lifecycle_is_typed_witness:
  "let t = tracker_run (new_StreamTracker 0 ''r'' None None) ex_stream_ops
   in sk_state t = SFailed \<and> stream_path 0 SInitialized (sk_transitions t) (sk_state t)"
proof -
  have "list_all plain_op ex_stream_ops" by (simp add: ex_stream_ops_def logged_keys_def)
  moreover have "sk_state (tracker_run (new_StreamTracker 0 ''r'' None None) ex_stream_ops) = SFailed" by code_simp
  ultimately show ?thesis using stream_lifecycle_is_typed [of ex_stream_ops 0 "''r''" None None] by (simp add: Let_def)
qed

text \<open>Metadata that name the step replace it in the log: the tracker is streaming, its log says it was cancelled.\<close>

lemma metadata_can_rename_a_step:
  "(let t = tracker_run (new_StreamTracker 0 ''r'' None None)
       [(1, Transit SConnecting []), (2, Transit SStreaming [(''to'', XState SCancelled), (''at'', XTime 0)])]
    in (sk_state t, map (\<lambda>x. (sx_to x, sx_at x)) (sk_transitions t)))
   = (SStreaming, [(XState SConnecting, XTime 1), (XState SCancelled, XTime 0)])"
  by code_simp

text \<open>A failure reported after the end leaves the state and overwrites the error.\<close>

lemma late_failure_overwrites_error:
  assumes "terminal_state (sk_state t)"
  shows "stream_fail now err t = t\<lparr>sk_error := Some err\<rparr>"
  using assms by (auto simp: stream_fail_def stream_transition_to_def terminal_state_def)

lemma trim_history_returns:
  assumes "0 \<le> m"
  shows "trim_history (Some m) xs = Some (drop (length xs - nat m) xs)"
  using assms
proof (induction xs)
  case Nil
  then show ?case by (subst trim_history.simps) simp
next
  case (Cons x xs)
  show ?case
  proof (cases "int (length (x # xs)) > m")
    case True
    then have "nat m \<le> length xs" using assms by simp
    then have "Suc (length xs) - nat m = Suc (length xs - nat m)" by (rule Suc_diff_le)
    then show ?thesis using True Cons by (subst trim_history.simps) simp
  next
    case False
    then have "Suc (length xs) - nat m = 0" by simp
    then show ?thesis using False by (subst trim_history.simps) simp
  qed
qed

text \<open>With a negative limit the loop shifts an empty array for ever.\<close>

lemma trim_history_negative:
  assumes "m < 0"
  shows "trim_history (Some m) xs = None"
proof -
  have "trim_history l ys = Some r \<Longrightarrow> l \<noteq> Some m" for l ys r
    by (erule trim_history.raw_induct [rotated]) (use assms in \<open>auto split: option.splits if_splits\<close>)
  then show ?thesis by (cases "trim_history (Some m) xs") auto
qed

text \<open>Archiving returns, with at most the configured number of summaries kept (the newest ones), exactly when the limit is no negative
  number; with a negative limit the loop that bounds the history never ends, and with a limit that is no number at all
  nothing is ever dropped.\<close>

theorem archive_bounds_the_history:
  assumes "jm_get (sg_activeStreams g) requestId = Some n"
  shows "case limit of
      None \<Rightarrow> \<exists>g'. archiveStream limit now requestId g = Some g' \<and> length (sg_completedStreams g') = Suc (length (sg_completedStreams g))
    | Some m \<Rightarrow>
        if m < 0 then archiveStream limit now requestId g = None
        else \<exists>g'. archiveStream limit now requestId g = Some g' \<and> int (length (sg_completedStreams g')) \<le> m
          \<and> suffix (sg_completedStreams g') (sg_completedStreams g @ [stream_getSummary now (sg_trackers g ! n)])
          \<and> jm_get (sg_activeStreams g') requestId = None"
proof (cases limit)
  case None
  then show ?thesis using assms by (simp add: archiveStream_def trim_history.simps [of None])
next
  case (Some m)
  then show ?thesis using assms
    by (cases "m < 0") (auto simp: archiveStream_def trim_history_negative trim_history_returns suffix_drop)
qed

lemma archive_bounds_the_history_witness:
  "archiveStream (MAX_COMPLETED_HISTORY (Some ''-1'')) 9 ''r'' (snd (createStreamTracker 0 ''r'' None None new_stream_registry)) = None
   \<and> (\<exists>g'. archiveStream (MAX_COMPLETED_HISTORY None) 9 ''r'' (snd (createStreamTracker 0 ''r'' None None new_stream_registry)) = Some g')"
proof -
  let ?g = "snd (createStreamTracker 0 ''r'' None None new_stream_registry)"
  have g: "jm_get (sg_activeStreams ?g) ''r'' = Some 0" by code_simp
  have m: "MAX_COMPLETED_HISTORY (Some ''-1'') = Some (-1)" "MAX_COMPLETED_HISTORY None = Some 50" by code_simp+
  show ?thesis using archive_bounds_the_history [OF g, of "Some (-1)" 9] archive_bounds_the_history [OF g, of "Some 50" 9]
    by (simp add: m) blast
qed

end
