(* ===== verification/ResourcePressure.thy ===== *)
theory ResourcePressure
  imports Omni_Prelude
begin

text \<open>
  The resource-pressure policy, \<open>open-sse/utils/resourcePressurePolicy.ts\<close>: the thresholds and their validation, the classification of
  one sample, and the tracker that debounces samples into a severity; and the runtime around it, \<open>open-sse/utils/resourcePressure.ts\<close>,
  with its cache of the last sample and the immediate heap check. Byte counts and pressure figures are what the sampler delivers,
  finite or null; ratios are exact.
\<close>

section \<open>Signals and levels\<close>

datatype pressure_severity = SevNormal | SevHigh | SevCritical

datatype pressure_reason = ReasonNone | V8HeapRatio | V8HeapAbsolute | CgroupRatio | CgroupHigh | PsiSome | PsiFull | OomEvent

record oom_counters =
  oc_oom :: "int option"
  oc_oomKill :: "int option"

record resource_signals =
  sig_observedAtMs :: int
  sig_heapUsedBytes :: rat
  sig_heapLimitBytes :: rat
  sig_currentBytes :: "rat option"
  sig_maxBytes :: "rat option"
  sig_highBytes :: "rat option"
  sig_events :: "oom_counters option"
  sig_psiSome :: "rat option"
  sig_psiFull :: "rat option"

record pressure_thresholds =
  th_highRatio :: rat
  th_criticalRatio :: rat
  th_recoveryRatio :: rat
  th_highPsiAvg10 :: rat
  th_criticalPsiAvg10 :: rat
  th_recoveryPsiAvg10 :: rat
  th_sustainedHigh :: nat
  th_sustainedCritical :: nat
  th_sustainedRecovery :: nat
  th_heapAbsoluteMb :: "rat option"

type_synonym raw_level = "pressure_severity \<times> pressure_reason"

section \<open>Thresholds\<close>

datatype threshold_error = NotFiniteBetween string rat rat | NotIntegerBetween string nat nat | BadOrder string | BadHeapThreshold

definition MAX_SUSTAINED_SAMPLES :: nat where "MAX_SUSTAINED_SAMPLES = 10000"

text \<open>The thresholds as given, each possibly absent.\<close>

record raw_thresholds =
  rw_highRatio :: "jsval option"
  rw_criticalRatio :: "jsval option"
  rw_recoveryRatio :: "jsval option"
  rw_highPsiAvg10 :: "jsval option"
  rw_criticalPsiAvg10 :: "jsval option"
  rw_recoveryPsiAvg10 :: "jsval option"
  rw_sustainedHigh :: "jsval option"
  rw_sustainedCritical :: "jsval option"
  rw_sustainedRecovery :: "jsval option"
  rw_heapAbsoluteMb :: "jsval option"

definition DEFAULT_RESOURCE_PRESSURE_THRESHOLDS :: pressure_thresholds where
  "DEFAULT_RESOURCE_PRESSURE_THRESHOLDS =
     \<lparr>th_highRatio = 85 / 100, th_criticalRatio = 92 / 100, th_recoveryRatio = 75 / 100,
      th_highPsiAvg10 = 20, th_criticalPsiAvg10 = 40, th_recoveryPsiAvg10 = 10,
      th_sustainedHigh = 2, th_sustainedCritical = 2, th_sustainedRecovery = 3, th_heapAbsoluteMb = None\<rparr>"

definition requireFiniteRange :: "string \<Rightarrow> jsval \<Rightarrow> rat \<Rightarrow> rat \<Rightarrow> threshold_error + rat" where
  "requireFiniteRange name v mn mx =
     (case v of Num r \<Rightarrow> if r < mn \<or> r > mx then Inl (NotFiniteBetween name mn mx) else Inr r
      | _ \<Rightarrow> Inl (NotFiniteBetween name mn mx))"

definition requireSampleCount :: "string \<Rightarrow> jsval \<Rightarrow> threshold_error + nat" where
  "requireSampleCount name v =
     (case v of
        Num r \<Rightarrow> if of_int \<lfloor>r\<rfloor> = r \<and> 1 \<le> r \<and> r \<le> of_nat MAX_SUSTAINED_SAMPLES then Inr (nat \<lfloor>r\<rfloor>)
                 else Inl (NotIntegerBetween name 1 MAX_SUSTAINED_SAMPLES)
      | _ \<Rightarrow> Inl (NotIntegerBetween name 1 MAX_SUSTAINED_SAMPLES))"

definition given_or :: "jsval option \<Rightarrow> rat \<Rightarrow> jsval" where
  "given_or v d = (case v of Some x \<Rightarrow> x | None \<Rightarrow> Num d)"

definition resolveResourcePressureThresholds :: "raw_thresholds \<Rightarrow> threshold_error + pressure_thresholds" where
  "resolveResourcePressureThresholds p =
     (let d = DEFAULT_RESOURCE_PRESSURE_THRESHOLDS in
     bindE (requireFiniteRange ''recoveryRatio'' (given_or (rw_recoveryRatio p) (th_recoveryRatio d)) 0 1) (\<lambda>rr.
     bindE (requireFiniteRange ''highRatio'' (given_or (rw_highRatio p) (th_highRatio d)) 0 1) (\<lambda>hr.
     bindE (requireFiniteRange ''criticalRatio'' (given_or (rw_criticalRatio p) (th_criticalRatio d)) 0 1) (\<lambda>cr.
     if \<not> (rr < hr \<and> hr < cr) then Inl (BadOrder ''ratio'') else
     bindE (requireFiniteRange ''recoveryPsiAvg10'' (given_or (rw_recoveryPsiAvg10 p) (th_recoveryPsiAvg10 d)) 0 100) (\<lambda>rp.
     bindE (requireFiniteRange ''highPsiAvg10'' (given_or (rw_highPsiAvg10 p) (th_highPsiAvg10 d)) 0 100) (\<lambda>hp.
     bindE (requireFiniteRange ''criticalPsiAvg10'' (given_or (rw_criticalPsiAvg10 p) (th_criticalPsiAvg10 d)) 0 100) (\<lambda>cp.
     if \<not> (rp < hp \<and> hp < cp) then Inl (BadOrder ''PSI'') else
     bindE (requireSampleCount ''sustainedSamplesHigh'' (given_or (rw_sustainedHigh p) (of_nat (th_sustainedHigh d)))) (\<lambda>nh.
     bindE (requireSampleCount ''sustainedSamplesCritical'' (given_or (rw_sustainedCritical p) (of_nat (th_sustainedCritical d)))) (\<lambda>nc.
     bindE (requireSampleCount ''sustainedSamplesRecovery'' (given_or (rw_sustainedRecovery p) (of_nat (th_sustainedRecovery d)))) (\<lambda>nr.
     bindE (case rw_heapAbsoluteMb p of
              None \<Rightarrow> Inr (th_heapAbsoluteMb d)
            | Some Null \<Rightarrow> Inr None
            | Some (Num h) \<Rightarrow> if h \<le> 0 then Inl BadHeapThreshold else Inr (Some h)
            | Some _ \<Rightarrow> Inl BadHeapThreshold) (\<lambda>ha.
     Inr \<lparr>th_highRatio = hr, th_criticalRatio = cr, th_recoveryRatio = rr, th_highPsiAvg10 = hp, th_criticalPsiAvg10 = cp,
          th_recoveryPsiAvg10 = rp, th_sustainedHigh = nh, th_sustainedCritical = nc, th_sustainedRecovery = nr,
          th_heapAbsoluteMb = ha\<rparr>)))))))))))"

section \<open>One sample\<close>

fun severityRank :: "pressure_severity \<Rightarrow> nat" where
  "severityRank SevCritical = 2"
| "severityRank SevHigh = 1"
| "severityRank SevNormal = 0"

definition maxLevel :: "raw_level \<Rightarrow> raw_level option \<Rightarrow> raw_level" where
  "maxLevel current candidate =
     (case candidate of
        None \<Rightarrow> current
      | Some c \<Rightarrow> if severityRank (fst c) \<le> severityRank (fst current) then current else c)"

definition ratioLevel :: "rat option \<Rightarrow> rat option \<Rightarrow> pressure_thresholds \<Rightarrow> pressure_reason \<Rightarrow> raw_level option" where
  "ratioLevel used limit th reason =
     (case (used, limit) of
        (Some u, Some l) \<Rightarrow>
          if u < 0 \<or> l \<le> 0 then None
          else if u / l \<ge> th_criticalRatio th then Some (SevCritical, reason)
          else if u / l \<ge> th_highRatio th then Some (SevHigh, reason)
          else None
      | _ \<Rightarrow> None)"

definition psiLevel :: "rat option \<Rightarrow> pressure_thresholds \<Rightarrow> pressure_reason \<Rightarrow> raw_level option" where
  "psiLevel v th reason =
     (case v of
        None \<Rightarrow> None
      | Some x \<Rightarrow>
          if x \<ge> th_criticalPsiAvg10 th then Some (SevCritical, reason)
          else if x \<ge> th_highPsiAvg10 th then Some (SevHigh, reason)
          else None)"

definition classifyAdaptiveResourcePressure :: "resource_signals \<Rightarrow> pressure_thresholds \<Rightarrow> raw_level" where
  "classifyAdaptiveResourcePressure g th =
     (let b0 = (SevNormal, ReasonNone);
          b1 = maxLevel b0 (ratioLevel (Some (sig_heapUsedBytes g)) (Some (sig_heapLimitBytes g)) th V8HeapRatio);
          b2 = maxLevel b1 (ratioLevel (sig_currentBytes g) (sig_maxBytes g) th CgroupRatio);
          b3 = maxLevel b2 (ratioLevel (sig_currentBytes g) (sig_highBytes g) th CgroupHigh);
          b4 = maxLevel b3 (psiLevel (sig_psiSome g) th PsiSome)
      in maxLevel b4 (psiLevel (sig_psiFull g) th PsiFull))"

definition MB :: rat where "MB = 1024 * 1024"

definition above :: "rat option \<times> rat option \<Rightarrow> rat \<Rightarrow> bool" where
  "above p r = (case p of (Some u, Some l) \<Rightarrow> l > 0 \<and> u / l > r | _ \<Rightarrow> False)"

definition isRecovered :: "resource_signals \<Rightarrow> pressure_thresholds \<Rightarrow> bool" where
  "isRecovered g th \<longleftrightarrow>
     \<not> list_ex (\<lambda>p. above p (th_recoveryRatio th))
         [(Some (sig_heapUsedBytes g), Some (sig_heapLimitBytes g)), (sig_currentBytes g, sig_maxBytes g), (sig_currentBytes g, sig_highBytes g)]
     \<and> \<not> (case th_heapAbsoluteMb th of None \<Rightarrow> False | Some h \<Rightarrow> sig_heapUsedBytes g / MB > h * th_recoveryRatio th)
     \<and> \<not> list_ex (\<lambda>v. case v of None \<Rightarrow> False | Some x \<Rightarrow> x > th_recoveryPsiAvg10 th) [sig_psiSome g, sig_psiFull g]"

definition both :: "(int \<Rightarrow> int \<Rightarrow> bool) \<Rightarrow> int option \<Rightarrow> int option \<Rightarrow> bool" where
  "both r a b = (case (a, b) of (Some x, Some y) \<Rightarrow> r x y | _ \<Rightarrow> False)"

definition hasCounterIncrease :: "oom_counters \<Rightarrow> oom_counters \<Rightarrow> bool" where
  "hasCounterIncrease prev cur \<longleftrightarrow> both (<) (oc_oom prev) (oc_oom cur) \<or> both (<) (oc_oomKill prev) (oc_oomKill cur)"

definition countersReset :: "oom_counters \<Rightarrow> oom_counters \<Rightarrow> bool" where
  "countersReset prev cur \<longleftrightarrow> both (>) (oc_oom prev) (oc_oom cur) \<or> both (>) (oc_oomKill prev) (oc_oomKill cur)"

section \<open>The tracker\<close>

record pressure_state =
  ps_severity :: pressure_severity
  ps_reason :: pressure_reason
  ps_elevatedStreak :: nat
  ps_recoveryStreak :: nat
  ps_lastTransitionAtMs :: int
  ps_observedAtMs :: int

definition initialState :: pressure_state where
  "initialState = \<lparr>ps_severity = SevNormal, ps_reason = ReasonNone, ps_elevatedStreak = 0, ps_recoveryStreak = 0,
     ps_lastTransitionAtMs = 0, ps_observedAtMs = 0\<rparr>"

record pressure_tracker =
  pt_state :: pressure_state
  pt_pending :: "raw_level option"
  pt_previousOom :: "oom_counters option"

definition createResourcePressureTracker :: pressure_tracker where
  "createResourcePressureTracker = \<lparr>pt_state = initialState, pt_pending = None, pt_previousOom = None\<rparr>"

definition oom_event :: "oom_counters option \<Rightarrow> oom_counters option \<Rightarrow> bool" where
  "oom_event prev cur =
     (case (prev, cur) of (Some p, Some c) \<Rightarrow> \<not> countersReset p c \<and> hasCounterIncrease p c | _ \<Rightarrow> False)"

definition samples_needed :: "pressure_thresholds \<Rightarrow> pressure_severity \<Rightarrow> nat" where
  "samples_needed th sev = (if sev = SevCritical then th_sustainedCritical th else th_sustainedHigh th)"

text \<open>The branches of \<open>observe\<close>: severity, reason, both streaks and the pending level.\<close>

definition next_level :: "pressure_thresholds \<Rightarrow> bool \<Rightarrow> raw_level \<Rightarrow> bool \<Rightarrow> pressure_state \<Rightarrow> raw_level option \<Rightarrow>
    pressure_severity \<times> pressure_reason \<times> nat \<times> nat \<times> raw_level option" where
  "next_level th oom raw recovered st pending =
     (let sev = ps_severity st; reason = ps_reason st;
          streak = (if pending = Some raw then ps_elevatedStreak st + 1 else 1)
      in if oom then (SevCritical, OomEvent, 0, 0, None)
         else if sev = SevNormal then
           (if fst raw = SevNormal then (sev, ReasonNone, 0, 0, None)
            else if streak \<ge> samples_needed th (fst raw) then (fst raw, snd raw, 0, 0, None)
            else (sev, reason, streak, 0, Some raw))
         else if sev = SevHigh \<and> fst raw = SevCritical then
           (if streak \<ge> th_sustainedCritical th then (SevCritical, snd raw, 0, 0, None)
            else (sev, reason, streak, 0, Some raw))
         else if fst raw = sev then (sev, snd raw, 0, 0, None)
         else if recovered then
           (if ps_recoveryStreak st + 1 \<ge> th_sustainedRecovery th then (SevNormal, ReasonNone, 0, 0, None)
            else (sev, reason, 0, ps_recoveryStreak st + 1, None))
         else (sev, reason, 0, 0, None))"

definition sample_oom :: "pressure_tracker \<Rightarrow> resource_signals \<Rightarrow> bool" where
  "sample_oom t g = oom_event (pt_previousOom t) (sig_events g)"

definition observe :: "pressure_thresholds \<Rightarrow> resource_signals \<Rightarrow> pressure_tracker \<Rightarrow> pressure_tracker" where
  "observe th g t =
     (let st = pt_state t; oom = sample_oom t g;
          raw = (if oom then (SevCritical, OomEvent) else classifyAdaptiveResourcePressure g th);
          (sev, reason, elevated, recovery, pending) = next_level th oom raw (isRecovered g th) st (pt_pending t);
          transitioned = (sev \<noteq> ps_severity st \<or> reason \<noteq> ps_reason st)
      in \<lparr>pt_state = \<lparr>ps_severity = sev, ps_reason = reason, ps_elevatedStreak = elevated, ps_recoveryStreak = recovery,
            ps_lastTransitionAtMs = (if transitioned then sig_observedAtMs g else ps_lastTransitionAtMs st),
            ps_observedAtMs = sig_observedAtMs g\<rparr>,
          pt_pending = pending, pt_previousOom = sig_events g\<rparr>)"


section \<open>The runtime\<close>

text \<open>
  Times that start at minus infinity are \<open>None\<close>. The promise of a refresh in flight ends with the signals of the sampler or with an error.
\<close>

record pressure_runtime =
  rp_tracker :: pressure_tracker
  rp_lastSignals :: "resource_signals option"
  rp_state :: pressure_state
  rp_lastRefreshAtMs :: "int option"
  rp_nextRefreshAtMs :: "int option"
  rp_scheduled :: bool
  rp_inFlight :: bool
  rp_disposed :: bool

record pressure_options =
  po_heapThresholdMb :: "rat option"
  po_staleAfterMs :: int
  po_maxStaleMs :: int
  po_retryAfterMs :: int

definition createResourcePressureRuntime :: pressure_runtime where
  "createResourcePressureRuntime =
     \<lparr>rp_tracker = createResourcePressureTracker, rp_lastSignals = None, rp_state = initialState, rp_lastRefreshAtMs = None,
      rp_nextRefreshAtMs = None, rp_scheduled = False, rp_inFlight = False, rp_disposed = False\<rparr>"

definition rp_refresh :: "pressure_runtime \<Rightarrow> pressure_runtime" where
  "rp_refresh r = (if rp_disposed r \<or> rp_inFlight r then r else r\<lparr>rp_scheduled := False, rp_inFlight := True\<rparr>)"

definition rp_refreshed :: "pressure_thresholds \<Rightarrow> pressure_options \<Rightarrow> int \<Rightarrow> resource_signals \<Rightarrow> pressure_runtime \<Rightarrow> pressure_runtime" where
  "rp_refreshed th c now g r =
     (if rp_disposed r then r\<lparr>rp_inFlight := False\<rparr>
      else (let t = observe th g (rp_tracker r)
            in r\<lparr>rp_lastSignals := Some g, rp_tracker := t, rp_state := pt_state t, rp_lastRefreshAtMs := Some now,
                 rp_nextRefreshAtMs := Some (now + po_staleAfterMs c), rp_inFlight := False\<rparr>))"

definition rp_refresh_failed :: "pressure_options \<Rightarrow> int \<Rightarrow> pressure_runtime \<Rightarrow> pressure_runtime" where
  "rp_refresh_failed c now r =
     (if rp_disposed r then r\<lparr>rp_inFlight := False\<rparr>
      else r\<lparr>rp_nextRefreshAtMs := Some (now + po_retryAfterMs c), rp_inFlight := False\<rparr>)"

definition rp_scheduleRefresh :: "pressure_runtime \<Rightarrow> pressure_runtime" where
  "rp_scheduleRefresh r = (if rp_disposed r \<or> rp_scheduled r \<or> rp_inFlight r then r else r\<lparr>rp_scheduled := True\<rparr>)"

definition immediateHeapGuard :: "rat \<Rightarrow> rat option \<Rightarrow> pressure_reason option" where
  "immediateHeapGuard heapUsedMb thresholdMb =
     (case thresholdMb of None \<Rightarrow> None | Some m \<Rightarrow> if heapUsedMb \<le> m then None else Some V8HeapAbsolute)"

text \<open>\<open>check\<close>: the reason of the guard, if one is returned. A heap reading that fails is \<open>None\<close>.\<close>

definition rp_check :: "pressure_options \<Rightarrow> int \<Rightarrow> rat option \<Rightarrow> pressure_runtime \<Rightarrow> pressure_reason option \<times> pressure_runtime" where
  "rp_check c now heap r =
     (let heapUsedMb = (case heap of Some h \<Rightarrow> h | None \<Rightarrow> 0);
          immediate = immediateHeapGuard heapUsedMb (po_heapThresholdMb c);
          due = (case rp_nextRefreshAtMs r of None \<Rightarrow> True | Some t \<Rightarrow> now \<ge> t);
          r1 = (if due then rp_scheduleRefresh r else r)
      in case immediate of
           Some reason \<Rightarrow>
             (Some reason, r1\<lparr>rp_state := \<lparr>ps_severity = SevCritical, ps_reason = V8HeapAbsolute, ps_elevatedStreak = 0,
                ps_recoveryStreak = 0, ps_lastTransitionAtMs = now, ps_observedAtMs = now\<rparr>\<rparr>)
         | None \<Rightarrow>
             (let fresh = (case (rp_lastSignals r1, rp_lastRefreshAtMs r1) of
                             (Some _, Some t) \<Rightarrow> max 0 (now - t) \<le> po_maxStaleMs c
                           | _ \<Rightarrow> False)
              in (if fresh \<and> ps_severity (rp_state r1) = SevCritical then Some (ps_reason (rp_state r1)) else None, r1)))"

definition rp_dispose :: "pressure_runtime \<Rightarrow> pressure_runtime" where
  "rp_dispose r = r\<lparr>rp_disposed := True, rp_scheduled := False\<rparr>"

section \<open>Histories\<close>

text \<open>What the tracker sees of a sample, and the samples of a run, newest first.\<close>

type_synonym sample_view = "bool \<times> raw_level \<times> bool"

definition view :: "pressure_thresholds \<Rightarrow> pressure_tracker \<Rightarrow> resource_signals \<Rightarrow> sample_view" where
  "view th t g = (sample_oom t g, classifyAdaptiveResourcePressure g th, isRecovered g th)"

fun observed :: "pressure_thresholds \<Rightarrow> resource_signals list \<Rightarrow> sample_view list \<times> pressure_tracker" where
  "observed th [] = ([], createResourcePressureTracker)"
| "observed th (g # gs) = (let (h, t) = observed th gs in (view th t g # h, observe th g t))"

definition newest :: "nat \<Rightarrow> (sample_view \<Rightarrow> bool) \<Rightarrow> sample_view list \<Rightarrow> bool" where
  "newest k P h \<longleftrightarrow> k \<le> length h \<and> (\<forall>x\<in>set (take k h). P x)"

lemma newest_0 [simp]: "newest 0 P h"
  by (simp add: newest_def)

lemma newest_Suc [simp]: "newest (Suc k) P (x # h) \<longleftrightarrow> P x \<and> newest k P h"
  by (auto simp: newest_def)

lemma newest_mono: "newest k P h \<Longrightarrow> m \<le> k \<Longrightarrow> newest m P h"
  by (auto simp: newest_def dest: set_take_subset_set_take [THEN subsetD])

definition at_level :: "raw_level \<Rightarrow> sample_view \<Rightarrow> bool" where
  "at_level r x \<longleftrightarrow> \<not> fst x \<and> fst (snd x) = r"

definition at_rest :: "sample_view \<Rightarrow> bool" where
  "at_rest x \<longleftrightarrow> \<not> fst x \<and> snd (snd x)"

definition counts_history :: "sample_view list \<Rightarrow> pressure_tracker \<Rightarrow> bool" where
  "counts_history h t \<longleftrightarrow>
     (case pt_pending t of None \<Rightarrow> True | Some r \<Rightarrow> newest (ps_elevatedStreak (pt_state t)) (at_level r) h)
     \<and> newest (ps_recoveryStreak (pt_state t)) at_rest h"

abbreviation sev :: "pressure_tracker \<Rightarrow> pressure_severity" where "sev t \<equiv> ps_severity (pt_state t)"

lemma observe_fields:
  "(sev (observe th g t), ps_reason (pt_state (observe th g t)), ps_elevatedStreak (pt_state (observe th g t)),
    ps_recoveryStreak (pt_state (observe th g t)), pt_pending (observe th g t)) =
   next_level th (sample_oom t g) (if sample_oom t g then (SevCritical, OomEvent) else classifyAdaptiveResourcePressure g th)
     (isRecovered g th) (pt_state t) (pt_pending t)"
  by (simp add: observe_def Let_def case_prod_unfold)

lemma counts_step:
  assumes "counts_history h t"
  shows "counts_history (view th t g # h) (observe th g t)"
proof -
  obtain s' r' e' c' p' where n: "next_level th (sample_oom t g) (if sample_oom t g then (SevCritical, OomEvent)
      else classifyAdaptiveResourcePressure g th) (isRecovered g th) (pt_state t) (pt_pending t) = (s', r', e', c', p')"
    by (cases "next_level th (sample_oom t g) (if sample_oom t g then (SevCritical, OomEvent)
      else classifyAdaptiveResourcePressure g th) (isRecovered g th) (pt_state t) (pt_pending t)")
  have f: "ps_elevatedStreak (pt_state (observe th g t)) = e'" "ps_recoveryStreak (pt_state (observe th g t)) = c'"
    "pt_pending (observe th g t) = p'" using observe_fields [of th g t] n by simp_all
  show ?thesis using assms n unfolding counts_history_def f
    by (auto simp: next_level_def Let_def view_def at_level_def at_rest_def split: if_splits option.splits)
qed

lemma counts_run: "counts_history (fst (observed th gs)) (snd (observed th gs))"
proof (induction gs)
  case Nil
  show ?case by (simp add: counts_history_def createResourcePressureTracker_def initialState_def)
next
  case (Cons g gs)
  then show ?case using counts_step by (simp add: case_prod_unfold Let_def)
qed

text \<open>C21. Pressure is debounced. Whatever the samples, the severity rises only on an out-of-memory event or when the required number of
  consecutive samples, the present one included, all read exactly the level and reason it rises to; it returns to
  normal only when the required number of consecutive samples were recovered; and critical pressure never relaxes to high.\<close>

theorem pressure_is_debounced:
  fixes th :: pressure_thresholds and gs :: "resource_signals list" and g :: resource_signals
  shows "let (h, t) = observed th gs; t' = observe th g t; x = view th t g in
    (severityRank (sev t) < severityRank (sev t') \<longrightarrow>
       fst x \<or> newest (samples_needed th (sev t')) (at_level (sev t', ps_reason (pt_state t'))) (x # h))
    \<and> (sev t \<noteq> SevNormal \<and> sev t' = SevNormal \<longrightarrow> newest (th_sustainedRecovery th) at_rest (x # h))
    \<and> \<not> (sev t = SevCritical \<and> sev t' = SevHigh)"
proof -
  define h t where "h = fst (observed th gs)" and "t = snd (observed th gs)"
  define x where "x = view th t g"
  have counts: "counts_history h t" unfolding h_def t_def by (rule counts_run)
  obtain s' r' e' c' p' where n: "next_level th (sample_oom t g) (if sample_oom t g then (SevCritical, OomEvent)
      else classifyAdaptiveResourcePressure g th) (isRecovered g th) (pt_state t) (pt_pending t) = (s', r', e', c', p')"
    by (cases "next_level th (sample_oom t g) (if sample_oom t g then (SevCritical, OomEvent)
      else classifyAdaptiveResourcePressure g th) (isRecovered g th) (pt_state t) (pt_pending t)")
  have f: "sev (observe th g t) = s'" "ps_reason (pt_state (observe th g t)) = r'" using observe_fields [of th g t] n by simp_all
  have one: "newest (Suc 0) P (y # h)" if "P y" for P y using that by simp
  have rise: "fst x \<or> newest (samples_needed th s') (at_level (s', r')) (x # h)" if "severityRank (sev t) < severityRank s'"
  proof (cases "sample_oom t g")
    case True
    then show ?thesis by (simp add: x_def view_def)
  next
    case False
    define raw where "raw = classifyAdaptiveResourcePressure g th"
    define k where "k = (if pt_pending t = Some raw then ps_elevatedStreak (pt_state t) + 1 else 1)"
    have "raw = (s', r') \<and> samples_needed th s' \<le> k"
      using n that False by (auto simp: next_level_def Let_def raw_def [symmetric] k_def [symmetric] samples_needed_def prod_eq_iff split: if_splits)
    moreover have "newest k (at_level raw) (x # h)"
    proof (cases "pt_pending t = Some raw")
      case True
      then show ?thesis using counts False by (simp add: k_def counts_history_def x_def view_def at_level_def raw_def)
    next
      case other: False
      then show ?thesis using False by (simp add: k_def x_def view_def at_level_def raw_def)
    qed
    ultimately show ?thesis using newest_mono by blast
  qed
  moreover have "newest (th_sustainedRecovery th) at_rest (x # h)" if "sev t \<noteq> SevNormal" "s' = SevNormal"
  proof -
    have "\<not> sample_oom t g" "isRecovered g th" "th_sustainedRecovery th \<le> Suc (ps_recoveryStreak (pt_state t))"
      using n that by (auto simp: next_level_def Let_def split: if_splits)
    moreover from this(1,2) have "newest (Suc (ps_recoveryStreak (pt_state t))) at_rest (x # h)"
      using counts by (simp add: counts_history_def x_def view_def at_rest_def)
    ultimately show ?thesis using newest_mono by blast
  qed
  moreover have "\<not> (sev t = SevCritical \<and> s' = SevHigh)"
    using n by (auto simp: next_level_def Let_def split: if_splits)
  ultimately show ?thesis by (simp add: Let_def case_prod_unfold h_def [symmetric] t_def [symmetric] x_def [symmetric] f)
qed

text \<open>A sample of a given heap ratio, and a run of three hot ones.\<close>

definition heap_sample :: "rat \<Rightarrow> resource_signals" where
  "heap_sample used = \<lparr>sig_observedAtMs = 1, sig_heapUsedBytes = used, sig_heapLimitBytes = 100, sig_currentBytes = None,
     sig_maxBytes = None, sig_highBytes = None, sig_events = None, sig_psiSome = None, sig_psiFull = None\<rparr>"

lemma pressure_is_debounced_witness:
  "let t = snd (observed DEFAULT_RESOURCE_PRESSURE_THRESHOLDS [heap_sample 90]);
       h = fst (observed DEFAULT_RESOURCE_PRESSURE_THRESHOLDS [heap_sample 90])
   in sev (observe DEFAULT_RESOURCE_PRESSURE_THRESHOLDS (heap_sample 91) t) = SevHigh
      \<and> newest 2 (at_level (SevHigh, V8HeapRatio)) (view DEFAULT_RESOURCE_PRESSURE_THRESHOLDS t (heap_sample 91) # h)"
proof -
  let ?th = DEFAULT_RESOURCE_PRESSURE_THRESHOLDS
  let ?t = "snd (observed ?th [heap_sample 90])" and ?h = "fst (observed ?th [heap_sample 90])"
  have a: "sev ?t = SevNormal" "sev (observe ?th (heap_sample 91) ?t) = SevHigh"
    "ps_reason (pt_state (observe ?th (heap_sample 91) ?t)) = V8HeapRatio" by code_simp+
  have "\<not> fst (view ?th ?t (heap_sample 91))" "samples_needed ?th SevHigh = 2" by code_simp+
  then show ?thesis using pressure_is_debounced [of ?th "[heap_sample 90]" "heap_sample 91"] a
    by (simp add: Let_def case_prod_unfold del: observed.simps)
qed

section \<open>Sustained samples decide\<close>

definition observe_all :: "pressure_thresholds \<Rightarrow> resource_signals list \<Rightarrow> pressure_tracker \<Rightarrow> pressure_tracker" where
  "observe_all th gs t = fold (observe th) gs t"

fun views :: "pressure_thresholds \<Rightarrow> resource_signals list \<Rightarrow> pressure_tracker \<Rightarrow> sample_view list" where
  "views th [] t = []"
| "views th (g # gs) t = view th t g # views th gs (observe th g t)"

definition heading_for :: "pressure_thresholds \<Rightarrow> raw_level \<Rightarrow> nat \<Rightarrow> pressure_tracker \<Rightarrow> bool" where
  "heading_for th r k t \<longleftrightarrow> sev t = fst r
     \<or> sev t = SevNormal \<and> (k = 0 \<or> pt_pending t = Some r \<and> k \<le> ps_elevatedStreak (pt_state t) \<and> ps_elevatedStreak (pt_state t) < samples_needed th (fst r))"

lemma heading_step:
  assumes "at_level r (view th t g)" and "fst r \<noteq> SevNormal" and "heading_for th r k t" and "k < samples_needed th (fst r)"
  shows "heading_for th r (Suc k) (observe th g t)"
  using assms observe_fields [of th g t]
  by (auto simp: heading_for_def at_level_def view_def next_level_def Let_def split: if_splits)

lemma heading_all:
  assumes "\<forall>x\<in>set (views th gs t). at_level r x" and "fst r \<noteq> SevNormal" and "heading_for th r k t"
    and "k + length gs \<le> samples_needed th (fst r)"
  shows "heading_for th r (k + length gs) (observe_all th gs t)"
  using assms
proof (induction gs arbitrary: t k)
  case (Cons g gs)
  then have "heading_for th r (Suc k) (observe th g t)" by (intro heading_step) auto
  then show ?case using Cons.IH [of "observe th g t" "Suc k"] Cons.prems by (simp add: observe_all_def)
qed (simp add: observe_all_def)

definition calming :: "nat \<Rightarrow> pressure_tracker \<Rightarrow> bool" where
  "calming k t \<longleftrightarrow> sev t = SevNormal \<or> k \<le> ps_recoveryStreak (pt_state t)"

definition quiet :: "sample_view \<Rightarrow> bool" where
  "quiet x \<longleftrightarrow> at_rest x \<and> fst (fst (snd x)) = SevNormal"

lemma calming_step:
  assumes "quiet (view th t g)" and "calming k t"
  shows "calming (Suc k) (observe th g t) \<and> (Suc k \<ge> th_sustainedRecovery th \<longrightarrow> sev (observe th g t) = SevNormal)"
  using assms observe_fields [of th g t]
  by (cases "sev t") (auto simp: calming_def quiet_def at_rest_def view_def next_level_def Let_def split: if_splits)

lemma calming_all:
  assumes "\<forall>x\<in>set (views th gs t). quiet x" and "calming k t" and "gs \<noteq> []" and "k + length gs \<ge> th_sustainedRecovery th"
  shows "sev (observe_all th gs t) = SevNormal"
  using assms
proof (induction gs arbitrary: t k)
  case (Cons g gs)
  have step: "calming (Suc k) (observe th g t)" "Suc k \<ge> th_sustainedRecovery th \<longrightarrow> sev (observe th g t) = SevNormal"
    using calming_step [of th t g k] Cons.prems by auto
  show ?case
  proof (cases "gs = []")
    case True
    then show ?thesis using step Cons.prems by (simp add: observe_all_def)
  next
    case False
    then show ?thesis using step Cons.IH [of "observe th g t" "Suc k"] Cons.prems by (simp add: observe_all_def)
  qed
qed simp

text \<open>Sustained samples decide. From normal, as many consecutive samples of one elevated level as the thresholds ask for raise the severity
  to that level; and from any severity, as many quiet samples (recovered, no out-of-memory event) as the thresholds
  ask for bring it back to normal.\<close>

theorem sustained_samples_decide:
  assumes "gs \<noteq> []"
  shows "(sev t = SevNormal \<and> fst r \<noteq> SevNormal \<and> length gs = samples_needed th (fst r) \<and> (\<forall>x\<in>set (views th gs t). at_level r x)
      \<longrightarrow> sev (observe_all th gs t) = fst r)
    \<and> (length gs \<ge> th_sustainedRecovery th \<and> (\<forall>x\<in>set (views th gs t). quiet x) \<longrightarrow> sev (observe_all th gs t) = SevNormal)"
proof (intro conjI impI)
  assume a: "sev t = SevNormal \<and> fst r \<noteq> SevNormal \<and> length gs = samples_needed th (fst r) \<and> (\<forall>x\<in>set (views th gs t). at_level r x)"
  then have "heading_for th r (0 + length gs) (observe_all th gs t)"
    by (intro heading_all) (auto simp: heading_for_def)
  then show "sev (observe_all th gs t) = fst r" using a assms by (auto simp: heading_for_def)
next
  assume "length gs \<ge> th_sustainedRecovery th \<and> (\<forall>x\<in>set (views th gs t). quiet x)"
  then show "sev (observe_all th gs t) = SevNormal" using calming_all [of th gs t 0] assms by (simp add: calming_def)
qed

lemma sustained_samples_decide_witness:
  "let th = DEFAULT_RESOURCE_PRESSURE_THRESHOLDS;
       t = observe_all th [heap_sample 95, heap_sample 96] createResourcePressureTracker
   in sev t = SevCritical \<and> sev (observe_all th [heap_sample 10, heap_sample 10, heap_sample 20] t) = SevNormal"
proof -
  let ?th = DEFAULT_RESOURCE_PRESSURE_THRESHOLDS
  let ?t = "observe_all ?th [heap_sample 95, heap_sample 96] createResourcePressureTracker"
  have a: "sev createResourcePressureTracker = SevNormal" "samples_needed ?th SevCritical = 2" "th_sustainedRecovery ?th = 3"
    "list_all (at_level (SevCritical, V8HeapRatio)) (views ?th [heap_sample 95, heap_sample 96] createResourcePressureTracker)"
    "list_all quiet (views ?th [heap_sample 10, heap_sample 10, heap_sample 20] ?t)" by code_simp+
  show ?thesis
    using sustained_samples_decide [of "[heap_sample 95, heap_sample 96]" createResourcePressureTracker "(SevCritical, V8HeapRatio)" ?th]
      sustained_samples_decide [of "[heap_sample 10, heap_sample 10, heap_sample 20]" ?t "(SevCritical, V8HeapRatio)" ?th] a
    by (simp add: list_all_iff Let_def del: views.simps)
qed

text \<open>Levels that change from sample to sample never raise the severity, however high they all are.\<close>

fun changing :: "raw_level option \<Rightarrow> sample_view list \<Rightarrow> bool" where
  "changing prev [] \<longleftrightarrow> True"
| "changing prev (x # xs) \<longleftrightarrow> \<not> fst x \<and> Some (fst (snd x)) \<noteq> prev \<and> changing (Some (fst (snd x))) xs"

lemma changing_levels_never_elevate:
  assumes "changing (pt_pending t) (views th gs t)" and "sev t = SevNormal"
    and "1 < th_sustainedHigh th" and "1 < th_sustainedCritical th"
  shows "sev (observe_all th gs t) = SevNormal"
  using assms(1,2)
proof (induction gs arbitrary: t)
  case (Cons g gs)
  have "sev (observe th g t) = SevNormal \<and> (pt_pending (observe th g t) = Some (classifyAdaptiveResourcePressure g th)
      \<or> pt_pending (observe th g t) = None)"
    using Cons.prems assms(3,4) observe_fields [of th g t]
    by (auto simp: view_def next_level_def Let_def samples_needed_def split: if_splits)
  moreover have "changing (pt_pending (observe th g t)) (views th gs (observe th g t))"
    if "changing (Some (classifyAdaptiveResourcePressure g th)) (views th gs (observe th g t))"
      "pt_pending (observe th g t) = None" using that by (cases gs) auto
  ultimately show ?case using Cons.IH [of "observe th g t"] Cons.prems by (auto simp: observe_all_def view_def)
qed (simp add: observe_all_def)

end
