(* ===== verification/ProviderFailures.thy ===== *)
theory ProviderFailures
  imports CircuitRegistry ProviderCooldown
begin

text \<open>
  Reporting the outcome of a request to the shared state of its provider, from \<open>open-sse/services/accountFallback.ts\<close>: the two
  tables that keep bursts of failures from being counted more than once, the provider's circuit breaker, and the cooldown of the connection.
  The options a breaker is configured with come from the provider's profile and are an argument.
\<close>

section \<open>State\<close>

definition CONNECTION_FAILURE_DEDUP_MS :: int where "CONNECTION_FAILURE_DEDUP_MS = 5000"
definition MAX_CONNECTION_FAILURE_DEDUP_ENTRIES :: nat where "MAX_CONNECTION_FAILURE_DEDUP_ENTRIES = 10000"
definition NETWORK_ERROR_DEDUP_MS :: int where "NETWORK_ERROR_DEDUP_MS = 10000"
definition MAX_NETWORK_ERROR_DEDUP_ENTRIES :: nat where "MAX_NETWORK_ERROR_DEDUP_ENTRIES = 1000"

record provider_health =
  ph_registry :: "js_error cb_registry"
  ph_db :: cb_db
  ph_lastConnectionFailure :: "(string, int) jsmap"
  ph_lastNetworkErrorByProvider :: "(string, int) jsmap"
  ph_cooldowns :: cooldowns

definition no_health :: "cb_db \<Rightarrow> provider_health" where
  "no_health db = \<lparr>ph_registry = [], ph_db = db, ph_lastConnectionFailure = [], ph_lastNetworkErrorByProvider = [], ph_cooldowns = []\<rparr>"

section \<open>Operations\<close>

text \<open>The loop that deletes the oldest keys of a table over its bound.\<close>

function drop_oldest :: "nat \<Rightarrow> (string, int) jsmap \<Rightarrow> (string, int) jsmap" where
  "drop_oldest cap m =
     (case m of
        [] \<Rightarrow> m
      | (oldestKey, _) # _ \<Rightarrow> if length m > cap then drop_oldest cap (jm_del oldestKey m) else m)"
  by pat_completeness auto
termination
  by (relation "measure (\<lambda>(_, m). length m)") (auto simp: jm_del_def le_imp_less_Suc)

declare drop_oldest.simps [simp del]

text \<open>The periodic sweep.\<close>

definition connectionFailureSweep :: "int \<Rightarrow> provider_health \<Rightarrow> provider_health" where
  "connectionFailureSweep now h =
     h\<lparr>ph_lastConnectionFailure := filter (\<lambda>(_, ts). \<not> now - ts > CONNECTION_FAILURE_DEDUP_MS) (ph_lastConnectionFailure h)\<rparr>"

text \<open>A report within the window of the last one is dropped; a time stamp of 0 counts as none.\<close>

definition within_window :: "int \<Rightarrow> int \<Rightarrow> int option \<Rightarrow> bool" where
  "within_window width now prev \<longleftrightarrow> truthy prev \<and> now - the prev < width"

text \<open>The breaker's share: it is configured, asked, told of the failure, and asked again.\<close>

definition breaker_failure :: "int \<Rightarrow> string \<Rightarrow> js_error cb_options \<Rightarrow> provider_health \<Rightarrow> provider_health" where
  "breaker_failure now provider opts h =
     (let (b, reg, db) = getCircuitBreaker now provider (Some opts) (ph_registry h, ph_db h);
          (ok, s) = canExecute now (b, db);
          s' = (if ok then snd (canExecute now (onFailure now None s)) else s)
      in h\<lparr>ph_registry := jm_set provider (fst s') reg, ph_db := snd s'\<rparr>)"

definition recordProviderFailure ::
  "int \<Rightarrow> string \<Rightarrow> string \<Rightarrow> js_error cb_options \<Rightarrow> bool \<Rightarrow> bool \<Rightarrow> provider_health \<Rightarrow> provider_health" where
  "recordProviderFailure now provider connectionId opts isQueueTimeout isNetworkError h =
     (if provider = [] then h
      else if isQueueTimeout then h
      else if isNetworkError \<and> within_window NETWORK_ERROR_DEDUP_MS now (jm_get (ph_lastNetworkErrorByProvider h) provider) then h
      else (let h1 = (if isNetworkError
                      then h\<lparr>ph_lastNetworkErrorByProvider :=
                               drop_oldest MAX_NETWORK_ERROR_DEDUP_ENTRIES
                                 (jm_set provider now (jm_del provider (ph_lastNetworkErrorByProvider h)))\<rparr>
                      else h);
                dedupKey = provider @ '':'' @ connectionId
            in if connectionId \<noteq> [] \<and> within_window CONNECTION_FAILURE_DEDUP_MS now (jm_get (ph_lastConnectionFailure h1) dedupKey) then h1
               else (let h2 = (if connectionId \<noteq> []
                               then h1\<lparr>ph_lastConnectionFailure :=
                                         drop_oldest MAX_CONNECTION_FAILURE_DEDUP_ENTRIES
                                           (jm_set dedupKey now (jm_del dedupKey (ph_lastConnectionFailure h1)))\<rparr>
                               else h1)
                     in breaker_failure now provider opts h2)))"

text \<open>\<open>recordProviderSuccess\<close>: nothing while the breaker is open.\<close>

definition recordBreakerSuccess :: "int \<Rightarrow> string \<Rightarrow> string \<Rightarrow> provider_health \<Rightarrow> provider_health" where
  "recordBreakerSuccess now provider connectionId h =
     (if \<not> known_provider provider then h
      else (let (b, reg, db) = getCircuitBreaker now provider None (ph_registry h, ph_db h);
                (st, s) = getStatus now (b, db);
                h1 = h\<lparr>ph_registry := jm_set provider (fst s) reg, ph_db := snd s\<rparr>
            in if st_state st = OPEN then h1
               else (let s' = onSuccess now s
                     in h1\<lparr>ph_cooldowns := recordProviderSuccess provider connectionId (ph_cooldowns h1),
                           ph_lastConnectionFailure :=
                             (if connectionId \<noteq> [] then jm_del (provider @ '':'' @ connectionId) (ph_lastConnectionFailure h1)
                              else ph_lastConnectionFailure h1),
                           ph_registry := jm_set provider (fst s') reg, ph_db := snd s'\<rparr>)))"

text \<open>\<open>getProviderBreakerState\<close>, as the routing code reads it.\<close>

definition breaker_open :: "int \<Rightarrow> string \<Rightarrow> provider_health \<Rightarrow> bool \<times> provider_health" where
  "breaker_open now provider h =
     (let (b, reg, db) = getCircuitBreaker now provider None (ph_registry h, ph_db h);
          (st, s) = getStatus now (b, db)
      in (st_state st = OPEN, h\<lparr>ph_registry := jm_set provider (fst s) reg, ph_db := snd s\<rparr>))"

text \<open>The options of \<open>configureProviderBreaker\<close>, from a resolved profile and whether upstream hints are used.\<close>

record breaker_profile =
  bp_failureThreshold :: "int option"
  bp_circuitBreakerThreshold :: "int option"
  bp_resetTimeoutMs :: "int option"
  bp_circuitBreakerReset :: "int option"
  bp_degradationThreshold :: "int option"
  bp_maxBackoffMultiplier :: "int option"
  bp_backoffEscalationCount :: "int option"

definition breaker_options :: "(js_error \<Rightarrow> unit + failure_kind option) \<Rightarrow> breaker_profile \<Rightarrow> bool \<Rightarrow> js_error cb_options" where
  "breaker_options classify429FromError bp useHints =
     (let o1 = no_options
            \<lparr>o_failureThreshold := (case bp_failureThreshold bp of None \<Rightarrow> bp_circuitBreakerThreshold bp | Some x \<Rightarrow> Some x),
             o_resetTimeout := (case bp_resetTimeoutMs bp of None \<Rightarrow> bp_circuitBreakerReset bp | Some x \<Rightarrow> Some x),
             o_degradationThreshold := bp_degradationThreshold bp,
             o_maxBackoffMultiplier := bp_maxBackoffMultiplier bp,
             o_backoffEscalationCount := bp_backoffEscalationCount bp\<rparr>
      in if useHints
         then o1\<lparr>o_cooldownByKind := [RateLimit \<mapsto> 60000, QuotaExhausted \<mapsto> 3600000], o_classifyError := Some classify429FromError\<rparr>
         else o1)"

section \<open>Histories of one provider\<close>

datatype health_event =
    HFailed bool bool     \<comment> \<open>queue timeout, network error\<close>
  | HSucceeded
  | HSweep
  | HAsked

fun health_step :: "string \<Rightarrow> string \<Rightarrow> js_error cb_options \<Rightarrow> int \<times> health_event \<Rightarrow> provider_health \<Rightarrow> provider_health" where
  "health_step p c opts (now, HFailed q n) h = recordProviderFailure now p c opts q n h"
| "health_step p c opts (now, HSucceeded) h = recordBreakerSuccess now p c h"
| "health_step p c opts (now, HSweep) h = connectionFailureSweep now h"
| "health_step p c opts (now, HAsked) h = snd (breaker_open now p h)"

definition health_run :: "string \<Rightarrow> string \<Rightarrow> js_error cb_options \<Rightarrow> (int \<times> health_event) list \<Rightarrow> provider_health \<Rightarrow> provider_health" where
  "health_run p c opts es h = fold (health_step p c opts) es h"

text \<open>The breaker of the provider, as the registry has it or would create it.\<close>

definition unseen_provider :: "string \<Rightarrow> provider_health \<Rightarrow> bool" where
  "unseen_provider p h \<longleftrightarrow> ph_registry h = [] \<and> (case ph_db h of None \<Rightarrow> True | Some m \<Rightarrow> m p = None)"

definition calm_breaker :: "int \<Rightarrow> js_error breaker \<Rightarrow> bool" where
  "calm_breaker k b \<longleftrightarrow> (b_state b = CLOSED \<or> b_state b = DEGRADED) \<and> b_failureCount b = k"

definition calm :: "string \<Rightarrow> int \<Rightarrow> provider_health \<Rightarrow> bool" where
  "calm p k h \<longleftrightarrow> (unseen_provider p h \<and> k = 0) \<or> (\<exists>b. jm_get (ph_registry h) p = Some b \<and> calm_breaker k b)"

lemma calm_breaker_apply: "calm_breaker k b \<Longrightarrow> calm_breaker k (apply_options opts b)"
  by (auto simp: calm_breaker_def apply_options_def Let_def split: option.splits)

lemma apply_threshold: "o_failureThreshold opts = Some N \<Longrightarrow> b_failureThreshold (apply_options opts b) = N"
  by (simp add: apply_options_def Let_def split: option.splits)

lemma calm_lookup:
  assumes "calm p k h" and "getCircuitBreaker now p opts (ph_registry h, ph_db h) = (b, reg, db)"
  shows "calm_breaker k b \<and> (\<forall>ops N. opts = Some ops \<and> o_failureThreshold ops = Some N \<longrightarrow> b_failureThreshold b = N)"
proof -
  have fresh: "calm_breaker 0 (new_CircuitBreaker p ops db')" if "case db' of None \<Rightarrow> True | Some m \<Rightarrow> m p = None" for ops :: "js_error cb_options" and db'
    using that by (auto simp: calm_breaker_def new_CircuitBreaker_def restoreFromDb_def loadCircuitBreakerState_def fresh_breaker_def Let_def
        split: option.splits)
  show ?thesis
    using assms
    by (auto simp: calm_def unseen_provider_def getCircuitBreaker_def jm_has_def evictColdBreakersIfNeeded_def MAX_REGISTRY_SIZE_def Let_def
        apply_threshold fresh calm_breaker_apply split: option.splits if_splits prod.splits intro!: calm_breaker_apply fresh)
qed

lemma calm_refresh: "calm_breaker k b \<Longrightarrow> refreshOpenState now (b, db) = (b, db)"
  by (auto simp: calm_breaker_def refreshOpenState_def)

lemma calm_failure:
  assumes "calm_breaker k b" and "k + 1 < b_failureThreshold b"
  shows "calm_breaker (k + 1) (fst (onFailure now None (b, db)))"
  using assms by (auto simp: calm_breaker_def onFailure_def Let_def)

lemma calm_success:
  assumes "calm_breaker k b" and "0 \<le> k"
  shows "calm_breaker (max 0 (k - 1)) (fst (onSuccess now (b, db)))"
  using assms by (auto simp: calm_breaker_def onSuccess_def Let_def)

lemma drop_oldest_small: "length m \<le> cap \<Longrightarrow> drop_oldest cap m = m"
  by (subst drop_oldest.simps) (auto split: list.splits)

lemma breaker_failure_calm:
  assumes "calm p k h" and "o_failureThreshold opts = Some N" and "k + 1 < N"
  shows "calm p (k + 1) (breaker_failure now p opts h)"
    and "ph_lastConnectionFailure (breaker_failure now p opts h) = ph_lastConnectionFailure h"
proof -
  obtain b reg db where g: "getCircuitBreaker now p (Some opts) (ph_registry h, ph_db h) = (b, reg, db)" by (metis prod_cases3)
  have b: "calm_breaker k b" "b_failureThreshold b = N" using calm_lookup [OF assms(1) g] assms(2) by auto
  have f: "calm_breaker (k + 1) (fst (onFailure now None (b, db)))" using calm_failure b assms(3) by simp
  obtain b' db' where o: "onFailure now None (b, db) = (b', db')" by force
  have ok: "fst (canExecute now (b, db))" "snd (canExecute now (b, db)) = (b, db)" "snd (canExecute now (b', db')) = (b', db')"
    using b(1) f by (auto simp: canExecute_def calm_refresh o calm_breaker_def Let_def)
  then show "calm p (k + 1) (breaker_failure now p opts h)"
    using f by (simp add: breaker_failure_def g calm_def o case_prod_unfold Let_def)
  show "ph_lastConnectionFailure (breaker_failure now p opts h) = ph_lastConnectionFailure h"
    by (simp add: breaker_failure_def case_prod_unfold Let_def)
qed

text \<open>The pace of counted failures: all of them lie at least the window apart.\<close>

definition paced :: "int \<Rightarrow> int \<Rightarrow> string \<Rightarrow> string \<Rightarrow> provider_health \<Rightarrow> bool" where
  "paced T0 u p c h \<longleftrightarrow>
     (\<exists>k. calm p k h \<and> 0 \<le> k \<and>
       (ph_lastConnectionFailure h = [] \<and> T0 + CONNECTION_FAILURE_DEDUP_MS * k \<le> u
        \<or> (\<exists>t0. ph_lastConnectionFailure h = [(p @ '':'' @ c, t0)] \<and> 0 < t0 \<and> t0 \<le> u
             \<and> T0 + CONNECTION_FAILURE_DEDUP_MS * (k - 1) \<le> t0)))"

lemma calm_update [simp]:
  "calm p k (h\<lparr>ph_lastConnectionFailure := m\<rparr>) = calm p k h"
  "calm p k (h\<lparr>ph_lastNetworkErrorByProvider := m\<rparr>) = calm p k h"
  by (simp_all add: calm_def unseen_provider_def)

lemma paced_failure:
  assumes "paced T0 u p c h" and "0 < T0" and "T0 \<le> u" and "u \<le> now" and "now < T0 + CONNECTION_FAILURE_DEDUP_MS * (N - 1)"
    and "o_failureThreshold opts = Some N" and "p \<noteq> []" and "c \<noteq> []"
  shows "paced T0 now p c (recordProviderFailure now p c opts q n h)"
proof -
  let ?D = CONNECTION_FAILURE_DEDUP_MS and ?key = "p @ '':'' @ c"
  have D: "?D = 5000" by (simp add: CONNECTION_FAILURE_DEDUP_MS_def)
  obtain k where k: "calm p k h" "0 \<le> k"
    and last: "ph_lastConnectionFailure h = [] \<and> T0 + ?D * k \<le> u
        \<or> (\<exists>t0. ph_lastConnectionFailure h = [(?key, t0)] \<and> 0 < t0 \<and> t0 \<le> u \<and> T0 + ?D * (k - 1) \<le> t0)"
    using assms(1) by (auto simp: paced_def)
  have kept: "paced T0 now p c h'" if "calm p k h'" "ph_lastConnectionFailure h' = ph_lastConnectionFailure h" for h'
    using last k(2) that assms(4) by (fastforce simp: paced_def)
  define h1 where "h1 = (if n then h\<lparr>ph_lastNetworkErrorByProvider :=
      drop_oldest MAX_NETWORK_ERROR_DEDUP_ENTRIES (jm_set p now (jm_del p (ph_lastNetworkErrorByProvider h)))\<rparr> else h)"
  have h1: "calm p k h1" "ph_lastConnectionFailure h1 = ph_lastConnectionFailure h" using k by (simp_all add: h1_def)
  show ?thesis
  proof (cases "q \<or> n \<and> within_window NETWORK_ERROR_DEDUP_MS now (jm_get (ph_lastNetworkErrorByProvider h) p)
      \<or> within_window ?D now (jm_get (ph_lastConnectionFailure h1) ?key)")
    case True
    then have "recordProviderFailure now p c opts q n h \<in> {h, h1}"
      using assms(7,8) unfolding recordProviderFailure_def h1_def [symmetric] Let_def by auto
    then show ?thesis using kept [of h] kept [of h1] k(1) h1 by auto
  next
    case False
    define h2 where "h2 = h1\<lparr>ph_lastConnectionFailure := [(?key, now)]\<rparr>"
    have "drop_oldest MAX_CONNECTION_FAILURE_DEDUP_ENTRIES (jm_set ?key now (jm_del ?key (ph_lastConnectionFailure h1))) = [(?key, now)]"
      using last h1(2) by (auto simp: jm_del_def jm_set_def drop_oldest_small MAX_CONNECTION_FAILURE_DEDUP_ENTRIES_def)
    then have r: "recordProviderFailure now p c opts q n h = breaker_failure now p opts h2"
      using False assms(7,8) unfolding recordProviderFailure_def h1_def [symmetric] h2_def Let_def by auto
    have next_slot: "T0 + ?D * k \<le> now"
      using last False assms(4) h1(2) by (auto simp: within_window_def jm_get_def D)
    then have "k + 1 < N" using assms(5) by (simp add: D)
    then have "calm p (k + 1) (breaker_failure now p opts h2)" "ph_lastConnectionFailure (breaker_failure now p opts h2) = [(?key, now)]"
      using breaker_failure_calm [OF _ assms(6), of p k h2 now] h1(1) by (simp_all add: h2_def)
    then show ?thesis using r next_slot k(2) assms(2-4) by (auto simp: paced_def intro!: exI [of _ "k + 1"])
  qed
qed

lemma paced_success:
  assumes "paced T0 u p c h" and "T0 \<le> u" and "u \<le> now" and "c \<noteq> []"
  shows "paced T0 now p c (recordBreakerSuccess now p c h)"
proof (cases "known_provider p")
  case False
  then show ?thesis using assms by (fastforce simp: recordBreakerSuccess_def paced_def)
next
  case True
  let ?D = CONNECTION_FAILURE_DEDUP_MS
  have D: "?D = 5000" by (simp add: CONNECTION_FAILURE_DEDUP_MS_def)
  obtain k where k: "calm p k h" "0 \<le> k"
    and last: "ph_lastConnectionFailure h = [] \<and> T0 + ?D * k \<le> u
        \<or> (\<exists>t0. ph_lastConnectionFailure h = [(p @ '':'' @ c, t0)] \<and> 0 < t0 \<and> t0 \<le> u \<and> T0 + ?D * (k - 1) \<le> t0)"
    using assms(1) by (auto simp: paced_def)
  obtain b reg db where g: "getCircuitBreaker now p None (ph_registry h, ph_db h) = (b, reg, db)" by (metis prod_cases3)
  have b: "calm_breaker k b" using calm_lookup [OF k(1) g] by simp
  obtain b' db' where o: "onSuccess now (b, db) = (b', db')" by force
  have "calm_breaker (max 0 (k - 1)) b'" using calm_success [OF b k(2), of now db] by (simp add: o)
  moreover have "st_state (fst (getStatus now (b, db))) \<noteq> OPEN" "snd (getStatus now (b, db)) = (b, db)"
    using b by (auto simp: calm_refresh calm_breaker_def)
  ultimately have "calm p (max 0 (k - 1)) (recordBreakerSuccess now p c h)"
    by (simp add: recordBreakerSuccess_def True g o calm_def case_prod_unfold Let_def)
  moreover have "ph_lastConnectionFailure (recordBreakerSuccess now p c h) = []"
    using last \<open>st_state (fst (getStatus now (b, db))) \<noteq> OPEN\<close> assms(4)
    by (auto simp: recordBreakerSuccess_def True g case_prod_unfold Let_def jm_del_def)
  moreover have "T0 + ?D * max 0 (k - 1) \<le> now" using last assms(2,3) k(2) by (auto simp: D max_def)
  ultimately show ?thesis by (auto simp: paced_def intro!: exI [of _ "max 0 (k - 1)"])
qed

lemma paced_sweep:
  assumes "paced T0 u p c h" and "u \<le> now"
  shows "paced T0 now p c (connectionFailureSweep now h)"
  using assms by (fastforce simp: paced_def connectionFailureSweep_def CONNECTION_FAILURE_DEDUP_MS_def)

lemma calm_asked:
  assumes "calm p k h"
  shows "\<not> fst (breaker_open now p h)" and "calm p k (snd (breaker_open now p h))"
    and "ph_lastConnectionFailure (snd (breaker_open now p h)) = ph_lastConnectionFailure h"
proof -
  obtain b reg db where g: "getCircuitBreaker now p None (ph_registry h, ph_db h) = (b, reg, db)" by (metis prod_cases3)
  have b: "calm_breaker k b" using calm_lookup [OF assms g] by simp
  then have "st_state (fst (getStatus now (b, db))) \<noteq> OPEN" "snd (getStatus now (b, db)) = (b, db)"
    by (auto simp: calm_refresh calm_breaker_def)
  then show "\<not> fst (breaker_open now p h)" "calm p k (snd (breaker_open now p h))"
    "ph_lastConnectionFailure (snd (breaker_open now p h)) = ph_lastConnectionFailure h"
    using b by (simp_all add: breaker_open_def g calm_def case_prod_unfold Let_def)
qed

lemma paced_step:
  assumes "paced T0 u p c h" and "0 < T0" and "T0 \<le> u" and "u \<le> fst e" and "fst e < T0 + CONNECTION_FAILURE_DEDUP_MS * (N - 1)"
    and "o_failureThreshold opts = Some N" and "p \<noteq> []" and "c \<noteq> []"
  shows "paced T0 (fst e) p c (health_step p c opts e h)"
proof (cases "snd e")
  case (HFailed q n)
  then show ?thesis using paced_failure [OF assms, of q n] by (cases e) simp
next
  case HSucceeded
  then show ?thesis using paced_success assms by (cases e) simp
next
  case HSweep
  then show ?thesis using paced_sweep assms by (cases e) simp
next
  case HAsked
  then show ?thesis using assms calm_asked [of p _ h "fst e"] by (cases e) (fastforce simp: paced_def)
qed

lemma paced_run:
  assumes "paced T0 u p c h" and "0 < T0" and "T0 \<le> u" and "sorted (u # map fst es)"
    and "\<forall>t\<in>set (map fst es). t < T0 + CONNECTION_FAILURE_DEDUP_MS * (N - 1)"
    and "o_failureThreshold opts = Some N" and "p \<noteq> []" and "c \<noteq> []"
  shows "\<exists>v. paced T0 v p c (health_run p c opts es h)"
  using assms
proof (induction es arbitrary: u h)
  case (Cons e es)
  have "paced T0 (fst e) p c (health_step p c opts e h)"
    using Cons.prems by (intro paced_step [where u = u and N = N]) auto
  from Cons.IH [OF this] show ?case using Cons.prems by (auto simp: health_run_def)
qed (auto simp: health_run_def)

section \<open>Properties\<close>

text \<open>C28. One failing account does not take its provider down in a burst: whatever mix of failures (network errors and queue timeouts
  included), successes, sweeps and queries one connection of a provider produces, the provider's breaker is not open as long as
  the run lasts less than the deduplication window times one less than the breaker's threshold.\<close>

theorem one_connection_cannot_trip_in_a_burst:
  assumes "o_failureThreshold opts = Some N" and "unseen_provider p (no_health db)" and "p \<noteq> []" and "c \<noteq> []"
    and "0 < T0" and "sorted (T0 # map fst es)"
    and "\<forall>t\<in>set (map fst es). t < T0 + CONNECTION_FAILURE_DEDUP_MS * (N - 1)"
  shows "\<not> fst (breaker_open now p (health_run p c opts es (no_health db)))"
proof -
  have "paced T0 T0 p c (no_health db)"
    using assms(2) by (auto simp: paced_def calm_def no_health_def intro!: exI [of _ 0])
  from paced_run [OF this assms(5) order.refl assms(6,7,1,3,4)] show ?thesis
    using calm_asked(1) [of p _ _ now] by (auto simp: paced_def)
qed

definition ex_profile :: "js_error cb_options" where
  "ex_profile = breaker_options (\<lambda>_. Inr None)
     \<lparr>bp_failureThreshold = Some 3, bp_circuitBreakerThreshold = None, bp_resetTimeoutMs = None, bp_circuitBreakerReset = None,
      bp_degradationThreshold = None, bp_maxBackoffMultiplier = None, bp_backoffEscalationCount = None\<rparr> False"

definition ex_burst :: "(int \<times> health_event) list" where
  "ex_burst = [(1, HFailed False False), (2, HFailed False False), (6001, HFailed False True), (9000, HFailed False False)]"

lemma one_connection_cannot_trip_in_a_burst_witness:
  "\<not> fst (breaker_open 9001 ''glm'' (health_run ''glm'' ''a'' ex_profile ex_burst (no_health None)))"
  by (rule one_connection_cannot_trip_in_a_burst [where N = 3 and ?T0.0 = 1])
    (simp_all add: ex_profile_def breaker_options_def unseen_provider_def no_health_def ex_burst_def CONNECTION_FAILURE_DEDUP_MS_def)

text \<open>The bound is exact: a third counted failure at its end opens the breaker.\<close>

lemma burst_bound_is_exact:
  "fst (breaker_open 10001 ''glm'' (health_run ''glm'' ''a'' ex_profile
     [(1, HFailed False False), (5001, HFailed False False), (10001, HFailed False False)] (no_health None)))"
  by (simp add: health_run_def recordProviderFailure_def breaker_failure_def breaker_open_def getCircuitBreaker_def no_health_def
      jm_has_def evictColdBreakersIfNeeded_def MAX_REGISTRY_SIZE_def new_CircuitBreaker_def restoreFromDb_def
      loadCircuitBreakerState_def ex_profile_def breaker_options_def cb_exec_defs apply_options_def getStatus_def getRetryAfterMs_def
      within_window_def CONNECTION_FAILURE_DEDUP_MS_def drop_oldest_small MAX_CONNECTION_FAILURE_DEDUP_ENTRIES_def
      jm_set_def jm_del_def jm_get_def)

end
