(* ===== verification/ComboOutcomes.thy ===== *)
theory ComboOutcomes
  imports JsString
begin

text \<open>
  What a failed combo tells its client: the outcome classes and the terminal status of \<open>open-sse/services/combo/comboErrorAggregation.ts\<close>,
  its redaction of connection identifiers, the gate for retry hints (\<open>combo/unavailableRetryGate.ts\<close>), and the decision trace
  (\<open>combo/decisionTrace.ts\<close>). The message of the formatted outcomes is a list of its parts; the punctuation between them is left out.
\<close>

section \<open>Classes of failures\<close>

datatype outcome_kind = Quality | Auth | RateLimited | Model | Provider | Timeout | Skipped | Upstream

record combo_error =
  ce_model :: string
  ce_status :: int
  ce_error :: string
  ce_kind :: outcome_kind

text \<open>A pattern of literal characters and optional single characters, tried at every position; a dot does not match a line end.\<close>

datatype pattern_item = Lit char | OptAny

fun pattern_at :: "pattern_item list \<Rightarrow> string \<Rightarrow> bool" where
  "pattern_at [] s = True"
| "pattern_at (Lit c # ps) [] = False"
| "pattern_at (Lit c # ps) (x # s) = (x = c \<and> pattern_at ps s)"
| "pattern_at (OptAny # ps) [] = pattern_at ps []"
| "pattern_at (OptAny # ps) (x # s) = (pattern_at ps (x # s) \<or> x \<notin> {CHR 0x0A, CHR 0x0D} \<and> pattern_at ps s)"

fun pattern_in :: "pattern_item list \<Rightarrow> string \<Rightarrow> bool" where
  "pattern_in ps [] = pattern_at ps []"
| "pattern_in ps (x # s) = (pattern_at ps (x # s) \<or> pattern_in ps s)"

definition lits :: "string \<Rightarrow> pattern_item list" where
  "lits = map Lit"

text \<open>The alternatives of the expression that recognises authentication errors, in lower case.\<close>

definition auth_patterns :: "pattern_item list list" where
  "auth_patterns =
     [lits ''invalid'' @ OptAny # lits ''api'' @ OptAny # lits ''key'', lits ''unauthorized'', lits ''not'' @ OptAny # lits ''authorized'',
      lits ''authentication'', lits ''authorization'', lits ''auth'']"

definition classifyComboOutcome :: "int \<Rightarrow> string \<Rightarrow> outcome_kind" where
  "classifyComboOutcome status errorText =
     (if status = 401 \<or> status = 403 \<or> (\<exists>ps\<in>set auth_patterns. pattern_in ps (toLowerCase errorText)) then Auth
      else if status = 429 then RateLimited
      else if status = 408 \<or> status = 499 then Timeout
      else if status \<ge> 500 then Provider
      else Model)"

definition resolveComboTerminalStatus :: "combo_error list \<Rightarrow> int \<Rightarrow> int" where
  "resolveComboTerminalStatus entries fallbackStatus =
     (if entries = [] then fallbackStatus
      else if \<forall>e\<in>set entries. ce_kind e = Model \<and> ce_status e \<ge> 400 \<and> ce_status e < 500 then ce_status (last entries)
      else if card (set (map ce_kind entries)) = 1 then ce_status (last entries)
      else if \<exists>e\<in>set entries. ce_kind e = Timeout then 504 else 502)"

definition isRetryAfterEligibleStatus :: "int option \<Rightarrow> bool" where
  "isRetryAfterEligibleStatus status \<longleftrightarrow> status = Some 429 \<or> status = Some 503"

section \<open>Redaction\<close>

definition is_hex :: "char \<Rightarrow> bool" where
  "is_hex c \<longleftrightarrow> (let n = of_char c :: nat in 48 \<le> n \<and> n \<le> 57 \<or> 65 \<le> n \<and> n \<le> 70 \<or> 97 \<le> n \<and> n \<le> 102)"

definition is_word :: "char \<Rightarrow> bool" where
  "is_word c \<longleftrightarrow> (let n = of_char c :: nat in 48 \<le> n \<and> n \<le> 57 \<or> 65 \<le> n \<and> n \<le> 90 \<or> 97 \<le> n \<and> n \<le> 122 \<or> n = 95)"

text \<open>The end of a word after the given prefix: the next character is no word character.\<close>

definition ends_word :: "string \<Rightarrow> bool" where
  "ends_word s \<longleftrightarrow> (case s of [] \<Rightarrow> True | c # _ \<Rightarrow> \<not> is_word c)"

definition hex_group :: "nat \<Rightarrow> string \<Rightarrow> bool" where
  "hex_group n s \<longleftrightarrow> length s = n \<and> list_all is_hex s"

definition uuid_at :: "string \<Rightarrow> bool" where
  "uuid_at s \<longleftrightarrow>
     (let t = take 36 s
      in hex_group 8 (take 8 t) \<and> take 1 (drop 8 t) = ''-'' \<and> hex_group 4 (take 4 (drop 9 t)) \<and> take 1 (drop 13 t) = ''-''
         \<and> hex_group 4 (take 4 (drop 14 t)) \<and> take 1 (drop 18 t) = ''-'' \<and> hex_group 4 (take 4 (drop 19 t))
         \<and> take 1 (drop 23 t) = ''-'' \<and> hex_group 12 (drop 24 t) \<and> ends_word (drop 36 s))"

definition hex_run_at :: "string \<Rightarrow> bool" where
  "hex_run_at s \<longleftrightarrow> length (takeWhile is_hex s) \<ge> 16 \<and> ends_word (dropWhile is_hex s)"

definition short_label :: "string \<Rightarrow> string" where
  "short_label s = ''conn:'' @ take 8 s"

text \<open>The two replacements; the flag says whether the character before is a word character, so that no word starts here.\<close>

function redact_uuids :: "bool \<Rightarrow> string \<Rightarrow> string" where
  "redact_uuids inWord s =
     (case s of
        [] \<Rightarrow> []
      | c # cs \<Rightarrow> if \<not> inWord \<and> uuid_at s then short_label s @ redact_uuids True (drop 36 s)
                  else c # redact_uuids (is_word c) cs)"
  by pat_completeness auto
termination
  by (relation "measure (\<lambda>(_, s). length s)") auto

function redact_runs :: "bool \<Rightarrow> string \<Rightarrow> string" where
  "redact_runs inWord s =
     (case s of
        [] \<Rightarrow> []
      | c # cs \<Rightarrow> if \<not> inWord \<and> hex_run_at s then short_label s @ redact_runs True (dropWhile is_hex s)
                  else c # redact_runs (is_word c) cs)"
  by pat_completeness auto
termination
proof (relation "measure (\<lambda>(_, s). length s)")
  fix inWord :: bool and s cs :: string and c
  assume "s = c # cs" and "\<not> inWord \<and> hex_run_at s"
  then have "is_hex c" by (auto simp: hex_run_at_def split: if_splits)
  then show "((True, dropWhile is_hex s), inWord, s) \<in> measure (\<lambda>(_, s). length s)"
    using \<open>s = c # cs\<close> length_dropWhile_le [of is_hex cs] by simp
qed auto

declare redact_uuids.simps [simp del] redact_runs.simps [simp del]

definition redactConnectionLabel :: "string option \<Rightarrow> string" where
  "redactConnectionLabel modelStr =
     (let label = (case modelStr of None \<Rightarrow> ''unknown'' | Some m \<Rightarrow> if m = [] then ''unknown'' else m)
      in redact_runs False (redact_uuids False label))"

text \<open>A line of the message: label, class, reason and status; and how many outcomes are not shown.\<close>

type_synonym outcome_line = "string \<times> outcome_kind \<times> string \<times> int"

definition or_http :: "combo_error \<Rightarrow> string" where
  "or_http e = (if ce_error e = [] then ''HTTP '' @ show_nat (nat (ce_status e)) else ce_error e)"

definition formatComboOutcomes :: "combo_error list \<Rightarrow> outcome_line list \<times> nat" where
  "formatComboOutcomes entries =
     (map (\<lambda>e. (redactConnectionLabel (Some (ce_model e)), ce_kind e, redactConnectionLabel (Some (or_http e)), ce_status e)) (take 5 entries),
      length entries - 5)"

definition buildRedactedSummary :: "combo_error list \<Rightarrow> (string \<times> int) list \<times> nat" where
  "buildRedactedSummary entries =
     (map (\<lambda>e. (redactConnectionLabel (Some (ce_model e)), ce_status e)) (take 5 entries), length entries - 5)"

section \<open>The decision trace\<close>

definition TRACE_TTL_MS :: int where "TRACE_TTL_MS = 30 * 60 * 1000"
definition MAX_TRACES :: nat where "MAX_TRACES = 2000"

datatype skip_reason = CircuitOpen | ProviderCooldownSkip | RequestExhaustion | ModelLockout | QuotaCutoff | Availability
  | CredentialGate | ConcurrencyCap | AdmissionLane | PredictiveTtft

datatype combo_decision = Dispatched | SkippedBefore skip_reason | NotReached

record trace_entry =
  te_step :: string
  te_target :: string
  te_decision :: combo_decision
  te_ts :: int

record combo_trace =
  ctr_createdAt :: int
  ctr_decisions :: "trace_entry list"
  ctr_terminal :: "int option"

type_synonym trace_store = "(string, combo_trace) jsmap"

definition pruneExpiredTraces :: "int \<Rightarrow> trace_store \<Rightarrow> trace_store" where
  "pruneExpiredTraces now m = filter (\<lambda>(_, t). \<not> now - ctr_createdAt t > TRACE_TTL_MS) m"

text \<open>The first trace with the least creation time among those that qualify.\<close>

fun oldest_trace :: "(combo_trace \<Rightarrow> bool) \<Rightarrow> trace_store \<Rightarrow> (string \<times> combo_trace) option \<Rightarrow> (string \<times> combo_trace) option" where
  "oldest_trace P [] best = best"
| "oldest_trace P ((k, t) # m) best =
     oldest_trace P m
       (if P t \<and> (case best of None \<Rightarrow> True | Some (_, b) \<Rightarrow> ctr_createdAt t < ctr_createdAt b) then Some (k, t) else best)"

definition startComboTrace :: "int \<Rightarrow> string \<Rightarrow> trace_store \<Rightarrow> trace_store" where
  "startComboTrace now invocationId m0 =
     (let m = pruneExpiredTraces now m0;
          m1 = (if length m \<ge> MAX_TRACES
                then (case oldest_trace (\<lambda>t. ctr_terminal t \<noteq> None) m None of
                        Some (k, _) \<Rightarrow> jm_del k m
                      | None \<Rightarrow> (case oldest_trace (\<lambda>_. True) m None of Some (k, _) \<Rightarrow> jm_del k m | None \<Rightarrow> m))
                else m)
      in if jm_has m1 invocationId then m1
         else jm_set invocationId \<lparr>ctr_createdAt = now, ctr_decisions = [], ctr_terminal = None\<rparr> m1)"

definition recordComboDecision :: "int \<Rightarrow> string \<Rightarrow> string \<Rightarrow> combo_decision \<Rightarrow> combo_trace \<Rightarrow> combo_trace" where
  "recordComboDecision now step target d t =
     t\<lparr>ctr_decisions := ctr_decisions t @ [\<lparr>te_step = step, te_target = target, te_decision = d, te_ts = now\<rparr>]\<rparr>"

definition finishComboTrace :: "int \<Rightarrow> combo_trace \<Rightarrow> combo_trace" where
  "finishComboTrace status t = t\<lparr>ctr_terminal := Some status\<rparr>"

definition finalizeComboTrace :: "int \<Rightarrow> (string \<times> string) list \<Rightarrow> combo_trace \<Rightarrow> combo_trace" where
  "finalizeComboTrace now targets t =
     (let decided = map te_step (ctr_decisions t)
      in t\<lparr>ctr_decisions := ctr_decisions t @
             map (\<lambda>(k, m). \<lparr>te_step = k, te_target = m, te_decision = NotReached, te_ts = now\<rparr>) (filter (\<lambda>(k, _). k \<notin> set decided) targets)\<rparr>)"

definition getComboTrace :: "int \<Rightarrow> string \<Rightarrow> trace_store \<Rightarrow> combo_trace option \<times> trace_store" where
  "getComboTrace now invocationId m =
     (case jm_get m invocationId of
        None \<Rightarrow> (None, m)
      | Some t \<Rightarrow> if now - ctr_createdAt t > TRACE_TTL_MS then (None, jm_del invocationId m) else (Some t, m))"

section \<open>The classes\<close>

text \<open>Any text that mentions \<open>auth\<close> counts as an authentication error.\<close>

lemma pattern_at_lits: "pattern_at (lits p) s \<longleftrightarrow> prefix p s"
proof (induction p arbitrary: s)
  case (Cons c p)
  then show ?case by (cases s) (auto simp: lits_def)
qed (simp add: lits_def)

lemma pattern_in_lits: "pattern_in (lits p) s \<longleftrightarrow> str_includes s p"
proof (induction s)
  case Nil
  then show ?case by (auto simp: pattern_at_lits)
next
  case (Cons x s)
  then show ?case by (simp add: pattern_at_lits del: pattern_at.simps)
qed

lemma author_is_an_auth_error: "classifyComboOutcome 500 ''author must be a string'' = Auth"
  by code_simp

section \<open>No identifier survives the redaction\<close>

fun no_hex_word :: "bool \<Rightarrow> string \<Rightarrow> bool" where
  "no_hex_word inWord [] = True"
| "no_hex_word inWord (c # cs) = ((inWord \<or> \<not> hex_run_at (c # cs)) \<and> no_hex_word (is_word c) cs)"

lemma hex_is_word: "is_hex c \<Longrightarrow> is_word c"
  by (auto simp: is_hex_def is_word_def Let_def)

lemma redact_runs_simps [simp]:
  "redact_runs w [] = []"
  "w \<Longrightarrow> redact_runs w (c # cs) = c # redact_runs (is_word c) cs"
  by (subst redact_runs.simps; simp)+

lemma redact_runs_match: "hex_run_at s \<Longrightarrow> redact_runs False s = short_label s @ redact_runs True (dropWhile is_hex s)"
  by (subst redact_runs.simps) (auto simp: hex_run_at_def split: list.splits)

lemma redact_runs_keep: "\<not> hex_run_at (c # cs) \<Longrightarrow> redact_runs False (c # cs) = c # redact_runs (is_word c) cs"
  by (subst redact_runs.simps) simp

text \<open>Inside a word nothing is replaced, so the rest of a run and its end are what they were.\<close>

lemma redact_in_word:
  "takeWhile is_hex (redact_runs True s) = takeWhile is_hex s"
  "ends_word (dropWhile is_hex (redact_runs True s)) = ends_word (dropWhile is_hex s)"
proof (induction s)
  case (Cons c cs)
  {
    case 1
    then show ?case using Cons by (auto simp: hex_is_word)
  next
    case 2
    then show ?case using Cons by (auto simp: hex_is_word ends_word_def)
  }
qed simp_all

lemma ends_word_redacted: "ends_word t \<Longrightarrow> ends_word (redact_runs True t)"
  by (cases t) (simp_all add: ends_word_def)

lemma hex_run_redacted: "hex_run_at (c # redact_runs (is_word c) cs) \<longleftrightarrow> hex_run_at (c # cs)"
proof (cases "is_hex c")
  case True
  then show ?thesis by (simp add: hex_run_at_def redact_in_word hex_is_word)
next
  case False
  then show ?thesis by (simp add: hex_run_at_def)
qed

lemma no_hex_word_label:
  assumes "list_all is_hex h" and "length h \<le> 8" and "no_hex_word True t" and "ends_word t"
  shows "no_hex_word False (''conn:'' @ h @ t)"
proof -
  have inside: "no_hex_word True (h @ t)" if "list_all is_hex h" for h
    using that assms(3) by (induction h) (auto simp: hex_is_word)
  have "takeWhile is_hex (h @ t) = h" using assms(1,4) by (cases t) (auto simp: ends_word_def takeWhile_append list_all_iff dest: hex_is_word)
  then have "\<not> hex_run_at (h @ t)" using assms(2) by (simp add: hex_run_at_def)
  then have "no_hex_word False (h @ t)"
    using assms inside [of "tl h"] by (cases h) (auto simp: hex_is_word ends_word_def hex_run_at_def dest: hex_is_word split: list.splits)
  moreover have "\<not> is_word (CHR '':'')" "is_hex (CHR ''c'')" "\<not> is_hex (CHR ''o'')" by (simp_all add: is_word_def is_hex_def)
  ultimately show ?thesis by (simp add: hex_run_at_def is_word_def)
qed

lemma redact_runs_clean: "no_hex_word inWord (redact_runs inWord s)"
proof (induction inWord s rule: redact_runs.induct)
  case (1 inWord s)
  show ?case
  proof (cases s)
    case (Cons c cs)
    show ?thesis
    proof (cases "\<not> inWord \<and> hex_run_at s")
      case True
      let ?rest = "dropWhile is_hex s"
      have "no_hex_word True (redact_runs True ?rest)" using 1(1) [OF Cons True] .
      moreover have "ends_word (redact_runs True ?rest)" using True by (intro ends_word_redacted) (simp add: hex_run_at_def)
      moreover have "list_all is_hex (take 8 s)"
      proof -
        have "take 8 s = take 8 (takeWhile is_hex s @ dropWhile is_hex s)" by simp
        also have "\<dots> = take 8 (takeWhile is_hex s)" using True by (simp add: hex_run_at_def del: takeWhile_dropWhile_id)
        finally have "take 8 s = take 8 (takeWhile is_hex s)" .
        then show ?thesis by (auto simp: list_all_iff dest!: in_set_takeD set_takeWhileD)
      qed
      ultimately show ?thesis using True no_hex_word_label [of "take 8 s"] by (simp add: redact_runs_match short_label_def)
    next
      case False
      then have "redact_runs inWord s = c # redact_runs (is_word c) cs" using Cons redact_runs_keep by (cases inWord) auto
      moreover have "no_hex_word (is_word c) (redact_runs (is_word c) cs)" using 1(2) [OF Cons False] .
      ultimately show ?thesis using False Cons hex_run_redacted by auto
    qed
  qed simp
qed

section \<open>Every identifier is cut\<close>

lemma all_less_add: "(\<forall>i<m + n. P i) \<longleftrightarrow> (\<forall>i<m. P i) \<and> (\<forall>j<n. P (m + j))" for m n :: nat
  by (auto simp: less_diff_conv2) (metis add_diff_inverse_nat nat_add_left_cancel_less)

definition uuid_char :: "nat \<Rightarrow> char \<Rightarrow> bool" where
  "uuid_char i c \<longleftrightarrow> (if i = 8 \<or> i = 13 \<or> i = 18 \<or> i = 23 then c = CHR ''-'' else is_hex c)"

lemma uuid_at_nth:
  "uuid_at s \<longleftrightarrow> 36 \<le> length s \<and> (\<forall>i<36. uuid_char i (s ! i)) \<and> ends_word (drop 36 s)"
proof (cases "36 \<le> length s")
  case True
  let ?t = "take 36 s"
  have one: "take (Suc 0) (drop i ?t) = ''-'' \<longleftrightarrow> s ! i = CHR ''-''" if "i < 36" for i
    using that True by (cases "drop i s") (auto simp: drop_take take_Suc_conv_app_nth take_Cons' nth_via_drop simp flip: hd_drop_conv_nth)
  have grp: "hex_group n (take n (drop i ?t)) \<longleftrightarrow> (\<forall>j<n. is_hex (s ! (i + j)))" if "i + n \<le> 36" for i n
    using that True by (auto simp: hex_group_def list_all_length)
  have ends: "hex_group 12 (drop 24 ?t) \<longleftrightarrow> (\<forall>j<12. is_hex (s ! (24 + j)))" "hex_group 8 (take 8 ?t) \<longleftrightarrow> (\<forall>j<8. is_hex (s ! j))"
    using grp [of 24 12] grp [of 0 8] by simp_all
  have all: "(\<forall>i<36. P i) \<longleftrightarrow> (\<forall>j<8. P (0 + j)) \<and> P 8 \<and> (\<forall>j<4. P (9 + j)) \<and> P 13 \<and> (\<forall>j<4. P (14 + j)) \<and> P 18
      \<and> (\<forall>j<4. P (19 + j)) \<and> P 23 \<and> (\<forall>j<12. P (24 + j))" for P :: "nat \<Rightarrow> bool"
    using all_less_add [of 8 28 P] all_less_add [of 1 27 "\<lambda>i. P (8 + i)"] all_less_add [of 4 23 "\<lambda>i. P (9 + i)"]
      all_less_add [of 1 22 "\<lambda>i. P (13 + i)"] all_less_add [of 4 18 "\<lambda>i. P (14 + i)"] all_less_add [of 1 17 "\<lambda>i. P (18 + i)"]
      all_less_add [of 4 13 "\<lambda>i. P (19 + i)"] all_less_add [of 1 12 "\<lambda>i. P (23 + i)"]
    by (simp add: add.assoc [symmetric])
  have "uuid_at s \<longleftrightarrow> (\<forall>i<36. uuid_char i (s ! i)) \<and> ends_word (drop 36 s)"
    unfolding uuid_at_def Let_def all by (simp add: one grp ends uuid_char_def cong: conj_cong del: take_take drop_drop)
  then show ?thesis using True by simp
next
  case False
  then show ?thesis by (auto simp: uuid_at_def hex_group_def Let_def)
qed

text \<open>A whole identifier, and a text whose last character is a word character.\<close>

definition uuid :: "string \<Rightarrow> bool" where
  "uuid u \<longleftrightarrow> length u = 36 \<and> uuid_at u"

definition in_word :: "string \<Rightarrow> bool" where
  "in_word s \<longleftrightarrow> s \<noteq> [] \<and> is_word (last s)"

lemma dash_facts [simp]: "\<not> is_hex (CHR ''-'')" "\<not> is_word (CHR ''-'')"
  by (simp_all add: is_hex_def is_word_def)

lemma uuid_chars: "uuid u \<Longrightarrow> i < 36 \<Longrightarrow> uuid_char i (u ! i)"
  by (simp add: uuid_def uuid_at_nth)

lemma uuid_found: "uuid u \<Longrightarrow> ends_word post \<Longrightarrow> uuid_at (u @ post)"
  by (auto simp: uuid_def uuid_at_nth nth_append)

text \<open>No match reaches into an identifier at the beginning of a word.\<close>

lemma match_before_uuid:
  assumes "uuid u" and "p \<noteq> []" and "\<not> in_word p"
  shows "uuid_at (p @ u @ post) = uuid_at p" and "uuid_at p \<Longrightarrow> 36 < length p"
proof -
  let ?s = "p @ u @ post"
  have last: "?s ! (length p - 1) = last p" "p ! (length p - 1) = last p" using assms(2) by (simp_all add: nth_append last_conv_nth)
  have nw: "\<not> is_hex (last p)" "\<not> is_word (last p)" using assms(2,3) hex_is_word by (auto simp: in_word_def)
  show long: "36 < length p" if "uuid_at p"
  proof (rule ccontr)
    assume "\<not> 36 < length p"
    then have "length p = 36" using that by (simp add: uuid_at_nth)
    moreover have "uuid_char 35 (p ! 35)" using that unfolding uuid_at_nth by (elim conjE allE [of _ 35]) simp
    ultimately have "uuid_char 35 (last p)" using last(2) by simp
    then show False using nw by (simp add: uuid_char_def)
  qed
  show "uuid_at ?s = uuid_at p"
  proof (cases "36 < length p")
    case True
    then show ?thesis by (cases "drop 36 p") (auto simp: uuid_at_nth nth_append ends_word_def)
  next
    case False
    have "\<not> uuid_at ?s"
    proof
      assume "uuid_at ?s"
      then have c: "uuid_char i (?s ! i)" if "i < 36" for i using that by (simp add: uuid_at_nth)
      have n: "length p - 1 < 36" using False by simp
      have "uuid_char (length p - 1) (last p)" using c [OF n] last(1) by simp
      then have "length p - 1 \<in> {8, 13, 18, 23}" using nw by (auto simp: uuid_char_def split: if_splits)
      then consider "length p = 9" | "length p = 14" | "length p = 19" | "length p = 24" by auto
      then show False
        using c [of 13] c [of 18] c [of 23] c [of 32] uuid_chars [OF assms(1), of 4] uuid_chars [OF assms(1), of 8] assms(1)
        by cases (auto simp: uuid_char_def nth_append uuid_def)
    qed
    then show ?thesis using long False by blast
  qed
qed

lemma redact_uuids_simps [simp]:
  "redact_uuids w [] = []"
  "redact_uuids True (c # cs) = c # redact_uuids (is_word c) cs"
  "redact_uuids w s = [] \<longleftrightarrow> s = []"
  by (subst redact_uuids.simps; simp add: short_label_def split: list.split)+

lemma redact_uuids_match: "uuid_at s \<Longrightarrow> redact_uuids False s = short_label s @ redact_uuids True (drop 36 s)"
  by (subst redact_uuids.simps) (auto simp: uuid_at_nth split: list.splits)

lemma redact_uuids_keep: "w \<or> \<not> uuid_at (c # cs) \<Longrightarrow> redact_uuids w (c # cs) = c # redact_uuids (is_word c) cs"
  by (subst redact_uuids.simps) auto

lemma redact_uuids_split:
  assumes "uuid u" and "ends_word post" and "\<not> in_word pre" and "w \<Longrightarrow> pre \<noteq> []"
  shows "redact_uuids w (pre @ u @ post) = redact_uuids w pre @ short_label u @ redact_uuids True post
    \<and> \<not> in_word (redact_uuids w pre)"
  using assms(3,4)
proof (induction w pre rule: redact_uuids.induct)
  case (1 w pre)
  show ?case
  proof (cases pre)
    case Nil
    then show ?thesis using 1(4) redact_uuids_match [OF uuid_found [OF assms(1,2)]] assms(1)
      by (cases w) (auto simp: uuid_def short_label_def in_word_def)
  next
    case (Cons c cs)
    show ?thesis
    proof (cases "\<not> w \<and> uuid_at pre")
      case True
      have long: "36 < length pre" using match_before_uuid(2) [OF assms(1) _ 1(3)] True Cons by simp
      have rest: "\<not> in_word (drop 36 pre)" "drop 36 pre \<noteq> []" using 1(3) long Cons by (simp_all add: in_word_def split: if_splits)
      note IH = 1(1) [OF Cons True rest(1) rest(2)]
      have "uuid_at (pre @ u @ post)" using match_before_uuid(1) [OF assms(1) _ 1(3)] True Cons by simp
      then have "redact_uuids False (pre @ u @ post) = short_label pre @ redact_uuids True (drop 36 pre @ u @ post)"
        using redact_uuids_match long by (simp add: short_label_def)
      then show ?thesis using True IH rest(2) by (simp add: redact_uuids_match in_word_def)
    next
      case False
      then have k: "w \<or> \<not> uuid_at (c # cs)" "w \<or> \<not> uuid_at (c # cs @ u @ post)"
        using match_before_uuid(1) [OF assms(1) _ 1(3), of post] Cons by auto
      have rest: "\<not> in_word cs" "is_word c \<Longrightarrow> cs \<noteq> []" using 1(3) Cons by (auto simp: in_word_def split: if_splits)
      note IH = 1(2) [OF Cons False rest]
      show ?thesis using IH rest 1(3) Cons k by (auto simp: redact_uuids_keep in_word_def)
    qed
  qed
qed

text \<open>Where a word ends, the replacement of runs starts afresh.\<close>

lemma redact_runs_split:
  assumes "\<not> in_word a" and "w \<Longrightarrow> a \<noteq> []"
  shows "redact_runs w (a @ x) = redact_runs w a @ redact_runs False x"
  using assms
proof (induction w a rule: redact_runs.induct)
  case (1 w a)
  show ?case
  proof (cases a)
    case Nil
    then show ?thesis using 1(4) by (cases w) auto
  next
    case (Cons c cs)
    obtain y where y: "y \<in> set a" "\<not> is_hex y" using 1(3) Cons hex_is_word by (metis in_word_def last_in_set list.distinct(1))
    then have tw: "takeWhile is_hex (a @ x) = takeWhile is_hex a" "dropWhile is_hex (a @ x) = dropWhile is_hex a @ x"
      by (simp_all add: takeWhile_append1 dropWhile_append1)
    have ne: "dropWhile is_hex a \<noteq> []" using y by auto
    then have run: "hex_run_at (a @ x) = hex_run_at a"
      by (cases "dropWhile is_hex a") (simp_all add: hex_run_at_def tw ends_word_def)
    show ?thesis
    proof (cases "\<not> w \<and> hex_run_at a")
      case True
      have "last a = last (dropWhile is_hex a)" using ne by (metis last_appendR takeWhile_dropWhile_id)
      then have "\<not> in_word (dropWhile is_hex a)" using 1(3) Cons by (simp add: in_word_def split: if_splits)
      note IH = 1(1) [OF Cons True this ne]
      have "16 \<le> length a" using True length_takeWhile_le [of is_hex a] by (simp add: hex_run_at_def)
      then show ?thesis using True IH run by (simp add: redact_runs_match tw short_label_def)
    next
      case False
      have rest: "\<not> in_word cs" "is_word c \<Longrightarrow> cs \<noteq> []" using 1(3) Cons by (auto simp: in_word_def split: if_splits)
      note IH = 1(2) [OF Cons False rest]
      have "redact_runs w (c # cs @ z) = c # redact_runs (is_word c) (cs @ z)" if "w \<or> \<not> hex_run_at (c # cs @ z)" for z
        using that redact_runs_keep by (cases w) auto
      from this [of "[]"] this [of x] show ?thesis using IH False run Cons by auto
    qed
  qed
qed

lemma redact_runs_hex: "list_all is_hex h \<Longrightarrow> redact_runs True (h @ b) = h @ redact_runs True b"
  by (induction h) (simp_all add: hex_is_word)

lemma redact_runs_label:
  assumes "list_all is_hex h" and "h \<noteq> []" and "length h < 16" and "ends_word b"
  shows "redact_runs False (''conn:'' @ h @ b) = ''conn:'' @ h @ redact_runs True b"
proof -
  have "takeWhile is_hex (h @ b) = h" using assms(1,4) by (cases b) (auto simp: ends_word_def takeWhile_append list_all_iff dest: hex_is_word)
  then have "redact_runs False (h @ b) = h @ redact_runs True b"
    using assms redact_runs_hex [of "tl h" b] by (cases h) (auto simp: hex_run_at_def hex_is_word redact_runs_keep)
  moreover have "\<not> hex_run_at (''conn:'' @ z)" for z by (simp add: hex_run_at_def is_hex_def)
  then have "redact_runs False (''conn:'' @ z) = ''conn:'' @ redact_runs False z" for z
    using redact_runs_keep [of "CHR ''c''" "''onn:'' @ z"] by (simp add: is_word_def)
  ultimately show ?thesis by simp
qed

definition redacted :: "bool \<Rightarrow> string \<Rightarrow> string" where
  "redacted w s = redact_runs w (redact_uuids w s)"

lemma redacted_uuid:
  assumes "uuid u" and "ends_word post" and "\<not> in_word pre"
  shows "redacted False (pre @ u @ post) = redacted False pre @ ''conn:'' @ take 8 u @ redacted True post"
proof -
  have h: "list_all is_hex (take 8 u)" "length (take 8 u) = 8"
    using uuid_chars [OF assms(1)] assms(1) by (auto simp: list_all_length uuid_char_def uuid_def)
  have b: "ends_word (redact_uuids True post)" using assms(2) by (cases post) (auto simp: ends_word_def)
  have "redact_uuids False (pre @ u @ post) = redact_uuids False pre @ ''conn:'' @ take 8 u @ redact_uuids True post"
    and "\<not> in_word (redact_uuids False pre)"
    using redact_uuids_split [OF assms(1,2,3)] by (simp_all add: short_label_def)
  moreover have "redact_runs False (''conn:'' @ take 8 u @ redact_uuids True post) = ''conn:'' @ take 8 u @ redact_runs True (redact_uuids True post)"
    by (rule redact_runs_label [OF h(1) _ _ b]) (use h(2) in auto)
  ultimately show ?thesis by (simp only: redacted_def redact_runs_split simp_thms)
qed

section \<open>The trace store\<close>

lemma oldest_trace_in: "oldest_trace P m best = Some (k, t) \<Longrightarrow> best = Some (k, t) \<or> (k, t) \<in> set m \<and> P t"
  by (induction P m best rule: oldest_trace.induct) (auto split: if_splits option.splits)

lemma oldest_trace_None: "oldest_trace P m best = None \<Longrightarrow> best = None \<and> (\<forall>p\<in>set m. \<not> P (snd p))"
  by (induction P m best rule: oldest_trace.induct) (auto split: if_splits option.splits)

lemma trace_evicted_length: "(k, t) \<in> set m \<Longrightarrow> length (jm_del k m) < length m"
  by (induction m) (auto simp: jm_del_def le_imp_less_Suc)

definition with_room :: "trace_store \<Rightarrow> trace_store" where
  "with_room m =
     (if length m \<ge> MAX_TRACES
      then (case oldest_trace (\<lambda>t. ctr_terminal t \<noteq> None) m None of
              Some (k, _) \<Rightarrow> jm_del k m
            | None \<Rightarrow> (case oldest_trace (\<lambda>_. True) m None of Some (k, _) \<Rightarrow> jm_del k m | None \<Rightarrow> m))
      else m)"

lemma startComboTrace_alt:
  "startComboTrace now i m =
     (let m1 = with_room (pruneExpiredTraces now m)
      in if jm_has m1 i then m1 else jm_set i \<lparr>ctr_createdAt = now, ctr_decisions = [], ctr_terminal = None\<rparr> m1)"
  by (simp add: startComboTrace_def with_room_def Let_def)

lemma with_room_length: "length m \<le> MAX_TRACES \<Longrightarrow> length (with_room m) < MAX_TRACES"
proof (cases "length m \<ge> MAX_TRACES")
  case True
  assume le: "length m \<le> MAX_TRACES"
  have "m \<noteq> []" using True by (auto simp: MAX_TRACES_def)
  have "\<exists>k t. (k, t) \<in> set m \<and> with_room m = jm_del k m"
  proof (cases "oldest_trace (\<lambda>t. ctr_terminal t \<noteq> None) m None")
    case (Some p)
    then show ?thesis using True oldest_trace_in [of _ m None "fst p" "snd p"] by (cases p) (auto simp: with_room_def)
  next
    case None
    have "\<exists>p. p \<in> set m" using \<open>m \<noteq> []\<close> by (cases m) auto
    then obtain q where "oldest_trace (\<lambda>_. True) m None = Some q"
      using oldest_trace_None [of "\<lambda>_. True" m None] by blast
    then show ?thesis using True None oldest_trace_in [of _ m None "fst q" "snd q"] by (cases q) (auto simp: with_room_def)
  qed
  then show ?thesis using le trace_evicted_length by fastforce
next
  case False
  then show ?thesis by (simp add: with_room_def)
qed

section \<open>Properties\<close>

text \<open>The store of decision traces stays within its bound, and starting a trace drops a live trace that has not ended only
  when no ended one is left to drop.\<close>

theorem traces_are_bounded:
  assumes "length m \<le> MAX_TRACES" and "jm_ok m"
  shows "length (startComboTrace now i m) \<le> MAX_TRACES
    \<and> (\<forall>k t. jm_get m k = Some t \<and> ctr_terminal t = None \<and> now - ctr_createdAt t \<le> TRACE_TTL_MS
         \<and> jm_get (startComboTrace now i m) k = None
       \<longrightarrow> (\<forall>p\<in>set (pruneExpiredTraces now m). ctr_terminal (snd p) = None))"
proof (intro conjI allI impI)
  let ?m = "pruneExpiredTraces now m"
  have len: "length ?m \<le> MAX_TRACES" using assms(1) by (auto simp: pruneExpiredTraces_def intro: order_trans [OF length_filter_le])
  then show "length (startComboTrace now i m) \<le> MAX_TRACES"
    using with_room_length [OF len] by (simp add: startComboTrace_alt length_jm_set Let_def)
  fix k t
  assume t: "jm_get m k = Some t \<and> ctr_terminal t = None \<and> now - ctr_createdAt t \<le> TRACE_TTL_MS
    \<and> jm_get (startComboTrace now i m) k = None"
  have live: "jm_get ?m k = Some t" using t assms(2) by (auto simp: pruneExpiredTraces_def jm_get_filter)
  then have gone: "jm_get (with_room ?m) k = None"
    using t by (auto simp: startComboTrace_alt Let_def split: if_splits)
  have ok: "jm_ok ?m" using assms(2) by (simp add: pruneExpiredTraces_def jm_ok_filter)
  show "\<forall>p\<in>set ?m. ctr_terminal (snd p) = None"
  proof (cases "oldest_trace (\<lambda>t. ctr_terminal t \<noteq> None) ?m None")
    case None
    from oldest_trace_None [OF None] show ?thesis by simp
  next
    case (Some p)
    obtain k' t' where p: "p = (k', t')" by force
    have "(k', t') \<in> set ?m" "ctr_terminal t' \<noteq> None" using oldest_trace_in Some p by fastforce+
    then have "jm_get ?m k' = Some t'" using ok by (simp add: jm_get_def jm_ok_def)
    moreover have "k' = k" using gone live Some p by (auto simp: with_room_def split: if_splits)
    ultimately show ?thesis using live t \<open>ctr_terminal t' \<noteq> None\<close> by simp
  qed
qed

lemma traces_are_bounded_witness:
  "length (startComboTrace 5 ''b'' [(''a'', \<lparr>ctr_createdAt = 0, ctr_decisions = [], ctr_terminal = None\<rparr>)]) \<le> MAX_TRACES"
  using traces_are_bounded [of "[(''a'', \<lparr>ctr_createdAt = 0, ctr_decisions = [], ctr_terminal = None\<rparr>)]" 5 "''b''"]
  by (simp add: MAX_TRACES_def jm_ok_def)

text \<open>C29. What the redaction of a label does with its identifiers. Every UUID of the label, a word on its own, is cut to its first
  eight digits, whatever stands before and after it, and these two parts are redacted in the same way; and no word of the result
  consists of sixteen or more hexadecimal digits, whatever the label was.\<close>

theorem identifiers_are_cut:
  "no_hex_word False (redactConnectionLabel label)
   \<and> (label = Some (pre @ u @ post) \<and> uuid u \<and> \<not> in_word pre \<and> ends_word post \<longrightarrow>
        redactConnectionLabel label = redacted False pre @ ''conn:'' @ take 8 u @ redacted True post)"
  using redacted_uuid [of u post pre]
  by (auto simp: redactConnectionLabel_def redact_runs_clean redacted_def uuid_def)

lemma identifiers_are_cut_witness:
  "redactConnectionLabel (Some ''acct 01234567-89ab-cdef-0123-456789abcdef, 0123456789abcdef'') = ''acct conn:01234567, conn:01234567''"
proof -
  have "uuid ''01234567-89ab-cdef-0123-456789abcdef''" "\<not> in_word ''acct ''" "ends_word '', 0123456789abcdef''"
    "redacted False ''acct '' = ''acct ''" "redacted True '', 0123456789abcdef'' = '', conn:01234567''" by code_simp+
  then show ?thesis
    using identifiers_are_cut [of "Some ''acct 01234567-89ab-cdef-0123-456789abcdef, 0123456789abcdef''" "''acct ''"
        "''01234567-89ab-cdef-0123-456789abcdef''" "'', 0123456789abcdef''"] by simp
qed

text \<open>What is left on the two sides of a cut can still read like an identifier.\<close>

lemma redaction_can_complete_a_uuid:
  "redactConnectionLabel (Some ''0123456789abcdef-1234-1234-1234-123456789012'') = ''conn:01234567-1234-1234-1234-123456789012''"
  by code_simp

text \<open>The terminal status of a failed combo is below 500 exactly when every target failed for the same kind of reason and the last
  one's status is; it is then that status. Targets that disagree give 504 if one of them timed out, and 502 otherwise.\<close>

lemma terminal_status_is_exact:
  assumes "es \<noteq> []"
  shows "resolveComboTerminalStatus es fb =
    (if \<forall>e\<in>set es. ce_kind e = ce_kind (last es) then ce_status (last es)
     else if Timeout \<in> ce_kind ` set es then 504 else 502)"
proof -
  have last: "last es \<in> set es" using assms by simp
  have one: "card (set (map ce_kind es)) = 1 \<longleftrightarrow> (\<forall>e\<in>set es. ce_kind e = ce_kind (last es))"
  proof
    assume "card (set (map ce_kind es)) = 1"
    then obtain k where "set (map ce_kind es) = {k}" by (rule card_1_singletonE)
    then show "\<forall>e\<in>set es. ce_kind e = ce_kind (last es)" using last by (metis imageI set_map singletonD)
  next
    assume "\<forall>e\<in>set es. ce_kind e = ce_kind (last es)"
    then have "set (map ce_kind es) = {ce_kind (last es)}" using last by (metis (no_types, lifting) image_cong image_constant set_map)
    then show "card (set (map ce_kind es)) = 1" by simp
  qed
  have all: "\<forall>e\<in>set es. ce_kind e = ce_kind (last es)" if "\<forall>e\<in>set es. ce_kind e = Model \<and> ce_status e \<ge> 400 \<and> ce_status e < 500"
    using that last by metis
  define S where "S = (\<forall>e\<in>set es. ce_kind e = ce_kind (last es))"
  define M where "M = (\<forall>e\<in>set es. ce_kind e = Model \<and> ce_status e \<ge> 400 \<and> ce_status e < 500)"
  have "M \<Longrightarrow> S" using all by (simp add: S_def M_def)
  then show ?thesis
    unfolding resolveComboTerminalStatus_def one S_def [symmetric] M_def [symmetric] using assms by (auto simp: image_iff)
qed

end
