(* ===== verification/ComboTargets.thy ===== *)
theory ComboTargets
  imports ProviderFailures ComboOutcomes
begin

text \<open>
  What the combo dispatcher decides about one target: the predicates of \<open>open-sse/services/combo/comboPredicates.ts\<close> and the
  exhaustion sets of \<open>combo/targetExhaustion.ts\<close>. The regular expressions over upstream error texts and the provider registries those
  functions consult are the record \<open>error_rules\<close>; the result of \<open>checkFallbackError\<close> is \<open>fallback_result\<close>. A missing connection id
  is the empty string.
\<close>

section \<open>Targets and failures\<close>

record combo_target =
  tg_executionKey :: string
  tg_modelStr :: string
  tg_rawModel :: string
  tg_provider :: string
  tg_connectionId :: string
  tg_fallbackOnlyOnQuota :: bool

record fallback_result =
  fb_shouldFallback :: bool
  fb_reason :: string
  fb_cooldownMs :: int
  fb_creditsExhausted :: bool
  fb_dailyQuotaExhausted :: bool
  fb_permanent :: bool
  fb_ruleScope :: string
  fb_skipProviderBreaker :: bool
  fb_usedUpstreamRetryHint :: bool
  fb_quotaResetHintMs :: "int option"

record error_rules =
  er_hasPerModelQuota :: "string \<Rightarrow> bool"
  er_honorsRuleLockScope :: "string \<Rightarrow> bool"
  er_isAlibabaModelStudio :: "string \<Rightarrow> bool"
  er_alibabaFreeQuota :: "string \<Rightarrow> bool"
  er_textMeansQuotaExhausted :: "string \<Rightarrow> bool"
  er_cloudflare1010 :: "string \<Rightarrow> bool"
  er_contextOverflow :: "string \<Rightarrow> bool"
  er_paramValidation :: "string \<Rightarrow> bool"
  er_modelScoped :: "string \<Rightarrow> bool"

record target_failure =
  tf_status :: int
  tf_errorText :: string
  tf_code :: "string option"
  tf_type :: "string option"
  tf_breakerHeader :: "string option"
  tf_fallback :: fallback_result
  tf_isTokenLimitBreach :: bool
  tf_allAccountsRateLimited :: bool
  tf_requestScopedFailure :: bool

record exhaustion_sets =
  xs_providers :: "string list"
  xs_connections :: "string list"
  xs_transient :: "string list"

definition no_exhaustion :: exhaustion_sets where
  "no_exhaustion = \<lparr>xs_providers = [], xs_connections = [], xs_transient = []\<rparr>"

definition connection_key :: "combo_target \<Rightarrow> string" where
  "connection_key t = tg_provider t @ '':'' @ tg_connectionId t"

section \<open>Predicates\<close>

definition MAX_GLOBAL_ATTEMPTS :: int where "MAX_GLOBAL_ATTEMPTS = 30"
definition MAX_GLOBAL_ATTEMPTS_HARD_CAP :: int where "MAX_GLOBAL_ATTEMPTS_HARD_CAP = 200"
definition MAX_FALLBACK_WAIT_MS :: int where "MAX_FALLBACK_WAIT_MS = 5000"
definition COMBO_LOOP_SAFETY_TIMEOUT_MS :: int where "COMBO_LOOP_SAFETY_TIMEOUT_MS = 10 * 60 * 1000"

text \<open>The argument is the value of \<open>Number(value)\<close>, \<open>None\<close> when it is not finite.\<close>

definition clampGlobalAttempts :: "rat option \<Rightarrow> int" where
  "clampGlobalAttempts v =
     (case v of None \<Rightarrow> MAX_GLOBAL_ATTEMPTS
      | Some q \<Rightarrow> if \<lfloor>q\<rfloor> < 1 then MAX_GLOBAL_ATTEMPTS else min \<lfloor>q\<rfloor> MAX_GLOBAL_ATTEMPTS_HARD_CAP)"

definition exhausted_target :: "combo_target \<Rightarrow> exhaustion_sets \<Rightarrow> bool" where
  "exhausted_target t x \<longleftrightarrow>
     tg_provider t \<noteq> [] \<and> tg_connectionId t \<noteq> [] \<and> connection_key t \<in> set (xs_connections x)
     \<or> tg_provider t \<noteq> [] \<and> tg_provider t \<in> set (xs_providers x)"

definition isProviderCircuitOpenResult :: "string option \<Rightarrow> string \<Rightarrow> bool" where
  "isProviderCircuitOpenResult header errorText \<longleftrightarrow>
     map_option toLowerCase header = Some ''open'' \<or> str_includes (toLowerCase errorText) ''provider_circuit_open''"

definition REQUEST_SCOPED_UPSTREAM_ERROR_CODES :: "string list" where
  "REQUEST_SCOPED_UPSTREAM_ERROR_CODES =
     [''context_length_exceeded'', ''upstream_empty_response'', ''upstream_response_failed'', ''combo_target_timeout'',
      ''rate_limit_queue_timeout'', ''rate_limit_queue_full'', ''rate_limit_queue_wedged'', ''executor_contract_violation'']"

definition lowered :: "string option \<Rightarrow> string" where
  "lowered s = (case s of None \<Rightarrow> [] | Some x \<Rightarrow> toLowerCase x)"

definition isRequestScopedUpstreamFailure :: "string option \<Rightarrow> string option \<Rightarrow> bool" where
  "isRequestScopedUpstreamFailure code type \<longleftrightarrow>
     lowered code \<in> set REQUEST_SCOPED_UPSTREAM_ERROR_CODES
     \<or> lowered type = ''context_length_exceeded'' \<or> lowered type = ''local_queue_capacity''"

definition isInputBoundRequestFailure :: "string option \<Rightarrow> string option \<Rightarrow> bool" where
  "isInputBoundRequestFailure code type \<longleftrightarrow>
     lowered code \<in> {''context_length_exceeded'', ''context_window_exceeded''} \<or> lowered type = ''context_length_exceeded''"

definition PROVIDER_BREAKER_FAILURE_STATUSES :: "int list" where
  "PROVIDER_BREAKER_FAILURE_STATUSES = [408, 500, 502, 503, 504]"

definition shouldRecordProviderBreakerFailure ::
  "bool \<Rightarrow> bool \<Rightarrow> int \<Rightarrow> bool \<Rightarrow> bool \<Rightarrow> bool \<Rightarrow> string \<Rightarrow> bool \<Rightarrow> bool" where
  "shouldRecordProviderBreakerFailure readiness earlyEof status sameProviderNext skipProviderBreaker requestScoped error proxyUnreachable \<longleftrightarrow>
     (\<not> readiness \<or> earlyEof) \<and> status \<in> set PROVIDER_BREAKER_FAILURE_STATUSES \<and> (\<not> sameProviderNext \<or> proxyUnreachable)
     \<and> \<not> skipProviderBreaker \<and> \<not> requestScoped \<and> \<not> isLocalStreamLifecycleError (ErrString error)"

text \<open>The row of a connection: its status text and whether \<open>rateLimitedUntil\<close> lies in the future.\<close>

record conn_state =
  cs_testStatus :: string
  cs_rateLimitedUntil :: "int option"

definition QUOTA_BLOCKING_CONNECTION_STATUSES :: "string list" where
  "QUOTA_BLOCKING_CONNECTION_STATUSES = [''banned'', ''credits_exhausted'', ''deactivated'', ''expired'', ''rate_limited'']"

definition hasFutureRateLimitUntil :: "int \<Rightarrow> int option \<Rightarrow> bool" where
  "hasFutureRateLimitUntil now v = (case v of None \<Rightarrow> False | Some t \<Rightarrow> t > now)"

definition normalizeConnectionStatus :: "string \<Rightarrow> string" where
  "normalizeConnectionStatus s = toLowerCase (js_trim s)"

text \<open>\<open>resolvePersistedConnectionCooldownSkipReason\<close>: a row that cannot be read, or is missing, is \<open>None\<close>.\<close>

definition persisted_cooldown_skip :: "int \<Rightarrow> combo_target \<Rightarrow> conn_state option \<Rightarrow> bool \<Rightarrow> bool" where
  "persisted_cooldown_skip now t row allowRateLimited =
     (if allowRateLimited then False
      else if tg_connectionId t = [] then False
      else (case row of
              None \<Rightarrow> False
            | Some r \<Rightarrow>
                hasFutureRateLimitUntil now (cs_rateLimitedUntil r)
                \<or> (let status = normalizeConnectionStatus (cs_testStatus r)
                   in status \<in> set QUOTA_BLOCKING_CONNECTION_STATUSES \<or> status = ''unavailable'')))"

section \<open>Exhaustion\<close>

definition CONNECTION_LEVEL_ERROR_STATUSES :: "int list" where
  "CONNECTION_LEVEL_ERROR_STATUSES = [408, 500, 502, 503, 504, 524]"

definition AUTH_LEVEL_ERROR_STATUSES :: "int list" where
  "AUTH_LEVEL_ERROR_STATUSES = [401, 403]"

definition isEmptyContentFailure :: "int \<Rightarrow> string \<Rightarrow> bool" where
  "isEmptyContentFailure status errorText \<longleftrightarrow>
     status = 502 \<and> (str_includes (toLowerCase errorText) ''empty content'' \<or> str_includes (toLowerCase errorText) ''empty response'')"

definition isAgentrouterConnectionQuotaScope :: "error_rules \<Rightarrow> string \<Rightarrow> fallback_result \<Rightarrow> bool" where
  "isAgentrouterConnectionQuotaScope r provider fb \<longleftrightarrow>
     er_honorsRuleLockScope r provider \<and> fb_ruleScope fb = ''connection'' \<and> fb_reason fb = ''quota_exhausted''
     \<and> \<not> fb_permanent fb \<and> \<not> fb_creditsExhausted fb"

definition isProviderExhaustedReason :: "fallback_result \<Rightarrow> bool" where
  "isProviderExhaustedReason fb \<longleftrightarrow>
     fb_creditsExhausted fb \<or> fb_dailyQuotaExhausted fb \<or> fb_reason fb = ''quota_exhausted''"

definition isCloudflareFingerprintRejection :: "error_rules \<Rightarrow> string \<Rightarrow> bool" where
  "isCloudflareFingerprintRejection r errorText \<longleftrightarrow>
     (let text = toLowerCase errorText
      in er_cloudflare1010 r text \<or> str_includes text ''browser_signature_banned'' \<or> str_includes text ''fingerprint_rejection'')"

text \<open>The parts that are not empty, joined with blanks.\<close>

fun join_blank :: "string list \<Rightarrow> string" where
  "join_blank [] = []"
| "join_blank [x] = x"
| "join_blank (x # xs) = x @ '' '' @ join_blank xs"

definition fingerprint_rejected :: "error_rules \<Rightarrow> target_failure \<Rightarrow> bool" where
  "fingerprint_rejected r f \<longleftrightarrow>
     (\<exists>v\<in>set [lowered (tf_code f), lowered (tf_type f)]. v \<in> {''1010'', ''browser_signature_banned'', ''fingerprint_rejection''})
     \<or> isCloudflareFingerprintRejection r
         (join_blank (filter (\<lambda>s. s \<noteq> []) [or_else (tf_code f) [], or_else (tf_type f) [], tf_errorText f]))"

definition isProviderQuotaExhausted :: "error_rules \<Rightarrow> string \<Rightarrow> target_failure \<Rightarrow> bool" where
  "isProviderQuotaExhausted r provider f \<longleftrightarrow>
     known_provider provider
     \<and> \<not> (tf_requestScopedFailure f \<or> isRequestScopedUpstreamFailure (tf_code f) (tf_type f))
     \<and> \<not> er_hasPerModelQuota r provider
     \<and> (isProviderExhaustedReason (tf_fallback f)
        \<or> er_textMeansQuotaExhausted r (case tf_code f of None \<Rightarrow> tf_errorText f | Some c \<Rightarrow> if c = [] then tf_errorText f else c)
        \<or> tf_allAccountsRateLimited f)"

text \<open>\<open>markAuthLevelExhaustion\<close> and its two siblings write the same entry: the connection, or the provider when there is none.\<close>

definition mark_connection :: "combo_target \<Rightarrow> exhaustion_sets \<Rightarrow> exhaustion_sets" where
  "mark_connection t x =
     (if tg_connectionId t \<noteq> [] then x\<lparr>xs_connections := set_add (connection_key t) (xs_connections x)\<rparr>
      else x\<lparr>xs_providers := set_add (tg_provider t) (xs_providers x)\<rparr>)"

definition markConnectionLevelExhaustion :: "error_rules \<Rightarrow> combo_target \<Rightarrow> target_failure \<Rightarrow> exhaustion_sets \<Rightarrow> exhaustion_sets" where
  "markConnectionLevelExhaustion r t f x =
     (if \<not> known_provider (tg_provider t)
       \<or> tf_status f \<notin> set CONNECTION_LEVEL_ERROR_STATUSES
       \<or> isProviderCircuitOpenResult (tf_breakerHeader f) (tf_errorText f)
       \<or> tf_requestScopedFailure f
       \<or> isRequestScopedUpstreamFailure (tf_code f) (tf_type f)
       \<or> isEmptyContentFailure (tf_status f) (tf_errorText f)
       \<or> tf_status f = 500 \<and> er_hasPerModelQuota r (tg_provider t)
      then x else mark_connection t x)"

definition markTransientOrConnectionLevel :: "error_rules \<Rightarrow> combo_target \<Rightarrow> target_failure \<Rightarrow> exhaustion_sets \<Rightarrow> exhaustion_sets" where
  "markTransientOrConnectionLevel r t f x =
     markConnectionLevelExhaustion r t f
       (if tf_status f = 429 \<and> \<not> tf_isTokenLimitBreach f \<and> known_provider (tg_provider t)
        then x\<lparr>xs_transient := set_add (tg_provider t) (xs_transient x)\<rparr> else x)"

definition applyComboTargetExhaustion :: "error_rules \<Rightarrow> combo_target \<Rightarrow> target_failure \<Rightarrow> exhaustion_sets \<Rightarrow> bool \<times> exhaustion_sets" where
  "applyComboTargetExhaustion r t f x =
     (let provider = tg_provider t
      in if isAgentrouterConnectionQuotaScope r provider (tf_fallback f) then (True, mark_connection t x)
         else if tf_status f \<in> set AUTH_LEVEL_ERROR_STATUSES \<and> \<not> (tf_status f = 403 \<and> fingerprint_rejected r f) \<and> known_provider provider
         then (if tf_status f = 403 \<and> er_isAlibabaModelStudio r provider \<and> er_alibabaFreeQuota r (tf_errorText f) then (False, x)
               else (True, mark_connection t x))
         else if isProviderQuotaExhausted r provider f then (True, x\<lparr>xs_providers := set_add provider (xs_providers x)\<rparr>)
         else (False, markTransientOrConnectionLevel r t f x))"

text \<open>The 400 responses that end the combo, because their text blames the body of the request.\<close>

definition body_specific_400 :: "error_rules \<Rightarrow> target_failure \<Rightarrow> bool" where
  "body_specific_400 r f \<longleftrightarrow>
     tf_status f = 400 \<and> fb_shouldFallback (tf_fallback f) \<and> \<not> er_contextOverflow r (tf_errorText f)
     \<and> \<not> er_paramValidation r (tf_errorText f) \<and> \<not> er_modelScoped r (tf_errorText f)
     \<and> (\<exists>w\<in>set [''context'', ''prompt'', ''token'', ''malformed'', ''invalid'', ''bad request''].
          str_includes (toLowerCase (tf_errorText f)) w)"

end
