(* ===== verification/ModelLockouts.thy ===== *)
theory ModelLockouts
  imports ProviderFailures JsString
begin

text \<open>
  The lockouts of single models, from \<open>open-sse/services/accountFallback.ts\<close> with \<open>accountFallback/exactModelLock.ts\<close> and
  \<open>accountFallback/lockoutEviction.ts\<close>: the two tables, their keys, locking, the exponential backoff of repeated failures, decay,
  clearing, look-ups and the periodic sweep. The provider registries, the resolution of provider aliases (whose cache only repeats
  it) and the time until midnight are the record \<open>lock_names\<close>; an operation reads the clock once.
\<close>

section \<open>Keys\<close>

record lock_names =
  ln_resolveProviderId :: "string \<Rightarrow> string"
  ln_passthrough :: "string \<Rightarrow> bool"
  ln_localOrSelfHosted :: "string \<Rightarrow> bool"
  ln_msUntilTomorrow :: "int \<Rightarrow> int"

definition getCanonicalLockProvider :: "lock_names \<Rightarrow> string \<Rightarrow> string" where
  "getCanonicalLockProvider nm provider = ln_resolveProviderId nm provider"

definition CODEX_SCOPE_PATTERNS :: "(string \<times> string) list" where
  "CODEX_SCOPE_PATTERNS =
     [(''codex-spark'', ''spark''), (''spark'', ''spark''), (''bengalfox'', ''spark''), (''codex'', ''codex''), (''gpt-5'', ''codex'')]"

definition getCodexModelScope :: "string \<Rightarrow> string" where
  "getCodexModelScope model =
     (case find (\<lambda>(p, _). str_includes (toLowerCase model) p) CODEX_SCOPE_PATTERNS of None \<Rightarrow> ''codex'' | Some (_, scope) \<Rightarrow> scope)"

definition without_prefix :: "string \<Rightarrow> string \<Rightarrow> string" where
  "without_prefix p s = (if prefix p s then drop (length p) s else s)"

datatype quota_family = Gemini | Claude | OtherFamily

definition getAntigravityQuotaFamily :: "string \<Rightarrow> quota_family" where
  "getAntigravityQuotaFamily model =
     (let lower = toLowerCase (js_trim model);
          normalized = (if prefix ''antigravity/'' lower then without_prefix ''antigravity/'' lower else without_prefix ''agy/'' lower);
          bare = (if CHR ''/'' \<in> set normalized then tl (dropWhile (\<lambda>c. c \<noteq> CHR ''/'') normalized) else normalized)
      in if prefix ''gemini-'' bare \<or> str_includes bare ''/gemini-'' \<or> str_includes bare ''gemini'' then Gemini
         else if prefix ''claude-'' bare \<or> prefix ''cloud-'' bare \<or> str_includes bare ''/claude-'' \<or> str_includes bare ''/cloud-''
              \<or> str_includes bare ''anthropic'' then Claude
         else OtherFamily)"

definition getQuotaScopedModelForProvider :: "string \<Rightarrow> string \<Rightarrow> string" where
  "getQuotaScopedModelForProvider provider model =
     (if provider \<noteq> ''antigravity'' \<and> provider \<noteq> ''agy'' then model
      else (case getAntigravityQuotaFamily model of OtherFamily \<Rightarrow> model | Gemini \<Rightarrow> ''family:gemini'' | Claude \<Rightarrow> ''family:claude''))"

definition lock_key :: "string \<Rightarrow> string \<Rightarrow> string \<Rightarrow> string" where
  "lock_key provider conn model = provider @ '':'' @ conn @ '':'' @ model"

definition getModelLockKey :: "lock_names \<Rightarrow> string \<Rightarrow> string \<Rightarrow> string \<Rightarrow> string option \<Rightarrow> int option \<Rightarrow> string" where
  "getModelLockKey nm provider conn model reason status =
     (let canonical = getCanonicalLockProvider nm provider;
          lockModel = (if reason = Some ''not_found'' \<or> status = Some 404 then model
                       else if canonical = ''codex'' then getCodexModelScope model
                       else getQuotaScopedModelForProvider canonical model)
      in lock_key canonical conn lockModel)"

definition buildExactModelLockKey :: "string \<Rightarrow> string \<Rightarrow> string \<Rightarrow> string" where
  "buildExactModelLockKey canonical conn model = lock_key canonical conn (''exact:'' @ toLowerCase (js_trim model))"

definition collectModelLockKeys :: "string \<Rightarrow> string \<Rightarrow> string \<Rightarrow> string list" where
  "collectModelLockKeys familyKey notFoundKey exactKey = fold set_add [familyKey, notFoundKey, exactKey] []"

definition getModelLockKeys :: "lock_names \<Rightarrow> string \<Rightarrow> string \<Rightarrow> string \<Rightarrow> string list" where
  "getModelLockKeys nm provider conn model =
     collectModelLockKeys (getModelLockKey nm provider conn model None None) (getModelLockKey nm provider conn model (Some ''not_found'') (Some 404))
       (buildExactModelLockKey (getCanonicalLockProvider nm provider) conn model)"

section \<open>The tables\<close>

record model_lock =
  mlk_reason :: string
  mlk_until :: int
  mlk_lockedAt :: int
  mlk_failureCount :: int
  mlk_lastFailureAt :: int
  mlk_resetAfterMs :: int

record model_failure =
  mfs_failureCount :: int
  mfs_lastFailureAt :: int
  mfs_resetAfterMs :: int
  mfs_lastCooldownMs :: "int option"

record lockout_tables =
  lo_locks :: "(string, model_lock) jsmap"
  lo_failures :: "(string, model_failure) jsmap"

definition escalation_window :: "model_failure \<Rightarrow> int" where
  "escalation_window f = mfs_resetAfterMs f + or_else (mfs_lastCooldownMs f) 0"

definition cleanupModelLockKey :: "int \<Rightarrow> string \<Rightarrow> lockout_tables \<Rightarrow> lockout_tables" where
  "cleanupModelLockKey now key L =
     (let L1 = (case jm_get (lo_locks L) key of
                  None \<Rightarrow> L | Some e \<Rightarrow> if now > mlk_until e then L\<lparr>lo_locks := jm_del key (lo_locks L)\<rparr> else L)
      in case jm_get (lo_failures L1) key of
           None \<Rightarrow> L1
         | Some f \<Rightarrow> if now - mfs_lastFailureAt f \<le> escalation_window f then L1
                    else if jm_has (lo_locks L1) key then L1
                    else L1\<lparr>lo_failures := jm_del key (lo_failures L1)\<rparr>)"

definition MODEL_LOCKOUT_EVICTION_CAP :: nat where "MODEL_LOCKOUT_EVICTION_CAP = 1000"

definition evict_locks :: "int \<Rightarrow> nat \<Rightarrow> lockout_tables \<Rightarrow> lockout_tables" where
  "evict_locks now cap L =
     (if length (lo_locks L) > cap
      then (let ks = map fst (take (length (lo_locks L) - cap) (filter (\<lambda>(_, e). mlk_until e \<le> now) (lo_locks L)))
            in L\<lparr>lo_locks := fold jm_del ks (lo_locks L), lo_failures := fold jm_del ks (lo_failures L)\<rparr>)
      else L)"

text \<open>The second loop counts every key it looks at, also one that it keeps.\<close>

definition evict_failures :: "nat \<Rightarrow> lockout_tables \<Rightarrow> lockout_tables" where
  "evict_failures cap L =
     (if length (lo_failures L) > cap
      then L\<lparr>lo_failures := fold jm_del (filter (\<lambda>k. \<not> jm_has (lo_locks L) k) (take (length (lo_failures L) - cap) (jm_keys (lo_failures L))))
                             (lo_failures L)\<rparr>
      else L)"

definition evictLockoutOverflow :: "int \<Rightarrow> nat \<Rightarrow> lockout_tables \<Rightarrow> lockout_tables" where
  "evictLockoutOverflow now cap L = evict_failures cap (evict_locks now cap L)"

text \<open>The timer of 15 seconds.\<close>

definition lockout_sweep :: "int \<Rightarrow> lockout_tables \<Rightarrow> lockout_tables" where
  "lockout_sweep now L =
     (let L1 = fold (cleanupModelLockKey now) (jm_keys (lo_locks L)) L;
          L2 = fold (cleanupModelLockKey now) (jm_keys (lo_failures L1)) L1
      in evictLockoutOverflow now MODEL_LOCKOUT_EVICTION_CAP L2)"

section \<open>Locking\<close>

record lock_meta =
  lm_failureCount :: "int option"
  lm_lastFailureAt :: "int option"
  lm_resetAfterMs :: "int option"

definition no_meta :: lock_meta where
  "no_meta = \<lparr>lm_failureCount = None, lm_lastFailureAt = None, lm_resetAfterMs = None\<rparr>"

definition existing_or :: "('e \<Rightarrow> int) \<Rightarrow> 'e option \<Rightarrow> int \<Rightarrow> int" where
  "existing_or f e d = (case e of None \<Rightarrow> d | Some x \<Rightarrow> f x)"

definition fresh_lock :: "int \<Rightarrow> model_lock option \<Rightarrow> string \<Rightarrow> int \<Rightarrow> lock_meta \<Rightarrow> model_lock" where
  "fresh_lock now existing reason newUntil meta =
     \<lparr>mlk_reason = reason, mlk_until = newUntil, mlk_lockedAt = now,
      mlk_failureCount = or_else (lm_failureCount meta) (existing_or mlk_failureCount existing 1),
      mlk_lastFailureAt = or_else (lm_lastFailureAt meta) now,
      mlk_resetAfterMs = or_else (lm_resetAfterMs meta) (existing_or mlk_resetAfterMs existing 0)\<rparr>"

definition lock_recount :: "model_lock \<Rightarrow> lock_meta \<Rightarrow> int \<Rightarrow> model_lock" where
  "lock_recount e meta n =
     e\<lparr>mlk_failureCount := n, mlk_lastFailureAt := or_else (lm_lastFailureAt meta) (mlk_lastFailureAt e),
       mlk_resetAfterMs := or_else (lm_resetAfterMs meta) (mlk_resetAfterMs e)\<rparr>"

definition lockModel ::
  "lock_names \<Rightarrow> int \<Rightarrow> string \<Rightarrow> string \<Rightarrow> string \<Rightarrow> string \<Rightarrow> int \<Rightarrow> lock_meta \<Rightarrow> lockout_tables \<Rightarrow> lockout_tables" where
  "lockModel nm now provider conn model reason cooldownMs meta L =
     (if model = [] then L
      else (let key = getModelLockKey nm provider conn model (Some reason) None;
                L1 = cleanupModelLockKey now key L;
                newUntil = now + cooldownMs;
                existing = jm_get (lo_locks L1) key
            in case existing of
                 None \<Rightarrow> L1\<lparr>lo_locks := jm_set key (fresh_lock now existing reason newUntil meta) (lo_locks L1)\<rparr>
               | Some e \<Rightarrow>
                   if mlk_until e > newUntil
                   then (case lm_failureCount meta of
                           None \<Rightarrow> L1
                         | Some n \<Rightarrow> if n \<noteq> 0 \<and> n > mlk_failureCount e
                                    then L1\<lparr>lo_locks := jm_set key (lock_recount e meta n) (lo_locks L1)\<rparr> else L1)
                   else L1\<lparr>lo_locks := jm_set key (fresh_lock now existing reason newUntil meta) (lo_locks L1)\<rparr>))"

definition computeExactModelLockEntry :: "int \<Rightarrow> model_lock option \<Rightarrow> string \<Rightarrow> int \<Rightarrow> lock_meta \<Rightarrow> model_lock option" where
  "computeExactModelLockEntry now existing reason cooldownMs meta =
     (let newUntil = now + cooldownMs
      in case existing of
           None \<Rightarrow> Some (fresh_lock now existing reason newUntil meta)
         | Some e \<Rightarrow>
             if mlk_until e > newUntil
             then (case lm_failureCount meta of
                     None \<Rightarrow> None
                   | Some n \<Rightarrow> if n = 0 \<or> n \<le> mlk_failureCount e then None else Some (lock_recount e meta n))
             else Some (fresh_lock now existing reason newUntil meta))"

definition lockExactModel ::
  "lock_names \<Rightarrow> int \<Rightarrow> string \<Rightarrow> string \<Rightarrow> string \<Rightarrow> string \<Rightarrow> int \<Rightarrow> lock_meta \<Rightarrow> lockout_tables \<Rightarrow> lockout_tables" where
  "lockExactModel nm now provider conn model reason cooldownMs meta L =
     (if model = [] then L
      else (let key = buildExactModelLockKey (getCanonicalLockProvider nm provider) conn model;
                L1 = cleanupModelLockKey now key L
            in case computeExactModelLockEntry now (jm_get (lo_locks L1) key) reason cooldownMs meta of
                 None \<Rightarrow> L1 | Some e \<Rightarrow> L1\<lparr>lo_locks := jm_set key e (lo_locks L1)\<rparr>))"

section \<open>Repeated failures\<close>

definition BACKOFF_max :: int where "BACKOFF_max = 2 * 60 * 1000"
definition BACKOFF_maxLevel :: int where "BACKOFF_maxLevel = 15"
definition BACKOFF_base :: int where "BACKOFF_base = 1000"
definition transientInitial :: int where "transientInitial = 5 * 1000"

definition calculateBackoffCooldown :: "int \<Rightarrow> int" where
  "calculateBackoffCooldown level = min (BACKOFF_base * 2 ^ nat (max 0 level)) BACKOFF_max"

record lock_profile =
  lpr_resetTimeoutMs :: "int option"
  lpr_baseCooldownMs :: "int option"
  lpr_maxBackoffSteps :: "int option"

definition getFailureWindowMs :: "lock_profile option \<Rightarrow> int" where
  "getFailureWindowMs profile =
     (case Option.bind profile lpr_resetTimeoutMs of Some c \<Rightarrow> if c > 0 then c else 30 * 60 * 1000 | None \<Rightarrow> 30 * 60 * 1000)"

text \<open>A fallback that is not finite is \<open>None\<close>.\<close>

definition getModelLockBaseCooldown :: "int \<Rightarrow> int option \<Rightarrow> lock_profile option \<Rightarrow> int" where
  "getModelLockBaseCooldown status fallback profile =
     (if (case fallback of Some x \<Rightarrow> x > 0 | None \<Rightarrow> False) then the fallback
      else (case Option.bind profile lpr_baseCooldownMs of
              Some b \<Rightarrow> if b \<ge> 0 then b else if status = 429 then calculateBackoffCooldown 0 else transientInitial
            | None \<Rightarrow> if status = 429 then calculateBackoffCooldown 0 else transientInitial))"

definition getScaledCooldown :: "int \<Rightarrow> int \<Rightarrow> int \<Rightarrow> int" where
  "getScaledCooldown baseCooldownMs failureCount maxBackoffLevel =
     (let safeBase = (if baseCooldownMs > 0 then baseCooldownMs else 1000);
          exponent = min (max 0 (failureCount - 1)) (max 0 maxBackoffLevel)
      in safeBase * 2 ^ nat exponent)"

definition selectLockoutCooldownMs :: "int option \<Rightarrow> int \<Rightarrow> bool \<Rightarrow> int" where
  "selectLockoutCooldownMs parsed baseCooldownMs useExponentialBackoff =
     (case parsed of
        Some p \<Rightarrow> if p > baseCooldownMs then p else if useExponentialBackoff then 0 else baseCooldownMs
      | None \<Rightarrow> if useExponentialBackoff then 0 else baseCooldownMs)"

record lockout_opts =
  lop_exactCooldownMs :: "int option"
  lop_maxCooldownMs :: "int option"
  lop_exactScope :: bool
  lop_upstreamReset :: bool

record lockout_result =
  lr_cooldownMs :: int
  lr_failureCount :: int
  lr_resetAfterMs :: int

definition positive :: "int option \<Rightarrow> int option" where
  "positive x = (case x of Some v \<Rightarrow> if v > 0 then Some v else None | None \<Rightarrow> None)"

definition lockout_cooldown :: "int \<Rightarrow> int option \<Rightarrow> lock_profile option \<Rightarrow> lockout_opts \<Rightarrow> int \<Rightarrow> int" where
  "lockout_cooldown status fallback profile opts failureCount =
     (let maxCooldownMs = positive (lop_maxCooldownMs opts)
      in case positive (lop_exactCooldownMs opts) of
           Some exact \<Rightarrow> (case maxCooldownMs of Some mx \<Rightarrow> if \<not> lop_upstreamReset opts then min exact mx else exact | None \<Rightarrow> exact)
         | None \<Rightarrow>
             min (getScaledCooldown (getModelLockBaseCooldown status fallback profile) failureCount
                    (or_else (Option.bind profile lpr_maxBackoffSteps) BACKOFF_maxLevel))
               (or_else maxCooldownMs BACKOFF_max))"

definition next_failure_count :: "int \<Rightarrow> model_failure option \<Rightarrow> int" where
  "next_failure_count now previous =
     (case previous of
        None \<Rightarrow> 1
      | Some f \<Rightarrow> if now - mfs_lastFailureAt f \<le> escalation_window f then mfs_failureCount f + 1 else 1)"

definition recordModelLockoutFailure ::
  "lock_names \<Rightarrow> int \<Rightarrow> string \<Rightarrow> string \<Rightarrow> string \<Rightarrow> string \<Rightarrow> int \<Rightarrow> int option \<Rightarrow> lock_profile option \<Rightarrow> lockout_opts \<Rightarrow> lockout_tables
   \<Rightarrow> lockout_result \<times> lockout_tables" where
  "recordModelLockoutFailure nm now provider conn model reason status fallback profile opts0 L =
     (let key = (if lop_exactScope opts0 then buildExactModelLockKey (getCanonicalLockProvider nm provider) conn model
                 else getModelLockKey nm provider conn model (Some reason) (Some status));
          L1 = cleanupModelLockKey now key L;
          opts = (if reason = ''quota_exhausted'' \<and> lop_exactCooldownMs opts0 = None
                  then opts0\<lparr>lop_exactCooldownMs := Some (ln_msUntilTomorrow nm now)\<rparr> else opts0);
          resetAfterMs = getFailureWindowMs profile;
          failureCount = next_failure_count now (jm_get (lo_failures L1) key);
          cooldownMs = lockout_cooldown status fallback profile opts failureCount;
          L2 = L1\<lparr>lo_failures := jm_set key \<lparr>mfs_failureCount = failureCount, mfs_lastFailureAt = now, mfs_resetAfterMs = resetAfterMs,
                     mfs_lastCooldownMs = Some cooldownMs\<rparr> (lo_failures L1)\<rparr>;
          meta = \<lparr>lm_failureCount = Some failureCount, lm_lastFailureAt = Some now, lm_resetAfterMs = Some resetAfterMs\<rparr>;
          L3 = (if lop_exactScope opts then lockExactModel nm now provider conn model reason cooldownMs meta L2
                else lockModel nm now provider conn model reason cooldownMs meta L2)
      in (\<lparr>lr_cooldownMs = cooldownMs, lr_failureCount = failureCount, lr_resetAfterMs = resetAfterMs\<rparr>, L3))"

definition classifyLockoutReason :: "int \<Rightarrow> string" where
  "classifyLockoutReason status = (if status = 429 then ''rate_limit'' else if status = 403 then ''quota_exhausted'' else ''unknown'')"

section \<open>Clearing, decay and look-ups\<close>

fun clearMultiKeyLock :: "string list \<Rightarrow> lockout_tables \<Rightarrow> bool \<times> lockout_tables" where
  "clearMultiKeyLock [] L = (False, L)"
| "clearMultiKeyLock (k # ks) L =
     (let found = (jm_has (lo_locks L) k \<or> jm_has (lo_failures L) k);
          (rest, L') = clearMultiKeyLock ks (L\<lparr>lo_locks := jm_del k (lo_locks L), lo_failures := jm_del k (lo_failures L)\<rparr>)
      in (found \<or> rest, L'))"

definition clearModelLock :: "lock_names \<Rightarrow> string \<Rightarrow> string \<Rightarrow> string \<Rightarrow> lockout_tables \<Rightarrow> bool \<times> lockout_tables" where
  "clearModelLock nm provider conn model L =
     (if model = [] then (False, L) else clearMultiKeyLock (getModelLockKeys nm provider conn model) L)"

text \<open>The result is whether the failures were cleared, and how many are left.\<close>

definition decayModelFailureCount :: "lock_names \<Rightarrow> string \<Rightarrow> string \<Rightarrow> string \<Rightarrow> lockout_tables \<Rightarrow> (bool \<times> int) \<times> lockout_tables" where
  "decayModelFailureCount nm provider conn model L =
     (let key = getModelLockKey nm provider conn model None None
      in case jm_get (lo_failures L) key of
           None \<Rightarrow> ((False, 0), L)
         | Some f \<Rightarrow>
             (let n = mfs_failureCount f div 2
              in if n = 0 then ((True, 0), L\<lparr>lo_failures := jm_del key (lo_failures L)\<rparr>)
                 else ((False, n), L\<lparr>lo_failures := jm_set key (f\<lparr>mfs_failureCount := n\<rparr>) (lo_failures L)\<rparr>)))"

definition clearAllModelLockouts :: "lockout_tables \<Rightarrow> lockout_tables" where
  "clearAllModelLockouts L = L\<lparr>lo_locks := [], lo_failures := []\<rparr>"

fun isAnyKeyLocked :: "int \<Rightarrow> string list \<Rightarrow> lockout_tables \<Rightarrow> bool \<times> lockout_tables" where
  "isAnyKeyLocked now [] L = (False, L)"
| "isAnyKeyLocked now (k # ks) L =
     (let L1 = cleanupModelLockKey now k L in if jm_has (lo_locks L1) k then (True, L1) else isAnyKeyLocked now ks L1)"

definition isModelLocked :: "lock_names \<Rightarrow> int \<Rightarrow> string \<Rightarrow> string \<Rightarrow> string \<Rightarrow> lockout_tables \<Rightarrow> bool \<times> lockout_tables" where
  "isModelLocked nm now provider conn model L =
     (if model = [] then (False, L) else isAnyKeyLocked now (getModelLockKeys nm provider conn model) L)"

definition later_lock :: "model_lock option \<Rightarrow> model_lock option \<Rightarrow> model_lock option" where
  "later_lock a b =
     (case (a, b) of (None, _) \<Rightarrow> b | (_, None) \<Rightarrow> a | (Some x, Some y) \<Rightarrow> if mlk_until x < mlk_until y then b else a)"

text \<open>The first of the entries with the most time left, as the stable sort finds it.\<close>

fun findLatestLockEntry :: "int \<Rightarrow> string list \<Rightarrow> lockout_tables \<Rightarrow> model_lock option \<times> lockout_tables" where
  "findLatestLockEntry now [] L = (None, L)"
| "findLatestLockEntry now (k # ks) L =
     (let L1 = cleanupModelLockKey now k L; e = jm_get (lo_locks L1) k; (r, L2) = findLatestLockEntry now ks L1
      in (later_lock e r, L2))"

text \<open>Reason, time left, time of the lock and failure count.\<close>

definition getModelLockoutInfo ::
  "lock_names \<Rightarrow> int \<Rightarrow> string \<Rightarrow> string \<Rightarrow> string \<Rightarrow> lockout_tables \<Rightarrow> (string \<times> int \<times> int \<times> int) option \<times> lockout_tables" where
  "getModelLockoutInfo nm now provider conn model L =
     (if model = [] then (None, L)
      else (let (e, L') = findLatestLockEntry now (getModelLockKeys nm provider conn model) L
            in (map_option (\<lambda>x. (mlk_reason x, mlk_until x - now, mlk_lockedAt x, mlk_failureCount x)) e, L')))"

definition getAllModelLockouts :: "int \<Rightarrow> lockout_tables \<Rightarrow> (string list \<times> string \<times> int \<times> int \<times> int \<times> int) list \<times> lockout_tables" where
  "getAllModelLockouts now L =
     (let L1 = fold (cleanupModelLockKey now) (jm_keys (lo_locks L)) L
      in (map (\<lambda>(k, e). (js_split CHR '':'' k, mlk_reason e, mlk_until e - now, mlk_failureCount e, mlk_lockedAt e, mlk_until e)) (lo_locks L1), L1))"

section \<open>Providers with a quota per model\<close>

definition isCompatibleProvider :: "string \<Rightarrow> bool" where
  "isCompatibleProvider provider \<longleftrightarrow> prefix ''openai-compatible-'' provider \<or> prefix ''anthropic-compatible-'' provider"

definition hasPerModelQuota :: "lock_names \<Rightarrow> string \<Rightarrow> bool option \<Rightarrow> bool" where
  "hasPerModelQuota nm provider connectionPassthroughModels =
     (case connectionPassthroughModels of
        Some b \<Rightarrow> b
      | None \<Rightarrow>
          if provider = [] then False
          else (let canonicalId = ln_resolveProviderId nm provider
                in getCanonicalLockProvider nm canonicalId \<in> {''antigravity'', ''codex''}
                   \<or> canonicalId \<in> {''gemini'', ''github'', ''antigravity'', ''agy''}
                   \<or> ln_passthrough nm canonicalId \<or> isCompatibleProvider canonicalId \<or> ln_localOrSelfHosted nm canonicalId))"

text \<open>\<open>isProviderInCooldown\<close> of this file: the breaker refuses.\<close>

definition breaker_blocks :: "int \<Rightarrow> string \<Rightarrow> provider_health \<Rightarrow> bool \<times> provider_health" where
  "breaker_blocks now provider h =
     (if provider = [] then (False, h)
      else (let (b, reg, db) = getCircuitBreaker now provider None (ph_registry h, ph_db h);
                (ok, s) = canExecute now (b, db)
            in (\<not> ok, h\<lparr>ph_registry := jm_set provider (fst s) reg, ph_db := snd s\<rparr>)))"

definition lockModelIfPerModelQuota ::
  "lock_names \<Rightarrow> int \<Rightarrow> string \<Rightarrow> string \<Rightarrow> string \<Rightarrow> string \<Rightarrow> int \<Rightarrow> bool option \<Rightarrow> lockout_tables \<times> provider_health
   \<Rightarrow> bool \<times> lockout_tables \<times> provider_health" where
  "lockModelIfPerModelQuota nm now provider conn model reason cooldownMs connectionPassthroughModels Lh =
     (if \<not> hasPerModelQuota nm provider connectionPassthroughModels \<or> model = [] then (False, Lh)
      else (let (blocked, h) = breaker_blocks now provider (snd Lh)
            in if blocked then (False, fst Lh, h)
               else (True,
                     (if getCanonicalLockProvider nm provider = ''antigravity''
                      then lockExactModel nm now provider conn model reason cooldownMs no_meta (fst Lh)
                      else lockModel nm now provider conn model reason cooldownMs no_meta (fst Lh)), h)))"


section \<open>The two ways of locking agree\<close>

text \<open>The step both share, at a given key.\<close>

definition lock_at :: "int \<Rightarrow> string \<Rightarrow> string \<Rightarrow> int \<Rightarrow> lock_meta \<Rightarrow> lockout_tables \<Rightarrow> lockout_tables" where
  "lock_at now key reason cooldownMs meta L =
     (let L1 = cleanupModelLockKey now key L
      in case computeExactModelLockEntry now (jm_get (lo_locks L1) key) reason cooldownMs meta of
           None \<Rightarrow> L1 | Some e \<Rightarrow> L1\<lparr>lo_locks := jm_set key e (lo_locks L1)\<rparr>)"

lemma lockModel_lock_at:
  "model \<noteq> [] \<Longrightarrow> lockModel nm now p c model reason cd meta L
     = lock_at now (getModelLockKey nm p c model (Some reason) None) reason cd meta L"
  unfolding lockModel_def lock_at_def computeExactModelLockEntry_def Let_def by (auto split: option.split)

lemma lockExactModel_lock_at:
  "model \<noteq> [] \<Longrightarrow> lockExactModel nm now p c model reason cd meta L
     = lock_at now (buildExactModelLockKey (getCanonicalLockProvider nm p) c model) reason cd meta L"
  by (simp add: lockExactModel_def lock_at_def Let_def)

section \<open>What keeps a lock\<close>

definition holds_until :: "string \<Rightarrow> int \<Rightarrow> lockout_tables \<Rightarrow> bool" where
  "holds_until k u L \<longleftrightarrow> (\<exists>e. jm_get (lo_locks L) k = Some e \<and> u \<le> mlk_until e)"

named_theorems keeps_lock \<open>operations that keep a lock that is running\<close>

lemma cleanup_locks:
  "jm_get (lo_locks (cleanupModelLockKey now key L)) k =
     (case jm_get (lo_locks L) k of None \<Rightarrow> None | Some e \<Rightarrow> if k = key \<and> now > mlk_until e then None else Some e)"
  by (auto simp: cleanupModelLockKey_def Let_def split: option.split)

lemma cleanup_holds [keeps_lock]: "holds_until k u L \<Longrightarrow> now < u \<Longrightarrow> holds_until k u (cleanupModelLockKey now key L)"
  by (auto simp: holds_until_def cleanup_locks)

lemma fold_cleanup_holds [keeps_lock]:
  "holds_until k u L \<Longrightarrow> now < u \<Longrightarrow> holds_until k u (fold (cleanupModelLockKey now) ks L)"
  by (induction ks arbitrary: L) (simp_all add: cleanup_holds)

lemma get_fold_jm_del [simp]: "jm_get (fold jm_del ks m) k = (if k \<in> set ks then None else jm_get m k)"
  by (induction ks arbitrary: m) auto

definition tables_ok :: "lockout_tables \<Rightarrow> bool" where
  "tables_ok L \<longleftrightarrow> jm_ok (lo_locks L) \<and> jm_ok (lo_failures L)"

lemma evict_holds [keeps_lock]:
  assumes "tables_ok L" and "holds_until k u L" and "now < u"
  shows "holds_until k u (evictLockoutOverflow now cap L)"
proof -
  obtain e where e: "jm_get (lo_locks L) k = Some e" "u \<le> mlk_until e" using assms(2) by (auto simp: holds_until_def)
  have "mlk_until x \<noteq> mlk_until e" if "(k, x) \<in> set (lo_locks L)" "mlk_until x \<le> now" for x
    using that e assms(3) by linarith
  then have "k \<notin> fst ` set (take n (filter (\<lambda>(_, e). mlk_until e \<le> now) (lo_locks L)))" for n
    using e assms(1) by (auto dest!: in_set_takeD simp: tables_ok_def jm_get_mem)
  then show ?thesis using e
    by (auto simp: holds_until_def evictLockoutOverflow_def evict_locks_def evict_failures_def Let_def)
qed

lemma cleanup_ok [simp]: "tables_ok L \<Longrightarrow> tables_ok (cleanupModelLockKey now key L)"
  by (simp add: tables_ok_def cleanupModelLockKey_def Let_def split: option.split)

lemma fold_cleanup_ok [simp]: "tables_ok L \<Longrightarrow> tables_ok (fold (cleanupModelLockKey now) ks L)"
  by (induction ks arbitrary: L) simp_all

lemma fold_del_ok [simp]: "jm_ok m \<Longrightarrow> jm_ok (fold jm_del ks m)"
  by (induction ks arbitrary: m) simp_all

lemma evict_ok [simp]: "tables_ok L \<Longrightarrow> tables_ok (evictLockoutOverflow now cap L)"
  by (simp add: tables_ok_def evictLockoutOverflow_def evict_locks_def evict_failures_def Let_def)

lemma lock_at_ok [simp]: "tables_ok L \<Longrightarrow> tables_ok (lock_at now key reason cd meta L)"
proof -
  assume "tables_ok L"
  then have "tables_ok (cleanupModelLockKey now key L)" by simp
  then show ?thesis by (simp add: lock_at_def Let_def tables_ok_def split: option.split)
qed

lemma sweep_keeps [keeps_lock]:
  "tables_ok L \<Longrightarrow> holds_until k u L \<Longrightarrow> now < u \<Longrightarrow> holds_until k u (lockout_sweep now L)"
  by (simp add: lockout_sweep_def Let_def evict_holds fold_cleanup_holds)

lemma sweep_ok [simp]: "tables_ok L \<Longrightarrow> tables_ok (lockout_sweep now L)"
  by (simp add: lockout_sweep_def Let_def)

lemma lock_at_keeps [keeps_lock]:
  assumes "holds_until k u L" and "now < u"
  shows "holds_until k u (lock_at now key reason cd meta L)"
proof -
  obtain e where "jm_get (lo_locks (cleanupModelLockKey now key L)) k = Some e" "u \<le> mlk_until e"
    using cleanup_holds [OF assms] by (auto simp: holds_until_def)
  then show ?thesis
    by (auto simp: holds_until_def lock_at_def computeExactModelLockEntry_def lock_recount_def fresh_lock_def Let_def split: option.split)
qed

text \<open>A lock is taken for at least its cooldown.\<close>

lemma lock_at_locks: "holds_until key (now + cd) (lock_at now key reason cd meta L)"
  by (auto simp: holds_until_def lock_at_def computeExactModelLockEntry_def lock_recount_def fresh_lock_def Let_def split: option.split)

lemma set_getModelLockKeys:
  "set (getModelLockKeys nm p c m) = {getModelLockKey nm p c m None None, getModelLockKey nm p c m (Some ''not_found'') (Some 404),
     buildExactModelLockKey (getCanonicalLockProvider nm p) c m}"
  by (auto simp: getModelLockKeys_def collectModelLockKeys_def)

lemma lock_key_asked: "getModelLockKey nm p c m (Some reason) None \<in> set (getModelLockKeys nm p c m)"
  by (auto simp: set_getModelLockKeys getModelLockKey_def Let_def)

lemma any_key_locked:
  "holds_until k u L \<Longrightarrow> t < u \<Longrightarrow> k \<in> set ks \<Longrightarrow> fst (isAnyKeyLocked t ks L)"
proof (induction ks arbitrary: L)
  case (Cons x ks)
  have h: "holds_until k u (cleanupModelLockKey t x L)" by (rule cleanup_holds [OF Cons.prems(1,2)])
  show ?case
  proof (cases "x = k")
    case True
    then show ?thesis using h by (auto simp: Let_def holds_until_def jm_has_def)
  next
    case False
    then show ?thesis using Cons.IH [OF h Cons.prems(2)] Cons.prems(3) by (simp add: Let_def)
  qed
qed simp

section \<open>Histories\<close>

datatype lock_event =
    FailureRecorded string string string string int "int option" "lock_profile option" lockout_opts
  | Locked string string string string int lock_meta
  | LockedExactly string string string string int lock_meta
  | Decayed string string string
  | Cleared string string string
  | AskedLocked string string string
  | AskedInfo string string string
  | AskedAll
  | SweptLockouts

fun lock_step :: "lock_names \<Rightarrow> int \<times> lock_event \<Rightarrow> lockout_tables \<Rightarrow> lockout_tables" where
  "lock_step nm (now, FailureRecorded p c m reason st fb prof opts) L = snd (recordModelLockoutFailure nm now p c m reason st fb prof opts L)"
| "lock_step nm (now, Locked p c m reason cd meta) L = lockModel nm now p c m reason cd meta L"
| "lock_step nm (now, LockedExactly p c m reason cd meta) L = lockExactModel nm now p c m reason cd meta L"
| "lock_step nm (now, Decayed p c m) L = snd (decayModelFailureCount nm p c m L)"
| "lock_step nm (now, Cleared p c m) L = snd (clearModelLock nm p c m L)"
| "lock_step nm (now, AskedLocked p c m) L = snd (isModelLocked nm now p c m L)"
| "lock_step nm (now, AskedInfo p c m) L = snd (getModelLockoutInfo nm now p c m L)"
| "lock_step nm (now, AskedAll) L = snd (getAllModelLockouts now L)"
| "lock_step nm (now, SweptLockouts) L = lockout_sweep now L"

definition lock_run :: "lock_names \<Rightarrow> (int \<times> lock_event) list \<Rightarrow> lockout_tables \<Rightarrow> lockout_tables" where
  "lock_run nm es L = fold (lock_step nm) es L"

text \<open>Events other than a clearing of one of the keys.\<close>

fun spares_keys :: "lock_names \<Rightarrow> string set \<Rightarrow> lock_event \<Rightarrow> bool" where
  "spares_keys nm K (Cleared p c m) \<longleftrightarrow> K \<inter> set (getModelLockKeys nm p c m) = {}"
| "spares_keys nm K _ \<longleftrightarrow> True"


lemma lock_step_cases:
  "lockModel nm now p c m reason cd meta L = L \<or> (\<exists>key. lockModel nm now p c m reason cd meta L = lock_at now key reason cd meta L)"
  "lockExactModel nm now p c m reason cd meta L = L \<or> (\<exists>key. lockExactModel nm now p c m reason cd meta L = lock_at now key reason cd meta L)"
  using lockModel_lock_at [of m nm now p c] lockExactModel_lock_at [of m nm now p c]
  by (cases "m = []"; auto simp: lockModel_def lockExactModel_def)+

lemma lockModel_keeps [keeps_lock]: "holds_until k u L \<Longrightarrow> now < u \<Longrightarrow> holds_until k u (lockModel nm now p c m reason cd meta L)"
  using lock_step_cases(1) [of nm now p c m reason cd meta L] by (auto simp: lock_at_keeps)

lemma lockExactModel_keeps [keeps_lock]: "holds_until k u L \<Longrightarrow> now < u \<Longrightarrow> holds_until k u (lockExactModel nm now p c m reason cd meta L)"
  using lock_step_cases(2) [of nm now p c m reason cd meta L] by (auto simp: lock_at_keeps)

lemma lockModel_ok [simp]: "tables_ok L \<Longrightarrow> tables_ok (lockModel nm now p c m reason cd meta L)"
  using lock_step_cases(1) [of nm now p c m reason cd meta L] by auto

lemma lockExactModel_ok [simp]: "tables_ok L \<Longrightarrow> tables_ok (lockExactModel nm now p c m reason cd meta L)"
  using lock_step_cases(2) [of nm now p c m reason cd meta L] by auto

lemma failures_only [simp]: "holds_until k u (L\<lparr>lo_failures := f\<rparr>) = holds_until k u L"
  by (simp add: holds_until_def)

lemma record_keeps [keeps_lock]:
  "holds_until k u L \<Longrightarrow> now < u \<Longrightarrow> holds_until k u (snd (recordModelLockoutFailure nm now p c m reason st fb prof opts L))"
  by (simp add: recordModelLockoutFailure_def Let_def keeps_lock)

lemma record_ok [simp]: "tables_ok L \<Longrightarrow> tables_ok (snd (recordModelLockoutFailure nm now p c m reason st fb prof opts L))"
proof -
  assume "tables_ok L"
  then have "tables_ok (cleanupModelLockKey now key L)" for key by simp
  then have "tables_ok ((cleanupModelLockKey now key L)\<lparr>lo_failures := jm_set key x (lo_failures (cleanupModelLockKey now key L))\<rparr>)" for key x
    by (simp add: tables_ok_def)
  then show ?thesis by (simp add: recordModelLockoutFailure_def Let_def)
qed

lemma any_key_keeps [keeps_lock]: "holds_until k u L \<Longrightarrow> now < u \<Longrightarrow> holds_until k u (snd (isAnyKeyLocked now ks L))"
  by (induction ks arbitrary: L) (simp_all add: Let_def cleanup_holds)

lemma any_key_ok [simp]: "tables_ok L \<Longrightarrow> tables_ok (snd (isAnyKeyLocked now ks L))"
  by (induction ks arbitrary: L) (simp_all add: Let_def)

lemma latest_keeps [keeps_lock]: "holds_until k u L \<Longrightarrow> now < u \<Longrightarrow> holds_until k u (snd (findLatestLockEntry now ks L))"
  by (induction ks arbitrary: L) (simp_all add: Let_def cleanup_holds case_prod_unfold)

lemma latest_ok [simp]: "tables_ok L \<Longrightarrow> tables_ok (snd (findLatestLockEntry now ks L))"
  by (induction ks arbitrary: L) (simp_all add: Let_def case_prod_unfold)

lemma clear_keeps [keeps_lock]: "holds_until k u L \<Longrightarrow> k \<notin> set ks \<Longrightarrow> holds_until k u (snd (clearMultiKeyLock ks L))"
  by (induction ks arbitrary: L) (simp_all add: Let_def case_prod_unfold holds_until_def)

lemma clear_ok [simp]: "tables_ok L \<Longrightarrow> tables_ok (snd (clearMultiKeyLock ks L))"
  by (induction ks arbitrary: L) (simp_all add: Let_def case_prod_unfold tables_ok_def)

lemma decay_ok [simp]: "tables_ok L \<Longrightarrow> tables_ok (snd (decayModelFailureCount nm p c m L))"
  by (auto simp: decayModelFailureCount_def Let_def tables_ok_def split: option.split)

lemma decay_keeps [simp, keeps_lock]: "holds_until k u (snd (decayModelFailureCount nm p c m L)) = holds_until k u L"
  by (simp add: decayModelFailureCount_def Let_def split: option.split)

lemma lock_step_ok: "tables_ok L \<Longrightarrow> tables_ok (lock_step nm (now, ev) L)"
  by (cases ev)
    (auto simp: clearModelLock_def isModelLocked_def getModelLockoutInfo_def getAllModelLockouts_def Let_def case_prod_unfold)

lemma lock_step_keeps:
  "tables_ok L \<Longrightarrow> holds_until k u L \<Longrightarrow> now < u \<Longrightarrow> spares_keys nm {k} ev \<Longrightarrow> holds_until k u (lock_step nm (now, ev) L)"
  by (cases ev)
    (auto simp: clearModelLock_def isModelLocked_def getModelLockoutInfo_def getAllModelLockouts_def Let_def case_prod_unfold keeps_lock)

lemma lock_run_keeps:
  assumes "tables_ok L" and "holds_until k u L" and "\<forall>(t, ev)\<in>set es. t < u \<and> spares_keys nm {k} ev"
  shows "holds_until k u (lock_run nm es L)"
  using assms
proof (induction es arbitrary: L)
  case (Cons x es)
  obtain t ev where x: "x = (t, ev)" by (cases x)
  show ?case using Cons.IH [of "lock_step nm (t, ev) L"] Cons.prems x by (auto simp: lock_run_def lock_step_ok lock_step_keeps)
qed (simp add: lock_run_def)

text \<open>The key of a recorded failure is among those a look-up asks for.\<close>

definition recorded_key :: "lock_names \<Rightarrow> string \<Rightarrow> string \<Rightarrow> string \<Rightarrow> string \<Rightarrow> lockout_opts \<Rightarrow> string" where
  "recorded_key nm p c m reason opts =
     (if lop_exactScope opts then buildExactModelLockKey (getCanonicalLockProvider nm p) c m else getModelLockKey nm p c m (Some reason) None)"

lemma recorded_key_asked: "recorded_key nm p c m reason opts \<in> set (getModelLockKeys nm p c m)"
  by (simp add: recorded_key_def lock_key_asked) (simp add: set_getModelLockKeys)

lemma record_locks:
  assumes "recordModelLockoutFailure nm now p c m reason st fb prof opts L = (r, L')" and "m \<noteq> []"
  shows "holds_until (recorded_key nm p c m reason opts) (now + lr_cooldownMs r) L'"
  using assms(1) lock_at_locks
  by (auto simp: recordModelLockoutFailure_def Let_def recorded_key_def lockModel_lock_at [OF assms(2)] lockExactModel_lock_at [OF assms(2)])

text \<open>A cooldown that was recorded is served: until it is over, the model is locked on that account, whatever happens in between -
  further failures and locks of any kind, decays after a success, look-ups, the sweep with its evictions - short of an explicit
  clearing of one of the keys under which the model is looked up.\<close>

lemma served_lockout:
  assumes "recordModelLockoutFailure nm now p c m reason st fb prof opts L = (r, L')" and "tables_ok L" and "m \<noteq> []"
    and "\<forall>(u, ev)\<in>set es. u < now + lr_cooldownMs r \<and> spares_keys nm (set (getModelLockKeys nm p c m)) ev"
    and "t < now + lr_cooldownMs r"
  shows "fst (isModelLocked nm t p c m (lock_run nm es L'))"
proof -
  let ?k = "recorded_key nm p c m reason opts"
  have "spares_keys nm {?k} ev" if "spares_keys nm (set (getModelLockKeys nm p c m)) ev" for ev
    using that recorded_key_asked [of nm p c m reason opts] by (cases ev) auto
  then have "\<forall>(u, ev)\<in>set es. u < now + lr_cooldownMs r \<and> spares_keys nm {?k} ev" using assms(4) by fastforce
  moreover have "tables_ok L'" using assms(1,2) record_ok [of L nm now p c m reason st fb prof opts] by simp
  ultimately have "holds_until ?k (now + lr_cooldownMs r) (lock_run nm es L')"
    using lock_run_keeps record_locks [OF assms(1,3)] by blast
  from any_key_locked [OF this assms(5) recorded_key_asked] assms(3) show ?thesis by (simp add: isModelLocked_def)
qed

text \<open>And a lock ends: a model that is found locked has a lock under one of its keys that is not over.\<close>

lemma cleanup_holds_back: "holds_until k u (cleanupModelLockKey now key L) \<Longrightarrow> holds_until k u L"
  by (auto simp: holds_until_def cleanup_locks split: option.splits if_splits)

lemma any_key_locked_back: "fst (isAnyKeyLocked t ks L) \<Longrightarrow> \<exists>k\<in>set ks. holds_until k t L"
proof (induction ks arbitrary: L)
  case (Cons x ks)
  let ?L = "cleanupModelLockKey t x L"
  show ?case
  proof (cases "jm_has (lo_locks ?L) x")
    case True
    then have "holds_until x t ?L" by (auto simp: jm_has_def holds_until_def cleanup_locks split: option.splits if_splits)
    then show ?thesis using cleanup_holds_back by auto
  next
    case False
    then show ?thesis using Cons.IH [of ?L] Cons.prems cleanup_holds_back by (fastforce simp: Let_def)
  qed
qed simp

lemma lock_ends: "fst (isModelLocked nm t p c m L) \<Longrightarrow> \<exists>k\<in>set (getModelLockKeys nm p c m). holds_until k t L"
  using any_key_locked_back [of t "getModelLockKeys nm p c m" L] by (simp add: isModelLocked_def split: if_splits)

section \<open>Backoff\<close>

definition failure_key :: "lock_names \<Rightarrow> string \<Rightarrow> string \<Rightarrow> string \<Rightarrow> string \<Rightarrow> int \<Rightarrow> lockout_opts \<Rightarrow> string" where
  "failure_key nm p c m reason status opts =
     (if lop_exactScope opts then buildExactModelLockKey (getCanonicalLockProvider nm p) c m
      else getModelLockKey nm p c m (Some reason) (Some status))"

lemma cleanup_failures:
  "jm_get (lo_failures L) k = Some f \<Longrightarrow> now - mfs_lastFailureAt f \<le> escalation_window f
     \<Longrightarrow> jm_get (lo_failures (cleanupModelLockKey now key L)) k = Some f"
  by (auto simp: cleanupModelLockKey_def Let_def split: option.split)

lemma cleanup_no_failure: "jm_get (lo_failures L) k = None \<Longrightarrow> jm_get (lo_failures (cleanupModelLockKey now key L)) k = None"
  by (auto simp: cleanupModelLockKey_def Let_def split: option.split)

lemma lock_at_failures:
  "jm_get (lo_failures L) k = Some f \<Longrightarrow> now - mfs_lastFailureAt f \<le> escalation_window f
     \<Longrightarrow> jm_get (lo_failures (lock_at now key reason cd meta L)) k = Some f"
  by (simp add: lock_at_def Let_def cleanup_failures split: option.split)

lemma window_pos: "0 < getFailureWindowMs prof"
  by (simp add: getFailureWindowMs_def split: option.split)

lemma record_remembers:
  assumes "m \<noteq> []" and "reason \<noteq> ''quota_exhausted''"
    and "n = next_failure_count now (jm_get (lo_failures (cleanupModelLockKey now key L)) key)"
    and "cd = lockout_cooldown st fb prof opts n" and "0 \<le> cd" and "key = failure_key nm p c m reason st opts"
  shows "lr_cooldownMs (fst (recordModelLockoutFailure nm now p c m reason st fb prof opts L)) = cd"
    and "jm_get (lo_failures (snd (recordModelLockoutFailure nm now p c m reason st fb prof opts L))) key
      = Some \<lparr>mfs_failureCount = n, mfs_lastFailureAt = now, mfs_resetAfterMs = getFailureWindowMs prof, mfs_lastCooldownMs = Some cd\<rparr>"
proof -
  show "lr_cooldownMs (fst (recordModelLockoutFailure nm now p c m reason st fb prof opts L)) = cd"
    using assms by (simp add: recordModelLockoutFailure_def Let_def failure_key_def)
  show "jm_get (lo_failures (snd (recordModelLockoutFailure nm now p c m reason st fb prof opts L))) key
      = Some \<lparr>mfs_failureCount = n, mfs_lastFailureAt = now, mfs_resetAfterMs = getFailureWindowMs prof, mfs_lastCooldownMs = Some cd\<rparr>"
  proof -
    let ?L1 = "cleanupModelLockKey now key L"
    let ?f = "\<lparr>mfs_failureCount = n, mfs_lastFailureAt = now, mfs_resetAfterMs = getFailureWindowMs prof, mfs_lastCooldownMs = Some cd\<rparr>"
    let ?L2 = "?L1\<lparr>lo_failures := jm_set key ?f (lo_failures ?L1)\<rparr>"
    have "snd (recordModelLockoutFailure nm now p c m reason st fb prof opts L)
        = lock_at now (recorded_key nm p c m reason opts) reason cd
            \<lparr>lm_failureCount = Some n, lm_lastFailureAt = Some now, lm_resetAfterMs = Some (getFailureWindowMs prof)\<rparr> ?L2"
      using assms by (simp add: recordModelLockoutFailure_def Let_def failure_key_def recorded_key_def lockModel_lock_at lockExactModel_lock_at)
    moreover have "jm_get (lo_failures ?L2) key = Some ?f" by simp
    moreover have "now - mfs_lastFailureAt ?f \<le> escalation_window ?f" using assms(5) window_pos [of prof] by (simp add: escalation_window_def)
    ultimately show ?thesis by (simp only: lock_at_failures)
  qed
qed

text \<open>The same failure again and again.\<close>

fun fail_run ::
  "lock_names \<Rightarrow> string \<Rightarrow> string \<Rightarrow> string \<Rightarrow> string \<Rightarrow> int \<Rightarrow> int option \<Rightarrow> lock_profile option \<Rightarrow> lockout_opts \<Rightarrow> int list \<Rightarrow> lockout_tables
   \<Rightarrow> lockout_result list" where
  "fail_run nm p c m reason st fb prof opts [] L = []"
| "fail_run nm p c m reason st fb prof opts (t # ts) L =
     (let (r, L') = recordModelLockoutFailure nm t p c m reason st fb prof opts L in r # fail_run nm p c m reason st fb prof opts ts L')"

text \<open>Every failure falls into the window of the one before, which its cooldown extends.\<close>

fun escalates :: "int \<Rightarrow> (nat \<Rightarrow> int) \<Rightarrow> nat \<Rightarrow> int list \<Rightarrow> bool" where
  "escalates w cd i (t # t' # ts) \<longleftrightarrow> t' - t \<le> w + cd i \<and> escalates w cd (i + 1) (t' # ts)"
| "escalates w cd i _ \<longleftrightarrow> True"

definition backoff_ms :: "int \<Rightarrow> int option \<Rightarrow> lock_profile option \<Rightarrow> lockout_opts \<Rightarrow> nat \<Rightarrow> int" where
  "backoff_ms st fb prof opts i =
     min (getModelLockBaseCooldown st fb prof * 2 ^ min i (nat (or_else (Option.bind prof lpr_maxBackoffSteps) BACKOFF_maxLevel)))
       (or_else (positive (lop_maxCooldownMs opts)) BACKOFF_max)"

lemma lockout_cooldown_backoff:
  assumes "0 < getModelLockBaseCooldown st fb prof" and "positive (lop_exactCooldownMs opts) = None"
  shows "lockout_cooldown st fb prof opts (int i + 1) = backoff_ms st fb prof opts i"
proof -
  have "nat (min (max 0 (int i)) (max 0 x)) = min i (nat x)" for x by linarith
  then show ?thesis using assms by (simp add: lockout_cooldown_def backoff_ms_def getScaledCooldown_def Let_def)
qed

lemma backoff_pos: "0 < getModelLockBaseCooldown st fb prof \<Longrightarrow> 0 < backoff_ms st fb prof opts i"
  by (auto simp: backoff_ms_def positive_def BACKOFF_max_def split: option.split)

lemma fail_run_from:
  assumes "m \<noteq> []" and "reason \<noteq> ''quota_exhausted''" and "0 < getModelLockBaseCooldown st fb prof"
    and "positive (lop_exactCooldownMs opts) = None"
    and "i = 0 \<and> jm_get (lo_failures L) (failure_key nm p c m reason st opts) = None
      \<or> (\<exists>t0 j. i = Suc j \<and> jm_get (lo_failures L) (failure_key nm p c m reason st opts)
            = Some \<lparr>mfs_failureCount = int i, mfs_lastFailureAt = t0, mfs_resetAfterMs = getFailureWindowMs prof,
                    mfs_lastCooldownMs = Some (backoff_ms st fb prof opts j)\<rparr>
          \<and> escalates (getFailureWindowMs prof) (backoff_ms st fb prof opts) j (t0 # ts))"
    and "escalates (getFailureWindowMs prof) (backoff_ms st fb prof opts) i ts"
  shows "map lr_cooldownMs (fail_run nm p c m reason st fb prof opts ts L) = map (backoff_ms st fb prof opts) [i..<i + length ts]"
  using assms(5,6)
proof (induction ts arbitrary: i L)
  case (Cons t ts)
  let ?k = "failure_key nm p c m reason st opts" and ?b = "backoff_ms st fb prof opts"
  have n: "next_failure_count t (jm_get (lo_failures (cleanupModelLockKey t ?k L)) ?k) = int i + 1"
    using Cons.prems(1) cleanup_no_failure [of L ?k t ?k]
    by (auto simp: next_failure_count_def cleanup_failures escalation_window_def)
  obtain r L' where rec: "recordModelLockoutFailure nm t p c m reason st fb prof opts L = (r, L')" by force
  note mem = record_remembers [OF assms(1,2) refl refl, where now = t and key = ?k and L = L and st = st and fb = fb and prof = prof and opts = opts and nm = nm and p = p and c = c]
  have r: "lr_cooldownMs r = ?b i"
    and L': "jm_get (lo_failures L') ?k = Some \<lparr>mfs_failureCount = int (Suc i), mfs_lastFailureAt = t,
        mfs_resetAfterMs = getFailureWindowMs prof, mfs_lastCooldownMs = Some (?b i)\<rparr>"
    using mem [unfolded n lockout_cooldown_backoff [OF assms(3,4)]] rec backoff_pos [OF assms(3), of opts i] by (simp_all add: add.commute)
  have "escalates (getFailureWindowMs prof) ?b (Suc i) ts" using Cons.prems(2) by (cases ts) auto
  with Cons.IH [of "Suc i" L'] L' Cons.prems(2)
  have "map lr_cooldownMs (fail_run nm p c m reason st fb prof opts ts L') = map ?b [Suc i..<Suc i + length ts]" by blast
  moreover have "[i..<i + length (t # ts)] = i # [Suc i..<Suc i + length ts]" by (simp add: upt_conv_Cons del: upt_Suc)
  ultimately show ?case using rec r by (simp del: upt_Suc)
qed simp

text \<open>C8. The backoff of a model is exponential and capped, whatever was recorded for others: the \<open>i\<close>-th of a row of failures, each
  within the window of the one before (which its cooldown extends), is given the base cooldown doubled \<open>i\<close> times, at most as often as the
  profile allows, and never more than the configured maximum.\<close>

theorem backoff_is_exponential:
  assumes "m \<noteq> []" and "reason \<noteq> ''quota_exhausted''" and "0 < getModelLockBaseCooldown st fb prof"
    and "positive (lop_exactCooldownMs opts) = None" and "jm_get (lo_failures L) (failure_key nm p c m reason st opts) = None"
    and "cd = (\<lambda>i. min (getModelLockBaseCooldown st fb prof * 2 ^ min i (nat (or_else (Option.bind prof lpr_maxBackoffSteps) BACKOFF_maxLevel)))
                  (or_else (positive (lop_maxCooldownMs opts)) BACKOFF_max))"
    and "escalates (getFailureWindowMs prof) cd 0 ts"
  shows "map lr_cooldownMs (fail_run nm p c m reason st fb prof opts ts L) = map cd [0..<length ts]"
proof -
  have "cd = backoff_ms st fb prof opts" unfolding assms(6) backoff_ms_def by (rule refl)
  then show ?thesis using fail_run_from [OF assms(1-4), of 0 L nm p c ts] assms(5,7) by simp
qed

section \<open>Samples\<close>

definition ml_names :: lock_names where
  "ml_names = \<lparr>ln_resolveProviderId = (\<lambda>p. if p = ''cx'' then ''codex'' else p), ln_passthrough = (\<lambda>_. False),
     ln_localOrSelfHosted = (\<lambda>_. False), ln_msUntilTomorrow = (\<lambda>_. 3600000)\<rparr>"

definition ml_opts :: lockout_opts where
  "ml_opts = \<lparr>lop_exactCooldownMs = Some 0, lop_maxCooldownMs = Some 12000, lop_exactScope = False, lop_upstreamReset = False\<rparr>"

definition ml_empty :: lockout_tables where
  "ml_empty = \<lparr>lo_locks = [], lo_failures = []\<rparr>"

lemma backoff_is_exponential_witness:
  "map lr_cooldownMs (fail_run ml_names ''cx'' ''a'' ''gpt-5'' ''rate_limit'' 429 (Some 3000) None ml_opts [0, 3000, 9000, 21000] ml_empty)
   = [3000, 6000, 12000, 12000]"
  using backoff_is_exponential [of "''gpt-5''" "''rate_limit''" 429 "Some 3000" None ml_opts ml_empty ml_names "''cx''" "''a''" _ "[0, 3000, 9000, 21000]", OF _ _ _ _ _ refl]
  by (simp add: ml_opts_def ml_empty_def positive_def getModelLockBaseCooldown_def getFailureWindowMs_def BACKOFF_maxLevel_def BACKOFF_max_def
      upt_conv_Cons numeral_eq_Suc)

text \<open>A model that is not found (404) under a reason that does not say so, as \<open>classifyLockoutReason\<close> gives it, locks its whole family: the
  failure is counted under the model's own key, the lock is put under the family's.\<close>

lemma a_missing_model_locks_its_family:
  "(let L = snd (recordModelLockoutFailure ml_names 0 ''cx'' ''a'' ''gpt-5-gone'' (classifyLockoutReason 404) 404 (Some 3000) None ml_opts ml_empty)
    in fst (isModelLocked ml_names 1 ''cx'' ''a'' ''gpt-5'' L))"
  by code_simp

text \<open>A decay that reports the failures as cleared leaves the lock.\<close>

lemma a_decay_leaves_the_lock:
  "(let L = snd (recordModelLockoutFailure ml_names 0 ''cx'' ''a'' ''gpt-5'' ''rate_limit'' 429 (Some 3000) None ml_opts ml_empty);
        (r, L') = decayModelFailureCount ml_names ''cx'' ''a'' ''gpt-5'' L
    in (r, fst (isModelLocked ml_names 1 ''cx'' ''a'' ''gpt-5'' L'))) = ((True, 0), True)"
  by code_simp

text \<open>An eviction can stop at a key that it keeps, and leave the table over its cap.\<close>

lemma a_kept_key_counts_as_evicted:
  "(let f = \<lparr>mfs_failureCount = 1, mfs_lastFailureAt = 0, mfs_resetAfterMs = 9, mfs_lastCooldownMs = None\<rparr>;
        e = \<lparr>mlk_reason = [], mlk_until = 9, mlk_lockedAt = 0, mlk_failureCount = 1, mlk_lastFailureAt = 0, mlk_resetAfterMs = 9\<rparr>
    in map fst (lo_failures (evictLockoutOverflow 1 1 \<lparr>lo_locks = [(''a'', e)], lo_failures = [(''a'', f), (''b'', f)]\<rparr>))) = [''a'', ''b'']"
  by code_simp

end
