(* ===== verification/ComboDispatch.thy ===== *)
theory ComboDispatch
  imports ComboTargets ComboFailures CooldownRetry ModelLockouts
begin

text \<open>
  The failover loop of a combo: \<open>executeTarget\<close>, the loop over targets, the loop over set retries and the cooldown-aware
  re-dispatch of \<open>handleComboChatInner\<close> in \<open>open-sse/services/combo.ts\<close>, over the shared state of \<open>ProviderFailures\<close>,
  \<open>ModelLockouts\<close> and \<open>ComboFailures\<close>, without the zero-latency options (hedging, predictive skips, fallback compression), which are off by default.

  What the loop asks of the rest of the program is a world of readings: one per visit of a target (the gates before a dispatch), one per
  turn of the retry loop (abort signals, the connection's row, the upstream answer). A target that never answers is cut off by the
  safety timer: \<open>Hangs\<close>; what a cancelled request still does is not followed. Response bodies, metrics, events, webhooks, session
  stickiness and handoffs are left out. Retry hints are parsed dates.
\<close>

section \<open>Configuration, readings and state\<close>

record lockout_settings =
  los_enabled :: bool
  los_errorCodes :: "int list"
  los_baseCooldownMs :: int
  los_maxCooldownMs :: int
  los_useExponentialBackoff :: bool

record combo_config =
  cc_strategy :: string
  cc_name :: string
  cc_session :: string
  cc_maxRetries :: nat
  cc_maxSetRetries :: nat
  cc_maxGlobalAttempts :: int
  cc_comboTimeoutMs :: int
  cc_fallbackDelayMs :: int
  cc_failoverBeforeRetryExplicit :: bool
  cc_providerCooldownEnabled :: bool
  cc_cooldown :: cooldown_settings
  cc_lockouts :: lockout_settings
  cc_names :: lock_names
  cc_profile :: "string \<Rightarrow> lock_profile option"
  cc_parseModel :: "string \<Rightarrow> string"
  cc_quotaAwareRouting :: bool
  cc_rules :: error_rules
  cc_breaker :: "string \<Rightarrow> js_error cb_options"
  cc_wait :: wait_settings

text \<open>\<open>fa_classified\<close> is the verdict already recorded for the response by a combo below, \<open>fa_quotaExhausted\<close> what its status and text say.\<close>

record failed_answer =
  fa_failure :: target_failure
  fa_retryAfter :: "int option"
  fa_selectedConnection :: "string option"
  fa_streamReadiness :: bool
  fa_streamEarlyEof :: bool
  fa_localQueueCapacity :: bool
  fa_localOrMissing :: bool
  fa_quotaExhausted :: bool
  fa_classified :: "bool option"

text \<open>\<open>combo/quotaExhaustion.ts\<close>: a recorded verdict is trusted.\<close>

definition isQuotaExhaustionResponse :: "failed_answer \<Rightarrow> bool" where
  "isQuotaExhaustionResponse a = (case fa_classified a of Some trusted \<Rightarrow> trusted | None \<Rightarrow> fa_quotaExhausted a)"

text \<open>\<open>Accepted\<close> carries the connection header of the response, \<open>LowQuality\<close> the reason of the failed validation.\<close>

datatype upstream_answer = Hangs | Accepted "string option" | LowQuality string | Failed failed_answer

record gate_view =
  gv_now :: int
  gv_row :: "conn_state option"
  gv_quotaBlocked :: bool
  gv_affordable :: bool
  gv_available :: bool
  gv_credentialAllowed :: bool
  gv_atCapacity :: bool
  gv_laneOpen :: bool
  gv_doneAt :: int

record attempt_view =
  av_now :: int
  av_aborted :: bool
  av_predictedSlow :: bool
  av_abortedInDelay :: bool
  av_row :: "conn_state option"
  av_answer :: upstream_answer
  av_abortedInWait :: bool

record combo_world =
  wd_startTime :: int
  wd_gates :: "nat \<Rightarrow> gate_view"
  wd_attempts :: "nat \<Rightarrow> attempt_view"
  wd_setAborts :: "nat \<Rightarrow> bool"
  wd_passNow :: "nat \<Rightarrow> int"
  wd_waitAborts :: "nat \<Rightarrow> bool"

text \<open>\<open>cd_calls\<close> logs every call of \<open>handleSingleModel\<close> with the number of its turn.\<close>

record combo_state =
  cd_visits :: nat
  cd_turns :: nat
  cd_setDelays :: nat
  cd_calls :: "(combo_target \<times> nat) list"
  cd_lockouts :: lockout_tables
  cd_globalAttempts :: int
  cd_attemptOrder :: "(string \<times> string) list"
  cd_fallbackCount :: nat
  cd_recordedAttempts :: nat
  cd_comboErrors :: "combo_error list"
  cd_lastError :: "string option"
  cd_lastStatus :: "int option"
  cd_earliestRetryAfter :: "int option"
  cd_observedFailure :: bool
  cd_allQuota :: bool
  cd_trust :: "(string, bool \<times> bool) jsmap"
  cd_sets :: exhaustion_sets
  cd_dispatchedTargets :: "string list"
  cd_trace :: combo_trace
  cd_health :: provider_health
  cd_failures :: failure_map

text \<open>The response: of the call that was accepted, of a call that failed (with its status), or made up by the combo, the last two with the
  quota classification recorded for it, if one is.\<close>

datatype combo_reply = Served nat | Relayed nat int "bool option" | Refused int string "bool option"

datatype target_end = NextTarget | Answer combo_reply | Hung

section \<open>Bookkeeping\<close>

definition observeFailure :: "bool \<Rightarrow> string \<Rightarrow> combo_state \<Rightarrow> combo_state" where
  "observeFailure quotaExhausted key s =
     (let s1 = s\<lparr>cd_observedFailure := True, cd_allQuota := (cd_allQuota s \<and> quotaExhausted)\<rparr>
      in if key = [] then s1
         else (let (_, q) = (case jm_get (cd_trust s) key of None \<Rightarrow> (False, True) | Some t \<Rightarrow> t)
               in s1\<lparr>cd_trust := jm_set key (True, q \<and> quotaExhausted) (cd_trust s)\<rparr>))"

definition count_fallback :: "nat \<Rightarrow> combo_state \<Rightarrow> combo_state" where
  "count_fallback i s = (if i > 0 then s\<lparr>cd_fallbackCount := cd_fallbackCount s + 1\<rparr> else s)"

definition record_skip :: "int \<Rightarrow> nat \<Rightarrow> combo_target \<Rightarrow> skip_reason \<Rightarrow> combo_state \<Rightarrow> combo_state" where
  "record_skip now i t reason s =
     count_fallback i (s\<lparr>cd_trace := recordComboDecision now (tg_executionKey t) (tg_modelStr t) (SkippedBefore reason) (cd_trace s)\<rparr>)"

definition protectedPriorityTarget :: "combo_config \<Rightarrow> combo_target \<Rightarrow> bool" where
  "protectedPriorityTarget c t \<longleftrightarrow> cc_strategy c = ''priority'' \<and> tg_fallbackOnlyOnQuota t"

definition stopProtectedPriorityTarget :: "combo_config \<Rightarrow> combo_target \<Rightarrow> combo_state \<Rightarrow> target_end \<times> combo_state" where
  "stopProtectedPriorityTarget c t s =
     (if protectedPriorityTarget c t then Answer (Refused 503 ''unavailable'' None) else NextTarget,
      observeFailure False (tg_executionKey t) s)"

definition note_failure :: "combo_error \<Rightarrow> combo_state \<Rightarrow> combo_state" where
  "note_failure e s =
     s\<lparr>cd_recordedAttempts := cd_recordedAttempts s + 1, cd_lastError := Some (ce_error e),
       cd_comboErrors := cd_comboErrors s @ [e], cd_lastStatus := Some (ce_status e)\<rparr>"

text \<open>A lockout of the target's model on its account; a hint from upstream is honoured to the millisecond.\<close>

definition record_lockout :: "combo_config \<Rightarrow> int \<Rightarrow> combo_target \<Rightarrow> string \<Rightarrow> int \<Rightarrow> int \<Rightarrow> combo_state \<Rightarrow> combo_state" where
  "record_lockout c now t reason status hintMs s =
     (let ml = cc_lockouts c;
          opts = \<lparr>lop_exactCooldownMs = Some (selectLockoutCooldownMs (Some hintMs) (los_baseCooldownMs ml) (los_useExponentialBackoff ml)),
                  lop_maxCooldownMs = Some (los_maxCooldownMs ml), lop_exactScope = False, lop_upstreamReset = (hintMs > los_baseCooldownMs ml)\<rparr>
      in s\<lparr>cd_lockouts := snd (recordModelLockoutFailure (cc_names c) now (tg_provider t) (tg_connectionId t) (tg_rawModel t) reason status
                                (Some (los_baseCooldownMs ml)) (cc_profile c (tg_provider t)) opts (cd_lockouts s))\<rparr>)"

definition lockable :: "combo_config \<Rightarrow> combo_target \<Rightarrow> int \<Rightarrow> bool" where
  "lockable c t status \<longleftrightarrow>
     tg_provider t \<noteq> [] \<and> tg_rawModel t \<noteq> [] \<and> los_enabled (cc_lockouts c) \<and> status \<in> set (los_errorCodes (cc_lockouts c))"

definition lockoutHintMs :: "fallback_result \<Rightarrow> int" where
  "lockoutHintMs fb = (if fb_usedUpstreamRetryHint fb then fb_cooldownMs fb else or_else (fb_quotaResetHintMs fb) 0)"

text \<open>\<open>isModelLocked\<close> for a target, with the tables it tidies up.\<close>

definition model_locked :: "combo_config \<Rightarrow> int \<Rightarrow> combo_target \<Rightarrow> combo_state \<Rightarrow> bool \<times> combo_state" where
  "model_locked c now t s =
     (if tg_provider t \<noteq> [] \<and> tg_rawModel t \<noteq> []
      then (let (locked, L) = isModelLocked (cc_names c) now (tg_provider t) (tg_connectionId t) (tg_rawModel t) (cd_lockouts s)
            in (locked, s\<lparr>cd_lockouts := L\<rparr>))
      else (False, s))"

definition target_trust :: "combo_target \<Rightarrow> combo_state \<Rightarrow> bool \<times> bool" where
  "target_trust t s = (case jm_get (cd_trust s) (tg_executionKey t) of None \<Rightarrow> (False, False) | Some x \<Rightarrow> x)"

section \<open>Before the dispatch\<close>

definition allowRateLimitedConnection :: "combo_target \<Rightarrow> combo_state \<Rightarrow> bool" where
  "allowRateLimitedConnection t s \<longleftrightarrow> known_provider (tg_provider t) \<and> tg_provider t \<in> set (xs_transient (cd_sets s))"

text \<open>The gates that ask the quota, the credentials and the capacity of the connection.\<close>

definition late_gates :: "combo_config \<Rightarrow> gate_view \<Rightarrow> nat \<Rightarrow> combo_target \<Rightarrow> combo_state \<Rightarrow> target_end option \<times> combo_state" where
  "late_gates c g i t s =
     (let conn = tg_connectionId t; now = gv_now g;
          skip = (\<lambda>reason. (let (e, s') = stopProtectedPriorityTarget c t (record_skip now i t reason s) in (Some e, s')))
      in if cc_strategy c \<noteq> ''auto'' \<and> tg_provider t \<noteq> [] \<and> conn \<noteq> [] \<and> gv_quotaBlocked g then
           (let s1 = observeFailure True (tg_executionKey t) (record_skip now i t QuotaCutoff s)
            in (Some (if protectedPriorityTarget c t \<and> \<not> snd (target_trust t s1) then Answer (Refused 503 ''unavailable'' None) else NextTarget), s1))
         else if cc_quotaAwareRouting c \<and> tg_provider t \<noteq> [] \<and> conn \<noteq> [] \<and> \<not> gv_affordable g then (Some NextTarget, count_fallback i s)
         else if \<not> gv_available g then skip Availability
         else if conn \<noteq> [] \<and> \<not> gv_credentialAllowed g then skip CredentialGate
         else if conn \<noteq> [] \<and> gv_atCapacity g then skip ConcurrencyCap
         else if \<not> gv_laneOpen g then (Some NextTarget, record_skip now i t AdmissionLane s)
         else (None, s))"

text \<open>The gates in their order; \<open>None\<close> lets the target through.\<close>

definition gate_target :: "combo_config \<Rightarrow> gate_view \<Rightarrow> nat \<Rightarrow> combo_target \<Rightarrow> combo_state \<Rightarrow> target_end option \<times> combo_state" where
  "gate_target c g i t s0 =
     (let provider = tg_provider t; conn = tg_connectionId t; now = gv_now g;
          (isOpen, h) = breaker_open now provider (cd_health s0);
          s = s0\<lparr>cd_health := h\<rparr>;
          skip = (\<lambda>reason s. (let (e, s') = stopProtectedPriorityTarget c t (record_skip now i t reason s) in (Some e, s')))
      in if isOpen then skip CircuitOpen s
         else if cc_providerCooldownEnabled c \<and> known_provider provider
              \<and> isProviderInCooldown now provider conn (cc_cooldown c) (ph_cooldowns h) then skip ProviderCooldownSkip s
         else if persisted_cooldown_skip now t (gv_row g) (allowRateLimitedConnection t s) then (Some NextTarget, count_fallback i s)
         else if exhausted_target t (cd_sets s) then skip RequestExhaustion s
         else (let (locked, s1) = model_locked c now t s
               in if locked then skip ModelLockout s1 else late_gates c g i t s1))"

section \<open>One attempt\<close>

definition last_call :: "combo_state \<Rightarrow> nat" where
  "last_call s = length (cd_calls s) - 1"

text \<open>The call itself: the attempt order, the first dispatch of the target in this pass, the log.\<close>

definition dispatch_call :: "int \<Rightarrow> combo_target \<Rightarrow> nat \<Rightarrow> combo_state \<Rightarrow> combo_state" where
  "dispatch_call now t turn s =
     (let s1 = s\<lparr>cd_attemptOrder := cd_attemptOrder s @ [(tg_provider t, tg_modelStr t)], cd_calls := cd_calls s @ [(t, turn)]\<rparr>
      in if tg_executionKey t \<in> set (cd_dispatchedTargets s1) then s1
         else s1\<lparr>cd_dispatchedTargets := cd_dispatchedTargets s1 @ [tg_executionKey t],
                 cd_trace := recordComboDecision now (tg_executionKey t) (tg_modelStr t) Dispatched (cd_trace s1)\<rparr>)"

definition with_selected :: "string option \<Rightarrow> combo_target \<Rightarrow> combo_target" where
  "with_selected sel t = (case sel of Some c \<Rightarrow> if c = [] then t else t\<lparr>tg_connectionId := c\<rparr> | None \<Rightarrow> t)"

definition on_success :: "combo_config \<Rightarrow> int \<Rightarrow> combo_target \<Rightarrow> string option \<Rightarrow> combo_state \<Rightarrow> combo_state" where
  "on_success c now t sel s =
     s\<lparr>cd_recordedAttempts := cd_recordedAttempts s + 1,
       cd_lockouts := (if tg_provider t \<noteq> [] \<and> tg_rawModel t \<noteq> []
         then snd (decayModelFailureCount (cc_names c) (tg_provider t) (tg_connectionId (with_selected sel t)) (tg_rawModel t) (cd_lockouts s))
         else cd_lockouts s),
       cd_health := recordBreakerSuccess now (tg_provider t) (tg_connectionId (with_selected sel t)) (cd_health s),
       cd_failures := clearComboFailureTracking (cc_session c) (cc_name c) (cd_failures s)\<rparr>"

definition on_low_quality :: "combo_config \<Rightarrow> int \<Rightarrow> nat \<Rightarrow> combo_target \<Rightarrow> string \<Rightarrow> combo_state \<Rightarrow> target_end \<times> combo_state" where
  "on_low_quality c now i t reason s =
     (let s1 = s\<lparr>cd_recordedAttempts := cd_recordedAttempts s + 1,
                 cd_lastError := Some (''Upstream response failed quality validation: '' @ reason), cd_lastStatus := Some 502,
                 cd_comboErrors := cd_comboErrors s @ [\<lparr>ce_model = tg_modelStr t, ce_status = 502,
                   ce_error = (if reason = [] then ''upstream response failed quality validation'' else reason), ce_kind = Quality\<rparr>]\<rparr>;
          s2 = count_fallback i s1;
          s3 = (if lockable c t 502 then record_lockout c now t ''quality_failure'' 502 0 s2 else s2)
      in (if protectedPriorityTarget c t then Answer (Refused 502 ''quality'' None) else NextTarget,
          observeFailure False (tg_executionKey t) s3))"

definition failure_text :: "target_failure \<Rightarrow> string" where
  "failure_text f = (if tf_errorText f = [] then show_nat (nat (tf_status f)) else tf_errorText f)"

definition failure_entry_of :: "combo_target \<Rightarrow> target_failure \<Rightarrow> combo_error" where
  "failure_entry_of t f =
     \<lparr>ce_model = tg_modelStr t, ce_status = tf_status f, ce_error = failure_text f,
      ce_kind = classifyComboOutcome (tf_status f) (tf_errorText f)\<rparr>"

definition track_retry_after :: "int option \<Rightarrow> combo_state \<Rightarrow> combo_state" where
  "track_retry_after v s =
     (case v of
        None \<Rightarrow> s
      | Some t \<Rightarrow> if (case cd_earliestRetryAfter s of None \<Rightarrow> True | Some e \<Rightarrow> t < e) then s\<lparr>cd_earliestRetryAfter := Some t\<rparr> else s)"

definition is_transient :: "failed_answer \<Rightarrow> bool" where
  "is_transient a \<longleftrightarrow>
     \<not> fa_streamReadiness a \<and> \<not> tf_isTokenLimitBreach (fa_failure a) \<and> \<not> tf_requestScopedFailure (fa_failure a)
     \<and> tf_status (fa_failure a) \<in> {408, 429, 500, 502, 503, 504}"

text \<open>The breaker's share of a failure.\<close>

definition tell_breaker :: "combo_config \<Rightarrow> int \<Rightarrow> combo_target \<Rightarrow> combo_target list \<Rightarrow> failed_answer \<Rightarrow> combo_state \<Rightarrow> combo_state" where
  "tell_breaker c now t' rest a s =
     (let f = fa_failure a; proxyUnreachable = (tf_code f = Some ''proxy_unreachable'');
          sameProviderNext = (case rest of [] \<Rightarrow> False | n # _ \<Rightarrow> tg_provider n = tg_provider t');
          isQueueTimeout = (str_includes (tf_errorText f) ''RATE_LIMIT_QUEUE_TIMEOUT'' \<or> str_includes (tf_errorText f) ''RATE_LIMIT_QUEUE_WEDGED'')
      in if shouldRecordProviderBreakerFailure (fa_streamReadiness a) (fa_streamEarlyEof a) (tf_status f) sameProviderNext
              (fb_skipProviderBreaker (tf_fallback f)) (tf_requestScopedFailure f) (tf_errorText f) proxyUnreachable
         then s\<lparr>cd_health := recordProviderFailure now (tg_provider t') (tg_connectionId t') (cc_breaker c (tg_provider t'))
                              isQueueTimeout proxyUnreachable (cd_health s)\<rparr>
         else s)"

text \<open>The model gave up: its failure is noted, the model locked and the connection cooled down, unless the request was at fault.\<close>

definition give_up_target :: "combo_config \<Rightarrow> int \<Rightarrow> nat \<Rightarrow> combo_target \<Rightarrow> combo_target \<Rightarrow> target_failure \<Rightarrow> combo_state \<Rightarrow> combo_state" where
  "give_up_target c now i t t' f s =
     (let s1 = count_fallback i (note_failure (failure_entry_of t f) s);
          scoped = tf_requestScopedFailure f;
          s2 = (if \<not> scoped \<and> lockable c t (tf_status f) then record_lockout c now t' (classifyLockoutReason (tf_status f)) (tf_status f) (lockoutHintMs (tf_fallback f)) s1 else s1)
      in if cc_providerCooldownEnabled c \<and> known_provider (tg_provider t) \<and> \<not> scoped
            \<and> \<not> (tf_status f \<in> {500, 429} \<and> er_hasPerModelQuota (cc_rules c) (tg_provider t))
         then s2\<lparr>cd_health := (cd_health s2)\<lparr>ph_cooldowns :=
                   recordProviderCooldown now (tg_provider t) (tg_connectionId t') (cc_cooldown c) (ph_cooldowns (cd_health s2))\<rparr>\<rparr>
         else s2)"

definition waits_before_fallback :: "combo_config \<Rightarrow> target_failure \<Rightarrow> bool" where
  "waits_before_fallback c f \<longleftrightarrow>
     (let cooldownMs = fb_cooldownMs (tf_fallback f);
          fallbackWaitMs = (if cc_fallbackDelayMs c > 0 \<and> cooldownMs > 0 \<and> cooldownMs \<le> MAX_FALLBACK_WAIT_MS
                            then min cooldownMs (cc_fallbackDelayMs c) else 0)
      in tf_status f \<in> {502, 503, 504} \<and> fallbackWaitMs > 0)"

text \<open>After the bookkeeping of a failure: another try of the target (\<open>None\<close>), its answer relayed, or the next target.\<close>

definition retry_or_give_up ::
  "combo_config \<Rightarrow> attempt_view \<Rightarrow> failed_answer \<Rightarrow> nat \<Rightarrow> combo_target \<Rightarrow> combo_target \<Rightarrow> combo_target list \<Rightarrow> nat \<Rightarrow> bool \<Rightarrow> combo_state
   \<Rightarrow> target_end option \<times> combo_state" where
  "retry_or_give_up c v a i t t' rest retry providerExhausted s =
     (let f = fa_failure a; status = tf_status f; protectedTarget = protectedPriorityTarget c t;
          noted = (\<lambda>s. count_fallback i (s\<lparr>cd_lastError := Some (failure_text f), cd_lastStatus := Some status\<rparr>))
      in if retry < cc_maxRetries c \<and> is_transient a \<and> \<not> providerExhausted \<and> (\<not> cc_failoverBeforeRetryExplicit c \<or> rest = [])
         then (let (locked, s1) = (if protectedTarget then (False, s) else model_locked c (av_now v) t' s)
               in if locked then (Some NextTarget, noted s1)
                  else if \<not> protectedTarget \<and> retry = 0 \<and> \<not> tf_requestScopedFailure f \<and> lockable c t status
                  then (Some NextTarget, noted (record_lockout c (av_now v) t' (classifyLockoutReason status) status (lockoutHintMs (tf_fallback f)) s1))
                  else (None, s1))
         else if protectedTarget \<and> target_trust t s \<noteq> (True, True)
         then (Some (Answer (Relayed (last_call s) status (Some (isQuotaExhaustionResponse a)))), s\<lparr>cd_recordedAttempts := cd_recordedAttempts s + 1\<rparr>)
         else (let s4 = give_up_target c (av_now v) i t t' f s
               in if waits_before_fallback c f \<and> av_abortedInWait v
                  then (Some (Answer (Refused 499 ''client_disconnected'' None)), s4)
                  else (Some NextTarget, s4)))"

text \<open>A failed answer: relayed at once when the client or the request is at fault, otherwise marked, observed and settled. What is
  relayed at once keeps the verdict it came with; once observed, a response has the verdict of the observation.\<close>

definition on_failure ::
  "combo_config \<Rightarrow> attempt_view \<Rightarrow> failed_answer \<Rightarrow> nat \<Rightarrow> combo_target \<Rightarrow> combo_target list \<Rightarrow> nat \<Rightarrow> combo_state
   \<Rightarrow> target_end option \<times> combo_state" where
  "on_failure c v a0 i t rest retry s0 =
     (let f = (fa_failure a0)\<lparr>tf_requestScopedFailure :=
                 (fa_localOrMissing a0 \<or> isRequestScopedUpstreamFailure (tf_code (fa_failure a0)) (tf_type (fa_failure a0)))\<rparr>;
          a = a0\<lparr>fa_failure := f\<rparr>; status = tf_status f; relayed = Answer (Relayed (last_call s0) status (fa_classified a));
          s1 = track_retry_after (fa_retryAfter a) s0;
          recorded = (\<lambda>s. s\<lparr>cd_recordedAttempts := cd_recordedAttempts s + 1\<rparr>)
      in if status = 499 then (Some relayed, recorded s1)
         else if fa_localQueueCapacity a then (Some relayed, count_fallback i (recorded s1))
         else if isInputBoundRequestFailure (tf_code f) (tf_type f) \<and> (\<forall>n\<in>set rest. tg_modelStr n = tg_modelStr t)
         then (Some relayed, count_fallback i (recorded s1))
         else (let t' = with_selected (fa_selectedConnection a) t;
                   (providerExhausted, x) = applyComboTargetExhaustion (cc_rules c) t' f (cd_sets s1);
                   s2 = s1\<lparr>cd_sets := x\<rparr>
               in if body_specific_400 (cc_rules c) f
                  then (Some relayed, count_fallback i (note_failure (failure_entry_of t f) s2))
                  else retry_or_give_up c v a i t t' rest retry providerExhausted
                         (observeFailure (isQuotaExhaustionResponse a) (tg_executionKey t) (tell_breaker c (av_now v) t' rest a s2))))"

definition on_answer ::
  "combo_config \<Rightarrow> attempt_view \<Rightarrow> nat \<Rightarrow> combo_target \<Rightarrow> combo_target list \<Rightarrow> nat \<Rightarrow> combo_state \<Rightarrow> target_end option \<times> combo_state" where
  "on_answer c v i t rest retry s =
     (case av_answer v of
        Hangs \<Rightarrow> (Some Hung, s)
      | Accepted sel \<Rightarrow> (Some (Answer (Served (last_call s))), on_success c (av_now v) t sel s)
      | LowQuality reason \<Rightarrow> (let (e, s') = on_low_quality c (av_now v) i t reason s in (Some e, s'))
      | Failed a \<Rightarrow> on_failure c v a i t rest retry s)"

text \<open>One turn of the retry loop, with the connection's row read again before a retry.\<close>

definition attempt_once ::
  "combo_config \<Rightarrow> attempt_view \<Rightarrow> bool \<Rightarrow> nat \<Rightarrow> combo_target \<Rightarrow> combo_target list \<Rightarrow> nat \<Rightarrow> combo_state \<Rightarrow> target_end option \<times> combo_state" where
  "attempt_once c v allowRateLimited i t rest retry s0 =
     (let turn = cd_turns s0; s = s0\<lparr>cd_turns := turn + 1\<rparr>;
          disconnected = Some (Answer (Refused 499 ''client_disconnected'' None))
      in if av_aborted v then (disconnected, s)
         else (let s1 = s\<lparr>cd_globalAttempts := cd_globalAttempts s + 1\<rparr>
               in if cd_globalAttempts s1 > cc_maxGlobalAttempts c
                  then (Some (Answer (Refused 503 ''max_attempts_exceeded'' None)),
                        s1\<lparr>cd_failures := snd (recordComboFailure (av_now v) (cc_session c) (cc_name c) True (cd_failures s1))\<rparr>)
                  else if retry = 0 \<and> av_predictedSlow v
                  then (let (e, s2) = stopProtectedPriorityTarget c t
                              (s1\<lparr>cd_trace := recordComboDecision (av_now v) (tg_executionKey t) (tg_modelStr t) (SkippedBefore PredictiveTtft) (cd_trace s1)\<rparr>)
                        in (Some e, s2))
                  else if retry > 0 \<and> av_abortedInDelay v then (disconnected, s1)
                  else if retry > 0 \<and> persisted_cooldown_skip (av_now v) t (av_row v) allowRateLimited
                  then (Some NextTarget, count_fallback i s1)
                  else on_answer c v i t rest retry (dispatch_call (av_now v) t turn s1)))"

fun attempts ::
  "combo_config \<Rightarrow> combo_world \<Rightarrow> bool \<Rightarrow> nat \<Rightarrow> combo_target \<Rightarrow> combo_target list \<Rightarrow> nat \<Rightarrow> nat \<Rightarrow> combo_state \<Rightarrow> target_end \<times> combo_state" where
  "attempts c w allow i t rest 0 retry s = (NextTarget, s)"
| "attempts c w allow i t rest (Suc left) retry s =
     (case attempt_once c (wd_attempts w (cd_turns s)) allow i t rest retry s of
        (Some e, s1) \<Rightarrow> (e, s1)
      | (None, s1) \<Rightarrow> attempts c w allow i t rest left (retry + 1) s1)"

definition executeTarget :: "combo_config \<Rightarrow> combo_world \<Rightarrow> nat \<Rightarrow> combo_target \<Rightarrow> combo_target list \<Rightarrow> combo_state \<Rightarrow> target_end \<times> combo_state" where
  "executeTarget c w i t rest s =
     (let g = wd_gates w (cd_visits s)
      in case gate_target c g i t (s\<lparr>cd_visits := cd_visits s + 1\<rparr>) of
           (Some e, s1) \<Rightarrow> (e, s1)
         | (None, s1) \<Rightarrow> attempts c w (allowRateLimitedConnection t s1) i t rest (cc_maxRetries c + 1) 0 s1)"

section \<open>The loops around the targets\<close>

datatype pass_end = Settled_by combo_reply | TimedOut | HungUp | AllFailed

text \<open>The targets in order, until an answer, the end of the combo's time, or a target that hangs.\<close>

fun run_targets :: "combo_config \<Rightarrow> combo_world \<Rightarrow> nat \<Rightarrow> combo_target list \<Rightarrow> combo_state \<Rightarrow> pass_end \<times> combo_state" where
  "run_targets c w i [] s = (AllFailed, s)"
| "run_targets c w i (t # ts) s =
     (case executeTarget c w i t ts s of
        (Answer r, s1) \<Rightarrow> (Settled_by r, s1)
      | (Hung, s1) \<Rightarrow> (HungUp, s1)
      | (NextTarget, s1) \<Rightarrow>
          if cc_comboTimeoutMs c > 0 \<and> gv_doneAt (wd_gates w (cd_visits s)) - wd_startTime w \<ge> cc_comboTimeoutMs c
          then (TimedOut, s1) else run_targets c w (i + 1) ts s1)"

definition finish_trace :: "int \<Rightarrow> combo_target list \<Rightarrow> int \<Rightarrow> combo_state \<Rightarrow> combo_state" where
  "finish_trace now ts status s =
     s\<lparr>cd_trace := finishComboTrace status (finalizeComboTrace now (map (\<lambda>t. (tg_executionKey t, tg_modelStr t)) ts) (cd_trace s))\<rparr>"

definition fresh_pass :: "combo_state \<Rightarrow> combo_state" where
  "fresh_pass s =
     s\<lparr>cd_sets := no_exhaustion, cd_fallbackCount := 0, cd_recordedAttempts := 0, cd_comboErrors := [], cd_dispatchedTargets := []\<rparr>"

definition quota_class :: "combo_state \<Rightarrow> bool option" where
  "quota_class s = (if cd_observedFailure s then Some (cd_allQuota s) else None)"

definition count_combo_failure :: "combo_config \<Rightarrow> int \<Rightarrow> combo_state \<Rightarrow> combo_state" where
  "count_combo_failure c now s = s\<lparr>cd_failures := snd (recordComboFailure now (cc_session c) (cc_name c) True (cd_failures s))\<rparr>"

text \<open>A dispatch ends with a response, or with a status that may still be waited out.\<close>

datatype dispatch_end = Settled_with combo_reply | Crystallized int

definition crystallize :: "combo_config \<Rightarrow> int \<Rightarrow> combo_target list \<Rightarrow> combo_state \<Rightarrow> dispatch_end \<times> combo_state" where
  "crystallize c now ts s0 =
     (let s = finish_trace now ts 503 s0
      in case cd_lastStatus s of
           None \<Rightarrow>
             if cd_recordedAttempts s = 0 then (Settled_with (Refused 503 ''ALL_TARGETS_SKIPPED'' (quota_class s)), s)
             else (Settled_with (Refused 503 ''ALL_ACCOUNTS_INACTIVE'' None), count_combo_failure c now s)
         | Some st \<Rightarrow> (Crystallized (resolveComboTerminalStatus (cd_comboErrors s) st), s))"

fun run_sets :: "combo_config \<Rightarrow> combo_world \<Rightarrow> int \<Rightarrow> combo_target list \<Rightarrow> nat \<Rightarrow> nat \<Rightarrow> combo_state \<Rightarrow> dispatch_end \<times> combo_state" where
  "run_sets c w now ts 0 setTry s = (Settled_with (Refused 503 ''no_upstream_response'' None), count_combo_failure c now s)"
| "run_sets c w now ts (Suc left) setTry s0 =
     (let s = (if setTry > 0 then s0\<lparr>cd_setDelays := cd_setDelays s0 + 1\<rparr> else s0)
      in if setTry > 0 \<and> wd_setAborts w (cd_setDelays s0) then (Settled_with (Refused 499 ''client_disconnected'' None), s)
         else (let (e, s1) = run_targets c w 0 ts (fresh_pass s)
               in case e of
                    HungUp \<Rightarrow> (Settled_with (Refused 504 ''COMBO_TIMEOUT'' None), s1)
                  | Settled_by r \<Rightarrow> (Settled_with r, finish_trace now ts 200 s1)
                  | TimedOut \<Rightarrow> (Settled_with (Refused 504 ''COMBO_TIMEOUT'' None), finish_trace now ts 504 (finish_trace now ts 200 s1))
                  | AllFailed \<Rightarrow>
                      (let s2 = finish_trace now ts 504 (finish_trace now ts 200 s1)
                       in if left > 0 then run_sets c w now ts left (setTry + 1) s2 else crystallize c now ts s2)))"

definition start_dispatch :: "combo_state \<Rightarrow> combo_state" where
  "start_dispatch s = s\<lparr>cd_lastError := None, cd_earliestRetryAfter := None, cd_lastStatus := None\<rparr>"

definition one_dispatch :: "combo_config \<Rightarrow> combo_world \<Rightarrow> combo_target list \<Rightarrow> nat \<Rightarrow> combo_state \<Rightarrow> dispatch_end \<times> combo_state" where
  "one_dispatch c w ts k s = run_sets c w (wd_passNow w k) ts (cc_maxSetRetries c + 1) 0 (start_dispatch s)"

text \<open>The state after the first \<open>k\<close> dispatches.\<close>

fun dispatched :: "combo_config \<Rightarrow> combo_world \<Rightarrow> combo_target list \<Rightarrow> nat \<Rightarrow> combo_state \<Rightarrow> combo_state" where
  "dispatched c w ts 0 s = s"
| "dispatched c w ts (Suc k) s = snd (one_dispatch c w ts k (dispatched c w ts k s))"

text \<open>The look-up of the lock of a target for the decision to wait.\<close>

definition lookupLock :: "combo_config \<Rightarrow> int \<Rightarrow> lockout_tables \<Rightarrow> lock_lookup" where
  "lookupLock c now L provider conn t =
     map_option (\<lambda>(reason, remaining, _, _). \<lparr>li_reason = Some reason, li_remainingMs = Some remaining\<rparr>)
       (fst (getModelLockoutInfo (cc_names c) now provider conn (cc_parseModel c (or_else (ct_modelStr t) [])) L))"

definition failed_dispatch :: "combo_config \<Rightarrow> int \<Rightarrow> combo_target list \<Rightarrow> combo_state \<Rightarrow> combo_failure option" where
  "failed_dispatch c now ts s =
     (case cd_earliestRetryAfter s of
        None \<Rightarrow> None
      | Some t \<Rightarrow>
          Some (map (\<lambda>t. \<lparr>ct_provider = Some (tg_provider t), ct_connectionId = Some (tg_connectionId t), ct_modelStr = Some (tg_modelStr t)\<rparr>) ts,
                Some (max (t - now) 0), lookupLock c now (cd_lockouts s)))"

text \<open>The response when the failure is not waited out.\<close>

definition give_up :: "combo_config \<Rightarrow> int \<Rightarrow> combo_target list \<Rightarrow> int \<Rightarrow> combo_state \<Rightarrow> combo_reply \<times> combo_state" where
  "give_up c now ts status s0 =
     (let s = finish_trace now ts status s0
      in if cd_earliestRetryAfter s \<noteq> None \<and> isRetryAfterEligibleStatus (Some status)
         then (Refused status ''retry_after'' (quota_class s), s)
         else (Refused status (if quota_class s = Some True then ''quota_exhausted'' else or_else (cd_lastError s) ''all_models_failed'') (quota_class s),
               count_combo_failure c now s))"

definition handleComboChat :: "combo_config \<Rightarrow> combo_world \<Rightarrow> combo_target list \<Rightarrow> combo_state \<Rightarrow> (combo_reply \<times> combo_state) option" where
  "handleComboChat c w ts s =
     (if ts = [] then Some (Refused 404 ''model_not_found'' None, count_combo_failure c (wd_passNow w 0) s)
      else map_option
             (\<lambda>(ws, e).
                let k = (if e = WaitAborted then length ws - 1 else length ws);
                    (d, s') = one_dispatch c w ts k (dispatched c w ts k s)
                in case d of
                     Settled_with r \<Rightarrow> (r, s')
                   | Crystallized status \<Rightarrow>
                       if e = WaitAborted then (Refused 499 ''aborted'' None, s') else give_up c (wd_passNow w k) ts status s')
             (dispatchWithCooldownRetry (cc_wait c)
                (\<lambda>k. let (d, s') = one_dispatch c w ts k (dispatched c w ts k s)
                      in case d of Settled_with _ \<Rightarrow> None | Crystallized _ \<Rightarrow> Some (failed_dispatch c (wd_passNow w k) ts s'))
                (wd_waitAborts w)))"

section \<open>What the bookkeeping leaves alone\<close>

named_theorems cd_frame \<open>fields an operation does not touch\<close>

lemma observeFailure_frame [simp, cd_frame]:
  "cd_calls (observeFailure q k s) = cd_calls s" "cd_globalAttempts (observeFailure q k s) = cd_globalAttempts s"
  "cd_turns (observeFailure q k s) = cd_turns s" "cd_sets (observeFailure q k s) = cd_sets s"
  "cd_allQuota (observeFailure q k s) = (cd_allQuota s \<and> q)" "cd_observedFailure (observeFailure q k s)"
  "cd_visits (observeFailure q k s) = cd_visits s"
  by (simp_all add: observeFailure_def case_prod_unfold Let_def)

lemma count_fallback_frame [simp, cd_frame]:
  "cd_calls (count_fallback i s) = cd_calls s" "cd_globalAttempts (count_fallback i s) = cd_globalAttempts s"
  "cd_turns (count_fallback i s) = cd_turns s" "cd_sets (count_fallback i s) = cd_sets s"
  "cd_allQuota (count_fallback i s) = cd_allQuota s" "cd_observedFailure (count_fallback i s) = cd_observedFailure s"
  "cd_trust (count_fallback i s) = cd_trust s" "cd_visits (count_fallback i s) = cd_visits s"
  "cd_health (count_fallback i s) = cd_health s"
  by (simp_all add: count_fallback_def)

lemma record_skip_frame [simp, cd_frame]:
  "cd_calls (record_skip now i t r s) = cd_calls s" "cd_globalAttempts (record_skip now i t r s) = cd_globalAttempts s"
  "cd_turns (record_skip now i t r s) = cd_turns s" "cd_sets (record_skip now i t r s) = cd_sets s"
  "cd_allQuota (record_skip now i t r s) = cd_allQuota s" "cd_trust (record_skip now i t r s) = cd_trust s"
  "cd_visits (record_skip now i t r s) = cd_visits s"
  by (simp_all add: record_skip_def)

lemma note_failure_frame [simp, cd_frame]:
  "cd_calls (note_failure e s) = cd_calls s" "cd_globalAttempts (note_failure e s) = cd_globalAttempts s"
  "cd_turns (note_failure e s) = cd_turns s" "cd_sets (note_failure e s) = cd_sets s"
  "cd_allQuota (note_failure e s) = cd_allQuota s" "cd_observedFailure (note_failure e s) = cd_observedFailure s"
  "cd_trust (note_failure e s) = cd_trust s" "cd_visits (note_failure e s) = cd_visits s"
  by (simp_all add: note_failure_def)

lemma record_lockout_frame [simp, cd_frame]:
  "cd_calls (record_lockout c now t r st h s) = cd_calls s" "cd_globalAttempts (record_lockout c now t r st h s) = cd_globalAttempts s"
  "cd_turns (record_lockout c now t r st h s) = cd_turns s" "cd_sets (record_lockout c now t r st h s) = cd_sets s"
  "cd_allQuota (record_lockout c now t r st h s) = cd_allQuota s" "cd_observedFailure (record_lockout c now t r st h s) = cd_observedFailure s"
  "cd_trust (record_lockout c now t r st h s) = cd_trust s" "cd_visits (record_lockout c now t r st h s) = cd_visits s"
  by (simp_all add: record_lockout_def Let_def)

lemma model_locked_frame [simp, cd_frame]:
  "cd_calls (snd (model_locked c now t s)) = cd_calls s" "cd_globalAttempts (snd (model_locked c now t s)) = cd_globalAttempts s"
  "cd_turns (snd (model_locked c now t s)) = cd_turns s" "cd_sets (snd (model_locked c now t s)) = cd_sets s"
  "cd_allQuota (snd (model_locked c now t s)) = cd_allQuota s" "cd_trust (snd (model_locked c now t s)) = cd_trust s"
  "cd_visits (snd (model_locked c now t s)) = cd_visits s"
  by (simp_all add: model_locked_def case_prod_unfold Let_def)

lemma track_retry_after_frame [simp, cd_frame]:
  "cd_calls (track_retry_after v s) = cd_calls s" "cd_globalAttempts (track_retry_after v s) = cd_globalAttempts s"
  "cd_turns (track_retry_after v s) = cd_turns s" "cd_sets (track_retry_after v s) = cd_sets s"
  "cd_allQuota (track_retry_after v s) = cd_allQuota s" "cd_observedFailure (track_retry_after v s) = cd_observedFailure s"
  "cd_trust (track_retry_after v s) = cd_trust s" "cd_visits (track_retry_after v s) = cd_visits s"
  by (simp_all add: track_retry_after_def split: option.split)

lemma tell_breaker_frame [simp, cd_frame]:
  "cd_calls (tell_breaker c now t r a s) = cd_calls s" "cd_globalAttempts (tell_breaker c now t r a s) = cd_globalAttempts s"
  "cd_turns (tell_breaker c now t r a s) = cd_turns s" "cd_sets (tell_breaker c now t r a s) = cd_sets s"
  "cd_allQuota (tell_breaker c now t r a s) = cd_allQuota s" "cd_observedFailure (tell_breaker c now t r a s) = cd_observedFailure s"
  "cd_trust (tell_breaker c now t r a s) = cd_trust s" "cd_visits (tell_breaker c now t r a s) = cd_visits s"
  by (simp_all add: tell_breaker_def Let_def)

lemma give_up_target_frame [simp, cd_frame]:
  "cd_calls (give_up_target c now i t t' f s) = cd_calls s" "cd_globalAttempts (give_up_target c now i t t' f s) = cd_globalAttempts s"
  "cd_turns (give_up_target c now i t t' f s) = cd_turns s" "cd_sets (give_up_target c now i t t' f s) = cd_sets s"
  "cd_allQuota (give_up_target c now i t t' f s) = cd_allQuota s"
  "cd_observedFailure (give_up_target c now i t t' f s) = cd_observedFailure s"
  "cd_trust (give_up_target c now i t t' f s) = cd_trust s" "cd_visits (give_up_target c now i t t' f s) = cd_visits s"
  by (simp_all add: give_up_target_def Let_def)

lemma on_success_frame [simp, cd_frame]:
  "cd_calls (on_success c now t sel s) = cd_calls s" "cd_globalAttempts (on_success c now t sel s) = cd_globalAttempts s"
  "cd_visits (on_success c now t sel s) = cd_visits s"
  by (simp_all add: on_success_def)

lemma on_low_quality_frame [simp, cd_frame]:
  "cd_calls (snd (on_low_quality c now i t r s)) = cd_calls s" "cd_globalAttempts (snd (on_low_quality c now i t r s)) = cd_globalAttempts s"
  "cd_sets (snd (on_low_quality c now i t r s)) = cd_sets s" "\<not> cd_allQuota (snd (on_low_quality c now i t r s))"
  "cd_visits (snd (on_low_quality c now i t r s)) = cd_visits s"
  by (simp_all add: on_low_quality_def Let_def)

lemma dispatch_call_frame [simp, cd_frame]:
  "cd_calls (dispatch_call now t n s) = cd_calls s @ [(t, n)]" "cd_globalAttempts (dispatch_call now t n s) = cd_globalAttempts s"
  "cd_allQuota (dispatch_call now t n s) = cd_allQuota s" "cd_sets (dispatch_call now t n s) = cd_sets s"
  "cd_trust (dispatch_call now t n s) = cd_trust s" "cd_visits (dispatch_call now t n s) = cd_visits s"
  by (simp_all add: dispatch_call_def Let_def)

lemmas snd_if = if_distrib [of snd] if_distrib [of cd_calls] if_distrib [of cd_globalAttempts] if_distrib [of cd_visits]
  if_distrib [of cd_sets] if_distrib [of cd_allQuota]

lemma retry_or_give_up_frame [simp, cd_frame]:
  "cd_calls (snd (retry_or_give_up c v a i t t' rest retry pe s)) = cd_calls s"
  "cd_globalAttempts (snd (retry_or_give_up c v a i t t' rest retry pe s)) = cd_globalAttempts s"
  "cd_visits (snd (retry_or_give_up c v a i t t' rest retry pe s)) = cd_visits s"
  "cd_sets (snd (retry_or_give_up c v a i t t' rest retry pe s)) = cd_sets s"
  "cd_allQuota (snd (retry_or_give_up c v a i t t' rest retry pe s)) = cd_allQuota s"
  by (simp_all add: retry_or_give_up_def Let_def case_prod_unfold snd_if split del: if_split cong: if_cong)

lemma on_failure_frame [simp, cd_frame]:
  "cd_calls (snd (on_failure c v a i t rest retry s)) = cd_calls s"
  "cd_globalAttempts (snd (on_failure c v a i t rest retry s)) = cd_globalAttempts s"
  "cd_visits (snd (on_failure c v a i t rest retry s)) = cd_visits s"
  by (simp_all add: on_failure_def Let_def case_prod_unfold snd_if split del: if_split cong: if_cong)

end
