(* ===== verification/ComboRouting.thy ===== *)
theory ComboRouting
  imports ComboDispatch
begin

text \<open>
  What holds of a request that goes through a combo, whatever the gates, the upstreams, the clocks and the client do: the bound on the
  upstream calls, which answer is served, what the quota verdict rests on, and which targets are left alone.
\<close>

section \<open>Answers in the log\<close>

definition answer_to :: "combo_world \<Rightarrow> combo_target \<times> nat \<Rightarrow> upstream_answer" where
  "answer_to w call = av_answer (wd_attempts w (snd call))"

fun accepted :: "upstream_answer \<Rightarrow> bool" where
  "accepted (Accepted _) = True"
| "accepted _ = False"

fun quota_failed :: "upstream_answer \<Rightarrow> bool" where
  "quota_failed (Failed a) = isQuotaExhaustionResponse a"
| "quota_failed _ = False"

definition bounded_calls :: "combo_config \<Rightarrow> combo_state \<Rightarrow> bool" where
  "bounded_calls c s \<longleftrightarrow> int (length (cd_calls s)) \<le> cd_globalAttempts s \<and> int (length (cd_calls s)) \<le> max 0 (cc_maxGlobalAttempts c)"

definition none_accepted :: "combo_world \<Rightarrow> combo_state \<Rightarrow> bool" where
  "none_accepted w s \<longleftrightarrow> (\<forall>x\<in>set (cd_calls s). \<not> accepted (answer_to w x))"

definition quota_only :: "combo_world \<Rightarrow> combo_state \<Rightarrow> bool" where
  "quota_only w s \<longleftrightarrow> (\<forall>x\<in>set (cd_calls s). quota_failed (answer_to w x))"

text \<open>Between two targets, and after a response.\<close>

definition sound :: "combo_config \<Rightarrow> combo_world \<Rightarrow> combo_state \<Rightarrow> bool" where
  "sound c w s \<longleftrightarrow> bounded_calls c s \<and> none_accepted w s \<and> (cd_allQuota s \<longrightarrow> quota_only w s)"

definition sound_reply :: "combo_config \<Rightarrow> combo_world \<Rightarrow> combo_reply \<Rightarrow> combo_state \<Rightarrow> bool" where
  "sound_reply c w r s \<longleftrightarrow>
     bounded_calls c s
     \<and> (case r of
          Served n \<Rightarrow> \<exists>xs x. cd_calls s = xs @ [x] \<and> n = length xs \<and> accepted (answer_to w x) \<and> (\<forall>y\<in>set xs. \<not> accepted (answer_to w y))
        | Relayed n st q \<Rightarrow> none_accepted w s \<and> (\<exists>xs x a. cd_calls s = xs @ [x] \<and> n = length xs \<and> answer_to w x = Failed a
            \<and> tf_status (fa_failure a) = st \<and> (q = Some True \<longrightarrow> isQuotaExhaustionResponse a))
        | Refused st code q \<Rightarrow> none_accepted w s \<and> (q = Some True \<longrightarrow> quota_only w s))"

section \<open>One attempt\<close>

text \<open>How an attempt can end: before the call, or with a call whose answer decides.\<close>

definition local_end :: "target_end option \<Rightarrow> bool" where
  "local_end e \<longleftrightarrow> (\<exists>st code. e = Some (Answer (Refused st code None))) \<or> e = Some NextTarget"

definition relays :: "nat \<Rightarrow> failed_answer \<Rightarrow> target_end option \<Rightarrow> bool" where
  "relays n f e \<longleftrightarrow> (\<exists>q. e = Some (Answer (Relayed n (tf_status (fa_failure f)) q)) \<and> (q = Some True \<longrightarrow> isQuotaExhaustionResponse f))"

definition tail_end :: "nat \<Rightarrow> failed_answer \<Rightarrow> target_end option \<Rightarrow> bool" where
  "tail_end n f e \<longleftrightarrow> relays n f e \<or> e = None \<or> local_end e"

definition step_end :: "nat \<Rightarrow> upstream_answer \<Rightarrow> target_end option \<Rightarrow> combo_state \<Rightarrow> combo_state \<Rightarrow> bool" where
  "step_end n a e s s' \<longleftrightarrow>
     (case a of
        Hangs \<Rightarrow> e = Some Hung
      | Accepted _ \<Rightarrow> e = Some (Answer (Served n))
      | LowQuality _ \<Rightarrow> local_end e \<and> \<not> cd_allQuota s'
      | Failed f \<Rightarrow>
          tail_end n f e \<and> (\<not> relays n f e \<longrightarrow> cd_allQuota s' = (cd_allQuota s \<and> isQuotaExhaustionResponse f)))"

lemma retry_or_give_up_end [simp]:
  assumes "n = last_call s" and "tf_status (fa_failure a) = tf_status (fa_failure f)"
    and "isQuotaExhaustionResponse a = isQuotaExhaustionResponse f"
  shows "tail_end n f (fst (retry_or_give_up c v a i t t' rest retry pe s))"
  using assms unfolding retry_or_give_up_def Let_def case_prod_unfold local_end_def tail_end_def relays_def by simp

lemma relays_simps [simp]:
  "tf_status (fa_failure f) = st \<Longrightarrow> relays n f (Some (Answer (Relayed n st (fa_classified f))))"
  "tf_status (fa_failure f) = st \<Longrightarrow> tail_end n f (Some (Answer (Relayed n st (fa_classified f))))"
  by (auto simp: tail_end_def relays_def isQuotaExhaustionResponse_def)

lemma isQuotaExhaustionResponse_update [simp]: "isQuotaExhaustionResponse (a\<lparr>fa_failure := f\<rparr>) = isQuotaExhaustionResponse a"
  by (simp add: isQuotaExhaustionResponse_def split: option.split)

lemma on_failure_end:
  assumes "on_failure c v a i t rest retry s = (e, s')"
  shows "step_end (last_call s) (Failed a) e s s'"
proof -
  have "step_end (last_call s) (Failed a) (fst (on_failure c v a i t rest retry s)) s (snd (on_failure c v a i t rest retry s))"
    unfolding on_failure_def Let_def step_end_def case_prod_unfold by (simp add: last_call_def)
  with assms show ?thesis by simp
qed

lemma on_answer_end:
  assumes "on_answer c v i t rest retry s = (e, s')"
  shows "step_end (last_call s) (av_answer v) e s s' \<and> cd_calls s' = cd_calls s \<and> cd_globalAttempts s' = cd_globalAttempts s
    \<and> cd_visits s' = cd_visits s"
proof (cases "av_answer v")
  case (Failed a)
  then have "on_failure c v a i t rest retry s = (e, s')" using assms by (simp add: on_answer_def)
  with on_failure_end [OF this] on_failure_frame [of c v a i t rest retry s] Failed show ?thesis by simp
next
  case (LowQuality r)
  then have e: "on_low_quality c (av_now v) i t r s = (the e, s') \<and> e \<noteq> None" using assms by (auto simp: on_answer_def case_prod_unfold Let_def)
  then have "local_end e" by (auto simp: on_low_quality_def Let_def local_end_def split: if_splits)
  then show ?thesis using e LowQuality on_low_quality_frame [of c "av_now v" i t r s] by (simp add: step_end_def)
qed (use assms in \<open>auto simp: on_answer_def step_end_def\<close>)

lemma attempt_once_end:
  assumes "attempt_once c v allow i t rest retry s = (e, s')"
  shows "cd_visits s' = cd_visits s \<and> cd_globalAttempts s \<le> cd_globalAttempts s' \<and>
    ((cd_calls s' = cd_calls s \<and> (cd_allQuota s' \<longrightarrow> cd_allQuota s) \<and> local_end e)
    \<or> (cd_calls s' = cd_calls s @ [(t, cd_turns s)] \<and> cd_globalAttempts s' = cd_globalAttempts s + 1
        \<and> cd_globalAttempts s' \<le> cc_maxGlobalAttempts c \<and> step_end (length (cd_calls s)) (av_answer v) e s s'))"
proof -
  let ?s1 = "s\<lparr>cd_turns := cd_turns s + 1, cd_globalAttempts := cd_globalAttempts s + 1\<rparr>"
  show ?thesis
  proof (cases "av_aborted v \<or> cd_globalAttempts s + 1 > cc_maxGlobalAttempts c \<or> retry > 0 \<and> av_abortedInDelay v
      \<or> retry = 0 \<and> av_predictedSlow v
      \<or> retry > 0 \<and> persisted_cooldown_skip (av_now v) t (av_row v) allow")
    case True
    then show ?thesis using assms by (auto simp: attempt_once_def stopProtectedPriorityTarget_def Let_def local_end_def split: if_splits)
  next
    case False
    let ?d = "dispatch_call (av_now v) t (cd_turns s) ?s1"
    have "on_answer c v i t rest retry ?d = (e, s')" using assms False by (auto simp: attempt_once_def Let_def)
    from on_answer_end [OF this] show ?thesis using False by (auto simp: last_call_def step_end_def split: upstream_answer.splits)
  qed
qed

lemmas sound_defs = sound_def sound_reply_def bounded_calls_def none_accepted_def quota_only_def

text \<open>After an attempt the state is sound, or the request has a sound response, or the target hangs.\<close>

definition end_ok :: "combo_config \<Rightarrow> combo_world \<Rightarrow> target_end \<Rightarrow> combo_state \<Rightarrow> bool" where
  "end_ok c w e s \<longleftrightarrow>
     (case e of NextTarget \<Rightarrow> sound c w s | Answer r \<Rightarrow> sound_reply c w r s | Hung \<Rightarrow> bounded_calls c s \<and> none_accepted w s)"

lemma local_end_ok: "sound c w s \<Longrightarrow> local_end e \<Longrightarrow> end_ok c w (the e) s"
  by (auto simp: local_end_def end_ok_def sound_def sound_reply_def)

lemma attempt_once_sound:
  assumes "sound c w s" and "attempt_once c (wd_attempts w (cd_turns s)) allow i t rest retry s = (e, s')"
  shows "(e = None \<longrightarrow> sound c w s') \<and> (\<forall>x. e = Some x \<longrightarrow> end_ok c w x s')"
proof -
  let ?v = "wd_attempts w (cd_turns s)" and ?x = "(t, cd_turns s)"
  consider (none) "cd_calls s' = cd_calls s" "cd_allQuota s' \<longrightarrow> cd_allQuota s" "local_end e" "cd_globalAttempts s \<le> cd_globalAttempts s'"
    | (call) "cd_calls s' = cd_calls s @ [?x]" "cd_globalAttempts s' = cd_globalAttempts s + 1"
        "cd_globalAttempts s' \<le> cc_maxGlobalAttempts c" "step_end (length (cd_calls s)) (av_answer ?v) e s s'"
    using attempt_once_end [OF assms(2)] by blast
  then show ?thesis
  proof cases
    case none
    then have "sound c w s'" using assms(1) by (auto simp: sound_defs)
    then show ?thesis using none(3) local_end_ok [of c w s' e] by (auto simp: local_end_def)
  next
    case call
    have b: "bounded_calls c s'" using assms(1) call(1-3) by (auto simp: sound_defs)
    have ans: "answer_to w ?x = av_answer ?v" by (simp add: answer_to_def)
    have n: "none_accepted w s' \<longleftrightarrow> \<not> accepted (av_answer ?v)" using assms(1) call(1) ans by (auto simp: sound_defs)
    have q: "quota_only w s' \<longleftrightarrow> quota_only w s \<and> quota_failed (av_answer ?v)" using call(1) ans by (auto simp: quota_only_def)
    show ?thesis
    proof (cases "av_answer ?v")
      case Hangs
      then show ?thesis using b n call(4) by (simp add: step_end_def end_ok_def)
    next
      case (Accepted sel)
      then show ?thesis using b ans assms(1) call(1,4) by (auto simp: step_end_def end_ok_def sound_reply_def sound_def none_accepted_def)
    next
      case (LowQuality r)
      then have "sound c w s'" "local_end e" using b n call(4) by (simp_all add: sound_def step_end_def)
      then show ?thesis using local_end_ok [of c w s' e] by (auto simp: local_end_def)
    next
      case (Failed a)
      show ?thesis
      proof (cases "relays (length (cd_calls s)) a e")
        case True
        then show ?thesis using b n ans Failed call(1) by (auto simp: relays_def end_ok_def sound_reply_def)
      next
        case False
        then have "e = None \<or> local_end e" "cd_allQuota s' = (cd_allQuota s \<and> isQuotaExhaustionResponse a)"
          using Failed call(4) by (auto simp: step_end_def tail_end_def)
        moreover have "sound c w s'" using b n q Failed assms(1) calculation(2) by (auto simp: sound_def)
        ultimately show ?thesis using local_end_ok [of c w s' e] by (auto simp: local_end_def)
      qed
    qed
  qed
qed

section \<open>A target, a pass, a dispatch\<close>

lemma attempts_sound:
  assumes "sound c w s" and "attempts c w allow i t rest left retry s = (e, s')"
  shows "end_ok c w e s'"
  using assms
proof (induction left arbitrary: retry s)
  case 0
  then show ?case by (simp add: end_ok_def)
next
  case (Suc left)
  obtain e1 s1 where a: "attempt_once c (wd_attempts w (cd_turns s)) allow i t rest retry s = (e1, s1)" by force
  with attempt_once_sound [OF Suc.prems(1) a] Suc show ?case by (cases e1) auto
qed

lemma stop_frame [simp]:
  "snd (stopProtectedPriorityTarget c t s) = observeFailure False (tg_executionKey t) s"
  "local_end (Some (fst (stopProtectedPriorityTarget c t s)))" "local_end (Some NextTarget)"
  "local_end (Some (Answer (Refused st code None)))"
  by (simp_all add: stopProtectedPriorityTarget_def local_end_def)

lemma late_gates_frame [simp]:
  "cd_calls (snd (late_gates c g i t s)) = cd_calls s"
  "cd_globalAttempts (snd (late_gates c g i t s)) = cd_globalAttempts s"
  "cd_sets (snd (late_gates c g i t s)) = cd_sets s"
  "cd_turns (snd (late_gates c g i t s)) = cd_turns s"
  "cd_visits (snd (late_gates c g i t s)) = cd_visits s"
  by (simp_all add: late_gates_def Let_def case_prod_unfold snd_if if_distrib [of cd_turns] split del: if_split cong: if_cong)

lemma late_gates_end:
  "cd_allQuota (snd (late_gates c g i t s)) \<longrightarrow> cd_allQuota s"
  "fst (late_gates c g i t s) = None \<longrightarrow> cd_trust (snd (late_gates c g i t s)) = cd_trust s"
  "fst (late_gates c g i t s) = None \<or> local_end (fst (late_gates c g i t s))"
  unfolding late_gates_def Let_def case_prod_unfold by simp_all

lemma gate_target_frame [simp]:
  "cd_calls (snd (gate_target c g i t s)) = cd_calls s"
  "cd_globalAttempts (snd (gate_target c g i t s)) = cd_globalAttempts s"
  "cd_sets (snd (gate_target c g i t s)) = cd_sets s"
  "cd_turns (snd (gate_target c g i t s)) = cd_turns s"
  "cd_visits (snd (gate_target c g i t s)) = cd_visits s"
  by (simp_all add: gate_target_def Let_def case_prod_unfold snd_if if_distrib [of cd_turns] split del: if_split cong: if_cong)

lemma late_gates_quota [simp]: "\<not> cd_allQuota s \<Longrightarrow> \<not> cd_allQuota (snd (late_gates c g i t s))"
  using late_gates_end(1) by blast

lemma gate_target_quota: "cd_allQuota (snd (gate_target c g i t s)) \<longrightarrow> cd_allQuota s"
  by (rule impI, rule ccontr) (simp add: gate_target_def Let_def case_prod_unfold snd_if split del: if_split cong: if_cong)

lemma gate_target_exhausted: "exhausted_target t (cd_sets s) \<Longrightarrow> fst (gate_target c g i t s) \<noteq> None"
  by (simp add: gate_target_def Let_def case_prod_unfold del: not_None_eq)

lemma gate_target_opens:
  "fst (gate_target c g i t s) = None \<longrightarrow> cd_trust (snd (gate_target c g i t s)) = cd_trust s"
  using late_gates_end(2) by (simp add: gate_target_def Let_def case_prod_unfold del: not_None_eq)

lemma gate_target_local: "fst (gate_target c g i t s) = None \<or> local_end (fst (gate_target c g i t s))"
  using late_gates_end(3) unfolding gate_target_def Let_def case_prod_unfold by simp

lemma gate_target_end:
  assumes "gate_target c g i t s = (e, s')"
  shows "cd_calls s' = cd_calls s \<and> cd_globalAttempts s' = cd_globalAttempts s \<and> cd_sets s' = cd_sets s
    \<and> (cd_allQuota s' \<longrightarrow> cd_allQuota s) \<and> cd_turns s' = cd_turns s \<and> cd_visits s' = cd_visits s \<and> (e = None \<or> local_end e)
    \<and> (e = None \<longrightarrow> \<not> exhausted_target t (cd_sets s) \<and> cd_trust s' = cd_trust s)"
  using gate_target_frame [of c g i t s] gate_target_quota [of c g i t s] gate_target_opens [of c g i t s] gate_target_exhausted [of t s c g i]
    gate_target_local [of c g i t s] unfolding assms by auto

lemma executeTarget_sound:
  assumes "sound c w s" and "executeTarget c w i t rest s = (e, s')"
  shows "end_ok c w e s'"
proof -
  let ?s = "s\<lparr>cd_visits := cd_visits s + 1\<rparr>"
  obtain e1 s1 where g: "gate_target c (wd_gates w (cd_visits s)) i t ?s = (e1, s1)" by force
  from gate_target_end [OF g] assms(1) have s1: "sound c w s1" "e1 = None \<or> local_end e1" by (auto simp: sound_defs)
  show ?thesis
  proof (cases e1)
    case None
    then have "attempts c w (allowRateLimitedConnection t s1) i t rest (cc_maxRetries c + 1) 0 s1 = (e, s')"
      using assms(2) g by (simp add: executeTarget_def Let_def del: attempts.simps)
    with attempts_sound [OF s1(1)] show ?thesis .
  next
    case (Some x)
    then show ?thesis using assms(2) g s1 local_end_ok [of c w s1 e1] by (simp add: executeTarget_def Let_def)
  qed
qed

definition pass_ok :: "combo_config \<Rightarrow> combo_world \<Rightarrow> pass_end \<Rightarrow> combo_state \<Rightarrow> bool" where
  "pass_ok c w e s \<longleftrightarrow>
     (case e of Settled_by r \<Rightarrow> sound_reply c w r s | HungUp \<Rightarrow> bounded_calls c s \<and> none_accepted w s | _ \<Rightarrow> sound c w s)"

lemma run_targets_sound:
  assumes "sound c w s" and "run_targets c w i ts s = (e, s')"
  shows "pass_ok c w e s'"
  using assms
proof (induction ts arbitrary: i s)
  case Nil
  then show ?case by (simp add: pass_ok_def)
next
  case (Cons t ts)
  obtain e1 s1 where x: "executeTarget c w i t ts s = (e1, s1)" by force
  note ok = executeTarget_sound [OF Cons.prems(1) x]
  show ?case
  proof (cases e1)
    case NextTarget
    then have s1: "sound c w s1" using ok by (simp add: end_ok_def)
    with NextTarget Cons.prems(2) x Cons.IH [OF s1] show ?thesis by (auto simp: pass_ok_def [of _ _ TimedOut] split: if_splits)
  qed (use ok Cons.prems(2) x in \<open>auto simp: end_ok_def pass_ok_def\<close>)
qed

lemma outer_frame [simp]:
  "cd_calls (finish_trace now ts st s) = cd_calls s" "cd_globalAttempts (finish_trace now ts st s) = cd_globalAttempts s"
  "cd_allQuota (finish_trace now ts st s) = cd_allQuota s" "cd_observedFailure (finish_trace now ts st s) = cd_observedFailure s"
  "cd_calls (fresh_pass s) = cd_calls s" "cd_globalAttempts (fresh_pass s) = cd_globalAttempts s" "cd_allQuota (fresh_pass s) = cd_allQuota s"
  "cd_calls (count_combo_failure c now s) = cd_calls s" "cd_globalAttempts (count_combo_failure c now s) = cd_globalAttempts s"
  "cd_calls (start_dispatch s) = cd_calls s" "cd_globalAttempts (start_dispatch s) = cd_globalAttempts s"
  "cd_allQuota (start_dispatch s) = cd_allQuota s"
  by (simp_all add: finish_trace_def fresh_pass_def count_combo_failure_def start_dispatch_def)

lemma sound_cong: "cd_calls s' = cd_calls s \<Longrightarrow> cd_globalAttempts s' = cd_globalAttempts s \<Longrightarrow> cd_allQuota s' = cd_allQuota s \<Longrightarrow> sound c w s' = sound c w s"
  by (simp add: sound_defs)

lemma sound_reply_cong: "cd_calls s' = cd_calls s \<Longrightarrow> cd_globalAttempts s' = cd_globalAttempts s \<Longrightarrow> sound_reply c w r s' = sound_reply c w r s"
  by (cases r) (simp_all add: sound_defs)

lemma outer_sound [simp]:
  "sound c w (finish_trace now ts st s) = sound c w s" "sound c w (fresh_pass s) = sound c w s" "sound c w (start_dispatch s) = sound c w s"
  "sound_reply c w r (finish_trace now ts st s) = sound_reply c w r s" "sound_reply c w r (count_combo_failure c now s) = sound_reply c w r s"
  "sound c w (s\<lparr>cd_setDelays := n\<rparr>) = sound c w s"
  by (rule sound_cong sound_reply_cong; simp)+

lemma quota_class_finish [simp]: "quota_class (finish_trace now ts st s) = quota_class s"
  by (simp add: quota_class_def)

lemma refused_sound: "sound c w s \<Longrightarrow> q = None \<or> q = quota_class s \<Longrightarrow> sound_reply c w (Refused st code q) s"
  by (auto simp: sound_def sound_reply_def quota_class_def split: if_splits)

definition dispatch_ok :: "combo_config \<Rightarrow> combo_world \<Rightarrow> dispatch_end \<Rightarrow> combo_state \<Rightarrow> bool" where
  "dispatch_ok c w e s \<longleftrightarrow> (case e of Settled_with r \<Rightarrow> sound_reply c w r s | Crystallized st \<Rightarrow> sound c w s)"

lemma crystallize_sound:
  assumes "sound c w s" and "crystallize c now ts s = (e, s')"
  shows "dispatch_ok c w e s'"
  using assms by (auto simp: crystallize_def Let_def dispatch_ok_def intro!: refused_sound split: option.splits if_splits)

lemma run_sets_sound:
  assumes "sound c w s" and "run_sets c w now ts left setTry s = (e, s')"
  shows "dispatch_ok c w e s'"
  using assms
proof (induction left arbitrary: setTry s)
  case 0
  then show ?case by (auto simp: dispatch_ok_def intro!: refused_sound)
next
  case (Suc left)
  let ?s = "if setTry > 0 then s\<lparr>cd_setDelays := cd_setDelays s + 1\<rparr> else s"
  have s: "sound c w ?s" using Suc.prems(1) by simp
  obtain e1 s1 where p: "run_targets c w 0 ts (fresh_pass ?s) = (e1, s1)" by force
  have ok: "pass_ok c w e1 s1" using run_targets_sound [OF _ p] s by simp
  show ?case
  proof (cases "setTry > 0 \<and> wd_setAborts w (cd_setDelays s)")
    case True
    then show ?thesis using Suc.prems s by (auto simp: dispatch_ok_def intro!: refused_sound)
  next
    case False
    then have r: "run_sets c w now ts (Suc left) setTry s =
        (case e1 of
           HungUp \<Rightarrow> (Settled_with (Refused 504 ''COMBO_TIMEOUT'' None), s1)
         | Settled_by r \<Rightarrow> (Settled_with r, finish_trace now ts 200 s1)
         | TimedOut \<Rightarrow> (Settled_with (Refused 504 ''COMBO_TIMEOUT'' None), finish_trace now ts 504 (finish_trace now ts 200 s1))
         | AllFailed \<Rightarrow>
             (let s2 = finish_trace now ts 504 (finish_trace now ts 200 s1)
              in if left > 0 then run_sets c w now ts left (setTry + 1) s2 else crystallize c now ts s2))"
      using p by (simp only: run_sets.simps(2) Let_def if_not_P [OF False] if_False prod.case)
    show ?thesis
    proof (cases e1)
      case AllFailed
      then have "sound c w (finish_trace now ts 504 (finish_trace now ts 200 s1))" using ok by (simp add: pass_ok_def)
      from Suc.IH [OF this] crystallize_sound [OF this] Suc.prems(2) AllFailed show ?thesis
        unfolding r by (cases "left > 0") (simp_all only: pass_end.case Let_def if_True if_False)
    next
      case TimedOut
      then show ?thesis using ok Suc.prems(2) refused_sound [of c w s1 None] 
        unfolding r by (simp only: pass_end.case) (auto simp: pass_ok_def dispatch_ok_def)
    next
      case (Settled_by x)
      then show ?thesis using ok Suc.prems(2) unfolding r by (simp only: pass_end.case) (auto simp: pass_ok_def dispatch_ok_def)
    next
      case HungUp
      then show ?thesis using ok Suc.prems(2) unfolding r
        by (simp only: pass_end.case) (auto simp: pass_ok_def dispatch_ok_def sound_reply_def)
    qed
  qed
qed

lemma one_dispatch_sound:
  "sound c w s \<Longrightarrow> one_dispatch c w ts k s = (e, s') \<Longrightarrow> dispatch_ok c w e s'"
  by (rule run_sets_sound [of c w "start_dispatch s"]) (simp_all add: one_dispatch_def del: run_sets.simps)

section \<open>A request\<close>

lemma dispatched_sound:
  assumes "sound c w s" and "\<forall>j<k. \<exists>st. fst (one_dispatch c w ts j (dispatched c w ts j s)) = Crystallized st"
  shows "sound c w (dispatched c w ts k s)"
  using assms(2)
proof (induction k)
  case 0
  then show ?case using assms(1) by simp
next
  case (Suc k)
  then obtain st where st: "fst (one_dispatch c w ts k (dispatched c w ts k s)) = Crystallized st" by blast
  obtain s' where d: "one_dispatch c w ts k (dispatched c w ts k s) = (Crystallized st, s')"
    using st by (cases "one_dispatch c w ts k (dispatched c w ts k s)") auto
  from one_dispatch_sound [OF Suc.IH d] Suc.prems show ?case by (simp add: d dispatch_ok_def)
qed

text \<open>What a loop of waits has seen when it ends.\<close>

lemma wait_loop_path:
  assumes "wait_loop decide dispatch aborts a b = Some (ws, e)"
  shows "(\<forall>j<length ws. dispatch (a + j) \<noteq> None) \<and> (e = WaitAborted \<longrightarrow> ws \<noteq> [])
    \<and> (e = Settled \<longrightarrow> dispatch (a + length ws) = None) \<and> (e = GivenUp \<longrightarrow> dispatch (a + length ws) \<noteq> None)"
  using assms
proof (induction ws arbitrary: a b)
  case Nil
  then show ?case by (subst (asm) wait_loop.simps) (auto split: option.splits if_splits bind_splits)
next
  case (Cons x ws)
  show ?case
  proof (cases "aborts a")
    case True
    with Cons.prems show ?thesis by (subst (asm) wait_loop.simps) (auto split: option.splits if_splits bind_splits)
  next
    case False
    with Cons.prems obtain y b' where y: "dispatch a = Some y" "wait_loop decide dispatch aborts (a + 1) b' = Some (ws, e)"
      by (subst (asm) wait_loop.simps) (auto split: option.splits if_splits bind_splits)
    from Cons.IH [OF y(2)] y(1) show ?thesis by (auto simp: less_Suc_eq_0_disj)
  qed
qed

lemma wait_loop_path_0:
  "wait_loop decide dispatch aborts 0 b = Some (ws, e) \<Longrightarrow> (\<forall>j<length ws. dispatch j \<noteq> None) \<and> (e = WaitAborted \<longrightarrow> ws \<noteq> [])
    \<and> (e = Settled \<longrightarrow> dispatch (length ws) = None) \<and> (e = GivenUp \<longrightarrow> dispatch (length ws) \<noteq> None)"
  using wait_loop_path [of decide dispatch aborts 0] by simp

lemma handle_sound:
  assumes "sound c w s" and "handleComboChat c w ts s = Some (r, s')"
  shows "sound_reply c w r s'"
proof (cases "ts = []")
  case True
  then show ?thesis using assms by (auto simp: handleComboChat_def refused_sound)
next
  case False
  let ?d = "\<lambda>k. one_dispatch c w ts k (dispatched c w ts k s)"
  let ?dispatch = "\<lambda>k. let (d, s') = ?d k in case d of Settled_with _ \<Rightarrow> None | Crystallized _ \<Rightarrow> Some (failed_dispatch c (wd_passNow w k) ts s')"
  obtain ws e where run: "dispatchWithCooldownRetry (cc_wait c) ?dispatch (wd_waitAborts w) = Some (ws, e)"
    using assms(2) False by (auto simp: handleComboChat_def)
  let ?k = "if e = WaitAborted then length ws - 1 else length ws"
  have path: "\<forall>j<length ws. ?dispatch j \<noteq> None" "e = WaitAborted \<Longrightarrow> ws \<noteq> []"
    using wait_loop_path_0 [OF run [unfolded dispatchWithCooldownRetry_def]] by blast+
  have "\<exists>st. fst (?d j) = Crystallized st" if "j < ?k" for j
  proof -
    have "j < length ws" using that by (simp split: if_splits)
    with path(1) have "?dispatch j \<noteq> None" by blast
    then show ?thesis by (cases "fst (?d j)") (auto simp: case_prod_unfold Let_def)
  qed
  then have pre: "sound c w (dispatched c w ts ?k s)" by (intro dispatched_sound assms(1)) blast
  obtain d s1 where d: "?d ?k = (d, s1)" by force
  from one_dispatch_sound [OF pre d] have ok: "dispatch_ok c w d s1" .
  have res: "(r, s') = (case d of
      Settled_with r \<Rightarrow> (r, s1)
    | Crystallized status \<Rightarrow>
        if e = WaitAborted then (Refused 499 ''aborted'' None, s1) else give_up c (wd_passNow w ?k) ts status s1)"
    using assms(2) False run d by (simp add: handleComboChat_def Let_def split: if_splits)
  show ?thesis
  proof (cases d)
    case (Settled_with x)
    then show ?thesis using res ok by (simp add: dispatch_ok_def)
  next
    case (Crystallized st)
    then have "sound c w s1" using ok by (simp add: dispatch_ok_def)
    then show ?thesis using res Crystallized
      by (auto simp: give_up_def Let_def intro!: refused_sound split: if_splits)
  qed
qed

definition at_start :: "combo_state \<Rightarrow> bool" where
  "at_start s \<longleftrightarrow> cd_calls s = [] \<and> cd_globalAttempts s = 0"

lemma at_start_sound: "at_start s \<Longrightarrow> sound c w s"
  by (auto simp: at_start_def sound_defs)

lemma handle_returns:
  assumes "0 \<le> ws_budgetMs (cc_wait c)"
  shows "\<exists>r s'. handleComboChat c w ts s = Some (r, s')"
proof (cases "ts = []")
  case False
  obtain ws e where "dispatchWithCooldownRetry (cc_wait c)
      (\<lambda>k. let (d, s') = one_dispatch c w ts k (dispatched c w ts k s)
            in case d of Settled_with _ \<Rightarrow> None | Crystallized _ \<Rightarrow> Some (failed_dispatch c (wd_passNow w k) ts s'))
      (wd_waitAborts w) = Some (ws, e)"
    using combo_wait.loop_returns [OF assms] unfolding dispatchWithCooldownRetry_def by blast
  then show ?thesis using False by (simp add: handleComboChat_def)
qed (simp add: handleComboChat_def)

section \<open>What the caller gets\<close>

text \<open>C2. Whatever the gates, the upstreams, the clocks and the client do, a request through a combo returns, and it makes at most
  \<open>clampGlobalAttempts\<close> upstream calls, never more than 200, over all targets, retries, set retries and cooldown re-dispatches.\<close>

theorem combo_work_is_bounded:
  assumes "at_start s" and "0 \<le> ws_budgetMs (cc_wait c)" and "cc_maxGlobalAttempts c = clampGlobalAttempts v"
  shows "\<exists>r s'. handleComboChat c w ts s = Some (r, s') \<and> int (length (cd_calls s')) \<le> clampGlobalAttempts v \<and> length (cd_calls s') \<le> 200"
proof -
  obtain r s' where h: "handleComboChat c w ts s = Some (r, s')" using handle_returns [OF assms(2)] by blast
  have "1 \<le> clampGlobalAttempts v" "clampGlobalAttempts v \<le> 200"
    by (auto simp: clampGlobalAttempts_def MAX_GLOBAL_ATTEMPTS_def MAX_GLOBAL_ATTEMPTS_HARD_CAP_def split: option.split)
  with handle_sound [OF at_start_sound [OF assms(1)] h] h assms(3) show ?thesis by (auto simp: sound_reply_def bounded_calls_def)
qed

text \<open>C3. The response served to the client is the first accepted one, and the combo makes no call after it: a reply is \<open>Served n\<close>
  exactly when call \<open>n\<close> is the last call, its answer was accepted and no earlier answer was.\<close>

theorem first_success_is_served:
  assumes "at_start s" and "handleComboChat c w ts s = Some (r, s')"
  shows "r = Served n \<longleftrightarrow>
    (\<exists>xs x. cd_calls s' = xs @ [x] \<and> n = length xs \<and> accepted (answer_to w x) \<and> (\<forall>y\<in>set xs. \<not> accepted (answer_to w y)))"
proof -
  note ok = handle_sound [OF at_start_sound [OF assms(1)] assms(2)]
  then show ?thesis by (cases r) (auto simp: sound_reply_def none_accepted_def)
qed

text \<open>The verdict that the response carries for whoever called the combo.\<close>

fun quota_verdict :: "combo_reply \<Rightarrow> bool option" where
  "quota_verdict (Served n) = None"
| "quota_verdict (Relayed n st q) = q"
| "quota_verdict (Refused st code q) = q"

text \<open>C6. A response that is marked as a quota exhaustion is one. When the combo made the response up, every single call of the request
  was answered by a quota failure: no timeout, bad response or other error is hidden behind the verdict. When it relays the response of
  a call, that call was the last one and its answer was a quota failure; of the calls before it nothing is said
  (\<open>a_relayed_verdict_hides_other_failures\<close>).\<close>

theorem quota_verdict_is_sound:
  assumes "at_start s" and "handleComboChat c w ts s = Some (r, s')" and "quota_verdict r = Some True"
  shows "case r of
      Served n \<Rightarrow> False
    | Relayed n st q \<Rightarrow> n + 1 = length (cd_calls s') \<and> quota_failed (answer_to w (cd_calls s' ! n))
    | Refused st code q \<Rightarrow> \<forall>x\<in>set (cd_calls s'). quota_failed (answer_to w x)"
  using handle_sound [OF at_start_sound [OF assms(1)] assms(2)] assms(3)
  by (cases r) (auto simp: sound_reply_def quota_only_def)

section \<open>Sample requests\<close>

text \<open>One dispatch is enough when it settles, or when waiting is switched off.\<close>

lemma one_dispatch_settles:
  "ts \<noteq> [] \<Longrightarrow> fst (one_dispatch c w ts 0 s) = Settled_with r \<Longrightarrow> handleComboChat c w ts s = Some (r, snd (one_dispatch c w ts 0 s))"
  by (simp add: handleComboChat_def dispatchWithCooldownRetry_def wait_loop.simps case_prod_unfold)

lemma one_dispatch_gives_up:
  "ts \<noteq> [] \<Longrightarrow> fst (one_dispatch c w ts 0 s) = Crystallized st \<Longrightarrow> \<not> ws_enabled (cc_wait c)
   \<Longrightarrow> handleComboChat c w ts s = Some (give_up c (wd_passNow w 0) ts st (snd (one_dispatch c w ts 0 s)))"
proof -
  assume a: "ts \<noteq> []" "fst (one_dispatch c w ts 0 s) = Crystallized st" "\<not> ws_enabled (cc_wait c)"
  then have "combo_decide (cc_wait c) 0 b x = None" for b x
    by (simp add: combo_decide_def split: option.split)
  with a show ?thesis by (simp add: handleComboChat_def dispatchWithCooldownRetry_def wait_loop.simps case_prod_unfold Let_def)
qed

definition cx_config :: combo_config where
  "cx_config =
     \<lparr>cc_strategy = ''priority'', cc_name = ''best'', cc_session = ''s1'', cc_maxRetries = 1, cc_maxSetRetries = 0,
      cc_maxGlobalAttempts = 30, cc_comboTimeoutMs = 0, cc_fallbackDelayMs = 0, cc_failoverBeforeRetryExplicit = False,
      cc_providerCooldownEnabled = False, cc_cooldown = \<lparr>cs_minRetryCooldownMs = None, cs_maxRetryCooldownMs = None\<rparr>,
      cc_lockouts = \<lparr>los_enabled = False, los_errorCodes = [], los_baseCooldownMs = 120000, los_maxCooldownMs = 1800000, los_useExponentialBackoff = True\<rparr>,
      cc_names = ml_names, cc_profile = (\<lambda>_. None), cc_parseModel = (\<lambda>m. m), cc_quotaAwareRouting = False,
      cc_rules = \<lparr>er_hasPerModelQuota = \<lambda>_. False, er_honorsRuleLockScope = \<lambda>_. False, er_isAlibabaModelStudio = \<lambda>_. False,
        er_alibabaFreeQuota = \<lambda>_. False, er_textMeansQuotaExhausted = \<lambda>_. False, er_cloudflare1010 = \<lambda>_. False,
        er_contextOverflow = \<lambda>_. False, er_paramValidation = \<lambda>_. False, er_modelScoped = \<lambda>_. False\<rparr>,
      cc_breaker = \<lambda>_. no_options,
      cc_wait = \<lparr>ws_enabled = False, ws_maxWaitMs = 0, ws_maxAttempts = 0, ws_budgetMs = 0\<rparr>\<rparr>"

definition cx_target :: "string \<Rightarrow> string \<Rightarrow> combo_target" where
  "cx_target p conn =
     \<lparr>tg_executionKey = p @ conn, tg_modelStr = p @ ''/m'', tg_rawModel = ''m'', tg_provider = p, tg_connectionId = conn,
      tg_fallbackOnlyOnQuota = False\<rparr>"

definition cx_failure :: "int \<Rightarrow> bool \<Rightarrow> upstream_answer" where
  "cx_failure status quota =
     Failed \<lparr>fa_failure = \<lparr>tf_status = status, tf_errorText = ''no'', tf_code = None, tf_type = None, tf_breakerHeader = None,
              tf_fallback = \<lparr>fb_shouldFallback = True, fb_reason = ''x'', fb_cooldownMs = 0, fb_creditsExhausted = False,
                fb_dailyQuotaExhausted = False, fb_permanent = False, fb_ruleScope = [], fb_skipProviderBreaker = False,
                fb_usedUpstreamRetryHint = False, fb_quotaResetHintMs = None\<rparr>,
              tf_isTokenLimitBreach = False, tf_allAccountsRateLimited = False, tf_requestScopedFailure = False\<rparr>,
            fa_retryAfter = None, fa_selectedConnection = None, fa_streamReadiness = False, fa_streamEarlyEof = False,
            fa_localQueueCapacity = False, fa_localOrMissing = False, fa_quotaExhausted = quota, fa_classified = None\<rparr>"

definition cx_world :: "(nat \<Rightarrow> upstream_answer) \<Rightarrow> combo_world" where
  "cx_world answers =
     \<lparr>wd_startTime = 0,
      wd_gates = \<lambda>_. \<lparr>gv_now = 1, gv_row = None, gv_quotaBlocked = False, gv_affordable = True,
        gv_available = True, gv_credentialAllowed = True, gv_atCapacity = False, gv_laneOpen = True, gv_doneAt = 1\<rparr>,
      wd_attempts = \<lambda>n. \<lparr>av_now = 1, av_aborted = False, av_predictedSlow = False, av_abortedInDelay = False, av_row = None, av_answer = answers n,
        av_abortedInWait = False\<rparr>,
      wd_setAborts = \<lambda>_. False, wd_passNow = \<lambda>_. 1, wd_waitAborts = \<lambda>_. False\<rparr>"

definition cx_start :: combo_state where
  "cx_start =
     \<lparr>cd_visits = 0, cd_turns = 0, cd_setDelays = 0, cd_calls = [], cd_lockouts = ml_empty, cd_globalAttempts = 0, cd_attemptOrder = [],
      cd_fallbackCount = 0, cd_recordedAttempts = 0, cd_comboErrors = [], cd_lastError = None, cd_lastStatus = None,
      cd_earliestRetryAfter = None, cd_observedFailure = False, cd_allQuota = True, cd_trust = [], cd_sets = no_exhaustion,
      cd_dispatchedTargets = [], cd_trace = \<lparr>ctr_createdAt = 0, ctr_decisions = [], ctr_terminal = None\<rparr>, cd_health = no_health None,
      cd_failures = []\<rparr>"

lemma cx_at_start [simp]: "at_start cx_start"
  by (simp add: at_start_def cx_start_def)

lemma combo_work_is_bounded_witness:
  "\<exists>r s'. handleComboChat cx_config (cx_world (\<lambda>_. Hangs)) [cx_target ''glm'' ''a''] cx_start = Some (r, s')
     \<and> int (length (cd_calls s')) \<le> clampGlobalAttempts None \<and> length (cd_calls s') \<le> 200"
  by (rule combo_work_is_bounded) (simp_all add: cx_config_def clampGlobalAttempts_def MAX_GLOBAL_ATTEMPTS_def)

text \<open>The first target fails twice with a 503, the second answers.\<close>

definition cx_recovers :: "nat \<Rightarrow> upstream_answer" where
  "cx_recovers n = (if n < 2 then cx_failure 503 False else Accepted None)"

definition cx_pair :: "combo_target list" where
  "cx_pair = [cx_target ''glm'' ''a'', cx_target ''kimi'' ''b'']"

lemma cx_recovers_run:
  "fst (one_dispatch cx_config (cx_world cx_recovers) cx_pair 0 cx_start) = Settled_with (Served 2)"
  by code_simp

lemma first_success_is_served_witness:
  "\<exists>s' xs x. handleComboChat cx_config (cx_world cx_recovers) cx_pair cx_start = Some (Served 2, s')
     \<and> cd_calls s' = xs @ [x] \<and> 2 = length xs \<and> accepted (answer_to (cx_world cx_recovers) x)"
proof -
  have "handleComboChat cx_config (cx_world cx_recovers) cx_pair cx_start
      = Some (Served 2, snd (one_dispatch cx_config (cx_world cx_recovers) cx_pair 0 cx_start))"
    by (rule one_dispatch_settles [OF _ cx_recovers_run]) (simp add: cx_pair_def)
  with first_success_is_served [OF cx_at_start this, of 2] show ?thesis by blast
qed

lemma cx_no_quota_run:
  "fst (one_dispatch cx_config (cx_world (\<lambda>_. cx_failure 429 True)) cx_pair 0 cx_start) = Crystallized 429"
  by code_simp

lemma cx_no_quota_reply:
  "fst (give_up cx_config 1 cx_pair 429 (snd (one_dispatch cx_config (cx_world (\<lambda>_. cx_failure 429 True)) cx_pair 0 cx_start)))
   = Refused 429 ''quota_exhausted'' (Some True)"
  by code_simp

lemma quota_verdict_is_sound_witness:
  "\<exists>s'. handleComboChat cx_config (cx_world (\<lambda>_. cx_failure 429 True)) cx_pair cx_start
      = Some (Refused 429 ''quota_exhausted'' (Some True), s')
     \<and> list_all (\<lambda>x. quota_failed (answer_to (cx_world (\<lambda>_. cx_failure 429 True)) x)) (cd_calls s')"
proof -
  let ?d = "one_dispatch cx_config (cx_world (\<lambda>_. cx_failure 429 True)) cx_pair 0 cx_start"
  have "handleComboChat cx_config (cx_world (\<lambda>_. cx_failure 429 True)) cx_pair cx_start
      = Some (give_up cx_config (wd_passNow (cx_world (\<lambda>_. cx_failure 429 True)) 0) cx_pair 429 (snd ?d))"
    by (rule one_dispatch_gives_up [OF _ cx_no_quota_run]) (simp_all add: cx_pair_def cx_config_def)
  moreover have "wd_passNow (cx_world (\<lambda>_. cx_failure 429 True)) 0 = 1" by (simp add: cx_world_def)
  moreover obtain s' where "give_up cx_config 1 cx_pair 429 (snd ?d) = (Refused 429 ''quota_exhausted'' (Some True), s')"
    using cx_no_quota_reply by (metis prod.collapse)
  ultimately have "handleComboChat cx_config (cx_world (\<lambda>_. cx_failure 429 True)) cx_pair cx_start
      = Some (Refused 429 ''quota_exhausted'' (Some True), s')" by simp
  with quota_verdict_is_sound [OF cx_at_start this] show ?thesis by (auto simp: list_all_iff)

qed

end
