(* ===== verification/ComboOrder.thy ===== *)
theory ComboOrder
  imports ComboRouting
begin

text \<open>
  Which targets a pass leaves alone: an account that rejected its credentials is not called again, and a protected target hands over
  only after quota failures.
\<close>

section \<open>Rejected accounts\<close>

definition marked :: "combo_target \<Rightarrow> exhaustion_sets \<Rightarrow> bool" where
  "marked d x \<longleftrightarrow>
     (if tg_connectionId d \<noteq> [] then connection_key d \<in> set (xs_connections x) else tg_provider d \<in> set (xs_providers x))"

definition same_account :: "combo_target \<Rightarrow> combo_target \<Rightarrow> bool" where
  "same_account u d \<longleftrightarrow> tg_provider u = tg_provider d \<and> (tg_connectionId d = [] \<or> tg_connectionId u = tg_connectionId d)"

definition grown :: "exhaustion_sets \<Rightarrow> exhaustion_sets \<Rightarrow> bool" where
  "grown x y \<longleftrightarrow> set (xs_connections x) \<subseteq> set (xs_connections y) \<and> set (xs_providers x) \<subseteq> set (xs_providers y)"

lemma grown_refl [simp]: "grown x x"
  by (simp add: grown_def)

lemma grown_trans: "grown x y \<Longrightarrow> grown y z \<Longrightarrow> grown x z"
  by (auto simp: grown_def)



lemma mark_connection_grown [simp]: "grown x (mark_connection t x)" "marked t (mark_connection t x)"
  by (auto simp: grown_def marked_def mark_connection_def)

lemma exhaustion_grown [simp]: "grown x (snd (applyComboTargetExhaustion r t f x))"
  unfolding applyComboTargetExhaustion_def Let_def markTransientOrConnectionLevel_def markConnectionLevelExhaustion_def
  by (auto simp: grown_def mark_connection_def)


text \<open>The account that a call found unauthorized.\<close>

definition turned_away :: "combo_world \<Rightarrow> combo_target \<times> nat \<Rightarrow> combo_target option" where
  "turned_away w x =
     (case answer_to w x of
        Failed a \<Rightarrow>
          if tf_status (fa_failure a) = 401 \<and> known_provider (tg_provider (fst x))
          then Some (with_selected (fa_selectedConnection a) (fst x)) else None
      | _ \<Rightarrow> None)"

lemma with_selected_provider [simp]: "tg_provider (with_selected sel t) = tg_provider t"
  by (simp add: with_selected_def split: option.split)


text \<open>A failure after which the pass goes on has marked what it found.\<close>

definition goes_on :: "target_end option \<Rightarrow> bool" where
  "goes_on e \<longleftrightarrow> e = None \<or> e = Some NextTarget"

lemma goes_on_simps [simp]: "goes_on None" "goes_on (Some NextTarget)" "\<not> goes_on (Some (Answer r))" "\<not> goes_on (Some Hung)"
  by (simp_all add: goes_on_def)




text \<open>No call of a log goes to an account that an earlier call of it found unauthorized.\<close>

primrec spares :: "combo_world \<Rightarrow> (combo_target \<times> nat) list \<Rightarrow> bool" where
  "spares w [] = True"
| "spares w (x # xs) \<longleftrightarrow> (case turned_away w x of None \<Rightarrow> True | Some d \<Rightarrow> \<forall>u\<in>set xs. \<not> same_account (fst u) d) \<and> spares w xs"

definition avoided :: "combo_world \<Rightarrow> (combo_target \<times> nat) list \<Rightarrow> combo_target \<Rightarrow> bool" where
  "avoided w xs t \<longleftrightarrow> (\<forall>x\<in>set xs. \<forall>d. turned_away w x = Some d \<longrightarrow> \<not> same_account t d)"

definition all_marked :: "combo_world \<Rightarrow> (combo_target \<times> nat) list \<Rightarrow> exhaustion_sets \<Rightarrow> bool" where
  "all_marked w xs x \<longleftrightarrow> (\<forall>y\<in>set xs. \<forall>d. turned_away w y = Some d \<longrightarrow> marked d x)"

lemma spares_snoc [simp]: "spares w (xs @ [y]) \<longleftrightarrow> spares w xs \<and> avoided w xs (fst y)"
  by (induction xs) (auto simp: avoided_def split: option.splits)

lemma log_simps [simp]:
  "avoided w (xs @ [y]) t \<longleftrightarrow> avoided w xs t \<and> (\<forall>d. turned_away w y = Some d \<longrightarrow> \<not> same_account t d)"
  "all_marked w (xs @ [y]) x \<longleftrightarrow> all_marked w xs x \<and> (\<forall>d. turned_away w y = Some d \<longrightarrow> marked d x)"
  "avoided w [] t" "all_marked w [] x"
  by (auto simp: avoided_def all_marked_def)
















text \<open>The account \<open>a\<close> answers 401; a target of the provider that names no account is called, and \<open>a\<close> serves it.\<close>

lemma an_unpinned_target_may_reach_a_rejected_account:
  "map (\<lambda>x. (tg_connectionId (fst x), answer_to (cx_world (\<lambda>n. if n = 0 then cx_failure 401 False else Accepted (Some ''a''))) x))
     (cd_calls (snd (run_targets cx_config (cx_world (\<lambda>n. if n = 0 then cx_failure 401 False else Accepted (Some ''a''))) 0
       [cx_target ''glm'' ''a'', cx_target ''glm'' []] cx_start)))
   = [(''a'', cx_failure 401 False), ([], Accepted (Some ''a''))]"
  by code_simp

section \<open>Protected targets\<close>

lemma observeFailure_trust [simp]:
  "key \<noteq> [] \<Longrightarrow> jm_get (cd_trust (observeFailure q key s)) key
     = Some (True, (case jm_get (cd_trust s) key of None \<Rightarrow> q | Some x \<Rightarrow> snd x \<and> q))"
  by (simp add: observeFailure_def case_prod_unfold Let_def split: option.split)

lemma retry_or_give_up_trust [simp]: "cd_trust (snd (retry_or_give_up c v a i t t' rest retry pe s)) = cd_trust s"
  by (simp add: retry_or_give_up_def Let_def case_prod_unfold snd_if if_distrib [of cd_trust] split del: if_split cong: if_cong)

lemma protected_gives_up:
  assumes "protectedPriorityTarget c t"
  shows "fst (retry_or_give_up c v a i t t' rest retry pe s) = Some NextTarget \<longrightarrow> target_trust t s = (True, True)"
    and "fst (retry_or_give_up c v a i t t' rest retry pe s) = None \<longrightarrow> retry < cc_maxRetries c"
  using assms by (simp_all add: retry_or_give_up_def Let_def case_prod_unfold)

lemma on_failure_settles:
  assumes "goes_on (fst (on_failure c v a i t rest retry s))"
  shows "\<exists>a' t' pe s1. on_failure c v a i t rest retry s =
      retry_or_give_up c v a' i t t' rest retry pe (observeFailure (isQuotaExhaustionResponse a) (tg_executionKey t) s1)
    \<and> cd_trust s1 = cd_trust s"
proof -
  let ?f = "(fa_failure a)\<lparr>tf_requestScopedFailure :=
        (fa_localOrMissing a \<or> isRequestScopedUpstreamFailure (tf_code (fa_failure a)) (tf_type (fa_failure a)))\<rparr>"
  let ?a = "a\<lparr>fa_failure := ?f\<rparr>" and ?t = "with_selected (fa_selectedConnection a) t"
  let ?x = "applyComboTargetExhaustion (cc_rules c) ?t ?f (cd_sets s)"
  have "on_failure c v a i t rest retry s =
      retry_or_give_up c v ?a i t ?t rest retry (fst ?x)
        (observeFailure (isQuotaExhaustionResponse a) (tg_executionKey t)
          (tell_breaker c (av_now v) ?t rest ?a ((track_retry_after (fa_retryAfter a) s)\<lparr>cd_sets := snd ?x\<rparr>)))"
    using assms by (auto simp: on_failure_def Let_def case_prod_unfold split: if_splits)
  moreover have "cd_trust (tell_breaker c (av_now v) ?t rest ?a ((track_retry_after (fa_retryAfter a) s)\<lparr>cd_sets := snd ?x\<rparr>)) = cd_trust s"
    by simp
  ultimately show ?thesis by blast
qed

text \<open>What a protected target's trust holds after it has failed.\<close>

definition trusted :: "combo_target \<Rightarrow> combo_state \<Rightarrow> bool" where
  "trusted t s \<longleftrightarrow> (case jm_get (cd_trust s) (tg_executionKey t) of None \<Rightarrow> True | Some x \<Rightarrow> snd x)"

lemma on_failure_protected:
  assumes "on_failure c v a i t rest retry s = (e, s')" and "goes_on e"
    and "protectedPriorityTarget c t" and "tg_executionKey t \<noteq> []"
  shows "trusted t s' = (trusted t s \<and> isQuotaExhaustionResponse a) \<and> (e = Some NextTarget \<longrightarrow> trusted t s') \<and> (e = None \<longrightarrow> retry < cc_maxRetries c)"
proof -
  obtain a' t' pe s1 where r: "retry_or_give_up c v a' i t t' rest retry pe (observeFailure (isQuotaExhaustionResponse a) (tg_executionKey t) s1) = (e, s')"
    and s1: "cd_trust s1 = cd_trust s"
    using on_failure_settles [of c v a i t rest retry s] assms(1,2) by auto
  let ?s2 = "observeFailure (isQuotaExhaustionResponse a) (tg_executionKey t) s1"
  have "cd_trust s' = cd_trust ?s2" using retry_or_give_up_trust [of c v a' i t t' rest retry pe ?s2] r by simp
  with protected_gives_up [OF assms(3), of v a' i t' rest retry pe ?s2] r s1 assms(4) show ?thesis
    by (auto simp: trusted_def target_trust_def split: option.splits)
qed

lemma attempt_once_protected:
  assumes "attempt_once c (wd_attempts w (cd_turns s)) allow i t rest retry s = (e, s')" and "goes_on e"
    and "protectedPriorityTarget c t" and "tg_executionKey t \<noteq> []"
    and "\<not> persisted_cooldown_skip (av_now (wd_attempts w (cd_turns s))) t (av_row (wd_attempts w (cd_turns s))) False"
  shows "trusted t s' = (trusted t s \<and> quota_failed (answer_to w (t, cd_turns s))) \<and> cd_calls s' = cd_calls s @ [(t, cd_turns s)]
    \<and> (e = Some NextTarget \<longrightarrow> trusted t s') \<and> (e = None \<longrightarrow> retry < cc_maxRetries c)"
proof -
  let ?v = "wd_attempts w (cd_turns s)"
  let ?d = "dispatch_call (av_now ?v) t (cd_turns s) (s\<lparr>cd_turns := cd_turns s + 1, cd_globalAttempts := cd_globalAttempts s + 1\<rparr>)"
  have "\<not> persisted_cooldown_skip (av_now ?v) t (av_row ?v) allow" using assms(5) by (simp add: persisted_cooldown_skip_def split: if_splits)
  then have a: "on_answer c ?v i t rest retry ?d = (e, s')"
    using assms(1-3) by (auto simp: attempt_once_def stopProtectedPriorityTarget_def Let_def split: if_splits)
  have calls: "cd_calls s' = cd_calls s @ [(t, cd_turns s)]" using on_answer_end [OF a] by simp
  have trust: "trusted t ?d = trusted t s" by (simp add: trusted_def)
  show ?thesis
  proof (cases "av_answer ?v")
    case (Failed f)
    then have "on_failure c ?v f i t rest retry ?d = (e, s')" using a by (simp add: on_answer_def)
    from on_failure_protected [OF this assms(2-4)] Failed calls trust show ?thesis by (auto simp: answer_to_def)
  next
    case (LowQuality r)
    then show ?thesis using a assms(2,3) by (auto simp: on_answer_def on_low_quality_def case_prod_unfold Let_def)
  qed (use a assms(2) in \<open>auto simp: on_answer_def\<close>)
qed

definition quota_since :: "combo_world \<Rightarrow> nat \<Rightarrow> combo_state \<Rightarrow> bool" where
  "quota_since w k s \<longleftrightarrow> (\<forall>x\<in>set (drop k (cd_calls s)). quota_failed (answer_to w x))"

lemma attempts_protected:
  assumes "attempts c w allow i t rest left retry s = (NextTarget, s')" and "left + retry = cc_maxRetries c + 1" and "0 < left"
    and "protectedPriorityTarget c t" and "tg_executionKey t \<noteq> []"
    and "\<forall>n. \<not> persisted_cooldown_skip (av_now (wd_attempts w n)) t (av_row (wd_attempts w n)) False"
    and "k \<le> length (cd_calls s)" and "trusted t s \<longrightarrow> quota_since w k s"
  shows "quota_since w k s'"
  using assms
proof (induction left arbitrary: retry s)
  case (Suc left)
  obtain e1 s1 where a: "attempt_once c (wd_attempts w (cd_turns s)) allow i t rest retry s = (e1, s1)" by force
  have go: "goes_on e1" using Suc.prems(1) a by (auto simp: goes_on_def split: option.splits)
  note x = attempt_once_protected [OF a go Suc.prems(4,5) spec [OF Suc.prems(6)]]
  have q: "trusted t s1 \<longrightarrow> quota_since w k s1" using x Suc.prems(7,8) by (auto simp: quota_since_def)
  show ?case
  proof (cases e1)
    case None
    then have "0 < left" using x Suc.prems(2) by simp
    with Suc.IH [of "retry + 1" s1] Suc.prems a None x q show ?thesis by simp
  next
    case (Some e)
    then show ?thesis using x q Suc.prems(1) a by auto
  qed
qed simp

text \<open>C4. A protected target of a priority combo hands over for want of quota only: when the combo moves on from it without answering,
  every call that it made on this visit was answered by a quota failure. No retry may find the row of the connection in cooldown or
  blocked (an active, a missing and an unreadable row are all fine): then the code also moves on silently, see
  \<open>a_cooldown_row_lets_a_protected_target_fall_back\<close>.\<close>

theorem protected_target_falls_back_on_quota_only:
  assumes "executeTarget c w i t rest s = (NextTarget, s')" and "protectedPriorityTarget c t" and "tg_executionKey t \<noteq> []"
    and "\<forall>n. \<not> persisted_cooldown_skip (av_now (wd_attempts w n)) t (av_row (wd_attempts w n)) False"
  shows "\<forall>x\<in>set (drop (length (cd_calls s)) (cd_calls s')). quota_failed (answer_to w x)"
proof -
  let ?s = "s\<lparr>cd_visits := cd_visits s + 1\<rparr>"
  obtain e1 s1 where g: "gate_target c (wd_gates w (cd_visits s)) i t ?s = (e1, s1)" by force
  have calls: "cd_calls s1 = cd_calls s" using gate_target_end [OF g] by simp
  show ?thesis
  proof (cases e1)
    case None
    then have "attempts c w (allowRateLimitedConnection t s1) i t rest (cc_maxRetries c + 1) 0 s1 = (NextTarget, s')"
      using assms(1) g by (simp add: executeTarget_def Let_def del: attempts.simps)
    from attempts_protected [OF this _ _ assms(2-4), of "length (cd_calls s)"] calls show ?thesis by (simp add: quota_since_def)
  next
    case (Some x)
    then show ?thesis using assms(1) g calls by (simp add: executeTarget_def)
  qed
qed

definition cx_protected :: combo_target where
  "cx_protected = (cx_target ''glm'' ''a'')\<lparr>tg_fallbackOnlyOnQuota := True\<rparr>"

text \<open>Every call is answered by a quota failure, and the row of the connection is there and active.\<close>

definition cx_active_world :: combo_world where
  "cx_active_world = (cx_world (\<lambda>_. cx_failure 429 True))\<lparr>wd_attempts := \<lambda>n.
     (wd_attempts (cx_world (\<lambda>_. cx_failure 429 True)) n)\<lparr>av_row := Some \<lparr>cs_testStatus = ''active'', cs_rateLimitedUntil = None\<rparr>\<rparr>\<rparr>"

lemma cx_protected_quota_run:
  "fst (executeTarget cx_config cx_active_world 0 cx_protected cx_pair cx_start) = NextTarget"
  by code_simp

lemma cx_active_row: "\<not> persisted_cooldown_skip (av_now (wd_attempts cx_active_world n)) t (av_row (wd_attempts cx_active_world n)) False"
proof -
  have "normalizeConnectionStatus ''active'' = ''active''" by code_simp
  then show ?thesis
    by (simp add: persisted_cooldown_skip_def cx_active_world_def hasFutureRateLimitUntil_def QUOTA_BLOCKING_CONNECTION_STATUSES_def)
qed

lemma protected_target_falls_back_on_quota_only_witness:
  "list_all (\<lambda>x. quota_failed (answer_to cx_active_world x))
     (cd_calls (snd (executeTarget cx_config cx_active_world 0 cx_protected cx_pair cx_start)))"
proof -
  have run: "executeTarget cx_config cx_active_world 0 cx_protected cx_pair cx_start
      = (NextTarget, snd (executeTarget cx_config cx_active_world 0 cx_protected cx_pair cx_start))"
    using cx_protected_quota_run by (metis prod.collapse)
  have "cd_calls cx_start = []" by (simp add: cx_start_def)
  with protected_target_falls_back_on_quota_only [OF run] cx_active_row show ?thesis
    by (simp add: list_all_iff protectedPriorityTarget_def cx_config_def cx_protected_def cx_target_def)
qed

text \<open>A timeout whose retry finds the row of the connection in cooldown: the combo moves on, though the failure was no quota failure.\<close>

definition cx_cooling_world :: combo_world where
  "cx_cooling_world = (cx_world (\<lambda>_. cx_failure 503 False))\<lparr>wd_attempts := \<lambda>n.
     (wd_attempts (cx_world (\<lambda>_. cx_failure 503 False)) n)\<lparr>av_row := Some \<lparr>cs_testStatus = [], cs_rateLimitedUntil = Some 100\<rparr>\<rparr>\<rparr>"

lemma a_cooldown_row_lets_a_protected_target_fall_back:
  "(let (e, s) = executeTarget cx_config cx_cooling_world 0 cx_protected cx_pair cx_start
    in (e, map (\<lambda>x. quota_failed (answer_to cx_cooling_world x)) (cd_calls s))) = (NextTarget, [False])"
  by code_simp

text \<open>The trace of a pass is closed with 200 before the response is looked at, also when the response relays an error.\<close>

lemma a_relayed_error_is_traced_as_a_success:
  "(let (e, s) = one_dispatch cx_config (cx_world (\<lambda>_. cx_failure 499 False)) cx_pair 0 cx_start in (e, ctr_terminal (cd_trace s)))
   = (Settled_with (Relayed 0 499 None), Some 200)"
  by code_simp

text \<open>A protected target times out, and its retry is answered by a quota failure: the response of the retry is relayed with the verdict
  that it is a quota failure. A combo that has this one as a target trusts the verdict and falls back, also from a protected target.\<close>

definition cx_mixed :: "nat \<Rightarrow> upstream_answer" where
  "cx_mixed n = (if n = 0 then cx_failure 503 False else cx_failure 429 True)"

lemma a_relayed_verdict_hides_other_failures:
  "(let (e, s) = one_dispatch cx_config (cx_world cx_mixed) [cx_protected] 0 cx_start
    in (e, map (\<lambda>x. quota_failed (answer_to (cx_world cx_mixed) x)) (cd_calls s)))
   = (Settled_with (Relayed 1 429 (Some True)), [False, True])"
  by code_simp

section \<open>Locked models\<close>

lemma gate_target_locked:
  assumes "fst (isModelLocked (cc_names c) (gv_now g) (tg_provider t) (tg_connectionId t) (tg_rawModel t) (cd_lockouts s))" and "tg_provider t \<noteq> []"
  shows "fst (gate_target c g i t s) \<noteq> None"
proof -
  have "tg_rawModel t \<noteq> []" using assms(1) by (auto simp: isModelLocked_def split: if_splits)
  then have "fst (model_locked c (gv_now g) t (s\<lparr>cd_health := h\<rparr>))" for h
    using assms by (simp add: model_locked_def case_prod_unfold Let_def)
  then show ?thesis by (simp add: gate_target_def Let_def case_prod_unfold del: not_None_eq)
qed

text \<open>C7. A model that was locked on an account is not called there before its cooldown is over: whatever happened to the lockouts since
  the failure was recorded, short of clearing them, a visit of the target that starts within the cooldown makes no call.\<close>

theorem cooling_model_is_not_called:
  assumes "recordModelLockoutFailure (cc_names c) now (tg_provider t) (tg_connectionId t) (tg_rawModel t) reason st fb prof opts L0 = (r, L)"
    and "tables_ok L0" and "tg_provider t \<noteq> []" and "tg_rawModel t \<noteq> []" and "cd_lockouts s = lock_run (cc_names c) es L"
    and "\<forall>(u, ev)\<in>set es. u < now + lr_cooldownMs r
           \<and> spares_keys (cc_names c) (set (getModelLockKeys (cc_names c) (tg_provider t) (tg_connectionId t) (tg_rawModel t))) ev"
    and "gv_now (wd_gates w (cd_visits s)) < now + lr_cooldownMs r"
  shows "cd_calls (snd (executeTarget c w i t rest s)) = cd_calls s"
proof -
  let ?s = "s\<lparr>cd_visits := cd_visits s + 1\<rparr>" and ?g = "wd_gates w (cd_visits s)"
  have "fst (isModelLocked (cc_names c) (gv_now ?g) (tg_provider t) (tg_connectionId t) (tg_rawModel t) (cd_lockouts ?s))"
    using served_lockout [OF assms(1,2,4,6,7)] assms(5) by simp
  then obtain e where "fst (gate_target c ?g i t ?s) = Some e" using gate_target_locked assms(3) by blast
  then show ?thesis using gate_target_frame(1) [of c ?g i t ?s] by (simp add: executeTarget_def Let_def case_prod_unfold split: option.split)
qed

lemma ml_empty_ok: "tables_ok ml_empty"
  by (simp add: tables_ok_def ml_empty_def)

lemma cooling_model_is_not_called_witness:
  "cd_calls (snd (executeTarget cx_config (cx_world (\<lambda>_. Accepted None)) 0 (cx_target ''glm'' ''a'') []
     (cx_start\<lparr>cd_lockouts := snd (recordModelLockoutFailure ml_names 0 ''glm'' ''a'' ''m'' ''rate_limit'' 429 (Some 3000) None ml_opts ml_empty)\<rparr>)))
   = cd_calls cx_start"
proof -
  let ?rec = "recordModelLockoutFailure ml_names 0 ''glm'' ''a'' ''m'' ''rate_limit'' 429 (Some 3000) None ml_opts ml_empty"
  have r: "lr_cooldownMs (fst ?rec) = 3000" by code_simp
  let ?s = "cx_start\<lparr>cd_lockouts := snd ?rec\<rparr>"
  have "cd_calls (snd (executeTarget cx_config (cx_world (\<lambda>_. Accepted None)) 0 (cx_target ''glm'' ''a'') [] ?s)) = cd_calls ?s"
    by (rule cooling_model_is_not_called [where now = 0 and reason = "''rate_limit''" and st = 429 and fb = "Some 3000" and prof = None
          and opts = ml_opts and ?L0.0 = ml_empty and r = "fst ?rec" and L = "snd ?rec" and es = "[]"])
      (simp_all add: r ml_empty_ok cx_config_def cx_target_def cx_world_def cx_start_def lock_run_def)
  then show ?thesis by simp
qed

end
