(* ===== verification/Spec2Isabelle.thy ===== *)
theory Spec2Isabelle
  imports CircuitRegistry AdmissionController WorkflowFSM AccountSemaphore RateLimitSemaphore
    RollingRpmGate QuotaShare ThinkTags IpFilter Sha3 ShuffleDeck JsonSize QuotaEnforce
    ComboFailures CooldownRetry RoundRobin PolicyEngine TokenRefresh RefreshRetry
    ProviderCooldown StreamState ResourcePressure ComboOrder
begin

text \<open>
  A verification library for the request-resilience core of OmniRoute, a gateway that accepts
  chat requests in several API dialects and routes each to one of many upstream accounts.

  \<^bold>\<open>The program.\<close> A request passes the IP filter and the policy engine (lockouts, budgets,
  fallback chains), is admitted by the adaptive admission controller, and is routed through a combo: an ordered set of
  models and accounts. On the way every account is held to concurrency gates, request-rate windows, shares of its quota,
  circuit breakers and cooldowns; tokens that expire are refreshed; the answer is streamed back while its reasoning tags are
  split off, and its cost is written behind. The parts keep their state in module-level maps and in SQLite tables, run in one
  thread, and interleave at \<open>await\<close>s and timers.

  \<^bold>\<open>How the model reads the code.\<close> An operation is a HOL function of its arguments, of the clock reading
  \<open>now\<close> and of the component's state, and returns its result with the new state. Code between two awaits is one step;
  timers, abort listeners and answers from outside are events, so an interleaving is a list of events (a run). A \<open>Map\<close> is an
  insertion-ordered association list with the laws of \<open>keyed_store\<close> (\<open>Omni_Prelude\<close>); a promise handed to a caller is a token
  or number with the settlement recorded for it; an object with an identity that timers or callers hold on to is an index
  into a list. A table is a map, with a value for a database that cannot be used. Exceptions are \<open>Inl\<close> or
  \<open>None\<close>. Ratios that the code keeps in doubles are exact rationals: rounding is not modelled. Code outside
  the repository (regular-expression escapes of the host, \<open>Date.parse\<close>, \<open>net.isIP\<close>, hashes of the crypto
  module, random draws, HTTP exchanges) is an argument.

  \<^bold>\<open>Theories, their sources and what their lemmas show.\<close>

  \<^item> \<open>Omni_Prelude\<close>, \<open>JsString\<close>: maps, truthiness and string operations of the language; the locales
    \<open>keyed_store\<close> (interpreted on the insertion-ordered map), \<open>machine\<close> (an invariant carried along runs; interpreted
    on the breaker, the adaptive limit, the controller and both gates) and \<open>measured_machine\<close>.
  \<^item> \<open>CircuitBreaker\<close>, \<open>CircuitRegistry\<close> (\<open>src/shared/utils/circuitBreaker.ts\<close>, rows in
    \<open>src/lib/db/domainState.ts\<close>): the state machine closed, open, half-open with kind thresholds, backoff and persistence;
    a restart restores what was persisted; eviction spares breakers with state.
  \<^item> \<open>FairCostQueue\<close>, \<open>AdmissionCost\<close>, \<open>AdmissionAdaptation\<close>, \<open>AdmissionController\<close>
    (\<open>open-sse/services/admission/\<close> queue, cost, config, types, adaptation, controller): the queue conserves entries, keeps FIFO
    order per tenant (locale \<open>tenant_queue\<close>) and bounds the bypass of a head; enforced cost stays below the maximum; every queued
    request settles exactly once; the decision that closes a window.
  \<^item> \<open>WorkflowFSM\<close> (\<open>open-sse/services/workflowFSM.ts\<close>): the transition table is an executable list; retries and
    model calls are bounded, what is over stays over, and a high-risk task that is done has visited every phase.
  \<^item> \<open>AccountSemaphore\<close>, \<open>RateLimitSemaphore\<close> (\<open>accountSemaphore.ts\<close>, \<open>rateLimitSemaphore.ts\<close>): slots, waiters,
    blocks and their timers; every slot is accounted for by a token.
  \<^item> \<open>SlidingWindow\<close>, \<open>RollingRpmGate\<close> (\<open>slidingWindowLimiter.ts\<close>, \<open>rollingRpmGate.ts\<close>): no interval of the window's
    length sees more than the limit; the waiting loop returns.
  \<^item> \<open>QuotaShare\<close>, \<open>FairShare\<close>, \<open>QuotaEnforce\<close> (\<open>open-sse/services/combo/quotaShare*.ts\<close>, \<open>src/lib/quota/\<close>
    fairShare, dimensions, burnRate, sqliteQuotaStore, enforce, accountBuckets): deficit round robin serves in proportion; the
    decision over a pool; its overshoot is bounded.
  \<^item> \<open>LockoutPolicy\<close>, \<open>BudgetCalendar\<close>, \<open>SpendWriter\<close>, \<open>CostRules\<close>, \<open>FallbackPolicy\<close>, \<open>PolicyEngine\<close>
    (\<open>src/domain/\<close>, \<open>src/lib/spend/batchWriter.ts\<close>): attempts per window; windows partition time; the books of buffered and stored
    costs balance; the overshoot of a budget is bounded; verdicts and glob patterns are exact. \<open>PolicyEngine\<close> composes the
    others as \<open>evaluateRequest\<close> does.
  \<^item> \<open>ComboFailures\<close>, \<open>CooldownRetry\<close>, \<open>RoundRobin\<close>, \<open>ShuffleDeck\<close>, \<open>ProviderCooldown\<close>
    (\<open>open-sse/services/combo/\<close> failureTracker, comboCooldownRetry, rrState, dispatchPrelude, quotaStrategies (tied
    targets); the counters of \<open>handleRoundRobinCombo\<close> in \<open>combo.ts\<close>; \<open>src/sse/services/cooldownAwareRetry.ts\<close>;
    \<open>src/shared/utils/shuffleDeck.ts\<close>; \<open>providerCooldownTracker.ts\<close>): one pin deletion per streak; the waiting loops of
    combos and chats are bounded (locale \<open>wait_policy\<close>, interpreted on both decisions); rotation in exact batches; cleanup keeps running cooldowns.
  \<^item> \<open>ProviderFailures\<close>, \<open>ModelLockouts\<close>, \<open>ComboOutcomes\<close>,
    \<open>ComboTargets\<close>, \<open>ComboDispatch\<close>, \<open>ComboRouting\<close>, \<open>ComboOrder\<close>
    (\<open>open-sse/services/combo.ts\<close> \<open>handleComboChatInner\<close>; \<open>combo/\<close> comboErrorAggregation,
    unavailableRetryGate, decisionTrace, comboPredicates, targetExhaustion; provider breaker wrappers and model lockouts of
    \<open>accountFallback.ts\<close> and \<open>accountFallback/\<close>): the failover of a combo over the breakers, lockouts,
    cooldowns, trackers and waits. \<open>executeTarget\<close> is its gates and its retry loop, the loops over targets, sets
    and cooldown waits are around it; what the rest of the program answers is a record of readings indexed by visit and turn. A
    request returns within its attempt budget; the first accepted answer is the one served; a quota verdict rests on quota
    failures; targets pinned to an account that rejected its credentials are left alone, and so is a model in its lockout, whose
    backoff is exponential; a protected target hands over for want of quota only.
  \<^item> \<open>RefreshSerializer\<close>, \<open>TokenRefresh\<close>, \<open>RefreshRetry\<close> (\<open>refreshSerializer.ts\<close>, \<open>tokenRefresh.ts\<close> and
    \<open>tokenRefresh/\<close> rotationMap, casGuard, circuitBreaker; \<open>src/sse/services/tokenRefresh.ts\<close>): one refresh of a rotation group at a
    time, spaced while siblings are queued, and the lanes drain; no consumed refresh token is presented again under the conditions
    of \<open>orderly\<close>, with counterexamples where the code departs from them; the breaker opens after exactly its threshold.
  \<^item> \<open>StreamState\<close>, \<open>ThinkTags\<close>, \<open>JsonSize\<close>, \<open>Sha3\<close> (\<open>src/sse/services/streamState.ts\<close>,
    \<open>open-sse/utils/\<close> thinkTagParser, jsonSize, sha3-512): transitions stay in the table; the tag parser does not depend on how the
    text is cut; the JSON length and the hash agree with their reference definitions.
  \<^item> \<open>ResourcePressure\<close> (\<open>open-sse/utils/resourcePressurePolicy.ts\<close>, \<open>resourcePressure.ts\<close>): thresholds, classification, hysteresis
    and the cached runtime; a severity changes only after the sustained samples it needs, and does change after them.
  \<^item> \<open>IpFilter\<close> (\<open>open-sse/services/ipFilter.ts\<close>): lists, bans, CIDR arithmetic on 32-bit words; module instances share one policy.

  \<^bold>\<open>Bounds and fuel.\<close> Loops are structural or have a termination proof wherever the code bounds them (ten tag blocks per
  extraction, the attempts of a refresh, the chain of promises, the drain of a queue). \<open>rpm_loop\<close> takes fuel: one unit per
  pass, and \<open>bounded_wait_returns\<close> gives the number of passes a deadline allows. \<open>wait_loop\<close> and \<open>trim_history\<close> are
  \<open>partial_function\<close>s, since the code does not bound them by itself: their properties prove that they return, and the second
  shows the setting under which it does not. The retry and set loops of a combo count down the tries the configuration allows, so
  their recursion is structural.

  \<^bold>\<open>Not modelled.\<close> The strategies that order the targets of a combo (quota share and sticky round robin apart) and the
  dispatch loop of its round-robin handler; hedged requests, which need two targets in flight; the classification of upstream error texts, whose result
  is an argument. The HTTP layer, the executors per provider and the dashboard, CLI and desktop code are input and output or
  presentation around this core; SQLite itself and its migrations are replaced by maps; the metrics and log lines the components
  emit return nothing they read. Gaps within a component are listed in its entry of the manifest.
\<close>

end
